(* ===== verification/PyBase.thy ===== *)
theory PyBase
  imports Main "HOL-Library.List_Lexorder" "HOL-Library.Char_ord"
begin

text \<open>
  Prelude of the development: what every component shares.

  \<^item> \<open>py_error\<close>: the exceptions the modelled code raises, one constructor per class
    of exception the source uses. The text of a message is not modelled.
  \<^item> \<open>'a res\<close>: the result of code that may raise, \<open>Inl\<close> an exception or
    \<open>Inr\<close> a value, with its sequencing \<open>bind_res\<close> and the rewrite rules that
    let \<open>simp\<close> and \<open>auto\<close> run it.
  \<^item> \<open>pyval\<close>: the hashable Python values that the code uses as keys and roots.
  \<^item> \<open>opt_sup\<close>, \<open>dedup\<close>, \<open>assoc\<close> and the lemmas about lists and maps that
    several components need.
\<close>

section \<open>Exceptions and results\<close>

datatype py_error =
    ValueError
  | KeyError
  | TypeError
  | RuntimeError
  | AssertionError
  | SupergraphError
  | SolverLimitExceeded
  | OtherError string

type_synonym 'a res = "py_error + 'a"

definition bind_res :: "'a res \<Rightarrow> ('a \<Rightarrow> 'b res) \<Rightarrow> 'b res" where
  "bind_res m f = (case m of Inl e \<Rightarrow> Inl e | Inr x \<Rightarrow> f x)"

named_theorems res_simps

lemma bind_res_Inl [simp, res_simps]: "bind_res (Inl e) f = Inl e"
  by (simp add: bind_res_def)

lemma bind_res_Inr [simp, res_simps]: "bind_res (Inr x) f = f x"
  by (simp add: bind_res_def)

lemma bind_res_eq_Inr [res_simps]:
  "bind_res m f = Inr y \<longleftrightarrow> (\<exists>x. m = Inr x \<and> f x = Inr y)"
  by (cases m) auto

lemma bind_res_eq_Inl [res_simps]:
  "bind_res m f = Inl e \<longleftrightarrow> m = Inl e \<or> (\<exists>x. m = Inr x \<and> f x = Inl e)"
  by (cases m) auto

lemma bind_res_cong [fundef_cong]:
  "m = m' \<Longrightarrow> (\<And>x. m' = Inr x \<Longrightarrow> f x = f' x) \<Longrightarrow> bind_res m f = bind_res m' f'"
  by (cases m') auto

definition is_ok :: "'a res \<Rightarrow> bool" where
  "is_ok r = (case r of Inl _ \<Rightarrow> False | Inr _ \<Rightarrow> True)"

lemma is_ok_simps [simp]: "\<not> is_ok (Inl e)" "is_ok (Inr x)"
  by (simp_all add: is_ok_def)

lemma is_ok_iff: "is_ok r \<longleftrightarrow> (\<exists>x. r = Inr x)"
  by (cases r) auto

text \<open>A \<open>for\<close> loop whose body may raise: the state is threaded and the first
  exception ends the loop.\<close>

fun fold_res :: "('a \<Rightarrow> 's \<Rightarrow> 's res) \<Rightarrow> 'a list \<Rightarrow> 's \<Rightarrow> 's res" where
  "fold_res f [] s = Inr s"
| "fold_res f (x # xs) s = bind_res (f x s) (fold_res f xs)"

lemma fold_res_append:
  "fold_res f (xs @ ys) s = bind_res (fold_res f xs s) (fold_res f ys)"
  by (induction xs arbitrary: s) (auto simp: bind_res_def split: sum.splits)

lemma fold_res_invariant:
  assumes "fold_res f xs s = Inr s'" and "P s"
    and "\<And>x s s'. x \<in> set xs \<Longrightarrow> P s \<Longrightarrow> f x s = Inr s' \<Longrightarrow> P s'"
  shows "P s'"
  using assms by (induction xs arbitrary: s) (auto simp: bind_res_eq_Inr)

lemma fold_res_cong [fundef_cong]:
  assumes "xs = ys" and "s = t" and "\<And>x u. x \<in> set ys \<Longrightarrow> f x u = g x u"
  shows "fold_res f xs s = fold_res g ys t"
proof -
  have "fold_res f ys t = fold_res g ys t"
    using assms(3)
  proof (induction ys arbitrary: t)
    case Nil
    show ?case by simp
  next
    case (Cons y ys)
    then show ?case by (auto intro!: bind_res_cong)
  qed
  with assms(1,2) show ?thesis by simp
qed

section \<open>Hashable values\<close>

datatype pyval =
    PyNone
  | PyInt int
  | PyStr string
  | PyTuple "pyval list"

section \<open>Lists, maps and options\<close>

text \<open>\<open>tuple(dict.fromkeys(xs))\<close>: the first occurrence of each element, in order.\<close>

fun dedup :: "'a list \<Rightarrow> 'a list" where
  "dedup [] = []"
| "dedup (x # xs) = x # filter (\<lambda>y. y \<noteq> x) (dedup xs)"

lemma set_dedup [simp]: "set (dedup xs) = set xs"
  by (induction xs) auto

lemma distinct_dedup [simp]: "distinct (dedup xs)"
  by (induction xs) auto

lemma dedup_distinct: "distinct xs \<Longrightarrow> dedup xs = xs"
  by (induction xs) (auto simp: filter_id_conv)

lemma dedup_idem: "dedup (dedup xs) = dedup xs"
  by (simp add: dedup_distinct)

text \<open>An insertion into a Python set kept as a list without duplicates.\<close>

definition add_new :: "'a \<Rightarrow> 'a list \<Rightarrow> 'a list" where
  "add_new x xs = (if x \<in> set xs then xs else xs @ [x])"

lemma set_add_new [simp]: "set (add_new x xs) = insert x (set xs)"
  by (auto simp: add_new_def)

lemma distinct_add_new [simp]: "distinct (add_new x xs) = distinct xs"
  by (auto simp: add_new_def)

text \<open>\<open>d.get(k, ())\<close> on a dict of collections.\<close>

definition get_list :: "('k \<rightharpoonup> 'v list) \<Rightarrow> 'k \<Rightarrow> 'v list" where
  "get_list m k = (case m k of None \<Rightarrow> [] | Some vs \<Rightarrow> vs)"

lemma get_list_upd [simp]:
  "get_list (m(k \<mapsto> vs)) k' = (if k' = k then vs else get_list m k')"
  by (simp add: get_list_def)

lemma get_list_empty [simp]: "get_list Map.empty k = []"
  by (simp add: get_list_def)

lemma get_list_None: "m k = None \<Longrightarrow> get_list m k = []"
  by (simp add: get_list_def)

lemma get_list_Some: "m k = Some vs \<Longrightarrow> get_list m k = vs"
  by (simp add: get_list_def)

text \<open>\<open>d.get(k, ())\<close> on a dict of sets.\<close>

definition get_set :: "('k \<rightharpoonup> 'v set) \<Rightarrow> 'k \<Rightarrow> 'v set" where
  "get_set m k = (case m k of None \<Rightarrow> {} | Some vs \<Rightarrow> vs)"

lemma get_set_upd [simp]:
  "get_set (m(k \<mapsto> vs)) k' = (if k' = k then vs else get_set m k')"
  by (simp add: get_set_def)

lemma get_set_empty [simp]: "get_set Map.empty k = {}"
  by (simp add: get_set_def)

text \<open>\<open>str.startswith\<close>.\<close>

fun startswith :: "'a list \<Rightarrow> 'a list \<Rightarrow> bool" where
  "startswith xs [] = True"
| "startswith [] (p # ps) = False"
| "startswith (x # xs) (p # ps) = (x = p \<and> startswith xs ps)"

lemma startswith_iff: "startswith xs ps \<longleftrightarrow> (\<exists>zs. xs = ps @ zs)"
  by (induction xs ps rule: startswith.induct) auto

lemma startswith_refl [simp]: "startswith xs xs"
  by (auto simp: startswith_iff)

lemma startswith_trans:
  "startswith xs ps \<Longrightarrow> startswith ps qs \<Longrightarrow> startswith xs qs"
  by (auto simp: startswith_iff)

lemma startswith_antisym:
  "startswith xs ps \<Longrightarrow> startswith ps xs \<Longrightarrow> xs = ps"
  by (auto simp: startswith_iff)

lemma startswith_length: "startswith xs ps \<Longrightarrow> length ps \<le> length xs"
  by (auto simp: startswith_iff)

lemma startswith_append [simp]: "startswith (ps @ zs) ps"
  by (auto simp: startswith_iff)

text \<open>\<open>s[:-1]\<close>.\<close>

lemma startswith_butlast: "startswith xs (butlast xs)"
  by (metis append_butlast_last_id butlast.simps(1) startswith_append startswith_refl)

end
