(* ===== verification/TaintLocations.thy ===== *)
theory TaintLocations
  imports PyBase
begin

text \<open>
  The access-path locations of the taint domain
  (\<^verbatim>\<open>src/pyflow/checker/common/taint/locations.py\<close>).

  A selector is a tagged union: the class of the source keeps a \<open>kind\<close> and a
  \<open>value\<close>, and its class methods are the only code that builds one, so the model
  has one constructor per kind with the payload those methods store.
  The meaning of a selector is the set of concrete accesses it stands for
  (\<open>sel_denotes\<close>), and the meaning of a location the set of concrete paths at or
  below it (\<open>loc_denotes\<close>); the lemmas say what the overlap tests of the code
  decide about these sets.
\<close>

section \<open>Selectors\<close>

datatype access_selector =
    SAttribute string
  | SKey pyval
  | SIndex int
  | SIndexClass int int
  | SIterableElement pyval
  | SMappingKey string
  | SMappingValue pyval
  | SWildcard

definition index_class :: "int \<Rightarrow> int \<Rightarrow> access_selector res" where
  "index_class modulus residue =
     (if modulus \<le> 0 then Inl ValueError
      else Inr (SIndexClass modulus (residue mod modulus)))"

definition mapping_key :: access_selector where
  "mapping_key = SMappingKey ''<key>''"

fun sel_value :: "access_selector \<Rightarrow> pyval" where
  "sel_value (SAttribute n) = PyStr n"
| "sel_value (SKey v) = v"
| "sel_value (SIndex i) = PyInt i"
| "sel_value (SIndexClass m r) = PyTuple [PyInt m, PyInt r]"
| "sel_value (SIterableElement v) = v"
| "sel_value (SMappingKey k) = PyStr k"
| "sel_value (SMappingValue v) = v"
| "sel_value SWildcard = PyNone"

definition is_imprecise_kind :: "access_selector \<Rightarrow> bool" where
  "is_imprecise_kind s = (case s of SWildcard \<Rightarrow> True | SIndexClass _ _ \<Rightarrow> True | _ \<Rightarrow> False)"

definition sel_is_precise :: "access_selector \<Rightarrow> bool" where
  "sel_is_precise s \<longleftrightarrow> \<not> is_imprecise_kind s \<and> sel_value s \<noteq> PyNone"

fun index_class_parts :: "access_selector \<Rightarrow> (int \<times> int) res" where
  "index_class_parts (SIndexClass m r) = Inr (m, r)"
| "index_class_parts _ = Inl ValueError"

fun may_match :: "access_selector \<Rightarrow> access_selector \<Rightarrow> bool" where
  "may_match SWildcard t = True"
| "may_match s SWildcard = True"
| "may_match (SIndexClass m r) (SIndex i) = (i mod m = r)"
| "may_match (SIndex i) (SIndexClass m r) = (i mod m = r)"
| "may_match (SIndexClass m r) (SIndexClass m' r') = ((r - r') mod gcd m m' = 0)"
| "may_match s t = (s = t)"

text \<open>What the class methods guarantee of a selector.\<close>

fun sel_wf :: "access_selector \<Rightarrow> bool" where
  "sel_wf (SIndexClass m r) = (0 < m \<and> 0 \<le> r \<and> r < m)"
| "sel_wf _ = True"

lemma index_class_wf: "index_class m r = Inr s \<Longrightarrow> sel_wf s"
  by (auto simp: index_class_def split: if_splits)

section \<open>What a selector stands for\<close>

datatype access =
    AAttribute string
  | AKey pyval
  | AIndex int
  | AIterableElement pyval
  | AMappingKey string
  | AMappingValue pyval

fun sel_denotes :: "access_selector \<Rightarrow> access \<Rightarrow> bool" where
  "sel_denotes SWildcard a = True"
| "sel_denotes (SAttribute n) a = (a = AAttribute n)"
| "sel_denotes (SKey v) a = (a = AKey v)"
| "sel_denotes (SIndex i) a = (a = AIndex i)"
| "sel_denotes (SIndexClass m r) (AIndex i) = (i mod m = r)"
| "sel_denotes (SIndexClass m r) a = False"
| "sel_denotes (SIterableElement v) a = (a = AIterableElement v)"
| "sel_denotes (SMappingKey k) a = (a = AMappingKey k)"
| "sel_denotes (SMappingValue v) a = (a = AMappingValue v)"

lemma sel_denotes_index_class:
  "sel_denotes (SIndexClass m r) a \<longleftrightarrow> (\<exists>i. a = AIndex i \<and> i mod m = r)"
  by (cases a) auto

lemma may_match_sym: "may_match s t = may_match t s"
proof -
  have "(r - r') mod gcd m m' = 0 \<longleftrightarrow> (r' - r) mod gcd m' m = 0" for r r' m m' :: int
    by (metis dvd_diff_commute gcd.commute mod_0_imp_dvd dvd_imp_mod_0)
  then show ?thesis
    by (cases s; cases t) auto
qed

lemma may_match_refl [simp]: "may_match s s"
  by (cases s) auto

text \<open>Two residue classes meet exactly when the greatest common divisor of the moduli
  divides the difference of the residues.\<close>

lemma residue_classes_meet:
  fixes m m' r r' :: int
  assumes "0 < m" "0 \<le> r" "r < m" "0 < m'" "0 \<le> r'" "r' < m'"
  shows "(\<exists>i. i mod m = r \<and> i mod m' = r') \<longleftrightarrow> (r - r') mod gcd m m' = 0"
proof
  assume "\<exists>i. i mod m = r \<and> i mod m' = r'"
  then obtain i where "i mod m = r" "i mod m' = r'" by blast
  then have "m dvd i - r" "m' dvd i - r'"
    by (auto simp: minus_mod_eq_mult_div)
  then have "gcd m m' dvd (i - r') - (i - r)"
    by (meson dvd_diff dvd_trans gcd_dvd1 gcd_dvd2)
  then show "(r - r') mod gcd m m' = 0" by simp
next
  assume "(r - r') mod gcd m m' = 0"
  then obtain k where k: "r - r' = gcd m m' * k" by (meson mod_0_imp_dvd dvdE)
  obtain u v where uv: "u * m + v * m' = gcd m m'" using bezout_int by blast
  let ?i = "r + (- (u * k)) * m"
  have "r - r' = (u * m + v * m') * k" using k uv by simp
  then have i2: "?i = r' + (v * k) * m'" by (simp add: algebra_simps)
  have "?i mod m = r" using assms by (simp only: mod_mult_self1 mod_pos_pos_trivial)
  moreover have "?i mod m' = r'"
    unfolding i2 using assms by (simp only: mod_mult_self1 mod_pos_pos_trivial)
  ultimately show "\<exists>i. i mod m = r \<and> i mod m' = r'" by blast
qed

lemma sel_denotes_nonempty:
  assumes "sel_wf s" shows "\<exists>a. sel_denotes s a"
proof (cases s)
  case (SIndexClass m r)
  with assms have "sel_denotes s (AIndex r)" by simp
  then show ?thesis ..
qed auto

lemma may_match_denotes:
  assumes "sel_wf s" "sel_wf t"
  shows "may_match s t \<longleftrightarrow> (\<exists>a. sel_denotes s a \<and> sel_denotes t a)"
proof (cases "\<exists>m r m' r'. s = SIndexClass m r \<and> t = SIndexClass m' r'")
  case True
  then obtain m r m' r' where st: "s = SIndexClass m r" "t = SIndexClass m' r'" by blast
  have "(\<exists>a. sel_denotes s a \<and> sel_denotes t a) \<longleftrightarrow> (\<exists>i. i mod m = r \<and> i mod m' = r')"
    by (auto simp: st sel_denotes_index_class)
  also have "\<dots> \<longleftrightarrow> may_match s t"
    using assms by (simp add: st residue_classes_meet)
  finally show ?thesis ..
next
  case False
  then show ?thesis
    using sel_denotes_nonempty[OF assms(1)] sel_denotes_nonempty[OF assms(2)]
    by (cases s; cases t) (auto simp: sel_denotes_index_class)
qed

section \<open>Locations\<close>

record taint_location =
  loc_root :: pyval
  loc_selectors :: "access_selector list"

definition mk_loc :: "pyval \<Rightarrow> access_selector list \<Rightarrow> taint_location" where
  "mk_loc r ss = \<lparr>loc_root = r, loc_selectors = ss\<rparr>"

lemma mk_loc_simps [simp]:
  "loc_root (mk_loc r ss) = r" "loc_selectors (mk_loc r ss) = ss"
  by (simp_all add: mk_loc_def)

definition select :: "taint_location \<Rightarrow> access_selector \<Rightarrow> taint_location" where
  "select l s = mk_loc (loc_root l) (loc_selectors l @ [s])"

definition loc_attribute :: "taint_location \<Rightarrow> string \<Rightarrow> taint_location" where
  "loc_attribute l n = select l (SAttribute n)"

definition loc_key :: "taint_location \<Rightarrow> pyval \<Rightarrow> taint_location" where
  "loc_key l v = select l (SKey v)"

definition loc_index :: "taint_location \<Rightarrow> int \<Rightarrow> taint_location" where
  "loc_index l i = select l (SIndex i)"

definition loc_wildcard :: "taint_location \<Rightarrow> taint_location" where
  "loc_wildcard l = select l SWildcard"

definition loc_index_class :: "taint_location \<Rightarrow> int \<Rightarrow> int \<Rightarrow> taint_location res" where
  "loc_index_class l m r = bind_res (index_class m r) (\<lambda>s. Inr (select l s))"

definition loc_is_precise :: "taint_location \<Rightarrow> bool" where
  "loc_is_precise l \<longleftrightarrow> list_all sel_is_precise (loc_selectors l)"

definition is_prefix_of :: "taint_location \<Rightarrow> taint_location \<Rightarrow> bool" where
  "is_prefix_of l l' \<longleftrightarrow>
     loc_root l = loc_root l' \<and> length (loc_selectors l) \<le> length (loc_selectors l') \<and>
     list_all (\<lambda>(s, t). may_match s t) (zip (loc_selectors l) (loc_selectors l'))"

definition may_overlap :: "taint_location \<Rightarrow> taint_location \<Rightarrow> bool" where
  "may_overlap l l' \<longleftrightarrow>
     loc_root l = loc_root l' \<and>
     list_all (\<lambda>(s, t). may_match s t) (zip (loc_selectors l) (loc_selectors l'))"

definition descendants :: "taint_location \<Rightarrow> access_selector list \<Rightarrow> taint_location" where
  "descendants l ss = mk_loc (loc_root l) (loc_selectors l @ ss)"

definition summarize :: "taint_location \<Rightarrow> int \<Rightarrow> taint_location res" where
  "summarize l max_selectors =
     (if max_selectors < 1 then Inl ValueError
      else if int (length (loc_selectors l)) \<le> max_selectors then Inr l
      else Inr (mk_loc (loc_root l)
                  (take (nat (max_selectors - 1)) (loc_selectors l) @ [SWildcard])))"

definition loc_wf :: "taint_location \<Rightarrow> bool" where
  "loc_wf l \<longleftrightarrow> list_all sel_wf (loc_selectors l)"

text \<open>A location stands for every concrete path at or below it.\<close>

definition loc_denotes :: "taint_location \<Rightarrow> pyval \<times> access list \<Rightarrow> bool" where
  "loc_denotes l p \<longleftrightarrow>
     loc_root l = fst p \<and> length (loc_selectors l) \<le> length (snd p) \<and>
     list_all (\<lambda>(s, a). sel_denotes s a) (zip (loc_selectors l) (snd p))"

lemma may_overlap_sym: "may_overlap l l' = may_overlap l' l"
proof -
  have "list_all (\<lambda>(s, t). may_match s t) (zip xs ys) =
        list_all (\<lambda>(s, t). may_match s t) (zip ys xs)" for xs ys
    by (induction xs ys rule: list_induct2') (auto simp: may_match_sym)
  then show ?thesis by (auto simp: may_overlap_def)
qed

lemma is_prefix_of_overlap: "is_prefix_of l l' \<Longrightarrow> may_overlap l l'"
  by (simp add: is_prefix_of_def may_overlap_def)

lemma is_prefix_of_iff:
  "is_prefix_of l l' \<longleftrightarrow>
     may_overlap l l' \<and> length (loc_selectors l) \<le> length (loc_selectors l')"
  by (auto simp: is_prefix_of_def may_overlap_def)

lemma may_overlap_cases: "may_overlap l l' \<longleftrightarrow> is_prefix_of l l' \<or> is_prefix_of l' l"
  by (metis is_prefix_of_iff may_overlap_sym nat_le_linear)

lemma is_prefix_of_refl [simp]: "is_prefix_of l l"
proof -
  have "list_all (\<lambda>(s, t). may_match s t) (zip xs xs)" for xs
    by (induction xs) auto
  then show ?thesis by (simp add: is_prefix_of_def)
qed

lemma some_path:
  "list_all sel_wf xs \<Longrightarrow>
     \<exists>as. length xs \<le> length as \<and> list_all (\<lambda>(s, a). sel_denotes s a) (zip xs as)"
proof (induction xs)
  case Nil
  show ?case by auto
next
  case (Cons x xs)
  then obtain as where as: "length xs \<le> length as"
      "list_all (\<lambda>(s, a). sel_denotes s a) (zip xs as)" by auto
  from Cons.prems obtain a where "sel_denotes x a" using sel_denotes_nonempty by auto
  with as show ?case by (intro exI[of _ "a # as"]) simp
qed

lemma paths_meet:
  assumes "list_all sel_wf xs" "list_all sel_wf ys"
  shows "list_all (\<lambda>(s, t). may_match s t) (zip xs ys) \<longleftrightarrow>
    (\<exists>as. length xs \<le> length as \<and> length ys \<le> length as \<and>
       list_all (\<lambda>(s, a). sel_denotes s a) (zip xs as) \<and>
       list_all (\<lambda>(s, a). sel_denotes s a) (zip ys as))" (is "?M xs ys \<longleftrightarrow> ?P xs ys")
  using assms
proof (induction xs ys rule: list_induct2')
  case 1
  show ?case by auto
next
  case (2 x xs)
  then show ?case using some_path[of "x # xs"] by auto
next
  case (3 y ys)
  then show ?case using some_path[of "y # ys"] by auto
next
  case (4 x xs y ys)
  show ?case
  proof
    assume "?M (x # xs) (y # ys)"
    then have "may_match x y" "?M xs ys" by auto
    with 4 obtain a as where "sel_denotes x a" "sel_denotes y a"
        "length xs \<le> length as" "length ys \<le> length as"
        "list_all (\<lambda>(s, a). sel_denotes s a) (zip xs as)"
        "list_all (\<lambda>(s, a). sel_denotes s a) (zip ys as)"
      by (auto simp: may_match_denotes)
    then show "?P (x # xs) (y # ys)" by (intro exI[of _ "a # as"]) auto
  next
    assume "?P (x # xs) (y # ys)"
    then obtain as where as: "length (x # xs) \<le> length as" "length (y # ys) \<le> length as"
        "list_all (\<lambda>(s, a). sel_denotes s a) (zip (x # xs) as)"
        "list_all (\<lambda>(s, a). sel_denotes s a) (zip (y # ys) as)" by blast
    then obtain a as' where "as = a # as'" by (cases as) auto
    with as have "?P xs ys" "sel_denotes x a" "sel_denotes y a" by auto
    with 4 show "?M (x # xs) (y # ys)" by (auto simp: may_match_denotes)
  qed
qed

lemma overlap_exact:
  assumes "loc_wf l" "loc_wf l'"
  shows "may_overlap l l' \<longleftrightarrow> (\<exists>p. loc_denotes l p \<and> loc_denotes l' p)"
proof -
  have "may_overlap l l' \<longleftrightarrow> loc_root l = loc_root l' \<and>
      (\<exists>as. length (loc_selectors l) \<le> length as \<and> length (loc_selectors l') \<le> length as \<and>
         list_all (\<lambda>(s, a). sel_denotes s a) (zip (loc_selectors l) as) \<and>
         list_all (\<lambda>(s, a). sel_denotes s a) (zip (loc_selectors l') as))"
    using assms by (simp add: may_overlap_def loc_wf_def paths_meet)
  then show ?thesis by (fastforce simp: loc_denotes_def)
qed

text \<open>C31: the overlap test of the taint domain is exact. For locations built by the class
  methods, \<open>may_overlap\<close> holds exactly when some concrete access path lies at or below both,
  including two residue classes of indexes (whose intersection the code decides by a gcd).\<close>

theorem may_overlap_exact:
  assumes "loc_wf l" "loc_wf l'"
  shows "may_overlap l l' \<longleftrightarrow> (\<exists>p. loc_denotes l p \<and> loc_denotes l' p)"
  using overlap_exact[OF assms] .

theorem may_overlap_exact_witness:
  "\<exists>p. loc_denotes (mk_loc (PyStr ''x'') [SIndexClass 4 1]) p \<and>
       loc_denotes (mk_loc (PyStr ''x'') [SIndexClass 6 3]) p"
proof -
  have "loc_wf (mk_loc (PyStr ''x'') [SIndexClass 4 1])" "loc_wf (mk_loc (PyStr ''x'') [SIndexClass 6 3])"
    by (simp_all add: loc_wf_def)
  moreover have "may_overlap (mk_loc (PyStr ''x'') [SIndexClass 4 1]) (mk_loc (PyStr ''x'') [SIndexClass 6 3])"
    by code_simp
  ultimately show ?thesis using may_overlap_exact by blast
qed

text \<open>A location that contains another one is always recognised as its prefix.\<close>

lemma shortest_path:
  "list_all sel_wf xs \<Longrightarrow>
     \<exists>as. length as = length xs \<and> list_all (\<lambda>(s, a). sel_denotes s a) (zip xs as)"
proof (induction xs)
  case (Cons x xs)
  then obtain as where as: "length as = length xs"
      "list_all (\<lambda>(s, a). sel_denotes s a) (zip xs as)" by auto
  from Cons.prems obtain a where "sel_denotes x a" using sel_denotes_nonempty by auto
  with as show ?case by (intro exI[of _ "a # as"]) simp
qed simp

lemma contains_is_prefix_of:
  assumes "loc_wf l" "loc_wf l'" and sub: "\<And>p. loc_denotes l' p \<Longrightarrow> loc_denotes l p"
  shows "is_prefix_of l l'"
proof -
  obtain as where as: "length as = length (loc_selectors l')"
      "list_all (\<lambda>(s, a). sel_denotes s a) (zip (loc_selectors l') as)"
    using shortest_path assms(2) by (auto simp: loc_wf_def)
  then have d': "loc_denotes l' (loc_root l', as)" by (simp add: loc_denotes_def)
  then have d: "loc_denotes l (loc_root l', as)" by (rule sub)
  then have "length (loc_selectors l) \<le> length (loc_selectors l')"
    by (simp add: loc_denotes_def as(1))
  moreover have "may_overlap l l'" using d d' overlap_exact[OF assms(1,2)] by blast
  ultimately show ?thesis by (simp add: is_prefix_of_iff)
qed

text \<open>A concrete location: every selector stands for one access only.\<close>

fun sel_concrete :: "access_selector \<Rightarrow> bool" where
  "sel_concrete SWildcard = False"
| "sel_concrete (SIndexClass m r) = False"
| "sel_concrete s = True"

definition loc_concrete :: "taint_location \<Rightarrow> bool" where
  "loc_concrete l \<longleftrightarrow> list_all sel_concrete (loc_selectors l)"

lemma sel_precise_concrete: "sel_is_precise s \<Longrightarrow> sel_concrete s"
  by (cases s) (auto simp: sel_is_precise_def is_imprecise_kind_def)

lemma loc_precise_concrete: "loc_is_precise l \<Longrightarrow> loc_concrete l"
  by (auto simp: loc_is_precise_def loc_concrete_def list_all_iff sel_precise_concrete)

lemma may_match_concrete:
  assumes "sel_concrete t" "may_match s t" "sel_denotes t a"
  shows "sel_denotes s a"
  using assms by (cases s; cases t) auto

lemma is_prefix_of_contains:
  assumes "loc_concrete l'" "is_prefix_of l l'" "loc_denotes l' p"
  shows "loc_denotes l p"
proof -
  have "list_all (\<lambda>(s, a). sel_denotes s a) (zip xs as)"
    if "list_all sel_concrete ys" "list_all (\<lambda>(s, t). may_match s t) (zip xs ys)"
       "length xs \<le> length ys" "length ys \<le> length as"
       "list_all (\<lambda>(s, a). sel_denotes s a) (zip ys as)" for xs ys as
    using that
  proof (induction xs arbitrary: ys as)
    case (Cons x xs)
    then obtain y ys' a as' where "ys = y # ys'" "as = a # as'"
      by (cases ys; cases as) auto
    with Cons show ?case by (auto intro: may_match_concrete)
  qed simp
  with assms show ?thesis
    by (auto simp: loc_concrete_def is_prefix_of_def loc_denotes_def)
qed

text \<open>Below a concrete location the prefix test decides containment; in front of a
  wildcard it does not, since \<open>may_match\<close> accepts the wildcard on either side.\<close>

lemma is_prefix_of_concrete_iff:
  assumes "loc_wf l" "loc_wf l'" "loc_concrete l'"
  shows "is_prefix_of l l' \<longleftrightarrow> (\<forall>p. loc_denotes l' p \<longrightarrow> loc_denotes l p)"
  using assms is_prefix_of_contains contains_is_prefix_of by blast

lemma is_prefix_of_wildcard:
  "is_prefix_of (loc_index l i) (loc_wildcard l)"
  "\<not> loc_denotes (loc_index l 0) (loc_root l, map (\<lambda>_. AIndex 1) (loc_selectors l) @ [AIndex 1])"
proof -
  have "list_all (\<lambda>(s, t). may_match s t) (zip (xs @ [SIndex i]) (xs @ [SWildcard]))" for xs
    by (induction xs) auto
  then show "is_prefix_of (loc_index l i) (loc_wildcard l)"
    by (simp add: is_prefix_of_def loc_index_def loc_wildcard_def select_def)
  show "\<not> loc_denotes (loc_index l 0)
            (loc_root l, map (\<lambda>_. AIndex 1) (loc_selectors l) @ [AIndex 1])"
    by (simp add: loc_denotes_def loc_index_def select_def zip_append)
qed

section \<open>The depth bound\<close>

lemma summarize_error: "summarize l n = Inl e \<longleftrightarrow> n < 1 \<and> e = ValueError"
  by (auto simp: summarize_def)

lemma summarize_ok: "1 \<le> n \<Longrightarrow> \<exists>l'. summarize l n = Inr l'"
  by (simp add: summarize_def)

lemma summarize_root: "summarize l n = Inr l' \<Longrightarrow> loc_root l' = loc_root l"
  by (auto simp: summarize_def split: if_splits)

lemma summarize_bound: "summarize l n = Inr l' \<Longrightarrow> int (length (loc_selectors l')) \<le> n"
  by (auto simp: summarize_def split: if_splits)

lemma summarize_wf: "summarize l n = Inr l' \<Longrightarrow> loc_wf l \<Longrightarrow> loc_wf l'"
  by (auto simp: summarize_def loc_wf_def list_all_iff split: if_splits)
     (meson in_set_takeD)

lemma widened_denotes:
  "list_all (\<lambda>(s, a). sel_denotes s a) (zip xs as) \<Longrightarrow> k < length xs \<Longrightarrow>
     length xs \<le> length as \<Longrightarrow>
     list_all (\<lambda>(s, a). sel_denotes s a) (zip (take k xs @ [SWildcard]) as)"
proof (induction xs arbitrary: as k)
  case (Cons x xs)
  then obtain a as' where "as = a # as'" by (cases as) auto
  with Cons show ?case by (cases k) auto
qed simp

lemma summarize_covers:
  assumes "summarize l n = Inr l'" "loc_denotes l p"
  shows "loc_denotes l' p"
proof (cases "int (length (loc_selectors l)) \<le> n")
  case True
  with assms show ?thesis by (simp add: summarize_def split: if_splits)
next
  case False
  let ?k = "nat (n - 1)"
  have l': "l' = mk_loc (loc_root l) (take ?k (loc_selectors l) @ [SWildcard])"
    and k: "?k < length (loc_selectors l)"
    using False assms by (auto simp: summarize_def split: if_splits)
  with assms(2) show ?thesis
    using widened_denotes[of "loc_selectors l" "snd p" ?k] by (auto simp: loc_denotes_def)
qed

lemma summarize_id: "int (length (loc_selectors l)) \<le> n \<Longrightarrow> 1 \<le> n \<Longrightarrow> summarize l n = Inr l"
  by (simp add: summarize_def)

lemma summarize_idem: "summarize l n = Inr l' \<Longrightarrow> summarize l' n = Inr l'"
  by (auto simp: summarize_def split: if_splits)

text \<open>C33: the depth bound loses no path. \<open>summarize\<close> fails exactly for a bound below one;
  otherwise its result keeps the root, has at most \<open>n\<close> selectors, stands for every concrete
  path the location stands for, and is left alone by a second application.\<close>

theorem summarize_sound:
  "(n < 1 \<longrightarrow> summarize l n = Inl ValueError) \<and>
   (1 \<le> n \<longrightarrow> (\<exists>l'. summarize l n = Inr l' \<and> loc_root l' = loc_root l \<and>
      int (length (loc_selectors l')) \<le> n \<and> (\<forall>p. loc_denotes l p \<longrightarrow> loc_denotes l' p) \<and>
      summarize l' n = Inr l'))"
  using summarize_ok[of n l] summarize_root summarize_bound summarize_covers summarize_idem
  by (auto simp: summarize_error)

theorem summarize_sound_witness:
  "(\<exists>l'. summarize (mk_loc (PyStr ''x'') [SIndex 0, SIndex 1, SIndex 2]) 2 = Inr l' \<and>
      int (length (loc_selectors l')) \<le> 2) \<and>
   summarize (mk_loc (PyStr ''x'') []) 0 = Inl ValueError"
  using summarize_sound[of 2 "mk_loc (PyStr ''x'') [SIndex 0, SIndex 1, SIndex 2]"]
    summarize_sound[of 0 "mk_loc (PyStr ''x'') []"]
  by auto

end
