(* ===== verification/AbstractStrings.thy ===== *)
theory AbstractStrings
  imports PyBase
begin

text \<open>
  The finite abstract domain of dynamic strings
  (\<^verbatim>\<open>src/pyflow/checker/common/taint/strings.py\<close>): bottom, at most
  \<open>max_constants\<close> known constants, a common prefix, or top. A value stands for the set
  of strings \<open>may_contain\<close> accepts. The lemmas say that \<open>leq\<close> decides inclusion of
  these sets, that \<open>join\<close> is the least upper bound within the budget, and that
  \<open>join\<close> computes the abstraction of the union (so the order in which constants are
  joined does not matter).

  A \<^verbatim>\<open>frozenset\<close> of strings is a HOL set; iterating over one takes the sorted list of
  its elements, and \<open>common_prefix_order\<close> shows that any other order gives the same.
\<close>

datatype abstract_string_kind = SBOTTOM | SCONSTANTS | SPREFIX | STOP

record abstract_string =
  as_kind :: abstract_string_kind
  as_constants :: "string set"
  as_prefix :: "string option"
  as_max :: int

definition as_bottom :: "int \<Rightarrow> abstract_string" where
  "as_bottom n = \<lparr>as_kind = SBOTTOM, as_constants = {}, as_prefix = None, as_max = n\<rparr>"

definition as_top :: "int \<Rightarrow> abstract_string" where
  "as_top n = \<lparr>as_kind = STOP, as_constants = {}, as_prefix = None, as_max = n\<rparr>"

definition as_of_prefix :: "string \<Rightarrow> int \<Rightarrow> abstract_string" where
  "as_of_prefix p n = \<lparr>as_kind = SPREFIX, as_constants = {}, as_prefix = Some p, as_max = n\<rparr>"

definition as_of_set :: "string set \<Rightarrow> int \<Rightarrow> abstract_string" where
  "as_of_set C n = \<lparr>as_kind = SCONSTANTS, as_constants = C, as_prefix = None, as_max = n\<rparr>"

definition as_constant :: "string \<Rightarrow> int \<Rightarrow> abstract_string" where
  "as_constant v n = as_of_set {v} n"

section \<open>The common prefix\<close>

function shrink_prefix :: "string \<Rightarrow> string \<Rightarrow> string" where
  "shrink_prefix value prefix =
     (if prefix \<noteq> [] \<and> \<not> startswith value prefix then shrink_prefix value (butlast prefix)
      else prefix)"
  by pat_completeness auto
termination
  by (relation "measure (\<lambda>(v, p). length p)") auto

declare shrink_prefix.simps [simp del]

fun common_prefix_loop :: "string \<Rightarrow> string list \<Rightarrow> string" where
  "common_prefix_loop prefix [] = prefix"
| "common_prefix_loop prefix (v # vs) =
     (let p = shrink_prefix v prefix in if p = [] then p else common_prefix_loop p vs)"

definition common_prefix :: "string list \<Rightarrow> string" where
  "common_prefix items =
     (case items of [] \<Rightarrow> [] | v # vs \<Rightarrow> common_prefix_loop v vs)"

text \<open>The specification: the longest string that every item starts with.\<close>

definition is_lcp :: "string \<Rightarrow> string set \<Rightarrow> bool" where
  "is_lcp p S \<longleftrightarrow> (\<forall>v\<in>S. startswith v p) \<and> (\<forall>q. (\<forall>v\<in>S. startswith v q) \<longrightarrow> startswith p q)"

lemma is_lcp_unique: "is_lcp p S \<Longrightarrow> is_lcp q S \<Longrightarrow> p = q"
  by (meson is_lcp_def startswith_antisym)

lemma startswith_butlast_step:
  "startswith p q \<Longrightarrow> p \<noteq> q \<Longrightarrow> startswith (butlast p) q"
  by (auto simp: startswith_iff butlast_append)

lemma is_lcp_pair:
  "is_lcp q {v, p} \<longleftrightarrow> startswith v q \<and> startswith p q \<and>
     (\<forall>r. startswith v r \<longrightarrow> startswith p r \<longrightarrow> startswith q r)"
  by (auto simp: is_lcp_def)

lemma shrink_prefix_lcp: "is_lcp (shrink_prefix v p) {v, p}"
proof (induction v p rule: shrink_prefix.induct)
  case (1 v p)
  show ?case
  proof (cases "p \<noteq> [] \<and> \<not> startswith v p")
    case True
    then have IH: "is_lcp (shrink_prefix v (butlast p)) {v, butlast p}" using 1 by simp
    have up: "startswith p q" if "startswith (butlast p) q" for q
      using that startswith_butlast startswith_trans by blast
    have down: "startswith (butlast p) r" if "startswith v r" "startswith p r" for r
      using that True startswith_butlast_step by blast
    have "is_lcp (shrink_prefix v (butlast p)) {v, p}"
      using IH up down by (auto simp: is_lcp_pair)
    then show ?thesis using True by (simp add: shrink_prefix.simps[of v p])
  next
    case False
    then show ?thesis by (auto simp: shrink_prefix.simps[of v p] is_lcp_def)
  qed
qed

lemma is_lcp_step: "is_lcp q {v, p} \<Longrightarrow> is_lcp p S \<Longrightarrow> is_lcp q (insert v S)"
  unfolding is_lcp_pair by (auto simp: is_lcp_def intro: startswith_trans)

lemma is_lcp_empty: "is_lcp [] S \<Longrightarrow> is_lcp [] (S \<union> T)"
  unfolding is_lcp_def by auto

lemma common_prefix_loop_lcp:
  "is_lcp p S \<Longrightarrow> is_lcp (common_prefix_loop p vs) (S \<union> set vs)"
proof (induction vs arbitrary: p S)
  case (Cons v vs)
  let ?q = "shrink_prefix v p"
  have q: "is_lcp ?q (insert v S)"
    using is_lcp_step[OF shrink_prefix_lcp Cons.prems] .
  show ?case
  proof (cases "?q = []")
    case True
    then show ?thesis using is_lcp_empty[of "insert v S" "set vs"] q by simp
  next
    case False
    then show ?thesis using Cons.IH[OF q] by (simp add: Let_def)
  qed
qed simp

lemma common_prefix_lcp: "items \<noteq> [] \<Longrightarrow> is_lcp (common_prefix items) (set items)"
proof (cases items)
  case (Cons v vs)
  have "is_lcp v {v}" by (simp add: is_lcp_def)
  from common_prefix_loop_lcp[OF this, of vs] show ?thesis
    by (simp add: common_prefix_def Cons)
qed simp

lemma common_prefix_order: "set xs = set ys \<Longrightarrow> common_prefix xs = common_prefix ys"
proof (cases "xs = []")
  case True
  moreover assume "set xs = set ys"
  ultimately show ?thesis by simp
next
  case False
  moreover assume "set xs = set ys"
  ultimately show ?thesis by (metis common_prefix_lcp is_lcp_unique set_empty)
qed

section \<open>The domain's operations\<close>

definition from_constants :: "string set \<Rightarrow> int \<Rightarrow> abstract_string" where
  "from_constants constants max_constants =
     (if constants = {} then as_bottom max_constants
      else if int (card constants) > max_constants then
        (let prefix = common_prefix (sorted_list_of_set constants)
         in if prefix \<noteq> [] then as_of_prefix prefix max_constants else as_top max_constants)
      else as_of_set constants max_constants)"

definition prefix_or_empty :: "abstract_string \<Rightarrow> string" where
  "prefix_or_empty a = (case as_prefix a of None \<Rightarrow> [] | Some p \<Rightarrow> p)"

definition as_leq :: "abstract_string \<Rightarrow> abstract_string \<Rightarrow> bool" where
  "as_leq self other =
     (if as_kind self = SBOTTOM then True
      else if as_kind other = STOP then True
      else if as_kind self = STOP then False
      else if as_kind self = SCONSTANTS \<and> as_kind other = SCONSTANTS
        then as_constants self \<subseteq> as_constants other
      else if as_kind self = SCONSTANTS \<and> as_kind other = SPREFIX
        then (\<forall>v \<in> as_constants self. startswith v (prefix_or_empty other))
      else if as_kind self = SPREFIX
        then as_kind other = SPREFIX \<and> startswith (prefix_or_empty self) (prefix_or_empty other)
      else False)"

definition join_prefixes :: "abstract_string \<Rightarrow> string list" where
  "join_prefixes value =
     (if as_kind value = SPREFIX then [prefix_or_empty value]
      else sorted_list_of_set (as_constants value))"

definition as_join :: "abstract_string \<Rightarrow> abstract_string \<Rightarrow> abstract_string" where
  "as_join self other =
     (let limit = min (as_max self) (as_max other)
      in if as_kind self = SBOTTOM then other
         else if as_kind other = SBOTTOM then self
         else if as_kind self = STOP \<or> as_kind other = STOP then as_top limit
         else if as_kind self = SCONSTANTS \<and> as_kind other = SCONSTANTS
           then from_constants (as_constants self \<union> as_constants other) limit
         else let prefix = common_prefix (join_prefixes self @ join_prefixes other)
              in if prefix \<noteq> [] then as_of_prefix prefix limit else as_top limit)"

definition may_contain :: "abstract_string \<Rightarrow> string \<Rightarrow> bool" where
  "may_contain self value =
     (if as_kind self = SBOTTOM then False
      else if as_kind self = STOP then True
      else if as_kind self = SCONSTANTS then value \<in> as_constants self
      else startswith value (prefix_or_empty self))"

text \<open>The values the class methods build: a set of constants is finite and not empty, a
  prefix is not empty.\<close>

definition as_wf :: "abstract_string \<Rightarrow> bool" where
  "as_wf a \<longleftrightarrow>
     (as_kind a = SCONSTANTS \<longrightarrow> finite (as_constants a) \<and> as_constants a \<noteq> {}) \<and>
     (as_kind a = SPREFIX \<longrightarrow> (\<exists>p. as_prefix a = Some p \<and> p \<noteq> [])) \<and>
     (as_kind a \<noteq> SCONSTANTS \<longrightarrow> as_constants a = {}) \<and>
     (as_kind a \<noteq> SPREFIX \<longrightarrow> as_prefix a = None)"

text \<open>The value within its budget.\<close>

definition as_within :: "abstract_string \<Rightarrow> bool" where
  "as_within a \<longleftrightarrow> (as_kind a = SCONSTANTS \<longrightarrow> int (card (as_constants a)) \<le> as_max a)"

named_theorems as_simps

lemma as_build_simps [as_simps]:
  "as_kind (as_bottom n) = SBOTTOM" "as_kind (as_top n) = STOP"
  "as_kind (as_of_prefix p n) = SPREFIX" "as_kind (as_of_set C n) = SCONSTANTS"
  "as_constants (as_bottom n) = {}" "as_constants (as_top n) = {}"
  "as_constants (as_of_prefix p n) = {}" "as_constants (as_of_set C n) = C"
  "as_prefix (as_bottom n) = None" "as_prefix (as_top n) = None"
  "as_prefix (as_of_prefix p n) = Some p" "as_prefix (as_of_set C n) = None"
  "as_max (as_bottom n) = n" "as_max (as_top n) = n"
  "as_max (as_of_prefix p n) = n" "as_max (as_of_set C n) = n"
  "prefix_or_empty (as_of_prefix p n) = p"
  by (simp_all add: as_bottom_def as_top_def as_of_prefix_def as_of_set_def prefix_or_empty_def)

lemma as_wf_build:
  "as_wf (as_bottom n)" "as_wf (as_top n)" "p \<noteq> [] \<Longrightarrow> as_wf (as_of_prefix p n)"
  "finite C \<Longrightarrow> C \<noteq> {} \<Longrightarrow> as_wf (as_of_set C n)"
  by (simp_all add: as_wf_def as_simps)

lemma from_constants_wf: "finite C \<Longrightarrow> as_wf (from_constants C n)"
  by (auto simp: from_constants_def Let_def intro: as_wf_build)

text \<open>Every value is one of four shapes.\<close>

lemma as_wf_cases [consumes 1, case_names bottom top constants prefix]:
  assumes "as_wf a"
  obtains n where "a = as_bottom n"
  | n where "a = as_top n"
  | C n where "a = as_of_set C n" "finite C" "C \<noteq> {}"
  | p n where "a = as_of_prefix p n" "p \<noteq> []"
proof (cases "as_kind a")
  case SBOTTOM
  with assms have "a = as_bottom (as_max a)" by (simp add: as_wf_def as_bottom_def)
  then show ?thesis by (rule that(1))
next
  case STOP
  with assms have "a = as_top (as_max a)" by (simp add: as_wf_def as_top_def)
  then show ?thesis by (rule that(2))
next
  case SCONSTANTS
  with assms have "a = as_of_set (as_constants a) (as_max a)"
    by (simp add: as_wf_def as_of_set_def)
  with assms SCONSTANTS show ?thesis by (intro that(3)) (auto simp: as_wf_def)
next
  case SPREFIX
  with assms obtain p where "as_prefix a = Some p" "p \<noteq> []" by (auto simp: as_wf_def)
  moreover have "a = as_of_prefix p (as_max a)"
    using assms SPREFIX calculation by (simp add: as_wf_def as_of_prefix_def)
  ultimately show ?thesis by (intro that(4))
qed

section \<open>The order decides inclusion\<close>

definition as_gamma :: "abstract_string \<Rightarrow> string set" where
  "as_gamma a = {v. may_contain a v}"

lemma as_gamma_simps [as_simps]:
  "as_gamma (as_bottom n) = {}" "as_gamma (as_top n) = UNIV"
  "as_gamma (as_of_set C n) = C" "as_gamma (as_of_prefix p n) = {v. startswith v p}"
  by (auto simp: as_gamma_def may_contain_def as_simps)

lemma prefix_infinite: "infinite {v::string. startswith v p}"
proof -
  have "inj (\<lambda>n. p @ replicate n (CHR ''x''))" by (rule injI) simp
  then have "infinite (range (\<lambda>n. p @ replicate n (CHR ''x'')))"
    using finite_imageD infinite_UNIV_nat by blast
  moreover have "range (\<lambda>n. p @ replicate n (CHR ''x'')) \<subseteq> {v. startswith v p}" by auto
  ultimately show ?thesis by (meson finite_subset)
qed

lemma strings_infinite: "infinite (UNIV :: string set)"
  using prefix_infinite[of "[]"] by simp

lemma not_all_prefixed: "p \<noteq> [] \<Longrightarrow> \<exists>v::string. \<not> startswith v p"
  by (intro exI[of _ "[]"]) (cases p; simp)

lemma as_leq_simps [as_simps]:
  "as_leq (as_bottom n) b" "as_leq a (as_top n)"
  "\<not> as_leq (as_top n) (as_bottom m)" "\<not> as_leq (as_top n) (as_of_set C m)"
  "\<not> as_leq (as_top n) (as_of_prefix p m)"
  "\<not> as_leq (as_of_set C n) (as_bottom m)" "\<not> as_leq (as_of_prefix p n) (as_bottom m)"
  "as_leq (as_of_set C n) (as_of_set D m) \<longleftrightarrow> C \<subseteq> D"
  "as_leq (as_of_set C n) (as_of_prefix p m) \<longleftrightarrow> (\<forall>v \<in> C. startswith v p)"
  "\<not> as_leq (as_of_prefix p n) (as_of_set C m)"
  "as_leq (as_of_prefix p n) (as_of_prefix q m) \<longleftrightarrow> startswith p q"
  by (simp_all add: as_leq_def as_simps)

lemma prefix_inclusion:
  "{v. startswith v p} \<subseteq> {v. startswith v q} \<longleftrightarrow> startswith p q"
  using startswith_refl[of p] by (blast intro: startswith_trans)

lemma infinite_inclusions [as_simps]:
  "finite (C :: string set) \<Longrightarrow> \<not> UNIV \<subseteq> C"
  "finite C \<Longrightarrow> \<not> {v::string. startswith v p} \<subseteq> C"
  "\<exists>v. startswith v (p::string)"
  "p \<noteq> [] \<Longrightarrow> \<not> UNIV \<subseteq> {v::string. startswith v p}"
proof -
  show "finite (C :: string set) \<Longrightarrow> \<not> UNIV \<subseteq> C"
    using strings_infinite finite_subset by blast
  show "finite C \<Longrightarrow> \<not> {v::string. startswith v p} \<subseteq> C"
    using prefix_infinite finite_subset by blast
  show "\<exists>v. startswith v (p::string)" by (rule exI[of _ p]) simp
  show "p \<noteq> [] \<Longrightarrow> \<not> UNIV \<subseteq> {v::string. startswith v p}"
    using not_all_prefixed[of p] by auto
qed

lemma as_leq_exact:
  assumes "as_wf a" "as_wf b"
  shows "as_leq a b \<longleftrightarrow> as_gamma a \<subseteq> as_gamma b"
  using assms(1)
proof (cases rule: as_wf_cases)
  case (constants C n)
  from assms(2) show ?thesis
    by (cases rule: as_wf_cases) (use constants in \<open>auto simp: as_simps\<close>)
next
  case (prefix p n)
  from assms(2) show ?thesis
    by (cases rule: as_wf_cases) (simp_all add: prefix as_simps prefix_inclusion)
next
  case (top n)
  from assms(2) show ?thesis
    by (cases rule: as_wf_cases) (simp_all add: top as_simps)
qed (simp add: as_simps)

section \<open>The join is the abstraction of the union\<close>

text \<open>Both branches of the join that widen compute the abstraction of a set of
  strings: the prefix of the union, or top.\<close>

definition widen_prefix :: "string set \<Rightarrow> int \<Rightarrow> abstract_string" where
  "widen_prefix S n = (let p = common_prefix (sorted_list_of_set S)
                       in if p \<noteq> [] then as_of_prefix p n else as_top n)"

lemma widen_prefix_list:
  "finite S \<Longrightarrow> set xs = S \<Longrightarrow>
     (let p = common_prefix xs in if p \<noteq> [] then as_of_prefix p n else as_top n) = widen_prefix S n"
  by (metis common_prefix_order set_sorted_list_of_set widen_prefix_def)

lemma is_lcp_common_prefix:
  "finite S \<Longrightarrow> S \<noteq> {} \<Longrightarrow> is_lcp (common_prefix (sorted_list_of_set S)) S"
  using common_prefix_lcp[of "sorted_list_of_set S"] by simp

lemma is_lcp_absorb:
  assumes "is_lcp p S" shows "is_lcp q (insert p T) \<longleftrightarrow> is_lcp q (S \<union> T)"
proof -
  have "(\<forall>v\<in>S. startswith v r) \<longleftrightarrow> startswith p r" for r
    using assms startswith_trans unfolding is_lcp_def by blast
  then have "(\<forall>v\<in>insert p T. startswith v r) \<longleftrightarrow> (\<forall>v\<in>S \<union> T. startswith v r)" for r
    by blast
  then show ?thesis by (simp add: is_lcp_def)
qed

lemma common_prefix_absorb:
  assumes "finite S" "S \<noteq> {}" "finite T"
  shows "common_prefix (sorted_list_of_set (insert (common_prefix (sorted_list_of_set S)) T)) =
         common_prefix (sorted_list_of_set (S \<union> T))"
proof -
  let ?p = "common_prefix (sorted_list_of_set S)"
  have "is_lcp (common_prefix (sorted_list_of_set (insert ?p T))) (insert ?p T)"
    using assms by (intro is_lcp_common_prefix) auto
  then have "is_lcp (common_prefix (sorted_list_of_set (insert ?p T))) (S \<union> T)"
    using is_lcp_absorb[OF is_lcp_common_prefix[OF assms(1,2)]] by blast
  moreover have "is_lcp (common_prefix (sorted_list_of_set (S \<union> T))) (S \<union> T)"
    using assms by (intro is_lcp_common_prefix) auto
  ultimately show ?thesis by (rule is_lcp_unique)
qed

lemma widen_prefix_absorb:
  assumes "finite S" "S \<noteq> {}" "finite T"
  shows "widen_prefix (insert (common_prefix (sorted_list_of_set S)) T) n = widen_prefix (S \<union> T) n"
  by (simp add: widen_prefix_def common_prefix_absorb[OF assms])

lemma widen_prefix_top:
  assumes "finite S" "S \<noteq> {}" "finite T" "common_prefix (sorted_list_of_set S) = []"
  shows "widen_prefix (S \<union> T) n = as_top n"
proof -
  have "is_lcp [] (S \<union> T)"
    using is_lcp_common_prefix[OF assms(1,2)] is_lcp_empty by (simp add: assms(4))
  moreover have "is_lcp (common_prefix (sorted_list_of_set (S \<union> T))) (S \<union> T)"
    using assms by (intro is_lcp_common_prefix) auto
  ultimately show ?thesis using is_lcp_unique by (simp add: widen_prefix_def)
qed

lemma from_constants_eq:
  "from_constants S n =
     (if S = {} then as_bottom n
      else if int (card S) \<le> n then as_of_set S n else widen_prefix S n)"
  by (simp add: from_constants_def widen_prefix_def)

lemma from_constants_wide:
  "finite S \<Longrightarrow> S \<noteq> {} \<Longrightarrow> int (card S) > n \<Longrightarrow> from_constants S n = widen_prefix S n"
  by (simp add: from_constants_eq)

lemma widen_prefix_shape:
  "widen_prefix S n = as_top n \<and> common_prefix (sorted_list_of_set S) = [] \<or>
   common_prefix (sorted_list_of_set S) \<noteq> [] \<and>
     widen_prefix S n = as_of_prefix (common_prefix (sorted_list_of_set S)) n"
  by (simp add: widen_prefix_def Let_def)

lemma as_join_simps [as_simps]:
  "as_join (as_bottom n) b = b"
  "as_join (as_top n) (as_bottom m) = as_top n" "as_join (as_top n) (as_top m) = as_top (min n m)"
  "as_join (as_top n) (as_of_set D m) = as_top (min n m)"
  "as_join (as_top n) (as_of_prefix q m) = as_top (min n m)"
  "as_join (as_of_set C n) (as_bottom m) = as_of_set C n"
  "as_join (as_of_set C n) (as_top m) = as_top (min n m)"
  "as_join (as_of_set C n) (as_of_set D m) = from_constants (C \<union> D) (min n m)"
  "as_join (as_of_prefix p n) (as_bottom m) = as_of_prefix p n"
  "as_join (as_of_prefix p n) (as_top m) = as_top (min n m)"
  by (simp_all add: as_join_def as_simps)

lemma as_join_prefix_simps [as_simps]:
  "finite C \<Longrightarrow> as_join (as_of_set C n) (as_of_prefix q m) = widen_prefix (insert q C) (min n m)"
  "finite D \<Longrightarrow> as_join (as_of_prefix p n) (as_of_set D m) = widen_prefix (insert p D) (min n m)"
  "as_join (as_of_prefix p n) (as_of_prefix q m) = widen_prefix {p, q} (min n m)"
  by (simp_all add: as_join_def as_simps join_prefixes_def widen_prefix_list [symmetric] Let_def
      widen_prefix_list [of "{p, q}" "[p, q]", symmetric]
      widen_prefix_list [of "insert q C" "sorted_list_of_set C @ [q]", symmetric]
      widen_prefix_list [of "insert p D" "p # sorted_list_of_set D", symmetric])

lemma as_join_widen:
  assumes "finite S" "S \<noteq> {}" "finite T" "T \<noteq> {}"
  shows "as_join (as_of_set S n) (widen_prefix T n) = widen_prefix (S \<union> T) n" (is ?l)
    and "as_join (widen_prefix T n) (as_of_set S n) = widen_prefix (S \<union> T) n" (is ?r)
    and "as_join (widen_prefix S n) (widen_prefix T n) = widen_prefix (S \<union> T) n" (is ?b)
proof -
  let ?s = "common_prefix (sorted_list_of_set S)" and ?t = "common_prefix (sorted_list_of_set T)"
  have t: "widen_prefix (insert ?t S) n = widen_prefix (S \<union> T) n"
    using widen_prefix_absorb[of T S n] assms by (simp add: Un_commute)
  have st: "widen_prefix {?s, ?t} n = widen_prefix (S \<union> T) n"
    using widen_prefix_absorb[of S "{?t}" n] t assms by (simp add: insert_commute)
  have top: "?t = [] \<Longrightarrow> widen_prefix (S \<union> T) n = as_top n"
    "?s = [] \<Longrightarrow> widen_prefix (S \<union> T) n = as_top n"
    using widen_prefix_top[of T S n] widen_prefix_top[of S T n] assms by (simp_all add: Un_commute)
  show ?l ?r using widen_prefix_shape[of T n] t top assms by (auto simp: as_simps)
  show ?b
    using widen_prefix_shape[of T n] widen_prefix_shape[of S n] st top by (auto simp: as_simps)
qed

lemma as_join_from_constants:
  assumes "finite S" "finite T"
  shows "as_join (from_constants S n) (from_constants T n) = from_constants (S \<union> T) n"
proof -
  have wide: "from_constants (S \<union> T) n = widen_prefix (S \<union> T) n"
    if "S \<noteq> {}" "T \<noteq> {}" "int (card S) > n \<or> int (card T) > n"
  proof -
    have "card S \<le> card (S \<union> T)" "card T \<le> card (S \<union> T)"
      using assms by (simp_all add: card_mono)
    with that have "int (card (S \<union> T)) > n" by linarith
    then show ?thesis using that assms by (intro from_constants_wide) auto
  qed
  show ?thesis
  proof (cases "S = {} \<or> T = {}")
    case True
    then show ?thesis
      using widen_prefix_shape[of S n] by (auto simp: as_simps from_constants_eq)
  next
    case False
    then have ne: "S \<noteq> {}" "T \<noteq> {}" by auto
    note joins = as_join_widen[OF assms(1) ne(1) assms(2) ne(2), of n]
      as_join_widen[OF assms(2) ne(2) assms(1) ne(1), of n]
    show ?thesis
    proof (cases "int (card S) > n \<or> int (card T) > n")
      case True
      then show ?thesis
        using wide[OF ne] ne joins by (auto simp: from_constants_eq Un_commute)
    next
      case False
      then show ?thesis using ne by (simp add: from_constants_eq as_simps)
    qed
  qed
qed

section \<open>The join is the least upper bound\<close>

lemma widen_prefix_gamma: "finite S \<Longrightarrow> S \<noteq> {} \<Longrightarrow> S \<subseteq> as_gamma (widen_prefix S n)"
  using is_lcp_common_prefix[of S] widen_prefix_shape[of S n]
  by (auto simp: as_simps is_lcp_def)

lemma from_constants_gamma: "finite S \<Longrightarrow> S \<subseteq> as_gamma (from_constants S n)"
  using widen_prefix_gamma[of S n] by (auto simp: as_simps from_constants_eq)

lemma from_constants_gammaD: "finite S \<Longrightarrow> v \<in> S \<Longrightarrow> v \<in> as_gamma (from_constants S n)"
  using from_constants_gamma by blast

lemma widen_prefix_wf: "as_wf (widen_prefix S n)"
  using widen_prefix_shape[of S n] by (auto intro: as_wf_build)

lemma as_join_wf: "as_wf a \<Longrightarrow> as_wf b \<Longrightarrow> as_wf (as_join a b)"
  by (cases a rule: as_wf_cases; simp; cases b rule: as_wf_cases)
     (auto simp: as_simps intro: as_wf_build widen_prefix_wf from_constants_wf)

lemma widen_prefix_upper:
  assumes "finite S" "x \<in> S" "startswith v x"
  shows "v \<in> as_gamma (widen_prefix S n)"
proof -
  have "startswith x (common_prefix (sorted_list_of_set S))"
    using is_lcp_common_prefix[OF assms(1)] assms(2) by (auto simp: is_lcp_def)
  with assms(3) have "startswith v (common_prefix (sorted_list_of_set S))"
    by (rule startswith_trans)
  then show ?thesis using widen_prefix_shape[of S n] by (auto simp: as_simps)
qed

lemma as_join_upper:
  assumes "as_wf a" "as_wf b" "v \<in> as_gamma a \<or> v \<in> as_gamma b"
  shows "v \<in> as_gamma (as_join a b)"
  using assms(1)
proof (cases rule: as_wf_cases)
  case (constants C n)
  from assms(2) show ?thesis
    using assms(3) constants
    by (cases rule: as_wf_cases)
       (auto simp: as_simps intro: widen_prefix_upper from_constants_gammaD)
next
  case (prefix p n)
  from assms(2) show ?thesis
    using assms(3) prefix
    by (cases rule: as_wf_cases) (auto simp: as_simps intro: widen_prefix_upper)
next
  case (top n)
  from assms(2) show ?thesis
    using assms(3) top by (cases rule: as_wf_cases) (auto simp: as_simps)
qed (use assms(3) in \<open>simp add: as_simps\<close>)

lemma widen_prefix_least:
  assumes "finite S" "S \<noteq> {}" "\<forall>x\<in>S. startswith x q" "q \<noteq> []"
  shows "as_leq (widen_prefix S n) (as_of_prefix q m)"
proof -
  have "startswith (common_prefix (sorted_list_of_set S)) q"
    using is_lcp_common_prefix[OF assms(1,2)] assms(3) by (auto simp: is_lcp_def)
  moreover from this have "common_prefix (sorted_list_of_set S) \<noteq> []"
    using assms(4) by (auto simp: startswith_iff)
  ultimately show ?thesis using widen_prefix_shape[of S n] by (auto simp: as_simps)
qed

lemma from_constants_least:
  assumes "finite S" "S \<noteq> {}" "S \<subseteq> as_gamma c" "as_wf c" "as_within c" "as_max c \<le> n"
  shows "as_leq (from_constants S n) c"
  using assms(4)
proof (cases rule: as_wf_cases)
  case bottom
  then show ?thesis using assms by (simp add: as_simps)
next
  case top
  then show ?thesis by (simp add: as_simps)
next
  case (constants C m)
  then have "card S \<le> card C" using assms(3) by (simp add: as_simps card_mono)
  then have "int (card S) \<le> n" using assms(5,6) constants by (simp add: as_within_def as_simps)
  then show ?thesis using assms(2,3) constants by (simp add: as_simps from_constants_eq)
next
  case (prefix q m)
  then have "\<forall>x\<in>S. startswith x q" using assms(3) by (auto simp: as_simps)
  then show ?thesis
    using assms(1,2) prefix widen_prefix_least by (simp add: as_simps from_constants_eq)
qed

lemma prefix_join_least:
  assumes "finite S" "as_leq (as_of_prefix p m) c" "S \<subseteq> as_gamma c" "as_wf c"
  shows "as_leq (widen_prefix (insert p S) n) c"
  using assms(4)
proof (cases rule: as_wf_cases)
  case (prefix q k)
  then have "\<forall>x\<in>insert p S. startswith x q" using assms(2,3) by (auto simp: as_simps)
  then show ?thesis using assms(1) prefix widen_prefix_least by simp
qed (use assms(2) in \<open>simp_all add: as_simps\<close>)

lemma above_top: "as_leq (as_top n) c \<Longrightarrow> as_wf c \<Longrightarrow> as_leq x c"
  by (cases c rule: as_wf_cases) (auto simp: as_simps)

lemma as_join_least:
  assumes "as_wf a" "as_wf b" "as_wf c" "as_within c" "as_max c \<le> min (as_max a) (as_max b)"
    and "as_leq a c" "as_leq b c"
  shows "as_leq (as_join a b) c"
proof -
  have sub: "as_gamma a \<subseteq> as_gamma c" "as_gamma b \<subseteq> as_gamma c"
    using assms as_leq_exact by blast+
  from assms(1) show ?thesis
  proof (cases rule: as_wf_cases)
    case bottom
    then show ?thesis using assms(7) by (simp add: as_simps)
  next
    case (top n)
    then show ?thesis using assms(3,6) above_top by blast
  next
    case C: (constants C n)
    from assms(2) show ?thesis
    proof (cases rule: as_wf_cases)
      case (constants D m)
      then have "as_leq (from_constants (C \<union> D) (min n m)) c"
        using C sub assms(3,4,5) by (intro from_constants_least) (auto simp: as_simps)
      then show ?thesis using C constants by (simp add: as_simps)
    next
      case (prefix q m)
      then have "as_leq (widen_prefix (insert q C) (min n m)) c"
        using C sub(1) assms(3,7) by (intro prefix_join_least) (auto simp: as_simps)
      then show ?thesis using C prefix by (simp add: as_simps)
    next
      case (top m)
      then show ?thesis using assms(3,7) above_top by blast
    qed (use C assms(6) in \<open>simp add: as_simps\<close>)
  next
    case P: (prefix p n)
    from assms(2) show ?thesis
    proof (cases rule: as_wf_cases)
      case (constants D m)
      then have "as_leq (widen_prefix (insert p D) (min n m)) c"
        using P sub(2) assms(3,6) by (intro prefix_join_least) (auto simp: as_simps)
      then show ?thesis using P constants by (simp add: as_simps)
    next
      case (prefix q m)
      have "q \<in> as_gamma c" using sub(2) prefix by (auto simp: as_simps)
      then have "as_leq (widen_prefix (insert p {q}) (min n m)) c"
        using P assms(3,6) by (intro prefix_join_least) auto
      then show ?thesis using P prefix by (simp add: as_simps)
    next
      case (top m)
      then show ?thesis using assms(3,7) above_top by blast
    qed (use P assms(6) in \<open>simp add: as_simps\<close>)
  qed
qed

section \<open>Properties\<close>

lemma as_leq_antisym:
  assumes "as_wf a" "as_wf b"
  shows "as_leq a b \<and> as_leq b a \<longleftrightarrow> a = b\<lparr>as_max := as_max a\<rparr>"
proof -
  have "a = b\<lparr>as_max := as_max a\<rparr> \<longleftrightarrow>
      as_kind a = as_kind b \<and> as_constants a = as_constants b \<and> as_prefix a = as_prefix b"
    by (cases a; cases b) simp
  also have "\<dots> \<longleftrightarrow> as_leq a b \<and> as_leq b a"
    using assms by (elim as_wf_cases) (auto simp: as_simps dest: startswith_antisym)
  finally show ?thesis by blast
qed

text \<open>C32: \<open>AbstractString.leq\<close> is a preorder and \<open>join\<close> its least upper bound within the budgets. On values the
  class methods can build, \<open>leq\<close> decides inclusion of the denoted sets of strings; two values are each below the other exactly
  when they differ in nothing but \<open>max_constants\<close> (so that it is not antisymmetric); the join can be built again, it is above both
  arguments, and it is below every bound that respects the constant budget.\<close>

theorem abstract_string_lattice:
  assumes "as_wf a" "as_wf b"
  shows "(as_leq a b \<longleftrightarrow> (\<forall>v. may_contain a v \<longrightarrow> may_contain b v)) \<and>
         (as_leq a b \<and> as_leq b a \<longleftrightarrow> a = b\<lparr>as_max := as_max a\<rparr>) \<and>
         as_wf (as_join a b) \<and> as_leq a (as_join a b) \<and> as_leq b (as_join a b) \<and>
         (\<forall>c. as_wf c \<and> as_within c \<and> as_max c \<le> min (as_max a) (as_max b) \<and>
              as_leq a c \<and> as_leq b c \<longrightarrow> as_leq (as_join a b) c)"
proof (intro conjI allI impI)
  show "as_leq a b \<longleftrightarrow> (\<forall>v. may_contain a v \<longrightarrow> may_contain b v)"
    using as_leq_exact[OF assms] by (auto simp: as_gamma_def)
  show "as_leq a b \<and> as_leq b a \<longleftrightarrow> a = b\<lparr>as_max := as_max a\<rparr>" using assms by (rule as_leq_antisym)
  show wf: "as_wf (as_join a b)" using assms by (rule as_join_wf)
  show "as_leq a (as_join a b)" "as_leq b (as_join a b)"
    unfolding as_leq_exact[OF assms(1) wf] as_leq_exact[OF assms(2) wf]
    using as_join_upper[OF assms] by auto
next
  fix c
  assume "as_wf c \<and> as_within c \<and> as_max c \<le> min (as_max a) (as_max b) \<and>
              as_leq a c \<and> as_leq b c"
  then show "as_leq (as_join a b) c" using assms as_join_least by simp
qed

text \<open>The hypotheses at a prefix and a constant.\<close>

theorem abstract_string_lattice_witness:
  "as_wf (as_of_prefix ''req'' 8) \<and> as_wf (as_constant ''request'' 8) \<and>
   as_leq (as_constant ''request'' 8) (as_join (as_of_prefix ''req'' 8) (as_constant ''request'' 8))"
proof -
  have wf: "as_wf (as_of_prefix ''req'' 8)" "as_wf (as_constant ''request'' 8)"
    by (simp_all add: as_constant_def as_wf_build)
  from abstract_string_lattice[OF wf] wf show ?thesis by simp
qed

text \<open>joining abstractions of two finite sets of constants gives the abstraction of their
  union, so the value computed from a collection of constants does not depend on the order or
  the grouping of the joins, whatever the budget.\<close>

theorem abstract_string_join_exact:
  assumes "finite S" "finite T"
  shows "as_join (from_constants S n) (from_constants T n) = from_constants (S \<union> T) n"
  using assms by (rule as_join_from_constants)

theorem abstract_string_join_exact_witness:
  "finite {''a'', ''b''} \<and> finite {''abc''} \<and>
   as_join (from_constants {''a'', ''b''} 1) (from_constants {''abc''} 1) =
     from_constants {''a'', ''b'', ''abc''} 1"
  using abstract_string_join_exact[of "{''a'', ''b''}" "{''abc''}" 1] by (simp add: insert_commute)

end
