(* ===== verification/TaintStates.thy ===== *)
theory TaintStates
  imports TaintLocations
begin

text \<open>
  The may-taint lattice of the AST dataflow engine
  (\<^verbatim>\<open>src/pyflow/checker/common/taint/state.py\<close>, with the value classes of
  \<^verbatim>\<open>provenance.py\<close> and \<^verbatim>\<open>uncertainty.py\<close>).

  \<open>taint_state\<close> has the fields of the dataclass \<^verbatim>\<open>TaintState\<close> and, as two more fields,
  the cached indexes \<^verbatim>\<open>_facts_by_root\<close> and \<^verbatim>\<open>_guarantees_by_root\<close> that the source fills
  lazily or by \<^verbatim>\<open>_index_root_update\<close>; \<open>ts_indexed\<close> says that they agree with the sets
  they index, and every operation is shown to keep it. An operation whose access-path bound
  is not positive raises the \<^verbatim>\<open>ValueError\<close> of \<^verbatim>\<open>summarize\<close>; the result type shows it.
\<close>

section \<open>Facts, provenance and uncertainty\<close>

record taint_origin =
  or_kind :: string
  or_filename :: "string option"
  or_line :: "int option"
  or_column :: "int option"
  or_symbol :: "string option"

datatype provenance_operation =
    OP_SOURCE | OP_ASSIGN | OP_READ | OP_WRITE | OP_CALL | OP_RETURN | OP_YIELD | OP_RAISE
  | OP_SANITIZE | OP_JOIN | OP_HAVOC

record provenance_node =
  pn_location :: taint_location
  pn_kind :: string
  pn_origin :: taint_origin

record provenance_edge =
  pe_source :: provenance_node
  pe_target :: provenance_node
  pe_operation :: provenance_operation
  pe_filename :: "string option"
  pe_line :: "int option"
  pe_detail :: "string option"

datatype precision_level = PRECISE | CONSERVATIVE | ASSUMED | UNSUPPORTED

record analysis_uncertainty =
  un_code :: string
  un_message :: string
  un_level :: precision_level
  un_function :: "string option"
  un_filename :: "string option"
  un_line :: "int option"
  un_operation :: "string option"

definition affects_completeness :: "analysis_uncertainty \<Rightarrow> bool" where
  "affects_completeness u \<longleftrightarrow> un_level u = ASSUMED \<or> un_level u = UNSUPPORTED"

record taint_fact =
  tf_location :: taint_location
  tf_kind :: string
  tf_origin :: taint_origin

definition mk_fact :: "taint_location \<Rightarrow> string \<Rightarrow> taint_origin \<Rightarrow> taint_fact" where
  "mk_fact l k o' = \<lparr>tf_location = l, tf_kind = k, tf_origin = o'\<rparr>"

lemma mk_fact_simps [simp]:
  "tf_location (mk_fact l k o') = l" "tf_kind (mk_fact l k o') = k"
  "tf_origin (mk_fact l k o') = o'"
  by (simp_all add: mk_fact_def)

definition fact_provenance_node :: "taint_fact \<Rightarrow> provenance_node" where
  "fact_provenance_node f =
     \<lparr>pn_location = tf_location f, pn_kind = tf_kind f, pn_origin = tf_origin f\<rparr>"

type_synonym guarantee = "taint_location \<times> string"

section \<open>The state\<close>

record taint_state =
  ts_reachable :: bool
  ts_facts :: "taint_fact set"
  ts_guarantees :: "guarantee set"
  ts_provenance :: "provenance_edge set"
  ts_prov_top :: bool
  ts_uncertainties :: "analysis_uncertainty set"
  ts_max_edges :: int
  ts_max_path :: int
  ts_facts_by_root :: "pyval \<rightharpoonup> taint_fact set"
  ts_guars_by_root :: "pyval \<rightharpoonup> guarantee set"

definition at_root :: "pyval \<Rightarrow> taint_fact set \<Rightarrow> taint_fact set" where
  "at_root r F = {f \<in> F. loc_root (tf_location f) = r}"

definition guars_at_root :: "pyval \<Rightarrow> guarantee set \<Rightarrow> guarantee set" where
  "guars_at_root r G = {g \<in> G. loc_root (fst g) = r}"

definition group_facts :: "taint_fact set \<Rightarrow> (pyval \<rightharpoonup> taint_fact set)" where
  "group_facts F = (\<lambda>r. if at_root r F = {} then None else Some (at_root r F))"

definition group_guarantees :: "guarantee set \<Rightarrow> (pyval \<rightharpoonup> guarantee set)" where
  "group_guarantees G = (\<lambda>r. if guars_at_root r G = {} then None else Some (guars_at_root r G))"

text \<open>A freshly constructed state (the constructor or \<^verbatim>\<open>dataclasses.replace\<close>) has no
  cached index; the first read computes it from the sets.\<close>

definition fresh_index :: "taint_state \<Rightarrow> taint_state" where
  "fresh_index s = s\<lparr>ts_facts_by_root := group_facts (ts_facts s),
                     ts_guars_by_root := group_guarantees (ts_guarantees s)\<rparr>"

definition ts_new ::
  "bool \<Rightarrow> taint_fact set \<Rightarrow> guarantee set \<Rightarrow> provenance_edge set \<Rightarrow> bool \<Rightarrow>
   analysis_uncertainty set \<Rightarrow> int \<Rightarrow> int \<Rightarrow> taint_state" where
  "ts_new re F G P t U n m = fresh_index
     \<lparr>ts_reachable = re, ts_facts = F, ts_guarantees = G, ts_provenance = P, ts_prov_top = t,
      ts_uncertainties = U, ts_max_edges = n, ts_max_path = m,
      ts_facts_by_root = Map.empty, ts_guars_by_root = Map.empty\<rparr>"

definition ts_bottom :: "int \<Rightarrow> int \<Rightarrow> taint_state" where
  "ts_bottom max_edges max_path = ts_new False {} {} {} False {} max_edges max_path"

definition ts_empty :: taint_state where
  "ts_empty = ts_new True {} {} {} False {} 4096 4"

text \<open>Equality of dataclasses compares the declared fields, not the caches.\<close>

definition ts_eq :: "taint_state \<Rightarrow> taint_state \<Rightarrow> bool" where
  "ts_eq s t \<longleftrightarrow>
     ts_reachable s = ts_reachable t \<and> ts_facts s = ts_facts t \<and>
     ts_guarantees s = ts_guarantees t \<and> ts_provenance s = ts_provenance t \<and>
     ts_prov_top s = ts_prov_top t \<and> ts_uncertainties s = ts_uncertainties t \<and>
     ts_max_edges s = ts_max_edges t \<and> ts_max_path s = ts_max_path t"

definition index_root_update ::
  "taint_state \<Rightarrow> taint_state \<Rightarrow> pyval \<Rightarrow> taint_fact set \<Rightarrow> guarantee set \<Rightarrow> taint_state" where
  "index_root_update self result root facts guarantees =
     result\<lparr>ts_facts_by_root :=
              (ts_facts_by_root self)(root := if facts \<noteq> {} then Some facts else None),
            ts_guars_by_root :=
              (ts_guars_by_root self)(root := if guarantees \<noteq> {} then Some guarantees else None)\<rparr>"

definition ts_indexed :: "taint_state \<Rightarrow> bool" where
  "ts_indexed s \<longleftrightarrow>
     ts_facts_by_root s = group_facts (ts_facts s) \<and>
     ts_guars_by_root s = group_guarantees (ts_guarantees s)"

lemma get_set_group [simp]:
  "get_set (group_facts F) r = at_root r F"
  "get_set (group_guarantees G) r = guars_at_root r G"
  by (simp_all add: get_set_def group_facts_def group_guarantees_def)

section \<open>Order and join\<close>

definition ts_leq :: "taint_state \<Rightarrow> taint_state \<Rightarrow> bool" where
  "ts_leq self other =
     (if \<not> ts_reachable self then True
      else if \<not> ts_reachable other then False
      else ts_facts self \<subseteq> ts_facts other \<and>
           ts_guarantees other \<subseteq> ts_guarantees self \<and>
           (ts_prov_top other \<or>
            (\<not> ts_prov_top self \<and> ts_provenance self \<subseteq> ts_provenance other)) \<and>
           ts_uncertainties self \<subseteq> ts_uncertainties other)"

definition overflow_uncertainty :: analysis_uncertainty where
  "overflow_uncertainty =
     \<lparr>un_code = ''provenance-budget-exceeded'',
      un_message = ''Provenance witnesses exceeded their configured finite budget'',
      un_level = CONSERVATIVE, un_function = None, un_filename = None, un_line = None,
      un_operation = None\<rparr>"

definition extend_provenance ::
  "taint_state \<Rightarrow> provenance_edge set \<Rightarrow> provenance_edge set \<times> bool" where
  "extend_provenance self edges =
     (if ts_prov_top self then ({}, True)
      else if int (card edges) > ts_max_edges self then ({}, True)
      else (edges, False))"

definition join_provenance ::
  "taint_state \<Rightarrow> taint_state \<Rightarrow> int \<Rightarrow> provenance_edge set \<times> bool" where
  "join_provenance self other limit =
     (if ts_prov_top self \<or> ts_prov_top other then ({}, True)
      else let values = ts_provenance self \<union> ts_provenance other
           in if int (card values) > limit then ({}, True) else (values, False))"

text \<open>\<^verbatim>\<open>summarize\<close> where the bound is known to be positive.\<close>

definition summ :: "int \<Rightarrow> taint_location \<Rightarrow> taint_location" where
  "summ n l = (case summarize l n of Inr l' \<Rightarrow> l' | Inl _ \<Rightarrow> l)"

definition summ_fact :: "int \<Rightarrow> taint_fact \<Rightarrow> taint_fact" where
  "summ_fact n f = mk_fact (summ n (tf_location f)) (tf_kind f) (tf_origin f)"

definition normalize_facts :: "taint_fact set \<Rightarrow> int \<Rightarrow> taint_fact set res" where
  "normalize_facts facts max_access_path =
     (if max_access_path < 1 \<and> facts \<noteq> {} then Inl ValueError
      else Inr (summ_fact max_access_path ` facts))"

definition normalize_guarantees :: "guarantee set \<Rightarrow> int \<Rightarrow> guarantee set res" where
  "normalize_guarantees guarantees max_access_path =
     (if max_access_path < 1 \<and> guarantees \<noteq> {} then Inl ValueError
      else Inr ((\<lambda>(l, k). (summ max_access_path l, k)) ` guarantees))"

definition ts_join :: "taint_state \<Rightarrow> taint_state \<Rightarrow> taint_state res" where
  "ts_join self other =
     (if \<not> ts_reachable self then Inr other
      else if \<not> ts_reachable other then Inr self
      else if ts_eq self other then Inr self
      else if ts_leq self other then Inr other
      else if ts_leq other self then Inr self
      else
        let limit = min (ts_max_edges self) (ts_max_edges other);
            path_limit = min (ts_max_path self) (ts_max_path other);
            (provenance, prov_top) = join_provenance self other limit;
            uncertainties = ts_uncertainties self \<union> ts_uncertainties other \<union>
              (if prov_top then {overflow_uncertainty} else {});
            facts = ts_facts self \<union> ts_facts other;
            guarantees = ts_guarantees self \<inter> ts_guarantees other
        in bind_res
             (if ts_max_path self \<noteq> path_limit \<or> ts_max_path other \<noteq> path_limit
              then bind_res (normalize_facts facts path_limit) (\<lambda>F.
                   bind_res (normalize_guarantees guarantees path_limit) (\<lambda>G. Inr (F, G)))
              else Inr (facts, guarantees))
             (\<lambda>(F, G). Inr (ts_new True F G provenance prov_top uncertainties limit path_limit)))"

section \<open>Reads\<close>

definition abstract_location :: "taint_state \<Rightarrow> taint_location \<Rightarrow> taint_location res" where
  "abstract_location self location = summarize location (ts_max_path self)"

definition masks :: "guarantee \<Rightarrow> taint_location \<Rightarrow> taint_fact \<Rightarrow> bool" where
  "masks g location fct \<longleftrightarrow>
     snd g = tf_kind fct \<and> is_prefix_of (fst g) location \<and>
     length (loc_selectors (tf_location fct)) \<le> length (loc_selectors (fst g))"

definition facts_at :: "taint_state \<Rightarrow> taint_location \<Rightarrow> taint_fact set res" where
  "facts_at self location =
     bind_res (abstract_location self location) (\<lambda>location.
       let candidates = {fct \<in> get_set (ts_facts_by_root self) (loc_root location).
             is_prefix_of (tf_location fct) location \<or> is_prefix_of location (tf_location fct)}
       in Inr {fct \<in> candidates.
            \<not> (\<exists>g \<in> get_set (ts_guars_by_root self) (loc_root location). masks g location fct)})"

definition is_tainted :: "taint_state \<Rightarrow> taint_location \<Rightarrow> string set \<Rightarrow> bool res" where
  "is_tainted self location kinds =
     bind_res (facts_at self location) (\<lambda>F.
       Inr (\<exists>fct \<in> F. kinds = {} \<or> tf_kind fct \<in> kinds))"

section \<open>Updates\<close>

definition introduce ::
  "taint_state \<Rightarrow> taint_location \<Rightarrow> string set \<Rightarrow> taint_origin \<Rightarrow> taint_state res" where
  "introduce self location kinds origin =
     (if \<not> ts_reachable self then Inr self
      else bind_res (abstract_location self location) (\<lambda>location.
        let additions = (\<lambda>kind. mk_fact location kind origin) ` kinds;
            previous_guarantees = get_set (ts_guars_by_root self) (loc_root location);
            written_kinds = tf_kind ` additions;
            root_guarantees = {g \<in> previous_guarantees.
                                 fst g \<noteq> location \<or> snd g \<notin> written_kinds};
            guarantees = (ts_guarantees self - previous_guarantees) \<union> root_guarantees;
            result = self\<lparr>ts_facts := ts_facts self \<union> additions, ts_guarantees := guarantees\<rparr>
        in Inr (index_root_update self result (loc_root location)
                 (get_set (ts_facts_by_root self) (loc_root location) \<union> additions)
                 root_guarantees)))"

definition relocated_location ::
  "taint_location \<Rightarrow> taint_location option \<Rightarrow> taint_location \<Rightarrow> taint_location" where
  "relocated_location fact_location source_base destination =
     (case source_base of
        None \<Rightarrow> destination
      | Some b \<Rightarrow>
          if \<not> is_prefix_of b fact_location then destination
          else descendants destination
                 (drop (length (loc_selectors b)) (loc_selectors fact_location)))"

definition relocate_fact ::
  "int \<Rightarrow> taint_location option \<Rightarrow> taint_location \<Rightarrow> taint_fact \<Rightarrow> taint_fact" where
  "relocate_fact n source_base location fct =
     mk_fact (summ n (relocated_location (tf_location fct) source_base location))
       (tf_kind fct) (tf_origin fct)"

record write_options =
  wo_operation :: provenance_operation
  wo_filename :: "string option"
  wo_line :: "int option"
  wo_detail :: "string option"

definition write_edge :: "write_options \<Rightarrow> taint_fact \<Rightarrow> taint_fact \<Rightarrow> provenance_edge" where
  "write_edge w source target =
     \<lparr>pe_source = fact_provenance_node source, pe_target = fact_provenance_node target,
      pe_operation = wo_operation w, pe_filename = wo_filename w, pe_line = wo_line w,
      pe_detail = wo_detail w\<rparr>"

definition ts_write ::
  "taint_state \<Rightarrow> taint_location \<Rightarrow> taint_fact set \<Rightarrow> bool \<Rightarrow> taint_location option \<Rightarrow>
   write_options \<Rightarrow> taint_state res" where
  "ts_write self location values strong source_base w =
     (if \<not> ts_reachable self then Inr self
      else bind_res (abstract_location self location) (\<lambda>location.
      bind_res (case source_base of None \<Rightarrow> Inr None
                | Some b \<Rightarrow> bind_res (abstract_location self b) (\<lambda>b. Inr (Some b))) (\<lambda>source_base.
      let strong = strong \<and> loc_is_precise location;
          source_facts = summ_fact (ts_max_path self) ` values
      in bind_res (if strong then facts_at self location else Inr {}) (\<lambda>contaminating.
      let relocate = relocate_fact (ts_max_path self) source_base location;
          relocated = relocate ` source_facts;
          previous_facts = get_set (ts_facts_by_root self) (loc_root location);
          removed = (if strong then {f \<in> previous_facts. is_prefix_of location (tf_location f)}
                     else {});
          retained = ts_facts self - removed;
          edges = ts_provenance self \<union> (\<lambda>f. write_edge w f (relocate f)) ` source_facts;
          written_kinds = tf_kind ` relocated;
          previous_guarantees = get_set (ts_guars_by_root self) (loc_root location);
          kept_guarantees = {g \<in> previous_guarantees.
             \<not> may_overlap location (fst g) \<or> snd g \<notin> written_kinds};
          root_guarantees =
            (if strong then
               (kept_guarantees \<union> (\<lambda>f. (location, tf_kind f)) ` contaminating) -
                 (\<lambda>f. (location, tf_kind f)) ` relocated
             else kept_guarantees);
          guarantees = (ts_guarantees self - previous_guarantees) \<union> root_guarantees;
          (provenance, prov_top) = extend_provenance self edges;
          uncertainties = ts_uncertainties self \<union>
            (if prov_top then {overflow_uncertainty} else {});
          result = self\<lparr>ts_facts := retained \<union> relocated, ts_guarantees := guarantees,
                        ts_provenance := provenance, ts_prov_top := prov_top,
                        ts_uncertainties := uncertainties\<rparr>
      in Inr (index_root_update self result (loc_root location)
               ((previous_facts - removed) \<union> relocated) root_guarantees)))))"

definition ts_copy ::
  "taint_state \<Rightarrow> taint_location \<Rightarrow> taint_location \<Rightarrow> bool \<Rightarrow> write_options \<Rightarrow> taint_state res" where
  "ts_copy self source destination strong w =
     bind_res (facts_at self source) (\<lambda>values.
       ts_write self destination values strong (Some source) w)"

definition ts_kill ::
  "taint_state \<Rightarrow> taint_location \<Rightarrow> string set \<Rightarrow> bool \<Rightarrow> taint_state res" where
  "ts_kill self location kinds record_guarantee =
     (if \<not> ts_reachable self then Inr self
      else bind_res (abstract_location self location) (\<lambda>location.
        let remove_all = (''*'' \<in> kinds);
            previous_facts = get_set (ts_facts_by_root self) (loc_root location);
            removed = {f \<in> previous_facts.
               is_prefix_of location (tf_location f) \<and> (remove_all \<or> tf_kind f \<in> kinds)};
            previous_guarantees = get_set (ts_guars_by_root self) (loc_root location);
            concrete_kinds = (if remove_all then tf_kind ` removed else kinds);
            root_guarantees = previous_guarantees \<union>
              (if record_guarantee then (\<lambda>k. (location, k)) ` concrete_kinds else {});
            guarantees = (ts_guarantees self - previous_guarantees) \<union> root_guarantees;
            result = self\<lparr>ts_facts := ts_facts self - removed, ts_guarantees := guarantees\<rparr>
        in Inr (index_root_update self result (loc_root location)
                 (previous_facts - removed) root_guarantees)))"

definition ts_sanitize ::
  "taint_state \<Rightarrow> taint_location \<Rightarrow> taint_location \<Rightarrow> string set \<Rightarrow>
   string option \<Rightarrow> int option \<Rightarrow> string option \<Rightarrow> taint_state res" where
  "ts_sanitize self source destination removed filename line sanitizer =
     (let remove_all = (''*'' \<in> removed) in
      bind_res (facts_at self source) (\<lambda>incoming.
      let kept = {f \<in> incoming. \<not> remove_all \<and> tf_kind f \<notin> removed} in
      bind_res (ts_write self destination kept True None
          \<lparr>wo_operation = OP_SANITIZE, wo_filename = filename, wo_line = line,
           wo_detail = sanitizer\<rparr>) (\<lambda>result.
      let killed = (if remove_all then tf_kind ` incoming else removed)
      in Inr (fresh_index (result\<lparr>ts_guarantees :=
                ts_guarantees result \<union> (\<lambda>k. (destination, k)) ` killed\<rparr>)))))"

definition with_uncertainty :: "taint_state \<Rightarrow> analysis_uncertainty \<Rightarrow> taint_state" where
  "with_uncertainty self u =
     (if \<not> ts_reachable self then self
      else fresh_index (self\<lparr>ts_uncertainties := insert u (ts_uncertainties self)\<rparr>))"

definition havoc ::
  "taint_state \<Rightarrow> taint_location list \<Rightarrow> string set \<Rightarrow> taint_origin \<Rightarrow> analysis_uncertainty \<Rightarrow>
   taint_state res" where
  "havoc self locations kinds origin u =
     fold_res (\<lambda>location current. introduce current location kinds origin) locations
       (with_uncertainty self u)"

section \<open>The indexes stay coherent\<close>

named_theorems ts_simps

lemma at_root_simps [ts_simps]:
  "at_root r (A \<union> B) = at_root r A \<union> at_root r B" "at_root r (A - B) = at_root r A - at_root r B"
  "at_root r {} = {}" "at_root r (at_root r' A) = (if r = r' then at_root r A else {})"
  "guars_at_root r (G \<union> H) = guars_at_root r G \<union> guars_at_root r H"
  "guars_at_root r (G - H) = guars_at_root r G - guars_at_root r H"
  "guars_at_root r {} = {}"
  "guars_at_root r (guars_at_root r' G) = (if r = r' then guars_at_root r G else {})"
  by (auto simp: at_root_def guars_at_root_def)

lemma at_root_all: "(\<And>f. f \<in> A \<Longrightarrow> loc_root (tf_location f) = r) \<Longrightarrow>
    at_root r' A = (if r' = r then A else {})"
  by (auto simp: at_root_def)

lemma guars_at_root_all: "(\<And>g. g \<in> G \<Longrightarrow> loc_root (fst g) = r) \<Longrightarrow>
    guars_at_root r' G = (if r' = r then G else {})"
  by (auto simp: guars_at_root_def)

lemma at_root_root: "f \<in> at_root r A \<Longrightarrow> loc_root (tf_location f) = r"
  by (simp add: at_root_def)

lemma at_root_subset: "f \<in> at_root r A \<Longrightarrow> f \<in> A"
  by (simp add: at_root_def)

lemma guars_at_root_root: "g \<in> guars_at_root r G \<Longrightarrow> loc_root (fst g) = r"
  by (simp add: guars_at_root_def)

lemma guars_at_root_subset: "g \<in> guars_at_root r G \<Longrightarrow> g \<in> G"
  by (simp add: guars_at_root_def)

lemma fresh_index_fields [simp]:
  "ts_reachable (fresh_index s) = ts_reachable s" "ts_facts (fresh_index s) = ts_facts s"
  "ts_guarantees (fresh_index s) = ts_guarantees s"
  "ts_provenance (fresh_index s) = ts_provenance s"
  "ts_prov_top (fresh_index s) = ts_prov_top s"
  "ts_uncertainties (fresh_index s) = ts_uncertainties s"
  "ts_max_edges (fresh_index s) = ts_max_edges s" "ts_max_path (fresh_index s) = ts_max_path s"
  by (simp_all add: fresh_index_def)

lemma fresh_index_indexed [simp]: "ts_indexed (fresh_index s)"
  by (simp add: ts_indexed_def fresh_index_def)

lemma ts_new_fields [simp]:
  "ts_reachable (ts_new re F G P t U n m) = re" "ts_facts (ts_new re F G P t U n m) = F"
  "ts_guarantees (ts_new re F G P t U n m) = G" "ts_provenance (ts_new re F G P t U n m) = P"
  "ts_prov_top (ts_new re F G P t U n m) = t" "ts_uncertainties (ts_new re F G P t U n m) = U"
  "ts_max_edges (ts_new re F G P t U n m) = n" "ts_max_path (ts_new re F G P t U n m) = m"
  "ts_indexed (ts_new re F G P t U n m)"
  by (simp_all add: ts_new_def)

lemma index_root_update_fields [simp]:
  "ts_reachable (index_root_update s t r F G) = ts_reachable t"
  "ts_facts (index_root_update s t r F G) = ts_facts t"
  "ts_guarantees (index_root_update s t r F G) = ts_guarantees t"
  "ts_provenance (index_root_update s t r F G) = ts_provenance t"
  "ts_prov_top (index_root_update s t r F G) = ts_prov_top t"
  "ts_uncertainties (index_root_update s t r F G) = ts_uncertainties t"
  "ts_max_edges (index_root_update s t r F G) = ts_max_edges t"
  "ts_max_path (index_root_update s t r F G) = ts_max_path t"
  by (simp_all add: index_root_update_def)

text \<open>Updating one root of the index agrees with recomputing it, when the update changes
  the sets at that root only.\<close>

lemma index_root_update_indexed:
  assumes "ts_indexed s"
    and "\<And>r'. at_root r' (ts_facts t) = (if r' = r then F else at_root r' (ts_facts s))"
    and "\<And>r'. guars_at_root r' (ts_guarantees t) =
               (if r' = r then G else guars_at_root r' (ts_guarantees s))"
  shows "ts_indexed (index_root_update s t r F G)"
  using assms
  by (auto simp: ts_indexed_def index_root_update_def group_facts_def group_guarantees_def)

lemma ts_indexed_get [simp]:
  assumes "ts_indexed s"
  shows "get_set (ts_facts_by_root s) r = at_root r (ts_facts s)"
    and "get_set (ts_guars_by_root s) r = guars_at_root r (ts_guarantees s)"
  using assms by (simp_all add: ts_indexed_def)

lemma summ_root [simp]: "loc_root (summ n l) = loc_root l"
  using summarize_root by (auto simp: summ_def split: sum.splits)

lemma summ_eq: "summarize l n = Inr l' \<Longrightarrow> summ n l = l'"
  by (simp add: summ_def)

lemma abstract_location_eq:
  "abstract_location s l = (if ts_max_path s < 1 then Inl ValueError else Inr (summ (ts_max_path s) l))"
  by (auto simp: abstract_location_def summ_def summarize_def)

lemma summ_idem [simp]: "summ n (summ n l) = summ n l"
  using summarize_idem by (auto simp: summ_def split: sum.splits)

lemma descendants_root [simp]: "loc_root (descendants l ss) = loc_root l"
  by (simp add: descendants_def)

lemma relocated_location_root [simp]: "loc_root (relocated_location l b d) = loc_root d"
  by (simp add: relocated_location_def split: option.splits)

lemma relocate_fact_simps [simp]:
  "loc_root (tf_location (relocate_fact n b d f)) = loc_root d"
  "tf_kind (relocate_fact n b d f) = tf_kind f"
  by (simp_all add: relocate_fact_def)

lemma summ_fact_simps [simp]:
  "tf_location (summ_fact n f) = summ n (tf_location f)" "tf_kind (summ_fact n f) = tf_kind f"
  "tf_origin (summ_fact n f) = tf_origin f"
  by (simp_all add: summ_fact_def)

text \<open>The shape of every incremental update of the source: facts are removed and added at
  one root, and the guarantees of that root are replaced.\<close>

lemma root_local_indexed:
  assumes "ts_indexed s"
    and "ts_facts t = (ts_facts s - R) \<union> A" and "R \<subseteq> at_root r (ts_facts s)"
    and "\<And>f. f \<in> A \<Longrightarrow> loc_root (tf_location f) = r"
    and "ts_guarantees t = (ts_guarantees s - guars_at_root r (ts_guarantees s)) \<union> H"
    and "\<And>g. g \<in> H \<Longrightarrow> loc_root (fst g) = r"
  shows "ts_indexed (index_root_update s t r ((at_root r (ts_facts s) - R) \<union> A) H)"
proof (rule index_root_update_indexed[OF assms(1)])
  have R: "at_root r' R = (if r' = r then R else {})" for r'
    using assms(3) by (intro at_root_all) (auto dest: at_root_root)
  show "at_root r' (ts_facts t) =
        (if r' = r then (at_root r (ts_facts s) - R) \<union> A else at_root r' (ts_facts s))" for r'
    by (simp add: assms(2) ts_simps R at_root_all[OF assms(4)])
  show "guars_at_root r' (ts_guarantees t) = (if r' = r then H else guars_at_root r' (ts_guarantees s))" for r'
    by (simp add: assms(5) ts_simps guars_at_root_all[OF assms(6)])
qed

lemma introduce_indexed:
  assumes "ts_indexed s" "introduce s l K o' = Inr s'"
  shows "ts_indexed s'"
proof (cases "ts_reachable s \<and> \<not> ts_max_path s < 1")
  case True
  let ?l = "summ (ts_max_path s) l" and ?r = "loc_root l"
  let ?A = "(\<lambda>kind. mk_fact ?l kind o') ` K"
  let ?H = "{g \<in> guars_at_root ?r (ts_guarantees s). fst g \<noteq> ?l \<or> snd g \<notin> tf_kind ` ?A}"
  let ?t = "s\<lparr>ts_facts := ts_facts s \<union> ?A,
              ts_guarantees := (ts_guarantees s - guars_at_root ?r (ts_guarantees s)) \<union> ?H\<rparr>"
  have "ts_indexed (index_root_update s ?t ?r ((at_root ?r (ts_facts s) - {}) \<union> ?A) ?H)"
    by (rule root_local_indexed[OF assms(1)]) (auto dest: guars_at_root_root)
  moreover have "s' = index_root_update s ?t ?r ((at_root ?r (ts_facts s) - {}) \<union> ?A) ?H"
    using assms True by (simp add: introduce_def abstract_location_eq Let_def)
  ultimately show ?thesis by simp
qed (use assms in \<open>auto simp: introduce_def abstract_location_eq split: if_splits\<close>)

text \<open>What a write computes, by its parts.\<close>

definition write_strong :: "taint_state \<Rightarrow> taint_location \<Rightarrow> bool \<Rightarrow> bool" where
  "write_strong s l strong \<longleftrightarrow> strong \<and> loc_is_precise (summ (ts_max_path s) l)"

definition write_relocated ::
  "taint_state \<Rightarrow> taint_location \<Rightarrow> taint_fact set \<Rightarrow> taint_location option \<Rightarrow> taint_fact set" where
  "write_relocated s l V b =
     relocate_fact (ts_max_path s) (map_option (summ (ts_max_path s)) b) (summ (ts_max_path s) l) `
       summ_fact (ts_max_path s) ` V"

definition write_removed :: "taint_state \<Rightarrow> taint_location \<Rightarrow> bool \<Rightarrow> taint_fact set" where
  "write_removed s l strong =
     (if write_strong s l strong
      then {f \<in> at_root (loc_root l) (ts_facts s).
              is_prefix_of (summ (ts_max_path s) l) (tf_location f)}
      else {})"

definition facts_at_scan :: "taint_state \<Rightarrow> taint_location \<Rightarrow> taint_fact set" where
  "facts_at_scan s l =
     {f \<in> ts_facts s. may_overlap (tf_location f) l \<and>
        \<not> (\<exists>g \<in> ts_guarantees s. masks g l f)}"

definition write_root_guarantees ::
  "taint_state \<Rightarrow> taint_location \<Rightarrow> taint_fact set \<Rightarrow> bool \<Rightarrow> taint_location option \<Rightarrow>
   guarantee set" where
  "write_root_guarantees s l V strong b =
     (let d = summ (ts_max_path s) l; new = write_relocated s l V b;
          kept = {g \<in> guars_at_root (loc_root l) (ts_guarantees s).
                    \<not> may_overlap d (fst g) \<or> snd g \<notin> tf_kind ` new}
      in if write_strong s l strong
         then (kept \<union> (\<lambda>f. (d, tf_kind f)) ` facts_at_scan s d) - (\<lambda>f. (d, tf_kind f)) ` new
         else kept)"

lemma masks_root: "masks g l f \<Longrightarrow> loc_root (fst g) = loc_root l"
  by (simp add: masks_def is_prefix_of_def)

lemma may_overlap_root: "may_overlap l l' \<Longrightarrow> loc_root l = loc_root l'"
  by (simp add: may_overlap_def)

lemma facts_at_eq:
  assumes "ts_indexed s" "1 \<le> ts_max_path s"
  shows "facts_at s l = Inr (facts_at_scan s (summ (ts_max_path s) l))"
proof -
  have "{f \<in> at_root (loc_root l') (ts_facts s).
          is_prefix_of (tf_location f) l' \<or> is_prefix_of l' (tf_location f)} =
        {f \<in> ts_facts s. may_overlap (tf_location f) l'}" for l'
    using may_overlap_root by (auto simp: at_root_def may_overlap_cases)
  moreover have "(\<exists>g \<in> guars_at_root (loc_root l') (ts_guarantees s). masks g l' f) \<longleftrightarrow>
        (\<exists>g \<in> ts_guarantees s. masks g l' f)" for l' f
    unfolding guars_at_root_def by (blast dest: masks_root)
  ultimately show ?thesis
    using assms by (auto simp: facts_at_def abstract_location_eq facts_at_scan_def Let_def)
qed

lemma facts_at_error: "ts_max_path s < 1 \<Longrightarrow> facts_at s l = Inl ValueError"
  by (simp add: facts_at_def abstract_location_eq)

lemma write_relocated_root: "f \<in> write_relocated s l V b \<Longrightarrow> loc_root (tf_location f) = loc_root l"
  by (auto simp: write_relocated_def)

lemma write_root_guarantees_root:
  "g \<in> write_root_guarantees s l V strong b \<Longrightarrow> loc_root (fst g) = loc_root l"
  by (auto simp: write_root_guarantees_def Let_def dest: guars_at_root_root split: if_splits)

lemma ts_write_unreachable: "\<not> ts_reachable s \<Longrightarrow> ts_write s l V strong b w = Inr s"
  by (simp add: ts_write_def)

lemma ts_write_error: "ts_reachable s \<Longrightarrow> ts_max_path s < 1 \<Longrightarrow> ts_write s l V strong b w = Inl ValueError"
  by (simp add: ts_write_def abstract_location_eq)

lemma ts_write_result:
  assumes ix: "ts_indexed s" and r: "ts_reachable s" and n: "1 \<le> ts_max_path s"
  obtains t where
    "ts_write s l V strong b w = Inr (index_root_update s t (loc_root l)
       ((at_root (loc_root l) (ts_facts s) - write_removed s l strong) \<union> write_relocated s l V b)
       (write_root_guarantees s l V strong b))"
    "ts_reachable t" "ts_max_path t = ts_max_path s" "ts_max_edges t = ts_max_edges s"
    "ts_facts t = (ts_facts s - write_removed s l strong) \<union> write_relocated s l V b"
    "ts_guarantees t = (ts_guarantees s - guars_at_root (loc_root l) (ts_guarantees s)) \<union>
       write_root_guarantees s l V strong b"
proof -
  have b: "(case b of None \<Rightarrow> Inr None
            | Some b \<Rightarrow> bind_res (abstract_location s b) (\<lambda>b. Inr (Some b))) =
           Inr (map_option (summ (ts_max_path s)) b)"
    using n by (cases b) (simp_all add: abstract_location_eq)
  have f: "facts_at s (summ (ts_max_path s) l) = Inr (facts_at_scan s (summ (ts_max_path s) l))"
    using facts_at_eq[OF ix n, of "summ (ts_max_path s) l"] by simp
  let ?n = "ts_max_path s" and ?d = "summ (ts_max_path s) l"
  let ?src = "summ_fact ?n ` V" and ?b = "map_option (summ ?n) b"
  let ?P = "extend_provenance s (ts_provenance s \<union>
              (\<lambda>f. write_edge w f (relocate_fact ?n ?b ?d f)) ` ?src)"
  let ?t = "s\<lparr>ts_facts := (ts_facts s - write_removed s l strong) \<union> write_relocated s l V b,
              ts_guarantees := (ts_guarantees s - guars_at_root (loc_root l) (ts_guarantees s)) \<union>
                 write_root_guarantees s l V strong b,
              ts_provenance := fst ?P, ts_prov_top := snd ?P,
              ts_uncertainties := ts_uncertainties s \<union> (if snd ?P then {overflow_uncertainty} else {})\<rparr>"
  have "ts_write s l V strong b w = Inr (index_root_update s ?t (loc_root l)
       ((at_root (loc_root l) (ts_facts s) - write_removed s l strong) \<union> write_relocated s l V b)
       (write_root_guarantees s l V strong b))"
    using ix r n b f
    by (auto simp: ts_write_def abstract_location_eq Let_def write_strong_def write_removed_def
        write_relocated_def write_root_guarantees_def split: prod.splits)
  then show ?thesis by (rule that) (simp_all add: r)
qed

lemma ts_write_fields:
  assumes "ts_indexed s" "ts_reachable s" "1 \<le> ts_max_path s"
    and "ts_write s l V strong b w = Inr s'"
  shows "ts_indexed s'" "ts_reachable s'" "ts_max_path s' = ts_max_path s"
    "ts_max_edges s' = ts_max_edges s"
    "ts_facts s' = (ts_facts s - write_removed s l strong) \<union> write_relocated s l V b"
    "ts_guarantees s' = (ts_guarantees s - guars_at_root (loc_root l) (ts_guarantees s)) \<union>
       write_root_guarantees s l V strong b"
proof -
  obtain t where t: "ts_write s l V strong b w = Inr (index_root_update s t (loc_root l)
       ((at_root (loc_root l) (ts_facts s) - write_removed s l strong) \<union> write_relocated s l V b)
       (write_root_guarantees s l V strong b))"
    "ts_reachable t" "ts_max_path t = ts_max_path s" "ts_max_edges t = ts_max_edges s"
    "ts_facts t = (ts_facts s - write_removed s l strong) \<union> write_relocated s l V b"
    "ts_guarantees t = (ts_guarantees s - guars_at_root (loc_root l) (ts_guarantees s)) \<union>
       write_root_guarantees s l V strong b"
    using ts_write_result[OF assms(1-3)] by blast
  have "ts_indexed (index_root_update s t (loc_root l)
       ((at_root (loc_root l) (ts_facts s) - write_removed s l strong) \<union> write_relocated s l V b)
       (write_root_guarantees s l V strong b))"
    by (rule root_local_indexed[OF assms(1) t(5) _ _ t(6)])
       (auto simp: write_removed_def dest: write_relocated_root write_root_guarantees_root)
  with t assms(4) show "ts_indexed s'" "ts_reachable s'" "ts_max_path s' = ts_max_path s"
    "ts_max_edges s' = ts_max_edges s"
    "ts_facts s' = (ts_facts s - write_removed s l strong) \<union> write_relocated s l V b"
    "ts_guarantees s' = (ts_guarantees s - guars_at_root (loc_root l) (ts_guarantees s)) \<union>
       write_root_guarantees s l V strong b"
    by auto
qed

lemma write_indexed:
  assumes "ts_indexed s" "ts_write s l V strong b w = Inr s'"
  shows "ts_indexed s'"
proof (cases "ts_reachable s \<and> 1 \<le> ts_max_path s")
  case True
  then show ?thesis using ts_write_fields(1)[OF assms(1) _ _ assms(2)] by simp
next
  case False
  then show ?thesis
    using assms ts_write_unreachable ts_write_error by (metis Inl_Inr_False not_less sum.inject(2))
qed

lemma copy_indexed:
  "ts_indexed s \<Longrightarrow> ts_copy s l d strong w = Inr s' \<Longrightarrow> ts_indexed s'"
  by (auto simp: ts_copy_def bind_res_eq_Inr intro: write_indexed)

lemma kill_indexed:
  assumes "ts_indexed s" "ts_kill s l K rg = Inr s'"
  shows "ts_indexed s'"
proof (cases "ts_reachable s \<and> \<not> ts_max_path s < 1")
  case True
  let ?l = "summ (ts_max_path s) l" and ?r = "loc_root l"
  let ?R = "{f \<in> at_root ?r (ts_facts s). is_prefix_of ?l (tf_location f) \<and> (''*'' \<in> K \<or> tf_kind f \<in> K)}"
  let ?H = "guars_at_root ?r (ts_guarantees s) \<union>
    (if rg then (\<lambda>k. (?l, k)) ` (if ''*'' \<in> K then tf_kind ` ?R else K) else {})"
  let ?t = "s\<lparr>ts_facts := ts_facts s - ?R,
              ts_guarantees := (ts_guarantees s - guars_at_root ?r (ts_guarantees s)) \<union> ?H\<rparr>"
  have "ts_indexed (index_root_update s ?t ?r ((at_root ?r (ts_facts s) - ?R) \<union> {}) ?H)"
    by (rule root_local_indexed[OF assms(1)]) (auto dest: guars_at_root_root split: if_splits)
  moreover have "s' = index_root_update s ?t ?r ((at_root ?r (ts_facts s) - ?R) \<union> {}) ?H"
    using assms True by (simp add: ts_kill_def abstract_location_eq Let_def cong: if_cong)
  ultimately show ?thesis by simp
qed (use assms in \<open>auto simp: ts_kill_def abstract_location_eq split: if_splits\<close>)

lemma sanitize_indexed: "ts_sanitize s l d K fn ln sn = Inr s' \<Longrightarrow> ts_indexed s'"
  by (auto simp: ts_sanitize_def bind_res_eq_Inr Let_def)

lemma with_uncertainty_indexed: "ts_indexed s \<Longrightarrow> ts_indexed (with_uncertainty s u)"
  by (simp add: with_uncertainty_def)

lemma havoc_indexed: "ts_indexed s \<Longrightarrow> havoc s ls K o' u = Inr s' \<Longrightarrow> ts_indexed s'"
  unfolding havoc_def
  by (erule fold_res_invariant) (auto intro: introduce_indexed with_uncertainty_indexed)

lemma join_indexed:
  "ts_indexed s \<Longrightarrow> ts_indexed t \<Longrightarrow> ts_join s t = Inr u \<Longrightarrow> ts_indexed u"
  by (auto simp: ts_join_def bind_res_eq_Inr Let_def split: if_splits prod.splits)

section \<open>The states the operations reach\<close>

text \<open>Every state the analysis works with comes from a fresh one by these operations.\<close>

inductive ts_built :: "taint_state \<Rightarrow> bool" where
  built_new: "ts_built (ts_new re F G P t U n m)"
| built_introduce: "ts_built s \<Longrightarrow> introduce s l K o' = Inr s' \<Longrightarrow> ts_built s'"
| built_write: "ts_built s \<Longrightarrow> ts_write s l V strong b w = Inr s' \<Longrightarrow> ts_built s'"
| built_copy: "ts_built s \<Longrightarrow> ts_copy s l d strong w = Inr s' \<Longrightarrow> ts_built s'"
| built_kill: "ts_built s \<Longrightarrow> ts_kill s l K rg = Inr s' \<Longrightarrow> ts_built s'"
| built_sanitize: "ts_built s \<Longrightarrow> ts_sanitize s l d K fn ln sn = Inr s' \<Longrightarrow> ts_built s'"
| built_uncertainty: "ts_built s \<Longrightarrow> ts_built (with_uncertainty s u)"
| built_havoc: "ts_built s \<Longrightarrow> havoc s ls K o' u = Inr s' \<Longrightarrow> ts_built s'"
| built_join: "ts_built s \<Longrightarrow> ts_built t \<Longrightarrow> ts_join s t = Inr u \<Longrightarrow> ts_built u"

lemma ts_built_indexed: "ts_built s \<Longrightarrow> ts_indexed s"
proof (induction rule: ts_built.induct)
  case built_new
  show ?case by simp
qed (auto intro: introduce_indexed write_indexed copy_indexed kill_indexed sanitize_indexed
      with_uncertainty_indexed havoc_indexed join_indexed)

text \<open>C26: the incrementally maintained indexes never change an answer: in every state the
  operations can build, \<open>facts_at\<close> (which reads the cached per-root indexes) returns what a
  scan of all facts and all guarantees gives, and it fails exactly for a bound below one.\<close>

theorem facts_at_index_correct:
  assumes "ts_built s"
  shows "facts_at s l =
    (if ts_max_path s < 1 then Inl ValueError
     else Inr (facts_at_scan s (summ (ts_max_path s) l)))"
  using facts_at_eq[OF ts_built_indexed[OF assms]] facts_at_error by simp

theorem facts_at_index_correct_witness:
  "\<exists>s'. introduce ts_empty (mk_loc (PyStr ''x'') []) {''html''} \<lparr>or_kind = ''user_input'', or_filename = None,
          or_line = None, or_column = None, or_symbol = None\<rparr> = Inr s' \<and> ts_built s' \<and>
     tf_kind ` ts_facts s' = {''html''} \<and>
     facts_at s' (mk_loc (PyStr ''x'') [SAttribute ''a'']) = Inr (ts_facts s') \<and>
     facts_at s' (mk_loc (PyStr ''y'') []) = Inr {}"
proof -
  let ?x = "mk_loc (PyStr ''x'') []" and ?xa = "mk_loc (PyStr ''x'') [SAttribute ''a'']" and ?y = "mk_loc (PyStr ''y'') []"
  let ?o = "\<lparr>or_kind = ''user_input'', or_filename = None, or_line = None, or_column = None, or_symbol = None\<rparr>"
  have limit: "ts_max_path ts_empty = 4" "ts_reachable ts_empty" by (simp_all add: ts_empty_def)
  have short: "summ 4 ?x = ?x" "summ 4 ?xa = ?xa" "summ 4 ?y = ?y"
    by (simp_all add: summ_def summarize_def mk_loc_def)
  obtain s' where s': "introduce ts_empty ?x {''html''} ?o = Inr s'"
    using limit by (auto simp: introduce_def abstract_location_eq Let_def)
  then have facts: "ts_facts s' = {mk_fact ?x ''html'' ?o}" "ts_guarantees s' = {}" "ts_max_path s' = 4"
    using limit short by (auto simp: introduce_def abstract_location_eq Let_def index_root_update_def ts_empty_def ts_new_def
        guars_at_root_def)
  have built: "ts_built s'"
    using built_introduce [OF _ s'] built_new unfolding ts_empty_def by blast
  have "may_overlap ?x ?xa" "\<not> may_overlap ?x ?y" by (simp_all add: may_overlap_def)
  then have "facts_at s' ?xa = Inr (ts_facts s')" "facts_at s' ?y = Inr {}"
    using facts_at_index_correct[OF built] facts short by (auto simp: facts_at_scan_def)
  then show ?thesis using s' built facts by auto
qed

end
