(* ===== verification/TaintLattice.thy ===== *)
theory TaintLattice
  imports TaintStates
begin

text \<open>
  What the operations of \<open>TaintStates\<close> mean: the join is a least upper bound, a write taints
  its destination and a strong one clears it, a weak one loses nothing, a sanitizer removes
  the kinds it names. Two closed theorems at the end record where the code does not do what
  its documentation says.
\<close>

section \<open>The lattice\<close>

definition ts_wf :: "taint_state \<Rightarrow> bool" where
  "ts_wf s \<longleftrightarrow>
     finite (ts_provenance s) \<and>
     (ts_prov_top s \<longrightarrow> ts_provenance s = {} \<and> overflow_uncertainty \<in> ts_uncertainties s) \<and>
     (\<not> ts_prov_top s \<longrightarrow> int (card (ts_provenance s)) \<le> ts_max_edges s)"

definition same_limits :: "taint_state \<Rightarrow> taint_state \<Rightarrow> bool" where
  "same_limits s t \<longleftrightarrow> ts_max_edges s = ts_max_edges t \<and> ts_max_path s = ts_max_path t"

lemma ts_leq_refl [simp]: "ts_leq s s"
  by (simp add: ts_leq_def)

lemma ts_leq_trans: "ts_leq s t \<Longrightarrow> ts_leq t u \<Longrightarrow> ts_leq s u"
  by (auto simp: ts_leq_def split: if_splits)

lemma ts_leq_antisym:
  assumes "ts_leq s t" "ts_leq t s" "ts_reachable s" "same_limits s t" "ts_wf s" "ts_wf t"
  shows "ts_eq s t"
  using assms by (auto simp: ts_leq_def ts_eq_def ts_wf_def same_limits_def split: if_splits)

lemma join_provenance_cases:
  "join_provenance s t n = (P, ovf) \<Longrightarrow>
     (ovf \<and> P = {} \<and> (ts_prov_top s \<or> ts_prov_top t \<or>
                 int (card (ts_provenance s \<union> ts_provenance t)) > n)) \<or>
     (\<not> ovf \<and> P = ts_provenance s \<union> ts_provenance t \<and> \<not> ts_prov_top s \<and> \<not> ts_prov_top t \<and>
        int (card P) \<le> n)"
  by (auto simp: join_provenance_def Let_def split: if_splits)

lemma ts_join_result:
  assumes "same_limits s t"
  shows "ts_join s t = Inr
    (if \<not> ts_reachable s then t else if \<not> ts_reachable t then s
     else if ts_eq s t then s else if ts_leq s t then t else if ts_leq t s then s
     else case join_provenance s t (ts_max_edges s) of (P, ovf) \<Rightarrow>
       ts_new True (ts_facts s \<union> ts_facts t) (ts_guarantees s \<inter> ts_guarantees t) P ovf
         (ts_uncertainties s \<union> ts_uncertainties t \<union> (if ovf then {overflow_uncertainty} else {}))
         (ts_max_edges s) (ts_max_path s))"
  using assms by (auto simp: ts_join_def same_limits_def Let_def split: prod.splits)

lemma ts_join_bounds:
  assumes "same_limits s t" "ts_wf s" "ts_wf t"
  shows "\<exists>j. ts_join s t = Inr j \<and> ts_leq s j \<and> ts_leq t j \<and> ts_wf j \<and> same_limits s j \<and>
    (\<forall>u. ts_wf u \<and> same_limits s u \<and> ts_leq s u \<and> ts_leq t u \<longrightarrow> ts_leq j u)"
proof (cases "\<not> ts_reachable s \<or> \<not> ts_reachable t \<or> ts_eq s t \<or> ts_leq s t \<or> ts_leq t s")
  case True
  have eq: "ts_eq s t \<Longrightarrow> ts_leq t s" by (auto simp: ts_eq_def ts_leq_def)
  have "\<not> ts_reachable x \<Longrightarrow> ts_leq x y" for x y by (simp add: ts_leq_def)
  then show ?thesis
    using True assms eq by (auto simp: ts_join_result[OF assms(1)] same_limits_def)
next
  case False
  obtain P ovf where P: "join_provenance s t (ts_max_edges s) = (P, ovf)" by fastforce
  let ?j = "ts_new True (ts_facts s \<union> ts_facts t) (ts_guarantees s \<inter> ts_guarantees t) P ovf
         (ts_uncertainties s \<union> ts_uncertainties t \<union> (if ovf then {overflow_uncertainty} else {}))
         (ts_max_edges s) (ts_max_path s)"
  have j: "ts_join s t = Inr ?j" using False by (simp add: ts_join_result[OF assms(1)] P)
  have up: "ts_leq s ?j" "ts_leq t ?j"
    using False join_provenance_cases[OF P] by (auto simp: ts_leq_def)
  have wf: "ts_wf ?j" using assms join_provenance_cases[OF P] by (auto simp: ts_wf_def)
  have least: "ts_leq ?j u" if "ts_wf u" "same_limits s u" "ts_leq s u" "ts_leq t u" for u
  proof -
    have u: "ts_reachable u" "ts_facts s \<union> ts_facts t \<subseteq> ts_facts u"
      "ts_guarantees u \<subseteq> ts_guarantees s \<inter> ts_guarantees t"
      "ts_uncertainties s \<union> ts_uncertainties t \<subseteq> ts_uncertainties u"
      using that False by (auto simp: ts_leq_def split: if_splits)
    have "ts_prov_top u \<or> \<not> ovf \<and> P \<subseteq> ts_provenance u"
    proof (cases "ts_prov_top u")
      case False
      then have sub: "ts_provenance s \<union> ts_provenance t \<subseteq> ts_provenance u"
          "\<not> ts_prov_top s" "\<not> ts_prov_top t"
        using that u \<open>\<not> (\<not> ts_reachable s \<or> _)\<close> by (auto simp: ts_leq_def split: if_splits)
      have "card (ts_provenance s \<union> ts_provenance t) \<le> card (ts_provenance u)"
        using sub(1) that(1) by (intro card_mono) (auto simp: ts_wf_def)
      then have "int (card (ts_provenance s \<union> ts_provenance t)) \<le> ts_max_edges s"
        using that(1,2) False by (auto simp: ts_wf_def same_limits_def)
      then show ?thesis using join_provenance_cases[OF P] sub by auto
    qed simp
    moreover have "ovf \<Longrightarrow> ts_prov_top u \<Longrightarrow> overflow_uncertainty \<in> ts_uncertainties u"
      using that(1) by (simp add: ts_wf_def)
    ultimately show ?thesis using u by (auto simp: ts_leq_def)
  qed
  show ?thesis using j up wf least by (auto simp: same_limits_def)
qed

text \<open>C25: the lattice the fixpoint engine relies on. For states with the same budgets,
  \<open>join\<close> does not fail, is an upper bound of both arguments, keeps the provenance budget
  invariant and is below every other upper bound, even when the provenance overflows to its
  top element; and \<open>leq\<close> is a preorder, antisymmetric up to the equality of the dataclass on reachable states. \<open>ts_wf\<close> is
  the invariant that the provenance is within its budget or empty at top.\<close>

theorem taint_state_lattice:
  assumes "same_limits s t" "ts_wf s" "ts_wf t"
  shows "(\<exists>j. ts_join s t = Inr j \<and> ts_leq s j \<and> ts_leq t j \<and> ts_wf j \<and>
           (\<forall>u. ts_wf u \<and> same_limits s u \<and> ts_leq s u \<and> ts_leq t u \<longrightarrow> ts_leq j u)) \<and>
         ts_leq s s \<and> (ts_reachable s \<and> ts_leq s t \<and> ts_leq t s \<longrightarrow> ts_eq s t) \<and>
         (\<forall>u. ts_leq s t \<and> ts_leq t u \<longrightarrow> ts_leq s u)"
  using ts_join_bounds[OF assms] ts_leq_refl ts_leq_antisym assms ts_leq_trans by blast

theorem taint_state_lattice_witness:
  "same_limits ts_empty (ts_bottom 4096 4) \<and> ts_wf ts_empty \<and> ts_wf (ts_bottom 4096 4) \<and>
   (\<exists>j. ts_join ts_empty (ts_bottom 4096 4) = Inr j \<and> ts_leq ts_empty j)"
proof -
  have h: "same_limits ts_empty (ts_bottom 4096 4)" "ts_wf ts_empty" "ts_wf (ts_bottom 4096 4)"
    by (simp_all add: same_limits_def ts_wf_def ts_empty_def ts_bottom_def)
  from taint_state_lattice[OF h] h show ?thesis by blast
qed

section \<open>Writes\<close>

lemma may_overlap_refl [simp]: "may_overlap l l"
  by (simp add: may_overlap_cases)

lemma overlap_wildcard_tail:
  "length xs \<le> n \<Longrightarrow> 1 \<le> n \<Longrightarrow>
     list_all (\<lambda>(s, t). may_match s t)
       (zip xs (take (n - 1) (xs @ ys) @ [SWildcard]))"
proof (induction xs arbitrary: n)
  case (Cons x xs)
  show ?case
  proof (cases "n = 1")
    case True
    then show ?thesis using Cons.prems by (simp add: may_match_sym[of x SWildcard])
  next
    case False
    then obtain m where "n = Suc m" "1 \<le> m" by (metis Cons.prems(2) One_nat_def Suc_le_D Suc_leI
      le_zero_eq neq0_conv)
    then show ?thesis using Cons.IH[of m] Cons.prems by (cases m) auto
  qed
qed simp

lemma prefix_append [simp]: "is_prefix_of l (descendants l ss)"
proof -
  have "list_all (\<lambda>(s, t). may_match s t) (zip xs (xs @ ys))" for xs ys
    by (induction xs) auto
  then show ?thesis by (simp add: is_prefix_of_def descendants_def)
qed

text \<open>A relocated fact lands at or below its destination, even when the depth bound
  summarises the copied path.\<close>

lemma relocated_below:
  assumes "summarize l n = Inr l"
  shows "is_prefix_of l (summ n (relocated_location f b l))"
proof -
  have n: "1 \<le> n" using assms by (auto simp: summarize_def split: if_splits)
  have len: "int (length (loc_selectors l)) \<le> n" using assms summarize_bound by blast
  have self: "summ n l = l" using assms by (rule summ_eq)
  have "is_prefix_of l (summ n (descendants l ss))" for ss
  proof (cases "int (length (loc_selectors l @ ss)) \<le> n")
    case True
    then have "summ n (descendants l ss) = descendants l ss"
      using n by (simp add: summ_def summarize_def descendants_def)
    then show ?thesis by simp
  next
    case False
    have "list_all (\<lambda>(s, t). may_match s t) (zip (loc_selectors l)
            (take (nat n - 1) (loc_selectors l @ ss) @ [SWildcard]))"
      using len n by (intro overlap_wildcard_tail) auto
    moreover have "nat (n - 1) = nat n - 1" using n by simp
    moreover have "length (loc_selectors l) \<le> length (take (nat n - 1) (loc_selectors l @ ss) @ [SWildcard])"
      using len n by (cases "length (loc_selectors l) \<le> nat n - 1") auto
    ultimately show ?thesis
      using False n
      by (simp add: summ_def summarize_def descendants_def is_prefix_of_def del: take_append length_append)
  qed
  then show ?thesis by (auto simp: relocated_location_def self split: option.splits)
qed

lemma summ_fixed: "1 \<le> n \<Longrightarrow> summarize (summ n l) n = Inr (summ n l)"
  by (metis summarize_idem summ_eq summarize_ok)

lemma write_relocated_below:
  assumes "1 \<le> ts_max_path s" "f \<in> write_relocated s l V b"
  shows "is_prefix_of (summ (ts_max_path s) l) (tf_location f)"
  using assms relocated_below[OF summ_fixed[OF assms(1), of l]]
  by (auto simp: write_relocated_def relocate_fact_def)

lemma write_relocated_kinds: "tf_kind ` write_relocated s l V b = tf_kind ` V"
  by (simp add: write_relocated_def image_image)

lemma write_taints:
  assumes "ts_indexed s" "ts_reachable s" "1 \<le> ts_max_path s"
    and "ts_write s l V strong b w = Inr s'"
  shows "write_relocated s l V b \<subseteq> facts_at_scan s' (summ (ts_max_path s) l)"
proof
  fix f assume f: "f \<in> write_relocated s l V b"
  let ?d = "summ (ts_max_path s) l"
  have below: "is_prefix_of ?d (tf_location f)" by (rule write_relocated_below[OF assms(3) f])
  have "\<not> masks g ?d f" if "g \<in> ts_guarantees s'" for g
  proof
    assume m: "masks g ?d f"
    then have ov: "may_overlap ?d (fst g)" and k: "snd g = tf_kind f"
      by (simp_all add: masks_def is_prefix_of_overlap may_overlap_sym[of ?d])
    from m have "loc_root (fst g) = loc_root l" using masks_root by fastforce
    then have "g \<in> write_root_guarantees s l V strong b"
      using that ts_write_fields(6)[OF assms] by (auto simp: guars_at_root_def)
    moreover have "tf_kind f \<in> tf_kind ` write_relocated s l V b" using f by simp
    ultimately have "write_strong s l strong"
        "g \<in> (\<lambda>f. (?d, tf_kind f)) ` facts_at_scan s ?d - (\<lambda>f. (?d, tf_kind f)) ` write_relocated s l V b"
      using ov k by (auto simp: write_root_guarantees_def Let_def split: if_splits)
    then show False using k f by auto
  qed
  moreover have "may_overlap (tf_location f) ?d"
    using below is_prefix_of_overlap may_overlap_sym by blast
  ultimately show "f \<in> facts_at_scan s' ?d"
    using f ts_write_fields(5)[OF assms] by (auto simp: facts_at_scan_def)
qed

lemma strong_write_kinds:
  assumes "ts_indexed s" "ts_reachable s" "1 \<le> ts_max_path s" "write_strong s l strong"
    and "ts_write s l V strong b w = Inr s'"
    and f: "f \<in> facts_at_scan s' (summ (ts_max_path s) l)"
  shows "tf_kind f \<in> tf_kind ` V"
proof (rule ccontr)
  assume notin: "tf_kind f \<notin> tf_kind ` V"
  let ?d = "summ (ts_max_path s) l" and ?new = "write_relocated s l V b"
  note fields = ts_write_fields[OF assms(1,2,3,5)]
  have new: "tf_kind f \<notin> tf_kind ` ?new" using notin by (simp add: write_relocated_kinds)
  then have new': "tf_kind f' \<noteq> tf_kind f" if "f' \<in> ?new" for f' using that by (metis imageI)
  then have old: "f \<in> ts_facts s" "f \<notin> write_removed s l strong" "may_overlap (tf_location f) ?d"
    using f fields(5) by (auto simp: facts_at_scan_def)
  have "loc_root (tf_location f) = loc_root l" using old(3) may_overlap_root by fastforce
  with old have np: "\<not> is_prefix_of ?d (tf_location f)"
    using assms(4) by (auto simp: write_removed_def at_root_def)
  then have len: "length (loc_selectors (tf_location f)) \<le> length (loc_selectors ?d)"
    using old(3) by (simp add: is_prefix_of_iff may_overlap_sym)
  show False
  proof (cases "f \<in> facts_at_scan s ?d")
    case True
    then have "(?d, tf_kind f) \<in> ts_guarantees s'"
      using assms(4) new fields(6) by (auto simp: write_root_guarantees_def Let_def)
    moreover have "masks (?d, tf_kind f) ?d f" using len by (simp add: masks_def)
    ultimately show ?thesis using f by (auto simp: facts_at_scan_def)
  next
    case False
    then obtain g where g: "g \<in> ts_guarantees s" "masks g ?d f"
      using old by (auto simp: facts_at_scan_def)
    then have "loc_root (fst g) = loc_root l" "snd g = tf_kind f"
      using masks_root by (fastforce simp: masks_def)+
    then have "g \<in> ts_guarantees s'"
      using g(1) new new' fields(6) assms(4)
      by (auto simp: write_root_guarantees_def Let_def guars_at_root_def)
    then show ?thesis using f g(2) by (auto simp: facts_at_scan_def)
  qed
qed

lemma weak_write_keeps:
  assumes "ts_indexed s" "ts_reachable s" "1 \<le> ts_max_path s" "\<not> write_strong s l strong"
    and "ts_write s l V strong b w = Inr s'"
  shows "facts_at_scan s m \<subseteq> facts_at_scan s' m"
proof -
  note fields = ts_write_fields[OF assms(1,2,3,5)]
  have "ts_facts s \<subseteq> ts_facts s'" using fields(5) assms(4) by (simp add: write_removed_def)
  moreover have "ts_guarantees s' \<subseteq> ts_guarantees s"
    using fields(6) assms(4)
    by (auto simp: write_root_guarantees_def Let_def dest: guars_at_root_subset)
  ultimately show ?thesis by (auto simp: facts_at_scan_def)
qed

text \<open>A strong update at one concrete place does not hide the taint of the others, as long
  as the facts under its root are concrete.\<close>

lemma residues_of_same:
  fixes i m m' :: int shows "(i mod m - i mod m') mod gcd m m' = 0"
proof -
  have "gcd m m' dvd i - i mod m" "gcd m m' dvd i - i mod m'"
    by (metis dvd_minus_mod dvd_trans gcd_dvd1, metis dvd_minus_mod dvd_trans gcd_dvd2)
  then have "gcd m m' dvd (i - i mod m') - (i - i mod m)" by (rule dvd_diff[rotated])
  then show ?thesis by simp
qed

lemma overlap_through_concrete:
  assumes "list_all (\<lambda>(s, t). may_match s t) (zip ds fs)"
    and "list_all (\<lambda>(s, t). may_match s t) (zip fs ls)"
    and "list_all sel_concrete fs" "length ds \<le> length fs"
  shows "list_all (\<lambda>(s, t). may_match s t) (zip ds ls)"
  using assms
proof (induction ds arbitrary: fs ls)
  case (Cons d ds)
  then obtain f fs' where fs: "fs = f # fs'" by (cases fs) auto
  show ?case
  proof (cases ls)
    case (Cons l ls')
    have "may_match d f" "may_match f l" "sel_concrete f"
      using Cons.prems fs \<open>ls = l # ls'\<close> by auto
    then have "may_match d l" using residues_of_same by (cases d; cases f; cases l) auto
    then show ?thesis using Cons.IH[of fs' ls'] Cons.prems fs \<open>ls = l # ls'\<close> by simp
  qed simp
qed simp

lemma strong_write_frame:
  assumes "ts_indexed s" "ts_reachable s" "1 \<le> ts_max_path s"
    and "ts_write s l V strong b w = Inr s'"
    and conc: "\<And>f. f \<in> ts_facts s \<Longrightarrow> loc_concrete (tf_location f)"
    and apart: "\<not> may_overlap (summ (ts_max_path s) l) m"
  shows "facts_at_scan s m \<subseteq> facts_at_scan s' m"
proof
  fix f assume f: "f \<in> facts_at_scan s m"
  let ?d = "summ (ts_max_path s) l"
  note fields = ts_write_fields[OF assms(1-4)]
  have "\<not> is_prefix_of ?d (tf_location f)"
  proof
    assume "is_prefix_of ?d (tf_location f)"
    then have "may_overlap ?d m"
      using f conc overlap_through_concrete
      by (auto simp: facts_at_scan_def is_prefix_of_def may_overlap_def loc_concrete_def)
    with apart show False ..
  qed
  then have "f \<in> ts_facts s'" using f fields(5) by (auto simp: facts_at_scan_def write_removed_def)
  moreover have "\<not> masks g m f" if "g \<in> ts_guarantees s'" for g
  proof
    assume g: "masks g m f"
    then have "fst g \<noteq> ?d" using apart is_prefix_of_overlap by (auto simp: masks_def)
    then have "g \<in> ts_guarantees s"
      using that fields(6) by (auto simp: write_root_guarantees_def Let_def split: if_splits
          dest: guars_at_root_subset)
    with g f show False by (auto simp: facts_at_scan_def)
  qed
  ultimately show "f \<in> facts_at_scan s' m" using f by (auto simp: facts_at_scan_def)
qed

section \<open>Properties of the updates\<close>

text \<open>The kinds a read reports.\<close>

definition kinds_at :: "taint_state \<Rightarrow> taint_location \<Rightarrow> string set" where
  "kinds_at s l = (case facts_at s l of Inl _ \<Rightarrow> {} | Inr F \<Rightarrow> tf_kind ` F)"

lemma kinds_at_scan:
  "ts_indexed s \<Longrightarrow> 1 \<le> ts_max_path s \<Longrightarrow>
     kinds_at s l = tf_kind ` facts_at_scan s (summ (ts_max_path s) l)"
  by (simp add: kinds_at_def facts_at_eq)

text \<open>C22: what a write means. After \<open>write\<close> every written fact is reported at the
  destination; if the update was strong, only kinds that were written are; a weak update
  loses no taint anywhere; and a strong one loses none at a location that does not overlap
  the destination, provided the recorded facts have no wildcards.\<close>

theorem taint_write_correct:
  assumes "ts_built s" "ts_reachable s" "1 \<le> ts_max_path s"
    and "ts_write s l V strong b w = Inr s'"
  shows "tf_kind ` V \<subseteq> kinds_at s' l \<and>
    (strong \<and> loc_is_precise (summ (ts_max_path s) l) \<longrightarrow> kinds_at s' l = tf_kind ` V) \<and>
    (\<not> (strong \<and> loc_is_precise (summ (ts_max_path s) l)) \<longrightarrow>
       (\<forall>m. kinds_at s m \<subseteq> kinds_at s' m)) \<and>
    ((\<forall>f \<in> ts_facts s. loc_concrete (tf_location f)) \<longrightarrow>
       (\<forall>m. \<not> may_overlap (summ (ts_max_path s) l) (summ (ts_max_path s) m) \<longrightarrow>
            kinds_at s m \<subseteq> kinds_at s' m))"
proof -
  note a = ts_built_indexed[OF assms(1)] assms(2,3)
  note fields = ts_write_fields[OF a assms(4)]
  have k: "kinds_at s' m = tf_kind ` facts_at_scan s' (summ (ts_max_path s) m)" for m
    using kinds_at_scan[OF fields(1), of m] a(3) fields(3) by simp
  have k0: "kinds_at s m = tf_kind ` facts_at_scan s (summ (ts_max_path s) m)" for m
    using kinds_at_scan[OF a(1,3)] by simp
  have w: "tf_kind ` V \<subseteq> kinds_at s' l"
    using image_mono[OF write_taints[OF a assms(4)], of tf_kind]
    by (simp add: k write_relocated_kinds)
  have st: "kinds_at s' l \<subseteq> tf_kind ` V" if "write_strong s l strong"
    using strong_write_kinds[OF a that assms(4)] by (auto simp: k)
  have wk: "kinds_at s m \<subseteq> kinds_at s' m" if "\<not> write_strong s l strong" for m
    unfolding k k0 by (rule image_mono[OF weak_write_keeps[OF a that assms(4)]])
  have fr: "kinds_at s m \<subseteq> kinds_at s' m"
    if "\<forall>f \<in> ts_facts s. loc_concrete (tf_location f)"
       "\<not> may_overlap (summ (ts_max_path s) l) (summ (ts_max_path s) m)" for m
    unfolding k k0 using that by (intro image_mono strong_write_frame[OF a assms(4)]) auto
  show ?thesis using w st wk fr by (auto simp: write_strong_def)
qed

definition example_origin :: taint_origin where
  "example_origin = \<lparr>or_kind = ''user_input'', or_filename = Some ''sample.py'', or_line = Some 1,
     or_column = Some 0, or_symbol = Some ''input''\<rparr>"

definition example_write :: write_options where
  "example_write = \<lparr>wo_operation = OP_WRITE, wo_filename = None, wo_line = None, wo_detail = None\<rparr>"

definition loc_x :: taint_location where "loc_x = mk_loc (PyStr ''x'') []"
definition loc_y :: taint_location where "loc_y = mk_loc (PyStr ''y'') []"

theorem taint_write_correct_witness:
  "\<exists>s'. ts_built ts_empty \<and> ts_write ts_empty loc_y {mk_fact loc_x ''html'' example_origin} True None
           example_write = Inr s' \<and> ''html'' \<in> kinds_at s' loc_y"
proof -
  have b: "ts_built ts_empty" unfolding ts_empty_def by (rule built_new)
  have r: "ts_reachable ts_empty" "1 \<le> ts_max_path ts_empty" by (simp_all add: ts_empty_def)
  obtain s' where s': "ts_write ts_empty loc_y {mk_fact loc_x ''html'' example_origin} True None
           example_write = Inr s'"
    using ts_write_result[OF ts_built_indexed[OF b] r] by blast
  from taint_write_correct[OF b r s'] b s' show ?thesis by auto
qed

text \<open>a copy carries the taint of its source. After \<open>copy\<close> every kind reported at the
  source is reported at the destination, and after a strong copy exactly these.\<close>

theorem taint_copy_correct:
  assumes "ts_built s" "ts_reachable s" "1 \<le> ts_max_path s"
    and "ts_copy s src dst strong w = Inr s'"
  shows "kinds_at s src \<subseteq> kinds_at s' dst \<and>
    (strong \<and> loc_is_precise (summ (ts_max_path s) dst) \<longrightarrow> kinds_at s' dst = kinds_at s src)"
proof -
  note ix = ts_built_indexed[OF assms(1)]
  let ?V = "facts_at_scan s (summ (ts_max_path s) src)"
  have wr: "ts_write s dst ?V strong (Some src) w = Inr s'"
    using assms(4) facts_at_eq[OF ix assms(3)] by (simp add: ts_copy_def)
  note a = ix assms(2,3)
  note fields = ts_write_fields[OF a wr]
  have k: "kinds_at s' dst = tf_kind ` facts_at_scan s' (summ (ts_max_path s) dst)"
    using kinds_at_scan[OF fields(1)] assms(3) fields(3) by simp
  have "tf_kind ` ?V \<subseteq> kinds_at s' dst"
    using image_mono[OF write_taints[OF a wr], of tf_kind] by (simp add: k write_relocated_kinds)
  moreover have "kinds_at s' dst \<subseteq> tf_kind ` ?V" if "write_strong s dst strong"
    using strong_write_kinds[OF a that wr] by (auto simp: k)
  ultimately show ?thesis
    unfolding kinds_at_scan[OF ix assms(3), of src] by (auto simp: write_strong_def)
qed

theorem taint_copy_correct_witness:
  "\<exists>s'. ts_built ts_empty \<and> ts_copy ts_empty loc_x loc_y True example_write = Inr s' \<and>
        kinds_at s' loc_y = kinds_at ts_empty loc_x"
proof -
  have b: "ts_built ts_empty" unfolding ts_empty_def by (rule built_new)
  have r: "ts_reachable ts_empty" "1 \<le> ts_max_path ts_empty" by (simp_all add: ts_empty_def)
  have y: "loc_is_precise (summ (ts_max_path ts_empty) loc_y)"
    by (simp add: loc_y_def ts_empty_def summ_def summarize_def loc_is_precise_def)
  note ix = ts_built_indexed[OF b]
  obtain s' where "ts_copy ts_empty loc_x loc_y True example_write = Inr s'"
    using ts_write_result[OF ix r] by (metis bind_res_Inr facts_at_eq ix r(2) ts_copy_def)
  from taint_copy_correct[OF b r this] this b y show ?thesis by blast
qed

text \<open>a sanitizer removes the kinds it names and no others. After \<open>sanitize\<close> into a
  precise destination within the depth bound, the kinds reported there are those of the
  source less the removed ones, and none at all for the wildcard \<^verbatim>\<open>*\<close>.\<close>

theorem taint_sanitize_correct:
  assumes "ts_built s" "ts_reachable s" "1 \<le> ts_max_path s"
    and "loc_is_precise dst" "int (length (loc_selectors dst)) \<le> ts_max_path s"
    and "ts_sanitize s src dst K fn ln sn = Inr s'"
  shows "kinds_at s' dst = (if ''*'' \<in> K then {} else kinds_at s src - K)"
proof -
  note ix = ts_built_indexed[OF assms(1)]
  note a = ix assms(2,3)
  let ?I = "facts_at_scan s (summ (ts_max_path s) src)"
  let ?V = "{f \<in> ?I. ''*'' \<notin> K \<and> tf_kind f \<notin> K}"
  let ?killed = "if ''*'' \<in> K then tf_kind ` ?I else K"
  let ?w = "\<lparr>wo_operation = OP_SANITIZE, wo_filename = fn, wo_line = ln, wo_detail = sn\<rparr>"
  have dst: "summ (ts_max_path s) dst = dst" using assms(3,5) by (simp add: summ_def summarize_def)
  have strong: "write_strong s dst True" using assms(4) by (simp add: write_strong_def dst)
  obtain t where t: "ts_write s dst ?V True None ?w = Inr t"
    and s': "s' = fresh_index (t\<lparr>ts_guarantees := ts_guarantees t \<union> (\<lambda>k. (dst, k)) ` ?killed\<rparr>)"
    using assms(6) facts_at_eq[OF ix assms(3)] by (auto simp: ts_sanitize_def Let_def bind_res_eq_Inr)
  note fields = ts_write_fields[OF a t]
  have scan: "facts_at_scan s' dst = {f \<in> facts_at_scan t dst. \<not> (\<exists>k \<in> ?killed. masks (dst, k) dst f)}"
    by (auto simp: s' facts_at_scan_def)
  have "kinds_at s' dst = tf_kind ` facts_at_scan s' dst"
    using assms(3) dst fields(3) by (simp add: s' kinds_at_scan)
  also have "\<dots> = tf_kind ` ?V"
  proof
    show "tf_kind ` facts_at_scan s' dst \<subseteq> tf_kind ` ?V"
      using strong_write_kinds[OF a strong t] by (auto simp: dst scan)
    have "\<not> masks (dst, k) dst f" if "f \<in> write_relocated s dst ?V None" "k \<in> ?killed" for f k
    proof -
      have "tf_kind f \<in> tf_kind ` ?V" using that(1) write_relocated_kinds by blast
      then show ?thesis using that(2) by (auto simp: masks_def)
    qed
    then have "write_relocated s dst ?V None \<subseteq> facts_at_scan s' dst"
      using write_taints[OF a t] by (auto simp: dst scan)
    from image_mono[OF this, of tf_kind] show "tf_kind ` ?V \<subseteq> tf_kind ` facts_at_scan s' dst"
      by (simp add: write_relocated_kinds)
  qed
  finally show ?thesis using kinds_at_scan[OF ix assms(3), of src] by auto
qed

theorem taint_sanitize_correct_witness:
  "\<exists>s s'. ts_built s \<and> kinds_at s loc_x = {''html''} \<and>
     ts_sanitize s loc_x loc_y {''html''} None None None = Inr s' \<and> kinds_at s' loc_y = {}"
proof -
  let ?s = "ts_new True {mk_fact loc_x ''html'' example_origin} {} {} False {} 4096 4"
  have b: "ts_built ?s" by (rule built_new)
  have r: "ts_reachable ?s" "1 \<le> ts_max_path ?s" by simp_all
  have y: "loc_is_precise loc_y" "int (length (loc_selectors loc_y)) \<le> ts_max_path ?s"
    by (simp_all add: loc_y_def loc_is_precise_def)
  have x: "kinds_at ?s loc_x = {''html''}" by code_simp
  have "is_ok (ts_sanitize ?s loc_x loc_y {''html''} None None None)" by code_simp
  then obtain s' where s': "ts_sanitize ?s loc_x loc_y {''html''} None None None = Inr s'"
    by (auto simp: is_ok_iff)
  from taint_sanitize_correct[OF b r y s'] b x s' show ?thesis by auto
qed

section \<open>Introduction and havoc\<close>

lemma introduce_fields:
  assumes "ts_indexed s" "ts_reachable s" "1 \<le> ts_max_path s" "introduce s l K o' = Inr s'"
  shows "ts_max_path s' = ts_max_path s"
    "ts_facts s' = ts_facts s \<union> (\<lambda>k. mk_fact (summ (ts_max_path s) l) k o') ` K"
    "ts_guarantees s' = {g \<in> ts_guarantees s. fst g \<noteq> summ (ts_max_path s) l \<or> snd g \<notin> K}"
  using assms
  by (auto simp: introduce_def abstract_location_eq Let_def index_root_update_def ts_indexed_def
      guars_at_root_def image_image)

text \<open>introducing a source never loses taint and, unless a sanitizer guarantee for another
  location at least as deep covers the place, makes every introduced kind readable there.\<close>

theorem taint_introduce_correct:
  assumes "ts_built s" "ts_reachable s" "1 \<le> ts_max_path s"
    and "introduce s l K o' = Inr s'"
  shows "(\<forall>m. kinds_at s m \<subseteq> kinds_at s' m) \<and>
    {k \<in> K. \<not> (\<exists>g. (g, k) \<in> ts_guarantees s \<and> g \<noteq> summ (ts_max_path s) l \<and>
                 masks (g, k) (summ (ts_max_path s) l) (mk_fact (summ (ts_max_path s) l) k o'))}
      \<subseteq> kinds_at s' l"
proof -
  note ix = ts_built_indexed[OF assms(1)]
  note fields = introduce_fields[OF ix assms(2-4)]
  let ?d = "summ (ts_max_path s) l"
  have k: "kinds_at s' m = tf_kind ` facts_at_scan s' (summ (ts_max_path s) m)" for m
    using kinds_at_scan[OF introduce_indexed[OF ix assms(4)], of m] fields(1) assms(3) by simp
  have k0: "kinds_at s m = tf_kind ` facts_at_scan s (summ (ts_max_path s) m)" for m
    using kinds_at_scan[OF ix assms(3)] .
  have "facts_at_scan s m \<subseteq> facts_at_scan s' m" for m
    by (auto simp: facts_at_scan_def fields(2,3))
  then have "\<forall>m. kinds_at s m \<subseteq> kinds_at s' m" unfolding k k0 by (blast intro: image_mono)
  moreover have "mk_fact ?d k o' \<in> facts_at_scan s' ?d"
    if "k \<in> K" "\<not> (\<exists>g. (g, k) \<in> ts_guarantees s \<and> g \<noteq> ?d \<and> masks (g, k) ?d (mk_fact ?d k o'))" for k
    using that by (auto simp: facts_at_scan_def fields(2,3) masks_def)
  ultimately show ?thesis unfolding k by force
qed

theorem taint_introduce_correct_witness:
  "\<exists>s'. ts_built ts_empty \<and> introduce ts_empty loc_x {''html''} example_origin = Inr s' \<and>
        ''html'' \<in> kinds_at s' loc_x"
proof -
  have b: "ts_built ts_empty" unfolding ts_empty_def by (rule built_new)
  have r: "ts_reachable ts_empty" "1 \<le> ts_max_path ts_empty" "ts_guarantees ts_empty = {}"
    by (simp_all add: ts_empty_def)
  obtain s' where "introduce ts_empty loc_x {''html''} example_origin = Inr s'"
    using r by (auto simp: introduce_def abstract_location_eq Let_def)
  from taint_introduce_correct[OF b r(1,2) this] this b r(3) show ?thesis by auto
qed

section \<open>Where the code departs from its documentation\<close>

definition loc_x_a :: taint_location where
  "loc_x_a = mk_loc (PyStr ''x'') [SAttribute ''a'']"

definition havoc_note :: analysis_uncertainty where
  "havoc_note = \<lparr>un_code = ''unsupported'', un_message = ''unsupported boundary'',
     un_level = UNSUPPORTED, un_function = None, un_filename = None, un_line = None,
     un_operation = None\<rparr>"

text \<open>\<^verbatim>\<open>havoc\<close> is documented to contaminate its locations conservatively, but
  \<^verbatim>\<open>introduce\<close> drops the sanitizer guarantees of the very location only. A guarantee recorded
  for \<open>x.a\<close> survives a havoc of all of \<open>x\<close>, and \<open>x.a\<close> is then reported as not tainted
  although the object that holds it has been contaminated.\<close>

theorem havoc_leaves_children_clean:
  "bind_res (introduce ts_empty loc_x_a {''html''} example_origin) (\<lambda>s.
   bind_res (ts_kill s loc_x_a {''html''} True) (\<lambda>s.
   bind_res (havoc s [loc_x] {''html''} example_origin havoc_note) (\<lambda>s.
   bind_res (is_tainted s loc_x {''html''}) (\<lambda>whole.
   bind_res (is_tainted s loc_x_a {''html''}) (\<lambda>part. Inr (whole, part)))))) = Inr (True, False)"
  by code_simp

text \<open>a strong update removes the facts whose location its destination is a prefix of,
  and the prefix test accepts a wildcard on either side. A fact about every element of \<open>x\<close> is
  therefore removed by the assignment of a clean value to \<open>x[0]\<close>, and \<open>x[1]\<close>, which was
  tainted, is reported as not tainted.\<close>

theorem strong_write_clears_siblings:
  "bind_res (introduce ts_empty (mk_loc (PyStr ''x'') [SWildcard]) {''shell''} example_origin) (\<lambda>s.
   bind_res (is_tainted s (mk_loc (PyStr ''x'') [SIndex 1]) {''shell''}) (\<lambda>before.
   bind_res (ts_write s (mk_loc (PyStr ''x'') [SIndex 0]) {} True None example_write) (\<lambda>s.
   bind_res (is_tainted s (mk_loc (PyStr ''x'') [SIndex 1]) {''shell''}) (\<lambda>after.
     Inr (before, after))))) = Inr (True, False)"
  by code_simp

end
