(* ===== verification/FactStores.thy ===== *)
theory FactStores
  imports PyBase "HOL-Library.AList"
begin

text \<open>
  The revision-aware fact store of the IR catalog
  (\<^verbatim>\<open>src/pyflow/ir/core/facts.py\<close>, with \<^verbatim>\<open>IRRevision\<close> of \<^verbatim>\<open>ids.py\<close>).

  A Python dict is an association list in insertion order, updated with \<^verbatim>\<open>AList.update\<close>,
  since the order shows in the diagnostics of a joined answer. A diagnostic message is a
  constructor that holds the values its f-string interpolates. The lemmas show that every
  store the operations build holds snapshots of its current IR revision only, so that the
  staleness tests of the queries never fire, and that the two revision counters identify
  what the store contains.
\<close>

section \<open>Facts and snapshots\<close>

datatype ir_revision = IRRevision int

fun ir_next :: "ir_revision \<Rightarrow> ir_revision" where
  "ir_next (IRRevision v) = IRRevision (v + 1)"

fun ir_value :: "ir_revision \<Rightarrow> int" where
  "ir_value (IRRevision v) = v"

datatype precision = EXACT | CONSERVATIVE_FACT | UNKNOWN

fun precision_rank :: "precision \<Rightarrow> nat" where
  "precision_rank EXACT = 0"
| "precision_rank CONSERVATIVE_FACT = 1"
| "precision_rank UNKNOWN = 2"

datatype diagnostic =
    MissingCapability string
  | StaleCapability string ir_revision
  | StaleSnapshot string ir_revision ir_revision
  | MissingProducer string string
  | MissingFact pyval
  | OtherDiagnostic pyval

record fact_result =
  fr_values :: "pyval set"
  fr_precision :: precision
  fr_producer :: string
  fr_diagnostics :: "diagnostic list"

definition mk_result :: "pyval set \<Rightarrow> precision \<Rightarrow> string \<Rightarrow> diagnostic list \<Rightarrow> fact_result" where
  "mk_result vs p s ds =
     \<lparr>fr_values = vs, fr_precision = p, fr_producer = s, fr_diagnostics = ds\<rparr>"

definition fr_exact :: "pyval set \<Rightarrow> string \<Rightarrow> fact_result" where
  "fr_exact vs producer = mk_result vs EXACT producer []"

definition fr_conservative :: "pyval set \<Rightarrow> string \<Rightarrow> diagnostic list \<Rightarrow> fact_result" where
  "fr_conservative vs producer ds = mk_result vs CONSERVATIVE_FACT producer ds"

definition fr_unknown :: "string \<Rightarrow> diagnostic list \<Rightarrow> fact_result" where
  "fr_unknown producer ds = mk_result {} UNKNOWN producer ds"

record snapshot =
  sn_revision :: int
  sn_ir :: ir_revision
  sn_producer :: string
  sn_facts :: "(pyval \<times> fact_result) list"

type_synonym published = "(string \<times> snapshot) list"
type_synonym capability_facts = "(string \<times> (pyval \<times> fact_result) list) list"

record fact_store =
  fs_revision :: int
  fs_invalidation :: int
  fs_ir :: ir_revision
  fs_snapshots :: "(string \<times> published) list"

definition fs_new :: "ir_revision \<Rightarrow> fact_store" where
  "fs_new r = \<lparr>fs_revision = 0, fs_invalidation = 0, fs_ir = r, fs_snapshots = []\<rparr>"

definition published_at :: "(string \<times> published) list \<Rightarrow> string \<Rightarrow> published" where
  "published_at d cap = (case map_of d cap of None \<Rightarrow> [] | Some ps \<Rightarrow> ps)"

section \<open>Publication\<close>

definition publish_one ::
  "int \<Rightarrow> ir_revision \<Rightarrow> string \<Rightarrow> string \<times> (pyval \<times> fact_result) list \<Rightarrow>
   (string \<times> published) list \<Rightarrow> (string \<times> published) list" where
  "publish_one revision ir producer cf d =
     AList.update (fst cf)
       (AList.update producer
          \<lparr>sn_revision = revision, sn_ir = ir, sn_producer = producer, sn_facts = snd cf\<rparr>
          (published_at d (fst cf))) d"

definition publish_many :: "fact_store \<Rightarrow> string \<Rightarrow> capability_facts \<Rightarrow> fact_store \<times> int" where
  "publish_many self producer capabilities =
     (let revision = fs_revision self + 1 in
      (self\<lparr>fs_revision := revision,
            fs_snapshots := fold (publish_one revision (fs_ir self) producer) capabilities
                              (fs_snapshots self)\<rparr>, revision))"

definition publish ::
  "fact_store \<Rightarrow> string \<Rightarrow> string \<Rightarrow> (pyval \<times> fact_result) list \<Rightarrow> fact_store \<times> int" where
  "publish self capability producer facts = publish_many self producer [(capability, facts)]"

definition replace_one ::
  "int \<Rightarrow> ir_revision \<Rightarrow> string \<Rightarrow> string \<times> (pyval \<times> fact_result) list \<Rightarrow>
   (string \<times> published) list \<Rightarrow> (string \<times> published) list" where
  "replace_one revision ir producer cf d =
     AList.update (fst cf)
       [(producer,
         \<lparr>sn_revision = revision, sn_ir = ir, sn_producer = producer, sn_facts = snd cf\<rparr>)] d"

definition replace_many :: "fact_store \<Rightarrow> string \<Rightarrow> capability_facts \<Rightarrow> fact_store \<times> int" where
  "replace_many self producer capabilities =
     (let revision = fs_revision self + 1 in
      (self\<lparr>fs_revision := revision,
            fs_snapshots := fold (replace_one revision (fs_ir self) producer) capabilities
                              (fs_snapshots self)\<rparr>, revision))"

section \<open>Queries\<close>

definition has_capability :: "fact_store \<Rightarrow> string \<Rightarrow> bool" where
  "has_capability self cap \<longleftrightarrow> cap \<in> set (map fst (fs_snapshots self))"

definition capabilities :: "fact_store \<Rightarrow> string set" where
  "capabilities self = set (map fst (fs_snapshots self))"

text \<open>\<^verbatim>\<open>"+".join(xs)\<close>\<close>

fun join_plus :: "string list \<Rightarrow> string" where
  "join_plus [] = []"
| "join_plus [x] = x"
| "join_plus (x # y # xs) = x @ ''+'' @ join_plus (y # xs)"

definition max_precision :: "precision list \<Rightarrow> precision" where
  "max_precision ps =
     (if UNKNOWN \<in> set ps then UNKNOWN
      else if CONSERVATIVE_FACT \<in> set ps then CONSERVATIVE_FACT else EXACT)"

definition matching_results :: "published \<Rightarrow> pyval \<Rightarrow> fact_result list" where
  "matching_results ps key = List.map_filter (\<lambda>p. map_of (sn_facts (snd p)) key) ps"

definition joined_result :: "fact_result list \<Rightarrow> fact_result" where
  "joined_result results =
     mk_result (\<Union> (fr_values ` set results)) (max_precision (map fr_precision results))
       (join_plus (sort (remdups (map fr_producer results))))
       (concat (map fr_diagnostics results))"

definition query :: "fact_store \<Rightarrow> string \<Rightarrow> pyval \<Rightarrow> fact_result" where
  "query self capability key =
     (let snapshots = published_at (fs_snapshots self) capability in
      if snapshots = [] then fr_unknown ''fact-store'' [MissingCapability capability]
      else
        let stale = filter (\<lambda>p. sn_ir (snd p) \<noteq> fs_ir self) snapshots in
        if stale \<noteq> [] then
          fr_unknown (join_plus (sort (map (sn_producer \<circ> snd) stale)))
            [StaleCapability capability (fs_ir self)]
        else
          let results = matching_results snapshots key in
          if results = [] then
            fr_unknown (join_plus (sort (map fst snapshots))) [MissingFact key]
          else joined_result results)"

definition query_producer :: "fact_store \<Rightarrow> string \<Rightarrow> string \<Rightarrow> pyval \<Rightarrow> fact_result" where
  "query_producer self capability producer key =
     (case map_of (published_at (fs_snapshots self) capability) producer of
        None \<Rightarrow> fr_unknown producer [MissingProducer capability producer]
      | Some snapshot \<Rightarrow>
          if sn_ir snapshot \<noteq> fs_ir self then
            fr_unknown producer [StaleSnapshot capability (sn_ir snapshot) (fs_ir self)]
          else (case map_of (sn_facts snapshot) key of
                  None \<Rightarrow> fr_unknown producer [MissingFact key]
                | Some r \<Rightarrow> r))"

definition has_producer :: "fact_store \<Rightarrow> string \<Rightarrow> string \<Rightarrow> bool" where
  "has_producer self capability producer \<longleftrightarrow>
     producer \<in> set (map fst (published_at (fs_snapshots self) capability))"

definition snapshot_revision :: "fact_store \<Rightarrow> string \<Rightarrow> int option" where
  "snapshot_revision self capability =
     (case published_at (fs_snapshots self) capability of
        [] \<Rightarrow> None
      | p # ps \<Rightarrow> Some (fold (\<lambda>q m. max m (sn_revision (snd q))) ps (sn_revision (snd p))))"

definition snapshot_ir_revision :: "fact_store \<Rightarrow> string \<Rightarrow> ir_revision option res" where
  "snapshot_ir_revision self capability =
     (let snapshots = published_at (fs_snapshots self) capability in
      if snapshots = [] then Inr None
      else case remdups (map (sn_ir \<circ> snd) snapshots) of
             [r] \<Rightarrow> Inr (Some r)
           | _ \<Rightarrow> Inl RuntimeError)"

text \<open>\<^verbatim>\<open>items\<close> sorts the keys by their printed form, a parameter here.\<close>

definition fs_items ::
  "(pyval \<Rightarrow> string) \<Rightarrow> fact_store \<Rightarrow> string \<Rightarrow> (pyval \<times> fact_result) list" where
  "fs_items str_of self capability =
     (let snapshots = published_at (fs_snapshots self) capability in
      if snapshots = [] then []
      else map (\<lambda>key. (key, query self capability key))
             (sort_key str_of (dedup (concat (map (\<lambda>p. map fst (sn_facts (snd p))) snapshots)))))"

section \<open>Invalidation\<close>

definition advance_ir_revision :: "fact_store \<Rightarrow> ir_revision \<Rightarrow> string set \<Rightarrow> fact_store" where
  "advance_ir_revision self revision preserved =
     \<lparr>fs_revision = fs_revision self + 1, fs_invalidation = fs_invalidation self + 1,
      fs_ir = revision,
      fs_snapshots =
        map (\<lambda>(cap, ps). (cap, map (\<lambda>(producer, s). (producer, s\<lparr>sn_ir := revision\<rparr>)) ps))
          (filter (\<lambda>(cap, ps). cap \<in> preserved) (fs_snapshots self))\<rparr>"

fun import_loop ::
  "fact_store \<Rightarrow> string \<Rightarrow> ir_revision \<Rightarrow> string list \<Rightarrow>
   (string \<times> published) list \<times> bool \<Rightarrow> (string \<times> published) list \<times> bool" where
  "import_loop other producer ir [] acc = acc"
| "import_loop other producer ir (cap # caps) (d, imported) =
     (case map_of (published_at (fs_snapshots other) cap) producer of
        None \<Rightarrow> import_loop other producer ir caps (d, imported)
      | Some s \<Rightarrow>
          import_loop other producer ir caps
            (AList.update cap (AList.update producer (s\<lparr>sn_ir := ir\<rparr>) (published_at d cap)) d, True))"

definition import_producer ::
  "fact_store \<Rightarrow> fact_store \<Rightarrow> string \<Rightarrow> string list \<Rightarrow> fact_store" where
  "import_producer self other producer caps =
     (case import_loop other producer (fs_ir self) caps (fs_snapshots self, False) of
        (d, imported) \<Rightarrow>
          self\<lparr>fs_snapshots := d,
               fs_revision := (if imported then fs_revision self + 1 else fs_revision self)\<rparr>)"

fun invalidate_loop ::
  "string list \<Rightarrow> (string \<times> published) list \<times> bool \<Rightarrow> (string \<times> published) list \<times> bool" where
  "invalidate_loop [] acc = acc"
| "invalidate_loop (cap # caps) (d, changed) =
     invalidate_loop caps (AList.delete cap d, changed \<or> map_of d cap \<noteq> None)"

definition bump_both :: "fact_store \<Rightarrow> fact_store" where
  "bump_both self = self\<lparr>fs_revision := fs_revision self + 1,
                         fs_invalidation := fs_invalidation self + 1\<rparr>"

definition fs_invalidate :: "fact_store \<Rightarrow> string list \<Rightarrow> fact_store" where
  "fs_invalidate self caps =
     (case invalidate_loop caps (fs_snapshots self, False) of
        (d, changed) \<Rightarrow>
          (if changed then bump_both (self\<lparr>fs_snapshots := d\<rparr>) else self\<lparr>fs_snapshots := d\<rparr>))"

definition retained_snapshots ::
  "string set \<Rightarrow> (string \<times> published) list \<Rightarrow> (string \<times> published) list" where
  "retained_snapshots retained d =
     filter (\<lambda>(cap, ps). ps \<noteq> [])
       (map (\<lambda>(cap, ps). (cap, filter (\<lambda>(producer, s). producer \<in> retained) ps)) d)"

definition retain_producers :: "fact_store \<Rightarrow> string set \<Rightarrow> fact_store" where
  "retain_producers self retained =
     (let d = retained_snapshots retained (fs_snapshots self) in
      if d \<noteq> fs_snapshots self then bump_both (self\<lparr>fs_snapshots := d\<rparr>) else self)"

definition all_producers :: "fact_store \<Rightarrow> string set" where
  "all_producers self = (\<Union>p \<in> set (fs_snapshots self). fst ` set (snd p))"

definition invalidate_producers :: "fact_store \<Rightarrow> string set \<Rightarrow> fact_store" where
  "invalidate_producers self removed =
     retain_producers self {p \<in> all_producers self. p \<notin> removed}"

definition fs_clear :: "fact_store \<Rightarrow> fact_store" where
  "fs_clear self =
     (if fs_snapshots self \<noteq> [] then bump_both (self\<lparr>fs_snapshots := []\<rparr>) else self)"

section \<open>Well-formed stores\<close>

named_theorems dict_simps

lemmas [dict_simps] = update_conv' distinct_update delete_conv' distinct_delete map_of_map_restrict

definition good_published :: "ir_revision \<Rightarrow> published \<Rightarrow> bool" where
  "good_published ir ps \<longleftrightarrow> ps \<noteq> [] \<and> distinct (map fst ps) \<and>
     (\<forall>p s. map_of ps p = Some s \<longrightarrow> sn_ir s = ir \<and> sn_producer s = p)"

definition good_snapshots :: "ir_revision \<Rightarrow> (string \<times> published) list \<Rightarrow> bool" where
  "good_snapshots ir d \<longleftrightarrow> distinct (map fst d) \<and>
     (\<forall>cap ps. map_of d cap = Some ps \<longrightarrow> good_published ir ps)"

definition fs_wf :: "fact_store \<Rightarrow> bool" where
  "fs_wf s \<longleftrightarrow> good_snapshots (fs_ir s) (fs_snapshots s)"

lemma update_not_Nil [simp]: "AList.update k v al \<noteq> []"
  by (cases al) auto

lemma published_at_update [simp]:
  "published_at (AList.update cap ps d) cap' = (if cap' = cap then ps else published_at d cap')"
  by (simp add: published_at_def dict_simps)

lemma good_published_update:
  "ps = [] \<or> good_published ir ps \<Longrightarrow> sn_ir s = ir \<Longrightarrow> sn_producer s = p \<Longrightarrow>
     good_published ir (AList.update p s ps)"
  by (auto simp: good_published_def dict_simps split: if_splits)

lemma good_snapshots_update:
  "good_snapshots ir d \<Longrightarrow> good_published ir ps \<Longrightarrow> good_snapshots ir (AList.update cap ps d)"
  by (auto simp: good_snapshots_def dict_simps split: if_splits)

lemma good_published_at:
  "good_snapshots ir d \<Longrightarrow> published_at d cap = [] \<or> good_published ir (published_at d cap)"
  by (auto simp: good_snapshots_def published_at_def split: option.splits)

lemma good_publish_one:
  "good_snapshots ir d \<Longrightarrow> good_snapshots ir (publish_one n ir producer cf d)"
  using good_published_at[of ir d "fst cf"]
  by (auto simp: publish_one_def intro!: good_snapshots_update good_published_update)

lemma good_replace_one:
  "good_snapshots ir d \<Longrightarrow> good_snapshots ir (replace_one n ir producer cf d)"
  by (auto simp: replace_one_def good_published_def intro!: good_snapshots_update)

lemma good_fold:
  "good_snapshots ir d \<Longrightarrow> (\<And>x d. good_snapshots ir d \<Longrightarrow> good_snapshots ir (f x d)) \<Longrightarrow>
     good_snapshots ir (fold f xs d)"
  by (induction xs arbitrary: d) auto

lemma publish_many_wf: "fs_wf s \<Longrightarrow> fs_wf (fst (publish_many s producer cs))"
  by (auto simp: fs_wf_def publish_many_def Let_def intro!: good_fold good_publish_one)

lemma replace_many_wf: "fs_wf s \<Longrightarrow> fs_wf (fst (replace_many s producer cs))"
  by (auto simp: fs_wf_def replace_many_def Let_def intro!: good_fold good_replace_one)

lemma map_of_retag:
  "map_of (map (\<lambda>(k, v). (k, f v)) d) k = map_option f (map_of d k)"
  by (induction d) auto

lemma map_of_filter_key:
  "map_of (filter (\<lambda>(k, v). k \<in> A) d) k = (if k \<in> A then map_of d k else None)"
  by (induction d) auto

lemma fst_retag [simp]: "fst \<circ> (\<lambda>(k, v). (k, f v)) = fst"
  by auto

lemma distinct_fst_filter: "distinct (map fst d) \<Longrightarrow> distinct (map fst (filter P d))"
  by (induction d) auto

lemma good_published_retag:
  "good_published ir ps \<Longrightarrow>
     good_published r (map (\<lambda>(producer, s). (producer, s\<lparr>sn_ir := r\<rparr>)) ps)"
  by (auto simp: good_published_def map_of_retag)

lemma advance_wf:
  assumes "fs_wf s" shows "fs_wf (advance_ir_revision s r preserved)"
proof -
  let ?d = "map (\<lambda>(cap, ps). (cap, map (\<lambda>(producer, s). (producer, s\<lparr>sn_ir := r\<rparr>)) ps))
              (filter (\<lambda>(cap, ps). cap \<in> preserved) (fs_snapshots s))"
  have "distinct (map fst ?d)"
    using assms by (simp add: fs_wf_def good_snapshots_def distinct_fst_filter)
  moreover have "good_published r ps" if "map_of ?d cap = Some ps" for cap ps
  proof -
    obtain z where z: "map_of (fs_snapshots s) cap = Some z"
      "ps = map (\<lambda>(producer, s). (producer, s\<lparr>sn_ir := r\<rparr>)) z"
      using \<open>map_of ?d cap = Some ps\<close> by (auto simp only: map_of_retag map_of_filter_key
          option.map_disc_iff map_option_eq_Some split: if_splits)
    then have "good_published (fs_ir s) z" using assms by (auto simp: fs_wf_def good_snapshots_def)
    then show ?thesis using z(2) good_published_retag by blast
  qed
  ultimately show ?thesis
    by (simp add: fs_wf_def advance_ir_revision_def good_snapshots_def)
qed

lemma import_loop_good:
  assumes "import_loop other producer ir caps (d, b) = (d', b')" "good_snapshots ir d"
    "good_snapshots ir' (fs_snapshots other)"
  shows "good_snapshots ir d'"
  using assms
proof (induction caps arbitrary: d b)
  case (Cons cap caps)
  show ?case
  proof (cases "map_of (published_at (fs_snapshots other) cap) producer")
    case None
    then show ?thesis using Cons by simp
  next
    case (Some s)
    have "sn_producer s = producer"
      using good_published_at[OF Cons.prems(3), of cap] Some by (auto simp: good_published_def)
    then have "good_snapshots ir
        (AList.update cap (AList.update producer (s\<lparr>sn_ir := ir\<rparr>) (published_at d cap)) d)"
      using good_published_at[OF Cons.prems(2), of cap] Cons.prems(2)
      by (intro good_snapshots_update good_published_update) auto
    then show ?thesis using Cons Some by simp
  qed
qed simp

lemma import_wf:
  assumes "fs_wf s" "fs_wf other" shows "fs_wf (import_producer s other producer caps)"
proof -
  obtain d b where d: "import_loop other producer (fs_ir s) caps (fs_snapshots s, False) = (d, b)"
    by fastforce
  have "good_snapshots (fs_ir s) d"
    using import_loop_good[OF d] assms by (auto simp: fs_wf_def)
  then show ?thesis by (simp add: fs_wf_def import_producer_def d)
qed

lemma delete_good: "good_snapshots ir d \<Longrightarrow> good_snapshots ir (AList.delete cap d)"
  unfolding good_snapshots_def by (simp add: delete_conv' distinct_delete)

lemma invalidate_loop_good:
  "good_snapshots ir d \<Longrightarrow> good_snapshots ir (fst (invalidate_loop caps (d, b)))"
  by (induction caps arbitrary: d b) (simp_all add: delete_good)

lemma bump_both_simps [simp]:
  "fs_snapshots (bump_both s) = fs_snapshots s" "fs_ir (bump_both s) = fs_ir s"
  "fs_revision (bump_both s) = fs_revision s + 1"
  "fs_invalidation (bump_both s) = fs_invalidation s + 1"
  by (simp_all add: bump_both_def)

lemma invalidate_wf:
  assumes "fs_wf s" shows "fs_wf (fs_invalidate s caps)"
proof -
  obtain d b where d: "invalidate_loop caps (fs_snapshots s, False) = (d, b)" by fastforce
  have "good_snapshots (fs_ir s) d"
    using invalidate_loop_good[of "fs_ir s" "fs_snapshots s" caps False] d assms
    by (simp add: fs_wf_def)
  then show ?thesis by (simp add: fs_wf_def fs_invalidate_def d)
qed

lemma map_of_filter_val:
  "distinct (map fst d) \<Longrightarrow> map_of (filter (\<lambda>(k, v). P v) d) k =
     (case map_of d k of None \<Rightarrow> None | Some v \<Rightarrow> if P v then Some v else None)"
proof (induction d)
  case (Cons x d)
  have "map_of d (fst x) = None" using Cons.prems by (auto simp: map_of_eq_None_iff)
  then show ?case using Cons by (cases x) (auto split: option.splits)
qed simp

lemma retained_lookup:
  "distinct (map fst d) \<Longrightarrow> map_of (retained_snapshots R d) cap =
     (case map_of d cap of None \<Rightarrow> None
      | Some ps \<Rightarrow> let ps' = filter (\<lambda>(p, s). p \<in> R) ps in if ps' = [] then None else Some ps')"
  unfolding retained_snapshots_def
  by (subst map_of_filter_val) (auto simp: map_of_retag Let_def split: option.splits)

lemma retained_good:
  assumes "good_snapshots ir d" shows "good_snapshots ir (retained_snapshots R d)"
proof -
  have d: "distinct (map fst d)" using assms by (simp add: good_snapshots_def)
  have "distinct (map fst (retained_snapshots R d))"
    unfolding retained_snapshots_def by (intro distinct_fst_filter) (simp add: d)
  moreover have "good_published ir ps" if "map_of (retained_snapshots R d) cap = Some ps" for cap ps
    using that assms
    by (auto simp: retained_lookup[OF d] good_snapshots_def good_published_def Let_def
        map_of_filter_key distinct_fst_filter split: option.splits if_splits)
  ultimately show ?thesis by (simp add: good_snapshots_def)
qed

lemma retain_wf: "fs_wf s \<Longrightarrow> fs_wf (retain_producers s R)"
  by (simp add: fs_wf_def retain_producers_def Let_def retained_good)

lemma clear_wf: "fs_wf s \<Longrightarrow> fs_wf (fs_clear s)"
  by (simp add: fs_wf_def fs_clear_def good_snapshots_def)

lemma new_wf [simp]: "fs_wf (fs_new r)"
  by (simp add: fs_wf_def fs_new_def good_snapshots_def)

text \<open>One operation on a store.\<close>

inductive fact_step :: "fact_store \<Rightarrow> fact_store \<Rightarrow> bool" where
  step_publish: "fact_step s (fst (publish_many s producer cs))"
| step_replace: "fact_step s (fst (replace_many s producer cs))"
| step_advance: "fact_step s (advance_ir_revision s r preserved)"
| step_import: "fs_wf other \<Longrightarrow> fact_step s (import_producer s other producer caps)"
| step_invalidate: "fact_step s (fs_invalidate s caps)"
| step_invalidate_producers: "fact_step s (invalidate_producers s R)"
| step_retain: "fact_step s (retain_producers s R)"
| step_clear: "fact_step s (fs_clear s)"

lemma fact_step_wf: "fact_step s s' \<Longrightarrow> fs_wf s \<Longrightarrow> fs_wf s'"
  by (induction rule: fact_step.induct)
     (auto simp: invalidate_producers_def intro: publish_many_wf replace_many_wf advance_wf import_wf
       invalidate_wf retain_wf clear_wf)

lemma fact_steps_wf: "fact_step\<^sup>*\<^sup>* s s' \<Longrightarrow> fs_wf s \<Longrightarrow> fs_wf s'"
  by (induction rule: rtranclp_induct) (auto intro: fact_step_wf)

definition fs_built :: "fact_store \<Rightarrow> bool" where
  "fs_built s \<longleftrightarrow> (\<exists>r. fact_step\<^sup>*\<^sup>* (fs_new r) s)"

lemma fs_built_wf: "fs_built s \<Longrightarrow> fs_wf s"
  by (auto simp: fs_built_def intro: fact_steps_wf)

section \<open>What the queries answer\<close>

lemma good_published_ir:
  assumes "good_published ir ps" "q \<in> set ps" shows "sn_ir (snd q) = ir" "sn_producer (snd q) = fst q"
proof -
  have "map_of ps (fst q) = Some (snd q)"
    using assms by (cases q) (simp add: good_published_def)
  then show "sn_ir (snd q) = ir" "sn_producer (snd q) = fst q"
    using assms(1) unfolding good_published_def by blast+
qed

lemma wf_published: "fs_wf s \<Longrightarrow> published_at (fs_snapshots s) cap = [] \<or>
    good_published (fs_ir s) (published_at (fs_snapshots s) cap)"
  by (simp add: fs_wf_def good_published_at)

lemma wf_capability:
  assumes "fs_wf s"
  shows "has_capability s cap \<longleftrightarrow> published_at (fs_snapshots s) cap \<noteq> []"
proof (cases "map_of (fs_snapshots s) cap")
  case None
  then have "cap \<notin> set (map fst (fs_snapshots s))" by (simp add: map_of_eq_None_iff)
  then show ?thesis using None by (simp add: has_capability_def published_at_def)
next
  case (Some ps)
  then have "cap \<in> set (map fst (fs_snapshots s))" by (force dest: map_of_SomeD)
  moreover have "ps \<noteq> []"
    using assms Some unfolding fs_wf_def good_snapshots_def good_published_def by blast
  ultimately show ?thesis using Some by (simp add: has_capability_def published_at_def)
qed

lemma remdups_constant: "xs \<noteq> [] \<Longrightarrow> (\<And>x. x \<in> set xs \<Longrightarrow> x = c) \<Longrightarrow> remdups xs = [c]"
proof (induction xs)
  case (Cons x xs)
  show ?case
  proof (cases "xs = []")
    case False
    then have "hd xs = c" "hd xs \<in> set xs" using Cons.prems(2) by auto
    moreover have "x = c" "remdups xs = [c]" using Cons False by simp_all
    ultimately show ?thesis by simp
  qed (use Cons in simp)
qed simp

lemma wf_snapshot_ir:
  assumes "fs_wf s" "has_capability s cap"
  shows "snapshot_ir_revision s cap = Inr (Some (fs_ir s))"
proof -
  let ?ps = "published_at (fs_snapshots s) cap"
  have ne: "?ps \<noteq> []" and g: "good_published (fs_ir s) ?ps"
    using assms wf_capability wf_published by blast+
  have "remdups (map (sn_ir \<circ> snd) ?ps) = [fs_ir s]"
    using ne good_published_ir(1)[OF g] by (intro remdups_constant) auto
  then show ?thesis using ne by (simp add: snapshot_ir_revision_def)
qed

lemma wf_not_stale:
  assumes "fs_wf s" shows "filter (\<lambda>p. sn_ir (snd p) \<noteq> fs_ir s) (published_at (fs_snapshots s) cap) = []"
  using wf_published[OF assms, of cap] good_published_ir(1) by (auto simp: filter_empty_conv)

lemma wf_query_producer:
  "fs_wf s \<Longrightarrow> query_producer s cap p key =
     (case map_of (published_at (fs_snapshots s) cap) p of
        None \<Rightarrow> fr_unknown p [MissingProducer cap p]
      | Some sn \<Rightarrow> (case map_of (sn_facts sn) key of
                     None \<Rightarrow> fr_unknown p [MissingFact key] | Some r \<Rightarrow> r))"
  using wf_published[of s cap]
  by (auto simp: query_producer_def good_published_def split: option.splits)

text \<open>C30: a fact store never holds a stale snapshot. In every store the operations can build,
  the snapshots of a capability all carry the current IR revision, so \<open>snapshot_ir_revision\<close>
  never raises, no query takes its stale branch, and a joined answer is the union of what
  the producers published, with the weakest precision among them.\<close>

theorem fact_store_fresh:
  assumes "fs_built s"
  shows "snapshot_ir_revision s cap =
           Inr (if has_capability s cap then Some (fs_ir s) else None) \<and>
         query s cap key =
           (let ps = published_at (fs_snapshots s) cap; rs = matching_results ps key in
            if ps = [] then fr_unknown ''fact-store'' [MissingCapability cap]
            else if rs = [] then fr_unknown (join_plus (sort (map fst ps))) [MissingFact key]
            else joined_result rs) \<and>
         fr_values (query s cap key) =
           (\<Union>p \<in> {p. has_producer s cap p}. fr_values (query_producer s cap p key))"
proof -
  have wf: "fs_wf s" using assms by (rule fs_built_wf)
  let ?ps = "published_at (fs_snapshots s) cap" and ?rs = "matching_results (published_at (fs_snapshots s) cap) key"
  have ir: "snapshot_ir_revision s cap = Inr (if has_capability s cap then Some (fs_ir s) else None)"
    using wf_snapshot_ir[OF wf] wf_capability[OF wf] by (simp add: snapshot_ir_revision_def)
  have q: "query s cap key =
           (if ?ps = [] then fr_unknown ''fact-store'' [MissingCapability cap]
            else if ?rs = [] then fr_unknown (join_plus (sort (map fst ?ps))) [MissingFact key]
            else joined_result ?rs)"
    using wf_not_stale[OF wf] by (simp add: query_def Let_def)
  have "fr_values (query s cap key) = \<Union> (fr_values ` set ?rs)"
    unfolding q by (auto simp: fr_unknown_def mk_result_def joined_result_def matching_results_def
        List.map_filter_def filter_empty_conv)
  also have "\<dots> = (\<Union>p \<in> set (map fst ?ps). fr_values (query_producer s cap p key))"
  proof (cases "?ps = []")
    case False
    then have d: "distinct (map fst ?ps)" using wf_published[OF wf, of cap] by (simp add: good_published_def)
    have "fr_values (query_producer s cap (fst q) key) =
          (case map_of (sn_facts (snd q)) key of None \<Rightarrow> {} | Some r \<Rightarrow> fr_values r)"
      if "q \<in> set ?ps" for q
      using that map_of_is_SomeI[OF d, of "fst q" "snd q"]
      by (simp add: wf_query_producer[OF wf] fr_unknown_def mk_result_def split: option.splits)
    moreover have "\<Union> (fr_values ` set ?rs) =
          (\<Union>q \<in> set ?ps. case map_of (sn_facts (snd q)) key of None \<Rightarrow> {} | Some r \<Rightarrow> fr_values r)"
      by (force simp: matching_results_def List.map_filter_def split: option.splits)
    ultimately show ?thesis by simp
  qed (simp add: matching_results_def List.map_filter_def)
  finally show ?thesis using ir q by (simp add: has_producer_def Let_def)
qed

theorem fact_store_fresh_witness:
  "\<exists>s. fs_built s \<and> has_capability s ''types'' \<and>
       snapshot_ir_revision s ''types'' = Inr (Some (IRRevision 0)) \<and>
       fr_values (query s ''types'' (PyInt 1)) = {PyStr ''int''}"
proof -
  let ?s = "fst (publish_many (fs_new (IRRevision 0)) ''cpa''
              [(''types'', [(PyInt 1, fr_exact {PyStr ''int''} ''cpa'')])])"
  have b: "fs_built ?s"
    unfolding fs_built_def using step_publish by (intro exI[of _ "IRRevision 0"] r_into_rtranclp)
  have "has_capability ?s ''types''" "fs_ir ?s = IRRevision 0"
    "fr_values (query ?s ''types'' (PyInt 1)) = {PyStr ''int''}"
    by code_simp+
  then obtain s where s: "fs_built s" "has_capability s ''types''" "fs_ir s = IRRevision 0"
    "fr_values (query s ''types'' (PyInt 1)) = {PyStr ''int''}"
    using b by blast
  have "snapshot_ir_revision s ''types'' = Inr (Some (IRRevision 0))"
    using fact_store_fresh[OF s(1), of "''types''" "PyInt 1"] s(2,3) by simp
  with s show ?thesis by blast
qed

section \<open>Versions\<close>

lemma import_loop_unchanged:
  "import_loop other producer ir caps (d, b) = (d', b') \<Longrightarrow> (b \<longrightarrow> b') \<and> (\<not> b' \<longrightarrow> d' = d)"
proof (induction caps arbitrary: d b)
  case (Cons cap caps)
  show ?case
  proof (cases "map_of (published_at (fs_snapshots other) cap) producer")
    case None
    then show ?thesis using Cons by simp
  next
    case (Some sn)
    then show ?thesis
      using Cons.prems Cons.IH[of "AList.update cap (AList.update producer (sn\<lparr>sn_ir := ir\<rparr>)
        (published_at d cap)) d" True] by simp
  qed
qed simp

lemma invalidate_loop_unchanged:
  "invalidate_loop caps (d, b) = (d', b') \<Longrightarrow> (b \<longrightarrow> b') \<and> (\<not> b' \<longrightarrow> d' = d)"
proof (induction caps arbitrary: d b)
  case (Cons cap caps)
  show ?case
  proof (cases "map_of d cap")
    case None
    then have "AList.delete cap d = d" by (simp add: delete_idem map_of_eq_None_iff)
    then show ?thesis using Cons None by simp
  next
    case (Some ps)
    then show ?thesis using Cons.prems Cons.IH[of "AList.delete cap d" True] by simp
  qed
qed simp

lemma import_loop_capabilities:
  "import_loop other producer ir caps (d, b) = (d', b') \<Longrightarrow> fst ` set d \<subseteq> fst ` set d'"
proof (induction caps arbitrary: d b)
  case (Cons cap caps)
  show ?case
  proof (cases "map_of (published_at (fs_snapshots other) cap) producer")
    case None
    then show ?thesis using Cons by simp
  next
    case (Some sn)
    let ?d = "AList.update cap (AList.update producer (sn\<lparr>sn_ir := ir\<rparr>) (published_at d cap)) d"
    have "fst ` set d \<subseteq> fst ` set ?d" by (auto simp: dom_update)
    also have "\<dots> \<subseteq> fst ` set d'" using Cons Some by simp
    finally show ?thesis .
  qed
qed simp

definition store_le :: "fact_store \<Rightarrow> fact_store \<Rightarrow> bool" where
  "store_le s s' \<longleftrightarrow>
     fs_revision s \<le> fs_revision s' \<and> fs_invalidation s \<le> fs_invalidation s' \<and>
     (fs_revision s' = fs_revision s \<longrightarrow> s' = s) \<and>
     (fs_invalidation s' = fs_invalidation s \<longrightarrow>
        fs_ir s' = fs_ir s \<and> capabilities s \<subseteq> capabilities s')"

lemma store_le_refl [simp]: "store_le s s"
  by (simp add: store_le_def)

lemma store_le_trans: "store_le s t \<Longrightarrow> store_le t u \<Longrightarrow> store_le s u"
  unfolding store_le_def by (auto dest: order_antisym)

lemma store_le_bump [simp]: "fs_revision t = fs_revision s \<Longrightarrow> fs_invalidation t = fs_invalidation s \<Longrightarrow>
    store_le s (bump_both t)"
  by (simp add: store_le_def)

lemma fold_capabilities:
  "(\<And>x d. fst ` set d \<subseteq> fst ` set (f x d)) \<Longrightarrow> fst ` set d \<subseteq> fst ` set (fold f xs d)"
  by (induction xs arbitrary: d) (auto, metis imageI subsetD fst_conv)

lemma import_le: "store_le s (import_producer s other producer caps)"
proof -
  obtain d b where d: "import_loop other producer (fs_ir s) caps (fs_snapshots s, False) = (d, b)"
    by fastforce
  show ?thesis
    using import_loop_unchanged[OF d] import_loop_capabilities[OF d]
    by (cases b) (auto simp: import_producer_def d store_le_def capabilities_def)
qed

lemma invalidate_le: "store_le s (fs_invalidate s caps)"
proof -
  obtain d b where d: "invalidate_loop caps (fs_snapshots s, False) = (d, b)" by fastforce
  show ?thesis
    using invalidate_loop_unchanged[OF d] by (cases b) (auto simp: fs_invalidate_def d)
qed

lemma fact_step_le: "fact_step s s' \<Longrightarrow> store_le s s'"
proof (induction rule: fact_step.induct)
  case (step_publish s producer cs)
  have "capabilities s \<subseteq> capabilities (fst (publish_many s producer cs))"
    unfolding capabilities_def publish_many_def Let_def
    using fold_capabilities[of "publish_one (fs_revision s + 1) (fs_ir s) producer"]
    by (simp add: publish_one_def dom_update subset_insertI)
  then show ?case by (simp add: store_le_def publish_many_def Let_def)
next
  case (step_replace s producer cs)
  have "capabilities s \<subseteq> capabilities (fst (replace_many s producer cs))"
    unfolding capabilities_def replace_many_def Let_def
    using fold_capabilities[of "replace_one (fs_revision s + 1) (fs_ir s) producer"]
    by (simp add: replace_one_def dom_update subset_insertI)
  then show ?case by (simp add: store_le_def replace_many_def Let_def)
next
  case step_advance
  show ?case by (simp add: store_le_def advance_ir_revision_def)
qed (simp_all add: import_le invalidate_le invalidate_producers_def retain_producers_def fs_clear_def
    Let_def)

text \<open>the revision counters are sound version stamps. Along any sequence of operations
  neither counter decreases; when \<open>revision\<close> has not moved the whole store is unchanged, and
  when \<open>invalidation_revision\<close> has not moved the IR revision is the same and no capability
  has disappeared. The result cache compares exactly these counters.\<close>

theorem fact_store_versions:
  assumes "fact_step\<^sup>*\<^sup>* s s'"
  shows "fs_revision s \<le> fs_revision s' \<and> fs_invalidation s \<le> fs_invalidation s' \<and>
    (fs_revision s' = fs_revision s \<longrightarrow> s' = s) \<and>
    (fs_invalidation s' = fs_invalidation s \<longrightarrow>
       fs_ir s' = fs_ir s \<and> capabilities s \<subseteq> capabilities s')"
proof -
  from assms have "store_le s s'"
    by (induction rule: rtranclp_induct) (auto intro: store_le_trans fact_step_le)
  then show ?thesis by (simp add: store_le_def)
qed

theorem fact_store_versions_witness:
  "\<exists>s s'. fact_step\<^sup>*\<^sup>* s s' \<and> fs_revision s < fs_revision s' \<and>
     fs_invalidation s' = fs_invalidation s \<and> capabilities s \<subseteq> capabilities s'"
proof -
  let ?s = "fs_new (IRRevision 0)" and ?c = "[(''types'', [])]"
  let ?t = "fst (publish_many ?s ''cpa'' ?c)"
  have st: "fact_step\<^sup>*\<^sup>* ?s ?t" using step_publish by (rule r_into_rtranclp)
  have n: "fs_revision ?s < fs_revision ?t" "fs_invalidation ?t = fs_invalidation ?s" by code_simp+
  with st fact_store_versions[OF st] show ?thesis by blast
qed

section \<open>Publication and retirement\<close>

lemma publish_fold_at:
  "distinct (map fst cs) \<Longrightarrow>
   map_of (published_at (fold (publish_one n ir producer) cs d) cap) p =
     (case map_of cs cap of
        Some facts \<Rightarrow> if p = producer
          then Some \<lparr>sn_revision = n, sn_ir = ir, sn_producer = producer, sn_facts = facts\<rparr>
          else map_of (published_at d cap) p
      | None \<Rightarrow> map_of (published_at d cap) p)"
proof (induction cs arbitrary: d)
  case (Cons c cs)
  then have "map_of cs (fst c) = None" by (simp add: map_of_eq_None_iff)
  then show ?case using Cons
    by (cases c) (auto simp: publish_one_def dict_simps split: option.splits)
qed simp

text \<open>publication is atomic and private to its producer. After \<open>publish_many\<close> the
  published facts are what \<open>query_producer\<close> answers for that producer, every answer for
  another producer or another capability is what it was, and no marker is invalidated.\<close>

theorem publish_many_correct:
  assumes "fs_built s" "distinct (map fst cs)"
  shows "query_producer (fst (publish_many s producer cs)) cap p key =
      (case map_of cs cap of
         Some facts \<Rightarrow>
           if p = producer
           then (case map_of facts key of None \<Rightarrow> fr_unknown p [MissingFact key] | Some r \<Rightarrow> r)
           else query_producer s cap p key
       | None \<Rightarrow> query_producer s cap p key) \<and>
    fs_invalidation (fst (publish_many s producer cs)) = fs_invalidation s"
  using publish_fold_at[OF assms(2), of "fs_revision s + 1" "fs_ir s" producer "fs_snapshots s" cap p]
  by (auto simp: query_producer_def publish_many_def Let_def split: option.splits)

theorem publish_many_correct_witness:
  "\<exists>s. fs_built s \<and>
     query_producer (fst (publish_many s ''cpa'' [(''types'', [])])) ''types'' ''ipa'' (PyInt 1) =
       query_producer s ''types'' ''ipa'' (PyInt 1)"
proof -
  have b: "fs_built (fs_new (IRRevision 0))" unfolding fs_built_def by blast
  have d: "distinct (map fst [(''types'', [] :: (pyval \<times> fact_result) list)])" by simp
  show ?thesis
    using publish_many_correct[OF b d, of "''cpa''" "''types''" "''ipa''" "PyInt 1"] b
    by (auto simp del: query_producer_def)
qed

lemma retain_lookup:
  assumes "fs_wf s"
  shows "map_of (published_at (fs_snapshots (retain_producers s R)) cap) p =
    (if p \<in> R then map_of (published_at (fs_snapshots s) cap) p else None)"
proof -
  have d: "distinct (map fst (fs_snapshots s))" using assms by (simp add: fs_wf_def good_snapshots_def)
  have "fs_snapshots (retain_producers s R) = retained_snapshots R (fs_snapshots s)"
    by (simp add: retain_producers_def Let_def)
  moreover have "map_of (filter (\<lambda>(p, s). p \<in> R) ps) p = (if p \<in> R then map_of ps p else None)"
    for ps :: published by (rule map_of_filter_key)
  ultimately show ?thesis
    by (cases "map_of (fs_snapshots s) cap")
       (auto simp: published_at_def retained_lookup[OF d] Let_def dest: sym split: if_splits,
        metis map_of.simps(1))
qed

lemma retain_fields [simp]: "fs_ir (retain_producers s R) = fs_ir s"
  by (simp add: retain_producers_def Let_def)

lemma bump_both_neq [simp]: "fs_invalidation t = fs_invalidation s \<Longrightarrow> bump_both t \<noteq> s"
  by (metis bump_both_simps(4) add_cancel_left_right zero_neq_one)

lemma lookup_all_producers:
  "map_of (published_at (fs_snapshots s) cap) p = Some sn \<Longrightarrow> p \<in> all_producers s"
  by (force simp: published_at_def all_producers_def dest: map_of_SomeD split: option.splits)

lemma retain_query:
  "fs_wf s \<Longrightarrow> query_producer (retain_producers s R) cap p key =
     (if p \<in> R then query_producer s cap p key else fr_unknown p [MissingProducer cap p])"
  by (auto simp: query_producer_def retain_lookup split: option.splits)

lemma retain_capability:
  assumes "fs_wf s"
  shows "has_capability (retain_producers s R) cap \<longleftrightarrow> (\<exists>p \<in> R. has_producer s cap p)"
proof -
  have "has_capability (retain_producers s R) cap \<longleftrightarrow>
      (\<exists>p sn. map_of (published_at (fs_snapshots (retain_producers s R)) cap) p = Some sn)"
    unfolding wf_capability[OF retain_wf[OF assms]]
    by (cases "published_at (fs_snapshots (retain_producers s R)) cap") auto
  also have "\<dots> \<longleftrightarrow> (\<exists>p \<in> R. \<exists>sn. map_of (published_at (fs_snapshots s) cap) p = Some sn)"
    unfolding retain_lookup[OF assms] by auto
  also have "\<dots> \<longleftrightarrow> (\<exists>p \<in> R. has_producer s cap p)"
    by (simp add: has_producer_def) (metis domD domI dom_map_of_conv_image_fst list.set_map)
  finally show ?thesis .
qed

text \<open>retirement by producer. \<open>invalidate_producers\<close> makes the answers of the named
  producers unknown and changes no answer of the others; a capability stays exactly when
  one of its producers does; and the invalidation counter moves exactly when a snapshot
  was removed.\<close>

theorem invalidate_producers_correct:
  assumes "fs_built s"
  shows "query_producer (invalidate_producers s R) cap p key =
      (if p \<in> R then fr_unknown p [MissingProducer cap p] else query_producer s cap p key) \<and>
    (has_capability (invalidate_producers s R) cap \<longleftrightarrow> (\<exists>p. p \<notin> R \<and> has_producer s cap p)) \<and>
    (fs_invalidation (invalidate_producers s R) = fs_invalidation s \<longleftrightarrow>
       invalidate_producers s R = s)"
proof -
  have wf: "fs_wf s" using assms by (rule fs_built_wf)
  have q: "query_producer (invalidate_producers s R) cap p key =
      (if p \<in> R then fr_unknown p [MissingProducer cap p] else query_producer s cap p key)"
    using retain_query[OF wf, of "{p \<in> all_producers s. p \<notin> R}" cap p key] lookup_all_producers[of s cap p]
    by (cases "map_of (published_at (fs_snapshots s) cap) p")
       (auto simp: invalidate_producers_def query_producer_def)
  have "has_producer s cap p \<Longrightarrow> p \<in> all_producers s" for p
    using lookup_all_producers[of s cap p]
    by (cases "map_of (published_at (fs_snapshots s) cap) p") (auto simp: has_producer_def map_of_eq_None_iff)
  then have c: "has_capability (invalidate_producers s R) cap \<longleftrightarrow> (\<exists>p. p \<notin> R \<and> has_producer s cap p)"
    unfolding invalidate_producers_def retain_capability[OF wf] by blast
  have "fs_invalidation (invalidate_producers s R) = fs_invalidation s \<longleftrightarrow>
       invalidate_producers s R = s"
    by (simp add: invalidate_producers_def retain_producers_def Let_def)
  with q c show ?thesis by blast
qed

theorem invalidate_producers_correct_witness:
  "\<exists>s. fs_built s \<and> query_producer (invalidate_producers s {''cpa''}) ''types'' ''cpa'' (PyInt 1) =
     fr_unknown ''cpa'' [MissingProducer ''types'' ''cpa'']"
proof -
  have b: "fs_built (fs_new (IRRevision 0))" unfolding fs_built_def by blast
  show ?thesis
    using invalidate_producers_correct[OF b, of "{''cpa''}" "''types''" "''cpa''" "PyInt 1"] b
    by (intro exI[of _ "fs_new (IRRevision 0)"]) auto
qed

end
