(* ===== verification/PassCaches.thy ===== *)
theory PassCaches
  imports FactStores
begin

text \<open>
  The program with its analysis session and the caches of pass results
  (\<^verbatim>\<open>src/pyflow/application/session.py\<close>, \<^verbatim>\<open>application/passes/cache.py\<close>,
  \<^verbatim>\<open>application/program.py\<close>, the result classes of \<^verbatim>\<open>application/passes/base.py\<close> and
  \<^verbatim>\<open>IRCatalog.commit_revision\<close>).

  An object that is only compared by identity (the program, the catalog) is a number. The
  cache keeps a dict per program in a weak dictionary, or in a plain one for objects without
  weak references; \<open>pg_storage\<close> says which of the two a program's object goes to. A lookup
  drops an entry whose token is stale, so it returns the new cache as well.
  \<open>versioned_store\<close> is the contract the scheduler relies on; both caches of the source are
  instances of it.
\<close>

section \<open>The program and its session\<close>

record analysis_options =
  ao_cpa_path_length :: int
  ao_enable_caching :: bool
  ao_dump_reports :: bool
  ao_mask_dump_errors :: bool
  ao_dump_stats :: bool

definition mk_options :: "int \<Rightarrow> bool \<Rightarrow> bool \<Rightarrow> bool \<Rightarrow> bool \<Rightarrow> analysis_options res" where
  "mk_options n c r m d =
     (if n < 0 then Inl ValueError
      else Inr \<lparr>ao_cpa_path_length = n, ao_enable_caching = c, ao_dump_reports = r,
                ao_mask_dump_errors = m, ao_dump_stats = d\<rparr>)"

definition default_options :: analysis_options where
  "default_options = \<lparr>ao_cpa_path_length = 3, ao_enable_caching = True, ao_dump_reports = False,
     ao_mask_dump_errors = False, ao_dump_stats = False\<rparr>"

record catalog =
  ct_id :: nat
  ct_revision :: ir_revision
  ct_facts :: fact_store
  ct_semantics_ready :: bool

definition commit_revision :: "catalog \<Rightarrow> string set \<Rightarrow> catalog" where
  "commit_revision self preserved =
     (let r = ir_next (ct_revision self) in
      self\<lparr>ct_revision := r, ct_facts := advance_ir_revision (ct_facts self) r preserved\<rparr>)"

definition semantics_invalidate :: "catalog \<Rightarrow> catalog" where
  "semantics_invalidate self = self\<lparr>ct_semantics_ready := False\<rparr>"

type_synonym result_token = "nat \<times> ir_revision \<times> analysis_options"

record session =
  se_options :: analysis_options
  se_entries :: "(string \<times> (result_token \<times> pyval)) list"
  se_generation :: int
  se_manager_built :: bool

definition session_new :: "analysis_options \<Rightarrow> session" where
  "session_new options =
     \<lparr>se_options = options, se_entries = [], se_generation = 0, se_manager_built = False\<rparr>"

section \<open>Analysis results\<close>

definition results_token :: "catalog \<Rightarrow> session \<Rightarrow> result_token" where
  "results_token c se = (ct_id c, ct_revision c, se_options se)"

definition results_getitem :: "catalog \<Rightarrow> session \<Rightarrow> string \<Rightarrow> pyval res" where
  "results_getitem c se key =
     (case map_of (se_entries se) key of
        None \<Rightarrow> Inl KeyError
      | Some (token, result) \<Rightarrow> if token \<noteq> results_token c se then Inl KeyError else Inr result)"

definition results_keys :: "catalog \<Rightarrow> session \<Rightarrow> string list" where
  "results_keys c se =
     map fst (filter (\<lambda>(key, version, _). version = results_token c se) (se_entries se))"

definition results_len :: "catalog \<Rightarrow> session \<Rightarrow> nat" where
  "results_len c se = length (results_keys c se)"

definition results_record :: "catalog \<Rightarrow> string \<Rightarrow> pyval \<Rightarrow> session \<Rightarrow> session" where
  "results_record c key result se =
     se\<lparr>se_entries := AList.update key (results_token c se, result) (se_entries se)\<rparr>"

definition results_invalidate :: "string list \<Rightarrow> session \<Rightarrow> session" where
  "results_invalidate keys se =
     se\<lparr>se_entries := fold AList.delete keys (se_entries se), se_generation := se_generation se + 1\<rparr>"

definition results_retain :: "catalog \<Rightarrow> string set \<Rightarrow> session \<Rightarrow> session" where
  "results_retain c keys se =
     se\<lparr>se_entries := map (\<lambda>(key, _, result). (key, results_token c se, result))
                        (filter (\<lambda>(key, _). key \<in> keys) (se_entries se)),
        se_generation := se_generation se + 1\<rparr>"

section \<open>The session\<close>

definition ANALYSIS_KEYS :: "(string \<times> string) list" where
  "ANALYSIS_KEYS =
     [(''ipa_refresh'', ''ipa''),
      (''ipa_after_simplify'', ''ipa''),
      (''cpa_path_sensitive'', ''cpa''),
      (''cpa_after_simplify'', ''cpa''),
      (''lifetime_refresh'', ''lifetime''),
      (''lifetime_after_simplify'', ''lifetime'')]"

definition analysis_key :: "string \<Rightarrow> string" where
  "analysis_key name = (case map_of ANALYSIS_KEYS name of None \<Rightarrow> name | Some k \<Rightarrow> k)"

definition configure :: "analysis_options \<Rightarrow> catalog \<times> session \<Rightarrow> catalog \<times> session" where
  "configure options cs =
     (case cs of (c, se) \<Rightarrow>
        if options = se_options se then (c, se)
        else let se' = results_retain c {} (se\<lparr>se_options := options\<rparr>)
             in (c\<lparr>ct_facts := fs_clear (ct_facts c)\<rparr>, se'\<lparr>se_manager_built := False\<rparr>))"

definition record_result :: "string \<Rightarrow> pyval \<Rightarrow> catalog \<times> session \<Rightarrow> catalog \<times> session" where
  "record_result name result cs =
     (case cs of (c, se) \<Rightarrow> (c, results_record c (analysis_key name) result se))"

text \<open>\<^verbatim>\<open>Mapping.get\<close> answers \<^verbatim>\<open>None\<close> where \<^verbatim>\<open>__getitem__\<close> raises.\<close>

definition get_result :: "string \<Rightarrow> catalog \<times> session \<Rightarrow> pyval option" where
  "get_result name cs =
     (case cs of (c, se) \<Rightarrow>
        (case results_getitem c se (analysis_key name) of Inl _ \<Rightarrow> None | Inr r \<Rightarrow> Some r))"

definition invalidate_results :: "string list \<Rightarrow> catalog \<times> session \<Rightarrow> catalog \<times> session" where
  "invalidate_results names cs =
     (case cs of (c, se) \<Rightarrow>
        let keys = map analysis_key names
        in (c\<lparr>ct_facts := invalidate_producers (ct_facts c) (set keys)\<rparr>, results_invalidate keys se))"

definition mark_changed :: "string list \<Rightarrow> catalog \<times> session \<Rightarrow> catalog \<times> session" where
  "mark_changed preserved cs =
     (case cs of (c, se) \<Rightarrow>
        let keys = analysis_key ` set preserved;
            current_keys = set (results_keys c se);
            c = c\<lparr>ct_facts := retain_producers (ct_facts c) keys\<rparr>;
            c = commit_revision c (capabilities (ct_facts c));
            c = semantics_invalidate c
        in (c, results_retain c (keys \<inter> current_keys) se))"

datatype key_support = WeakKey | PlainKey | Unhashable

text \<open>An object passed as the program: \<^verbatim>\<open>Program\<close> has both a catalog and a session, other
  objects may have only a catalog, or neither.\<close>

datatype model = NoModel | CatalogOnly catalog | WithSession catalog session

record program =
  pg_id :: nat
  pg_storage :: key_support
  pg_model :: model

definition program_new :: "nat \<Rightarrow> nat \<Rightarrow> analysis_options \<Rightarrow> program" where
  "program_new i c options =
     \<lparr>pg_id = i, pg_storage = WeakKey,
      pg_model = WithSession
        \<lparr>ct_id = c, ct_revision = IRRevision 0, ct_facts = fs_new (IRRevision 0),
         ct_semantics_ready = False\<rparr>
        (session_new options)\<rparr>"

fun pg_ir :: "program \<Rightarrow> catalog option" where
  "pg_ir p = (case pg_model p of NoModel \<Rightarrow> None | CatalogOnly c \<Rightarrow> Some c | WithSession c _ \<Rightarrow> Some c)"

fun pg_session :: "program \<Rightarrow> session option" where
  "pg_session p = (case pg_model p of WithSession _ se \<Rightarrow> Some se | _ \<Rightarrow> None)"

definition with_session ::
  "(catalog \<times> session \<Rightarrow> catalog \<times> session) \<Rightarrow> program \<Rightarrow> program" where
  "with_session f p =
     (case pg_model p of
        WithSession c se \<Rightarrow> (case f (c, se) of (c', se') \<Rightarrow> p\<lparr>pg_model := WithSession c' se'\<rparr>)
      | _ \<Rightarrow> p)"

definition pg_revision :: "program \<Rightarrow> ir_revision option" where
  "pg_revision p = map_option ct_revision (pg_ir p)"

section \<open>Pass results\<close>

text \<open>The text of an error, by the place that formats it.\<close>

datatype pass_error =
    BodyError string
  | NotAPassResult string
  | Unstable string string int

record pass_result =
  pr_success :: bool
  pr_changed :: bool
  pr_data :: pyval
  pr_error :: "pass_error option"
  pr_exception_type :: "string option"

definition pass_ok :: "bool \<Rightarrow> pyval \<Rightarrow> pass_result" where
  "pass_ok changed data =
     \<lparr>pr_success = True, pr_changed = changed, pr_data = data, pr_error = None,
      pr_exception_type = None\<rparr>"

definition from_exception :: "string \<Rightarrow> pass_error \<Rightarrow> pass_result" where
  "from_exception exc_type text =
     \<lparr>pr_success = False, pr_changed = False, pr_data = PyNone, pr_error = Some text,
      pr_exception_type = Some exc_type\<rparr>"

section \<open>The caches\<close>

type_synonym pass_token =
  "nat option \<times> ir_revision option \<times> int option \<times> analysis_options option \<times> int option"
type_synonym avail_token =
  "nat option \<times> ir_revision option \<times> analysis_options option \<times> int option \<times> int option"

definition version_token :: "program \<Rightarrow> pass_token" where
  "version_token p =
     (map_option ct_id (pg_ir p), map_option ct_revision (pg_ir p),
      map_option (fs_revision \<circ> ct_facts) (pg_ir p), map_option se_options (pg_session p),
      map_option se_generation (pg_session p))"

definition availability_token :: "program \<Rightarrow> avail_token" where
  "availability_token p =
     (case version_token p of (c, r, f, o', g) \<Rightarrow>
        (c, r, o', g, map_option (fs_invalidation \<circ> ct_facts) (pg_ir p)))"

type_synonym ('t, 'r) bucket = "(string \<times> ('t \<times> 'r)) list"

record ('t, 'r) pass_cache =
  pc_weak :: "nat \<rightharpoonup> ('t, 'r) bucket"
  pc_fallback :: "nat \<rightharpoonup> ('t, 'r) bucket"

definition cache_new :: "('t, 'r) pass_cache" where
  "cache_new = \<lparr>pc_weak = Map.empty, pc_fallback = Map.empty\<rparr>"

definition cache_bucket :: "('t, 'r) pass_cache \<Rightarrow> program \<Rightarrow> ('t, 'r) bucket option" where
  "cache_bucket cache p =
     (case pg_storage p of
        Unhashable \<Rightarrow> None
      | WeakKey \<Rightarrow> pc_weak cache (pg_id p)
      | PlainKey \<Rightarrow> pc_fallback cache (pg_id p))"

definition set_bucket ::
  "('t, 'r) pass_cache \<Rightarrow> program \<Rightarrow> ('t, 'r) bucket option \<Rightarrow> ('t, 'r) pass_cache" where
  "set_bucket cache p b =
     (case pg_storage p of
        Unhashable \<Rightarrow> cache
      | WeakKey \<Rightarrow> cache\<lparr>pc_weak := (pc_weak cache)(pg_id p := b)\<rparr>
      | PlainKey \<Rightarrow> cache\<lparr>pc_fallback := (pc_fallback cache)(pg_id p := b)\<rparr>)"

definition cache_get ::
  "(program \<Rightarrow> 't) \<Rightarrow> ('t, 'r) pass_cache \<Rightarrow> program \<Rightarrow> string \<Rightarrow> 'r option \<times> ('t, 'r) pass_cache"
where
  "cache_get tok cache p name =
     (case cache_bucket cache p of
        None \<Rightarrow> (None, cache)
      | Some bucket \<Rightarrow>
          (case map_of bucket name of
             None \<Rightarrow> (None, cache)
           | Some (token, result) \<Rightarrow>
               if token \<noteq> tok p then (None, set_bucket cache p (Some (AList.delete name bucket)))
               else (Some result, cache)))"

definition cache_put ::
  "(program \<Rightarrow> 't) \<Rightarrow> ('t, 'r) pass_cache \<Rightarrow> program \<Rightarrow> string \<Rightarrow> 'r \<Rightarrow> ('t, 'r) pass_cache" where
  "cache_put tok cache p name result =
     (let bucket = (case cache_bucket cache p of None \<Rightarrow> [] | Some b \<Rightarrow> b)
      in set_bucket cache p (Some (AList.update name (tok p, result) bucket)))"

definition cache_rebase ::
  "(program \<Rightarrow> 't) \<Rightarrow> ('t, 'r) pass_cache \<Rightarrow> program \<Rightarrow> string \<Rightarrow> 't \<Rightarrow> ('t, 'r) pass_cache" where
  "cache_rebase tok cache p name before_token =
     (case cache_bucket cache p of
        None \<Rightarrow> cache
      | Some bucket \<Rightarrow>
          (case map_of bucket name of
             None \<Rightarrow> cache
           | Some (token, result) \<Rightarrow>
               if token = before_token
               then set_bucket cache p (Some (AList.update name (tok p, result) bucket))
               else set_bucket cache p (Some (AList.delete name bucket))))"

definition cache_invalidate ::
  "('t, 'r) pass_cache \<Rightarrow> program \<Rightarrow> string option \<Rightarrow> ('t, 'r) pass_cache" where
  "cache_invalidate cache p name =
     (case cache_bucket cache p of
        None \<Rightarrow> cache
      | Some bucket \<Rightarrow>
          (case name of
             None \<Rightarrow> set_bucket cache p None
           | Some n \<Rightarrow> set_bucket cache p (Some (AList.delete n bucket))))"

text \<open>A set of names, kept as a list.\<close>

definition cache_pass_names :: "('t, 'r) pass_cache \<Rightarrow> program \<Rightarrow> string list" where
  "cache_pass_names cache p = (case cache_bucket cache p of None \<Rightarrow> [] | Some b \<Rightarrow> remdups (map fst b))"

definition cache_clear :: "('t, 'r) pass_cache \<Rightarrow> ('t, 'r) pass_cache" where
  "cache_clear cache = cache_new"

type_synonym result_cache = "(pass_token, pass_result) pass_cache"
type_synonym availability = "(avail_token, pass_result) pass_cache"

definition mark_valid :: "availability \<Rightarrow> program \<Rightarrow> string \<Rightarrow> availability" where
  "mark_valid a p name = cache_put availability_token a p name (pass_ok False PyNone)"

definition is_valid :: "availability \<Rightarrow> program \<Rightarrow> string \<Rightarrow> bool \<times> availability" where
  "is_valid a p name =
     (case cache_get availability_token a p name of (r, a') \<Rightarrow> (r \<noteq> None, a'))"

section \<open>The contract of a versioned store\<close>

definition same_object :: "program \<Rightarrow> program \<Rightarrow> bool" where
  "same_object p q \<longleftrightarrow> pg_id p = pg_id q \<and> pg_storage p = pg_storage q"

definition storable :: "program \<Rightarrow> bool" where
  "storable p \<longleftrightarrow> pg_storage p \<noteq> Unhashable"

lemma same_object_simps [simp]: "same_object p p" "same_object (with_session f p) q = same_object p q"
  "same_object q (with_session f p) = same_object q p" "storable (with_session f p) = storable p"
  by (auto simp: same_object_def storable_def with_session_def split: model.splits prod.splits)

locale versioned_store =
  fixes tok :: "program \<Rightarrow> 't"
    and entry :: "'c \<Rightarrow> program \<Rightarrow> string \<Rightarrow> ('t \<times> 'r) option"
    and get :: "'c \<Rightarrow> program \<Rightarrow> string \<Rightarrow> 'r option \<times> 'c"
    and put :: "'c \<Rightarrow> program \<Rightarrow> string \<Rightarrow> 'r \<Rightarrow> 'c"
    and rebase :: "'c \<Rightarrow> program \<Rightarrow> string \<Rightarrow> 't \<Rightarrow> 'c"
    and discard :: "'c \<Rightarrow> program \<Rightarrow> string option \<Rightarrow> 'c"
  assumes get_result: "fst (get c p n) =
      (case entry c p n of None \<Rightarrow> None | Some (t, r) \<Rightarrow> if t = tok p then Some r else None)"
    and get_entry: "entry (snd (get c p n)) q m =
      (if same_object p q \<and> m = n \<and> fst (get c p n) = None then None else entry c q m)"
    and put_entry: "entry (put c p n r) q m =
      (if same_object p q \<and> m = n \<and> storable p then Some (tok p, r) else entry c q m)"
    and rebase_entry: "entry (rebase c p n t) q m =
      (if same_object p q \<and> m = n
       then (case entry c p n of None \<Rightarrow> None | Some (t', r) \<Rightarrow> if t' = t then Some (tok p, r) else None)
       else entry c q m)"
    and discard_entry: "entry (discard c p o') q m =
      (if same_object p q \<and> (o' = None \<or> o' = Some m) then None else entry c q m)"
    and entry_same: "same_object p q \<Longrightarrow> entry c p = entry c q"
begin

definition hit :: "'c \<Rightarrow> program \<Rightarrow> string \<Rightarrow> bool" where
  "hit c p n \<longleftrightarrow> fst (get c p n) \<noteq> None"

lemma hit_iff: "hit c p n \<longleftrightarrow> (\<exists>r. entry c p n = Some (tok p, r))"
  by (auto simp: hit_def get_result split: option.splits if_splits)

lemma result_entry: "fst (get c p n) = Some r \<longleftrightarrow> entry c p n = Some (tok p, r)"
  by (auto simp: get_result split: option.splits if_splits)

lemma get_hit [simp]: "hit (snd (get c p n)) p m = hit c p m"
  by (auto simp: hit_iff get_entry result_entry hit_def[of c p n] get_result split: option.splits)

lemma put_hit: "storable p \<Longrightarrow> hit (put c p n r) p m \<longleftrightarrow> m = n \<or> hit c p m"
  by (auto simp: hit_iff put_entry)

lemma discard_hit [simp]:
  "hit (discard c p (Some n)) p m \<longleftrightarrow> m \<noteq> n \<and> hit c p m" "\<not> hit (discard c p None) p m"
  by (auto simp: hit_iff discard_entry)

lemma rebase_hit:
  assumes "same_object p q" "tok p = t"
  shows "hit (rebase c q n t) q n \<longleftrightarrow> hit c p n"
  using assms by (auto simp: hit_iff rebase_entry entry_same split: option.splits)

lemma fold_entry:
  "distinct ns \<Longrightarrow>
   entry (fold (\<lambda>n c. if keep n then rebase c p n t else discard c p (Some n)) ns c) q m =
     (if same_object p q \<and> m \<in> set ns
      then (if keep m
            then case entry c p m of None \<Rightarrow> None | Some (t', r) \<Rightarrow> if t' = t then Some (tok p, r) else None
            else None)
      else entry c q m)"
proof (induction ns arbitrary: c)
  case (Cons n ns)
  have "same_object p p" by simp
  then show ?case using Cons by (cases "keep n") (auto simp: rebase_entry discard_entry)
qed simp

lemma fold_discard_entry:
  "entry (fold (\<lambda>n c. discard c p (Some n)) ns c) q m =
     (if same_object p q \<and> m \<in> set ns then None else entry c q m)"
  by (induction ns arbitrary: c) (auto simp: discard_entry)

text \<open>A result that was stored is served only while the token is the one it was stored at.\<close>

lemma put_then_get:
  assumes "storable p" "same_object p q"
  shows "fst (get (put c p n r) q n) = (if tok q = tok p then Some r else None)"
  using assms by (auto simp: get_result put_entry)

end

section \<open>Both caches keep the contract\<close>

definition cache_entry :: "('t, 'r) pass_cache \<Rightarrow> program \<Rightarrow> string \<Rightarrow> ('t \<times> 'r) option" where
  "cache_entry c p n = (case cache_bucket c p of None \<Rightarrow> None | Some b \<Rightarrow> map_of b n)"

lemma bucket_set [simp]:
  "cache_bucket (set_bucket c p b) q = (if same_object p q \<and> storable p then b else cache_bucket c q)"
  by (auto simp: cache_bucket_def set_bucket_def same_object_def storable_def split: key_support.splits)

lemma bucket_same: "same_object p q \<Longrightarrow> cache_bucket c p = cache_bucket c q"
  by (auto simp: cache_bucket_def same_object_def split: key_support.splits)

lemma bucket_storable: "cache_bucket c p = Some b \<Longrightarrow> storable p"
  by (auto simp: cache_bucket_def storable_def split: key_support.splits)

lemma cache_versioned:
  "versioned_store tok cache_entry (cache_get tok) (cache_put tok) (cache_rebase tok) cache_invalidate"
proof
  fix c :: "('a, 'b) pass_cache" and p q n m
  show get: "fst (cache_get tok c p n) =
      (case cache_entry c p n of None \<Rightarrow> None | Some (t, r) \<Rightarrow> if t = tok p then Some r else None)" for n
    by (auto simp: cache_get_def cache_entry_def split: option.splits)
  show "cache_entry (snd (cache_get tok c p n)) q m =
      (if same_object p q \<and> m = n \<and> fst (cache_get tok c p n) = None then None else cache_entry c q m)"
    using bucket_same[of p q c] bucket_storable[of c p]
    by (auto simp: cache_get_def cache_entry_def dict_simps split: option.splits)
  show "cache_entry (cache_put tok c p n r) q m =
      (if same_object p q \<and> m = n \<and> storable p then Some (tok p, r) else cache_entry c q m)" for r
    using bucket_same[of p q c]
    by (auto simp: cache_put_def cache_entry_def dict_simps Let_def split: option.splits)
  show "cache_entry (cache_rebase tok c p n t) q m =
      (if same_object p q \<and> m = n
       then (case cache_entry c p n of None \<Rightarrow> None | Some (t', r) \<Rightarrow> if t' = t then Some (tok p, r) else None)
       else cache_entry c q m)" for t
    using bucket_same[of p q c] bucket_storable[of c p]
    by (auto simp: cache_rebase_def cache_entry_def dict_simps split: option.splits)
  show "cache_entry (cache_invalidate c p o') q m =
      (if same_object p q \<and> (o' = None \<or> o' = Some m) then None else cache_entry c q m)" for o'
    using bucket_same[of p q c] bucket_storable[of c p]
    by (auto simp: cache_invalidate_def cache_entry_def dict_simps split: option.splits)
  show "same_object p q \<Longrightarrow> cache_entry c p = cache_entry c q"
    using bucket_same[of p q c] by (auto simp: cache_entry_def)
qed

interpretation results: versioned_store version_token
    "cache_entry :: result_cache \<Rightarrow> program \<Rightarrow> string \<Rightarrow> (pass_token \<times> pass_result) option"
    "cache_get version_token" "cache_put version_token" "cache_rebase version_token" cache_invalidate
  by (rule cache_versioned)

interpretation avail: versioned_store availability_token
    "cache_entry :: availability \<Rightarrow> program \<Rightarrow> string \<Rightarrow> (avail_token \<times> pass_result) option"
    "cache_get availability_token" "cache_put availability_token" "cache_rebase availability_token"
    cache_invalidate
  by (rule cache_versioned)

lemma is_valid_hit [simp]: "fst (is_valid a p n) \<longleftrightarrow> avail.hit a p n"
  by (simp add: is_valid_def avail.hit_def split: prod.splits)

lemma is_valid_cache [simp]: "avail.hit (snd (is_valid a p n)) p m \<longleftrightarrow> avail.hit a p m"
  using avail.get_hit[of a p n m] by (cases "cache_get availability_token a p n") (simp add: is_valid_def)

text \<open>the result cache never serves a result for a changed program. What \<open>put\<close> stored at
  one version of a program is served at another version of it exactly when the two have the
  same token (catalog, IR revision, fact revision, options, result generation); and a rebase
  moves exactly the results stored at the old token to the new version.\<close>

theorem pass_cache_versions:
  fixes c :: result_cache
  assumes "storable p" "same_object p q"
  shows "fst (cache_get version_token (cache_put version_token c p n r) q n) =
      (if version_token q = version_token p then Some r else None) \<and>
    fst (cache_get version_token (cache_rebase version_token c q n (version_token p)) q n) =
      fst (cache_get version_token c p n) \<and>
    fst (cache_get version_token (cache_invalidate c p None) q n) = None"
proof -
  have "fst (cache_get version_token (cache_rebase version_token c q n (version_token p)) q n) =
      fst (cache_get version_token c p n)"
    using results.entry_same[OF assms(2), of c]
    by (auto simp: results.get_result results.rebase_entry split: option.splits)
  moreover have "fst (cache_get version_token (cache_invalidate c p None) q n) = None"
    using assms(2) by (simp add: results.get_result results.discard_entry)
  ultimately show ?thesis using results.put_then_get[OF assms] by blast
qed

theorem pass_cache_versions_witness:
  "\<exists>p q. storable p \<and> same_object p q \<and> version_token q \<noteq> version_token p \<and>
     fst (cache_get version_token (cache_put version_token cache_new p ''cpa'' (pass_ok False PyNone)) q ''cpa'') = None"
proof -
  let ?p = "program_new 0 0 default_options" and ?q = "with_session (mark_changed []) (program_new 0 0 default_options)"
  have s: "storable ?p" "same_object ?p ?q" by (simp_all add: storable_def program_new_def)
  have t: "version_token ?q \<noteq> version_token ?p" by code_simp
  from pass_cache_versions[OF s, of cache_new "''cpa''" "pass_ok False PyNone"] s t show ?thesis
    by (intro exI[of _ ?p] exI[of _ ?q]) simp
qed

section \<open>What the session's operations do\<close>

definition session_wf :: "catalog \<times> session \<Rightarrow> bool" where
  "session_wf cs \<longleftrightarrow> fs_wf (ct_facts (fst cs)) \<and> fs_ir (ct_facts (fst cs)) = ct_revision (fst cs) \<and>
     distinct (map fst (se_entries (snd cs)))"

lemma commit_simps [simp]:
  "ct_revision (commit_revision c P) = ir_next (ct_revision c)" "ct_id (commit_revision c P) = ct_id c"
  "ct_facts (commit_revision c P) = advance_ir_revision (ct_facts c) (ir_next (ct_revision c)) P"
  by (simp_all add: commit_revision_def Let_def)

lemma semantics_simps [simp]:
  "ct_revision (semantics_invalidate c) = ct_revision c" "ct_id (semantics_invalidate c) = ct_id c"
  "ct_facts (semantics_invalidate c) = ct_facts c" "ct_semantics_ready (semantics_invalidate c) = False"
  by (simp_all add: semantics_invalidate_def)

lemma map_of_retain_entries:
  "map_of (map (\<lambda>(key, _, result). (key, t, result)) (filter (\<lambda>(key, _). key \<in> K) d)) key =
     (if key \<in> K then map_option (\<lambda>(_, r). (t, r)) (map_of d key) else None)"
  by (induction d) auto

lemma results_keys_iff:
  "distinct (map fst (se_entries se)) \<Longrightarrow>
     key \<in> set (results_keys c se) \<longleftrightarrow> is_ok (results_getitem c se key)"
proof -
  assume d: "distinct (map fst (se_entries se))"
  have "key \<in> set (results_keys c se) \<longleftrightarrow> (\<exists>r. (key, results_token c se, r) \<in> set (se_entries se))"
    by (force simp: results_keys_def)
  also have "\<dots> \<longleftrightarrow> (\<exists>r. map_of (se_entries se) key = Some (results_token c se, r))"
    using d by simp
  finally show ?thesis
    by (cases "map_of (se_entries se) key") (auto simp: results_getitem_def)
qed

lemma retain_getitem:
  "results_getitem c (results_retain c K se) key =
     (case map_of (se_entries se) key of
        Some (_, r) \<Rightarrow> if key \<in> K then Inr r else Inl KeyError | None \<Rightarrow> Inl KeyError)"
proof -
  have "results_token c (results_retain c K se) = results_token c se"
    by (simp add: results_token_def results_retain_def)
  then show ?thesis
    by (cases "map_of (se_entries se) key")
       (auto simp: results_getitem_def results_retain_def map_of_retain_entries)
qed

lemma ir_next_neq [simp]: "ir_next r \<noteq> r"
  by (cases r) simp

lemma advance_query:
  assumes "fs_wf s"
  shows "query_producer (advance_ir_revision s r (capabilities s)) cap p key = query_producer s cap p key"
proof -
  have "map_of (published_at (fs_snapshots (advance_ir_revision s r (capabilities s))) cap) p =
        map_option (\<lambda>sn. sn\<lparr>sn_ir := r\<rparr>) (map_of (published_at (fs_snapshots s) cap) p)"
  proof (cases "map_of (fs_snapshots s) cap")
    case (Some ps)
    then have "cap \<in> capabilities s" by (force simp: capabilities_def dest: map_of_SomeD)
    then show ?thesis using Some
      by (simp add: published_at_def advance_ir_revision_def map_of_retag map_of_filter_key)
  qed (simp add: published_at_def advance_ir_revision_def map_of_retag map_of_filter_key)
  moreover have "fs_ir (advance_ir_revision s r (capabilities s)) = r"
    by (simp add: advance_ir_revision_def)
  ultimately have "query_producer (advance_ir_revision s r (capabilities s)) cap p key =
     (case map_of (published_at (fs_snapshots s) cap) p of
        None \<Rightarrow> fr_unknown p [MissingProducer cap p]
      | Some sn \<Rightarrow> (case map_of (sn_facts sn) key of
                     None \<Rightarrow> fr_unknown p [MissingFact key] | Some r \<Rightarrow> r))"
    by (auto simp: query_producer_def split: option.splits)
  then show ?thesis by (simp add: wf_query_producer[OF assms])
qed

lemma advance_ir [simp]: "fs_ir (advance_ir_revision s r P) = r"
  by (simp add: advance_ir_revision_def)

lemma fst_retoken [simp]: "fst \<circ> (\<lambda>(key, _, result). (key, t, result)) = fst"
  by auto

lemma distinct_retain:
  "distinct (map fst d) \<Longrightarrow>
     distinct (map fst (map (\<lambda>(key, _, result). (key, t, result)) (filter (\<lambda>(key, _). key \<in> K) d)))"
  by (simp add: distinct_fst_filter)

lemma retain_wf_session:
  "distinct (map fst (se_entries se)) \<Longrightarrow> distinct (map fst (se_entries (results_retain c K se)))"
  using distinct_retain[of "se_entries se" "results_token c se" K] by (simp add: results_retain_def)

lemma mark_changed_eq:
  "mark_changed P (c, se) =
     (let K = analysis_key ` set P; F = retain_producers (ct_facts c) K;
          c' = semantics_invalidate (commit_revision (c\<lparr>ct_facts := F\<rparr>) (capabilities F))
      in (c', results_retain c' (K \<inter> set (results_keys c se)) se))"
  by (simp add: mark_changed_def Let_def)

lemma mark_changed_wf:
  assumes "session_wf (c, se)" shows "session_wf (mark_changed P (c, se))"
  using assms by (simp add: session_wf_def mark_changed_eq Let_def retain_wf advance_wf retain_wf_session)

text \<open>C24: a change of the program keeps exactly what the changing pass promises to preserve.
  After \<open>mark_changed\<close> the IR is one revision further and its semantics stale; a solver
  result is available exactly when its key is preserved and it was current before (a stale
  one is never revived); and a fact producer answers as before exactly when it is preserved.\<close>

theorem mark_changed_correct:
  assumes "session_wf (c, se)" "mark_changed P (c, se) = (c', se')"
  shows "ct_revision c' = ir_next (ct_revision c) \<and> \<not> ct_semantics_ready c' \<and>
    results_getitem c' se' key =
      (if key \<in> analysis_key ` set P then results_getitem c se key else Inl KeyError) \<and>
    query_producer (ct_facts c') cap p k =
      (if p \<in> analysis_key ` set P then query_producer (ct_facts c) cap p k
       else fr_unknown p [MissingProducer cap p]) \<and>
    session_wf (c', se')"
proof -
  let ?K = "analysis_key ` set P" and ?F = "retain_producers (ct_facts c) (analysis_key ` set P)"
  have d: "distinct (map fst (se_entries se))" and wf: "fs_wf (ct_facts c)"
    using assms(1) by (simp_all add: session_wf_def)
  have c': "ct_facts c' = advance_ir_revision ?F (ir_next (ct_revision c)) (capabilities ?F)"
      "ct_revision c' = ir_next (ct_revision c)" "\<not> ct_semantics_ready c'"
    and se': "se' = results_retain c' (?K \<inter> set (results_keys c se)) se"
    using assms(2) by (auto simp: mark_changed_eq Let_def)
  have "results_getitem c' se' key = (if key \<in> ?K then results_getitem c se key else Inl KeyError)"
  proof (cases "key \<in> set (results_keys c se)")
    case True
    then obtain r where "results_getitem c se key = Inr r"
      by (auto simp: results_keys_iff[OF d] is_ok_iff)
    moreover from this obtain t where "map_of (se_entries se) key = Some (t, r)"
      by (auto simp: results_getitem_def split: option.splits prod.splits if_splits)
    ultimately show ?thesis using True by (auto simp: se' retain_getitem)
  next
    case False
    then have "results_getitem c se key = Inl KeyError"
      by (auto simp: results_keys_iff[OF d] results_getitem_def split: option.splits if_splits)
    then show ?thesis using False by (auto simp: se' retain_getitem split: option.splits)
  qed
  moreover have "query_producer (ct_facts c') cap p k =
      (if p \<in> ?K then query_producer (ct_facts c) cap p k else fr_unknown p [MissingProducer cap p])"
    unfolding c'(1) by (simp add: advance_query retain_wf wf retain_query)
  ultimately show ?thesis using c'(2,3) mark_changed_wf[OF assms(1), of P] assms(2) by simp
qed

theorem mark_changed_correct_witness:
  "\<exists>c se c' se'. session_wf (c, se) \<and> results_getitem c se ''cpa'' = Inr (PyInt 7) \<and>
     mark_changed [''cpa_after_simplify''] (c, se) = (c', se') \<and>
     results_getitem c' se' ''cpa'' = Inr (PyInt 7) \<and> results_getitem c' se' ''ipa'' = Inl KeyError"
proof -
  let ?c = "\<lparr>ct_id = 0, ct_revision = IRRevision 0, ct_facts = fs_new (IRRevision 0),
              ct_semantics_ready = True\<rparr>"
  let ?se = "results_record ?c ''ipa'' (PyInt 8)
               (results_record ?c ''cpa'' (PyInt 7) (session_new default_options))"
  obtain c' se' where m: "mark_changed [''cpa_after_simplify''] (?c, ?se) = (c', se')" by fastforce
  have w: "session_wf (?c, ?se)" "results_getitem ?c ?se ''cpa'' = Inr (PyInt 7)"
    by (simp_all add: session_wf_def fs_new_def fs_wf_def good_snapshots_def results_record_def
        session_new_def results_getitem_def results_token_def)
  have k: "''cpa'' \<in> analysis_key ` set [''cpa_after_simplify'']"
      "''ipa'' \<notin> analysis_key ` set [''cpa_after_simplify'']" by code_simp+
  have "results_getitem c' se' ''cpa'' = Inr (PyInt 7)"
    using mark_changed_correct[OF w(1) m, of "''cpa''"] w(2) k(1) by presburger
  moreover have "results_getitem c' se' ''ipa'' = Inl KeyError"
    using mark_changed_correct[OF w(1) m, of "''ipa''"] k(2) by presburger
  ultimately show ?thesis using w m by blast
qed

section \<open>The tokens identify what an analysis may read\<close>

inductive session_step :: "catalog \<times> session \<Rightarrow> catalog \<times> session \<Rightarrow> bool" where
  session_facts: "fact_step (ct_facts c) f \<Longrightarrow> fs_ir f = fs_ir (ct_facts c) \<Longrightarrow>
     session_step (c, se) (c\<lparr>ct_facts := f\<rparr>, se)"
| session_semantics: "session_step (c, se) (c\<lparr>ct_semantics_ready := True\<rparr>, se)"
| session_commit: "session_step (c, se) (commit_revision c P, se)"
| session_configure: "session_step (c, se) (configure options (c, se))"
| session_record: "session_step (c, se) (record_result name r (c, se))"
| session_invalidate: "session_step (c, se) (invalidate_results names (c, se))"
| session_changed: "session_step (c, se) (mark_changed P (c, se))"

definition session_le :: "catalog \<times> session \<Rightarrow> catalog \<times> session \<Rightarrow> bool" where
  "session_le x y \<longleftrightarrow>
     ct_id (fst y) = ct_id (fst x) \<and>
     ir_value (ct_revision (fst x)) \<le> ir_value (ct_revision (fst y)) \<and>
     store_le (ct_facts (fst x)) (ct_facts (fst y)) \<and>
     se_generation (snd x) \<le> se_generation (snd y) \<and>
     (se_generation (snd y) = se_generation (snd x) \<longrightarrow>
        se_options (snd y) = se_options (snd x) \<and>
        (ct_revision (fst y) = ct_revision (fst x) \<longrightarrow>
           (\<forall>key. is_ok (results_getitem (fst x) (snd x) key) \<longrightarrow>
                  is_ok (results_getitem (fst y) (snd y) key))))"

lemma ir_value_inj: "ir_value r = ir_value r' \<Longrightarrow> r = r'"
  by (cases r; cases r') simp

lemma ir_value_next [simp]: "ir_value (ir_next r) = ir_value r + 1"
  by (cases r) simp

lemma session_le_trans: "session_le x y \<Longrightarrow> session_le y z \<Longrightarrow> session_le x z"
  unfolding session_le_def
  by (smt (verit) ir_value_inj order_trans order_antisym store_le_trans)

lemma fact_steps_le: "fact_step\<^sup>*\<^sup>* s s' \<Longrightarrow> store_le s s'"
  by (induction rule: rtranclp_induct) (auto intro: store_le_trans fact_step_le)

lemma is_ok_getitem: "is_ok (results_getitem c se key) \<longleftrightarrow>
    (\<exists>r. map_of (se_entries se) key = Some (results_token c se, r))"
proof (cases "map_of (se_entries se) key")
  case (Some x)
  then show ?thesis
    by (cases x; cases "fst x = results_token c se") (auto simp: results_getitem_def)
qed (simp add: results_getitem_def)

lemma session_step_le: "session_step x y \<Longrightarrow> session_le x y"
proof (induction rule: session_step.induct)
  case (session_facts c f se)
  then show ?case
    by (simp add: session_le_def fact_step_le is_ok_getitem results_token_def)
next
  case (session_commit c se P)
  then show ?case by (simp add: session_le_def fact_step_le step_advance)
next
  case (session_configure c se options)
  then show ?case
    by (simp add: session_le_def configure_def results_retain_def Let_def fact_step_le step_clear)
next
  case (session_record c se name r)
  then show ?case
    by (simp add: session_le_def record_result_def results_record_def is_ok_getitem
        results_token_def update_conv')
next
  case (session_invalidate c se names)
  then show ?case
    by (simp add: session_le_def invalidate_results_def results_invalidate_def Let_def fact_step_le
        step_invalidate_producers)
next
  case (session_changed c se P)
  let ?F = "retain_producers (ct_facts c) (analysis_key ` set P)"
  have "store_le (ct_facts c) ?F" by (rule fact_step_le[OF step_retain])
  moreover have "store_le ?F (advance_ir_revision ?F (ir_next (ct_revision c)) (capabilities ?F))"
    by (rule fact_step_le[OF step_advance])
  ultimately have "store_le (ct_facts c) (advance_ir_revision ?F (ir_next (ct_revision c)) (capabilities ?F))"
    by (rule store_le_trans)
  then show ?case
    by (simp add: session_le_def mark_changed_eq Let_def results_retain_def commit_revision_def
        semantics_invalidate_def)
qed (simp add: session_le_def is_ok_getitem results_token_def)

lemma session_steps_le: "session_step\<^sup>*\<^sup>* x y \<Longrightarrow> session_le x y"
  by (induction rule: rtranclp_induct)
     (auto simp: session_le_def[of x x] intro: session_le_trans session_step_le)

definition host :: "program \<Rightarrow> catalog \<times> session \<Rightarrow> program" where
  "host p cs = p\<lparr>pg_model := WithSession (fst cs) (snd cs)\<rparr>"

text \<open>C27: the two version tokens are sound. Along any sequence of publications, program
  changes, configurations and recorded or invalidated results, equal result tokens mean the
  same facts, IR revision and options, with every solver result that was available still
  available; equal availability tokens mean the same without the facts, of which no
  capability has disappeared.\<close>

theorem version_tokens_sound:
  assumes "session_step\<^sup>*\<^sup>* x y"
  shows "(version_token (host p y) = version_token (host p x) \<longrightarrow>
            ct_facts (fst y) = ct_facts (fst x) \<and> availability_token (host p y) = availability_token (host p x)) \<and>
    (availability_token (host p y) = availability_token (host p x) \<longrightarrow>
       ct_revision (fst y) = ct_revision (fst x) \<and> se_options (snd y) = se_options (snd x) \<and>
       capabilities (ct_facts (fst x)) \<subseteq> capabilities (ct_facts (fst y)) \<and>
       (\<forall>key. is_ok (results_getitem (fst x) (snd x) key) \<longrightarrow>
              is_ok (results_getitem (fst y) (snd y) key)))"
  using session_steps_le[OF assms]
  by (auto simp: session_le_def store_le_def version_token_def availability_token_def host_def)

theorem version_tokens_sound_witness:
  "\<exists>x y p. session_step\<^sup>*\<^sup>* x y \<and> availability_token (host p y) = availability_token (host p x) \<and>
     version_token (host p y) \<noteq> version_token (host p x) \<and>
     capabilities (ct_facts (fst x)) \<subseteq> capabilities (ct_facts (fst y))"
proof -
  let ?c = "\<lparr>ct_id = 0, ct_revision = IRRevision 0, ct_facts = fs_new (IRRevision 0),
              ct_semantics_ready = True\<rparr>" and ?se = "session_new default_options"
  let ?p = "program_new 0 0 default_options"
  let ?f = "fst (publish_many (ct_facts ?c) ''cpa'' [(''types'', [])])"
  have st: "session_step\<^sup>*\<^sup>* (?c, ?se) (?c\<lparr>ct_facts := ?f\<rparr>, ?se)"
    by (intro r_into_rtranclp session_facts step_publish) (simp add: publish_many_def Let_def)
  have t: "availability_token (host ?p (?c\<lparr>ct_facts := ?f\<rparr>, ?se)) = availability_token (host ?p (?c, ?se))"
    "version_token (host ?p (?c\<lparr>ct_facts := ?f\<rparr>, ?se)) \<noteq> version_token (host ?p (?c, ?se))"
    by code_simp+
  from version_tokens_sound[OF st, of ?p] st t show ?thesis by blast
qed

end
