(* ===== verification/PassManagers.thy ===== *)
theory PassManagers
  imports PassCaches "HOL-Library.Sublist"
begin

text \<open>
  Registration, dependency resolution and pipeline construction of the pass manager
  (\<^verbatim>\<open>src/pyflow/application/passes/manager.py\<close>; \<^verbatim>\<open>PassInfo\<close> and \<^verbatim>\<open>PassKind\<close> of
  \<^verbatim>\<open>passes/base.py\<close>). The scheduler itself is in \<open>PassScheduling\<close>.

  The dicts of the manager are association lists in insertion order and the sets of a
  \<^verbatim>\<open>PassInfo\<close> are lists. An operation that mutates the manager before it raises returns the
  mutated manager with the error.
\<close>

section \<open>The manager\<close>

datatype pass_kind = ANALYSIS | OPTIMIZATION | TRANSFORMATION | UTILITY

record pass_info =
  pi_name :: string
  pi_kind :: pass_kind
  pi_dependencies :: "string list"
  pi_requirements :: "string list"
  pi_invalidates :: "string list"
  pi_preserves :: "string list"

definition mk_pass :: "string \<Rightarrow> pass_kind \<Rightarrow> pass_info" where
  "mk_pass name kind =
     \<lparr>pi_name = name, pi_kind = kind, pi_dependencies = [], pi_requirements = [],
      pi_invalidates = [], pi_preserves = []\<rparr>"

record pass_manager =
  pm_max_refreshes :: int
  pm_passes :: "(string \<times> pass_info) list"
  pm_aliases :: "(string \<times> string) list"
  pm_order :: "string list"

definition registered :: "pass_manager \<Rightarrow> string set" where
  "registered self = set (map fst (pm_passes self))"

definition pm_new :: "int \<Rightarrow> pass_manager res" where
  "pm_new max_refreshes =
     (if max_refreshes < 1 then Inl ValueError
      else Inr \<lparr>pm_max_refreshes = max_refreshes, pm_passes = [], pm_aliases = [], pm_order = []\<rparr>)"

definition resolve_pass_name :: "pass_manager \<Rightarrow> string \<Rightarrow> string res" where
  "resolve_pass_name self name =
     (if map_of (pm_passes self) name \<noteq> None then Inr name
      else case map_of (pm_aliases self) name of Some target \<Rightarrow> Inr target | None \<Rightarrow> Inl ValueError)"

definition register_alias :: "pass_manager \<Rightarrow> string \<Rightarrow> string \<Rightarrow> pass_manager res" where
  "register_alias self alias target =
     (if map_of (pm_passes self) alias \<noteq> None \<or> map_of (pm_aliases self) alias \<noteq> None then Inl ValueError
      else if map_of (pm_passes self) target = None then Inl ValueError
      else Inr (self\<lparr>pm_aliases := AList.update alias target (pm_aliases self)\<rparr>))"

section \<open>Prerequisites\<close>

text \<open>\<^verbatim>\<open>sorted(prerequisites, key=prereq_sort_key)\<close>: by name, the anchors first when the pass
  is itself an anchor or the path-sensitive CPA.\<close>

definition anchor_first :: "string \<Rightarrow> bool" where
  "anchor_first pass_name \<longleftrightarrow>
     startswith pass_name ''first_pass_'' \<or> pass_name = ''cpa_path_sensitive''"

definition sort_prerequisites :: "string \<Rightarrow> string list \<Rightarrow> string list" where
  "sort_prerequisites pass_name prerequisites =
     (let xs = sort (remdups prerequisites) in
      if anchor_first pass_name
      then filter (\<lambda>p. startswith p ''first_pass_'') xs @ filter (\<lambda>p. \<not> startswith p ''first_pass_'') xs
      else xs)"

fun iter_loop :: "pass_manager \<Rightarrow> string list \<Rightarrow> bool \<Rightarrow> string list \<Rightarrow> string list res" where
  "iter_loop self requirements validate [] = Inr []"
| "iter_loop self requirements validate (prereq # ps) =
     (case resolve_pass_name self prereq of
        Inl _ \<Rightarrow> if validate then Inl ValueError else iter_loop self requirements validate ps
      | Inr canonical \<Rightarrow>
          bind_res
            (if prereq \<in> set requirements
             then (case map_of (pm_passes self) canonical of
                     None \<Rightarrow> Inl KeyError
                   | Some info \<Rightarrow> if pi_kind info \<noteq> ANALYSIS then Inl ValueError else Inr ())
             else Inr ())
            (\<lambda>_. bind_res (iter_loop self requirements validate ps) (\<lambda>rest. Inr (canonical # rest))))"

definition iter_prerequisites :: "pass_manager \<Rightarrow> string \<Rightarrow> bool \<Rightarrow> string list res" where
  "iter_prerequisites self pass_name validate =
     (case map_of (pm_passes self) pass_name of
        None \<Rightarrow> Inl KeyError
      | Some info \<Rightarrow>
          iter_loop self (pi_requirements info) validate
            (sort_prerequisites pass_name (pi_dependencies info @ pi_requirements info)))"

lemma iter_prerequisites_registered:
  "iter_prerequisites self n v = Inr ps \<Longrightarrow> n \<in> registered self"
  by (force simp: iter_prerequisites_def registered_def dest: map_of_SomeD split: option.splits)

section \<open>Topological order\<close>

text \<open>\<^verbatim>\<open>visit\<close> over a list of names. \<open>temp\<close> are the passes being visited; the accumulator
  holds the passes already visited and the order built so far.\<close>

function visit ::
  "pass_manager \<Rightarrow> string list \<Rightarrow> string list \<Rightarrow> string list \<times> string list \<Rightarrow>
   (string list \<times> string list) res" where
  "visit self temp [] acc = Inr acc"
| "visit self temp (n # ns) acc =
     bind_res
       (if n \<in> set temp then Inl ValueError
        else if n \<notin> set (fst acc) \<and> n \<in> registered self then
          bind_res (iter_prerequisites self n False) (\<lambda>ps.
          bind_res (visit self (n # temp) (filter (\<lambda>d. d \<in> registered self) ps) acc) (\<lambda>acc'.
            Inr (n # fst acc', snd acc' @ [n])))
        else Inr acc)
       (visit self temp ns)"
  by pat_completeness auto
termination
proof (relation "inv_image (less_than <*lex*> less_than)
    (\<lambda>(self, temp, ns, acc). (card (registered self - set temp), length ns))", goal_cases)
  case (2 self temp n ns acc x)
  have "card (registered self - set (n # temp)) < card (registered self - set temp)"
    using 2 by (intro psubset_card_mono) (auto simp: registered_def)
  then show ?case by simp
qed auto

definition resolve_dependencies :: "pass_manager \<Rightarrow> unit res \<times> pass_manager" where
  "resolve_dependencies self =
     (case visit self [] (pm_order self) ([], []) of
        Inl e \<Rightarrow> (Inl e, self)
      | Inr (_, order) \<Rightarrow> (Inr (), self\<lparr>pm_order := order\<rparr>))"

definition register_pass :: "pass_manager \<Rightarrow> pass_info \<Rightarrow> unit res \<times> pass_manager" where
  "register_pass self p =
     (if map_of (pm_passes self) (pi_name p) \<noteq> None \<or> map_of (pm_aliases self) (pi_name p) \<noteq> None
      then (Inl ValueError, self)
      else resolve_dependencies
             (self\<lparr>pm_passes := AList.update (pi_name p) p (pm_passes self),
                   pm_order := pm_order self @ [pi_name p]\<rparr>))"

definition unregister_pass :: "pass_manager \<Rightarrow> string \<Rightarrow> unit res \<times> pass_manager" where
  "unregister_pass self pass_name =
     (case resolve_pass_name self pass_name of
        Inl e \<Rightarrow> (Inl e, self)
      | Inr canonical \<Rightarrow>
          if map_of (pm_passes self) canonical = None then (Inl KeyError, self)
          else resolve_dependencies
                 (self\<lparr>pm_passes := AList.delete canonical (pm_passes self),
                       pm_order := filter (\<lambda>p. p \<noteq> canonical) (pm_order self),
                       pm_aliases := filter (\<lambda>(_, target). target \<noteq> canonical) (pm_aliases self)\<rparr>))"

definition validate_optimization_metadata :: "pass_manager \<Rightarrow> unit res" where
  "validate_optimization_metadata self =
     (if list_all (\<lambda>(_, p). pi_kind p = OPTIMIZATION \<longrightarrow> pi_invalidates p \<noteq> [] \<or> pi_preserves p \<noteq> [])
           (pm_passes self)
      then Inr () else Inl ValueError)"

section \<open>Pipelines\<close>

text \<open>\<^verbatim>\<open>emit\<close> over a list of names; the accumulator holds \<^verbatim>\<open>ordered\<close>, whose elements are
  exactly the set \<^verbatim>\<open>available\<close>.\<close>

function emit ::
  "pass_manager \<Rightarrow> bool \<Rightarrow> string list \<Rightarrow> string list \<Rightarrow> string list \<Rightarrow> string list res" where
  "emit self explicit resolving [] ordered = Inr ordered"
| "emit self explicit resolving (name # names) ordered =
     bind_res
       (bind_res (resolve_pass_name self name) (\<lambda>canonical.
          if canonical \<in> set resolving then Inl ValueError
          else if canonical \<in> set ordered \<and> \<not> explicit then Inr ordered
          else bind_res (iter_prerequisites self canonical True) (\<lambda>ps.
               bind_res (emit self False (canonical # resolving) ps ordered) (\<lambda>ordered.
                 Inr (ordered @ [canonical])))))
       (emit self explicit resolving names)"
  by pat_completeness auto
termination
proof (relation "inv_image (less_than <*lex*> less_than)
    (\<lambda>(self, e, resolving, ns, acc). (card (registered self - set resolving), length ns))", goal_cases)
  case (2 self explicit resolving name names ordered c ps)
  have "card (registered self - set (c # resolving)) < card (registered self - set resolving)"
    using 2 iter_prerequisites_registered by (intro psubset_card_mono) (auto simp: registered_def)
  then show ?case by simp
qed auto

definition build_pipeline :: "pass_manager \<Rightarrow> string list \<Rightarrow> string list res" where
  "build_pipeline self pass_names = emit self True [] pass_names []"

definition pipeline_add :: "pass_manager \<Rightarrow> string list \<Rightarrow> string \<Rightarrow> string list res" where
  "pipeline_add self passes pass_name =
     (if map_of (pm_passes self) pass_name = None then Inl ValueError else Inr (passes @ [pass_name]))"

definition pipeline_remove :: "string list \<Rightarrow> string \<Rightarrow> string list" where
  "pipeline_remove passes pass_name = remove1 pass_name passes"

definition get_pass_info :: "pass_manager \<Rightarrow> string \<Rightarrow> pass_info option res" where
  "get_pass_info self pass_name =
     (case resolve_pass_name self pass_name of
        Inl _ \<Rightarrow> Inr None
      | Inr canonical \<Rightarrow>
          (case map_of (pm_passes self) canonical of None \<Rightarrow> Inl KeyError | Some i \<Rightarrow> Inr (Some i)))"

section \<open>Names and prerequisites\<close>

definition pm_wf :: "pass_manager \<Rightarrow> bool" where
  "pm_wf self \<longleftrightarrow>
     distinct (map fst (pm_passes self)) \<and> snd ` set (pm_aliases self) \<subseteq> registered self \<and>
     distinct (pm_order self) \<and> set (pm_order self) = registered self"

definition aliases_ok :: "pass_manager \<Rightarrow> bool" where
  "aliases_ok self \<longleftrightarrow> snd ` set (pm_aliases self) \<subseteq> registered self"

lemma wf_aliases: "pm_wf self \<Longrightarrow> aliases_ok self"
  by (simp add: pm_wf_def aliases_ok_def)

definition prereq_rel :: "pass_manager \<Rightarrow> bool \<Rightarrow> (string \<times> string) set" where
  "prereq_rel self v =
     {(c, p). \<exists>ps. iter_prerequisites self c v = Inr ps \<and> p \<in> set ps \<and> p \<in> registered self}"

lemma registered_iff: "n \<in> registered self \<longleftrightarrow> map_of (pm_passes self) n \<noteq> None"
  by (simp add: registered_def map_of_eq_None_iff)

lemma resolve_id [simp]: "n \<in> registered self \<Longrightarrow> resolve_pass_name self n = Inr n"
  by (simp add: resolve_pass_name_def registered_iff)

lemma resolve_registered: "aliases_ok self \<Longrightarrow> resolve_pass_name self n = Inr c \<Longrightarrow> c \<in> registered self"
  by (force simp: resolve_pass_name_def registered_iff aliases_ok_def split: if_splits option.splits
      dest: map_of_SomeD)

lemma resolve_error: "resolve_pass_name self n = Inl e \<Longrightarrow> e = ValueError"
  by (auto simp: resolve_pass_name_def split: if_splits option.splits)

lemma iter_loop_registered:
  "aliases_ok self \<Longrightarrow> iter_loop self rs v xs = Inr ps \<Longrightarrow> set ps \<subseteq> registered self"
  by (induction xs arbitrary: ps)
     (auto simp: bind_res_eq_Inr resolve_registered split: sum.splits if_splits option.splits)

lemma iter_set_registered:
  "aliases_ok self \<Longrightarrow> iter_prerequisites self n v = Inr ps \<Longrightarrow> set ps \<subseteq> registered self"
  by (auto simp: iter_prerequisites_def dest: iter_loop_registered split: option.splits)

lemma iter_loop_error:
  "aliases_ok self \<Longrightarrow> iter_loop self rs v xs = Inl e \<Longrightarrow> e = ValueError"
proof (induction xs)
  case (Cons x xs)
  have "resolve_pass_name self x = Inr c \<Longrightarrow> map_of (pm_passes self) c \<noteq> None" for c
    using Cons.prems(1) resolve_registered registered_iff by blast
  then show ?case using Cons
    by (auto simp: bind_res_eq_Inl split: sum.splits if_splits option.splits)
qed simp

lemma iter_error:
  "aliases_ok self \<Longrightarrow> n \<in> registered self \<Longrightarrow> iter_prerequisites self n v = Inl e \<Longrightarrow> e = ValueError"
  by (auto simp: iter_prerequisites_def registered_iff dest: iter_loop_error split: option.splits)

lemma prereq_rel_Inr:
  "aliases_ok self \<Longrightarrow> iter_prerequisites self c v = Inr ps \<Longrightarrow> (c, p) \<in> prereq_rel self v \<longleftrightarrow> p \<in> set ps"
  unfolding prereq_rel_def using iter_set_registered[of self c v ps] by auto

text \<open>Each pass of a list is preceded by all its prerequisites.\<close>

definition closed_order :: "pass_manager \<Rightarrow> bool \<Rightarrow> string list \<Rightarrow> bool" where
  "closed_order self v xs \<longleftrightarrow>
     (\<forall>i < length xs. prereq_rel self v `` {xs ! i} \<subseteq> set (take i xs))"

lemma closed_order_Nil [simp]: "closed_order self v []"
  by (simp add: closed_order_def)

lemma closed_order_snoc:
  "closed_order self v (xs @ [x]) \<longleftrightarrow> closed_order self v xs \<and> prereq_rel self v `` {x} \<subseteq> set xs"
  by (auto simp: closed_order_def nth_append less_Suc_eq)

lemma closed_order_closed:
  "closed_order self v xs \<Longrightarrow> prereq_rel self v `` set xs \<subseteq> set xs"
proof
  fix p assume c: "closed_order self v xs" and "p \<in> prereq_rel self v `` set xs"
  then obtain i where "i < length xs" "p \<in> prereq_rel self v `` {xs ! i}" by (auto simp: in_set_conv_nth)
  with c have "p \<in> set (take i xs)" by (auto simp: closed_order_def)
  then show "p \<in> set xs" by (rule in_set_takeD)
qed

text \<open>An order in which prerequisites come first rules out a cycle through its passes.\<close>

lemma closed_order_no_cycle:
  assumes "closed_order self v xs" "x \<in> set xs"
  shows "(x, x) \<notin> (prereq_rel self v)\<^sup>+"
proof -
  define pos where "pos y = (LEAST i. i < length xs \<and> xs ! i = y)" for y
  have pos: "pos y < length xs \<and> xs ! pos y = y" if "y \<in> set xs" for y
    using that unfolding pos_def in_set_conv_nth by (metis (mono_tags, lifting) LeastI)
  have step: "z \<in> set xs \<and> pos z < pos y" if "y \<in> set xs" "(y, z) \<in> prereq_rel self v" for y z
  proof -
    have "prereq_rel self v `` {xs ! pos y} \<subseteq> set (take (pos y) xs)"
      using assms(1) pos[OF that(1)] unfolding closed_order_def by blast
    then have "z \<in> set (take (pos y) xs)" using pos[OF that(1)] that(2) by auto
    then obtain j where j: "j < pos y" "j < length xs" "xs ! j = z" by (auto simp: in_set_conv_nth)
    then have "pos z \<le> j" unfolding pos_def by (intro Least_le) simp
    then show ?thesis using j by auto
  qed
  have "z \<in> set xs \<and> pos z < pos y" if "(y, z) \<in> (prereq_rel self v)\<^sup>+" "y \<in> set xs" for y z
    using that by (induction rule: trancl_induct) (auto dest: step intro: less_trans)
  then show ?thesis using assms(2) by blast
qed

section \<open>What a built pipeline looks like\<close>

text \<open>The successful runs of \<open>emit\<close>, as rules.\<close>

inductive emits ::
  "pass_manager \<Rightarrow> bool \<Rightarrow> string list \<Rightarrow> string list \<Rightarrow> string list \<Rightarrow> string list \<Rightarrow> bool"
  for self where
  emits_nil: "emits self e rs [] acc acc"
| emits_skip: "resolve_pass_name self n = Inr c \<Longrightarrow> c \<notin> set rs \<Longrightarrow> c \<in> set acc \<Longrightarrow>
    emits self False rs ns acc out \<Longrightarrow> emits self False rs (n # ns) acc out"
| emits_emit: "resolve_pass_name self n = Inr c \<Longrightarrow> c \<notin> set rs \<Longrightarrow> c \<notin> set acc \<or> e \<Longrightarrow>
    iter_prerequisites self c True = Inr ps \<Longrightarrow> emits self False (c # rs) ps acc mid \<Longrightarrow>
    emits self e rs ns (mid @ [c]) out \<Longrightarrow> emits self e rs (n # ns) acc out"

lemma emit_emits: "emit self e rs ns acc = Inr out \<Longrightarrow> emits self e rs ns acc out"
proof (induction self e rs ns acc arbitrary: out rule: emit.induct)
  case (2 self e rs n ns acc)
  then obtain c where c: "resolve_pass_name self n = Inr c" "c \<notin> set rs"
    by (auto simp: bind_res_eq_Inr split: if_splits)
  show ?case
  proof (cases "c \<in> set acc \<and> \<not> e")
    case True
    then have "emit self e rs ns acc = Inr out" using 2(3) c by simp
    then show ?thesis using 2(2)[of acc] c True emits_skip by (auto simp: bind_res_eq_Inr)
  next
    case False
    then obtain ps mid where ps: "iter_prerequisites self c True = Inr ps"
        "emit self False (c # rs) ps acc = Inr mid" "emit self e rs ns (mid @ [c]) = Inr out"
      using 2(3) c by (auto simp: bind_res_eq_Inr)
    have "emits self False (c # rs) ps acc mid" using 2(1)[OF c(1) c(2) False ps(1,2)] .
    moreover have "emits self e rs ns (mid @ [c]) out"
      using 2(2)[of "mid @ [c]"] c False ps by (simp add: bind_res_eq_Inr)
    ultimately show ?thesis using emits_emit c ps(1) False by blast
  qed
qed (auto intro: emits_nil)

lemma emits_prefix: "emits self e rs ns acc out \<Longrightarrow> prefix acc out"
  by (induction rule: emits.induct) (auto simp: prefix_def)

lemma emits_closed:
  assumes "emits self e rs ns acc out" "aliases_ok self" "closed_order self True acc"
  shows "closed_order self True out \<and> (\<forall>n \<in> set ns. \<exists>c \<in> set out. resolve_pass_name self n = Inr c)"
  using assms
proof (induction rule: emits.induct)
  case (emits_skip n c rs acc ns out)
  then show ?case using set_mono_prefix[OF emits_prefix[OF emits_skip.hyps(4)]] by auto
next
  case (emits_emit n c rs acc e ps mid ns out)
  have "p \<in> set mid" if "p \<in> set ps" for p
  proof -
    have "p \<in> registered self" using that iter_set_registered emits_emit.hyps(4) emits_emit.prems(1) by blast
    then show ?thesis using emits_emit.IH(1) emits_emit.prems that by force
  qed
  then have "prereq_rel self True `` {c} \<subseteq> set mid"
    using prereq_rel_Inr[OF emits_emit.prems(1) emits_emit.hyps(4)] by auto
  then have "closed_order self True (mid @ [c])"
    using emits_emit.IH(1) emits_emit.prems by (simp add: closed_order_snoc)
  then show ?case
    using emits_emit.IH(2) emits_emit.prems emits_emit.hyps(1)
      set_mono_prefix[OF emits_prefix[OF emits_emit.hyps(6)]] by auto
qed simp

lemma emits_explicit:
  "emits self e rs ns acc out \<Longrightarrow> e \<Longrightarrow>
     \<exists>new cs. out = acc @ new \<and> list_all2 (\<lambda>n c. resolve_pass_name self n = Inr c) ns cs \<and> subseq cs new"
proof (induction rule: emits.induct)
  case (emits_emit n c rs acc e ps mid ns out)
  then obtain new cs where "out = (mid @ [c]) @ new"
    "list_all2 (\<lambda>n c. resolve_pass_name self n = Inr c) ns cs" "subseq cs new" by blast
  moreover obtain z where "mid = acc @ z" using emits_prefix[OF emits_emit.hyps(5)] by (auto simp: prefix_def)
  moreover have "subseq (c # cs') (z @ c # new')" if "subseq cs' new'" for cs' new'
    by (intro list_emb_append2) (simp add: that)
  ultimately show ?case using emits_emit.hyps(1) by (intro exI[of _ "z @ c # new"] exI[of _ "c # cs"]) auto
qed auto

lemma emits_reach:
  assumes "emits self e rs ns acc out" "aliases_ok self" "x \<in> set out" "x \<notin> set acc"
  shows "\<exists>n \<in> set ns. \<exists>c. resolve_pass_name self n = Inr c \<and> (c, x) \<in> (prereq_rel self True)\<^sup>*"
  using assms
proof (induction rule: emits.induct)
  case (emits_emit n c rs acc e ps mid ns out)
  consider "x = c" | "x \<in> set mid" "x \<noteq> c" | "x \<notin> set (mid @ [c])" by auto
  then show ?case
  proof cases
    case 1
    then show ?thesis using emits_emit.hyps(1) by auto
  next
    case 2
    then obtain p where p: "p \<in> set ps" "\<exists>d. resolve_pass_name self p = Inr d \<and> (d, x) \<in> (prereq_rel self True)\<^sup>*"
      using emits_emit by blast
    moreover have "p \<in> registered self"
      using p iter_set_registered emits_emit.hyps(4) emits_emit.prems(1) by blast
    ultimately have "(p, x) \<in> (prereq_rel self True)\<^sup>*" "(c, p) \<in> prereq_rel self True"
      using prereq_rel_Inr[OF emits_emit.prems(1) emits_emit.hyps(4)] by auto
    then show ?thesis using emits_emit.hyps(1) by (auto intro: converse_rtrancl_into_rtrancl)
  next
    case 3
    then show ?thesis using emits_emit by auto
  qed
qed auto

lemma emits_iter_ok:
  "emits self e rs ns acc out \<Longrightarrow> x \<in> set out \<Longrightarrow> x \<notin> set acc \<Longrightarrow>
     is_ok (iter_prerequisites self x True)"
proof (induction rule: emits.induct)
  case (emits_emit n c rs acc e ps mid ns out)
  then show ?case by (cases "x = c"; cases "x \<in> set mid") auto
qed auto

text \<open>What must hold for a list of requests to be schedulable.\<close>

definition buildable :: "pass_manager \<Rightarrow> string list \<Rightarrow> bool" where
  "buildable self names \<longleftrightarrow>
     (\<forall>n \<in> set names. \<exists>c. resolve_pass_name self n = Inr c \<and>
        (\<forall>d. (c, d) \<in> (prereq_rel self True)\<^sup>* \<longrightarrow>
             is_ok (iter_prerequisites self d True) \<and> (d, d) \<notin> (prereq_rel self True)\<^sup>+))"

lemma emit_total:
  assumes "aliases_ok self" "buildable self ns"
    and "\<And>r n c. r \<in> set rs \<Longrightarrow> n \<in> set ns \<Longrightarrow> resolve_pass_name self n = Inr c \<Longrightarrow>
           (r, c) \<in> (prereq_rel self True)\<^sup>+"
  shows "is_ok (emit self e rs ns acc)"
  using assms
proof (induction self e rs ns acc rule: emit.induct)
  case (2 self e rs n ns acc)
  let ?R = "prereq_rel self True"
  obtain c where c: "resolve_pass_name self n = Inr c"
    "\<And>d. (c, d) \<in> ?R\<^sup>* \<Longrightarrow> is_ok (iter_prerequisites self d True) \<and> (d, d) \<notin> ?R\<^sup>+"
    using 2(4) unfolding buildable_def by auto
  have nr: "c \<notin> set rs" using 2(5)[of c n c] c by force
  obtain ps where ps: "iter_prerequisites self c True = Inr ps" using c(2)[of c] by (auto simp: is_ok_iff)
  have reg: "p \<in> registered self \<and> (c, p) \<in> ?R" if "p \<in> set ps" for p
    using that prereq_rel_Inr[OF 2(3) ps] iter_set_registered[OF 2(3) ps] by auto
  have rest: "is_ok (emit self e rs ns acc')" if
    "bind_res (resolve_pass_name self n) (\<lambda>canonical.
          if canonical \<in> set rs then Inl ValueError
          else if canonical \<in> set acc \<and> \<not> e then Inr acc
          else bind_res (iter_prerequisites self canonical True) (\<lambda>ps.
               bind_res (emit self False (canonical # rs) ps acc) (\<lambda>ordered.
                 Inr (ordered @ [canonical])))) = Inr acc'" for acc'
    by (rule 2(2)[OF that 2(3)]) (use 2(4,5) in \<open>auto simp: buildable_def\<close>)
  show ?case
  proof (cases "c \<in> set acc \<and> \<not> e")
    case True
    then show ?thesis using rest[of acc] c(1) nr by simp
  next
    case False
    have "is_ok (emit self False (c # rs) ps acc)"
    proof (rule 2(1)[OF c(1) nr False ps 2(3)])
      show "buildable self ps"
        unfolding buildable_def
      proof
        fix p assume "p \<in> set ps"
        then have p: "resolve_pass_name self p = Inr p" "(c, p) \<in> ?R" using reg by auto
        then have "(c, d) \<in> ?R\<^sup>*" if "(p, d) \<in> ?R\<^sup>*" for d
          using that by (meson converse_rtrancl_into_rtrancl)
        then show "\<exists>c. resolve_pass_name self p = Inr c \<and> (\<forall>d. (c, d) \<in> ?R\<^sup>* \<longrightarrow>
             is_ok (iter_prerequisites self d True) \<and> (d, d) \<notin> ?R\<^sup>+)"
          using p(1) c(2) by blast
      qed
      fix r p d assume "r \<in> set (c # rs)" "p \<in> set ps" "resolve_pass_name self p = Inr d"
      moreover from this have "d = p" "(c, p) \<in> ?R" using reg by auto
      moreover have "(r', c) \<in> ?R\<^sup>+" if "r' \<in> set rs" for r' by (rule 2(5)[OF that _ c(1)]) simp
      ultimately show "(r, d) \<in> ?R\<^sup>+" by (auto intro: trancl_into_trancl)
    qed
    then obtain mid where "emit self False (c # rs) ps acc = Inr mid" by (auto simp: is_ok_iff)
    then show ?thesis using rest[of "mid @ [c]"] c(1) nr ps False by auto
  qed
qed simp

lemma emit_error: "aliases_ok self \<Longrightarrow> emit self e rs ns acc = Inl x \<Longrightarrow> x = ValueError"
proof (induction self e rs ns acc arbitrary: x rule: emit.induct)
  case (2 self e rs n ns acc)
  have reg: "resolve_pass_name self n = Inr c \<Longrightarrow> c \<in> registered self" for c
    using 2(3) resolve_registered by blast
  from 2(4) show ?case
    using 2(1,2) 2(3) reg
    by (auto simp: bind_res_eq_Inl bind_res_eq_Inr resolve_error split: if_splits
        dest: iter_error[OF 2(3)] resolve_error) 
qed simp

lemma buildable_iff:
  assumes "aliases_ok self" "build_pipeline self names = Inr out"
  shows "buildable self names"
proof -
  let ?R = "prereq_rel self True"
  have em: "emits self True [] names [] out" using assms(2) emit_emits by (simp add: build_pipeline_def)
  have cl: "closed_order self True out" and nm: "\<And>n. n \<in> set names \<Longrightarrow> \<exists>c \<in> set out. resolve_pass_name self n = Inr c"
    using emits_closed[OF em assms(1)] by auto
  have "d \<in> set out" if "(c, d) \<in> ?R\<^sup>*" "c \<in> set out" for c d
    using that by (induction rule: rtrancl_induct) (use closed_order_closed[OF cl] in auto)
  then show ?thesis
    unfolding buildable_def using nm emits_iter_ok[OF em] closed_order_no_cycle[OF cl]
    by (metis list.set(1) empty_iff)
qed

text \<open>C23: pipeline construction. For any list of requested names \<open>build_pipeline\<close> either
  succeeds, and then each pass is preceded by all its prerequisites, the requests appear in
  the order given (repetitions included) and every other pass is a transitive prerequisite
  of a request; or it raises \<^verbatim>\<open>ValueError\<close>, and then a name or a prerequisite is unknown, a
  requirement is not an analysis, or there is a dependency cycle behind a request.\<close>

theorem build_pipeline_correct:
  assumes "pm_wf self"
  shows "case build_pipeline self names of
     Inl e \<Rightarrow> e = ValueError \<and> \<not> buildable self names
   | Inr out \<Rightarrow> buildable self names \<and> closed_order self True out \<and>
       (\<exists>cs. list_all2 (\<lambda>n c. resolve_pass_name self n = Inr c) names cs \<and> subseq cs out \<and>
             set out = (prereq_rel self True)\<^sup>* `` set cs)"
proof (cases "build_pipeline self names")
  case (Inl e)
  then show ?thesis
    using emit_error[OF wf_aliases[OF assms]] emit_total[OF wf_aliases[OF assms], of names "[]" True "[]"]
    by (auto simp: build_pipeline_def)
next
  case (Inr out)
  let ?R = "prereq_rel self True"
  note al = wf_aliases[OF assms]
  have em: "emits self True [] names [] out" using Inr emit_emits by (simp add: build_pipeline_def)
  obtain cs where cs: "list_all2 (\<lambda>n c. resolve_pass_name self n = Inr c) names cs" "subseq cs out"
    using emits_explicit[OF em] by auto
  have cl: "closed_order self True out" using emits_closed[OF em al] by simp
  have "d \<in> set out" if "(c, d) \<in> ?R\<^sup>*" "c \<in> set cs" for c d
    using that
  proof (induction rule: rtrancl_induct)
    case base
    then show ?case using list_emb_set[OF cs(2)] by blast
  qed (use closed_order_closed[OF cl] in auto)
  moreover have "x \<in> ?R\<^sup>* `` set cs" if x: "x \<in> set out" for x
  proof -
    obtain n c where "n \<in> set names" "resolve_pass_name self n = Inr c" "(c, x) \<in> ?R\<^sup>*"
      using emits_reach[OF em al x] by auto
    moreover from this have "c \<in> set cs" using cs(1)
      by (auto simp: list_all2_conv_all_nth in_set_conv_nth)
    ultimately show ?thesis by blast
  qed
  ultimately have "set out = ?R\<^sup>* `` set cs" by blast
  then show ?thesis using Inr cl cs buildable_iff[OF al Inr] by auto
qed

definition example_manager :: pass_manager where
  "example_manager =
     \<lparr>pm_max_refreshes = 32,
      pm_passes =
        [(''ipa'', mk_pass ''ipa'' ANALYSIS),
         (''cpa'', (mk_pass ''cpa'' ANALYSIS)\<lparr>pi_dependencies := [''ipa'']\<rparr>),
         (''dce'', (mk_pass ''dce'' OPTIMIZATION)\<lparr>pi_requirements := [''cpa''], pi_invalidates := [''cpa'']\<rparr>)],
      pm_aliases = [(''deadcode'', ''dce'')], pm_order = [''ipa'', ''cpa'', ''dce'']\<rparr>"

theorem build_pipeline_correct_witness:
  "pm_wf example_manager \<and> closed_order example_manager True [''ipa'', ''cpa'', ''dce''] \<and>
   buildable example_manager [''deadcode'']"
proof -
  have wf: "pm_wf example_manager" by code_simp
  have b: "build_pipeline example_manager [''deadcode''] = Inr [''ipa'', ''cpa'', ''dce'']" by code_simp
  from build_pipeline_correct[OF wf, of "[''deadcode'']"] wf show ?thesis by (simp add: b)
qed

section \<open>The topological order\<close>

inductive visits ::
  "pass_manager \<Rightarrow> string list \<Rightarrow> string list \<Rightarrow> string list \<times> string list \<Rightarrow>
   string list \<times> string list \<Rightarrow> bool"
  for self where
  visits_nil: "visits self temp [] acc acc"
| visits_skip: "n \<notin> set temp \<Longrightarrow> n \<in> set (fst acc) \<or> n \<notin> registered self \<Longrightarrow>
    visits self temp ns acc out \<Longrightarrow> visits self temp (n # ns) acc out"
| visits_visit: "n \<notin> set temp \<Longrightarrow> n \<notin> set (fst acc) \<Longrightarrow> n \<in> registered self \<Longrightarrow>
    iter_prerequisites self n False = Inr ps \<Longrightarrow>
    visits self (n # temp) (filter (\<lambda>d. d \<in> registered self) ps) acc mid \<Longrightarrow>
    visits self temp ns (n # fst mid, snd mid @ [n]) out \<Longrightarrow> visits self temp (n # ns) acc out"

lemma visit_visits: "visit self temp ns acc = Inr out \<Longrightarrow> visits self temp ns acc out"
proof (induction self temp ns acc arbitrary: out rule: visit.induct)
  case (2 self temp n ns acc)
  then have n: "n \<notin> set temp" by (auto simp: bind_res_eq_Inr split: if_splits)
  show ?case
  proof (cases "n \<notin> set (fst acc) \<and> n \<in> registered self")
    case True
    then obtain ps mid where ps: "iter_prerequisites self n False = Inr ps"
      "visit self (n # temp) (filter (\<lambda>d. d \<in> registered self) ps) acc = Inr mid"
      "visit self temp ns (n # fst mid, snd mid @ [n]) = Inr out"
      using 2(3) n by (auto simp: bind_res_eq_Inr)
    have "visits self temp ns (n # fst mid, snd mid @ [n]) out"
      using 2(2)[of "(n # fst mid, snd mid @ [n])"] n True ps by (simp add: bind_res_eq_Inr)
    then show ?thesis using visits_visit[OF n _ _ ps(1)] 2(1)[OF n True ps(1,2)] True by blast
  next
    case False
    then have "visit self temp ns acc = Inr out" using 2(3) n by (auto simp: bind_res_eq_Inr)
    then have "visits self temp ns acc out" using 2(2)[of acc] n False by simp
    then show ?thesis using visits_skip n False by blast
  qed
qed (auto intro: visits_nil)

definition visit_inv :: "pass_manager \<Rightarrow> string list \<Rightarrow> string list \<times> string list \<Rightarrow> bool" where
  "visit_inv self temp acc \<longleftrightarrow>
     set (fst acc) = set (snd acc) \<and> set (fst acc) \<inter> set temp = {} \<and> distinct (snd acc) \<and>
     set (fst acc) \<subseteq> registered self \<and> closed_order self False (snd acc) \<and>
     (\<forall>n \<in> set (fst acc). is_ok (iter_prerequisites self n False))"

lemma visits_inv:
  assumes "visits self temp ns acc out" "aliases_ok self" "visit_inv self temp acc"
  shows "visit_inv self temp out \<and> set (fst acc) \<subseteq> set (fst out) \<and>
    set ns \<inter> registered self \<subseteq> set (fst out)"
  using assms
proof (induction rule: visits.induct)
  case (visits_skip n temp acc ns out)
  then show ?case by (simp only: list.set insert_iff) blast
next
  case (visits_visit n temp acc ps mid ns out)
  have "visit_inv self (n # temp) acc"
    using visits_visit.prems visits_visit.hyps(2) by (auto simp: visit_inv_def)
  then have mid: "visit_inv self (n # temp) mid" "set (fst acc) \<subseteq> set (fst mid)"
    "set ps \<inter> registered self \<subseteq> set (fst mid)"
    using visits_visit.IH(1)[OF visits_visit.prems(1)] by auto
  have "prereq_rel self False `` {n} \<subseteq> set (snd mid)"
    using mid prereq_rel_Inr[OF visits_visit.prems(1) visits_visit.hyps(4)]
      iter_set_registered[OF visits_visit.prems(1) visits_visit.hyps(4)]
    by (auto simp: visit_inv_def)
  then have "visit_inv self temp (n # fst mid, snd mid @ [n])"
    using mid(1) visits_visit.hyps(1,3,4) by (auto simp: visit_inv_def closed_order_snoc)
  then show ?case using visits_visit.IH(2) visits_visit.prems(1) mid(2) by auto
qed simp

lemma visit_total:
  assumes "aliases_ok self" "acyclic (prereq_rel self False)"
    and "\<And>n. n \<in> registered self \<Longrightarrow> is_ok (iter_prerequisites self n False)"
    and "\<And>t n. t \<in> set temp \<Longrightarrow> n \<in> set ns \<Longrightarrow> (t, n) \<in> (prereq_rel self False)\<^sup>+"
  shows "is_ok (visit self temp ns acc)"
  using assms
proof (induction self temp ns acc rule: visit.induct)
  case (2 self temp n ns acc)
  let ?R = "prereq_rel self False"
  have n: "n \<notin> set temp"
  proof
    assume "n \<in> set temp"
    then have "(n, n) \<in> ?R\<^sup>+" by (rule 2(6)) simp
    then show False using 2(4) by (simp add: acyclic_def)
  qed
  have rest: "is_ok (visit self temp ns x)"
    if "(if n \<in> set temp then Inl ValueError
        else if n \<notin> set (fst acc) \<and> n \<in> registered self then
          bind_res (iter_prerequisites self n False) (\<lambda>ps.
          bind_res (visit self (n # temp) (filter (\<lambda>d. d \<in> registered self) ps) acc) (\<lambda>acc'.
            Inr (n # fst acc', snd acc' @ [n])))
        else Inr acc) = Inr x" for x
    by (rule 2(2)[OF that 2(3,4)]) (auto intro: 2(5,6))
  show ?case
  proof (cases "n \<notin> set (fst acc) \<and> n \<in> registered self")
    case True
    then obtain ps where ps: "iter_prerequisites self n False = Inr ps"
      using 2(5)[of n] by (auto simp: is_ok_iff)
    have "is_ok (visit self (n # temp) (filter (\<lambda>d. d \<in> registered self) ps) acc)"
    proof (rule 2(1)[OF n True ps 2(3,4)])
      fix t p assume tp: "t \<in> set (n # temp)" "p \<in> set (filter (\<lambda>d. d \<in> registered self) ps)"
      then have np: "(n, p) \<in> ?R" using prereq_rel_Inr[OF 2(3) ps] by simp
      have "(t, n) \<in> ?R\<^sup>+" if "t \<in> set temp" by (rule 2(6)[OF that]) simp
      then show "(t, p) \<in> ?R\<^sup>+" using np tp(1) by (auto intro: trancl_into_trancl)
    qed (rule 2(5))
    then obtain mid where "visit self (n # temp) (filter (\<lambda>d. d \<in> registered self) ps) acc = Inr mid"
      by (auto simp: is_ok_iff)
    then show ?thesis using rest[of "(n # fst mid, snd mid @ [n])"] n True ps by simp
  next
    case False
    then have "\<not> (n \<notin> set (fst acc) \<and> n \<in> registered self)" by blast
    then show ?thesis using rest[of acc] n by (simp only: visit.simps if_False bind_res_Inr)
  qed
qed simp

lemma visit_error: "aliases_ok self \<Longrightarrow> visit self temp ns acc = Inl e \<Longrightarrow> e = ValueError"
proof (induction self temp ns acc arbitrary: e rule: visit.induct)
  case (2 self temp n ns acc)
  from 2(4) show ?case
    using 2(1,2) 2(3) by (auto simp: bind_res_eq_Inl bind_res_eq_Inr split: if_splits
        dest: iter_error[OF 2(3)])
qed simp

text \<open>All the scheduler needs of the declared metadata.\<close>

definition resolvable :: "pass_manager \<Rightarrow> bool" where
  "resolvable self \<longleftrightarrow> acyclic (prereq_rel self False) \<and>
     (\<forall>n \<in> registered self. is_ok (iter_prerequisites self n False))"

lemma order_irrelevant [simp]:
  "registered (self\<lparr>pm_order := xs\<rparr>) = registered self"
  "iter_prerequisites (self\<lparr>pm_order := xs\<rparr>) n v = iter_prerequisites self n v"
  "prereq_rel (self\<lparr>pm_order := xs\<rparr>) v = prereq_rel self v"
  "closed_order (self\<lparr>pm_order := xs\<rparr>) v ys = closed_order self v ys"
proof -
  show r: "registered (self\<lparr>pm_order := xs\<rparr>) = registered self" by (simp add: registered_def)
  have "resolve_pass_name (self\<lparr>pm_order := xs\<rparr>) m = resolve_pass_name self m" for m
    by (simp add: resolve_pass_name_def)
  then have "iter_loop (self\<lparr>pm_order := xs\<rparr>) rs v ns = iter_loop self rs v ns" for rs ns
    by (induction ns) (auto split: sum.splits)
  then show i: "iter_prerequisites (self\<lparr>pm_order := xs\<rparr>) n v = iter_prerequisites self n v" for n
    by (simp add: iter_prerequisites_def split: option.splits)
  show p: "prereq_rel (self\<lparr>pm_order := xs\<rparr>) v = prereq_rel self v"
    by (simp add: prereq_rel_def i r)
  show "closed_order (self\<lparr>pm_order := xs\<rparr>) v ys = closed_order self v ys"
    by (simp add: closed_order_def p)
qed

lemma resolve_dependencies_cases:
  assumes "pm_wf self"
  shows "(\<exists>order. resolve_dependencies self = (Inr (), self\<lparr>pm_order := order\<rparr>) \<and> resolvable self \<and>
            pm_wf (self\<lparr>pm_order := order\<rparr>) \<and> closed_order self False order) \<or>
         (resolve_dependencies self = (Inl ValueError, self) \<and> \<not> resolvable self)"
proof (cases "visit self [] (pm_order self) ([], [])")
  case (Inl e)
  then have "e = ValueError" using visit_error wf_aliases[OF assms] by blast
  moreover have "\<not> resolvable self"
  proof
    assume "resolvable self"
    then have "is_ok (visit self [] (pm_order self) ([], []))"
      using visit_total[OF wf_aliases[OF assms], of "[]"] by (simp add: resolvable_def)
    with Inl show False by simp
  qed
  ultimately show ?thesis using Inl by (simp add: resolve_dependencies_def)
next
  case (Inr out)
  have vs: "visits self [] (pm_order self) ([], []) out" using Inr by (rule visit_visits)
  have "visit_inv self [] ([], [])" by (simp add: visit_inv_def)
  from visits_inv[OF vs wf_aliases[OF assms] this] assms
  have inv: "visit_inv self [] out" "set (snd out) = registered self"
    by (auto simp: visit_inv_def pm_wf_def)
  have "acyclic (prereq_rel self False)"
  proof (rule acyclicI, rule allI)
    fix x
    show "(x, x) \<notin> (prereq_rel self False)\<^sup>+"
    proof
      assume c: "(x, x) \<in> (prereq_rel self False)\<^sup>+"
      then have "x \<in> set (snd out)" by (induction rule: trancl_induct) (auto simp: inv prereq_rel_def)
      then show False using closed_order_no_cycle inv(1) c by (auto simp: visit_inv_def)
    qed
  qed
  then have "resolvable self" using inv by (auto simp: resolvable_def visit_inv_def)
  then show ?thesis using Inr inv assms
    by (auto simp: resolve_dependencies_def visit_inv_def pm_wf_def split: prod.splits)
qed

lemma update_registered: "registered (self\<lparr>pm_passes := AList.update n p (pm_passes self)\<rparr>) =
    insert n (registered self)"
  by (simp add: registered_def dom_update)

lemma register_prepared_wf:
  assumes "pm_wf self" "n \<notin> registered self"
  shows "pm_wf (self\<lparr>pm_passes := AList.update n p (pm_passes self), pm_order := pm_order self @ [n]\<rparr>)"
  using assms update_registered[of n p self]
  by (auto simp: pm_wf_def distinct_update)

text \<open>C29: dependency resolution. On any well-formed manager \<^verbatim>\<open>_resolve_dependencies\<close> either
  installs an order of exactly the registered passes in which every known prerequisite comes
  first, or raises \<^verbatim>\<open>ValueError\<close> and keeps the old order; it raises exactly when the
  dependencies have a cycle or some pass requires a pass that is not an analysis.\<close>

theorem resolve_dependencies_correct:
  assumes "pm_wf self"
  shows "case resolve_dependencies self of
     (Inr _, self') \<Rightarrow> resolvable self \<and> self' = self\<lparr>pm_order := pm_order self'\<rparr> \<and>
        distinct (pm_order self') \<and> set (pm_order self') = registered self \<and>
        closed_order self False (pm_order self')
   | (Inl e, self') \<Rightarrow> \<not> resolvable self \<and> e = ValueError \<and> self' = self"
  using resolve_dependencies_cases[OF assms] by (auto simp: pm_wf_def)

theorem resolve_dependencies_correct_witness:
  "pm_wf example_manager \<and> resolvable example_manager"
proof -
  have w: "pm_wf example_manager" by code_simp
  have "fst (resolve_dependencies example_manager) = Inr ()" by code_simp
  then obtain m where "resolve_dependencies example_manager = (Inr (), m)" by (metis prod.collapse)
  with resolve_dependencies_correct[OF w] w show ?thesis by simp
qed

text \<open>\<^verbatim>\<open>register_pass\<close> is not atomic. When resolution fails after the pass was entered,
  the pass stays registered although the call raised: a repaired version of it is refused as
  already registered, and from then on the registration of an unrelated pass raises too.\<close>

theorem register_pass_not_atomic:
  "(let a = (mk_pass ''a'' ANALYSIS)\<lparr>pi_dependencies := [''b'']\<rparr>;
        b = (mk_pass ''b'' ANALYSIS)\<lparr>pi_dependencies := [''a'']\<rparr>;
        m0 = \<lparr>pm_max_refreshes = 32, pm_passes = [], pm_aliases = [], pm_order = []\<rparr>;
        (r1, m1) = register_pass m0 a;
        (r2, m2) = register_pass m1 b;
        (r3, m3) = register_pass m2 (mk_pass ''b'' ANALYSIS);
        (r4, m4) = register_pass m2 (mk_pass ''c'' ANALYSIS)
    in (r1, r2, pm_order m2, r3, r4)) =
   (Inr (), Inl ValueError, [''a'', ''b''], Inl ValueError, Inl ValueError)"
  by code_simp

lemma pm_wf_empty: "pm_wf \<lparr>pm_max_refreshes = n, pm_passes = [], pm_aliases = [], pm_order = []\<rparr>"
  by (simp add: pm_wf_def registered_def)

lemma pm_new_wf: "pm_new n = Inr self \<Longrightarrow> pm_wf self"
  by (auto simp: pm_new_def pm_wf_empty split: if_splits)

lemma resolve_dependencies_wf: "pm_wf self \<Longrightarrow> pm_wf (snd (resolve_dependencies self))"
  using resolve_dependencies_cases[of self] by auto

lemma register_pass_wf:
  assumes "pm_wf self" shows "pm_wf (snd (register_pass self p))"
proof (cases "map_of (pm_passes self) (pi_name p) \<noteq> None \<or> map_of (pm_aliases self) (pi_name p) \<noteq> None")
  case False
  then have "pi_name p \<notin> registered self" by (simp add: registered_iff)
  from register_prepared_wf[OF assms this] have
    "pm_wf (snd (resolve_dependencies (self\<lparr>pm_passes := AList.update (pi_name p) p (pm_passes self),
       pm_order := pm_order self @ [pi_name p]\<rparr>)))" by (rule resolve_dependencies_wf)
  then show ?thesis using False by (auto simp: register_pass_def)
qed (use assms in \<open>auto simp: register_pass_def\<close>)

lemma update_targets: "snd ` set (AList.update a t xs) \<subseteq> insert t (snd ` set xs)"
  by (induction xs) auto

lemma register_alias_wf:
  assumes "pm_wf self" "register_alias self alias target = Inr self'" shows "pm_wf self'"
proof -
  have s: "self' = self\<lparr>pm_aliases := AList.update alias target (pm_aliases self)\<rparr>"
    and tg: "target \<in> registered self"
    using assms(2) by (auto simp: register_alias_def registered_iff split: if_splits)
  have r: "registered self' = registered self" by (simp add: s registered_def)
  have "snd ` set (pm_aliases self') \<subseteq> registered self'"
    using update_targets[of "alias" target "pm_aliases self"] assms(1) tg
    unfolding r by (auto simp: pm_wf_def s)
  then show ?thesis using assms(1) r unfolding pm_wf_def by (simp add: s)
qed

lemma delete_registered: "fst ` set (AList.delete c ps) = fst ` set ps - {c}"
  by (induction ps) (auto simp: AList.delete_eq)

lemma unregister_pass_wf:
  assumes "pm_wf self" shows "pm_wf (snd (unregister_pass self n))"
proof (cases "resolve_pass_name self n")
  case (Inr c)
  let ?m = "self\<lparr>pm_passes := AList.delete c (pm_passes self),
                       pm_order := filter (\<lambda>p. p \<noteq> c) (pm_order self),
                       pm_aliases := filter (\<lambda>(_, target). target \<noteq> c) (pm_aliases self)\<rparr>"
  have "pm_wf ?m"
    using assms by (auto simp: pm_wf_def registered_def delete_registered distinct_delete)
  from resolve_dependencies_wf[OF this] show ?thesis
    using Inr assms by (simp add: unregister_pass_def)
qed (use assms in \<open>simp add: unregister_pass_def\<close>)

end
