(* ===== verification/PassScheduling.thy ===== *)
theory PassScheduling
  imports PassManagers
begin

text \<open>
  The scheduler of the pass manager: \<^verbatim>\<open>run_pipeline\<close> with its nested \<^verbatim>\<open>execute\<close>,
  \<^verbatim>\<open>_run_pass\<close>, \<^verbatim>\<open>_invalidate_dependent_passes\<close> and \<^verbatim>\<open>_retire_analysis_dependents\<close>
  (\<^verbatim>\<open>src/pyflow/application/passes/manager.py\<close>).

  A pass body is a parameter of the model: a function from the pass name and the program to
  an outcome and the program it leaves behind. Wall-clock times are not modelled. The
  closure variables of \<^verbatim>\<open>run_pipeline\<close> are the fields of \<open>run_state\<close>; \<^verbatim>\<open>resolving\<close>, which the
  code pushes and pops around every activation, is an argument. The prerequisites that
  \<^verbatim>\<open>_iter_prerequisites\<close> returns are registered (\<open>iter_set_registered\<close>), so a look-up of
  their kind cannot fail.
\<close>

section \<open>State of a run\<close>

datatype body_outcome = Returned pass_result | Raised string string | NotAResult

record execution_record =
  er_run_id :: int
  er_sequence :: nat
  er_pass_name :: string
  er_success :: bool
  er_changed :: bool
  er_cached :: bool
  er_before :: "ir_revision option"
  er_after :: "ir_revision option"
  er_result :: pass_result
  er_error :: "pass_error option"
  er_exception_type :: "string option"
  er_automatic :: bool
  er_requested_by :: "string option"

record run_env =
  re_manager :: pass_manager
  re_run_id :: int
  re_body :: "string \<Rightarrow> program \<Rightarrow> body_outcome \<times> program"

record run_state =
  rs_program :: program
  rs_cache :: "result_cache option"
  rs_avail :: availability
  rs_local :: "(string \<times> avail_token) list"
  rs_completed :: "string list"
  rs_records :: "execution_record list"
  rs_log :: "execution_record list"

definition pass_kind_is :: "pass_manager \<Rightarrow> string \<Rightarrow> pass_kind \<Rightarrow> bool" where
  "pass_kind_is self n k =
     (case map_of (pm_passes self) n of None \<Rightarrow> False | Some i \<Rightarrow> pi_kind i = k)"

definition rs_token :: "run_state \<Rightarrow> avail_token" where
  "rs_token st = availability_token (rs_program st)"

definition rs_valid :: "string \<Rightarrow> run_state \<Rightarrow> bool \<times> run_state" where
  "rs_valid name st =
     (if map_of (rs_local st) name = Some (rs_token st) then (True, st)
      else case is_valid (rs_avail st) (rs_program st) name of
             (b, a) \<Rightarrow> (b, st\<lparr>rs_avail := a\<rparr>))"

fun missing_loop :: "string list \<Rightarrow> run_state \<Rightarrow> string list \<times> run_state" where
  "missing_loop [] st = ([], st)"
| "missing_loop (n # ns) st =
     (case rs_valid n st of (b, st') \<Rightarrow>
      case missing_loop ns st' of (ms, st'') \<Rightarrow> (if b then ms else n # ms, st''))"

definition retire_failed_state :: "run_state \<Rightarrow> run_state" where
  "retire_failed_state st =
     (let p = with_session (mark_changed []) (rs_program st)
      in st\<lparr>rs_program := p, rs_local := [],
            rs_avail := cache_invalidate (rs_avail st) p None,
            rs_cache := map_option (\<lambda>c. cache_invalidate c p None) (rs_cache st)\<rparr>)"

definition record_run ::
  "run_env \<Rightarrow> string \<Rightarrow> pass_result \<Rightarrow> ir_revision option \<Rightarrow> bool \<Rightarrow> bool \<Rightarrow> string option \<Rightarrow>
   run_state \<Rightarrow> run_state" where
  "record_run env name result before cached automatic requested_by st =
     (let item = \<lparr>er_run_id = re_run_id env, er_sequence = length (rs_records st) + 1,
                  er_pass_name = name, er_success = pr_success result,
                  er_changed = pr_changed result, er_cached = cached, er_before = before,
                  er_after = pg_revision (rs_program st), er_result = result,
                  er_error = pr_error result, er_exception_type = pr_exception_type result,
                  er_automatic = automatic, er_requested_by = requested_by\<rparr>
      in st\<lparr>rs_records := rs_records st @ [item], rs_log := rs_log st @ [item]\<rparr>)"

definition run_pass :: "run_env \<Rightarrow> string \<Rightarrow> program \<Rightarrow> pass_result \<times> program" where
  "run_pass env name p =
     (case re_body env name p of
        (Returned r, p') \<Rightarrow> (r, p')
      | (Raised t m, p') \<Rightarrow> (from_exception t (BodyError m), p')
      | (NotAResult, p') \<Rightarrow> (from_exception ''TypeError'' (NotAPassResult name), p'))"

section \<open>Invalidation after a change\<close>

definition known_names :: "pass_manager \<Rightarrow> string list \<Rightarrow> string list" where
  "known_names self names =
     List.map_filter (\<lambda>n. case resolve_pass_name self n of Inl _ \<Rightarrow> None | Inr c \<Rightarrow> Some c) names"

definition preserved_by :: "pass_manager \<Rightarrow> pass_info \<Rightarrow> program \<Rightarrow> string list" where
  "preserved_by self info p =
     (let invalidated = known_names self (pi_invalidates info);
          preserved = filter (\<lambda>n. n \<notin> set invalidated) (known_names self (pi_preserves info))
      in case pg_session p of
           None \<Rightarrow> preserved
         | Some _ \<Rightarrow> filter (\<lambda>n. analysis_key n \<notin> analysis_key ` set invalidated) preserved)"

definition rebase_or_drop ::
  "(program \<Rightarrow> 't) \<Rightarrow> (string \<Rightarrow> bool) \<Rightarrow> program \<Rightarrow> 't \<Rightarrow> ('t, 'r) pass_cache \<Rightarrow> ('t, 'r) pass_cache"
where
  "rebase_or_drop tok keep p before_token cache =
     fold (\<lambda>name c. if keep name then cache_rebase tok c p name before_token
                    else cache_invalidate c p (Some name))
       (cache_pass_names cache p) cache"

definition invalidate_dependent_passes ::
  "pass_manager \<Rightarrow> pass_info \<Rightarrow> pass_token option \<Rightarrow> avail_token \<Rightarrow> run_state \<Rightarrow> string list \<times> run_state"
where
  "invalidate_dependent_passes self info before_token before_available st =
     (let preserved = preserved_by self info (rs_program st);
          p = with_session (mark_changed preserved) (rs_program st);
          a = rebase_or_drop availability_token (\<lambda>n. n \<in> set preserved) p before_available (rs_avail st);
          keep = (\<lambda>n. n \<in> set preserved \<and> (pass_kind_is self n ANALYSIS \<or> pass_kind_is self n UTILITY));
          c = (case (rs_cache st, before_token) of
                 (Some c, Some t) \<Rightarrow> Some (rebase_or_drop version_token keep p t c)
               | (c, _) \<Rightarrow> c)
      in (preserved, st\<lparr>rs_program := p, rs_avail := a, rs_cache := c\<rparr>))"

section \<open>Retirement of dependent analyses\<close>

definition analysis_inputs :: "pass_manager \<Rightarrow> (string \<Rightarrow> string) \<Rightarrow> string \<Rightarrow> string set res" where
  "analysis_inputs self key name =
     bind_res (iter_prerequisites self name False) (\<lambda>ps.
       Inr (key ` {d \<in> set ps. pass_kind_is self d ANALYSIS}))"

text \<open>One sweep of the \<^verbatim>\<open>for\<close> loop over the passes; the state is \<^verbatim>\<open>retired\<close>, \<^verbatim>\<open>input_keys\<close>
  and \<^verbatim>\<open>added\<close>.\<close>

fun retire_sweep ::
  "pass_manager \<Rightarrow> (string \<Rightarrow> string) \<Rightarrow> string \<Rightarrow> (string \<times> pass_info) list \<Rightarrow>
   string list \<times> string set \<times> bool \<Rightarrow> (string list \<times> string set \<times> bool) res" where
  "retire_sweep self key producer [] acc = Inr acc"
| "retire_sweep self key producer ((name, info) # rest) (retired, inputs, added) =
     (if name \<in> set retired \<or> key name = key producer
      then retire_sweep self key producer rest (retired, inputs, added)
      else bind_res (analysis_inputs self key name) (\<lambda>ins.
        if ins \<inter> inputs \<noteq> {}
        then retire_sweep self key producer rest
               (retired @ [name], if pi_kind info = ANALYSIS then insert (key name) inputs else inputs, True)
        else retire_sweep self key producer rest (retired, inputs, added)))"

lemma retire_sweep_grows:
  "retire_sweep self key producer xs (retired, inputs, added) = Inr (retired', inputs', added') \<Longrightarrow>
     set retired \<subseteq> set retired' \<and> set retired' \<subseteq> set retired \<union> fst ` set xs \<and> inputs \<subseteq> inputs' \<and>
     (added' \<longrightarrow> added \<or> set retired \<subset> set retired') \<and>
     (\<not> added' \<longrightarrow> \<not> added \<and> retired' = retired \<and> inputs' = inputs)"
proof (induction xs arbitrary: retired inputs added)
  case (Cons x xs)
  obtain name info where x: "x = (name, info)" by fastforce
  have skip: ?case if "retire_sweep self key producer xs (retired, inputs, added) =
      Inr (retired', inputs', added')"
    using Cons.IH[OF that] x by auto
  show ?case
  proof (cases "name \<in> set retired \<or> key name = key producer")
    case True
    then show ?thesis using Cons.prems x skip by (auto split: if_splits)
  next
    case False
    then obtain ins where ins: "analysis_inputs self key name = Inr ins"
      using Cons.prems x by (auto simp: bind_res_eq_Inr)
    let ?i = "if pi_kind info = ANALYSIS then insert (key name) inputs else inputs"
    show ?thesis
    proof (cases "ins \<inter> inputs = {}")
      case True
      then show ?thesis using Cons.prems x skip False ins by simp
    next
      case no: False
      have "retire_sweep self key producer xs (retired @ [name], ?i, True) = Inr (retired', inputs', added')"
        using Cons.prems x False ins no by simp
      from Cons.IH[OF this] False x show ?thesis by (auto split: if_splits)
    qed
  qed
qed auto

function retire_loop ::
  "pass_manager \<Rightarrow> (string \<Rightarrow> string) \<Rightarrow> string \<Rightarrow> string list \<times> string set \<Rightarrow> string list res" where
  "retire_loop self key producer (retired, inputs) =
     (case retire_sweep self key producer (pm_passes self) (retired, inputs, False) of
        Inl e \<Rightarrow> Inl e
      | Inr (retired', inputs', added) \<Rightarrow>
          if added then retire_loop self key producer (retired', inputs') else Inr retired')"
  by pat_completeness auto
termination
proof (relation "measure (\<lambda>(self, key, producer, retired, inputs). card (registered self - set retired))",
    goal_cases)
  case (2 self key producer retired inputs r retired' r' inputs' added)
  then have "set retired \<subset> set retired'" "set retired' \<subseteq> set retired \<union> registered self"
    using retire_sweep_grows by (fastforce simp: registered_def)+
  then have "card (registered self - set retired') < card (registered self - set retired)"
    by (intro psubset_card_mono) (auto simp: registered_def)
  then show ?case by simp
qed simp

declare retire_loop.simps [simp del]

fun any_valid :: "string list \<Rightarrow> run_state \<Rightarrow> bool \<times> run_state" where
  "any_valid [] st = (False, st)"
| "any_valid (n # ns) st =
     (case rs_valid n st of (b, st') \<Rightarrow> if b then (True, st') else any_valid ns st')"

definition session_key :: "program \<Rightarrow> string \<Rightarrow> string" where
  "session_key p = (case pg_session p of None \<Rightarrow> (\<lambda>n. n) | Some _ \<Rightarrow> analysis_key)"

definition has_result :: "program \<Rightarrow> string \<Rightarrow> bool" where
  "has_result p key =
     (case pg_model p of WithSession c se \<Rightarrow> is_ok (results_getitem c se key) | _ \<Rightarrow> False)"

definition retire_analysis_dependents ::
  "pass_manager \<Rightarrow> string \<Rightarrow> run_state \<Rightarrow> string list res \<times> run_state" where
  "retire_analysis_dependents self producer st =
     (let key = session_key (rs_program st) in
      case retire_loop self key producer ([], {key producer}) of
        Inl e \<Rightarrow> (Inl e, st)
      | Inr retired \<Rightarrow>
          let c = map_option
                (\<lambda>c. fold (\<lambda>n c. cache_invalidate c (rs_program st) (Some n)) retired c) (rs_cache st);
              st = st\<lparr>rs_cache := c\<rparr>;
              analyses = filter (\<lambda>n. pass_kind_is self n ANALYSIS) retired;
              before = rs_token st;
              (active, st) = any_valid analyses st;
              active = (active \<or> list_ex (\<lambda>n. has_result (rs_program st) (key n)) analyses);
              p = (if active then with_session (invalidate_results analyses) (rs_program st)
                   else rs_program st);
              a = rebase_or_drop availability_token (\<lambda>n. n \<notin> set analyses) p before (rs_avail st)
          in (Inr retired, st\<lparr>rs_program := p, rs_avail := a\<rparr>))"

section \<open>One stage\<close>

text \<open>The lifecycle of a stage once its prerequisites are met: a cache hit, or a run of the
  body with the invalidation it causes.\<close>

definition stage_hit ::
  "run_env \<Rightarrow> string \<Rightarrow> pass_result \<Rightarrow> ir_revision option \<Rightarrow> bool \<Rightarrow> string option \<Rightarrow> run_state \<Rightarrow> run_state"
where
  "stage_hit env c result before automatic requested_by st =
     (let st = (if pass_kind_is (re_manager env) c ANALYSIS then
                  let a = mark_valid (rs_avail st) (rs_program st) c
                  in st\<lparr>rs_avail := a, rs_local := AList.update c (rs_token st) (rs_local st)\<rparr>
                else st);
          st = st\<lparr>rs_completed := add_new c (rs_completed st)\<rparr>
      in record_run env c result before True automatic requested_by st)"

definition stage_changed :: "run_env \<Rightarrow> string \<Rightarrow> pass_token option \<Rightarrow> avail_token \<Rightarrow> run_state \<Rightarrow> run_state"
where
  "stage_changed env c before_cache before_available st =
     (case map_of (pm_passes (re_manager env)) c of
        None \<Rightarrow> st
      | Some info \<Rightarrow>
          (case invalidate_dependent_passes (re_manager env) info before_cache before_available st of
             (preserved, st) \<Rightarrow>
               st\<lparr>rs_local :=
                    map (\<lambda>(n, t). (n, if t = before_available then rs_token st else t))
                      (filter (\<lambda>(n, t). n \<in> set preserved) (rs_local st))\<rparr>))"

definition stage_unchanged :: "run_env \<Rightarrow> string \<Rightarrow> pass_result \<Rightarrow> run_state \<Rightarrow> unit res \<times> run_state" where
  "stage_unchanged env c result st =
     (let put = (\<lambda>st. st\<lparr>rs_cache :=
                   map_option (\<lambda>k. cache_put version_token k (rs_program st) c result) (rs_cache st)\<rparr>)
      in if pass_kind_is (re_manager env) c ANALYSIS then
           let before = rs_token st in
           (case retire_analysis_dependents (re_manager env) c st of
              (Inl e, st) \<Rightarrow> (Inl e, st)
            | (Inr retired, st) \<Rightarrow>
                let l = map (\<lambda>(n, t). (n, if t = before then rs_token st else t))
                          (filter (\<lambda>(n, t). n \<notin> set retired) (rs_local st));
                    a = mark_valid (rs_avail st) (rs_program st) c
                in (Inr (), put (st\<lparr>rs_avail := a, rs_local := AList.update c (rs_token st) l\<rparr>)))
         else (Inr (), put st))"

definition finish_stage ::
  "run_env \<Rightarrow> string \<Rightarrow> pass_result \<Rightarrow> ir_revision option \<Rightarrow> bool \<Rightarrow> string option \<Rightarrow> run_state \<Rightarrow>
   bool res \<times> run_state" where
  "finish_stage env c result before automatic requested_by st =
     (let st = record_run env c result before False automatic requested_by st
      in (Inr (pr_success result),
          if pr_success result then st\<lparr>rs_completed := add_new c (rs_completed st)\<rparr> else st))"

definition run_stage ::
  "run_env \<Rightarrow> string \<Rightarrow> bool \<Rightarrow> string option \<Rightarrow> run_state \<Rightarrow> bool res \<times> run_state" where
  "run_stage env c automatic requested_by st =
     (let before = pg_revision (rs_program st);
          (cached, st) =
            (case rs_cache st of
               None \<Rightarrow> (None, st)
             | Some k \<Rightarrow> (case cache_get version_token k (rs_program st) c of
                           (r, k) \<Rightarrow> (r, st\<lparr>rs_cache := Some k\<rparr>)))
      in case cached of
           Some result \<Rightarrow> (Inr True, stage_hit env c result before automatic requested_by st)
         | None \<Rightarrow>
             let before_cache = map_option (\<lambda>_. version_token (rs_program st)) (rs_cache st);
                 before_available = rs_token st;
                 (result, p) = run_pass env c (rs_program st);
                 st = st\<lparr>rs_program := p\<rparr>
             in if \<not> pr_success result then
                  finish_stage env c result before automatic requested_by (retire_failed_state st)
                else if pr_changed result then
                  finish_stage env c result before automatic requested_by
                    (stage_changed env c before_cache before_available st)
                else (case stage_unchanged env c result st of
                        (Inl e, st) \<Rightarrow> (Inl e, st)
                      | (Inr (), st) \<Rightarrow> finish_stage env c result before automatic requested_by st))"

section \<open>The scheduler\<close>

definition bump_refresh :: "string \<Rightarrow> (string \<Rightarrow> nat) \<Rightarrow> (string \<Rightarrow> nat)" where
  "bump_refresh n refreshes = refreshes(n := refreshes n + 1)"

definition refresh_budget :: "run_env \<Rightarrow> string list \<Rightarrow> (string \<Rightarrow> nat) \<Rightarrow> nat" where
  "refresh_budget env required refreshes =
     (\<Sum>n \<in> set required. Suc (nat (pm_max_refreshes (re_manager env))) - refreshes n)"

definition unstable_failure ::
  "run_env \<Rightarrow> string \<Rightarrow> string \<Rightarrow> bool \<Rightarrow> string option \<Rightarrow> run_state \<Rightarrow> run_state" where
  "unstable_failure env c prerequisite automatic requested_by st =
     (let before = pg_revision (rs_program st);
          result = from_exception ''RuntimeError''
                     (Unstable c prerequisite (pm_max_refreshes (re_manager env)))
      in record_run env c result before False automatic requested_by (retire_failed_state st))"

lemma missing_loop_subset: "set (fst (missing_loop ns st)) \<subseteq> set ns"
proof (induction ns arbitrary: st)
  case (Cons n ns)
  obtain b st' where v: "rs_valid n st = (b, st')" by fastforce
  obtain ms st'' where m: "missing_loop ns st' = (ms, st'')" by fastforce
  show ?case using Cons[of st'] v m by auto
qed simp

lemma refresh_budget_decreases:
  assumes "p \<in> set required" "int (Suc (refreshes p)) \<le> pm_max_refreshes (re_manager env)"
  shows "refresh_budget env required (bump_refresh p refreshes) < refresh_budget env required refreshes"
  unfolding refresh_budget_def
  by (rule sum_strict_mono_ex1) (use assms in \<open>auto simp: bump_refresh_def intro!: bexI[of _ p]\<close>)

definition unresolved :: "run_env \<Rightarrow> string list \<Rightarrow> nat" where
  "unresolved env resolving = card (registered (re_manager env) - set resolving)"

lemma unresolved_decreases:
  assumes "iter_prerequisites (re_manager env) c True = Inr ps" "c \<notin> set resolving"
  shows "unresolved env (c # resolving) < unresolved env resolving"
  unfolding unresolved_def using assms iter_prerequisites_registered
  by (intro psubset_card_mono) (auto simp: registered_def)

text \<open>\<^verbatim>\<open>execute\<close>, its loop over the ordering-only prerequisites and its refresh loop. A
  \<^verbatim>\<open>False\<close> result aborts the run.\<close>

function (sequential)
  execute :: "run_env \<Rightarrow> string list \<Rightarrow> string \<Rightarrow> bool \<Rightarrow> string option \<Rightarrow> run_state \<Rightarrow> bool res \<times> run_state"
and
  ordering_loop :: "run_env \<Rightarrow> string list \<Rightarrow> string \<Rightarrow> string list \<Rightarrow> run_state \<Rightarrow> bool res \<times> run_state"
and
  refresh_loop :: "run_env \<Rightarrow> string list \<Rightarrow> string \<Rightarrow> string list \<Rightarrow> (string \<Rightarrow> nat) \<Rightarrow> bool \<Rightarrow>
    string option \<Rightarrow> run_state \<Rightarrow> bool res \<times> run_state"
where
  "execute env resolving name automatic requested_by st =
     (case resolve_pass_name (re_manager env) name of
        Inl e \<Rightarrow> (Inl e, st)
      | Inr c \<Rightarrow>
          if c \<in> set resolving then (Inl ValueError, st)
          else case iter_prerequisites (re_manager env) c True of
            Inl e \<Rightarrow> (Inl e, st)
          | Inr ps \<Rightarrow>
              case ordering_loop env (c # resolving) c ps st of
                (Inr True, st1) \<Rightarrow>
                  (case refresh_loop env (c # resolving) c
                          (filter (\<lambda>n. pass_kind_is (re_manager env) n ANALYSIS) ps) (\<lambda>_. 0)
                          automatic requested_by st1 of
                     (Inr True, st2) \<Rightarrow> run_stage env c automatic requested_by st2
                   | other \<Rightarrow> other)
              | other \<Rightarrow> other)"
| "ordering_loop env resolving c [] st = (Inr True, st)"
| "ordering_loop env resolving c (p # ps) st =
     (if \<not> pass_kind_is (re_manager env) p ANALYSIS \<and> p \<notin> set (rs_completed st)
      then case execute env resolving p True (Some c) st of
             (Inr True, st1) \<Rightarrow> ordering_loop env resolving c ps st1
           | other \<Rightarrow> other
      else ordering_loop env resolving c ps st)"
| "refresh_loop env resolving c required refreshes automatic requested_by st =
     (case missing_loop required st of
        ([], st1) \<Rightarrow> (Inr True, st1)
      | (p # _, st1) \<Rightarrow>
          if int (Suc (refreshes p)) > pm_max_refreshes (re_manager env)
          then (Inr False, unstable_failure env c p automatic requested_by st1)
          else case execute env resolving p True (Some c) st1 of
                 (Inr True, st2) \<Rightarrow>
                   refresh_loop env resolving c required (bump_refresh p refreshes)
                     automatic requested_by st2
               | other \<Rightarrow> other)"
  by pat_completeness auto

termination
proof (relation "inv_image (less_than <*lex*> less_than <*lex*> less_than)
    (\<lambda>x. case x of
       Inl (env, rs, _) \<Rightarrow> (unresolved env rs, 0, 0)
     | Inr (Inl (env, rs, _, ps, _)) \<Rightarrow> (unresolved env rs, 1, length ps)
     | Inr (Inr (env, rs, _, required, refreshes, _)) \<Rightarrow>
         (unresolved env rs, 1, refresh_budget env required refreshes))", goal_cases)
  case (8 env resolving c required refreshes automatic requested_by st)
  have "refresh_budget env required (bump_refresh p refreshes) < refresh_budget env required refreshes"
    if "(p # qs, y) = missing_loop required st" "int (Suc (refreshes p)) \<le> pm_max_refreshes (re_manager env)"
    for p qs y
  proof -
    have "p \<in> set required"
      using missing_loop_subset[of required st] that(1) by (metis fst_conv insert_subset list.set(2))
    then show ?thesis using that(2)
      by (rule refresh_budget_decreases[where p = p and refreshes = refreshes])
  qed
  then show ?case using 8 by auto
qed (auto simp: unresolved_decreases)

fun run_loop :: "run_env \<Rightarrow> string list \<Rightarrow> run_state \<Rightarrow> unit res \<times> run_state" where
  "run_loop env [] st = (Inr (), st)"
| "run_loop env (name # names) st =
     (case execute env [] name False None st of
        (Inl e, st1) \<Rightarrow> (Inl e, st1)
      | (Inr False, st1) \<Rightarrow> (Inr (), st1)
      | (Inr True, st1) \<Rightarrow> run_loop env names st1)"

definition run_pipeline ::
  "run_env \<Rightarrow> string list \<Rightarrow> program \<Rightarrow> result_cache option \<Rightarrow> availability \<Rightarrow>
   execution_record list \<Rightarrow> execution_record list res \<times> run_state" where
  "run_pipeline env passes p cache avail execution_log =
     (case run_loop env passes
             \<lparr>rs_program = p, rs_cache = cache, rs_avail = avail, rs_local = [], rs_completed = [],
              rs_records = [], rs_log = execution_log\<rparr> of
        (Inl e, st) \<Rightarrow> (Inl e, st)
      | (Inr (), st) \<Rightarrow> (Inr (rs_records st), st))"

section \<open>Reasoning about a run\<close>

text \<open>A property of a run is a relation for each way it can end: normally with \<^verbatim>\<open>True\<close>,
  normally with \<^verbatim>\<open>False\<close>, and with an exception. It holds of \<open>execute\<close> and its loops if it
  holds of their parts.\<close>

fun outcome ::
  "('s \<Rightarrow> 's \<Rightarrow> bool) \<Rightarrow> ('s \<Rightarrow> 's \<Rightarrow> bool) \<Rightarrow> ('s \<Rightarrow> 's \<Rightarrow> bool) \<Rightarrow> 's \<Rightarrow> bool res \<times> 's \<Rightarrow> bool" where
  "outcome T F E st (Inr True, st') = T st st'"
| "outcome T F E st (Inr False, st') = F st st'"
| "outcome T F E st (Inl e, st') = E st st'"

lemma outcome_trans:
  assumes "T s t" "outcome T F E t r" "\<And>a b c. T a b \<Longrightarrow> T b c \<Longrightarrow> T a c"
    "\<And>a b c. T a b \<Longrightarrow> F b c \<Longrightarrow> F a c" "\<And>a b c. T a b \<Longrightarrow> E b c \<Longrightarrow> E a c"
  shows "outcome T F E s r"
  using assms by (cases "(T, F, E, t, r)" rule: outcome.cases) auto

locale run_relation =
  fixes env :: run_env
    and T F E :: "run_state \<Rightarrow> run_state \<Rightarrow> bool"
  assumes T_refl: "T st st" and E_refl: "E st st"
    and T_trans: "T s1 s2 \<Longrightarrow> T s2 s3 \<Longrightarrow> T s1 s3"
    and F_trans: "T s1 s2 \<Longrightarrow> F s2 s3 \<Longrightarrow> F s1 s3"
    and E_trans: "T s1 s2 \<Longrightarrow> E s2 s3 \<Longrightarrow> E s1 s3"
    and missing: "T st (snd (missing_loop ns st))"
    and stage: "outcome T F E st (run_stage env c automatic requested_by st)"
    and unstable: "F st (unstable_failure env c n automatic requested_by st)"
begin

lemma chain: "T s t \<Longrightarrow> outcome T F E t r \<Longrightarrow> outcome T F E s r"
  by (rule outcome_trans) (auto intro: T_trans F_trans E_trans)

lemma run_outcome:
  "env' = env \<Longrightarrow> outcome T F E st (execute env' resolving name automatic requested_by st)"
  "env' = env \<Longrightarrow> outcome T F E st (ordering_loop env' resolving c ps st)"
  "env' = env \<Longrightarrow> outcome T F E st
     (refresh_loop env' resolving c required refreshes automatic requested_by st)"
proof (induction env' resolving name automatic requested_by st
    and env' resolving c ps st
    and env' resolving c required refreshes automatic requested_by st
    rule: execute_ordering_loop_refresh_loop.induct)
  case (1 env' resolving name automatic requested_by st)
  show ?case
  proof (cases "resolve_pass_name (re_manager env') name")
    case (Inr c)
    show ?thesis
    proof (cases "c \<in> set resolving")
      case False
      show ?thesis
      proof (cases "iter_prerequisites (re_manager env') c True")
        case ps: (Inr ps)
        have o1: "outcome T F E st (ordering_loop env' (c # resolving) c ps st)"
          using 1(1)[OF Inr False ps] 1(3) by blast
        obtain r1 st1 where e1: "ordering_loop env' (c # resolving) c ps st = (r1, st1)" by fastforce
        show ?thesis
        proof (cases "r1 = Inr True")
          case True
          let ?rf = "refresh_loop env' (c # resolving) c
             (filter (\<lambda>n. pass_kind_is (re_manager env') n ANALYSIS) ps) (\<lambda>_. 0) automatic requested_by st1"
          have t1: "T st st1" using o1 e1 True by simp
          have o2: "outcome T F E st1 ?rf"
            using 1(2)[OF Inr False ps e1[symmetric] True] 1(3) by simp
          obtain r2 st2 where e2: "?rf = (r2, st2)" by fastforce
          show ?thesis
          proof (cases "r2 = Inr True")
            case True
            have "T st st2" using t1 o2 e2 True T_trans by auto
            then have "outcome T F E st (run_stage env' c automatic requested_by st2)"
              using stage 1(3) by (auto intro: chain)
            then show ?thesis using Inr False ps e1 e2 True \<open>r1 = Inr True\<close> by simp
          next
            case r2: False
            have "outcome T F E st (r2, st2)" using t1 o2 e2 by (auto intro: chain)
            then show ?thesis using Inr False ps e1 e2 r2 True
              by (auto split: sum.splits bool.splits)
          qed
        next
          case r1: False
          then show ?thesis using Inr False ps e1 o1 by (auto split: sum.splits bool.splits)
        qed
      qed (use Inr False E_refl in simp)
    qed (use Inr E_refl in simp)
  qed (use E_refl in simp)
next
  case (2 env' resolving c st)
  then show ?case by (simp add: T_refl)
next
  case (3 env' resolving c p ps st)
  show ?case
  proof (cases "\<not> pass_kind_is (re_manager env') p ANALYSIS \<and> p \<notin> set (rs_completed st)")
    case True
    obtain r1 st1 where e1: "execute env' resolving p True (Some c) st = (r1, st1)" by fastforce
    have o1: "outcome T F E st (r1, st1)" using 3(1)[OF True] 3(4) e1 by simp
    show ?thesis
    proof (cases "r1 = Inr True")
      case t: True
      then have "outcome T F E st1 (ordering_loop env' resolving c ps st1)"
        using 3(2)[OF True e1[symmetric] t] 3(4) by simp
      then have "outcome T F E st (ordering_loop env' resolving c ps st1)"
        using o1 t by (auto intro: chain)
      then show ?thesis using True e1 t by simp
    qed (use True e1 o1 in \<open>auto split: sum.splits bool.splits\<close>)
  next
    case False
    then show ?thesis using 3(3)[OF False] 3(4) by auto
  qed
next
  case (4 env' resolving c required refreshes automatic requested_by st)
  obtain ms st1 where m: "missing_loop required st = (ms, st1)" by fastforce
  have t1: "T st st1" using missing[of st required] m by simp
  show ?case
  proof (cases ms)
    case (Cons p qs)
    show ?thesis
    proof (cases "int (Suc (refreshes p)) > pm_max_refreshes (re_manager env')")
      case True
      have "F st (unstable_failure env' c p automatic requested_by st1)"
        using F_trans t1 unstable 4(3) by blast
      then show ?thesis using m Cons True by simp
    next
      case False
      obtain r2 st2 where e2: "execute env' resolving p True (Some c) st1 = (r2, st2)" by fastforce
      have o2: "outcome T F E st1 (r2, st2)"
        using 4(1)[OF m[symmetric] Cons False] 4(3) e2 by simp
      show ?thesis
      proof (cases "r2 = Inr True")
        case True
        have "outcome T F E st2
            (refresh_loop env' resolving c required (bump_refresh p refreshes) automatic requested_by st2)"
          using 4(2)[OF m[symmetric] Cons False e2[symmetric] True] 4(3) by simp
        then have "outcome T F E st
            (refresh_loop env' resolving c required (bump_refresh p refreshes) automatic requested_by st2)"
          using o2 True t1 by (auto intro: chain)
        then show ?thesis using m Cons False e2 True by simp
      next
        case r2: False
        have "outcome T F E st (r2, st2)" using chain t1 o2 by blast
        then show ?thesis using m Cons False e2 r2 by (auto split: sum.splits bool.splits)
      qed
    qed
  qed (use m t1 in simp)
qed

end

section \<open>Validity of the required analyses\<close>

definition valid_now :: "string \<Rightarrow> run_state \<Rightarrow> bool" where
  "valid_now n st \<longleftrightarrow>
     map_of (rs_local st) n = Some (rs_token st) \<or> avail.hit (rs_avail st) (rs_program st) n"

lemma rs_valid_spec:
  "fst (rs_valid n st) \<longleftrightarrow> valid_now n st"
  "valid_now m (snd (rs_valid n st)) \<longleftrightarrow> valid_now m st"
  "\<exists>a. snd (rs_valid n st) = st\<lparr>rs_avail := a\<rparr>"
proof -
  obtain b a where v: "is_valid (rs_avail st) (rs_program st) n = (b, a)" by fastforce
  have b: "b \<longleftrightarrow> avail.hit (rs_avail st) (rs_program st) n" using is_valid_hit v by (metis fst_conv)
  have a: "avail.hit a (rs_program st) m \<longleftrightarrow> avail.hit (rs_avail st) (rs_program st) m" for m
    using is_valid_cache v by (metis snd_conv)
  show "fst (rs_valid n st) \<longleftrightarrow> valid_now n st"
    using v b by (simp add: rs_valid_def valid_now_def)
  show "valid_now m (snd (rs_valid n st)) \<longleftrightarrow> valid_now m st"
    using v a by (simp add: rs_valid_def valid_now_def rs_token_def)
  have "snd (rs_valid n st) = st\<lparr>rs_avail := if map_of (rs_local st) n = Some (rs_token st)
      then rs_avail st else a\<rparr>"
    using v by (simp add: rs_valid_def)
  then show "\<exists>a. snd (rs_valid n st) = st\<lparr>rs_avail := a\<rparr>" ..
qed

lemma missing_loop_spec:
  "fst (missing_loop ns st) = filter (\<lambda>n. \<not> valid_now n st) ns \<and>
   (\<forall>m. valid_now m (snd (missing_loop ns st)) \<longleftrightarrow> valid_now m st) \<and>
   (\<exists>a. snd (missing_loop ns st) = st\<lparr>rs_avail := a\<rparr>)"
proof (induction ns arbitrary: st)
  case Nil
  have "st = st\<lparr>rs_avail := rs_avail st\<rparr>" by simp
  then show ?case by (auto intro: exI[of _ "rs_avail st"])
next
  case (Cons n ns)
  obtain b st' where v: "rs_valid n st = (b, st')" by fastforce
  obtain ms st'' where m: "missing_loop ns st' = (ms, st'')" by fastforce
  have b: "b \<longleftrightarrow> valid_now n st" "\<And>m. valid_now m st' \<longleftrightarrow> valid_now m st" "\<exists>a. st' = st\<lparr>rs_avail := a\<rparr>"
    using rs_valid_spec(1)[of n st] rs_valid_spec(2)[of _ n st] rs_valid_spec(3)[of n st] v by auto
  have "ms = filter (\<lambda>n. \<not> valid_now n st') ns" "\<And>m. valid_now m st'' \<longleftrightarrow> valid_now m st'"
    "\<exists>a. st'' = st'\<lparr>rs_avail := a\<rparr>"
    using Cons[of st'] m by auto
  then show ?case using v m b by auto
qed

declare execute.simps [simp del] refresh_loop.simps [simp del]

lemma refresh_loop_valid:
  "refresh_loop env resolving c required refreshes automatic requested_by st = (Inr True, st') \<Longrightarrow>
     n \<in> set required \<Longrightarrow> valid_now n st'"
proof (induction "refresh_budget env required refreshes" arbitrary: refreshes st rule: less_induct)
  case less
  note u = less.prems(1)[unfolded refresh_loop.simps[of env resolving c required refreshes automatic requested_by st]]
  obtain ms st1 where m: "missing_loop required st = (ms, st1)" by fastforce
  show ?case
  proof (cases ms)
    case Nil
    then have "filter (\<lambda>n. \<not> valid_now n st) required = []"
      using missing_loop_spec[THEN conjunct1, of required st] m by simp
    then have "valid_now n st" using less.prems(2) by (simp add: filter_empty_conv)
    moreover have "st' = st1" using u m Nil by simp
    ultimately show ?thesis
      using missing_loop_spec[THEN conjunct2, THEN conjunct1, of required st] m by simp
  next
    case (Cons p qs)
    have small: "int (Suc (refreshes p)) \<le> pm_max_refreshes (re_manager env)"
      by (rule ccontr) (use u m Cons in simp)
    obtain r2 st2 where e2: "execute env resolving p True (Some c) st1 = (r2, st2)" by fastforce
    have "r2 = Inr True"
    proof (cases r2)
      case (Inr b)
      then show ?thesis using u m Cons small e2 by (cases b) simp_all
    qed (use u m Cons small e2 in simp)
    then have next_run: "refresh_loop env resolving c required (bump_refresh p refreshes) automatic
        requested_by st2 = (Inr True, st')"
      using u m Cons small e2 by simp
    have "p \<in> set required" using missing_loop_subset[of required st] m Cons by simp
    from refresh_budget_decreases[where p = p and refreshes = refreshes, OF this small]
    show ?thesis using less.hyps[OF _ next_run less.prems(2)] by blast
  qed
qed

text \<open>What the steps of a stage leave alone.\<close>

lemma any_valid_frame:
  "\<exists>a. snd (any_valid ns st) = st\<lparr>rs_avail := a\<rparr>"
proof (induction ns arbitrary: st)
  case Nil
  have "st = st\<lparr>rs_avail := rs_avail st\<rparr>" by simp
  then show ?case by (auto intro: exI[of _ "rs_avail st"])
next
  case (Cons n ns)
  obtain b st' where v: "rs_valid n st = (b, st')" by fastforce
  then obtain a where a: "st' = st\<lparr>rs_avail := a\<rparr>" using rs_valid_spec(3)[of n st] by auto
  obtain a' where "snd (any_valid ns st') = st'\<lparr>rs_avail := a'\<rparr>" using Cons by blast
  then show ?case using v a by auto
qed

definition same_history :: "run_state \<Rightarrow> run_state \<Rightarrow> bool" where
  "same_history st st' \<longleftrightarrow> rs_completed st' = rs_completed st \<and> rs_records st' = rs_records st \<and>
     rs_log st' = rs_log st"

lemma same_history_simps [simp]:
  "same_history st st" "same_history st (st\<lparr>rs_program := p\<rparr>) "
  "same_history st (st\<lparr>rs_cache := c\<rparr>)" "same_history st (retire_failed_state st)"
  by (simp_all add: same_history_def retire_failed_state_def Let_def)

lemma same_history_trans: "same_history s t \<Longrightarrow> same_history t u \<Longrightarrow> same_history s u"
  by (simp add: same_history_def)

lemma stage_changed_history: "same_history st (stage_changed env c x y st)"
  by (auto simp: same_history_def stage_changed_def invalidate_dependent_passes_def Let_def
      split: option.splits)

lemma retire_history: "same_history st (snd (retire_analysis_dependents m c st))"
proof (cases "retire_loop m (session_key (rs_program st)) c ([], {session_key (rs_program st) c})")
  case (Inr retired)
  let ?st = "st\<lparr>rs_cache := map_option
     (\<lambda>k. fold (\<lambda>n k. cache_invalidate k (rs_program st) (Some n)) retired k) (rs_cache st)\<rparr>"
  let ?an = "filter (\<lambda>n. pass_kind_is m n ANALYSIS) retired"
  obtain b st' where av: "any_valid ?an ?st = (b, st')" by fastforce
  then have "same_history st st'" using any_valid_frame[of ?an ?st] by (auto simp: same_history_def)
  then show ?thesis
    using Inr av by (simp add: retire_analysis_dependents_def Let_def same_history_def)
qed (simp add: retire_analysis_dependents_def Let_def)

lemma stage_unchanged_history: "same_history st (snd (stage_unchanged env c x st))"
  using retire_history[of st "re_manager env" c]
  by (cases "retire_analysis_dependents (re_manager env) c st"; cases "fst (retire_analysis_dependents (re_manager env) c st)")
     (auto simp: stage_unchanged_def Let_def same_history_def)

section \<open>Only successes are cached\<close>

definition good_cache :: "result_cache \<Rightarrow> bool" where
  "good_cache c \<longleftrightarrow> (\<forall>p n t r. cache_entry c p n = Some (t, r) \<longrightarrow> pr_success r)"

definition cache_successes :: "run_state \<Rightarrow> bool" where
  "cache_successes st \<longleftrightarrow> (case rs_cache st of None \<Rightarrow> True | Some c \<Rightarrow> good_cache c)"

lemma good_cache_new [simp]: "good_cache cache_new"
  by (simp add: good_cache_def cache_new_def cache_entry_def cache_bucket_def split: key_support.splits)

lemma good_cache_get: "good_cache c \<Longrightarrow> good_cache (snd (cache_get version_token c p n))"
  by (auto simp: good_cache_def results.get_entry split: if_splits)

lemma good_cache_hit: "good_cache c \<Longrightarrow> fst (cache_get version_token c p n) = Some r \<Longrightarrow> pr_success r"
  unfolding good_cache_def results.result_entry by blast

lemma good_cache_put: "good_cache c \<Longrightarrow> pr_success r \<Longrightarrow> good_cache (cache_put version_token c p n r)"
  by (auto simp: good_cache_def results.put_entry split: if_splits)

lemma good_cache_discard: "good_cache c \<Longrightarrow> good_cache (cache_invalidate c p o')"
  by (auto simp: good_cache_def results.discard_entry split: if_splits)

lemma good_cache_rebase: "good_cache c \<Longrightarrow> good_cache (cache_rebase version_token c p n t)"
  by (auto simp: good_cache_def results.rebase_entry split: if_splits option.splits)

lemma good_cache_fold:
  "good_cache c \<Longrightarrow> (\<And>n c. good_cache c \<Longrightarrow> good_cache (f n c)) \<Longrightarrow> good_cache (fold f ns c)"
  by (induction ns arbitrary: c) auto

lemma good_cache_rebase_or_drop:
  "good_cache c \<Longrightarrow> good_cache (rebase_or_drop version_token keep p t c)"
  unfolding rebase_or_drop_def
  by (rule good_cache_fold) (simp_all add: good_cache_rebase good_cache_discard)

lemma successes_retire_failed: "cache_successes st \<Longrightarrow> cache_successes (retire_failed_state st)"
  by (auto simp: cache_successes_def retire_failed_state_def Let_def good_cache_discard
      split: option.splits)

lemma successes_changed: "cache_successes st \<Longrightarrow> cache_successes (stage_changed env c x y st)"
  by (auto simp: cache_successes_def stage_changed_def invalidate_dependent_passes_def Let_def
      good_cache_rebase_or_drop split: option.splits)

lemma successes_retire: "cache_successes st \<Longrightarrow> cache_successes (snd (retire_analysis_dependents m c st))"
proof (cases "retire_loop m (session_key (rs_program st)) c ([], {session_key (rs_program st) c})")
  case (Inr retired)
  assume cs: "cache_successes st"
  let ?st = "st\<lparr>rs_cache := map_option
     (\<lambda>k. fold (\<lambda>n k. cache_invalidate k (rs_program st) (Some n)) retired k) (rs_cache st)\<rparr>"
  let ?an = "filter (\<lambda>n. pass_kind_is m n ANALYSIS) retired"
  obtain b st' where av: "any_valid ?an ?st = (b, st')" by fastforce
  then have "rs_cache st' = rs_cache ?st" using any_valid_frame[of ?an ?st] by auto
  moreover have "cache_successes ?st"
    using cs by (auto simp: cache_successes_def intro!: good_cache_fold good_cache_discard split: option.splits)
  ultimately show ?thesis
    using Inr av by (simp add: retire_analysis_dependents_def Let_def cache_successes_def)
qed (simp add: retire_analysis_dependents_def Let_def)

lemma successes_unchanged:
  assumes "cache_successes st" "pr_success x" shows "cache_successes (snd (stage_unchanged env c x st))"
proof -
  have put: "cache_successes (s\<lparr>rs_cache := map_option (\<lambda>k. cache_put version_token k p c x) (rs_cache s)\<rparr>)"
    if "cache_successes s" for s p
    using that assms(2) by (auto simp: cache_successes_def good_cache_put split: option.splits)
  obtain r st' where rt: "retire_analysis_dependents (re_manager env) c st = (r, st')" by fastforce
  have st': "cache_successes st'" using successes_retire[OF assms(1), of "re_manager env" c] rt by simp
  then have "cache_successes (st'\<lparr>rs_avail := a, rs_local := l\<rparr>)" for a l
    by (simp add: cache_successes_def)
  from put[OF this] put[OF assms(1)] rt st' show ?thesis
    by (cases r) (simp_all add: stage_unchanged_def Let_def)
qed

lemma successes_missing: "cache_successes (snd (missing_loop ns st)) = cache_successes st"
proof -
  obtain a where "snd (missing_loop ns st) = st\<lparr>rs_avail := a\<rparr>" using missing_loop_spec by blast
  then show ?thesis by (simp add: cache_successes_def)
qed

section \<open>The history of a run\<close>

text \<open>The records a step adds: numbered on from the existing ones.\<close>

definition adds_records :: "run_env \<Rightarrow> execution_record list \<Rightarrow> run_state \<Rightarrow> run_state \<Rightarrow> bool" where
  "adds_records env new st st' \<longleftrightarrow>
     rs_records st' = rs_records st @ new \<and> rs_log st' = rs_log st @ new \<and>
     (\<forall>r \<in> set new. er_run_id r = re_run_id env) \<and>
     map er_sequence new = map (\<lambda>i. length (rs_records st) + i + 1) [0..<length new]"

definition run_true :: "run_env \<Rightarrow> run_state \<Rightarrow> run_state \<Rightarrow> bool" where
  "run_true env st st' \<longleftrightarrow> set (rs_completed st) \<subseteq> set (rs_completed st') \<and>
     (cache_successes st \<longrightarrow> cache_successes st') \<and>
     (\<exists>new. adds_records env new st st' \<and> (cache_successes st \<longrightarrow> list_all er_success new))"

definition no_entries :: "('t, 'r) pass_cache \<Rightarrow> program \<Rightarrow> bool" where
  "no_entries c p \<longleftrightarrow> (\<forall>n. cache_entry c p n = None)"

definition retired_state :: "run_state \<Rightarrow> bool" where
  "retired_state st \<longleftrightarrow>
     rs_local st = [] \<and> no_entries (rs_avail st) (rs_program st) \<and>
     (case rs_cache st of None \<Rightarrow> True | Some c \<Rightarrow> no_entries c (rs_program st)) \<and>
     (case pg_model (rs_program st) of
        WithSession c se \<Rightarrow> se_entries se = [] \<and> fs_snapshots (ct_facts c) = []
      | _ \<Rightarrow> True)"

definition run_false :: "run_env \<Rightarrow> run_state \<Rightarrow> run_state \<Rightarrow> bool" where
  "run_false env st st' \<longleftrightarrow> set (rs_completed st) \<subseteq> set (rs_completed st') \<and> retired_state st' \<and>
     (cache_successes st \<longrightarrow> cache_successes st') \<and>
     (\<exists>new r. adds_records env (new @ [r]) st st' \<and>
        (cache_successes st \<longrightarrow> list_all er_success new) \<and> \<not> er_success r)"

lemma map_upt_add: "map f [0..<a + b] = map f [0..<a] @ map (\<lambda>i. f (a + i)) [0..<b]"
  by (induction b) auto

lemma adds_records_trans:
  assumes "adds_records env xs s t" "adds_records env ys t u"
  shows "adds_records env (xs @ ys) s u"
proof -
  have "map er_sequence (xs @ ys) = map (\<lambda>i. length (rs_records s) + i + 1) [0..<length xs + length ys]"
    using assms by (simp add: adds_records_def map_upt_add add.assoc)
  then show ?thesis using assms by (auto simp: adds_records_def)
qed

lemma same_history_adds: "same_history st t \<Longrightarrow> adds_records env xs t st' \<Longrightarrow> adds_records env xs st st'"
  by (simp add: same_history_def adds_records_def)

lemma record_run_fields [simp]:
  "rs_program (record_run env c r b k a q st) = rs_program st"
  "rs_cache (record_run env c r b k a q st) = rs_cache st"
  "rs_avail (record_run env c r b k a q st) = rs_avail st"
  "rs_local (record_run env c r b k a q st) = rs_local st"
  "rs_completed (record_run env c r b k a q st) = rs_completed st"
  by (simp_all add: record_run_def Let_def)

lemma record_run_adds:
  "\<exists>x. adds_records env [x] st (record_run env c r b k a q st) \<and> er_success x = pr_success r"
  by (simp add: adds_records_def record_run_def Let_def)

lemma no_entries_discard [simp]: "same_object p q \<Longrightarrow> no_entries (cache_invalidate c p None) q"
  by (auto simp: no_entries_def cache_entry_def cache_invalidate_def bucket_same split: option.splits)
     (metis bucket_same bucket_set bucket_storable option.distinct(1))

lemma retire_all_snapshots: "retained_snapshots {} d = []"
  by (auto simp: retained_snapshots_def filter_empty_conv)

lemma retire_failed_state_retired: "retired_state (retire_failed_state st)"
proof -
  have "case pg_model (with_session (mark_changed []) p) of
          WithSession c se \<Rightarrow> se_entries se = [] \<and> fs_snapshots (ct_facts c) = [] | _ \<Rightarrow> True" for p
  proof (cases "pg_model p")
    case (WithSession c se)
    have "fs_snapshots (retain_producers (ct_facts c) {}) = []"
      by (simp add: retain_producers_def Let_def retire_all_snapshots bump_both_def)
    then show ?thesis using WithSession
      by (simp add: with_session_def mark_changed_eq Let_def results_retain_def advance_ir_revision_def)
  qed (simp_all add: with_session_def)
  then show ?thesis by (auto simp: retired_state_def retire_failed_state_def Let_def split: option.splits)
qed

lemma retired_record [simp]: "retired_state (record_run env c r b k a q st) = retired_state st"
  by (cases "rs_cache st") (simp_all add: retired_state_def)

lemma run_true_refl [simp]: "run_true env st st"
  unfolding run_true_def by (intro conjI exI[of _ "[]"]) (auto simp: adds_records_def)

lemma run_true_trans: "run_true env s t \<Longrightarrow> run_true env t u \<Longrightarrow> run_true env s u"
proof -
  assume "run_true env s t" "run_true env t u"
  then obtain xs ys where "adds_records env xs s t" "cache_successes s \<longrightarrow> list_all er_success xs"
    "adds_records env ys t u" "cache_successes t \<longrightarrow> list_all er_success ys"
    "set (rs_completed s) \<subseteq> set (rs_completed u)" "cache_successes s \<longrightarrow> cache_successes t"
    "cache_successes t \<longrightarrow> cache_successes u"
    by (auto simp: run_true_def)
  then show ?thesis unfolding run_true_def
    using adds_records_trans[of env xs s t ys u] by (intro conjI exI[of _ "xs @ ys"]) auto
qed

lemma run_false_trans: "run_true env s t \<Longrightarrow> run_false env t u \<Longrightarrow> run_false env s u"
proof -
  assume "run_true env s t" "run_false env t u"
  then obtain xs ys r where "adds_records env xs s t" "cache_successes s \<longrightarrow> list_all er_success xs"
    "adds_records env (ys @ [r]) t u" "cache_successes t \<longrightarrow> list_all er_success ys" "\<not> er_success r"
    "set (rs_completed s) \<subseteq> set (rs_completed u)" "retired_state u"
    "cache_successes s \<longrightarrow> cache_successes t" "cache_successes t \<longrightarrow> cache_successes u"
    by (auto simp: run_true_def run_false_def)
  then show ?thesis unfolding run_false_def
    using adds_records_trans[of env xs s t "ys @ [r]" u]
    by (intro conjI exI[of _ "xs @ ys"] exI[of _ r]) auto
qed

lemma run_true_history:
  "same_history st t \<Longrightarrow> (cache_successes st \<longrightarrow> cache_successes t) \<Longrightarrow> run_true env st t"
  unfolding run_true_def same_history_def
  by (intro conjI exI[of _ "[]"]) (auto simp: adds_records_def)

lemma unstable_run_false: "run_false env st (unstable_failure env c n a q st)"
proof -
  obtain x where x: "adds_records env [x] (retire_failed_state st) (unstable_failure env c n a q st)"
    "\<not> er_success x"
    using record_run_adds[of env "retire_failed_state st" c "from_exception ''RuntimeError''
      (Unstable c n (pm_max_refreshes (re_manager env)))"]
    by (simp add: unstable_failure_def Let_def from_exception_def) metis
  have "retired_state (unstable_failure env c n a q st)"
    by (simp add: unstable_failure_def Let_def retire_failed_state_retired)
  moreover have "rs_completed (unstable_failure env c n a q st) = rs_completed st"
    by (simp add: unstable_failure_def Let_def retire_failed_state_def)
  moreover have "cache_successes st \<longrightarrow> cache_successes (unstable_failure env c n a q st)"
    using successes_retire_failed[of st]
    by (simp add: unstable_failure_def Let_def cache_successes_def)
  ultimately show ?thesis unfolding run_false_def
    using same_history_adds[OF same_history_simps(4) x(1)] x(2)
    by (intro conjI exI[of _ "[]"] exI[of _ x]) auto
qed

lemma finish_stage_outcome:
  assumes "same_history st t" "\<not> pr_success r \<Longrightarrow> retired_state t"
    and cs: "cache_successes st \<longrightarrow> cache_successes t"
  shows "outcome (run_true env) (run_false env) (run_true env) st (finish_stage env c r b a q t)"
proof -
  obtain x where x: "adds_records env [x] t (record_run env c r b False a q t)" "er_success x = pr_success r"
    using record_run_adds by blast
  note h = same_history_adds[OF assms(1) x(1)]
  show ?thesis
  proof (cases "pr_success r")
    case True
    have "adds_records env [x] st (snd (finish_stage env c r b a q t))"
      using h True by (simp add: finish_stage_def Let_def adds_records_def)
    then have "run_true env st (snd (finish_stage env c r b a q t))"
      unfolding run_true_def using True assms(1) x(2) cs
      by (intro conjI exI[of _ "[x]"])
         (auto simp: finish_stage_def Let_def same_history_def cache_successes_def)
    then show ?thesis using True by (simp add: finish_stage_def Let_def)
  next
    case False
    have "run_false env st (snd (finish_stage env c r b a q t))"
      unfolding run_false_def using False assms x(2) h
      by (intro conjI exI[of _ "[]"] exI[of _ x])
         (auto simp: finish_stage_def Let_def same_history_def cache_successes_def)
    then show ?thesis using False by (simp add: finish_stage_def Let_def)
  qed
qed

lemma stage_hit_true:
  assumes "same_history st t" "cache_successes st \<longrightarrow> pr_success r" "cache_successes st \<longrightarrow> cache_successes t"
  shows "run_true env st (stage_hit env c r b a q t) \<and> c \<in> set (rs_completed (stage_hit env c r b a q t))"
proof -
  define t1 where "t1 = (if pass_kind_is (re_manager env) c ANALYSIS
     then t\<lparr>rs_avail := mark_valid (rs_avail t) (rs_program t) c,
            rs_local := AList.update c (rs_token t) (rs_local t)\<rparr> else t)"
  define t2 where "t2 = t1\<lparr>rs_completed := add_new c (rs_completed t1)\<rparr>"
  have hit: "stage_hit env c r b a q t = record_run env c r b True a q t2"
    by (simp add: stage_hit_def t1_def t2_def Let_def)
  obtain x where x: "adds_records env [x] t2 (record_run env c r b True a q t2)"
    "er_success x = pr_success r"
    using record_run_adds by metis
  have t2: "rs_records t2 = rs_records st" "rs_log t2 = rs_log st"
    "rs_completed t2 = add_new c (rs_completed st)" "rs_cache t2 = rs_cache t"
    using assms(1) by (simp_all add: t1_def t2_def same_history_def)
  then have "adds_records env [x] st (stage_hit env c r b a q t)"
    "rs_completed (stage_hit env c r b a q t) = add_new c (rs_completed st)"
    "rs_cache (stage_hit env c r b a q t) = rs_cache t"
    using x(1) by (simp_all add: hit adds_records_def)
  then show ?thesis unfolding run_true_def using x(2) assms(2,3)
    by (auto simp: cache_successes_def intro!: exI[of _ "[x]"])
qed

lemma run_stage_outcome:
  "outcome (run_true env) (run_false env) (run_true env) st (run_stage env c a q st)"
  "run_stage env c a q st = (Inr True, st') \<Longrightarrow> c \<in> set (rs_completed st')"
proof -
  define look where "look = (case rs_cache st of None \<Rightarrow> (None, st)
     | Some k \<Rightarrow> (case cache_get version_token k (rs_program st) c of
                   (r, k) \<Rightarrow> (r, st\<lparr>rs_cache := Some k\<rparr>)))"
  obtain cached st1 where l: "look = (cached, st1)" by fastforce
  have h1: "same_history st st1" "rs_program st1 = rs_program st"
    using l by (auto simp: look_def same_history_def split: option.splits prod.splits)
  have c1: "cache_successes st \<longrightarrow> cache_successes st1"
    using l good_cache_get
    by (auto simp: look_def cache_successes_def split: option.splits prod.splits) (metis snd_conv)
  have c2: "cache_successes st \<longrightarrow> pr_success r" if "cached = Some r" for r
    using l that good_cache_hit
    by (auto simp: look_def cache_successes_def split: option.splits prod.splits) (metis fst_conv)
  let ?b = "pg_revision (rs_program st)"
  obtain result p where r: "run_pass env c (rs_program st1) = (result, p)" by fastforce
  let ?bc = "map_option (\<lambda>_. version_token (rs_program st1)) (rs_cache st1)"
  let ?st2 = "st1\<lparr>rs_program := p\<rparr>"
  have h2: "same_history st ?st2" using h1 by (simp add: same_history_def)
  have c3: "cache_successes st \<longrightarrow> cache_successes ?st2" using c1 by (simp add: cache_successes_def)
  have eq: "run_stage env c a q st =
     (case cached of
        Some result \<Rightarrow> (Inr True, stage_hit env c result ?b a q st1)
      | None \<Rightarrow>
          if \<not> pr_success result then finish_stage env c result ?b a q (retire_failed_state ?st2)
          else if pr_changed result then
            finish_stage env c result ?b a q (stage_changed env c ?bc (rs_token st1) ?st2)
          else (case stage_unchanged env c result ?st2 of
                  (Inl e, st) \<Rightarrow> (Inl e, st)
                | (Inr (), st) \<Rightarrow> finish_stage env c result ?b a q st))"
    using l r by (cases cached) (simp_all add: run_stage_def Let_def look_def)
  let ?O = "outcome (run_true env) (run_false env) (run_true env) st"
  have fin: "finish_stage env c x b a q t = (Inr True, st') \<Longrightarrow> c \<in> set (rs_completed st')" for x b t st'
    by (auto simp: finish_stage_def Let_def split: if_splits)
  have all: "?O (run_stage env c a q st) \<and>
      (\<forall>st'. run_stage env c a q st = (Inr True, st') \<longrightarrow> c \<in> set (rs_completed st'))"
  proof (cases cached)
    case (Some x)
    show ?thesis using stage_hit_true[OF h1(1) c2[OF Some] c1, of env c ?b a q] Some eq by simp
  next
    case None
    consider "\<not> pr_success result" | "pr_success result" "pr_changed result"
      | "pr_success result" "\<not> pr_changed result" by blast
    then show ?thesis
    proof cases
      case 1
      have "?O (finish_stage env c result ?b a q (retire_failed_state ?st2))"
        using same_history_trans[OF h2] c3 retire_failed_state_retired successes_retire_failed
        by (intro finish_stage_outcome) auto
      then show ?thesis using eq None 1 fin by auto
    next
      case 2
      have "?O (finish_stage env c result ?b a q (stage_changed env c ?bc (rs_token st1) ?st2))"
        using same_history_trans[OF h2 stage_changed_history] c3 successes_changed 2
        by (intro finish_stage_outcome) auto
      then show ?thesis using eq None 2 fin by auto
    next
      case 3
      obtain u t where u: "stage_unchanged env c result ?st2 = (u, t)" by fastforce
      have t: "same_history st t" "cache_successes st \<longrightarrow> cache_successes t"
        using same_history_trans[OF h2 stage_unchanged_history[of ?st2 env c result]] c3 u
          successes_unchanged[of ?st2 result env c] 3 by auto
      have o3: "?O (finish_stage env c result ?b a q t)"
        using t 3 by (intro finish_stage_outcome) auto
      show ?thesis
      proof (cases u)
        case (Inl e)
        have "run_stage env c a q st = (Inl e, t)" using eq None 3 u Inl by simp
        then show ?thesis using run_true_history[OF t, of env] by simp
      next
        case (Inr v)
        have e: "run_stage env c a q st = finish_stage env c result ?b a q t"
          using eq None 3 u Inr by (simp split: unit.splits)
        show ?thesis unfolding e using o3 fin by blast
      qed
    qed
  qed
  from all show "?O (run_stage env c a q st)" by (rule conjunct1)
  from all show "run_stage env c a q st = (Inr True, st') \<Longrightarrow> c \<in> set (rs_completed st')" by blast
qed

interpretation history: run_relation env "run_true env" "run_false env" "run_true env"
  for env
proof
  show "run_true env st (snd (missing_loop ns st))" for st ns
  proof (rule run_true_history)
    show "same_history st (snd (missing_loop ns st))"
      using missing_loop_spec[of ns st] by (auto simp: same_history_def)
  qed (simp add: successes_missing)
qed (auto intro: run_true_trans run_false_trans run_stage_outcome unstable_run_false)

lemma execute_completed:
  assumes "execute env resolving name a q st = (Inr True, st')" "resolve_pass_name (re_manager env) name = Inr c"
  shows "c \<in> set (rs_completed st')"
  using assms run_stage_outcome(2)[of env c a q _ st']
  by (auto simp: execute.simps[of env resolving name a q st] split: sum.splits bool.splits if_splits prod.splits)

lemma ordering_loop_completed:
  assumes "ordering_loop env resolving c ps st = (Inr True, st')" "aliases_ok (re_manager env)"
    "p \<in> set ps" "\<not> pass_kind_is (re_manager env) p ANALYSIS" "set ps \<subseteq> registered (re_manager env)"
  shows "p \<in> set (rs_completed st')"
  using assms
proof (induction ps arbitrary: st)
  case (Cons x xs)
  have mono: "set (rs_completed s) \<subseteq> set (rs_completed st')"
    if "ordering_loop env resolving c xs s = (Inr True, st')" for s
    using history.run_outcome(2)[of env env s resolving c xs] that by (simp add: run_true_def)
  show ?case
  proof (cases "\<not> pass_kind_is (re_manager env) x ANALYSIS \<and> x \<notin> set (rs_completed st)")
    case True
    obtain r s where e: "execute env resolving x True (Some c) st = (r, s)" by fastforce
    have "r = Inr True"
    proof (cases r)
      case (Inr b)
      then show ?thesis using Cons.prems(1) True e by (cases b) simp_all
    qed (use Cons.prems(1) True e in simp)
    then have rest: "ordering_loop env resolving c xs s = (Inr True, st')" and "x \<in> set (rs_completed s)"
      using Cons.prems(1,5) True e execute_completed[of env resolving x True "Some c" st s x] by simp_all
    then show ?thesis using Cons.IH[OF rest] Cons.prems mono[OF rest] by auto
  next
    case False
    then have rest: "ordering_loop env resolving c xs st = (Inr True, st')" using Cons.prems(1) by auto
    then show ?thesis using Cons.IH[OF rest] Cons.prems mono[OF rest] False by auto
  qed
qed simp

section \<open>What a run guarantees\<close>

text \<open>C12: no stage starts before its prerequisites are met. When \<open>execute\<close> succeeds, the
  stage of the pass (its cache hit or the run of its body) started in a state in which every
  analysis it requires or depends on was valid at that very version of the program, however
  the refreshes invalidated one another, and every other prerequisite had completed.\<close>

theorem execute_requirements:
  assumes "pm_wf (re_manager env)"
    and "execute env resolving name automatic requested_by st = (Inr True, st')"
  shows "\<exists>c ps st2. resolve_pass_name (re_manager env) name = Inr c \<and>
    iter_prerequisites (re_manager env) c True = Inr ps \<and>
    list_all (\<lambda>p. if pass_kind_is (re_manager env) p ANALYSIS then valid_now p st2
                  else p \<in> set (rs_completed st2)) ps \<and>
    run_stage env c automatic requested_by st2 = (Inr True, st') \<and> c \<in> set (rs_completed st')"
proof -
  note u = assms(2)[unfolded execute.simps[of env resolving name automatic requested_by st]]
  note al = wf_aliases[OF assms(1)]
  obtain c where c: "resolve_pass_name (re_manager env) name = Inr c" "c \<notin> set resolving"
    using u by (auto split: sum.splits if_splits)
  obtain ps where ps: "iter_prerequisites (re_manager env) c True = Inr ps"
    using u c by (auto split: sum.splits)
  obtain r1 st1 where o: "ordering_loop env (c # resolving) c ps st = (r1, st1)" by fastforce
  let ?req = "filter (\<lambda>n. pass_kind_is (re_manager env) n ANALYSIS) ps"
  obtain r2 st2 where r: "refresh_loop env (c # resolving) c ?req (\<lambda>_. 0) automatic requested_by st1 = (r2, st2)"
    by fastforce
  have r1: "r1 = Inr True"
  proof (cases r1)
    case (Inr b)
    then show ?thesis using u c ps o by (cases b) simp_all
  qed (use u c ps o in simp)
  have r2: "r2 = Inr True"
  proof (cases r2)
    case (Inr b)
    then show ?thesis using u c ps o r r1 by (cases b) simp_all
  qed (use u c ps o r r1 in simp)
  have stage: "run_stage env c automatic requested_by st2 = (Inr True, st')" using u c ps o r r1 r2 by simp
  have mono: "set (rs_completed st1) \<subseteq> set (rs_completed st2)"
    using history.run_outcome(3)[of env env st1 "c # resolving" c ?req "\<lambda>_. 0" automatic requested_by] r r2
    by (simp add: run_true_def)
  have "if pass_kind_is (re_manager env) p ANALYSIS then valid_now p st2 else p \<in> set (rs_completed st2)"
    if p: "p \<in> set ps" for p
  proof (cases "pass_kind_is (re_manager env) p ANALYSIS")
    case True
    then show ?thesis using refresh_loop_valid[OF r[unfolded r2]] p by simp
  next
    case False
    then have "p \<in> set (rs_completed st1)"
      using ordering_loop_completed[OF o[unfolded r1] al p] iter_set_registered[OF al ps] by simp
    then show ?thesis using False mono by auto
  qed
  then have "list_all (\<lambda>p. if pass_kind_is (re_manager env) p ANALYSIS then valid_now p st2
                  else p \<in> set (rs_completed st2)) ps" by (simp only: list_all_iff) blast
  then show ?thesis using c(1) ps stage run_stage_outcome(2)[OF stage] by blast
qed

definition example_env :: run_env where
  "example_env =
     \<lparr>re_manager = example_manager, re_run_id = 1, re_body = (\<lambda>n p. (Returned (pass_ok False PyNone), p))\<rparr>"

definition example_start :: run_state where
  "example_start =
     \<lparr>rs_program = program_new 0 0 default_options, rs_cache = None, rs_avail = cache_new, rs_local = [],
      rs_completed = [], rs_records = [], rs_log = []\<rparr>"

theorem execute_requirements_witness:
  "pm_wf (re_manager example_env) \<and>
   (\<exists>st' st2. execute example_env [] ''cpa'' False None example_start = (Inr True, st') \<and>
     valid_now ''ipa'' st2 \<and> run_stage example_env ''cpa'' False None st2 = (Inr True, st'))"
proof -
  have w: "pm_wf (re_manager example_env)" by code_simp
  have "fst (execute example_env [] ''cpa'' False None example_start) = Inr True" by code_simp
  then obtain st' where e: "execute example_env [] ''cpa'' False None example_start = (Inr True, st')"
    by (metis prod.collapse)
  have c: "resolve_pass_name (re_manager example_env) ''cpa'' = Inr ''cpa''"
    "iter_prerequisites (re_manager example_env) ''cpa'' True = Inr [''ipa'']"
    "pass_kind_is (re_manager example_env) ''ipa'' ANALYSIS" by code_simp+
  from execute_requirements[OF w e] w e c show ?thesis by auto
qed

lemma run_loop_outcome:
  "case run_loop env names st of
     (Inl e, st') \<Rightarrow> run_true env st st'
   | (Inr _, st') \<Rightarrow> (run_true env st st' \<and> list_all (\<lambda>n. \<exists>c. resolve_pass_name (re_manager env) n = Inr c \<and>
        c \<in> set (rs_completed st')) names) \<or> run_false env st st'"
proof (induction names arbitrary: st)
  case (Cons n ns)
  obtain r st1 where e: "execute env [] n False None st = (r, st1)" by fastforce
  have o: "outcome (run_true env) (run_false env) (run_true env) st (r, st1)"
    using history.run_outcome(1)[of env env st "[]" n False None] e by simp
  consider (err) x where "r = Inl x" | (stop) "r = Inr False" | (go) "r = Inr True" by (cases r) auto
  then show ?case
  proof cases
    case go
    have t: "run_true env st st1" using o go by simp
    obtain c where c: "resolve_pass_name (re_manager env) n = Inr c"
      using e go by (auto simp: execute.simps[of env "[]" n] split: sum.splits)
    have d: "c \<in> set (rs_completed st1)" using execute_completed e go c by blast
    obtain r2 st2 where l: "run_loop env ns st1 = (r2, st2)" by fastforce
    have h: "run_loop env (n # ns) st = (r2, st2)" using e go l by simp
    have "set (rs_completed st1) \<subseteq> set (rs_completed st2)" if "run_true env st1 st2"
      using that by (simp add: run_true_def)
    then show ?thesis using Cons[of st1] l h c d run_true_trans[OF t] run_false_trans[OF t]
      by (cases r2) auto
  qed (use e o in simp_all)
qed simp

text \<open>C11: the history of a run. The records of a run that ends without an exception carry its
  run id and are numbered from one without gaps, in the order they are also appended to the
  execution log. Either all of them are successes and every requested pass has completed, or
  exactly the last one is a failure; then everything the failed pass may have left stale has
  been retired: no cached result, no validity mark, no solver result and no published fact
  of the program survives.\<close>

theorem run_pipeline_history:
  assumes "case cache of None \<Rightarrow> True | Some c \<Rightarrow> good_cache c"
    and "run_pipeline env passes p cache avail log = (Inr records, st)"
  shows "rs_log st = log @ records \<and> map er_sequence records = [1..<length records + 1] \<and>
    list_all (\<lambda>r. er_run_id r = re_run_id env) records \<and>
    ((list_all er_success records \<and>
      list_all (\<lambda>n. \<exists>c. resolve_pass_name (re_manager env) n = Inr c \<and> c \<in> set (rs_completed st)) passes) \<or>
     (records \<noteq> [] \<and> list_all er_success (butlast records) \<and> \<not> er_success (last records) \<and>
      retired_state st))"
proof -
  let ?s = "\<lparr>rs_program = p, rs_cache = cache, rs_avail = avail, rs_local = [], rs_completed = [],
              rs_records = [], rs_log = log\<rparr>"
  have cs: "cache_successes ?s" using assms(1) by (simp add: cache_successes_def)
  obtain r0 s0 where e: "run_loop env passes ?s = (r0, s0)" by fastforce
  have l: "run_loop env passes ?s = (Inr (), st) \<and> records = rs_records st"
    using assms(2) e by (cases r0) (auto simp: run_pipeline_def split: unit.splits)
  then have rec: "records = rs_records st" ..
  have num: "map er_sequence new = [1..<length new + 1]" if "adds_records env new ?s st" for new
  proof -
    have "map (\<lambda>i. i + 1) [0..<k] = [1..<k + 1]" for k by (induction k) simp_all
    then show ?thesis using that by (simp add: adds_records_def)
  qed
  from run_loop_outcome[where env = env and names = passes and st = "?s"] conjunct1[OF l] consider
    (good) new where "adds_records env new ?s st" "list_all er_success new"
      "list_all (\<lambda>n. \<exists>c. resolve_pass_name (re_manager env) n = Inr c \<and> c \<in> set (rs_completed st)) passes"
  | (bad) new r where "adds_records env (new @ [r]) ?s st" "list_all er_success new" "\<not> er_success r"
      "retired_state st"
    using cs by (auto simp: run_true_def run_false_def)
  then show ?thesis
  proof cases
    case good
    then show ?thesis using num[OF good(1)] rec by (auto simp: adds_records_def list_all_iff)
  next
    case bad
    then show ?thesis using num[OF bad(1)] rec by (auto simp: adds_records_def list_all_iff)
  qed
qed

theorem run_pipeline_history_witness:
  "\<exists>records st. run_pipeline example_env [''ipa'', ''cpa''] (program_new 0 0 default_options) None cache_new [] =
      (Inr records, st) \<and> map er_sequence records = [1, 2]"
proof -
  let ?r = "run_pipeline example_env [''ipa'', ''cpa''] (program_new 0 0 default_options) None cache_new []"
  have "(case ?r of (Inr records, st) \<Rightarrow> length records = 2 | _ \<Rightarrow> False)" by code_simp
  then obtain records st where r: "?r = (Inr records, st)" "length records = 2"
    by (cases ?r; cases "fst ?r") auto
  from run_pipeline_history[OF _ r(1)] r show ?thesis by (auto simp: upt_rec)
qed

section \<open>Retirement and preservation\<close>

lemma pass_names_entry: "n \<notin> set (cache_pass_names c p) \<Longrightarrow> cache_entry c p n = None"
  by (auto simp: cache_pass_names_def cache_entry_def map_of_eq_None_iff split: option.splits)

lemma rebase_or_drop_entry:
  "cache_entry (rebase_or_drop tok keep p t c) p n =
     (if keep n then case cache_entry c p n of None \<Rightarrow> None
                     | Some (t', r) \<Rightarrow> if t' = t then Some (tok p, r) else None
      else None)"
proof -
  have "distinct (cache_pass_names c p)" by (simp add: cache_pass_names_def split: option.splits)
  from versioned_store.fold_entry[OF cache_versioned, where keep = keep and p = p and q = p and m = n
      and tok = tok and t = t and c = c, OF this]
  show ?thesis using pass_names_entry[of n c p] by (auto simp: rebase_or_drop_def)
qed

lemma rebase_or_drop_hit:
  "avail.hit (rebase_or_drop availability_token keep p t c) p n \<longleftrightarrow>
     keep n \<and> (\<exists>r. cache_entry c p n = Some (t, r))"
  by (auto simp: avail.hit_iff rebase_or_drop_entry split: option.splits)

lemma any_valid_hit:
  "avail.hit (rs_avail (snd (any_valid ns st))) (rs_program st) m \<longleftrightarrow>
     avail.hit (rs_avail st) (rs_program st) m"
proof (induction ns arbitrary: st)
  case (Cons n ns)
  obtain b st' where v: "rs_valid n st = (b, st')" by fastforce
  obtain b' a where i: "is_valid (rs_avail st) (rs_program st) n = (b', a)" by fastforce
  have "avail.hit a (rs_program st) m \<longleftrightarrow> avail.hit (rs_avail st) (rs_program st) m"
    using is_valid_cache i by (metis snd_conv)
  then have "rs_program st' = rs_program st"
    "avail.hit (rs_avail st') (rs_program st) m \<longleftrightarrow> avail.hit (rs_avail st) (rs_program st) m"
    using v i by (auto simp: rs_valid_def split: if_splits)
  then show ?case using Cons[of st'] v by simp
qed simp

text \<open>The passes that depend on a producer through analyses.\<close>

inductive dependent :: "pass_manager \<Rightarrow> (string \<Rightarrow> string) \<Rightarrow> string \<Rightarrow> string \<Rightarrow> bool"
  for self key producer where
  direct: "n \<in> registered self \<Longrightarrow> key n \<noteq> key producer \<Longrightarrow> analysis_inputs self key n = Inr ins \<Longrightarrow>
    key producer \<in> ins \<Longrightarrow> dependent self key producer n"
| indirect: "dependent self key producer m \<Longrightarrow> pass_kind_is self m ANALYSIS \<Longrightarrow>
    n \<in> registered self \<Longrightarrow> key n \<noteq> key producer \<Longrightarrow> analysis_inputs self key n = Inr ins \<Longrightarrow>
    key m \<in> ins \<Longrightarrow> dependent self key producer n"

definition retire_inv ::
  "pass_manager \<Rightarrow> (string \<Rightarrow> string) \<Rightarrow> string \<Rightarrow> string list \<Rightarrow> string set \<Rightarrow> bool" where
  "retire_inv self key producer retired inputs \<longleftrightarrow>
     (\<forall>n \<in> set retired. dependent self key producer n) \<and>
     inputs = insert (key producer) (key ` {m \<in> set retired. pass_kind_is self m ANALYSIS})"

lemma retire_sweep_inv:
  assumes "retire_sweep self key producer xs (retired, inputs, added) = Inr (retired', inputs', added')"
    "retire_inv self key producer retired inputs" "set xs \<subseteq> set (pm_passes self)"
    "distinct (map fst (pm_passes self))"
  shows "retire_inv self key producer retired' inputs'"
  using assms
proof (induction xs arbitrary: retired inputs added)
  case (Cons x xs)
  obtain name info where x: "x = (name, info)" by fastforce
  have m: "map_of (pm_passes self) name = Some info" "name \<in> registered self"
    using Cons.prems(3,4) x by (force simp: registered_def)+
  show ?case
  proof (cases "name \<in> set retired \<or> key name = key producer")
    case True
    then show ?thesis using Cons x by (auto split: if_splits)
  next
    case False
    then obtain ins where ins: "analysis_inputs self key name = Inr ins"
      using Cons.prems(1) x by (auto simp: bind_res_eq_Inr)
    show ?thesis
    proof (cases "ins \<inter> inputs = {}")
      case True
      then show ?thesis using Cons x False ins by simp
    next
      case no: False
      let ?i = "if pi_kind info = ANALYSIS then insert (key name) inputs else inputs"
      have d: "dependent self key producer name"
        using no Cons.prems(2) ins m(2) False
        by (auto simp: retire_inv_def intro: direct indirect)
      have "retire_inv self key producer (retired @ [name]) ?i"
        using Cons.prems(2) d m(1) by (auto simp: retire_inv_def pass_kind_is_def)
      moreover have "retire_sweep self key producer xs (retired @ [name], ?i, True) = Inr (retired', inputs', added')"
        using Cons.prems(1) x False ins no by simp
      ultimately show ?thesis using Cons.IH Cons.prems(3,4) by auto
    qed
  qed
qed simp

lemma retire_sweep_stable:
  assumes "retire_sweep self key producer xs (retired, inputs, False) = Inr (retired', inputs', False)"
    "(name, info) \<in> set xs"
  shows "name \<in> set retired \<or> key name = key producer \<or>
    (\<exists>ins. analysis_inputs self key name = Inr ins \<and> ins \<inter> inputs = {})"
  using assms
proof (induction xs)
  case (Cons x xs)
  obtain n i where x: "x = (n, i)" by fastforce
  show ?case
  proof (cases "n \<in> set retired \<or> key n = key producer")
    case True
    then show ?thesis using Cons x by auto
  next
    case False
    then obtain ins where ins: "analysis_inputs self key n = Inr ins"
      using Cons.prems(1) x by (auto simp: bind_res_eq_Inr)
    have "ins \<inter> inputs = {}"
    proof (rule ccontr)
      assume "ins \<inter> inputs \<noteq> {}"
      then have "retire_sweep self key producer xs (retired @ [n],
          if pi_kind i = ANALYSIS then insert (key n) inputs else inputs, True) = Inr (retired', inputs', False)"
        using Cons.prems(1) x False ins by simp
      from retire_sweep_grows[OF this] show False by simp
    qed
    then show ?thesis using Cons x False ins by auto
  qed
qed simp

lemma retire_loop_closure:
  assumes "retire_loop self key producer (retired, inputs) = Inr out"
    "retire_inv self key producer retired inputs" "distinct (map fst (pm_passes self))"
  shows "set out = {n. dependent self key producer n}"
  using assms
proof (induction self key producer "(retired, inputs)" arbitrary: retired inputs rule: retire_loop.induct)
  case (1 self key producer retired inputs)
  obtain r i added where s: "retire_sweep self key producer (pm_passes self) (retired, inputs, False) =
      Inr (r, i, added)"
    using 1(2) by (subst (asm) retire_loop.simps) (auto split: sum.splits)
  have inv: "retire_inv self key producer r i" using retire_sweep_inv[OF s 1(3) _ 1(4)] by simp
  show ?case
  proof (cases added)
    case True
    then have "retire_loop self key producer (r, i) = Inr out"
      using 1(2) s by (subst (asm) retire_loop.simps) simp
    then show ?thesis using 1(1)[OF s refl refl True] inv 1(4) by simp
  next
    case False
    have out: "out = r" using 1(2) s False by (subst (asm) retire_loop.simps) simp
    have same: "r = retired" "i = inputs" using retire_sweep_grows[OF s] False by auto
    have s': "retire_sweep self key producer (pm_passes self) (retired, inputs, False) = Inr (r, i, False)"
      using s False by simp
    have "n \<in> set r" if "dependent self key producer n" for n
      using that
    proof (induction rule: dependent.induct)
      case (direct n ins)
      obtain info where "(n, info) \<in> set (pm_passes self)" using direct(1) by (auto simp: registered_def)
      from retire_sweep_stable[OF s' this] direct inv same
      show ?case by (auto simp: retire_inv_def)
    next
      case (indirect m n ins)
      obtain info where "(n, info) \<in> set (pm_passes self)" using indirect(3) by (auto simp: registered_def)
      from retire_sweep_stable[OF s' this] indirect inv same
      show ?case by (auto simp: retire_inv_def)
    qed
    then show ?thesis using inv out by (auto simp: retire_inv_def)
  qed
qed

lemma with_session_session_key [simp]: "session_key (with_session f p) = session_key p"
  by (auto simp: session_key_def with_session_def split: model.splits prod.splits)

lemma invalidate_no_result:
  assumes "n \<in> set ns" "pg_session p \<noteq> None"
  shows "\<not> has_result (with_session (invalidate_results ns) p) (analysis_key n)"
proof (cases "pg_model p")
  case (WithSession c se)
  have gone: "map_of (fold AList.delete ks d) k = None" if "k \<in> set ks" for k ks and d :: "(string \<times> 'b) list"
    using that
  proof (induction ks arbitrary: d)
    case (Cons x ks)
    have "map_of d k = None \<Longrightarrow> map_of (fold AList.delete ks d) k = None" for d :: "(string \<times> 'b) list"
      by (induction ks arbitrary: d) (simp_all add: delete_conv')
    then show ?case using Cons by (cases "x = k") (simp_all add: delete_conv')
  qed simp
  show ?thesis using WithSession assms(1)
    by (simp add: has_result_def with_session_def invalidate_results_def Let_def results_invalidate_def
        results_getitem_def gone)
qed (use assms in simp_all)

text \<open>C13: a recomputed analysis retires what was derived from its old result, and nothing
  else. \<open>_retire_analysis_dependents\<close> retires exactly the passes that depend on the producer
  through a chain of analyses, whatever names the analyses go by; afterwards none of these has
  a valid mark, a cached result or, for an analysis, a solver result, and the validity of
  every other analysis is what it was.\<close>

theorem retire_dependents_correct:
  assumes "pm_wf m" "retire_analysis_dependents m producer st = (Inr retired, st')"
  shows "set retired = {n. dependent m (session_key (rs_program st)) producer n} \<and>
    (\<forall>n. avail.hit (rs_avail st') (rs_program st') n \<longleftrightarrow>
         \<not> (n \<in> set retired \<and> pass_kind_is m n ANALYSIS) \<and> avail.hit (rs_avail st) (rs_program st) n) \<and>
    (\<forall>n c. n \<in> set retired \<and> rs_cache st' = Some c \<longrightarrow> cache_entry c (rs_program st') n = None) \<and>
    (\<forall>n. n \<in> set retired \<and> pass_kind_is m n ANALYSIS \<longrightarrow>
         \<not> has_result (rs_program st') (session_key (rs_program st) n))"
proof -
  let ?key = "session_key (rs_program st)"
  obtain out where out: "retire_loop m ?key producer ([], {?key producer}) = Inr out"
    using assms(2) by (cases "retire_loop m ?key producer ([], {?key producer})")
      (simp_all add: retire_analysis_dependents_def Let_def)
  let ?st = "st\<lparr>rs_cache := map_option
     (\<lambda>k. fold (\<lambda>n k. cache_invalidate k (rs_program st) (Some n)) out k) (rs_cache st)\<rparr>"
  let ?an = "filter (\<lambda>n. pass_kind_is m n ANALYSIS) out"
  obtain b s1 where av: "any_valid ?an ?st = (b, s1)" by fastforce
  obtain a where s1: "s1 = ?st\<lparr>rs_avail := a\<rparr>" using any_valid_frame[of ?an ?st] av by auto
  define active where "active = (b \<or> list_ex (\<lambda>n. has_result (rs_program st) (?key n)) ?an)"
  define p where "p = (if active then with_session (invalidate_results ?an) (rs_program st) else rs_program st)"
  define a' where "a' = rebase_or_drop availability_token (\<lambda>n. n \<notin> set ?an) p (rs_token st) a"
  have res: "retired = out" "st' = s1\<lparr>rs_program := p, rs_avail := a'\<rparr>"
    using assms(2) out av s1
    by (auto simp: retire_analysis_dependents_def Let_def active_def p_def a'_def rs_token_def
        cong: if_cong split del: if_split)
  have same: "same_object (rs_program st) p" by (simp add: p_def)
  have "distinct (map fst (pm_passes m))" using assms(1) by (simp add: pm_wf_def)
  moreover have "retire_inv m ?key producer [] {?key producer}" by (simp add: retire_inv_def)
  ultimately have closure: "set out = {n. dependent m ?key producer n}"
    using retire_loop_closure[OF out] by blast
  have ha: "avail.hit a (rs_program st) n \<longleftrightarrow> avail.hit (rs_avail st) (rs_program st) n" for n
    using any_valid_hit[of ?an ?st n] av s1 by simp
  have hit: "avail.hit a' p n \<longleftrightarrow>
      \<not> (n \<in> set out \<and> pass_kind_is m n ANALYSIS) \<and> avail.hit (rs_avail st) (rs_program st) n" for n
  proof -
    have "avail.hit a' p n \<longleftrightarrow> n \<notin> set ?an \<and> (\<exists>r. cache_entry a p n = Some (rs_token st, r))"
      unfolding a'_def by (rule rebase_or_drop_hit)
    moreover have "(\<exists>r. cache_entry a p n = Some (rs_token st, r)) \<longleftrightarrow> avail.hit a (rs_program st) n"
      unfolding avail.hit_iff rs_token_def using avail.entry_same[OF same, of a] by simp
    ultimately show ?thesis using ha by auto
  qed
  have cache: "cache_entry c p n = None" if "n \<in> set out" "rs_cache st' = Some c" for n c
    using that results.fold_discard_entry[where p = "rs_program st" and q = p and ns = out and m = n] same
    by (auto simp: res s1)
  have no: "\<not> has_result p (?key n)" if "n \<in> set out" "pass_kind_is m n ANALYSIS" for n
  proof (cases active)
    case True
    show ?thesis
    proof (cases "pg_session (rs_program st) = None")
      case True
      then show ?thesis
        by (auto simp: has_result_def p_def with_session_def split: model.splits)
    next
      case False
      then have "?key = analysis_key" by (auto simp: session_key_def)
      then show ?thesis using invalidate_no_result[OF _ False, of n ?an] that \<open>active\<close>
        by (simp add: p_def)
    qed
  next
    case False
    then show ?thesis using that by (auto simp: active_def p_def list_ex_iff)
  qed
  show ?thesis using closure hit cache no by (simp add: res s1)
qed

theorem retire_dependents_correct_witness:
  "\<exists>retired st'. pm_wf example_manager \<and>
     retire_analysis_dependents example_manager ''ipa'' example_start = (Inr retired, st') \<and>
     set retired = {''cpa'', ''dce''} \<and> dependent example_manager analysis_key ''ipa'' ''dce''"
proof -
  have w: "pm_wf example_manager" by code_simp
  have "fst (retire_analysis_dependents example_manager ''ipa'' example_start) = Inr [''cpa'', ''dce'']"
    by code_simp
  then obtain st' where r: "retire_analysis_dependents example_manager ''ipa'' example_start =
      (Inr [''cpa'', ''dce''], st')" by (metis prod.collapse)
  have "session_key (rs_program example_start) = analysis_key"
    by (simp add: session_key_def example_start_def program_new_def)
  then have "''dce'' \<in> {n. dependent example_manager analysis_key ''ipa'' n}"
    using retire_dependents_correct[OF w r] by (metis insert_iff list.set(2))
  then show ?thesis using w r by auto
qed

lemma map_of_rebased_local:
  "map_of (map (\<lambda>(n, t). (n, f t)) (filter (\<lambda>(n, t). n \<in> A) l)) n =
     (if n \<in> A then map_option f (map_of l n) else None)"
  by (induction l) auto

text \<open>C28: a transformation keeps exactly the analyses it promises to preserve. After the stage
  of a pass that changed the program, an analysis outside its preserved set is invalid, and a
  preserved one is valid at the new version if it was valid at the version the pass started
  from.\<close>

theorem stage_changed_preserves:
  assumes "map_of (pm_passes (re_manager env)) c = Some info"
  shows "(n \<notin> set (preserved_by (re_manager env) info (rs_program st)) \<longrightarrow>
            \<not> valid_now n (stage_changed env c bc before st)) \<and>
    (n \<in> set (preserved_by (re_manager env) info (rs_program st)) \<and>
       (map_of (rs_local st) n = Some before \<or>
        (\<exists>r. cache_entry (rs_avail st) (rs_program st) n = Some (before, r))) \<longrightarrow>
     valid_now n (stage_changed env c bc before st))"
proof -
  let ?P = "preserved_by (re_manager env) info (rs_program st)"
  let ?p = "with_session (mark_changed ?P) (rs_program st)"
  let ?s = "stage_changed env c bc before st"
  let ?tok = "availability_token ?p"
  have f: "rs_program ?s = ?p"
    "rs_avail ?s = rebase_or_drop availability_token (\<lambda>n. n \<in> set ?P) ?p before (rs_avail st)"
    "rs_local ?s = map (\<lambda>(n, t). (n, if t = before then ?tok else t))
       (filter (\<lambda>(n, t). n \<in> set ?P) (rs_local st))"
    by (simp_all add: stage_changed_def assms invalidate_dependent_passes_def Let_def rs_token_def)
  have l: "map_of (rs_local ?s) n = (if n \<in> set ?P
       then map_option (\<lambda>t. if t = before then ?tok else t) (map_of (rs_local st) n) else None)"
    unfolding f(3) by (rule map_of_rebased_local)
  have tok: "rs_token ?s = ?tok" by (simp add: rs_token_def f(1))
  have same: "cache_entry (rs_avail st) ?p = cache_entry (rs_avail st) (rs_program st)"
    by (rule avail.entry_same) simp
  have hit: "avail.hit (rs_avail ?s) (rs_program ?s) n \<longleftrightarrow>
      n \<in> set ?P \<and> (\<exists>r. cache_entry (rs_avail st) (rs_program st) n = Some (before, r))"
    unfolding f(1,2) rebase_or_drop_hit same ..
  show ?thesis
  proof (intro conjI impI)
    show "\<not> valid_now n ?s" if "n \<notin> set ?P" using that l hit by (simp add: valid_now_def)
    assume "n \<in> set ?P \<and> (map_of (rs_local st) n = Some before \<or>
      (\<exists>r. cache_entry (rs_avail st) (rs_program st) n = Some (before, r)))"
    then consider "n \<in> set ?P" "map_of (rs_local st) n = Some before"
      | "n \<in> set ?P" "\<exists>r. cache_entry (rs_avail st) (rs_program st) n = Some (before, r)" by blast
    then show "valid_now n ?s"
    proof cases
      case 1
      then show ?thesis using l tok by (simp add: valid_now_def)
    next
      case 2
      then show ?thesis using hit by (simp add: valid_now_def)
    qed
  qed
qed

theorem stage_changed_preserves_witness:
  "map_of (pm_passes (re_manager example_env)) ''dce'' =
     Some ((mk_pass ''dce'' OPTIMIZATION)\<lparr>pi_requirements := [''cpa''], pi_invalidates := [''cpa'']\<rparr>) \<and>
   \<not> valid_now ''cpa'' (stage_changed example_env ''dce'' None (rs_token example_start)
        (example_start\<lparr>rs_local := [(''cpa'', rs_token example_start)]\<rparr>))"
proof -
  have i: "map_of (pm_passes (re_manager example_env)) ''dce'' =
     Some ((mk_pass ''dce'' OPTIMIZATION)\<lparr>pi_requirements := [''cpa''], pi_invalidates := [''cpa'']\<rparr>)"
    by (simp add: example_env_def example_manager_def)
  have "''cpa'' \<notin> set (preserved_by (re_manager example_env)
      ((mk_pass ''dce'' OPTIMIZATION)\<lparr>pi_requirements := [''cpa''], pi_invalidates := [''cpa'']\<rparr>)
      (rs_program (example_start\<lparr>rs_local := [(''cpa'', rs_token example_start)]\<rparr>)))"
    by code_simp
  with stage_changed_preserves[OF i] i show ?thesis by blast
qed

end
