(* ===== verification/Supergraphs.thy ===== *)
theory Supergraphs
  imports PyBase "HOL-Library.AList"
begin

text \<open>
  The interprocedural supergraph, \<^verbatim>\<open>analysis/ifds/core/supergraph.py\<close>: its builder, its
  queries and its invariant.

  A Python dict is an association list in insertion order when its order or size is
  observed (the identifier tables and the two ownership tables), a map otherwise; a set is a
  list without duplicates, whose order no query shows: every list a query returns is sorted
  by identifier. A \<^verbatim>\<open>defaultdict\<close> of sets is a map read with \<open>get_list\<close>. The builder
  methods return the exception they raise and the graph they leave, since a method that
  raises may already have changed it.
\<close>

section \<open>The graph\<close>

record ('p, 'n) supergraph =
  sg_procedure_ids :: "('p \<times> nat) list"
  sg_node_ids :: "('n \<times> nat) list"
  sg_entries :: "('p \<times> 'n) list"
  sg_exits :: "'p \<rightharpoonup> 'n list"
  sg_nodes_by_proc :: "'p \<rightharpoonup> 'n list"
  sg_node_to_proc :: "('n \<times> 'p) list"
  sg_normal_succs :: "'n \<rightharpoonup> 'n list"
  sg_callees_by_call :: "'n \<rightharpoonup> 'p list"
  sg_return_sites_by_call :: "'n \<rightharpoonup> 'n list"
  sg_call_to_return_succs :: "'n \<rightharpoonup> 'n list"
  sg_callers_by_proc :: "'p \<rightharpoonup> 'n list"

definition sg_new :: "('p, 'n) supergraph" where
  "sg_new =
     \<lparr>sg_procedure_ids = [], sg_node_ids = [], sg_entries = [], sg_exits = Map.empty,
      sg_nodes_by_proc = Map.empty, sg_node_to_proc = [], sg_normal_succs = Map.empty,
      sg_callees_by_call = Map.empty, sg_return_sites_by_call = Map.empty,
      sg_call_to_return_succs = Map.empty, sg_callers_by_proc = Map.empty\<rparr>"

text \<open>\<^verbatim>\<open>d[k].add(v)\<close> on a \<^verbatim>\<open>defaultdict(set)\<close>.\<close>

definition set_add :: "'k \<Rightarrow> 'v \<Rightarrow> ('k \<rightharpoonup> 'v list) \<Rightarrow> ('k \<rightharpoonup> 'v list)" where
  "set_add k v m = m(k \<mapsto> add_new v (get_list m k))"

lemma get_list_set_add [simp]:
  "x \<in> set (get_list (set_add k v m) k') \<longleftrightarrow> k' = k \<and> x = v \<or> x \<in> set (get_list m k')"
  "distinct (get_list (set_add k v m) k') \<longleftrightarrow> distinct (get_list m k')"
  "get_list (set_add k v m) k' = [] \<longleftrightarrow> k' \<noteq> k \<and> get_list m k' = []"
  "set_add k v m k' = None \<longleftrightarrow> k' \<noteq> k \<and> m k' = None"
  by (auto simp: set_add_def add_new_def)

text \<open>Two builder calls in a row: the second one runs only when the first did not raise.\<close>

definition and_then :: "unit res \<times> 's \<Rightarrow> ('s \<Rightarrow> unit res \<times> 's) \<Rightarrow> unit res \<times> 's" where
  "and_then m f = (case m of (Inl e, s) \<Rightarrow> (Inl e, s) | (Inr _, s) \<Rightarrow> f s)"

lemma and_then_simps [simp]: "and_then (Inl e, s) f = (Inl e, s)" "and_then (Inr u, s) f = f s"
  by (simp_all add: and_then_def)

lemma and_then_Inr:
  "and_then m f = (Inr u, s') \<longleftrightarrow> (\<exists>s. m = (Inr (), s) \<and> f s = (Inr u, s'))"
  by (cases m; cases "fst m") (auto simp: and_then_def split: sum.splits)

section \<open>The builder\<close>

definition known_node :: "('p, 'n) supergraph \<Rightarrow> 'n \<Rightarrow> bool" where
  "known_node g n \<longleftrightarrow> map_of (sg_node_to_proc g) n \<noteq> None"

definition known_procedure :: "('p, 'n) supergraph \<Rightarrow> 'p \<Rightarrow> bool" where
  "known_procedure g p \<longleftrightarrow> map_of (sg_entries g) p \<noteq> None"

definition require_known_node :: "'n \<Rightarrow> ('p, 'n) supergraph \<Rightarrow> unit res \<times> ('p, 'n) supergraph" where
  "require_known_node n g = (if known_node g n then (Inr (), g) else (Inl SupergraphError, g))"

definition procedure_of :: "('p, 'n) supergraph \<Rightarrow> 'n \<Rightarrow> 'p res" where
  "procedure_of g n = (case map_of (sg_node_to_proc g) n of None \<Rightarrow> Inl KeyError | Some p \<Rightarrow> Inr p)"

definition add_node :: "'p \<Rightarrow> 'n \<Rightarrow> ('p, 'n) supergraph \<Rightarrow> unit res \<times> ('p, 'n) supergraph" where
  "add_node procedure node g =
     (if \<not> known_procedure g procedure then (Inl SupergraphError, g)
      else let existing = map_of (sg_node_to_proc g) node in
        if existing \<noteq> None \<and> existing \<noteq> Some procedure then (Inl SupergraphError, g)
        else (Inr (), g\<lparr>sg_node_to_proc := AList.update node procedure (sg_node_to_proc g),
                        sg_node_ids := (if map_of (sg_node_ids g) node = None
                           then sg_node_ids g @ [(node, length (sg_node_ids g))]
                           else sg_node_ids g),
                        sg_nodes_by_proc := set_add procedure node (sg_nodes_by_proc g)\<rparr>))"

definition add_exit :: "'p \<Rightarrow> 'n \<Rightarrow> ('p, 'n) supergraph \<Rightarrow> unit res \<times> ('p, 'n) supergraph" where
  "add_exit procedure node g =
     and_then (add_node procedure node g)
       (\<lambda>g. (Inr (), g\<lparr>sg_exits := set_add procedure node (sg_exits g)\<rparr>))"

fun add_exits :: "'p \<Rightarrow> 'n list \<Rightarrow> ('p, 'n) supergraph \<Rightarrow> unit res \<times> ('p, 'n) supergraph" where
  "add_exits procedure [] g = (Inr (), g)"
| "add_exits procedure (n # ns) g = and_then (add_exit procedure n g) (add_exits procedure ns)"

definition add_procedure ::
  "'p \<Rightarrow> 'n \<Rightarrow> 'n list \<Rightarrow> ('p, 'n) supergraph \<Rightarrow> unit res \<times> ('p, 'n) supergraph" where
  "add_procedure procedure entry exits g =
     (if known_procedure g procedure then (Inl SupergraphError, g)
      else and_then
        (add_node procedure entry
          (g\<lparr>sg_procedure_ids := AList.update procedure (length (sg_procedure_ids g)) (sg_procedure_ids g),
             sg_entries := AList.update procedure entry (sg_entries g)\<rparr>))
        (add_exits procedure exits))"

definition add_normal_edge :: "'n \<Rightarrow> 'n \<Rightarrow> ('p, 'n) supergraph \<Rightarrow> unit res \<times> ('p, 'n) supergraph" where
  "add_normal_edge source target g =
     and_then (require_known_node source g) (\<lambda>g. and_then (require_known_node target g) (\<lambda>g.
       if procedure_of g source \<noteq> procedure_of g target then (Inl SupergraphError, g)
       else (Inr (), g\<lparr>sg_normal_succs := set_add source target (sg_normal_succs g)\<rparr>)))"

definition add_return_site :: "'n \<Rightarrow> 'n \<Rightarrow> ('p, 'n) supergraph \<Rightarrow> unit res \<times> ('p, 'n) supergraph" where
  "add_return_site call_node return_site g =
     and_then (require_known_node call_node g) (\<lambda>g. and_then (require_known_node return_site g) (\<lambda>g.
       if procedure_of g call_node \<noteq> procedure_of g return_site then (Inl SupergraphError, g)
       else (Inr (), g\<lparr>sg_return_sites_by_call := set_add call_node return_site (sg_return_sites_by_call g),
                      sg_call_to_return_succs := set_add call_node return_site (sg_call_to_return_succs g)\<rparr>)))"

definition add_call_edge ::
  "'n \<Rightarrow> 'p \<Rightarrow> 'n option \<Rightarrow> ('p, 'n) supergraph \<Rightarrow> unit res \<times> ('p, 'n) supergraph" where
  "add_call_edge call_node callee return_site g =
     and_then (require_known_node call_node g) (\<lambda>g.
       if \<not> known_procedure g callee then (Inl SupergraphError, g)
       else let g = g\<lparr>sg_callees_by_call := set_add call_node callee (sg_callees_by_call g),
                      sg_callers_by_proc := set_add callee call_node (sg_callers_by_proc g)\<rparr>
            in case return_site of None \<Rightarrow> (Inr (), g) | Some r \<Rightarrow> add_return_site call_node r g)"

section \<open>The queries\<close>

definition procedure_id :: "('p, 'n) supergraph \<Rightarrow> 'p \<Rightarrow> nat res" where
  "procedure_id g p = (case map_of (sg_procedure_ids g) p of None \<Rightarrow> Inl KeyError | Some i \<Rightarrow> Inr i)"

definition node_id :: "('p, 'n) supergraph \<Rightarrow> 'n \<Rightarrow> nat res" where
  "node_id g n = (case map_of (sg_node_ids g) n of None \<Rightarrow> Inl KeyError | Some i \<Rightarrow> Inr i)"

text \<open>The keys of the \<^verbatim>\<open>sorted\<close> calls. Everything a query sorts has an identifier, so
  the last branch is never taken (\<open>sg_ok\<close> below).\<close>

definition procedure_key :: "('p, 'n) supergraph \<Rightarrow> 'p \<Rightarrow> nat" where
  "procedure_key g p = (case procedure_id g p of Inr i \<Rightarrow> i | Inl _ \<Rightarrow> 0)"

definition node_key :: "('p, 'n) supergraph \<Rightarrow> 'n \<Rightarrow> nat" where
  "node_key g n = (case node_id g n of Inr i \<Rightarrow> i | Inl _ \<Rightarrow> 0)"

definition ordered_procedures :: "('p, 'n) supergraph \<Rightarrow> 'p list" where
  "ordered_procedures g = sort_key (procedure_key g) (map fst (sg_entries g))"

definition procedures :: "('p, 'n) supergraph \<Rightarrow> 'p set" where
  "procedures g = fst ` set (sg_entries g)"

definition entry_of :: "('p, 'n) supergraph \<Rightarrow> 'p \<Rightarrow> 'n res" where
  "entry_of g p = (case map_of (sg_entries g) p of None \<Rightarrow> Inl KeyError | Some n \<Rightarrow> Inr n)"

definition exits_of :: "('p, 'n) supergraph \<Rightarrow> 'p \<Rightarrow> 'n set" where
  "exits_of g p = set (get_list (sg_exits g) p)"

definition ordered_exits_of :: "('p, 'n) supergraph \<Rightarrow> 'p \<Rightarrow> 'n list" where
  "ordered_exits_of g p = sort_key (node_key g) (get_list (sg_exits g) p)"

definition nodes_of :: "('p, 'n) supergraph \<Rightarrow> 'p \<Rightarrow> 'n set" where
  "nodes_of g p = set (get_list (sg_nodes_by_proc g) p)"

definition ordered_nodes_of :: "('p, 'n) supergraph \<Rightarrow> 'p \<Rightarrow> 'n list" where
  "ordered_nodes_of g p = sort_key (node_key g) (get_list (sg_nodes_by_proc g) p)"

definition sg_nodes :: "('p, 'n) supergraph \<Rightarrow> 'n set" where
  "sg_nodes g = fst ` set (sg_node_to_proc g)"

definition ordered_nodes :: "('p, 'n) supergraph \<Rightarrow> 'n list" where
  "ordered_nodes g = sort_key (node_key g) (map fst (sg_node_to_proc g))"

definition normal_successors :: "('p, 'n) supergraph \<Rightarrow> 'n \<Rightarrow> 'n set" where
  "normal_successors g n = set (get_list (sg_normal_succs g) n)"

definition ordered_normal_successors :: "('p, 'n) supergraph \<Rightarrow> 'n \<Rightarrow> 'n list" where
  "ordered_normal_successors g n = sort_key (node_key g) (get_list (sg_normal_succs g) n)"

definition callees_of_call_at :: "('p, 'n) supergraph \<Rightarrow> 'n \<Rightarrow> 'p set" where
  "callees_of_call_at g n = set (get_list (sg_callees_by_call g) n)"

definition ordered_callees_of_call_at :: "('p, 'n) supergraph \<Rightarrow> 'n \<Rightarrow> 'p list" where
  "ordered_callees_of_call_at g n = sort_key (procedure_key g) (get_list (sg_callees_by_call g) n)"

definition callers_of :: "('p, 'n) supergraph \<Rightarrow> 'p \<Rightarrow> 'n set" where
  "callers_of g p = set (get_list (sg_callers_by_proc g) p)"

definition ordered_callers_of :: "('p, 'n) supergraph \<Rightarrow> 'p \<Rightarrow> 'n list" where
  "ordered_callers_of g p = sort_key (node_key g) (get_list (sg_callers_by_proc g) p)"

definition return_sites_of_call_at :: "('p, 'n) supergraph \<Rightarrow> 'n \<Rightarrow> 'n set" where
  "return_sites_of_call_at g n = set (get_list (sg_return_sites_by_call g) n)"

definition ordered_return_sites_of_call_at :: "('p, 'n) supergraph \<Rightarrow> 'n \<Rightarrow> 'n list" where
  "ordered_return_sites_of_call_at g n = sort_key (node_key g) (get_list (sg_return_sites_by_call g) n)"

definition call_to_return_successors :: "('p, 'n) supergraph \<Rightarrow> 'n \<Rightarrow> 'n set" where
  "call_to_return_successors g n = set (get_list (sg_call_to_return_succs g) n)"

definition ordered_call_to_return_successors :: "('p, 'n) supergraph \<Rightarrow> 'n \<Rightarrow> 'n list" where
  "ordered_call_to_return_successors g n = sort_key (node_key g) (get_list (sg_call_to_return_succs g) n)"

definition is_call_node :: "('p, 'n) supergraph \<Rightarrow> 'n \<Rightarrow> bool" where
  "is_call_node g n \<longleftrightarrow> sg_callees_by_call g n \<noteq> None"

definition is_exit_node :: "('p, 'n) supergraph \<Rightarrow> 'n \<Rightarrow> bool" where
  "is_exit_node g n =
     (case map_of (sg_node_to_proc g) n of
        None \<Rightarrow> False
      | Some p \<Rightarrow> n \<in> set (get_list (sg_exits g) p))"

section \<open>The invariant\<close>

text \<open>An identifier table of the keys \<open>ks\<close>: consecutive numbers in registration order.\<close>

definition numbers :: "('a \<times> nat) list \<Rightarrow> 'a list \<Rightarrow> bool" where
  "numbers ids ks \<longleftrightarrow> distinct ks \<and> map fst ids = ks \<and> map snd ids = [0..<length ks]"

definition sg_tables :: "('p, 'n) supergraph \<Rightarrow> bool" where
  "sg_tables g \<longleftrightarrow>
     numbers (sg_node_ids g) (map fst (sg_node_to_proc g)) \<and>
     numbers (sg_procedure_ids g) (map fst (sg_entries g)) \<and>
     (\<forall>n p. map_of (sg_node_to_proc g) n = Some p \<longrightarrow> known_procedure g p) \<and>
     (\<forall>p n. n \<in> nodes_of g p \<longleftrightarrow> map_of (sg_node_to_proc g) n = Some p) \<and>
     (\<forall>p n. n \<in> exits_of g p \<longrightarrow> map_of (sg_node_to_proc g) n = Some p)"

definition same_owner :: "('p, 'n) supergraph \<Rightarrow> 'n \<Rightarrow> 'n \<Rightarrow> bool" where
  "same_owner g n m \<longleftrightarrow>
     (\<exists>p. map_of (sg_node_to_proc g) n = Some p \<and> map_of (sg_node_to_proc g) m = Some p)"

definition sg_edges :: "('p, 'n) supergraph \<Rightarrow> bool" where
  "sg_edges g \<longleftrightarrow>
     (\<forall>n m. m \<in> normal_successors g n \<longrightarrow> same_owner g n m) \<and>
     (\<forall>n m. m \<in> return_sites_of_call_at g n \<longrightarrow> same_owner g n m) \<and>
     sg_call_to_return_succs g = sg_return_sites_by_call g \<and>
     (\<forall>n p. p \<in> callees_of_call_at g n \<longrightarrow> known_node g n \<and> known_procedure g p) \<and>
     (\<forall>n p. p \<in> callees_of_call_at g n \<longleftrightarrow> n \<in> callers_of g p) \<and>
     (\<forall>n. is_call_node g n \<longleftrightarrow> callees_of_call_at g n \<noteq> {})"

definition sg_lists :: "('p, 'n) supergraph \<Rightarrow> bool" where
  "sg_lists g \<longleftrightarrow>
     (\<forall>p. distinct (get_list (sg_exits g) p) \<and> distinct (get_list (sg_nodes_by_proc g) p) \<and>
          distinct (get_list (sg_callers_by_proc g) p)) \<and>
     (\<forall>n. distinct (get_list (sg_normal_succs g) n) \<and> distinct (get_list (sg_callees_by_call g) n) \<and>
          distinct (get_list (sg_return_sites_by_call g) n))"

definition sg_ok :: "('p, 'n) supergraph \<Rightarrow> bool" where
  "sg_ok g \<longleftrightarrow> sg_tables g \<and> sg_edges g \<and> sg_lists g"

text \<open>Every procedure owns its entry.\<close>

definition sg_owned :: "('p, 'n) supergraph \<Rightarrow> bool" where
  "sg_owned g \<longleftrightarrow> (\<forall>p n. map_of (sg_entries g) p = Some n \<longrightarrow> map_of (sg_node_to_proc g) n = Some p)"

definition sg_wf :: "('p, 'n) supergraph \<Rightarrow> bool" where
  "sg_wf g \<longleftrightarrow> sg_ok g \<and> sg_owned g"

lemma numbers_snoc:
  "numbers ids ks \<Longrightarrow> k \<notin> set ks \<Longrightarrow> numbers (ids @ [(k, length ids)]) (ks @ [k])"
  by (auto simp: numbers_def dest: map_eq_imp_length_eq arg_cong[of _ _ length])

lemma numbers_dom: "numbers ids ks \<Longrightarrow> map_of ids k = None \<longleftrightarrow> k \<notin> set ks"
  by (force simp: numbers_def map_of_eq_None_iff)

lemma numbers_inj:
  assumes "numbers ids ks" "map_of ids a = Some i" "map_of ids b = Some i"
  shows "a = b"
proof -
  have "distinct (map snd ids)" using assms(1) by (simp add: numbers_def)
  moreover have "(a, i) \<in> set ids" "(b, i) \<in> set ids" using assms(2,3) by (auto dest: map_of_SomeD)
  ultimately show ?thesis by (force simp: distinct_map inj_on_def)
qed

lemma update_fresh: "k \<notin> fst ` set xs \<Longrightarrow> AList.update k v xs = xs @ [(k, v)]"
  by (induction xs) auto

lemma update_same: "map_of xs k = Some v \<Longrightarrow> AList.update k v xs = xs"
  by (induction xs) auto

lemmas sg_queries = known_node_def known_procedure_def procedure_of_def exits_of_def nodes_of_def
  normal_successors_def callees_of_call_at_def callers_of_def return_sites_of_call_at_def
  call_to_return_successors_def is_call_node_def same_owner_def

lemmas sg_invariants = sg_ok_def sg_tables_def sg_edges_def sg_lists_def

lemma sg_new_wf: "sg_wf sg_new"
  by (simp add: sg_wf_def sg_invariants sg_owned_def sg_new_def sg_queries numbers_def)

lemma numbers_update:
  assumes "numbers ids (map fst xs)" "map_of xs k = None"
  shows "numbers (AList.update k (length ids) ids) (map fst (AList.update k v xs))"
proof -
  have k: "k \<notin> fst ` set xs" using assms(2) by (simp add: map_of_eq_None_iff)
  moreover have "k \<notin> fst ` set ids"
    using assms(1) k unfolding numbers_def by (metis image_set)
  ultimately show ?thesis using numbers_snoc[OF assms(1), of k] by (simp add: update_fresh)
qed

text \<open>What a successful \<open>add_node\<close> leaves. A node that is present keeps its place.\<close>

lemma add_node_error:
  "fst (add_node p n g) = Inl e \<Longrightarrow> add_node p n g = (Inl SupergraphError, g)"
  by (auto simp: add_node_def Let_def split: if_splits)

lemma add_node_ok:
  assumes "add_node p n g = (Inr u, g')" "sg_tables g"
  shows "known_procedure g p"
    and "g' = g\<lparr>sg_nodes_by_proc := set_add p n (sg_nodes_by_proc g)\<rparr> \<and> map_of (sg_node_to_proc g) n = Some p \<or>
      g' = g\<lparr>sg_node_to_proc := sg_node_to_proc g @ [(n, p)],
             sg_node_ids := sg_node_ids g @ [(n, length (sg_node_ids g))],
             sg_nodes_by_proc := set_add p n (sg_nodes_by_proc g)\<rparr> \<and> map_of (sg_node_to_proc g) n = None"
proof -
  show kp: "known_procedure g p" using assms(1) by (auto simp: add_node_def split: if_splits)
  have ids: "map_of (sg_node_ids g) n = None \<longleftrightarrow> map_of (sg_node_to_proc g) n = None"
    using assms(2) numbers_dom[of "sg_node_ids g" "map fst (sg_node_to_proc g)" n]
    by (simp add: sg_tables_def map_of_eq_None_iff)
  show "g' = g\<lparr>sg_nodes_by_proc := set_add p n (sg_nodes_by_proc g)\<rparr> \<and> map_of (sg_node_to_proc g) n = Some p \<or>
      g' = g\<lparr>sg_node_to_proc := sg_node_to_proc g @ [(n, p)],
             sg_node_ids := sg_node_ids g @ [(n, length (sg_node_ids g))],
             sg_nodes_by_proc := set_add p n (sg_nodes_by_proc g)\<rparr> \<and> map_of (sg_node_to_proc g) n = None"
  proof (cases "map_of (sg_node_to_proc g) n")
    case None
    then have "n \<notin> fst ` set (sg_node_to_proc g)" by (simp add: map_of_eq_None_iff)
    with None ids kp assms(1) show ?thesis by (simp add: add_node_def update_fresh)
  next
    case (Some q)
    then have "q = p" using assms(1) kp by (simp add: add_node_def Let_def split: if_splits)
    with Some ids obtain i where i: "map_of (sg_node_ids g) n = Some i" by auto
    have "g' = g\<lparr>sg_node_to_proc := sg_node_to_proc g, sg_node_ids := sg_node_ids g,
        sg_nodes_by_proc := set_add p n (sg_nodes_by_proc g)\<rparr>"
      using Some i kp assms(1) \<open>q = p\<close> by (simp add: add_node_def update_same)
    then show ?thesis using Some \<open>q = p\<close> by simp
  qed
qed


lemma add_node_keeps_ok:
  assumes "add_node p n g = (r, g')" "sg_ok g"
  shows "sg_ok g'"
proof (cases r)
  case (Inl e)
  then show ?thesis using assms add_node_error[of p n g e] by simp
next
  case (Inr u)
  note c = add_node_ok[OF assms(1)[unfolded Inr]]
  have t: "sg_tables g" "sg_edges g" "sg_lists g" using assms(2) by (simp_all add: sg_ok_def)
  have kp: "known_procedure g p" by (rule c(1)[OF t(1)])
  from c(2)[OF t(1)] show ?thesis
  proof (elim disjE conjE)
    assume g': "g' = g\<lparr>sg_nodes_by_proc := set_add p n (sg_nodes_by_proc g)\<rparr>"
      and n: "map_of (sg_node_to_proc g) n = Some p"
    show ?thesis using t n kp by (auto simp: g' sg_invariants sg_queries)
  next
    assume g': "g' = g\<lparr>sg_node_to_proc := sg_node_to_proc g @ [(n, p)],
             sg_node_ids := sg_node_ids g @ [(n, length (sg_node_ids g))],
             sg_nodes_by_proc := set_add p n (sg_nodes_by_proc g)\<rparr>"
      and n: "map_of (sg_node_to_proc g) n = None"
    have n': "n \<notin> fst ` set (sg_node_to_proc g)" using n by (simp add: map_of_eq_None_iff)
    have m: "map_of (sg_node_to_proc g') k =
        (case map_of (sg_node_to_proc g) k of None \<Rightarrow> if k = n then Some p else None | Some q \<Rightarrow> Some q)" for k
      by (auto simp: g' map_add_def split: option.splits)
    have f [simp]: "sg_procedure_ids g' = sg_procedure_ids g" "sg_entries g' = sg_entries g"
      "sg_nodes_by_proc g' = set_add p n (sg_nodes_by_proc g)" "sg_exits g' = sg_exits g"
      "sg_normal_succs g' = sg_normal_succs g" "sg_callees_by_call g' = sg_callees_by_call g"
      "sg_return_sites_by_call g' = sg_return_sites_by_call g"
      "sg_call_to_return_succs g' = sg_call_to_return_succs g"
      "sg_callers_by_proc g' = sg_callers_by_proc g"
      by (simp_all add: g')
    have "numbers (sg_node_ids g') (map fst (sg_node_to_proc g'))"
      using t(1) n' by (simp add: g' sg_tables_def numbers_snoc)
    then have "sg_tables g'"
      using t(1) n kp by (auto simp: sg_tables_def m sg_queries split: option.splits)
    moreover have "sg_edges g'"
    proof -
      have "same_owner g a b \<Longrightarrow> same_owner g' a b" "known_node g a \<Longrightarrow> known_node g' a" for a b
        by (auto simp: same_owner_def known_node_def m)
      moreover have "normal_successors g' = normal_successors g"
        "return_sites_of_call_at g' = return_sites_of_call_at g" "callers_of g' = callers_of g"
        "callees_of_call_at g' = callees_of_call_at g" "is_call_node g' = is_call_node g"
        "known_procedure g' = known_procedure g"
        by (simp_all add: sg_queries fun_eq_iff)
      ultimately show ?thesis using t(2) unfolding sg_edges_def f by metis
    qed
    moreover have "sg_lists g'" using t(3) by (simp add: sg_lists_def)
    ultimately show ?thesis by (simp add: sg_ok_def)
  qed
qed

lemma add_node_extends:
  assumes "add_node p n g = (Inr u, g')" "sg_ok g"
  shows "map_of (sg_node_to_proc g') n = Some p"
    and "map_of (sg_node_to_proc g) k = Some q \<Longrightarrow> map_of (sg_node_to_proc g') k = Some q"
    and "sg_entries g' = sg_entries g"
  using add_node_ok[OF assms(1)] assms(2) by (auto simp: sg_ok_def map_add_def)

text \<open>What every builder method keeps: the tables and edges in any case, the ownership of
  entries when it does not raise.\<close>

definition keeps_wf :: "(('p, 'n) supergraph \<Rightarrow> unit res \<times> ('p, 'n) supergraph) \<Rightarrow> bool" where
  "keeps_wf f \<longleftrightarrow> (\<forall>g. sg_ok g \<longrightarrow>
     sg_ok (snd (f g)) \<and> (\<forall>u. fst (f g) = Inr u \<longrightarrow> sg_owned g \<longrightarrow> sg_owned (snd (f g))))"

lemma keeps_wfI:
  assumes "\<And>g r g'. f g = (r, g') \<Longrightarrow> sg_ok g \<Longrightarrow> sg_ok g'"
    and "\<And>g u g'. f g = (Inr u, g') \<Longrightarrow> sg_ok g \<Longrightarrow> sg_owned g \<Longrightarrow> sg_owned g'"
  shows "keeps_wf f"
  unfolding keeps_wf_def using assms by (metis prod.collapse)

lemma keeps_wf_ok: "keeps_wf f \<Longrightarrow> f g = (r, g') \<Longrightarrow> sg_ok g \<Longrightarrow> sg_ok g'"
  by (force simp: keeps_wf_def)

lemma keeps_wf_owned:
  "keeps_wf f \<Longrightarrow> f g = (Inr u, g') \<Longrightarrow> sg_ok g \<Longrightarrow> sg_owned g \<Longrightarrow> sg_owned g'"
  by (force simp: keeps_wf_def)

lemma keeps_wf_then:
  assumes "keeps_wf f" "keeps_wf h"
  shows "keeps_wf (\<lambda>g. and_then (f g) h)"
proof (rule keeps_wfI)
  fix g r g' assume t: "and_then (f g) h = (r, g')" and g: "sg_ok g"
  obtain r1 g1 where f: "f g = (r1, g1)" by fastforce
  have "sg_ok g1" by (rule keeps_wf_ok[OF assms(1) f g])
  then show "sg_ok g'" using t f keeps_wf_ok[OF assms(2)] by (cases r1) auto
next
  fix g u g' assume t: "and_then (f g) h = (Inr u, g')" and g: "sg_ok g" "sg_owned g"
  then obtain g1 where f: "f g = (Inr (), g1)" and h: "h g1 = (Inr u, g')" by (auto simp: and_then_Inr)
  show "sg_owned g'"
    by (rule keeps_wf_owned[OF assms(2) h keeps_wf_ok[OF assms(1) f g(1)] keeps_wf_owned[OF assms(1) f g]])
qed

lemma add_node_keeps: "keeps_wf (add_node p n)"
proof (rule keeps_wfI)
  fix g u g' assume "add_node p n g = (Inr u, g')" "sg_ok g" "sg_owned g"
  then show "sg_owned g'" using add_node_extends[of p n g u g'] by (simp add: sg_owned_def)
qed (rule add_node_keeps_ok)

lemma add_exit_keeps: "keeps_wf (add_exit p n)"
proof (rule keeps_wfI)
  fix g r g' assume e: "add_exit p n g = (r, g')" and g: "sg_ok g"
  obtain r1 g1 where a: "add_node p n g = (r1, g1)" by fastforce
  have ok: "sg_ok g1" using add_node_keeps_ok[OF a g] .
  show "sg_ok g'"
  proof (cases r1)
    case Inl
    then show ?thesis using ok a e by (simp add: add_exit_def)
  next
    case (Inr u)
    then have "map_of (sg_node_to_proc g1) n = Some p" using add_node_extends(1)[of p n g u g1] a g by simp
    then show ?thesis using ok a e Inr by (auto simp: add_exit_def sg_invariants sg_queries)
  qed
next
  fix g u g' assume e: "add_exit p n g = (Inr u, g')" and g: "sg_ok g" "sg_owned g"
  then obtain g1 where a: "add_node p n g = (Inr (), g1)"
    and g': "g' = g1\<lparr>sg_exits := set_add p n (sg_exits g1)\<rparr>" by (auto simp: add_exit_def and_then_Inr)
  show "sg_owned g'" using keeps_wf_owned[OF add_node_keeps a g] by (simp add: g' sg_owned_def)
qed

lemma add_exits_keeps: "keeps_wf (add_exits p ns)"
proof (induction ns)
  case Nil
  show ?case by (simp add: keeps_wf_def)
next
  case (Cons n ns)
  show ?case using keeps_wf_then[OF add_exit_keeps Cons, of p n] by (simp add: keeps_wf_def)
qed

lemma add_procedure_keeps: "keeps_wf (add_procedure p entry exits)"
proof (rule keeps_wfI)
  fix g r g' assume a: "add_procedure p entry exits g = (r, g')" and g: "sg_ok g"
  let ?g0 = "g\<lparr>sg_procedure_ids := AList.update p (length (sg_procedure_ids g)) (sg_procedure_ids g),
               sg_entries := AList.update p entry (sg_entries g)\<rparr>"
  show "sg_ok g'"
  proof (cases "known_procedure g p")
    case True
    then show ?thesis using a g by (simp add: add_procedure_def)
  next
    case False
    then have "sg_ok ?g0"
      using g numbers_update[of "sg_procedure_ids g" "sg_entries g" p entry]
      by (auto simp: sg_invariants sg_queries update_conv)
    moreover have "and_then (add_node p entry ?g0) (add_exits p exits) = (r, g')"
      using a False by (simp add: add_procedure_def)
    ultimately show ?thesis
      by (rule keeps_wf_ok[OF keeps_wf_then[OF add_node_keeps add_exits_keeps], rotated])
  qed
next
  fix g u g' assume a: "add_procedure p entry exits g = (Inr u, g')" and g: "sg_ok g" "sg_owned g"
  let ?g0 = "g\<lparr>sg_procedure_ids := AList.update p (length (sg_procedure_ids g)) (sg_procedure_ids g),
               sg_entries := AList.update p entry (sg_entries g)\<rparr>"
  have p: "\<not> known_procedure g p" using a by (auto simp: add_procedure_def)
  then obtain g1 where n: "add_node p entry ?g0 = (Inr (), g1)" and e: "add_exits p exits g1 = (Inr u, g')"
    using a by (auto simp: add_procedure_def and_then_Inr)
  have ok: "sg_ok ?g0"
    using g p numbers_update[of "sg_procedure_ids g" "sg_entries g" p entry]
    by (auto simp: sg_invariants sg_queries update_conv)
  have "sg_owned g1"
    using add_node_extends[OF n ok] g(2) by (auto simp: sg_owned_def update_conv split: if_splits)
  then show "sg_owned g'" by (rule keeps_wf_owned[OF add_exits_keeps e keeps_wf_ok[OF add_node_keeps n ok]])
qed

lemma add_normal_edge_cases:
  assumes "add_normal_edge a b g = (r, g')"
  shows "(\<exists>e. r = Inl e) \<and> g' = g \<or>
    same_owner g a b \<and>
    g' = g\<lparr>sg_normal_succs := set_add a b (sg_normal_succs g)\<rparr>"
  using assms by (auto simp: add_normal_edge_def require_known_node_def sg_queries split: if_splits)

lemma add_return_site_cases:
  assumes "add_return_site a b g = (r, g')"
  shows "(\<exists>e. r = Inl e) \<and> g' = g \<or>
    same_owner g a b \<and>
    g' = g\<lparr>sg_return_sites_by_call := set_add a b (sg_return_sites_by_call g),
           sg_call_to_return_succs := set_add a b (sg_call_to_return_succs g)\<rparr>"
  using assms by (auto simp: add_return_site_def require_known_node_def sg_queries split: if_splits)

lemma add_normal_edge_keeps: "keeps_wf (add_normal_edge a b)"
proof (rule keeps_wfI)
  fix g r g' assume a: "add_normal_edge a b g = (r, g')" and g: "sg_ok g"
  show "sg_ok g'" using add_normal_edge_cases[OF a] g by (auto simp: sg_invariants sg_queries)
next
  fix g u g' assume a: "add_normal_edge a b g = (Inr u, g')" and g: "sg_owned g"
  show "sg_owned g'" using add_normal_edge_cases[OF a] g by (auto simp: sg_owned_def)
qed

lemma add_return_site_keeps: "keeps_wf (add_return_site a b)"
proof (rule keeps_wfI)
  fix g r g' assume a: "add_return_site a b g = (r, g')" and g: "sg_ok g"
  show "sg_ok g'" using add_return_site_cases[OF a] g by (auto simp: sg_invariants sg_queries)
next
  fix g u g' assume a: "add_return_site a b g = (Inr u, g')" and g: "sg_owned g"
  show "sg_owned g'" using add_return_site_cases[OF a] g by (auto simp: sg_owned_def)
qed

lemma add_call_edge_cases:
  assumes "add_call_edge a p rs g = (r, g')"
  obtains "g' = g" "\<exists>e. r = Inl e"
  | "known_node g a" "known_procedure g p"
    "(case rs of None \<Rightarrow> (Inr (), g\<lparr>sg_callees_by_call := set_add a p (sg_callees_by_call g),
              sg_callers_by_proc := set_add p a (sg_callers_by_proc g)\<rparr>)
      | Some b \<Rightarrow> add_return_site a b (g\<lparr>sg_callees_by_call := set_add a p (sg_callees_by_call g),
              sg_callers_by_proc := set_add p a (sg_callers_by_proc g)\<rparr>)) = (r, g')"
  using assms by (auto simp: add_call_edge_def require_known_node_def Let_def split: if_splits)

lemma add_call_edge_keeps: "keeps_wf (add_call_edge a p rs)"
proof (rule keeps_wfI)
  fix g r g' assume a: "add_call_edge a p rs g = (r, g')" and g: "sg_ok g"
  from a show "sg_ok g'"
  proof (cases rule: add_call_edge_cases)
    case 2
    let ?g1 = "g\<lparr>sg_callees_by_call := set_add a p (sg_callees_by_call g),
              sg_callers_by_proc := set_add p a (sg_callers_by_proc g)\<rparr>"
    have "sg_ok ?g1" using g 2(1,2) by (auto simp: sg_invariants sg_queries)
    then show ?thesis using 2(3) keeps_wf_ok[OF add_return_site_keeps, of _ _ ?g1 r g'] by (cases rs) auto
  qed (use g in simp)
next
  fix g u g' assume a: "add_call_edge a p rs g = (Inr u, g')" and g: "sg_owned g"
  from a show "sg_owned g'"
  proof (cases rule: add_call_edge_cases)
    case 2
    then show ?thesis using g add_return_site_cases
      by (cases rs) (fastforce simp: sg_owned_def)+
  qed (use g in simp)
qed


section \<open>Graphs the builder makes\<close>

inductive sg_step :: "('p, 'n) supergraph \<Rightarrow> ('p, 'n) supergraph \<Rightarrow> bool" where
  procedure: "add_procedure p entry exits g = (Inr u, g') \<Longrightarrow> sg_step g g'"
| node: "add_node p n g = (Inr u, g') \<Longrightarrow> sg_step g g'"
| exit: "add_exit p n g = (Inr u, g') \<Longrightarrow> sg_step g g'"
| normal: "add_normal_edge a b g = (Inr u, g') \<Longrightarrow> sg_step g g'"
| call: "add_call_edge a p rs g = (Inr u, g') \<Longrightarrow> sg_step g g'"
| return: "add_return_site a b g = (Inr u, g') \<Longrightarrow> sg_step g g'"

lemma sg_step_wf: "sg_step g g' \<Longrightarrow> sg_wf g \<Longrightarrow> sg_wf g'"
  unfolding sg_wf_def
  by (induction rule: sg_step.induct)
     (auto intro: keeps_wf_ok keeps_wf_owned add_procedure_keeps add_node_keeps add_exit_keeps
       add_normal_edge_keeps add_call_edge_keeps add_return_site_keeps)

lemma sg_built_wf: "sg_step\<^sup>*\<^sup>* sg_new g \<Longrightarrow> sg_wf g"
  by (induction rule: rtranclp_induct) (auto intro: sg_step_wf sg_new_wf)

lemma procedure_of_iff: "procedure_of g n = Inr p \<longleftrightarrow> map_of (sg_node_to_proc g) n = Some p"
  by (simp add: procedure_of_def split: option.splits)

lemma entry_of_iff: "entry_of g p = Inr n \<longleftrightarrow> map_of (sg_entries g) p = Some n"
  by (simp add: entry_of_def split: option.splits)

lemma sg_wf_entry: "sg_wf g \<Longrightarrow> entry_of g p = Inr n \<Longrightarrow> procedure_of g n = Inr p"
  by (simp add: entry_of_iff procedure_of_iff sg_wf_def sg_owned_def)

lemma sg_wf_exits: "sg_wf g \<Longrightarrow> n \<in> exits_of g p \<Longrightarrow> procedure_of g n = Inr p"
  by (simp add: procedure_of_iff sg_wf_def sg_ok_def sg_tables_def)

lemma sg_wf_is_exit: "sg_wf g \<Longrightarrow> is_exit_node g n \<longleftrightarrow> (\<exists>p. n \<in> exits_of g p)"
  using sg_wf_exits[of g n]
  by (auto simp: is_exit_node_def exits_of_def procedure_of_iff split: option.splits)

lemma sg_wf_normal:
  "sg_wf g \<Longrightarrow> m \<in> normal_successors g n \<Longrightarrow> \<exists>p. procedure_of g n = Inr p \<and> procedure_of g m = Inr p"
  by (auto simp: procedure_of_iff sg_wf_def sg_ok_def sg_edges_def same_owner_def)

lemma sg_wf_return_sites:
  assumes "sg_wf g" "m \<in> return_sites_of_call_at g n"
  shows "\<exists>p. procedure_of g n = Inr p \<and> procedure_of g m = Inr p"
  using assms by (auto simp: procedure_of_iff sg_wf_def sg_ok_def sg_edges_def same_owner_def)

lemma sg_wf_call_to_return:
  "sg_wf g \<Longrightarrow> call_to_return_successors g n = return_sites_of_call_at g n"
  by (simp add: sg_wf_def sg_ok_def sg_edges_def call_to_return_successors_def return_sites_of_call_at_def)

lemma sg_wf_callees:
  "sg_wf g \<Longrightarrow> p \<in> callees_of_call_at g n \<Longrightarrow> \<exists>start. entry_of g p = Inr start"
  by (auto simp: entry_of_iff known_procedure_def sg_wf_def sg_ok_def sg_edges_def)

text \<open>C16: what the supergraph guarantees to the solvers. In every graph built by calls that
  did not raise, a procedure owns its entry and its exits, normal edges and return sites stay
  inside one procedure, every callee has an entry, the callers of a procedure are exactly the
  calls that have it as a callee, and each return site has its bypass edge.\<close>

theorem supergraph_built:
  assumes "sg_step\<^sup>*\<^sup>* sg_new g"
  shows "(entry_of g p = Inr n \<longrightarrow> procedure_of g n = Inr p) \<and>
    (n \<in> exits_of g p \<longleftrightarrow> procedure_of g n = Inr p \<and> is_exit_node g n) \<and>
    (n \<in> nodes_of g p \<longleftrightarrow> procedure_of g n = Inr p) \<and>
    (m \<in> normal_successors g n \<union> return_sites_of_call_at g n \<longrightarrow>
       (\<exists>q. procedure_of g n = Inr q \<and> procedure_of g m = Inr q)) \<and>
    (p \<in> callees_of_call_at g n \<longrightarrow> is_call_node g n \<and> is_ok (entry_of g p) \<and> is_ok (procedure_of g n)) \<and>
    (p \<in> callees_of_call_at g n \<longleftrightarrow> n \<in> callers_of g p) \<and>
    call_to_return_successors g n = return_sites_of_call_at g n"
proof -
  have wf: "sg_wf g" using assms by (rule sg_built_wf)
  have "n \<in> exits_of g p \<longleftrightarrow> procedure_of g n = Inr p \<and> is_exit_node g n"
    using sg_wf_exits[OF wf, of n] sg_wf_is_exit[OF wf, of n] by fastforce
  moreover have "n \<in> nodes_of g p \<longleftrightarrow> procedure_of g n = Inr p"
    using wf by (simp add: procedure_of_iff sg_wf_def sg_ok_def sg_tables_def)
  moreover have "p \<in> callees_of_call_at g n \<longrightarrow> is_call_node g n \<and> is_ok (procedure_of g n)"
    "p \<in> callees_of_call_at g n \<longleftrightarrow> n \<in> callers_of g p"
    using wf by (force simp: sg_wf_def sg_ok_def sg_edges_def known_node_def procedure_of_def split: option.splits)+
  ultimately show ?thesis
    using sg_wf_entry[OF wf] sg_wf_normal[OF wf] sg_wf_return_sites[OF wf] sg_wf_callees[OF wf]
      sg_wf_call_to_return[OF wf] by (auto simp: is_ok_iff)
qed

definition run_builders ::
  "(('p, 'n) supergraph \<Rightarrow> unit res \<times> ('p, 'n) supergraph) list \<Rightarrow> unit res \<times> ('p, 'n) supergraph" where
  "run_builders fs = foldl and_then (Inr (), sg_new) fs"

text \<open>A caller \<open>main\<close> with nodes 0 to 3 that calls \<open>f\<close> at node 1.\<close>

definition example_graph :: "(string, nat) supergraph" where
  "example_graph = snd (run_builders
     [add_procedure ''main'' 0 [3], add_node ''main'' 1, add_node ''main'' 2,
      add_procedure ''f'' 10 [11], add_normal_edge 0 1, add_normal_edge 2 3,
      add_normal_edge 10 11, add_call_edge 1 ''f'' (Some 2)])"

lemma run_builders_built:
  assumes "run_builders fs = (Inr u, g)"
    and "\<forall>f\<in>set fs. \<forall>h h'. f h = (Inr (), h') \<longrightarrow> sg_step h h'"
  shows "sg_step\<^sup>*\<^sup>* sg_new g"
proof -
  have "foldl and_then (Inr (), h) fs = (Inr u, g) \<Longrightarrow> sg_step\<^sup>*\<^sup>* sg_new h \<Longrightarrow> sg_step\<^sup>*\<^sup>* sg_new g" for h
    using assms(2)
  proof (induction fs arbitrary: h)
    case (Cons f fs)
    obtain r h' where f: "f h = (r, h')" by fastforce
    have "foldl and_then (Inl e, k) fs = (Inl e, k)" for e k by (induction fs) auto
    with f Cons.prems(1) have r: "r = Inr ()" by (cases r) auto
    then have "sg_step\<^sup>*\<^sup>* sg_new h'"
      using f Cons.prems(2,3) by (auto intro: rtranclp.rtrancl_into_rtrancl)
    then show ?case using Cons r f by simp
  qed simp
  then show ?thesis using assms(1) by (simp add: run_builders_def)
qed

lemma example_graph_built: "sg_step\<^sup>*\<^sup>* sg_new example_graph"
proof -
  have "fst (run_builders
     [add_procedure ''main'' (0::nat) [3], add_node ''main'' 1, add_node ''main'' 2,
      add_procedure ''f'' 10 [11], add_normal_edge 0 1, add_normal_edge 2 3,
      add_normal_edge 10 11, add_call_edge 1 ''f'' (Some 2)]) = Inr ()" by code_simp
  then show ?thesis
    unfolding example_graph_def by (intro run_builders_built[OF prod_eqI]) (auto intro: sg_step.intros)
qed

theorem supergraph_built_witness:
  "entry_of example_graph ''f'' = Inr 10 \<and> procedure_of example_graph 10 = Inr ''f'' \<and>
   (1 \<in> callers_of example_graph ''f'') \<and> is_call_node example_graph 1"
proof -
  have e: "entry_of example_graph ''f'' = Inr 10" "''f'' \<in> callees_of_call_at example_graph 1" by code_simp+
  from supergraph_built[OF example_graph_built, of "''f''" 10] supergraph_built[OF example_graph_built, of "''f''" _ _]
  show ?thesis using e by auto
qed

section \<open>Identifiers\<close>

lemma numbers_nth:
  assumes "numbers ids ks"
  shows "map_of ids k = Some i \<longleftrightarrow> i < length ks \<and> ks ! i = k"
proof -
  have d: "distinct (map fst ids)" and z: "ids = zip ks [0..<length ks]"
    using assms zip_map_fst_snd[of ids] by (auto simp: numbers_def)
  show ?thesis unfolding map_of_eq_Some_iff[OF d] unfolding z by (auto simp: in_set_zip)
qed

lemma numbers_sorted:
  assumes "numbers ids ks" "\<And>k. k \<in> set ks \<Longrightarrow> f k = (case map_of ids k of Some i \<Rightarrow> i | None \<Rightarrow> 0)"
  shows "sort_key f ks = ks"
proof (rule sort_key_id_if_sorted)
  have "map f ks = [0..<length ks]"
  proof (rule nth_equalityI)
    fix i assume "i < length (map f ks)"
    then show "map f ks ! i = [0..<length ks] ! i"
      using assms(2)[of "ks ! i"] numbers_nth[OF assms(1), of "ks ! i" i] by simp
  qed simp
  then show "sorted (map f ks)" by simp
qed

lemma sg_ok_ordered:
  assumes "sg_ok g"
  shows "ordered_nodes g = map fst (sg_node_to_proc g)" "ordered_procedures g = map fst (sg_entries g)"
proof -
  have n: "numbers (sg_node_ids g) (map fst (sg_node_to_proc g))"
    and p: "numbers (sg_procedure_ids g) (map fst (sg_entries g))"
    using assms by (simp_all add: sg_ok_def sg_tables_def)
  show "ordered_nodes g = map fst (sg_node_to_proc g)"
    unfolding ordered_nodes_def
    by (rule numbers_sorted[OF n]) (simp add: node_key_def node_id_def split: option.splits)
  show "ordered_procedures g = map fst (sg_entries g)"
    unfolding ordered_procedures_def
    by (rule numbers_sorted[OF p]) (simp add: procedure_key_def procedure_id_def split: option.splits)
qed

lemma sg_ok_ids:
  assumes "sg_ok g"
  shows "node_id g n = Inr i \<longleftrightarrow> i < length (ordered_nodes g) \<and> ordered_nodes g ! i = n"
    and "procedure_id g p = Inr i \<longleftrightarrow> i < length (ordered_procedures g) \<and> ordered_procedures g ! i = p"
proof -
  have n: "numbers (sg_node_ids g) (map fst (sg_node_to_proc g))"
    and p: "numbers (sg_procedure_ids g) (map fst (sg_entries g))"
    using assms by (simp_all add: sg_ok_def sg_tables_def)
  show "node_id g n = Inr i \<longleftrightarrow> i < length (ordered_nodes g) \<and> ordered_nodes g ! i = n"
    unfolding sg_ok_ordered[OF assms] numbers_nth[OF n, symmetric]
    by (simp add: node_id_def split: option.splits)
  show "procedure_id g p = Inr i \<longleftrightarrow> i < length (ordered_procedures g) \<and> ordered_procedures g ! i = p"
    unfolding sg_ok_ordered[OF assms] numbers_nth[OF p, symmetric]
    by (simp add: procedure_id_def split: option.splits)
qed

text \<open>The two ownership tables only grow at their end.\<close>

definition grows :: "('p, 'n) supergraph \<Rightarrow> ('p, 'n) supergraph \<Rightarrow> bool" where
  "grows g g' \<longleftrightarrow>
     startswith (map fst (sg_node_to_proc g')) (map fst (sg_node_to_proc g)) \<and>
     startswith (map fst (sg_entries g')) (map fst (sg_entries g))"

lemma grows_refl [simp]: "grows g g"
  by (simp add: grows_def)

lemma grows_trans: "grows g h \<Longrightarrow> grows h k \<Longrightarrow> grows g k"
  by (auto simp: grows_def intro: startswith_trans)

lemma grows_update [simp]:
  "startswith (map fst (AList.update k v xs)) (map fst xs)"
  by (simp add: update_keys startswith_iff)

lemma grows_then: "grows g (snd m) \<Longrightarrow> (\<And>h. grows h (snd (f h))) \<Longrightarrow> grows g (snd (and_then m f))"
  by (cases m; cases "fst m") (auto intro: grows_trans)

lemma add_node_grows: "grows g (snd (add_node p n g))"
  by (simp add: add_node_def Let_def grows_def)

lemma add_exit_grows: "grows g (snd (add_exit p n g))"
  unfolding add_exit_def by (intro grows_then add_node_grows) (simp add: grows_def)

lemma add_exits_grows: "grows g (snd (add_exits p ns g))"
  by (induction ns arbitrary: g) (auto intro: grows_then add_exit_grows)

lemma add_procedure_grows: "grows g (snd (add_procedure p n ns g))"
proof (cases "known_procedure g p")
  case False
  let ?g0 = "g\<lparr>sg_procedure_ids := AList.update p (length (sg_procedure_ids g)) (sg_procedure_ids g),
               sg_entries := AList.update p n (sg_entries g)\<rparr>"
  have "grows g ?g0" by (simp add: grows_def)
  then have "grows g (snd (add_node p n ?g0))" by (rule grows_trans) (rule add_node_grows)
  then show ?thesis using False by (auto simp: add_procedure_def intro!: grows_then add_exits_grows)
qed (simp add: add_procedure_def)

lemma sg_step_grows: "sg_step g g' \<Longrightarrow> grows g g'"
proof (induction rule: sg_step.induct)
  case (normal a b g u g')
  then show ?case using add_normal_edge_cases[OF normal] by (auto simp: grows_def)
next
  case (call a p rs g u g')
  show ?case
    using call
  proof (cases rule: add_call_edge_cases)
    case 2
    then show ?thesis
      by (cases rs) (auto simp: grows_def dest!: add_return_site_cases)
  qed simp
next
  case (return a b g u g')
  then show ?case using add_return_site_cases[OF return] by (auto simp: grows_def)
qed (metis add_procedure_grows add_node_grows add_exit_grows snd_conv)+

text \<open>identifiers are compact and stable. In a built graph the identifier of a node (of a
  procedure) is its position in the ordered list of all nodes (procedures), which is the order
  of registration; and further building never moves one: the ordered lists only grow at their
  end. So the order in which the solvers visit successors does not change under it.\<close>

theorem supergraph_ids_stable:
  assumes "sg_step\<^sup>*\<^sup>* sg_new g" "sg_step\<^sup>*\<^sup>* g g'"
  shows "(node_id g n = Inr i \<longleftrightarrow> i < length (ordered_nodes g) \<and> ordered_nodes g ! i = n) \<and>
    (procedure_id g p = Inr i \<longleftrightarrow> i < length (ordered_procedures g) \<and> ordered_procedures g ! i = p) \<and>
    distinct (ordered_nodes g) \<and> distinct (ordered_procedures g) \<and>
    set (ordered_nodes g) = sg_nodes g \<and> set (ordered_procedures g) = procedures g \<and>
    (\<exists>ns. ordered_nodes g' = ordered_nodes g @ ns) \<and> (\<exists>ps. ordered_procedures g' = ordered_procedures g @ ps)"
proof -
  have ok: "sg_ok g" "sg_ok g'"
    using sg_built_wf[OF assms(1)] sg_built_wf[OF rtranclp_trans[OF assms]] by (simp_all add: sg_wf_def)
  have "distinct (ordered_nodes g)" "distinct (ordered_procedures g)"
    using ok(1) unfolding sg_ok_ordered[OF ok(1)] by (simp_all add: sg_ok_def sg_tables_def numbers_def)
  moreover have "grows g g'" using assms(2) by (induction rule: rtranclp_induct) (auto intro: grows_trans sg_step_grows)
  then have "\<exists>ns. ordered_nodes g' = ordered_nodes g @ ns" "\<exists>ps. ordered_procedures g' = ordered_procedures g @ ps"
    unfolding sg_ok_ordered[OF ok(1)] sg_ok_ordered[OF ok(2)] by (simp_all add: grows_def startswith_iff)
  ultimately show ?thesis
    using sg_ok_ids[OF ok(1)] by (simp add: ordered_nodes_def ordered_procedures_def sg_nodes_def procedures_def)
qed

theorem supergraph_ids_stable_witness:
  "node_id example_graph 2 = Inr 3 \<and>
   (3 < length (ordered_nodes example_graph) \<and> ordered_nodes example_graph ! 3 = 2)"
proof -
  have "node_id example_graph 2 = Inr 3" by code_simp
  then show ?thesis using supergraph_ids_stable[OF example_graph_built rtranclp.rtrancl_refl, of 2 3] by blast
qed

text \<open>\<^verbatim>\<open>add_procedure\<close> is not atomic. When the entry belongs to another procedure the
  call raises, yet the procedure stays registered with that foreign entry: a second attempt
  with a fresh entry is refused, and a call edge to it is accepted, so a solver would enter
  the other procedure instead.\<close>

theorem add_procedure_not_atomic:
  "(let (r1, g1) = add_procedure ''h'' 10 [] example_graph;
        (r2, g2) = add_procedure ''h'' 20 [] g1;
        (r3, g3) = add_call_edge 1 ''h'' (Some 2) g2
    in (r1, r2, r3, entry_of g3 ''h'', procedure_of g3 10)) =
   (Inl SupergraphError, Inl SupergraphError, Inr (), Inr 10, Inr ''f'')"
  by code_simp

end
