(* ===== verification/SolverBookkeeping.thy ===== *)
theory SolverBookkeeping
  imports PyBase
begin

text \<open>
  What the IFDS and IDE solvers share, from \<^verbatim>\<open>analysis/ifds/core/solver.py\<close>: options and
  their validation, call-string contexts, path edges, traces, and the bookkeeping of
  statistics, budgets and completion (\<^verbatim>\<open>_SolverBookkeeping\<close>).

  The readings of the clock, of the traced memory and of the cancellation token are an
  argument of the run (\<open>environment\<close>): the \<open>i\<close>-th reading may be anything. Time is counted in
  any fixed unit. The text of a stop reason and of a trace note is kept as a term of
  its parts. \<^verbatim>\<open>_stable_value_key\<close>, which orders opaque fact and node objects, appears as the
  two key functions of \<open>solver_run\<close>; the order it gives to records is computed from them
  field by field, as the source does.
\<close>

section \<open>Options\<close>

datatype analysis_status = COMPLETE | PARTIAL | CANCELLED | FAILED

record cancellation_token =
  tok_set :: bool
  tok_reason :: "string option"

definition token_new :: cancellation_token where
  "token_new = \<lparr>tok_set = False, tok_reason = None\<rparr>"

definition cancel :: "string \<Rightarrow> cancellation_token \<Rightarrow> cancellation_token" where
  "cancel reason t = \<lparr>tok_set = True, tok_reason = Some reason\<rparr>"

record solver_options =
  so_max_path_edges :: "int option"
  so_max_seconds :: "int option"
  so_max_queue :: "int option"
  so_max_incoming :: "int option"
  so_max_summaries :: "int option"
  so_max_facts :: "int option"
  so_max_contexts :: "int option"
  so_max_memory :: "int option"
  so_max_depth :: "int option"
  so_has_token :: bool
  so_trace_mode :: string
  so_limit_behavior :: string
  so_interval :: int

definition default_solver_options :: solver_options where
  "default_solver_options =
     \<lparr>so_max_path_edges = None, so_max_seconds = None, so_max_queue = None, so_max_incoming = None,
      so_max_summaries = None, so_max_facts = None, so_max_contexts = None, so_max_memory = None,
      so_max_depth = None, so_has_token = False, so_trace_mode = ''none'',
      so_limit_behavior = ''partial'', so_interval = 128\<rparr>"

definition positive_or_none :: "int option \<Rightarrow> bool" where
  "positive_or_none v = (case v of None \<Rightarrow> True | Some i \<Rightarrow> \<not> i < 1)"

definition validate_max_call_string_depth :: "int option \<Rightarrow> unit res" where
  "validate_max_call_string_depth depth =
     (case depth of None \<Rightarrow> Inr () | Some d \<Rightarrow> if d < 1 then Inl ValueError else Inr ())"

text \<open>\<^verbatim>\<open>SolverOptions.__post_init__\<close>; the checks that a limit is an integer are the typing of
  the fields here.\<close>

definition check_solver_options :: "solver_options \<Rightarrow> solver_options res" where
  "check_solver_options o' =
     (if \<not> list_all positive_or_none
           [so_max_path_edges o', so_max_queue o', so_max_incoming o', so_max_summaries o',
            so_max_facts o', so_max_contexts o', so_max_memory o']
      then Inl ValueError
      else if (case so_max_seconds o' of None \<Rightarrow> False | Some t \<Rightarrow> t \<le> 0) then Inl ValueError
      else if so_interval o' < 1 then Inl ValueError
      else if so_trace_mode o' \<notin> {''none'', ''findings'', ''all''} then Inl ValueError
      else if so_limit_behavior o' \<notin> {''partial'', ''raise''} then Inl ValueError
      else bind_res (validate_max_call_string_depth (so_max_depth o')) (\<lambda>_. Inr o'))"

definition solver_options_from ::
  "solver_options option \<Rightarrow> bool \<Rightarrow> int option \<Rightarrow> int option \<Rightarrow> solver_options res" where
  "solver_options_from options record_traces max_edges max_depth =
     (case options of
        Some o' \<Rightarrow>
          if record_traces \<or> max_edges \<noteq> None \<or> max_depth \<noteq> None then Inl ValueError else Inr o'
      | None \<Rightarrow>
          check_solver_options (default_solver_options\<lparr>so_max_path_edges := max_edges,
            so_max_depth := max_depth, so_trace_mode := (if record_traces then ''all'' else ''none''),
            so_limit_behavior := ''raise''\<rparr>))"

section \<open>Call strings\<close>

datatype 'n call_context = CallContext (call_sites: "'n list") (max_depth: int)

definition mk_context :: "'n list \<Rightarrow> int \<Rightarrow> 'n call_context res" where
  "mk_context sites depth = (if depth < 1 then Inl ValueError else Inr (CallContext sites depth))"

text \<open>\<^verbatim>\<open>sites[-d:]\<close> for a positive \<open>d\<close>.\<close>

definition last_sites :: "int \<Rightarrow> 'n list \<Rightarrow> 'n list" where
  "last_sites d sites = drop (length sites - nat d) sites"

fun context_push :: "'n call_context \<Rightarrow> 'n \<Rightarrow> 'n call_context" where
  "context_push (CallContext sites depth) site =
     (let sites = sites @ [site] in
      CallContext (if int (length sites) > depth then last_sites depth sites else sites) depth)"

fun context_pop :: "'n call_context \<Rightarrow> 'n call_context" where
  "context_pop (CallContext sites depth) =
     (if sites = [] then CallContext sites depth else CallContext (butlast sites) depth)"

definition seed_context :: "int option \<Rightarrow> 'n call_context option" where
  "seed_context depth = map_option (CallContext []) depth"

definition push_context :: "int option \<Rightarrow> 'n call_context option \<Rightarrow> 'n \<Rightarrow> 'n call_context option" where
  "push_context depth ctx site =
     (if ctx = None \<or> depth = None then None else map_option (\<lambda>c. context_push c site) ctx)"

text \<open>The context part of a table key: absent without contexts.\<close>

definition key_context :: "int option \<Rightarrow> 'n call_context option \<Rightarrow> 'n call_context option" where
  "key_context depth ctx = (if ctx = None \<or> depth = None then None else ctx)"

section \<open>Path edges and traces\<close>

datatype ('n, 'f) path_edge =
  PathEdge (source_node: 'n) (source_fact: 'f) (edge_node: 'n) (edge_fact: 'f)
    (edge_context: "'n call_context option")

datatype ('p, 'n) trace_note =
    StepNote 'n 'n
  | CallNote 'n 'p
  | ViaNote 'p 'n
  | ReturnNote 'p 'n

datatype ('p, 'n, 'f) trace =
  PropagationTrace (output_edge: "('n, 'f) path_edge") (trace_kind: string)
    (trace_predecessor: "('n, 'f) path_edge option") (trace_note: "('p, 'n) trace_note option")

section \<open>Bookkeeping\<close>

datatype stat =
    processed_path_edges | propagated_path_edges | normal_flow_steps | call_flow_steps
  | return_flow_steps | call_to_return_steps | incoming_records | summary_updates
  | peak_queue_size | peak_facts_at_node | peak_contexts_per_procedure | peak_memory_bytes
  | budget_checks | elapsed_seconds

datatype stop_reason =
    Exceeded string string int
  | PropagationExceeded string int
  | CancelledBy string

record environment =
  env_clock :: "nat \<Rightarrow> int"
  env_peak :: "nat \<Rightarrow> int"
  env_token :: "nat \<Rightarrow> cancellation_token"
  env_tracing :: bool

record ('n, 'f, 'k) solver_run =
  sr_options :: solver_options
  sr_env :: environment
  sr_fact_key :: "'f \<Rightarrow> 'k"
  sr_node_key :: "'n \<Rightarrow> 'k"

record ('p, 'n, 'f) bookkeeping =
  bk_label :: string
  bk_started_at :: int
  bk_readings :: nat
  bk_tracing :: bool
  bk_status :: analysis_status
  bk_reason :: "stop_reason option"
  bk_last_check :: nat
  bk_traces :: "('n, 'f) path_edge \<rightharpoonup> ('p, 'n, 'f) trace list"
  bk_predecessors :: "('n, 'f) path_edge \<rightharpoonup> ('p, 'n, 'f) trace"
  bk_stats :: "stat \<Rightarrow> int"

definition bk_new :: "('n, 'f, 'k) solver_run \<Rightarrow> string \<Rightarrow> ('p, 'n, 'f) bookkeeping" where
  "bk_new run label =
     \<lparr>bk_label = label, bk_started_at = env_clock (sr_env run) 0, bk_readings = 1,
      bk_tracing = (so_max_memory (sr_options run) \<noteq> None \<and> \<not> env_tracing (sr_env run)),
      bk_status = COMPLETE, bk_reason = None, bk_last_check = 0, bk_traces = Map.empty,
      bk_predecessors = Map.empty, bk_stats = (\<lambda>_. 0)\<rparr>"

definition increment :: "stat \<Rightarrow> ('p, 'n, 'f) bookkeeping \<Rightarrow> ('p, 'n, 'f) bookkeeping" where
  "increment k bk = bk\<lparr>bk_stats := (bk_stats bk)(k := bk_stats bk k + 1)\<rparr>"

definition observe :: "stat \<Rightarrow> int \<Rightarrow> ('p, 'n, 'f) bookkeeping \<Rightarrow> ('p, 'n, 'f) bookkeeping" where
  "observe k v bk = bk\<lparr>bk_stats := (bk_stats bk)(k := max (bk_stats bk k) v)\<rparr>"

text \<open>\<^verbatim>\<open>stop\<close>. The tracing it cleans up before raising dies with the run.\<close>

definition stop_run ::
  "('n, 'f, 'k) solver_run \<Rightarrow> analysis_status \<Rightarrow> stop_reason \<Rightarrow> ('p, 'n, 'f) bookkeeping \<Rightarrow>
   ('p, 'n, 'f) bookkeeping res" where
  "stop_run run status reason bk =
     (if so_limit_behavior (sr_options run) = ''raise'' \<and> status = PARTIAL then Inl SolverLimitExceeded
      else if bk_status bk = COMPLETE then Inr (bk\<lparr>bk_status := status, bk_reason := Some reason\<rparr>)
      else Inr bk)"

text \<open>The first of the limits that is exceeded.\<close>

fun first_exceeded :: "(string \<times> int \<times> int option) list \<Rightarrow> (string \<times> int) option" where
  "first_exceeded [] = None"
| "first_exceeded ((name, v, limit) # rest) =
     (case limit of
        Some l \<Rightarrow> if v > l then Some (name, l) else first_exceeded rest
      | None \<Rightarrow> first_exceeded rest)"

text \<open>The part of \<^verbatim>\<open>check_budget\<close> that looks at the clock and the memory.\<close>

definition timed_check ::
  "('n, 'f, 'k) solver_run \<Rightarrow> ('p, 'n, 'f) bookkeeping \<Rightarrow> ('p, 'n, 'f) bookkeeping res" where
  "timed_check run bk =
     (let opts = sr_options run;
          bk = increment budget_checks bk;
          now = env_clock (sr_env run) (bk_readings bk);
          peak = env_peak (sr_env run) (bk_readings bk);
          bk = bk\<lparr>bk_readings := bk_readings bk + 1,
                  bk_stats := (bk_stats bk)(elapsed_seconds := now - bk_started_at bk)\<rparr>
      in bind_res
        (case so_max_seconds opts of
           Some t \<Rightarrow> if now \<ge> bk_started_at bk + t
                     then stop_run run PARTIAL (Exceeded (bk_label bk) ''max_seconds'' t) bk else Inr bk
         | None \<Rightarrow> Inr bk)
        (\<lambda>bk. case so_max_memory opts of
           None \<Rightarrow> Inr bk
         | Some m \<Rightarrow>
             let bk = observe peak_memory_bytes peak bk in
             if peak > m then stop_run run PARTIAL (Exceeded (bk_label bk) ''max_memory_bytes'' m) bk
             else Inr bk))"

definition check_budget ::
  "('n, 'f, 'k) solver_run \<Rightarrow> int \<Rightarrow> int \<Rightarrow> int \<Rightarrow> bool \<Rightarrow> ('p, 'n, 'f) bookkeeping \<Rightarrow>
   ('p, 'n, 'f) bookkeeping res" where
  "check_budget run queue_size incoming summaries force bk =
     (if bk_status bk \<noteq> COMPLETE then Inr bk
      else
        let opts = sr_options run;
            bk = observe incoming_records incoming (observe peak_queue_size queue_size bk)
        in case first_exceeded
             [(''max_queue_size'', queue_size, so_max_queue opts),
              (''max_incoming_records'', incoming, so_max_incoming opts),
              (''max_summary_entries'', summaries, so_max_summaries opts)] of
          Some (name, limit) \<Rightarrow> stop_run run PARTIAL (Exceeded (bk_label bk) name limit) bk
        | None \<Rightarrow>
            let token = env_token (sr_env run) (bk_last_check bk) in
            if so_has_token opts \<and> tok_set token
            then stop_run run CANCELLED
              (CancelledBy (case tok_reason token of
                 None \<Rightarrow> ''cancelled'' | Some r \<Rightarrow> if r = [] then ''cancelled'' else r)) bk
            else
              let bk = bk\<lparr>bk_last_check := bk_last_check bk + 1\<rparr> in
              if \<not> force \<and> int (bk_last_check bk) mod so_interval opts \<noteq> 0 then Inr bk
              else timed_check run bk)"

definition record_propagation ::
  "('n, 'f, 'k) solver_run \<Rightarrow> ('n, 'f) path_edge \<Rightarrow> string \<Rightarrow> ('n, 'f) path_edge option \<Rightarrow>
   ('p, 'n) trace_note option \<Rightarrow> ('p, 'n, 'f) bookkeeping \<Rightarrow> ('p, 'n, 'f) bookkeeping res" where
  "record_propagation run edge kind predecessor note bk =
     (if bk_status bk \<noteq> COMPLETE then Inr bk
      else
        let opts = sr_options run;
            trace = PropagationTrace edge kind predecessor note;
            bk = (if so_trace_mode opts = ''all''
                  then bk\<lparr>bk_traces := (bk_traces bk)(edge \<mapsto> get_list (bk_traces bk) edge @ [trace])\<rparr>
                  else if so_trace_mode opts \<in> {''findings'', ''all''} \<and> bk_predecessors bk edge = None
                  then bk\<lparr>bk_predecessors := (bk_predecessors bk)(edge \<mapsto> trace)\<rparr>
                  else bk);
            bk = increment propagated_path_edges bk
        in case so_max_path_edges opts of
          Some limit \<Rightarrow>
            if bk_stats bk propagated_path_edges > limit
            then stop_run run PARTIAL (PropagationExceeded (bk_label bk) limit) bk
            else Inr bk
        | None \<Rightarrow> Inr bk)"

definition frozen_traces ::
  "('n, 'f, 'k) solver_run \<Rightarrow> ('p, 'n, 'f) bookkeeping \<Rightarrow>
   ('n, 'f) path_edge \<rightharpoonup> ('p, 'n, 'f) trace list" where
  "frozen_traces run bk =
     (if so_trace_mode (sr_options run) = ''all'' then bk_traces bk
      else (\<lambda>e. map_option (\<lambda>t. [t]) (bk_predecessors bk e)))"

definition finish ::
  "('n, 'f, 'k) solver_run \<Rightarrow> bool \<Rightarrow> ('p, 'n, 'f) bookkeeping \<Rightarrow> ('p, 'n, 'f) bookkeeping res" where
  "finish run check bk =
     bind_res (if check then check_budget run 0 0 0 True bk else Inr bk)
       (\<lambda>bk.
          let now = env_clock (sr_env run) (bk_readings bk);
              peak = env_peak (sr_env run) (bk_readings bk);
              bk = bk\<lparr>bk_readings := bk_readings bk + 1,
                      bk_stats := (bk_stats bk)(elapsed_seconds := now - bk_started_at bk)\<rparr>
          in Inr (if bk_tracing bk then (observe peak_memory_bytes peak bk)\<lparr>bk_tracing := False\<rparr> else bk))"

end
