(* ===== verification/ExplodedGraphs.thy ===== *)
theory ExplodedGraphs
  imports Supergraphs SolverBookkeeping
begin

text \<open>
  IFDS problems, \<^verbatim>\<open>analysis/ifds/core/problem.py\<close>, and what a solution of one is.

  An \<^verbatim>\<open>IFDSProblem\<close> is a record of its graph, its seeds and its four flow functions; an
  analysis overrides the flow functions, so they are fields. Two specifications of the
  solution follow: \<open>tabulated\<close>, the path edges that the tabulation rules derive, and
  \<open>realizable\<close>, the facts that runs of the program reach, with a stack of pending calls.
  The two agree at every node (\<open>tabulated_realizable\<close>), whatever the depth of the call
  strings: a context only splits a path edge, it never loses or adds a fact.
\<close>

section \<open>Problems\<close>

text \<open>A flow function may return plain facts or \<^verbatim>\<open>FactTransition\<close> wrappers.\<close>

datatype 'f flow_output = RawFact 'f | FactTransition 'f

fun transition_fact :: "'f flow_output \<Rightarrow> 'f" where
  "transition_fact (RawFact d) = d"
| "transition_fact (FactTransition d) = d"

record ('p, 'n, 'f) ifds_problem =
  ip_supergraph :: "('p, 'n) supergraph"
  ip_zero :: 'f
  ip_seeds :: "('n \<times> 'f list) list"
  ip_normal :: "'n \<Rightarrow> 'n \<Rightarrow> 'f \<Rightarrow> 'f flow_output list"
  ip_call :: "'n \<Rightarrow> 'p \<Rightarrow> 'f \<Rightarrow> 'f flow_output list"
  ip_return :: "'n \<Rightarrow> 'p \<Rightarrow> 'n \<Rightarrow> 'n \<Rightarrow> 'f \<Rightarrow> 'f \<Rightarrow> 'f flow_output list"
  ip_call_to_return :: "'n \<Rightarrow> 'n \<Rightarrow> 'f \<Rightarrow> 'f flow_output list"

text \<open>The flow combinators.\<close>

definition identity_flow :: "'f \<Rightarrow> 'f \<Rightarrow> 'f flow_output list" where
  "identity_flow zero d = (if d = zero then [RawFact zero] else [RawFact d])"

definition kill_flow :: "'f \<Rightarrow> 'f flow_output list" where
  "kill_flow d = []"

definition gen_flow :: "'f \<Rightarrow> 'f \<Rightarrow> 'f \<Rightarrow> 'f flow_output list" where
  "gen_flow generated zero d =
     (if d = zero then [RawFact generated] else [RawFact d, RawFact generated])"

text \<open>\<^verbatim>\<open>_normalize_ifds_transitions\<close>: unwrapped and in the order of the fact keys.\<close>

definition normalize_transitions :: "('f \<Rightarrow> 'k::linorder) \<Rightarrow> 'f flow_output list \<Rightarrow> 'f list" where
  "normalize_transitions key outputs = sort_key key (map transition_fact outputs)"

definition facts_of :: "'f flow_output list \<Rightarrow> 'f set" where
  "facts_of outputs = transition_fact ` set outputs"

lemma set_normalize [simp]: "set (normalize_transitions key outputs) = facts_of outputs"
  by (simp add: normalize_transitions_def facts_of_def)

abbreviation normals :: "('p, 'n, 'f) ifds_problem \<Rightarrow> 'n \<Rightarrow> 'n \<Rightarrow> 'f \<Rightarrow> 'f set" where
  "normals P n m d \<equiv> facts_of (ip_normal P n m d)"

abbreviation calls :: "('p, 'n, 'f) ifds_problem \<Rightarrow> 'n \<Rightarrow> 'p \<Rightarrow> 'f \<Rightarrow> 'f set" where
  "calls P n p d \<equiv> facts_of (ip_call P n p d)"

abbreviation returns :: "('p, 'n, 'f) ifds_problem \<Rightarrow> 'n \<Rightarrow> 'p \<Rightarrow> 'n \<Rightarrow> 'n \<Rightarrow> 'f \<Rightarrow> 'f \<Rightarrow> 'f set" where
  "returns P n p x r d d' \<equiv> facts_of (ip_return P n p x r d d')"

abbreviation bypasses :: "('p, 'n, 'f) ifds_problem \<Rightarrow> 'n \<Rightarrow> 'n \<Rightarrow> 'f \<Rightarrow> 'f set" where
  "bypasses P n r d \<equiv> facts_of (ip_call_to_return P n r d)"

section \<open>The path edges of a problem\<close>

inductive tabulated :: "('p, 'n, 'f) ifds_problem \<Rightarrow> int option \<Rightarrow> ('n, 'f) path_edge \<Rightarrow> bool"
  for P :: "('p, 'n, 'f) ifds_problem" and depth :: "int option" where
  seed: "(n, ds) \<in> set (ip_seeds P) \<Longrightarrow> d \<in> set ds \<Longrightarrow>
    tabulated P depth (PathEdge n d n d (seed_context depth))"
| normal: "tabulated P depth (PathEdge sn sd n d c) \<Longrightarrow>
    m \<in> normal_successors (ip_supergraph P) n \<Longrightarrow> d' \<in> normals P n m d \<Longrightarrow>
    tabulated P depth (PathEdge sn sd m d' c)"
| bypass: "tabulated P depth (PathEdge sn sd n d c) \<Longrightarrow> is_call_node (ip_supergraph P) n \<Longrightarrow>
    r \<in> call_to_return_successors (ip_supergraph P) n \<Longrightarrow> d' \<in> bypasses P n r d \<Longrightarrow>
    tabulated P depth (PathEdge sn sd r d' c)"
| call: "tabulated P depth (PathEdge sn sd n d c) \<Longrightarrow> is_call_node (ip_supergraph P) n \<Longrightarrow>
    p \<in> callees_of_call_at (ip_supergraph P) n \<Longrightarrow> entry_of (ip_supergraph P) p = Inr start \<Longrightarrow>
    d' \<in> calls P n p d \<Longrightarrow>
    tabulated P depth (PathEdge start d' start d' (push_context depth c n))"
| return: "tabulated P depth (PathEdge sn sd n d c) \<Longrightarrow> is_call_node (ip_supergraph P) n \<Longrightarrow>
    p \<in> callees_of_call_at (ip_supergraph P) n \<Longrightarrow> entry_of (ip_supergraph P) p = Inr start \<Longrightarrow>
    d1 \<in> calls P n p d \<Longrightarrow> r \<in> return_sites_of_call_at (ip_supergraph P) n \<Longrightarrow>
    tabulated P depth (PathEdge start d1 x d2 (push_context depth c n)) \<Longrightarrow>
    x \<in> exits_of (ip_supergraph P) p \<Longrightarrow> d3 \<in> returns P n p x r d d2 \<Longrightarrow>
    tabulated P depth (PathEdge sn sd r d3 c)"

section \<open>Runs\<close>

text \<open>A frame is a pending call: its node, the procedure it entered and its fact.\<close>

type_synonym ('p, 'n, 'f) frame = "'n \<times> 'p \<times> 'f"

inductive realizable :: "('p, 'n, 'f) ifds_problem \<Rightarrow> 'n \<Rightarrow> 'f \<Rightarrow> ('p, 'n, 'f) frame list \<Rightarrow> bool"
  for P :: "('p, 'n, 'f) ifds_problem" where
  start: "(n, ds) \<in> set (ip_seeds P) \<Longrightarrow> d \<in> set ds \<Longrightarrow> realizable P n d []"
| step: "realizable P n d stack \<Longrightarrow> m \<in> normal_successors (ip_supergraph P) n \<Longrightarrow>
    d' \<in> normals P n m d \<Longrightarrow> realizable P m d' stack"
| skip: "realizable P n d stack \<Longrightarrow> is_call_node (ip_supergraph P) n \<Longrightarrow>
    r \<in> call_to_return_successors (ip_supergraph P) n \<Longrightarrow> d' \<in> bypasses P n r d \<Longrightarrow>
    realizable P r d' stack"
| enter: "realizable P n d stack \<Longrightarrow> is_call_node (ip_supergraph P) n \<Longrightarrow>
    p \<in> callees_of_call_at (ip_supergraph P) n \<Longrightarrow> entry_of (ip_supergraph P) p = Inr start \<Longrightarrow>
    d' \<in> calls P n p d \<Longrightarrow> realizable P start d' ((n, p, d) # stack)"
| leave: "realizable P x d2 ((n, p, d) # stack) \<Longrightarrow> x \<in> exits_of (ip_supergraph P) p \<Longrightarrow>
    r \<in> return_sites_of_call_at (ip_supergraph P) n \<Longrightarrow> d3 \<in> returns P n p x r d d2 \<Longrightarrow>
    realizable P r d3 stack"

text \<open>A stack that the path edges account for: its top frame made the call that the source
  of the current edge starts from, and so on down to a seed.\<close>

inductive accounted ::
  "('p, 'n, 'f) ifds_problem \<Rightarrow> int option \<Rightarrow> 'n \<Rightarrow> 'f \<Rightarrow> 'n call_context option \<Rightarrow>
   ('p, 'n, 'f) frame list \<Rightarrow> bool"
  for P :: "('p, 'n, 'f) ifds_problem" and depth :: "int option" where
  bottom: "accounted P depth sn sd c []"
| frame: "tabulated P depth (PathEdge sn sd n d c) \<Longrightarrow> accounted P depth sn sd c stack \<Longrightarrow>
    is_call_node (ip_supergraph P) n \<Longrightarrow> p \<in> callees_of_call_at (ip_supergraph P) n \<Longrightarrow>
    entry_of (ip_supergraph P) p = Inr start \<Longrightarrow> d1 \<in> calls P n p d \<Longrightarrow>
    accounted P depth start d1 (push_context depth c n) ((n, p, d) # stack)"

inductive_cases accounted_ConsE: "accounted P depth sn sd c ((n, p, d) # stack)"

lemma realizable_tabulated:
  "realizable P n d stack \<Longrightarrow>
   \<exists>sn sd c. tabulated P depth (PathEdge sn sd n d c) \<and> accounted P depth sn sd c stack"
proof (induction rule: realizable.induct)
  case (start n ds d)
  then show ?case by (blast intro: tabulated.seed accounted.bottom)
next
  case (step n d stack m d')
  then show ?case by (blast intro: tabulated.normal)
next
  case (skip n d stack r d')
  then show ?case by (blast intro: tabulated.bypass)
next
  case (enter n d stack p start d')
  then obtain sn sd c where t: "tabulated P depth (PathEdge sn sd n d c)" and a: "accounted P depth sn sd c stack"
    by blast
  have "tabulated P depth (PathEdge start d' start d' (push_context depth c n))"
    by (rule tabulated.call[OF t enter.hyps(2-5)])
  moreover have "accounted P depth start d' (push_context depth c n) ((n, p, d) # stack)"
    by (rule accounted.frame[OF t a enter.hyps(2-5)])
  ultimately show ?case by blast
next
  case (leave x d2 n p d stack r d3)
  then obtain sn sd c where t: "tabulated P depth (PathEdge sn sd x d2 c)"
    and a: "accounted P depth sn sd c ((n, p, d) # stack)" by blast
  from a show ?case
  proof (rule accounted_ConsE)
    fix sn' sd' c'
    assume c: "c = push_context depth c' n" and t': "tabulated P depth (PathEdge sn' sd' n d c')"
      and a': "accounted P depth sn' sd' c' stack" and i: "is_call_node (ip_supergraph P) n"
      "p \<in> callees_of_call_at (ip_supergraph P) n" "entry_of (ip_supergraph P) p = Inr sn"
      "sd \<in> calls P n p d"
    have "tabulated P depth (PathEdge sn' sd' r d3 c')"
      by (rule tabulated.return[OF t' i leave.hyps(3) t[unfolded c] leave.hyps(2,4)])
    with a' show ?case by blast
  qed
qed

text \<open>Conversely: some run reaches the source of a path edge, and every run that does can be
  continued along the edge without touching the stack below.\<close>

lemma tabulated_realizable_edge:
  "tabulated P depth (PathEdge sn sd n d c) \<Longrightarrow>
   (\<exists>stack. realizable P sn sd stack) \<and> (\<forall>stack. realizable P sn sd stack \<longrightarrow> realizable P n d stack)"
proof (induction "PathEdge sn sd n d c" arbitrary: sn sd n d c rule: tabulated.induct)
  case (seed n ds d)
  then show ?case by (blast intro: realizable.start)
next
  case (normal sn sd n d c m d')
  then show ?case by (blast intro: realizable.step)
next
  case (bypass sn sd n d c r d')
  then show ?case by (blast intro: realizable.skip)
next
  case (call sn sd n d c p start d')
  then show ?case by (blast intro: realizable.enter)
next
  case (return sn sd n d c p start d1 r x d2 d3)
  have "realizable P r d3 stack" if "realizable P sn sd stack" for stack
  proof -
    have "realizable P n d stack" using return.hyps(2) that by blast
    then have "realizable P start d1 ((n, p, d) # stack)"
      by (rule realizable.enter[OF _ return.hyps(3-6)])
    then have "realizable P x d2 ((n, p, d) # stack)" using return.hyps(9) by blast
    then show ?thesis by (rule realizable.leave[OF _ return.hyps(10,7,11)])
  qed
  then show ?case using return.hyps(2) by blast
qed

definition reachable_fact :: "('p, 'n, 'f) ifds_problem \<Rightarrow> 'n \<Rightarrow> 'f \<Rightarrow> bool" where
  "reachable_fact P n d \<longleftrightarrow> (\<exists>stack. realizable P n d stack)"

lemma tabulated_realizable:
  "(\<exists>sn sd c. tabulated P depth (PathEdge sn sd n d c)) \<longleftrightarrow> reachable_fact P n d"
proof
  assume "\<exists>sn sd c. tabulated P depth (PathEdge sn sd n d c)"
  then obtain sn sd c where "tabulated P depth (PathEdge sn sd n d c)" by blast
  from tabulated_realizable_edge[OF this] show "reachable_fact P n d"
    by (auto simp: reachable_fact_def)
next
  assume "reachable_fact P n d"
  then obtain stack where "realizable P n d stack" by (auto simp: reachable_fact_def)
  from realizable_tabulated[OF this, of depth] show "\<exists>sn sd c. tabulated P depth (PathEdge sn sd n d c)"
    by blast
qed

section \<open>Well-formed problems\<close>

definition problem_wf :: "('p, 'n, 'f) ifds_problem \<Rightarrow> bool" where
  "problem_wf P \<longleftrightarrow> sg_wf (ip_supergraph P) \<and>
     (\<forall>(n, ds) \<in> set (ip_seeds P). known_node (ip_supergraph P) n)"

text \<open>Both ends of a path edge belong to the same procedure.\<close>

lemma tabulated_same_procedure:
  assumes "problem_wf P" "tabulated P depth e"
  shows "\<exists>p. procedure_of (ip_supergraph P) (source_node e) = Inr p \<and>
             procedure_of (ip_supergraph P) (edge_node e) = Inr p"
  using assms(2)
proof (induction rule: tabulated.induct)
  case (seed n ds d)
  then show ?case using assms(1) by (fastforce simp: problem_wf_def known_node_def procedure_of_def)
next
  case (normal sn sd n d c m d')
  then show ?case using assms(1) sg_wf_normal[of "ip_supergraph P" m n] by (fastforce simp: problem_wf_def)
next
  case (bypass sn sd n d c r d')
  then show ?case using assms(1) sg_wf_return_sites[of "ip_supergraph P" r n]
    by (fastforce simp: problem_wf_def sg_wf_call_to_return)
next
  case (call sn sd n d c p start d')
  then show ?case using assms(1) sg_wf_entry[of "ip_supergraph P" p start] by (auto simp: problem_wf_def)
next
  case (return sn sd n d c p start d1 r x d2 d3)
  then show ?case using assms(1) sg_wf_return_sites[of "ip_supergraph P" r n] by (fastforce simp: problem_wf_def)
qed

end
