(* ===== verification/StepLogic.thy ===== *)
theory StepLogic
  imports PyBase
begin

text \<open>
  Reasoning about the loops of a solver. A step maps a state to a state or raises; the
  states of one run are ordered by \<open>grows\<close>, and a state is \<open>live\<close> while the run has not been
  stopped. A step meets a contract when from every state that satisfies the invariant it
  either raises an exception of the allowed kind or ends in a larger state that satisfies the
  invariant again and, if the run is still live, the postcondition.

  The locale gives the rules for sequencing and for loops once; the forward and the backward
  IFDS solver interpret it on their own states.
\<close>

definition meets ::
  "('s \<Rightarrow> 's \<Rightarrow> bool) \<Rightarrow> ('s \<Rightarrow> bool) \<Rightarrow> (py_error \<Rightarrow> bool) \<Rightarrow>
   ('s \<Rightarrow> bool) \<Rightarrow> ('s \<Rightarrow> 's res) \<Rightarrow> ('s \<Rightarrow> bool) \<Rightarrow> bool" where
  "meets grows live fails I f Q \<longleftrightarrow>
     (\<forall>s. I s \<longrightarrow> (case f s of Inl e \<Rightarrow> fails e | Inr s' \<Rightarrow> I s' \<and> grows s s' \<and> (live s' \<longrightarrow> Q s')))"

definition lasting :: "('s \<Rightarrow> 's \<Rightarrow> bool) \<Rightarrow> ('s \<Rightarrow> bool) \<Rightarrow> ('s \<Rightarrow> bool) \<Rightarrow> bool" where
  "lasting grows live Q \<longleftrightarrow> (\<forall>s s'. grows s s' \<longrightarrow> live s' \<longrightarrow> Q s \<longrightarrow> Q s')"

lemma meetsI:
  assumes "\<And>s e. I s \<Longrightarrow> f s = Inl e \<Longrightarrow> fails e"
    and "\<And>s s'. I s \<Longrightarrow> f s = Inr s' \<Longrightarrow> I s' \<and> grows s s' \<and> (live s' \<longrightarrow> Q s')"
  shows "meets grows live fails I f Q"
  unfolding meets_def
proof (intro allI impI)
  fix s assume "I s"
  then show "case f s of Inl e \<Rightarrow> fails e | Inr s' \<Rightarrow> I s' \<and> grows s s' \<and> (live s' \<longrightarrow> Q s')"
    using assms[of s] by (cases "f s") auto
qed

lemma meetsD:
  assumes "meets grows live fails I f Q" "I s" "f s = Inr s'"
  shows "I s'" "grows s s'" "live s' \<Longrightarrow> Q s'"
  using assms by (force simp: meets_def)+

lemma meets_fails: "meets grows live fails I f Q \<Longrightarrow> I s \<Longrightarrow> f s = Inl e \<Longrightarrow> fails e"
  by (force simp: meets_def)

lemma meets_weaken:
  assumes "meets grows live fails I f Q" "\<And>s. I s \<Longrightarrow> live s \<Longrightarrow> Q s \<Longrightarrow> R s"
  shows "meets grows live fails I f R"
  by (rule meetsI) (use assms in \<open>auto dest: meetsD meets_fails\<close>)

lemma lasting_True [intro, simp]: "lasting grows live (\<lambda>_. True)"
  by (simp add: lasting_def)

lemma lasting_conj [intro]:
  "lasting grows live Q \<Longrightarrow> lasting grows live R \<Longrightarrow> lasting grows live (\<lambda>s. Q s \<and> R s)"
  by (auto simp: lasting_def)

lemma lasting_ball [intro]:
  "(\<And>x. x \<in> A \<Longrightarrow> lasting grows live (Q x)) \<Longrightarrow> lasting grows live (\<lambda>s. \<forall>x\<in>A. Q x s)"
  by (auto simp: lasting_def)

locale step_logic =
  fixes grows :: "'s \<Rightarrow> 's \<Rightarrow> bool" and live :: "'s \<Rightarrow> bool" and fails :: "py_error \<Rightarrow> bool"
  assumes grows_refl: "grows s s"
    and grows_trans: "grows s t \<Longrightarrow> grows t u \<Longrightarrow> grows s u"
    and live_before: "grows s t \<Longrightarrow> live t \<Longrightarrow> live s"
begin

lemma meets_skip: "meets grows live fails I Inr (\<lambda>_. True)"
  by (rule meetsI) (auto simp: grows_refl)

lemma meets_bind:
  assumes "meets grows live fails I f Q" "meets grows live fails I h R" "lasting grows live Q"
  shows "meets grows live fails I (\<lambda>s. bind_res (f s) h) (\<lambda>s. Q s \<and> R s)"
proof (rule meetsI)
  fix s e assume s: "I s" "bind_res (f s) h = Inl e"
  show "fails e"
  proof (cases "f s")
    case (Inl e')
    then show ?thesis using s meets_fails[OF assms(1) s(1)] by simp
  next
    case (Inr t)
    then show ?thesis using s meets_fails[OF assms(2) meetsD(1)[OF assms(1) s(1) Inr]] by simp
  qed
next
  fix s u assume s: "I s" "bind_res (f s) h = Inr u"
  then obtain t where f: "f s = Inr t" and h: "h t = Inr u" by (auto simp: bind_res_eq_Inr)
  note t = meetsD[OF assms(1) s(1) f]
  note u = meetsD[OF assms(2) t(1) h]
  have "Q u" if "live u"
    using assms(3) u(2) that t(3)[OF live_before[OF u(2) that]] by (auto simp: lasting_def)
  then show "I u \<and> grows s u \<and> (live u \<longrightarrow> Q u \<and> R u)"
    using u t grows_trans by blast
qed

lemma meets_fold:
  assumes "\<And>x. x \<in> set xs \<Longrightarrow> meets grows live fails I (f x) (Q x)"
    and "\<And>x. x \<in> set xs \<Longrightarrow> lasting grows live (Q x)"
  shows "meets grows live fails I (fold_res f xs) (\<lambda>s. \<forall>x\<in>set xs. Q x s)"
  using assms
proof (induction xs)
  case Nil
  then show ?case using meets_skip by (simp add: meets_def)
next
  case (Cons x xs)
  have "meets grows live fails I (\<lambda>s. bind_res (f x s) (fold_res f xs))
      (\<lambda>s. Q x s \<and> (\<forall>x\<in>set xs. Q x s))"
    using Cons by (intro meets_bind) auto
  then show ?case by (simp add: meets_def)
qed

text \<open>A step that is entered through a change of the state that the invariant and the order
  do not see.\<close>

lemma meets_after:
  assumes "meets grows live fails I f Q" "\<And>s. I s \<Longrightarrow> I (h s) \<and> grows s (h s)"
  shows "meets grows live fails I (\<lambda>s. f (h s)) Q"
proof (rule meetsI)
  fix s e assume s: "I s" "f (h s) = Inl e"
  show "fails e" by (rule meets_fails[OF assms(1) conjunct1[OF assms(2)[OF s(1)]] s(2)])
next
  fix s s' assume s: "I s" "f (h s) = Inr s'"
  note h = assms(2)[OF s(1)]
  note r = meetsD[OF assms(1) conjunct1[OF h] s(2)]
  show "I s' \<and> grows s s' \<and> (live s' \<longrightarrow> Q s')"
    using r(1,3) grows_trans[OF conjunct2[OF h] r(2)] by simp
qed

end

end
