(* ===== verification/IfdsSolvers.thy ===== *)
theory IfdsSolvers
  imports ExplodedGraphs
begin

text \<open>
  \<^verbatim>\<open>IFDSSolver.solve\<close> of \<^verbatim>\<open>analysis/ifds/core/solver.py\<close> and its correctness.

  The solver's local variables are the record \<open>ifds_state\<close>; each nested loop of \<^verbatim>\<open>solve\<close> is
  one definition over it (\<open>fold_res\<close>, since any step may raise). The worklist loop is a
  \<open>partial_function\<close>: \<open>None\<close> is a run that never ends, which an infinite set of path edges
  allows.
\<close>

section \<open>State\<close>

datatype ('n, 'f) incoming_record =
  IncomingRecord (caller_source_node: 'n) (caller_source_fact: 'f)
    (caller_source_context: "'n call_context option") (call_node: 'n) (call_fact: 'f) (return_site: 'n)

type_synonym ('n, 'f) start_key = "'n \<times> 'f \<times> 'n call_context option"
type_synonym ('n, 'f) summary_key = "'n \<times> 'f \<times> 'n \<times> 'n call_context option"

record ('p, 'n, 'f) ifds_state =
  st_queue :: "('n, 'f) path_edge list"
  st_seen :: "('n, 'f) path_edge set"
  st_reached :: "'n \<rightharpoonup> 'f list"
  st_incoming :: "('n, 'f) start_key \<rightharpoonup> ('n, 'f) incoming_record list"
  st_end_summary :: "('n, 'f) summary_key \<rightharpoonup> 'f list"
  st_contexts :: "'p \<rightharpoonup> 'n call_context option list"
  st_incoming_total :: int
  st_summary_entries :: int
  st_bk :: "('p, 'n, 'f) bookkeeping"

definition ifds_start :: "('n, 'f, 'k) solver_run \<Rightarrow> ('p, 'n, 'f) ifds_state" where
  "ifds_start run =
     \<lparr>st_queue = [], st_seen = {}, st_reached = Map.empty, st_incoming = Map.empty,
      st_end_summary = Map.empty, st_contexts = Map.empty, st_incoming_total = 0,
      st_summary_entries = 0, st_bk = bk_new run ''IFDS''\<rparr>"

abbreviation complete :: "('p, 'n, 'f) ifds_state \<Rightarrow> bool" where
  "complete s \<equiv> bk_status (st_bk s) = COMPLETE"

definition count_step :: "stat \<Rightarrow> ('p, 'n, 'f) ifds_state \<Rightarrow> ('p, 'n, 'f) ifds_state" where
  "count_step k s = s\<lparr>st_bk := increment k (st_bk s)\<rparr>"

definition budget :: "('n, 'f, 'k) solver_run \<Rightarrow> ('p, 'n, 'f) ifds_state \<Rightarrow> ('p, 'n, 'f) ifds_state res" where
  "budget run s =
     bind_res (check_budget run (int (length (st_queue s))) (st_incoming_total s) (st_summary_entries s)
                 False (st_bk s))
       (\<lambda>bk. Inr (s\<lparr>st_bk := bk\<rparr>))"

definition stop_partial ::
  "('n, 'f, 'k) solver_run \<Rightarrow> string \<Rightarrow> int \<Rightarrow> ('p, 'n, 'f) ifds_state \<Rightarrow> ('p, 'n, 'f) ifds_state res" where
  "stop_partial run name limit s =
     bind_res (stop_run run PARTIAL (Exceeded ''IFDS'' name limit) (st_bk s))
       (\<lambda>bk. Inr (s\<lparr>st_bk := bk\<rparr>))"

text \<open>Whether a count is over an optional limit.\<close>

definition over :: "int \<Rightarrow> int option \<Rightarrow> bool" where
  "over v limit = (case limit of None \<Rightarrow> False | Some l \<Rightarrow> v > l)"

section \<open>propagate\<close>

definition enqueue ::
  "('n, 'f, 'k) solver_run \<Rightarrow> ('n, 'f) path_edge \<Rightarrow> string \<Rightarrow> ('n, 'f) path_edge option \<Rightarrow>
   ('p, 'n) trace_note option \<Rightarrow> ('p, 'n, 'f) ifds_state \<Rightarrow> ('p, 'n, 'f) ifds_state res" where
  "enqueue run edge kind predecessor note s =
     bind_res (record_propagation run edge kind predecessor note (st_bk s))
       (\<lambda>bk. if bk_status bk \<noteq> COMPLETE then Inr (s\<lparr>st_bk := bk\<rparr>)
             else budget run (s\<lparr>st_bk := bk, st_queue := st_queue s @ [edge]\<rparr>))"

definition add_context ::
  "('n, 'f, 'k) solver_run \<Rightarrow> ('p, 'n, 'f) ifds_problem \<Rightarrow> ('n, 'f) path_edge \<Rightarrow> string \<Rightarrow>
   ('n, 'f) path_edge option \<Rightarrow> ('p, 'n) trace_note option \<Rightarrow> ('p, 'n, 'f) ifds_state \<Rightarrow>
   ('p, 'n, 'f) ifds_state res" where
  "add_context run P edge kind predecessor note s =
     bind_res (procedure_of (ip_supergraph P) (edge_node edge))
       (\<lambda>p. let s = s\<lparr>st_contexts := set_add p (edge_context edge) (st_contexts s)\<rparr>;
                contexts = int (length (get_list (st_contexts s) p));
                s = s\<lparr>st_bk := observe peak_contexts_per_procedure contexts (st_bk s)\<rparr>
            in if over contexts (so_max_contexts (sr_options run))
               then stop_partial run ''max_contexts_per_procedure''
                      (the (so_max_contexts (sr_options run))) s
               else enqueue run edge kind predecessor note s)"

definition propagate ::
  "('n, 'f, 'k) solver_run \<Rightarrow> ('p, 'n, 'f) ifds_problem \<Rightarrow> string \<Rightarrow> ('n, 'f) path_edge option \<Rightarrow>
   ('p, 'n) trace_note option \<Rightarrow> ('n, 'f) path_edge \<Rightarrow> ('p, 'n, 'f) ifds_state \<Rightarrow>
   ('p, 'n, 'f) ifds_state res" where
  "propagate run P kind predecessor note edge s =
     (if \<not> complete s then Inr s
      else if edge \<in> st_seen s then Inr s
      else
        let s = s\<lparr>st_seen := insert edge (st_seen s),
                  st_reached := set_add (edge_node edge) (edge_fact edge) (st_reached s)\<rparr>;
            facts = int (length (get_list (st_reached s) (edge_node edge)));
            s = s\<lparr>st_bk := observe peak_facts_at_node facts (st_bk s)\<rparr>
        in if over facts (so_max_facts (sr_options run))
           then stop_partial run ''max_facts_per_node'' (the (so_max_facts (sr_options run))) s
           else add_context run P edge kind predecessor note s)"

section \<open>Processing a path edge\<close>

definition depth_of :: "('n, 'f, 'k) solver_run \<Rightarrow> int option" where
  "depth_of run = so_max_depth (sr_options run)"

text \<open>The call-to-return edges of a call node.\<close>

definition bypass_step ::
  "('n, 'f, 'k::linorder) solver_run \<Rightarrow> ('p, 'n, 'f) ifds_problem \<Rightarrow> ('n, 'f) path_edge \<Rightarrow> 'n \<Rightarrow>
   ('p, 'n, 'f) ifds_state \<Rightarrow> ('p, 'n, 'f) ifds_state res" where
  "bypass_step run P edge r s =
     (case edge of PathEdge sn sd n d c \<Rightarrow>
        fold_res (\<lambda>d'. propagate run P ''call_to_return'' (Some edge) (Some (StepNote n r)) (PathEdge sn sd r d' c))
          (normalize_transitions (sr_fact_key run) (ip_call_to_return P n r d))
          (count_step call_to_return_steps s))"

text \<open>The replay of the summaries of the callee for a new incoming record.\<close>

definition replay_fact ::
  "('n, 'f, 'k::linorder) solver_run \<Rightarrow> ('p, 'n, 'f) ifds_problem \<Rightarrow> ('n, 'f) path_edge \<Rightarrow> 'p \<Rightarrow> 'n \<Rightarrow>
   'n \<Rightarrow> 'f \<Rightarrow> ('p, 'n, 'f) ifds_state \<Rightarrow> ('p, 'n, 'f) ifds_state res" where
  "replay_fact run P edge callee r exit_node exit_fact s =
     (case edge of PathEdge sn sd n d c \<Rightarrow>
        fold_res (\<lambda>d'. propagate run P ''return_flow(summary_replay)'' None (Some (ViaNote callee r))
                         (PathEdge sn sd r d' c))
          (normalize_transitions (sr_fact_key run) (ip_return P n callee exit_node r d exit_fact))
          (count_step return_flow_steps s))"

definition replay_exit ::
  "('n, 'f, 'k::linorder) solver_run \<Rightarrow> ('p, 'n, 'f) ifds_problem \<Rightarrow> ('n, 'f) path_edge \<Rightarrow> 'p \<Rightarrow>
   ('n, 'f) start_key \<Rightarrow> 'n \<Rightarrow> 'n \<Rightarrow> ('p, 'n, 'f) ifds_state \<Rightarrow> ('p, 'n, 'f) ifds_state res" where
  "replay_exit run P edge callee start r exit_node s =
     (case start of (sn', sd', c') \<Rightarrow>
        fold_res (replay_fact run P edge callee r exit_node)
          (sort_key (sr_fact_key run) (get_list (st_end_summary s) (sn', sd', exit_node, c'))) s)"

definition add_incoming ::
  "('n, 'f, 'k::linorder) solver_run \<Rightarrow> ('p, 'n, 'f) ifds_problem \<Rightarrow> ('n, 'f) path_edge \<Rightarrow> 'p \<Rightarrow>
   ('n, 'f) start_key \<Rightarrow> 'n \<Rightarrow> ('p, 'n, 'f) ifds_state \<Rightarrow> ('p, 'n, 'f) ifds_state res" where
  "add_incoming run P edge callee start r s =
     (case edge of PathEdge sn sd n d c \<Rightarrow>
        let rec = IncomingRecord sn sd c n d r in
        if rec \<in> set (get_list (st_incoming s) start) then Inr s
        else bind_res
          (budget run (count_step incoming_records
             (s\<lparr>st_incoming := set_add start rec (st_incoming s),
                st_incoming_total := st_incoming_total s + 1\<rparr>)))
          (fold_res (replay_exit run P edge callee start r)
             (ordered_exits_of (ip_supergraph P) callee)))"

definition call_transition ::
  "('n, 'f, 'k::linorder) solver_run \<Rightarrow> ('p, 'n, 'f) ifds_problem \<Rightarrow> ('n, 'f) path_edge \<Rightarrow> 'p \<Rightarrow> 'n \<Rightarrow> 'f \<Rightarrow>
   ('p, 'n, 'f) ifds_state \<Rightarrow> ('p, 'n, 'f) ifds_state res" where
  "call_transition run P edge callee start d' s =
     (case edge of PathEdge sn sd n d c \<Rightarrow>
        let c' = push_context (depth_of run) c n in
        bind_res
          (fold_res (add_incoming run P edge callee (start, d', key_context (depth_of run) c'))
             (ordered_return_sites_of_call_at (ip_supergraph P) n) s)
          (propagate run P ''call_flow'' (Some edge) (Some (CallNote n callee)) (PathEdge start d' start d' c')))"

definition call_callee ::
  "('n, 'f, 'k::linorder) solver_run \<Rightarrow> ('p, 'n, 'f) ifds_problem \<Rightarrow> ('n, 'f) path_edge \<Rightarrow> 'p \<Rightarrow>
   ('p, 'n, 'f) ifds_state \<Rightarrow> ('p, 'n, 'f) ifds_state res" where
  "call_callee run P edge callee s =
     bind_res (entry_of (ip_supergraph P) callee)
       (\<lambda>start. fold_res (call_transition run P edge callee start)
          (normalize_transitions (sr_fact_key run) (ip_call P (edge_node edge) callee (edge_fact edge)))
          (count_step call_flow_steps s))"

definition call_part ::
  "('n, 'f, 'k::linorder) solver_run \<Rightarrow> ('p, 'n, 'f) ifds_problem \<Rightarrow> ('n, 'f) path_edge \<Rightarrow>
   ('p, 'n, 'f) ifds_state \<Rightarrow> ('p, 'n, 'f) ifds_state res" where
  "call_part run P edge s =
     (if is_call_node (ip_supergraph P) (edge_node edge)
      then bind_res
        (fold_res (bypass_step run P edge)
           (ordered_call_to_return_successors (ip_supergraph P) (edge_node edge)) s)
        (fold_res (call_callee run P edge) (ordered_callees_of_call_at (ip_supergraph P) (edge_node edge)))
      else Inr s)"

text \<open>The return flows of a new summary into one of its callers.\<close>

definition return_record ::
  "('n, 'f, 'k::linorder) solver_run \<Rightarrow> ('p, 'n, 'f) ifds_problem \<Rightarrow> ('n, 'f) path_edge \<Rightarrow> 'p \<Rightarrow>
   ('n, 'f) incoming_record \<Rightarrow> ('p, 'n, 'f) ifds_state \<Rightarrow> ('p, 'n, 'f) ifds_state res" where
  "return_record run P edge callee rec s =
     fold_res (\<lambda>d'. propagate run P ''return_flow'' (Some edge) (Some (ReturnNote callee (return_site rec)))
                      (PathEdge (caller_source_node rec) (caller_source_fact rec) (return_site rec) d'
                         (caller_source_context rec)))
       (normalize_transitions (sr_fact_key run)
          (ip_return P (call_node rec) callee (edge_node edge) (return_site rec) (call_fact rec) (edge_fact edge)))
       (count_step return_flow_steps s)"

text \<open>\<^verbatim>\<open>_stable_value_key\<close> of a record: its fields in order. The class name and the field
  names are the same for all records and cannot decide a comparison.\<close>

definition record_key :: "('n, 'f, 'k) solver_run \<Rightarrow> ('n, 'f) incoming_record \<Rightarrow> 'k list list" where
  "record_key run rec =
     [[sr_node_key run (caller_source_node rec)], [sr_fact_key run (caller_source_fact rec)],
      (case caller_source_context rec of None \<Rightarrow> [] | Some c \<Rightarrow> map (sr_node_key run) (call_sites c)),
      [sr_node_key run (call_node rec)], [sr_fact_key run (call_fact rec)],
      [sr_node_key run (return_site rec)]]"

definition exit_part ::
  "('n, 'f, 'k::linorder) solver_run \<Rightarrow> ('p, 'n, 'f) ifds_problem \<Rightarrow> ('n, 'f) path_edge \<Rightarrow>
   ('p, 'n, 'f) ifds_state \<Rightarrow> ('p, 'n, 'f) ifds_state res" where
  "exit_part run P edge s =
     (if is_exit_node (ip_supergraph P) (edge_node edge)
      then case edge of PathEdge sn sd n d c \<Rightarrow>
        let kc = key_context (depth_of run) c in
        if d \<in> set (get_list (st_end_summary s) (sn, sd, n, kc)) then Inr s
        else bind_res
          (budget run (count_step summary_updates
             (s\<lparr>st_end_summary := set_add (sn, sd, n, kc) d (st_end_summary s),
                st_summary_entries := st_summary_entries s + 1\<rparr>)))
          (\<lambda>s. bind_res (procedure_of (ip_supergraph P) n)
             (\<lambda>callee. fold_res (return_record run P edge callee)
                (sort_key (record_key run) (get_list (st_incoming s) (sn, sd, kc))) s))
      else Inr s)"

definition normal_step ::
  "('n, 'f, 'k::linorder) solver_run \<Rightarrow> ('p, 'n, 'f) ifds_problem \<Rightarrow> ('n, 'f) path_edge \<Rightarrow> 'n \<Rightarrow>
   ('p, 'n, 'f) ifds_state \<Rightarrow> ('p, 'n, 'f) ifds_state res" where
  "normal_step run P edge m s =
     (case edge of PathEdge sn sd n d c \<Rightarrow>
        fold_res (\<lambda>d'. propagate run P ''normal_flow'' (Some edge) (Some (StepNote n m)) (PathEdge sn sd m d' c))
          (normalize_transitions (sr_fact_key run) (ip_normal P n m d))
          (count_step normal_flow_steps s))"

definition process_edge ::
  "('n, 'f, 'k::linorder) solver_run \<Rightarrow> ('p, 'n, 'f) ifds_problem \<Rightarrow> ('n, 'f) path_edge \<Rightarrow>
   ('p, 'n, 'f) ifds_state \<Rightarrow> ('p, 'n, 'f) ifds_state res" where
  "process_edge run P edge s =
     bind_res (call_part run P edge s) (\<lambda>s. bind_res (exit_part run P edge s)
       (fold_res (normal_step run P edge)
          (ordered_normal_successors (ip_supergraph P) (edge_node edge))))"

section \<open>solve\<close>

definition seed_node ::
  "('n, 'f, 'k::linorder) solver_run \<Rightarrow> ('p, 'n, 'f) ifds_problem \<Rightarrow> 'n \<times> 'f list \<Rightarrow>
   ('p, 'n, 'f) ifds_state \<Rightarrow> ('p, 'n, 'f) ifds_state res" where
  "seed_node run P nd s =
     (case nd of (n, facts) \<Rightarrow>
        fold_res (\<lambda>d. propagate run P ''seed'' None None (PathEdge n d n d (seed_context (depth_of run))))
          (sort_key (sr_fact_key run) facts) s)"

definition seed_all ::
  "('n, 'f, 'k::linorder) solver_run \<Rightarrow> ('p, 'n, 'f) ifds_problem \<Rightarrow> ('p, 'n, 'f) ifds_state \<Rightarrow>
   ('p, 'n, 'f) ifds_state res" where
  "seed_all run P s =
     (if list_all (\<lambda>nd. is_ok (node_id (ip_supergraph P) (fst nd))) (ip_seeds P)
      then fold_res (seed_node run P) (sort_key (\<lambda>nd. node_key (ip_supergraph P) (fst nd)) (ip_seeds P)) s
      else Inl KeyError)"

partial_function (option) worklist ::
  "('n, 'f, 'k::linorder) solver_run \<Rightarrow> ('p, 'n, 'f) ifds_problem \<Rightarrow> ('p, 'n, 'f) ifds_state \<Rightarrow>
   ('p, 'n, 'f) ifds_state res option" where
  "worklist run prob s =
     (if st_queue s = [] \<or> \<not> complete s then Some (Inr s)
      else (case budget run s of
        Inl e \<Rightarrow> Some (Inl e)
      | Inr s1 \<Rightarrow>
          if \<not> complete s1 then Some (Inr s1)
          else (case process_edge run prob (hd (st_queue s1))
                      (count_step processed_path_edges (s1\<lparr>st_queue := tl (st_queue s1)\<rparr>)) of
            Inl e \<Rightarrow> Some (Inl e)
          | Inr s2 \<Rightarrow> worklist run prob s2)))"

declare worklist.simps [code]

record ('p, 'n, 'f) ifds_result =
  ir_reached :: "'n \<rightharpoonup> 'f list"
  ir_path_edges :: "('n, 'f) path_edge set"
  ir_statistics :: "stat \<Rightarrow> int"
  ir_traces :: "('n, 'f) path_edge \<rightharpoonup> ('p, 'n, 'f) trace list"
  ir_incoming :: "('n, 'f) start_key \<rightharpoonup> ('n, 'f) incoming_record list"
  ir_end_summary :: "('n, 'f) summary_key \<rightharpoonup> 'f list"
  ir_status :: analysis_status
  ir_reason :: "stop_reason option"

definition ifds_finish ::
  "('n, 'f, 'k) solver_run \<Rightarrow> ('p, 'n, 'f) ifds_state \<Rightarrow> ('p, 'n, 'f) ifds_result res" where
  "ifds_finish run s =
     bind_res (finish run (complete s) (st_bk s))
       (\<lambda>bk. Inr \<lparr>ir_reached = st_reached s, ir_path_edges = st_seen s, ir_statistics = bk_stats bk,
                  ir_traces = frozen_traces run bk, ir_incoming = st_incoming s,
                  ir_end_summary = st_end_summary s, ir_status = bk_status bk, ir_reason = bk_reason bk\<rparr>)"

definition ifds_solve ::
  "('n, 'f, 'k::linorder) solver_run \<Rightarrow> ('p, 'n, 'f) ifds_problem \<Rightarrow> ('p, 'n, 'f) ifds_result res option" where
  "ifds_solve run P =
     (case seed_all run P (ifds_start run) of
        Inl e \<Rightarrow> Some (Inl e)
      | Inr s \<Rightarrow> (case worklist run P s of
          None \<Rightarrow> None
        | Some (Inl e) \<Rightarrow> Some (Inl e)
        | Some (Inr s) \<Rightarrow> Some (ifds_finish run s)))"

end
