(* ===== verification/IfdsCorrectness.thy ===== *)
theory IfdsCorrectness
  imports IfdsSolvers StepLogic
begin

text \<open>
  Correctness of \<^verbatim>\<open>IFDSSolver.solve\<close>. The state of the solver is sound at every moment
  (\<open>ifds_inv\<close>: everything it has recorded is derivable), a processed path edge has left all
  its consequences (\<open>processed\<close>), and each new edge is queued; so a run that ends complete has
  exactly the derivable path edges, which are the facts of the runs of the program.
\<close>

section \<open>The order of the states of a run\<close>

text \<open>Whether a run can be stopped at all.\<close>

definition stoppable :: "('n, 'f, 'k) solver_run \<Rightarrow> bool" where
  "stoppable run \<longleftrightarrow>
     so_has_token (sr_options run) \<or>
     (\<exists>limit\<in>{so_max_path_edges (sr_options run), so_max_seconds (sr_options run),
        so_max_queue (sr_options run), so_max_incoming (sr_options run),
        so_max_summaries (sr_options run), so_max_facts (sr_options run),
        so_max_contexts (sr_options run), so_max_memory (sr_options run)}. limit \<noteq> None)"

definition limit_error :: "('n, 'f, 'k) solver_run \<Rightarrow> py_error \<Rightarrow> bool" where
  "limit_error run e \<longleftrightarrow>
     e = SolverLimitExceeded \<and> so_limit_behavior (sr_options run) = ''raise'' \<and> stoppable run"

text \<open>Tables of sets, compared entry by entry.\<close>

definition table_le :: "('k \<rightharpoonup> 'v list) \<Rightarrow> ('k \<rightharpoonup> 'v list) \<Rightarrow> bool" where
  "table_le m m' \<longleftrightarrow> (\<forall>k. set (get_list m k) \<subseteq> set (get_list m' k))"

lemma table_le_refl [simp]: "table_le m m"
  by (simp add: table_le_def)

lemma table_le_trans: "table_le m m' \<Longrightarrow> table_le m' m'' \<Longrightarrow> table_le m m''"
  unfolding table_le_def by (meson subset_trans)

lemma table_leD: "table_le m m' \<Longrightarrow> v \<in> set (get_list m k) \<Longrightarrow> v \<in> set (get_list m' k)"
  unfolding table_le_def by blast

lemma table_le_add [simp]: "table_le m (set_add k v m)"
  by (auto simp: table_le_def)

text \<open>A state later in the same run.\<close>

definition ifds_grows ::
  "('n, 'f, 'k) solver_run \<Rightarrow> ('p, 'n, 'f) ifds_state \<Rightarrow> ('p, 'n, 'f) ifds_state \<Rightarrow> bool" where
  "ifds_grows run s s' \<longleftrightarrow>
     st_seen s \<subseteq> st_seen s' \<and>
     table_le (st_incoming s) (st_incoming s') \<and> table_le (st_end_summary s) (st_end_summary s') \<and>
     (complete s' \<longrightarrow> complete s \<and> set (st_queue s) \<subseteq> set (st_queue s') \<and>
        st_seen s' \<subseteq> st_seen s \<union> set (st_queue s')) \<and>
     (\<not> stoppable run \<longrightarrow> complete s \<longrightarrow> complete s') \<and>
     (finite (st_seen s) \<longrightarrow> finite (st_seen s') \<and>
        length (st_queue s') + card (st_seen s) \<le> length (st_queue s) + card (st_seen s'))"

interpretation forward: step_logic "ifds_grows run"
    "\<lambda>s :: ('p, 'n, 'f) ifds_state. complete s" "limit_error run"
  for run :: "('n, 'f, 'k) solver_run"
proof
  fix s t u :: "('p, 'n, 'f) ifds_state"
  show "ifds_grows run s s" by (simp add: ifds_grows_def)
  show "ifds_grows run s t \<Longrightarrow> complete t \<Longrightarrow> complete s" by (simp add: ifds_grows_def)
  assume a: "ifds_grows run s t" "ifds_grows run t u"
  have "st_seen s \<subseteq> st_seen u" using a by (simp add: ifds_grows_def) (meson subset_trans)
  moreover have "table_le (st_incoming s) (st_incoming u)" "table_le (st_end_summary s) (st_end_summary u)"
    using a unfolding ifds_grows_def by (blast intro: table_le_trans)+
  moreover have "complete s \<and> set (st_queue s) \<subseteq> set (st_queue u) \<and>
      st_seen u \<subseteq> st_seen s \<union> set (st_queue u)" if u: "complete u"
  proof -
    have t: "complete t" "set (st_queue t) \<subseteq> set (st_queue u)" "st_seen u \<subseteq> st_seen t \<union> set (st_queue u)"
      using a(2) u by (simp_all add: ifds_grows_def)
    then have "complete s" "set (st_queue s) \<subseteq> set (st_queue t)" "st_seen t \<subseteq> st_seen s \<union> set (st_queue t)"
      using a(1) by (simp_all add: ifds_grows_def)
    with t show ?thesis by blast
  qed
  moreover have "complete u" if "\<not> stoppable run" "complete s"
    using a that by (simp add: ifds_grows_def)
  moreover have "finite (st_seen u) \<and>
      length (st_queue u) + card (st_seen s) \<le> length (st_queue s) + card (st_seen u)" if "finite (st_seen s)"
    using a that by (simp add: ifds_grows_def)
  ultimately show "ifds_grows run s u" by (simp add: ifds_grows_def)
qed

section \<open>Bookkeeping never resumes a stopped run\<close>

lemma stop_run_Inr:
  "stop_run run status r bk = Inr bk' \<Longrightarrow> status \<noteq> COMPLETE \<Longrightarrow> bk_status bk' \<noteq> COMPLETE"
  by (auto simp: stop_run_def split: if_splits)

lemma stop_run_Inl:
  "stop_run run status r bk = Inl e \<Longrightarrow> stoppable run \<Longrightarrow> limit_error run e"
  by (auto simp: stop_run_def limit_error_def split: if_splits)

lemma stop_run_not_Inl [simp]:
  "status \<noteq> PARTIAL \<Longrightarrow> stop_run run status r bk \<noteq> Inl e"
  by (auto simp: stop_run_def)

lemma increment_status [simp]: "bk_status (increment k bk) = bk_status bk"
  by (simp add: increment_def)

lemma observe_status [simp]: "bk_status (observe k v bk) = bk_status bk"
  by (simp add: observe_def)

lemma first_exceeded_Some:
  "first_exceeded ls = Some (name, l) \<Longrightarrow> \<exists>n v. (n, v, Some l) \<in> set ls"
  by (induction ls rule: first_exceeded.induct) (auto split: option.splits if_splits)

text \<open>Each bookkeeping operation either keeps the run going, or stops it because of a limit.\<close>

definition bk_step :: "('n, 'f, 'k) solver_run \<Rightarrow> ('p, 'n, 'f) bookkeeping \<Rightarrow> ('p, 'n, 'f) bookkeeping res \<Rightarrow> bool" where
  "bk_step run bk r \<longleftrightarrow> (case r of
      Inl e \<Rightarrow> limit_error run e
    | Inr bk' \<Rightarrow> (bk_status bk' = COMPLETE \<longrightarrow> bk_status bk = COMPLETE) \<and>
        (\<not> stoppable run \<longrightarrow> bk_status bk' = bk_status bk))"

lemma bk_step_stop:
  assumes "stoppable run" "status \<noteq> COMPLETE"
  shows "bk_step run bk (stop_run run status r bk')"
  using assms stop_run_Inr[of run status r bk'] stop_run_Inl[of run status r bk']
  by (cases "stop_run run status r bk'") (auto simp: bk_step_def)

lemma bk_step_Inr [simp]: "bk_status bk' = bk_status bk \<Longrightarrow> bk_step run bk (Inr bk')"
  by (simp add: bk_step_def)

lemma bk_step_bind:
  assumes "bk_step run bk r" "\<And>bk'. bk_step run bk' (f bk')"
  shows "bk_step run bk (bind_res r f)"
proof (cases r)
  case (Inr bk')
  then show ?thesis using assms assms(2)[of bk']
    by (cases "f bk'") (auto simp: bk_step_def)
qed (use assms(1) in \<open>simp add: bk_step_def\<close>)

lemma bk_step_status: "bk_status bk1 = bk_status bk \<Longrightarrow> bk_step run bk1 r \<Longrightarrow> bk_step run bk r"
  by (simp add: bk_step_def split: sum.splits)

lemma timed_check_step: "bk_step run bk (timed_check run bk)"
  unfolding timed_check_def Let_def
  by (rule bk_step_bind)
     (auto split: option.splits intro!: bk_step_stop simp: stoppable_def)

lemma check_budget_step: "bk_step run bk (check_budget run q i e force bk)"
proof (cases "bk_status bk = COMPLETE")
  case True
  show ?thesis
  proof (cases "first_exceeded [(''max_queue_size'', q, so_max_queue (sr_options run)),
      (''max_incoming_records'', i, so_max_incoming (sr_options run)),
      (''max_summary_entries'', e, so_max_summaries (sr_options run))]")
    case None
    then show ?thesis using True
      by (auto simp: check_budget_def Let_def intro!: bk_step_stop bk_step_status[OF _ timed_check_step])
         (simp_all add: stoppable_def)
  next
    case (Some nl)
    obtain name l where nl: "nl = (name, l)" by fastforce
    have "stoppable run" using first_exceeded_Some[OF Some[unfolded nl]] by (auto simp: stoppable_def)
    then show ?thesis using True Some nl by (simp add: check_budget_def Let_def bk_step_stop)
  qed
qed (simp add: check_budget_def)

lemma record_propagation_step: "bk_step run bk (record_propagation run e k pr no bk)"
  unfolding record_propagation_def Let_def
  by (auto split: option.splits intro!: bk_step_stop simp: stoppable_def)

lemma finish_step: "bk_step run bk (finish run b bk)"
  unfolding finish_def Let_def by (rule bk_step_bind) (simp_all add: check_budget_step)

section \<open>What is recorded is derivable\<close>

abbreviation (input) graph :: "('p, 'n, 'f) ifds_problem \<Rightarrow> ('p, 'n) supergraph" where
  "graph P \<equiv> ip_supergraph P"

definition derives :: "('n, 'f, 'k) solver_run \<Rightarrow> ('p, 'n, 'f) ifds_problem \<Rightarrow> ('n, 'f) path_edge \<Rightarrow> bool" where
  "derives run P e \<longleftrightarrow> tabulated P (depth_of run) e"

definition incoming_sound ::
  "('n, 'f, 'k) solver_run \<Rightarrow> ('p, 'n, 'f) ifds_problem \<Rightarrow> ('p, 'n, 'f) ifds_state \<Rightarrow> bool" where
  "incoming_sound run P s \<longleftrightarrow>
     (\<forall>start d1 kc rec. rec \<in> set (get_list (st_incoming s) (start, d1, kc)) \<longrightarrow>
        (\<exists>p. entry_of (graph P) p = Inr start \<and> is_call_node (graph P) (call_node rec) \<and>
           p \<in> callees_of_call_at (graph P) (call_node rec) \<and>
           d1 \<in> calls P (call_node rec) p (call_fact rec) \<and>
           return_site rec \<in> return_sites_of_call_at (graph P) (call_node rec) \<and>
           kc = push_context (depth_of run) (caller_source_context rec) (call_node rec) \<and>
           derives run P (PathEdge (caller_source_node rec) (caller_source_fact rec) (call_node rec)
             (call_fact rec) (caller_source_context rec))))"

definition summary_sound ::
  "('n, 'f, 'k) solver_run \<Rightarrow> ('p, 'n, 'f) ifds_problem \<Rightarrow> ('p, 'n, 'f) ifds_state \<Rightarrow> bool" where
  "summary_sound run P s \<longleftrightarrow>
     (\<forall>sn sd x c d. d \<in> set (get_list (st_end_summary s) (sn, sd, x, c)) \<longrightarrow>
        is_exit_node (graph P) x \<and> derives run P (PathEdge sn sd x d c))"

text \<open>Every recorded caller of a start has received every summary of it.\<close>

definition paired :: "('p, 'n, 'f) ifds_problem \<Rightarrow> ('p, 'n, 'f) ifds_state \<Rightarrow> bool" where
  "paired P s \<longleftrightarrow>
     (\<forall>start d1 kc rec x d2 p d3. rec \<in> set (get_list (st_incoming s) (start, d1, kc)) \<longrightarrow>
        d2 \<in> set (get_list (st_end_summary s) (start, d1, x, kc)) \<longrightarrow>
        entry_of (graph P) p = Inr start \<longrightarrow> x \<in> exits_of (graph P) p \<longrightarrow>
        d3 \<in> returns P (call_node rec) p x (return_site rec) (call_fact rec) d2 \<longrightarrow>
        PathEdge (caller_source_node rec) (caller_source_fact rec) (return_site rec) d3
          (caller_source_context rec) \<in> st_seen s)"

definition reached_exact :: "('p, 'n, 'f) ifds_state \<Rightarrow> bool" where
  "reached_exact s \<longleftrightarrow>
     (\<forall>n d. d \<in> set (get_list (st_reached s) n) \<longleftrightarrow> (\<exists>e\<in>st_seen s. edge_node e = n \<and> edge_fact e = d))"

definition ifds_base ::
  "('n, 'f, 'k) solver_run \<Rightarrow> ('p, 'n, 'f) ifds_problem \<Rightarrow> ('p, 'n, 'f) ifds_state \<Rightarrow> bool" where
  "ifds_base run P s \<longleftrightarrow>
     (\<forall>e\<in>st_seen s. derives run P e) \<and> set (st_queue s) \<subseteq> st_seen s \<and> reached_exact s \<and>
     incoming_sound run P s \<and> summary_sound run P s"

text \<open>The invariant. With \<open>tables = None\<close> callers and summaries are paired; with
  \<open>Some (incoming, end_summary)\<close> the tables are fixed, which is how a replay sees them.\<close>

definition ifds_inv ::
  "('n, 'f, 'k) solver_run \<Rightarrow> ('p, 'n, 'f) ifds_problem \<Rightarrow>
   ((('n, 'f) start_key \<rightharpoonup> ('n, 'f) incoming_record list) \<times> (('n, 'f) summary_key \<rightharpoonup> 'f list)) option \<Rightarrow>
   ('p, 'n, 'f) ifds_state \<Rightarrow> bool" where
  "ifds_inv run P tables s \<longleftrightarrow> ifds_base run P s \<and>
     (case tables of
        None \<Rightarrow> complete s \<longrightarrow> paired P s
      | Some (i, e) \<Rightarrow> st_incoming s = i \<and> st_end_summary s = e)"

lemmas ifds_inv_defs = ifds_inv_def ifds_base_def incoming_sound_def summary_sound_def
  reached_exact_def paired_def

section \<open>propagate\<close>

text \<open>Two states that differ in the counters and the bookkeeping only, and not by resuming
  the run.\<close>

definition same_tables :: "('p, 'n, 'f) ifds_state \<Rightarrow> ('p, 'n, 'f) ifds_state \<Rightarrow> bool" where
  "same_tables s s' \<longleftrightarrow> st_seen s' = st_seen s \<and> st_reached s' = st_reached s \<and>
     st_incoming s' = st_incoming s \<and> st_end_summary s' = st_end_summary s"

definition same_but_bk ::
  "('n, 'f, 'k) solver_run \<Rightarrow> ('p, 'n, 'f) ifds_state \<Rightarrow> ('p, 'n, 'f) ifds_state \<Rightarrow> bool" where
  "same_but_bk run s s' \<longleftrightarrow> same_tables s s' \<and> st_queue s' = st_queue s \<and>
     (complete s' \<longrightarrow> complete s) \<and> (\<not> stoppable run \<longrightarrow> complete s \<longrightarrow> complete s')"

lemma same_but_bk_refl [simp]: "same_but_bk run s s"
  by (simp add: same_but_bk_def same_tables_def)

lemma same_but_bk_inv:
  assumes "same_but_bk run s s'" "ifds_inv run P T s"
  shows "ifds_inv run P T s'"
proof -
  have f: "st_seen s' = st_seen s" "st_reached s' = st_reached s" "st_incoming s' = st_incoming s"
    "st_end_summary s' = st_end_summary s" "st_queue s' = st_queue s" "complete s' \<Longrightarrow> complete s"
    using assms(1) by (simp_all add: same_but_bk_def same_tables_def)
  show ?thesis using assms(2) f(6) unfolding ifds_inv_defs f(1-5) by (auto split: option.splits)
qed

lemma same_but_bk_grows:
  "same_but_bk run s s' \<Longrightarrow> ifds_inv run P T s \<Longrightarrow> ifds_grows run s s'"
  by (auto simp: ifds_grows_def ifds_inv_def ifds_base_def same_but_bk_def same_tables_def)

lemma budget_Inr:
  assumes "budget run s = Inr s'"
  shows "same_but_bk run s s'"
proof -
  obtain bk where c: "check_budget run (int (length (st_queue s))) (st_incoming_total s)
      (st_summary_entries s) False (st_bk s) = Inr bk" and s': "s' = s\<lparr>st_bk := bk\<rparr>"
    using assms by (auto simp: budget_def bind_res_eq_Inr)
  have "bk_step run (st_bk s) (Inr bk)" unfolding c[symmetric] by (rule check_budget_step)
  then show ?thesis by (simp add: s' bk_step_def same_but_bk_def same_tables_def)
qed

lemma budget_Inl:
  assumes "budget run s = Inl e"
  shows "limit_error run e"
proof -
  have c: "check_budget run (int (length (st_queue s))) (st_incoming_total s)
      (st_summary_entries s) False (st_bk s) = Inl e"
    using assms by (auto simp: budget_def bind_res_eq_Inl)
  have "bk_step run (st_bk s) (Inl e)" unfolding c[symmetric] by (rule check_budget_step)
  then show ?thesis by (simp add: bk_step_def)
qed

lemma stop_partial_Inr:
  assumes "stop_partial run name l s = Inr s'"
  shows "same_tables s s' \<and> st_queue s' = st_queue s \<and> \<not> complete s'"
proof -
  obtain bk where b: "stop_run run PARTIAL (Exceeded ''IFDS'' name l) (st_bk s) = Inr bk"
    and s': "s' = s\<lparr>st_bk := bk\<rparr>" using assms by (auto simp: stop_partial_def bind_res_eq_Inr)
  show ?thesis using stop_run_Inr[OF b] by (simp add: s' same_tables_def)
qed

lemma stop_partial_Inl:
  assumes "stop_partial run name l s = Inl e" "stoppable run"
  shows "limit_error run e"
proof -
  have "stop_run run PARTIAL (Exceeded ''IFDS'' name l) (st_bk s) = Inl e"
    using assms(1) by (simp add: stop_partial_def bind_res_eq_Inl)
  then show ?thesis using assms(2) by (rule stop_run_Inl)
qed

text \<open>The outcome of an attempt to queue an edge.\<close>

definition queued ::
  "('n, 'f, 'k) solver_run \<Rightarrow> ('n, 'f) path_edge \<Rightarrow> ('p, 'n, 'f) ifds_state \<Rightarrow> ('p, 'n, 'f) ifds_state \<Rightarrow> bool" where
  "queued run e s s' \<longleftrightarrow> same_tables s s' \<and>
     (st_queue s' = st_queue s \<or> st_queue s' = st_queue s @ [e]) \<and>
     (complete s' \<longrightarrow> complete s \<and> st_queue s' = st_queue s @ [e]) \<and>
     (\<not> stoppable run \<longrightarrow> complete s \<longrightarrow> complete s')"

lemma enqueue_Inr:
  assumes "enqueue run e kind pr no s = Inr s'"
  shows "queued run e s s'"
proof -
  obtain bk where r: "record_propagation run e kind pr no (st_bk s) = Inr bk"
    and s': "(if bk_status bk \<noteq> COMPLETE then Inr (s\<lparr>st_bk := bk\<rparr>)
             else budget run (s\<lparr>st_bk := bk, st_queue := st_queue s @ [e]\<rparr>)) = Inr s'"
    using assms by (auto simp: enqueue_def bind_res_eq_Inr)
  have "bk_step run (st_bk s) (Inr bk)" unfolding r[symmetric] by (rule record_propagation_step)
  then have b: "bk_status bk = COMPLETE \<longrightarrow> complete s" "\<not> stoppable run \<longrightarrow> bk_status bk = bk_status (st_bk s)"
    by (simp_all add: bk_step_def)
  show ?thesis
  proof (cases "bk_status bk = COMPLETE")
    case False
    then have "s' = s\<lparr>st_bk := bk\<rparr>" using s' by simp
    then show ?thesis using False b by (simp add: queued_def same_tables_def)
  next
    case True
    then have "same_but_bk run (s\<lparr>st_bk := bk, st_queue := st_queue s @ [e]\<rparr>) s'"
      using s' by (intro budget_Inr) simp
    then show ?thesis using b True by (simp add: same_but_bk_def same_tables_def queued_def)
  qed
qed

lemma enqueue_Inl:
  assumes "enqueue run e kind pr no s = Inl err"
  shows "limit_error run err"
proof (cases "record_propagation run e kind pr no (st_bk s)")
  case (Inl err')
  have "bk_step run (st_bk s) (Inl err')" unfolding Inl[symmetric] by (rule record_propagation_step)
  then show ?thesis using assms Inl by (simp add: enqueue_def bk_step_def)
next
  case (Inr bk)
  then show ?thesis using assms by (auto simp: enqueue_def split: if_splits dest: budget_Inl)
qed

lemma over_stoppable:
  "over v (so_max_facts (sr_options run)) \<Longrightarrow> stoppable run"
  "over v (so_max_contexts (sr_options run)) \<Longrightarrow> stoppable run"
  by (auto simp: over_def stoppable_def split: option.splits)

text \<open>What a propagation does to the state. The marker bookkeeping aside, it either skips a
  known edge (or everything, once the run is stopped), or records a new one and queues it.\<close>

definition propagated ::
  "('n, 'f, 'k) solver_run \<Rightarrow> ('n, 'f) path_edge \<Rightarrow> ('p, 'n, 'f) ifds_state \<Rightarrow> ('p, 'n, 'f) ifds_state \<Rightarrow> bool" where
  "propagated run e s s' \<longleftrightarrow>
     s' = s \<and> (e \<in> st_seen s \<or> \<not> complete s) \<or>
     e \<notin> st_seen s \<and> complete s \<and> st_seen s' = insert e (st_seen s) \<and>
     st_reached s' = set_add (edge_node e) (edge_fact e) (st_reached s) \<and>
     st_incoming s' = st_incoming s \<and> st_end_summary s' = st_end_summary s \<and>
     (st_queue s' = st_queue s \<or> st_queue s' = st_queue s @ [e]) \<and>
     (complete s' \<longrightarrow> st_queue s' = st_queue s @ [e]) \<and> (\<not> stoppable run \<longrightarrow> complete s')"

lemma add_context_Inr:
  assumes "add_context run P e k pr no s = Inr s'"
  shows "queued run e s s' \<or> same_tables s s' \<and> st_queue s' = st_queue s \<and> \<not> complete s' \<and> stoppable run"
proof -
  obtain p where p: "procedure_of (graph P) (edge_node e) = Inr p"
    using assms by (auto simp: add_context_def bind_res_eq_Inr)
  let ?c = "set_add p (edge_context e) (st_contexts s)"
  let ?n = "int (length (get_list ?c p))"
  let ?s = "s\<lparr>st_contexts := ?c, st_bk := observe peak_contexts_per_procedure ?n (st_bk s)\<rparr>"
  show ?thesis
  proof (cases "over ?n (so_max_contexts (sr_options run))")
    case True
    then have "stop_partial run ''max_contexts_per_procedure'' (the (so_max_contexts (sr_options run))) ?s = Inr s'"
      using assms p by (simp add: add_context_def Let_def)
    from stop_partial_Inr[OF this] over_stoppable(2)[OF True] show ?thesis by (simp add: same_tables_def)
  next
    case False
    then have "enqueue run e k pr no ?s = Inr s'" using assms p by (simp add: add_context_def Let_def)
    from enqueue_Inr[OF this] show ?thesis by (simp add: queued_def same_tables_def)
  qed
qed

lemma add_context_Inl:
  assumes "add_context run P e k pr no s = Inl err" "procedure_of (graph P) (edge_node e) = Inr p"
  shows "limit_error run err"
  using assms by (auto simp: add_context_def Let_def split: if_splits
      dest: enqueue_Inl stop_partial_Inl over_stoppable)

lemma propagate_Inr:
  assumes "propagate run P k pr no e s = Inr s'"
  shows "propagated run e s s'"
proof (cases "complete s \<and> e \<notin> st_seen s")
  case False
  then show ?thesis using assms by (auto simp: propagate_def propagated_def split: if_splits)
next
  case True
  let ?r = "set_add (edge_node e) (edge_fact e) (st_reached s)"
  let ?n = "int (length (get_list ?r (edge_node e)))"
  let ?s = "s\<lparr>st_seen := insert e (st_seen s), st_reached := ?r, st_bk := observe peak_facts_at_node ?n (st_bk s)\<rparr>"
  have "queued run e ?s s' \<or> same_tables ?s s' \<and> st_queue s' = st_queue ?s \<and> \<not> complete s' \<and> stoppable run"
  proof (cases "over ?n (so_max_facts (sr_options run))")
    case over: True
    then have "stop_partial run ''max_facts_per_node'' (the (so_max_facts (sr_options run))) ?s = Inr s'"
      using assms True by (simp add: propagate_def Let_def)
    from stop_partial_Inr[OF this] over_stoppable(1)[OF over] show ?thesis by simp
  next
    case False
    then have "add_context run P e k pr no ?s = Inr s'" using assms True by (simp add: propagate_def Let_def)
    then show ?thesis by (rule add_context_Inr)
  qed
  then show ?thesis using True by (auto simp: propagated_def queued_def same_tables_def)
qed

lemma propagate_Inl:
  assumes "propagate run P k pr no e s = Inl err" "procedure_of (graph P) (edge_node e) = Inr p"
  shows "limit_error run err"
  using assms by (auto simp: propagate_def Let_def split: if_splits
      dest: add_context_Inl stop_partial_Inl over_stoppable)

section \<open>The contract of each step\<close>

abbreviation ifds_meets where
  "ifds_meets run P tables \<equiv>
     meets (ifds_grows run) (\<lambda>s. complete s) (limit_error run) (ifds_inv run P tables)"

abbreviation ifds_lasting where
  "ifds_lasting run \<equiv> lasting (ifds_grows run) (\<lambda>s. complete s)"

lemma lasting_seen [intro, simp]: "ifds_lasting run (\<lambda>s. e \<in> st_seen s)"
  by (auto simp: lasting_def ifds_grows_def)

lemma lasting_incoming [intro, simp]: "ifds_lasting run (\<lambda>s. r \<in> set (get_list (st_incoming s) k))"
  by (auto simp: lasting_def ifds_grows_def dest: table_leD)

lemma lasting_summary [intro, simp]: "ifds_lasting run (\<lambda>s. d \<in> set (get_list (st_end_summary s) k))"
  by (auto simp: lasting_def ifds_grows_def dest: table_leD)

lemma propagated_inv:
  assumes "propagated run e s s'" "derives run P e" "ifds_inv run P T s"
  shows "ifds_inv run P T s' \<and> ifds_grows run s s' \<and> (complete s' \<longrightarrow> e \<in> st_seen s')"
proof (cases "s' = s")
  case True
  then show ?thesis using assms by (auto simp: propagated_def forward.grows_refl)
next
  case False
  then have c: "complete s" "e \<notin> st_seen s"
    and f: "st_seen s' = insert e (st_seen s)" "st_incoming s' = st_incoming s"
      "st_end_summary s' = st_end_summary s"
      "st_reached s' = set_add (edge_node e) (edge_fact e) (st_reached s)"
    and q: "st_queue s' = st_queue s \<or> st_queue s' = st_queue s @ [e]"
      "complete s' \<Longrightarrow> st_queue s' = st_queue s @ [e]" "\<not> stoppable run \<Longrightarrow> complete s'"
    using assms(1) by (auto simp: propagated_def)
  have b: "ifds_base run P s" using assms(3) by (simp add: ifds_inv_def)
  have "ifds_base run P s'"
    unfolding ifds_base_def incoming_sound_def summary_sound_def reached_exact_def f
    using b assms(2) q(1) unfolding ifds_base_def incoming_sound_def summary_sound_def reached_exact_def
    by auto
  moreover have "paired P s'" if "paired P s"
    using that unfolding paired_def f by blast
  ultimately have "ifds_inv run P T s'"
    using assms(3) c(1) unfolding ifds_inv_def f by (auto split: option.splits)
  moreover have "ifds_grows run s s'"
    unfolding ifds_grows_def f using c q b by (auto simp: ifds_base_def)
  ultimately show ?thesis using f by simp
qed

lemma propagate_meets:
  assumes "problem_wf P" "derives run P e"
  shows "ifds_meets run P T (propagate run P k pr no e) (\<lambda>s. e \<in> st_seen s)"
proof (rule meetsI)
  fix s err assume "propagate run P k pr no e s = Inl err"
  moreover obtain p where "procedure_of (graph P) (edge_node e) = Inr p"
    using tabulated_same_procedure[OF assms(1)] assms(2) by (auto simp: derives_def)
  ultimately show "limit_error run err" by (rule propagate_Inl)
next
  fix s s' assume "ifds_inv run P T s" "propagate run P k pr no e s = Inr s'"
  then show "ifds_inv run P T s' \<and> ifds_grows run s s' \<and> (complete s' \<longrightarrow> e \<in> st_seen s')"
    using propagated_inv[OF propagate_Inr assms(2)] by blast
qed

lemma count_step_same [simp]: "same_but_bk run s (count_step k s)"
  by (simp add: same_but_bk_def same_tables_def count_step_def)

lemma meets_counted:
  assumes "ifds_meets run P T f Q"
  shows "ifds_meets run P T (\<lambda>s. f (count_step k s)) Q"
  by (rule forward.meets_after[OF assms])
     (use same_but_bk_inv same_but_bk_grows count_step_same in blast)

text \<open>The inner loop of every flow: a propagation for each output fact.\<close>

lemma propagate_all_meets:
  assumes "problem_wf P" "\<And>d. d \<in> facts_of ds \<Longrightarrow> derives run P (e d)"
  shows "ifds_meets run P T
    (\<lambda>s. fold_res (\<lambda>d. propagate run P k pr (no d) (e d)) (normalize_transitions key ds) (count_step c s))
    (\<lambda>s. \<forall>d\<in>facts_of ds. e d \<in> st_seen s)"
proof (rule meets_counted)
  have "ifds_meets run P T (fold_res (\<lambda>d. propagate run P k pr (no d) (e d)) (normalize_transitions key ds))
      (\<lambda>s. \<forall>d\<in>set (normalize_transitions key ds). e d \<in> st_seen s)"
    by (rule forward.meets_fold) (auto intro!: propagate_meets assms)
  then show "ifds_meets run P T (fold_res (\<lambda>d. propagate run P k pr (no d) (e d)) (normalize_transitions key ds))
      (\<lambda>s. \<forall>d\<in>facts_of ds. e d \<in> st_seen s)" by simp
qed

lemma bypass_step_meets:
  assumes "problem_wf P" "derives run P (PathEdge sn sd n d c)" "is_call_node (graph P) n"
    "r \<in> call_to_return_successors (graph P) n"
  shows "ifds_meets run P T (bypass_step run P (PathEdge sn sd n d c) r)
    (\<lambda>s. \<forall>d'\<in>bypasses P n r d. PathEdge sn sd r d' c \<in> st_seen s)"
  unfolding bypass_step_def path_edge.case
  by (rule propagate_all_meets[OF assms(1)])
     (use assms(2-4) in \<open>auto simp: derives_def intro: tabulated.bypass\<close>)

lemma normal_step_meets:
  assumes "problem_wf P" "derives run P (PathEdge sn sd n d c)" "m \<in> normal_successors (graph P) n"
  shows "ifds_meets run P T (normal_step run P (PathEdge sn sd n d c) m)
    (\<lambda>s. \<forall>d'\<in>normals P n m d. PathEdge sn sd m d' c \<in> st_seen s)"
  unfolding normal_step_def path_edge.case
  by (rule propagate_all_meets[OF assms(1)])
     (use assms(2-3) in \<open>auto simp: derives_def intro: tabulated.normal\<close>)

text \<open>The context part of a key is the context itself.\<close>

lemma derives_context:
  assumes "derives run P e"
  shows "(edge_context e = None) = (depth_of run = None)"
  using assms unfolding derives_def
  by (induction rule: tabulated.induct) (auto simp: seed_context_def push_context_def)

lemma key_context_edge:
  "derives run P (PathEdge sn sd n d c) \<Longrightarrow> key_context (depth_of run) c = c"
  using derives_context[of run P "PathEdge sn sd n d c"] by (auto simp: key_context_def)

lemma key_context_push:
  "derives run P (PathEdge sn sd n d c) \<Longrightarrow>
   key_context (depth_of run) (push_context (depth_of run) c n') = push_context (depth_of run) c n'"
  using derives_context[of run P "PathEdge sn sd n d c"] by (auto simp: key_context_def push_context_def)

text \<open>The replay of summaries for a caller that is being recorded: the tables are fixed.\<close>

lemma replay_fact_meets:
  assumes wf: "problem_wf P" and e: "derives run P (PathEdge sn sd n d c)" and n: "is_call_node (graph P) n"
    and p: "p \<in> callees_of_call_at (graph P) n" "entry_of (graph P) p = Inr start"
    and d1: "d1 \<in> calls P n p d" and r: "r \<in> return_sites_of_call_at (graph P) n"
    and x: "x \<in> exits_of (graph P) p"
    and d2: "derives run P (PathEdge start d1 x d2 (push_context (depth_of run) c n))"
  shows "ifds_meets run P T (replay_fact run P (PathEdge sn sd n d c) p r x d2)
    (\<lambda>s. \<forall>d3\<in>returns P n p x r d d2. PathEdge sn sd r d3 c \<in> st_seen s)"
  unfolding replay_fact_def path_edge.case
proof (rule propagate_all_meets[OF wf])
  fix d3 assume "d3 \<in> returns P n p x r d d2"
  then show "derives run P (PathEdge sn sd r d3 c)"
    using tabulated.return[OF e[unfolded derives_def] n p d1 r d2[unfolded derives_def] x]
    by (simp add: derives_def)
qed

lemma replay_exit_meets:
  assumes wf: "problem_wf P" and e: "derives run P (PathEdge sn sd n d c)" and n: "is_call_node (graph P) n"
    and p: "p \<in> callees_of_call_at (graph P) n" "entry_of (graph P) p = Inr start"
    and d1: "d1 \<in> calls P n p d" and r: "r \<in> return_sites_of_call_at (graph P) n"
    and x: "x \<in> exits_of (graph P) p" and c': "c' = push_context (depth_of run) c n"
  shows "ifds_meets run P (Some (i, t)) (replay_exit run P (PathEdge sn sd n d c) p (start, d1, c') r x)
    (\<lambda>s. \<forall>d2\<in>set (get_list t (start, d1, x, c')). \<forall>d3\<in>returns P n p x r d d2. PathEdge sn sd r d3 c \<in> st_seen s)"
proof (rule meetsI)
  let ?f = "\<lambda>s. fold_res (replay_fact run P (PathEdge sn sd n d c) p r x)
      (sort_key (sr_fact_key run) (get_list t (start, d1, x, c'))) s"
  have eq: "replay_exit run P (PathEdge sn sd n d c) p (start, d1, c') r x s = ?f s"
    if "ifds_inv run P (Some (i, t)) s" for s
    using that by (simp add: replay_exit_def ifds_inv_def)
  have m: "ifds_meets run P (Some (i, t)) ?f
      (\<lambda>s. \<forall>d2\<in>set (get_list t (start, d1, x, c')). \<forall>d3\<in>returns P n p x r d d2. PathEdge sn sd r d3 c \<in> st_seen s)"
    if s: "ifds_inv run P (Some (i, t)) s" for s :: "('a, 'b, 'c) ifds_state"
  proof -
    have "derives run P (PathEdge start d1 x d2 (push_context (depth_of run) c n))"
      if "d2 \<in> set (get_list t (start, d1, x, c'))" for d2
      using s that by (auto simp: ifds_inv_def ifds_base_def summary_sound_def c')
    then have "ifds_meets run P (Some (i, t)) ?f
      (\<lambda>s. \<forall>d2\<in>set (sort_key (sr_fact_key run) (get_list t (start, d1, x, c'))).
          \<forall>d3\<in>returns P n p x r d d2. PathEdge sn sd r d3 c \<in> st_seen s)"
      by (intro forward.meets_fold) (auto intro!: replay_fact_meets[OF wf e n p d1 r x] lasting_ball)
    then show ?thesis by simp
  qed
  fix s
  assume s: "ifds_inv run P (Some (i, t)) s"
  show "limit_error run err" if "replay_exit run P (PathEdge sn sd n d c) p (start, d1, c') r x s = Inl err" for err
    using meets_fails[OF m[OF s] s] that by (simp add: eq[OF s])
  show "ifds_inv run P (Some (i, t)) s' \<and> ifds_grows run s s' \<and>
      (complete s' \<longrightarrow> (\<forall>d2\<in>set (get_list t (start, d1, x, c')). \<forall>d3\<in>returns P n p x r d d2.
         PathEdge sn sd r d3 c \<in> st_seen s'))"
    if "replay_exit run P (PathEdge sn sd n d c) p (start, d1, c') r x s = Inr s'" for s'
    using meetsD[OF m[OF s] s] that by (simp add: eq[OF s])
qed

lemma entry_unique:
  assumes "problem_wf P" "entry_of (graph P) p = Inr start" "entry_of (graph P) q = Inr start"
  shows "p = q"
  using assms sg_wf_entry[of "graph P" p start] sg_wf_entry[of "graph P" q start]
  by (simp add: problem_wf_def)

lemma set_ordered_exits [simp]: "set (ordered_exits_of g p) = exits_of g p"
  by (simp add: ordered_exits_of_def exits_of_def)

text \<open>The state in which a new record has been entered.\<close>

lemma record_entered:
  assumes s: "ifds_inv run P None s" and e: "derives run P (PathEdge sn sd n d c)"
    and n: "is_call_node (graph P) n"
    and p: "p \<in> callees_of_call_at (graph P) n" "entry_of (graph P) p = Inr start"
    and d1: "d1 \<in> calls P n p d" and r: "r \<in> return_sites_of_call_at (graph P) n"
    and c': "c' = push_context (depth_of run) c n"
    and s1: "s1 = s\<lparr>st_incoming := set_add (start, d1, c') (IncomingRecord sn sd c n d r) (st_incoming s),
                st_incoming_total := t\<rparr>"
  shows "ifds_inv run P (Some (set_add (start, d1, c') (IncomingRecord sn sd c n d r) (st_incoming s), st_end_summary s)) s1"
    and "ifds_grows run s s1"
proof -
  have "incoming_sound run P s1"
    unfolding incoming_sound_def
  proof (intro allI impI)
    fix start' d1' kc rec
    assume "rec \<in> set (get_list (st_incoming s1) (start', d1', kc))"
    then consider "start' = start" "d1' = d1" "kc = c'" "rec = IncomingRecord sn sd c n d r"
      | "rec \<in> set (get_list (st_incoming s) (start', d1', kc))" by (auto simp: s1)
    then show "\<exists>p. entry_of (graph P) p = Inr start' \<and> is_call_node (graph P) (call_node rec) \<and>
           p \<in> callees_of_call_at (graph P) (call_node rec) \<and>
           d1' \<in> calls P (call_node rec) p (call_fact rec) \<and>
           return_site rec \<in> return_sites_of_call_at (graph P) (call_node rec) \<and>
           kc = push_context (depth_of run) (caller_source_context rec) (call_node rec) \<and>
           derives run P (PathEdge (caller_source_node rec) (caller_source_fact rec) (call_node rec)
             (call_fact rec) (caller_source_context rec))"
    proof cases
      case 1
      then show ?thesis using e n p d1 r c' by auto
    next
      case 2
      then show ?thesis using s by (simp add: ifds_inv_def ifds_base_def incoming_sound_def)
    qed
  qed
  moreover have "summary_sound run P s1"
    using s by (simp add: s1 ifds_inv_def ifds_base_def summary_sound_def)
  ultimately show "ifds_inv run P (Some (set_add (start, d1, c') (IncomingRecord sn sd c n d r) (st_incoming s), st_end_summary s)) s1"
    using s by (simp add: s1 ifds_inv_def ifds_base_def reached_exact_def)
  show "ifds_grows run s s1"
    using s by (auto simp: s1 ifds_grows_def ifds_inv_def ifds_base_def)
qed

lemma paired_after_record:
  assumes wf: "problem_wf P" and old: "paired P s" and seen: "st_seen s \<subseteq> st_seen s'"
    and tables: "st_incoming s' = set_add (start, d1, c') (IncomingRecord sn sd c n d r) (st_incoming s)"
      "st_end_summary s' = st_end_summary s"
    and p: "entry_of (graph P) p = Inr start"
    and replayed: "\<forall>x\<in>exits_of (graph P) p. \<forall>d2\<in>set (get_list (st_end_summary s) (start, d1, x, c')).
      \<forall>d3\<in>returns P n p x r d d2. PathEdge sn sd r d3 c \<in> st_seen s'"
  shows "paired P s'"
  unfolding paired_def
proof (intro allI impI)
  fix start' d1' kc rec x d2 q d3
  assume rec: "rec \<in> set (get_list (st_incoming s') (start', d1', kc))"
    and d2: "d2 \<in> set (get_list (st_end_summary s') (start', d1', x, kc))"
    and q: "entry_of (graph P) q = Inr start'" "x \<in> exits_of (graph P) q"
    and d3: "d3 \<in> returns P (call_node rec) q x (return_site rec) (call_fact rec) d2"
  consider "start' = start" "d1' = d1" "kc = c'" "rec = IncomingRecord sn sd c n d r"
    | "rec \<in> set (get_list (st_incoming s) (start', d1', kc))" using rec by (auto simp: tables)
  then show "PathEdge (caller_source_node rec) (caller_source_fact rec) (return_site rec) d3
      (caller_source_context rec) \<in> st_seen s'"
  proof cases
    case 1
    then have "q = p" using entry_unique[OF wf] q(1) p by blast
    then show ?thesis using 1 replayed q(2) d2 d3 by (auto simp: tables)
  next
    case 2
    then have "PathEdge (caller_source_node rec) (caller_source_fact rec) (return_site rec) d3
      (caller_source_context rec) \<in> st_seen s"
      using old d2 q d3 unfolding paired_def tables by blast
    then show ?thesis using seen by blast
  qed
qed

lemma add_incoming_meets:
  assumes wf: "problem_wf P" and e: "derives run P (PathEdge sn sd n d c)" and n: "is_call_node (graph P) n"
    and p: "p \<in> callees_of_call_at (graph P) n" "entry_of (graph P) p = Inr start"
    and d1: "d1 \<in> calls P n p d" and r: "r \<in> return_sites_of_call_at (graph P) n"
    and c': "c' = push_context (depth_of run) c n"
  shows "ifds_meets run P None (add_incoming run P (PathEdge sn sd n d c) p (start, d1, c') r)
    (\<lambda>s. IncomingRecord sn sd c n d r \<in> set (get_list (st_incoming s) (start, d1, c')))"
proof -
  let ?rec = "IncomingRecord sn sd c n d r"
  let ?step = "add_incoming run P (PathEdge sn sd n d c) p (start, d1, c') r"
  let ?i = "\<lambda>s. set_add (start, d1, c') ?rec (st_incoming s)"
  let ?s1 = "\<lambda>s. s\<lparr>st_incoming := ?i s, st_incoming_total := st_incoming_total s + 1\<rparr>"
  let ?replay = "fold_res (replay_exit run P (PathEdge sn sd n d c) p (start, d1, c') r) (ordered_exits_of (graph P) p)"
  have step: "?step s = bind_res (budget run (count_step incoming_records (?s1 s))) ?replay"
    if "?rec \<notin> set (get_list (st_incoming s) (start, d1, c'))" for s
    using that by (simp add: add_incoming_def Let_def)
  have replay: "ifds_meets run P (Some (i, t)) ?replay
      (\<lambda>s. \<forall>x\<in>set (ordered_exits_of (graph P) p). \<forall>d2\<in>set (get_list t (start, d1, x, c')).
         \<forall>d3\<in>returns P n p x r d d2. PathEdge sn sd r d3 c \<in> st_seen s)" for i t
    by (rule forward.meets_fold) (auto intro!: replay_exit_meets[OF wf e n p d1 r _ c'] lasting_ball)
  show ?thesis
  proof (rule meetsI)
    fix s err assume s: "ifds_inv run P None s" and err: "?step s = Inl err"
    have new: "?rec \<notin> set (get_list (st_incoming s) (start, d1, c'))"
      using err by (auto simp: add_incoming_def Let_def)
    show "limit_error run err"
    proof (cases "budget run (count_step incoming_records (?s1 s))")
      case (Inl err')
      then show ?thesis using err step[OF new] by (auto dest: budget_Inl)
    next
      case (Inr s2)
      have "ifds_inv run P (Some (?i s, st_end_summary s)) s2"
        by (rule same_but_bk_inv[OF budget_Inr[OF Inr] same_but_bk_inv[OF count_step_same
            record_entered(1)[OF s e n p d1 r c' refl]]])
      then show ?thesis using meets_fails[OF replay] err step[OF new] Inr by simp
    qed
  next
    fix s s' assume s: "ifds_inv run P None s" and s': "?step s = Inr s'"
    show "ifds_inv run P None s' \<and> ifds_grows run s s' \<and>
        (complete s' \<longrightarrow> ?rec \<in> set (get_list (st_incoming s') (start, d1, c')))"
    proof (cases "?rec \<in> set (get_list (st_incoming s) (start, d1, c'))")
      case True
      then have "s' = s" using s' by (simp add: add_incoming_def Let_def)
      then show ?thesis using s True by (simp add: forward.grows_refl)
    next
      case new: False
      then obtain s2 where s2: "budget run (count_step incoming_records (?s1 s)) = Inr s2"
        and rep: "?replay s2 = Inr s'" using s' step by (auto simp: bind_res_eq_Inr)
      note i1 = record_entered[OF s e n p d1 r c' refl, of "st_incoming_total s + 1"]
      note i2 = same_but_bk_inv[OF count_step_same i1(1), of incoming_records]
      note i3 = same_but_bk_inv[OF budget_Inr[OF s2] i2]
      note m = meetsD[OF replay i3 rep]
      have g: "ifds_grows run s s'"
        by (rule forward.grows_trans[OF i1(2) forward.grows_trans[OF same_but_bk_grows[OF count_step_same i1(1)]
              forward.grows_trans[OF same_but_bk_grows[OF budget_Inr[OF s2] i2] m(2)]]])
      have "paired P s'" if c: "complete s'"
      proof (rule paired_after_record[OF wf _ _ _ _ p(2)])
        have "complete s" using g c by (rule forward.live_before)
        then show "paired P s" using s by (simp add: ifds_inv_def)
        show "st_seen s \<subseteq> st_seen s'" using g by (simp add: ifds_grows_def)
        show "st_incoming s' = ?i s" "st_end_summary s' = st_end_summary s"
          using m(1) by (simp_all add: ifds_inv_def)
        show "\<forall>x\<in>exits_of (graph P) p. \<forall>d2\<in>set (get_list (st_end_summary s) (start, d1, x, c')).
            \<forall>d3\<in>returns P n p x r d d2. PathEdge sn sd r d3 c \<in> st_seen s'"
          using m(3)[OF c] by simp
      qed
      moreover have "?rec \<in> set (get_list (st_incoming s') (start, d1, c'))"
        using m(1) by (simp add: ifds_inv_def)
      ultimately show ?thesis using m(1) g by (simp add: ifds_inv_def)
    qed
  qed
qed

lemma set_ordered [simp]:
  "set (ordered_return_sites_of_call_at g n) = return_sites_of_call_at g n"
  "set (ordered_call_to_return_successors g n) = call_to_return_successors g n"
  "set (ordered_callees_of_call_at g n) = callees_of_call_at g n"
  "set (ordered_normal_successors g n) = normal_successors g n"
  by (simp_all add: ordered_return_sites_of_call_at_def return_sites_of_call_at_def
      ordered_call_to_return_successors_def call_to_return_successors_def
      ordered_callees_of_call_at_def callees_of_call_at_def
      ordered_normal_successors_def normal_successors_def)

text \<open>What processing leaves of a path edge at a call.\<close>

definition entered ::
  "('n, 'f, 'k) solver_run \<Rightarrow> ('p, 'n, 'f) ifds_problem \<Rightarrow> 'n \<Rightarrow> 'f \<Rightarrow> 'n \<Rightarrow> 'f \<Rightarrow> 'n call_context option \<Rightarrow>
   'n \<Rightarrow> 'f \<Rightarrow> ('p, 'n, 'f) ifds_state \<Rightarrow> bool" where
  "entered run P sn sd n d c start d' s \<longleftrightarrow>
     PathEdge start d' start d' (push_context (depth_of run) c n) \<in> st_seen s \<and>
     (\<forall>r\<in>return_sites_of_call_at (graph P) n.
        IncomingRecord sn sd c n d r \<in> set (get_list (st_incoming s) (start, d', push_context (depth_of run) c n)))"

lemma lasting_entered [intro, simp]: "ifds_lasting run (entered run P sn sd n d c start d')"
  unfolding entered_def by (intro lasting_conj lasting_ball lasting_seen lasting_incoming)

lemma call_transition_meets:
  assumes wf: "problem_wf P" and e: "derives run P (PathEdge sn sd n d c)" and n: "is_call_node (graph P) n"
    and p: "p \<in> callees_of_call_at (graph P) n" "entry_of (graph P) p = Inr start"
    and d': "d' \<in> calls P n p d"
  shows "ifds_meets run P None (call_transition run P (PathEdge sn sd n d c) p start d')
    (entered run P sn sd n d c start d')"
proof -
  let ?c = "push_context (depth_of run) c n"
  have "ifds_meets run P None
      (\<lambda>s. bind_res (fold_res (add_incoming run P (PathEdge sn sd n d c) p (start, d', ?c))
                      (ordered_return_sites_of_call_at (graph P) n) s)
             (propagate run P ''call_flow'' (Some (PathEdge sn sd n d c)) (Some (CallNote n p)) (PathEdge start d' start d' ?c)))
      (\<lambda>s. (\<forall>r\<in>set (ordered_return_sites_of_call_at (graph P) n).
              IncomingRecord sn sd c n d r \<in> set (get_list (st_incoming s) (start, d', ?c))) \<and>
           PathEdge start d' start d' ?c \<in> st_seen s)"
  proof (rule forward.meets_bind)
    show "ifds_meets run P None (fold_res (add_incoming run P (PathEdge sn sd n d c) p (start, d', ?c))
                      (ordered_return_sites_of_call_at (graph P) n))
      (\<lambda>s. \<forall>r\<in>set (ordered_return_sites_of_call_at (graph P) n).
              IncomingRecord sn sd c n d r \<in> set (get_list (st_incoming s) (start, d', ?c)))"
      by (rule forward.meets_fold) (auto intro!: add_incoming_meets[OF wf e n p d'])
    show "ifds_meets run P None (propagate run P ''call_flow'' (Some (PathEdge sn sd n d c)) (Some (CallNote n p)) (PathEdge start d' start d' ?c))
      (\<lambda>s. PathEdge start d' start d' ?c \<in> st_seen s)"
      using tabulated.call[OF e[unfolded derives_def] n p d']
      by (intro propagate_meets[OF wf]) (simp add: derives_def)
  qed (intro lasting_ball lasting_incoming)
  moreover have "call_transition run P (PathEdge sn sd n d c) p start d' =
      (\<lambda>s. bind_res (fold_res (add_incoming run P (PathEdge sn sd n d c) p (start, d', ?c))
                      (ordered_return_sites_of_call_at (graph P) n) s)
             (propagate run P ''call_flow'' (Some (PathEdge sn sd n d c)) (Some (CallNote n p)) (PathEdge start d' start d' ?c)))"
    by (simp add: fun_eq_iff call_transition_def Let_def key_context_push[OF e])
  ultimately show ?thesis by (auto simp: entered_def elim: meets_weaken)
qed

definition called ::
  "('n, 'f, 'k) solver_run \<Rightarrow> ('p, 'n, 'f) ifds_problem \<Rightarrow> ('n, 'f) path_edge \<Rightarrow> 'p \<Rightarrow> ('p, 'n, 'f) ifds_state \<Rightarrow> bool" where
  "called run P e p s \<longleftrightarrow>
     (case e of PathEdge sn sd n d c \<Rightarrow> (case entry_of (graph P) p of
        Inl _ \<Rightarrow> False
      | Inr start \<Rightarrow> (\<forall>d'\<in>calls P n p d. entered run P sn sd n d c start d' s)))"

lemma lasting_called [intro, simp]: "ifds_lasting run (called run P e p)"
proof (cases e)
  case (PathEdge sn sd n d c)
  show ?thesis
    by (cases "entry_of (graph P) p") (simp_all add: called_def[abs_def] PathEdge lasting_def[of _ _ "\<lambda>_. False"] lasting_ball)
qed

lemma call_callee_meets:
  assumes wf: "problem_wf P" and e: "derives run P (PathEdge sn sd n d c)" and n: "is_call_node (graph P) n"
    and p: "p \<in> callees_of_call_at (graph P) n"
  shows "ifds_meets run P None (call_callee run P (PathEdge sn sd n d c) p) (called run P (PathEdge sn sd n d c) p)"
proof -
  obtain start where start: "entry_of (graph P) p = Inr start"
    using sg_wf_callees[of "graph P" p n] wf p by (auto simp: problem_wf_def)
  have "ifds_meets run P None
      (\<lambda>s. fold_res (call_transition run P (PathEdge sn sd n d c) p start)
         (normalize_transitions (sr_fact_key run) (ip_call P n p d)) (count_step call_flow_steps s))
      (\<lambda>s. \<forall>d'\<in>set (normalize_transitions (sr_fact_key run) (ip_call P n p d)).
         entered run P sn sd n d c start d' s)"
    by (intro meets_counted forward.meets_fold) (auto intro!: call_transition_meets[OF wf e n p start])
  then show ?thesis using start by (simp add: call_callee_def[abs_def] called_def[abs_def])
qed

definition bypassed :: "('p, 'n, 'f) ifds_problem \<Rightarrow> ('n, 'f) path_edge \<Rightarrow> 'n \<Rightarrow> ('p, 'n, 'f) ifds_state \<Rightarrow> bool" where
  "bypassed P e r s \<longleftrightarrow> (case e of PathEdge sn sd n d c \<Rightarrow>
     \<forall>d'\<in>bypasses P n r d. PathEdge sn sd r d' c \<in> st_seen s)"

lemma lasting_bypassed [intro, simp]: "ifds_lasting run (bypassed P e r)"
  by (cases e) (simp add: bypassed_def[abs_def] lasting_ball)

definition called_all ::
  "('n, 'f, 'k) solver_run \<Rightarrow> ('p, 'n, 'f) ifds_problem \<Rightarrow> ('n, 'f) path_edge \<Rightarrow> ('p, 'n, 'f) ifds_state \<Rightarrow> bool" where
  "called_all run P e s \<longleftrightarrow> (is_call_node (graph P) (edge_node e) \<longrightarrow>
     (\<forall>r\<in>call_to_return_successors (graph P) (edge_node e). bypassed P e r s) \<and>
     (\<forall>p\<in>callees_of_call_at (graph P) (edge_node e). called run P e p s))"

lemma lasting_called_all [intro, simp]: "ifds_lasting run (called_all run P e)"
  by (cases "is_call_node (graph P) (edge_node e)") (simp_all add: called_all_def[abs_def] lasting_ball lasting_conj)

lemma call_part_meets:
  assumes wf: "problem_wf P" and e: "derives run P e"
  shows "ifds_meets run P None (call_part run P e) (called_all run P e)"
proof (cases "is_call_node (graph P) (edge_node e)")
  case False
  then show ?thesis using forward.meets_skip[of run "ifds_inv run P None"]
    by (simp add: call_part_def[abs_def] called_all_def[abs_def])
next
  case True
  obtain sn sd n d c where pe: "e = PathEdge sn sd n d c" by (cases e)
  have n: "is_call_node (graph P) n" using True pe by simp
  have "ifds_meets run P None
      (\<lambda>s. bind_res (fold_res (bypass_step run P e) (ordered_call_to_return_successors (graph P) n) s)
         (fold_res (call_callee run P e) (ordered_callees_of_call_at (graph P) n)))
      (\<lambda>s. (\<forall>r\<in>set (ordered_call_to_return_successors (graph P) n). bypassed P e r s) \<and>
           (\<forall>p\<in>set (ordered_callees_of_call_at (graph P) n). called run P e p s))"
    using e n unfolding pe
    by (intro forward.meets_bind forward.meets_fold lasting_ball lasting_bypassed lasting_called)
       (auto simp: bypassed_def[abs_def] intro!: bypass_step_meets[OF wf] call_callee_meets[OF wf])
  then show ?thesis using True pe by (simp add: call_part_def[abs_def] called_all_def[abs_def])
qed

text \<open>A new summary and its return flows into the recorded callers.\<close>

lemma exit_of_procedure:
  assumes "problem_wf P" "is_exit_node (graph P) x" "procedure_of (graph P) x = Inr p"
  shows "x \<in> exits_of (graph P) p"
  using assms(2,3) by (simp add: is_exit_node_def exits_of_def procedure_of_iff)

lemma return_record_meets:
  assumes wf: "problem_wf P" and e: "derives run P (PathEdge sn sd n d c)" and n: "is_exit_node (graph P) n"
    and p: "procedure_of (graph P) n = Inr p" and rec: "rec \<in> set (get_list i (sn, sd, c))"
    and sound: "incoming_sound run P s0" "st_incoming s0 = i"
  shows "ifds_meets run P T (return_record run P (PathEdge sn sd n d c) p rec)
    (\<lambda>s. \<forall>d3\<in>returns P (call_node rec) p n (return_site rec) (call_fact rec) d.
       PathEdge (caller_source_node rec) (caller_source_fact rec) (return_site rec) d3
         (caller_source_context rec) \<in> st_seen s)"
proof -
  obtain q where q: "entry_of (graph P) q = Inr sn" "is_call_node (graph P) (call_node rec)"
    "q \<in> callees_of_call_at (graph P) (call_node rec)" "sd \<in> calls P (call_node rec) q (call_fact rec)"
    "return_site rec \<in> return_sites_of_call_at (graph P) (call_node rec)"
    "c = push_context (depth_of run) (caller_source_context rec) (call_node rec)"
    "derives run P (PathEdge (caller_source_node rec) (caller_source_fact rec) (call_node rec)
       (call_fact rec) (caller_source_context rec))"
    using sound rec unfolding incoming_sound_def by blast
  have "procedure_of (graph P) sn = Inr q" using q(1) wf sg_wf_entry by (auto simp: problem_wf_def)
  then have "q = p" using tabulated_same_procedure[OF wf e[unfolded derives_def]] p by simp
  have x: "n \<in> exits_of (graph P) p" by (rule exit_of_procedure[OF wf n p])
  show ?thesis
    unfolding return_record_def path_edge.sel
  proof (rule propagate_all_meets[OF wf])
    fix d3 assume d3: "d3 \<in> returns P (call_node rec) p n (return_site rec) (call_fact rec) d"
    show "derives run P (PathEdge (caller_source_node rec) (caller_source_fact rec) (return_site rec) d3
         (caller_source_context rec))"
      unfolding derives_def
      by (rule tabulated.return[OF q(7)[unfolded derives_def] q(2,3,1,4,5)
            e[unfolded derives_def q(6)] x[folded \<open>q = p\<close>] d3[folded \<open>q = p\<close>]])
  qed
qed

lemma summary_entered:
  assumes s: "ifds_inv run P None s" and e: "derives run P (PathEdge sn sd n d c)"
    and n: "is_exit_node (graph P) n"
    and s1: "s1 = s\<lparr>st_end_summary := set_add (sn, sd, n, c) d (st_end_summary s), st_summary_entries := t\<rparr>"
  shows "ifds_inv run P (Some (st_incoming s, set_add (sn, sd, n, c) d (st_end_summary s))) s1"
    and "ifds_grows run s s1"
proof -
  have "summary_sound run P s1"
    using s e n by (auto simp: s1 ifds_inv_def ifds_base_def summary_sound_def)
  moreover have "incoming_sound run P s1"
    using s by (simp add: s1 ifds_inv_def ifds_base_def incoming_sound_def)
  ultimately show "ifds_inv run P (Some (st_incoming s, set_add (sn, sd, n, c) d (st_end_summary s))) s1"
    using s by (simp add: s1 ifds_inv_def ifds_base_def reached_exact_def)
  show "ifds_grows run s s1"
    using s by (auto simp: s1 ifds_grows_def ifds_inv_def ifds_base_def)
qed

lemma paired_after_summary:
  assumes wf: "problem_wf P" and old: "paired P s" and seen: "st_seen s \<subseteq> st_seen s'"
    and tables: "st_incoming s' = st_incoming s" "st_end_summary s' = set_add (sn, sd, n, c) d (st_end_summary s)"
    and p: "procedure_of (graph P) n = Inr p"
    and returned: "\<forall>rec\<in>set (get_list (st_incoming s) (sn, sd, c)).
      \<forall>d3\<in>returns P (call_node rec) p n (return_site rec) (call_fact rec) d.
        PathEdge (caller_source_node rec) (caller_source_fact rec) (return_site rec) d3
          (caller_source_context rec) \<in> st_seen s'"
  shows "paired P s'"
  unfolding paired_def
proof (intro allI impI)
  fix start d1 kc rec x d2 q d3
  assume rec: "rec \<in> set (get_list (st_incoming s') (start, d1, kc))"
    and d2: "d2 \<in> set (get_list (st_end_summary s') (start, d1, x, kc))"
    and q: "entry_of (graph P) q = Inr start" "x \<in> exits_of (graph P) q"
    and d3: "d3 \<in> returns P (call_node rec) q x (return_site rec) (call_fact rec) d2"
  consider "start = sn" "d1 = sd" "kc = c" "x = n" "d2 = d"
    | "d2 \<in> set (get_list (st_end_summary s) (start, d1, x, kc))" using d2 by (auto simp: tables)
  then show "PathEdge (caller_source_node rec) (caller_source_fact rec) (return_site rec) d3
      (caller_source_context rec) \<in> st_seen s'"
  proof cases
    case 1
    then have "q = p" using sg_wf_exits[of "graph P" x q] wf q(2) p by (simp add: problem_wf_def)
    then show ?thesis using 1 returned rec d3 by (auto simp: tables)
  next
    case 2
    then have "PathEdge (caller_source_node rec) (caller_source_fact rec) (return_site rec) d3
      (caller_source_context rec) \<in> st_seen s"
      using old rec q d3 unfolding paired_def tables by blast
    then show ?thesis using seen by blast
  qed
qed

definition summarized :: "('p, 'n, 'f) ifds_problem \<Rightarrow> ('n, 'f) path_edge \<Rightarrow> ('p, 'n, 'f) ifds_state \<Rightarrow> bool" where
  "summarized P e s \<longleftrightarrow> (case e of PathEdge sn sd n d c \<Rightarrow>
     is_exit_node (graph P) n \<longrightarrow> d \<in> set (get_list (st_end_summary s) (sn, sd, n, c)))"

lemma lasting_summarized [intro, simp]: "ifds_lasting run (summarized P e)"
  by (cases e; cases "is_exit_node (graph P) (edge_node e)") (simp_all add: summarized_def[abs_def])

lemma exit_part_meets:
  assumes wf: "problem_wf P" and e: "derives run P e"
  shows "ifds_meets run P None (exit_part run P e) (summarized P e)"
proof (cases "is_exit_node (graph P) (edge_node e)")
  case False
  then have "exit_part run P e = Inr" "summarized P e = (\<lambda>_. True)"
    by (cases e; simp add: exit_part_def[abs_def] summarized_def[abs_def])+
  then show ?thesis using forward.meets_skip by simp
next
  case True
  obtain sn sd n d c where pe: "e = PathEdge sn sd n d c" by (cases e)
  have n: "is_exit_node (graph P) n" and e': "derives run P (PathEdge sn sd n d c)" using True e pe by simp_all
  obtain p where p: "procedure_of (graph P) n = Inr p"
    using tabulated_same_procedure[OF wf e[unfolded derives_def]] pe by auto
  let ?t = "\<lambda>s. set_add (sn, sd, n, c) d (st_end_summary s)"
  let ?s1 = "\<lambda>s. s\<lparr>st_end_summary := ?t s, st_summary_entries := st_summary_entries s + 1\<rparr>"
  let ?ret = "\<lambda>s. fold_res (return_record run P e p) (sort_key (record_key run) (get_list (st_incoming s) (sn, sd, c))) s"
  have step: "exit_part run P e s =
      (if d \<in> set (get_list (st_end_summary s) (sn, sd, n, c)) then Inr s
       else bind_res (budget run (count_step summary_updates (?s1 s))) ?ret)" for s
    using n p by (simp add: exit_part_def pe Let_def key_context_edge[OF e'] cong: bind_res_cong)
  have ret: "ifds_meets run P (Some (i, t)) (fold_res (return_record run P e p) (sort_key (record_key run) (get_list i (sn, sd, c))))
      (\<lambda>s. \<forall>rec\<in>set (sort_key (record_key run) (get_list i (sn, sd, c))).
        \<forall>d3\<in>returns P (call_node rec) p n (return_site rec) (call_fact rec) d.
          PathEdge (caller_source_node rec) (caller_source_fact rec) (return_site rec) d3
            (caller_source_context rec) \<in> st_seen s)"
    if "incoming_sound run P s0" "st_incoming s0 = i" for i t and s0 :: "('a, 'b, 'c) ifds_state"
    unfolding pe
    by (rule forward.meets_fold) (auto intro!: return_record_meets[OF wf e' n p _ that] lasting_ball)
  show ?thesis
  proof (rule meetsI)
    fix s err assume s: "ifds_inv run P None s" and err: "exit_part run P e s = Inl err"
    then have b: "bind_res (budget run (count_step summary_updates (?s1 s))) ?ret = Inl err"
      by (simp add: step split: if_splits)
    show "limit_error run err"
    proof (cases "budget run (count_step summary_updates (?s1 s))")
      case (Inl err')
      then show ?thesis using b by (auto dest: budget_Inl)
    next
      case (Inr s2)
      have i3: "ifds_inv run P (Some (st_incoming s, ?t s)) s2"
        by (rule same_but_bk_inv[OF budget_Inr[OF Inr] same_but_bk_inv[OF count_step_same
            summary_entered(1)[OF s e' n refl]]])
      then have "st_incoming s2 = st_incoming s" "incoming_sound run P s2"
        by (simp_all add: ifds_inv_def ifds_base_def)
      then show ?thesis using meets_fails[OF ret i3] b Inr by simp
    qed
  next
    fix s s' assume s: "ifds_inv run P None s" and s': "exit_part run P e s = Inr s'"
    show "ifds_inv run P None s' \<and> ifds_grows run s s' \<and> (complete s' \<longrightarrow> summarized P e s')"
    proof (cases "d \<in> set (get_list (st_end_summary s) (sn, sd, n, c))")
      case True
      then have "s' = s" using s' by (simp add: step)
      then show ?thesis using s True by (simp add: forward.grows_refl summarized_def pe)
    next
      case new: False
      then obtain s2 where s2: "budget run (count_step summary_updates (?s1 s)) = Inr s2"
        and r: "?ret s2 = Inr s'" using s' step by (auto simp: bind_res_eq_Inr)
      note i1 = summary_entered[OF s e' n refl, of "st_summary_entries s + 1"]
      note i2 = same_but_bk_inv[OF count_step_same i1(1), of summary_updates]
      note i3 = same_but_bk_inv[OF budget_Inr[OF s2] i2]
      have inc: "st_incoming s2 = st_incoming s" "incoming_sound run P s2"
        using i3 by (simp_all add: ifds_inv_def ifds_base_def)
      note m = meetsD[OF ret[OF inc(2,1)] i3 r[unfolded inc(1)]]
      have g: "ifds_grows run s s'"
        by (rule forward.grows_trans[OF i1(2) forward.grows_trans[OF same_but_bk_grows[OF count_step_same i1(1)]
              forward.grows_trans[OF same_but_bk_grows[OF budget_Inr[OF s2] i2] m(2)]]])
      have "paired P s'" if c: "complete s'"
      proof (rule paired_after_summary[OF wf _ _ _ _ p])
        have "complete s" using g c by (rule forward.live_before)
        then show "paired P s" using s by (simp add: ifds_inv_def)
        show "st_seen s \<subseteq> st_seen s'" using g by (simp add: ifds_grows_def)
        show "st_incoming s' = st_incoming s" "st_end_summary s' = ?t s"
          using m(1) by (simp_all add: ifds_inv_def)
        show "\<forall>rec\<in>set (get_list (st_incoming s) (sn, sd, c)).
          \<forall>d3\<in>returns P (call_node rec) p n (return_site rec) (call_fact rec) d.
            PathEdge (caller_source_node rec) (caller_source_fact rec) (return_site rec) d3
              (caller_source_context rec) \<in> st_seen s'"
          using m(3)[OF c] by simp
      qed
      moreover have "summarized P e s'"
        using m(1) by (simp add: ifds_inv_def summarized_def pe)
      ultimately show ?thesis using m(1) g by (simp add: ifds_inv_def)
    qed
  qed
qed

text \<open>A processed path edge has left all its consequences.\<close>

definition followed :: "('p, 'n, 'f) ifds_problem \<Rightarrow> ('n, 'f) path_edge \<Rightarrow> 'n \<Rightarrow> ('p, 'n, 'f) ifds_state \<Rightarrow> bool" where
  "followed P e m s \<longleftrightarrow> (case e of PathEdge sn sd n d c \<Rightarrow>
     \<forall>d'\<in>normals P n m d. PathEdge sn sd m d' c \<in> st_seen s)"

lemma lasting_followed [intro, simp]: "ifds_lasting run (followed P e m)"
  by (cases e) (simp add: followed_def[abs_def] lasting_ball)

definition processed ::
  "('n, 'f, 'k) solver_run \<Rightarrow> ('p, 'n, 'f) ifds_problem \<Rightarrow> ('n, 'f) path_edge \<Rightarrow> ('p, 'n, 'f) ifds_state \<Rightarrow> bool" where
  "processed run P e s \<longleftrightarrow> called_all run P e s \<and> summarized P e s \<and>
     (\<forall>m\<in>normal_successors (graph P) (edge_node e). followed P e m s)"

lemma lasting_processed [intro, simp]: "ifds_lasting run (processed run P e)"
  unfolding processed_def[abs_def] by (intro lasting_conj lasting_ball lasting_called_all lasting_summarized lasting_followed)

lemma process_edge_meets:
  assumes wf: "problem_wf P" and e: "derives run P e"
  shows "ifds_meets run P None (process_edge run P e) (processed run P e)"
proof -
  have "ifds_meets run P None (normal_step run P e m) (followed P e m)"
    if "m \<in> set (ordered_normal_successors (graph P) (edge_node e))" for m
    using that e by (cases e) (auto simp: followed_def[abs_def] intro!: normal_step_meets[OF wf])
  then have "ifds_meets run P None
      (\<lambda>s. bind_res (call_part run P e s) (\<lambda>s. bind_res (exit_part run P e s)
         (fold_res (normal_step run P e) (ordered_normal_successors (graph P) (edge_node e)))))
      (\<lambda>s. called_all run P e s \<and> summarized P e s \<and>
         (\<forall>m\<in>set (ordered_normal_successors (graph P) (edge_node e)). followed P e m s))"
    by (intro forward.meets_bind forward.meets_fold call_part_meets[OF wf e] exit_part_meets[OF wf e]
        lasting_called_all lasting_summarized lasting_followed)
  then show ?thesis by (simp add: process_edge_def[abs_def] processed_def[abs_def])
qed

section \<open>The loop\<close>

definition seeded :: "('n, 'f, 'k) solver_run \<Rightarrow> ('p, 'n, 'f) ifds_problem \<Rightarrow> ('p, 'n, 'f) ifds_state \<Rightarrow> bool" where
  "seeded run P s \<longleftrightarrow> (\<forall>nd\<in>set (ip_seeds P). \<forall>d\<in>set (snd nd).
     PathEdge (fst nd) d (fst nd) d (seed_context (depth_of run)) \<in> st_seen s)"

lemma lasting_seeded [intro, simp]: "ifds_lasting run (seeded run P)"
  unfolding seeded_def[abs_def] by (intro lasting_ball lasting_seen)

lemma known_node_id: "sg_wf g \<Longrightarrow> known_node g n \<Longrightarrow> is_ok (node_id g n)"
  using numbers_dom[of "sg_node_ids g" "map fst (sg_node_to_proc g)" n]
  by (auto simp: sg_wf_def sg_ok_def sg_tables_def known_node_def node_id_def map_of_eq_None_iff
      split: option.splits)

lemma seed_all_meets:
  assumes wf: "problem_wf P"
  shows "ifds_meets run P None (seed_all run P) (seeded run P)"
proof -
  have ok: "list_all (\<lambda>nd. is_ok (node_id (graph P) (fst nd))) (ip_seeds P)"
    using wf known_node_id[of "graph P"] by (auto simp: problem_wf_def list_all_iff)
  have seed: "ifds_meets run P None (seed_node run P nd)
      (\<lambda>s. \<forall>d\<in>set (snd nd). PathEdge (fst nd) d (fst nd) d (seed_context (depth_of run)) \<in> st_seen s)"
    if nd: "nd \<in> set (ip_seeds P)" for nd
  proof -
    obtain n ds where p: "nd = (n, ds)" by fastforce
    have "ifds_meets run P None
        (fold_res (\<lambda>d. propagate run P ''seed'' None None (PathEdge n d n d (seed_context (depth_of run))))
           (sort_key (sr_fact_key run) ds))
        (\<lambda>s. \<forall>d\<in>set (sort_key (sr_fact_key run) ds). PathEdge n d n d (seed_context (depth_of run)) \<in> st_seen s)"
      using nd p by (intro forward.meets_fold propagate_meets[OF wf] lasting_seen)
        (auto simp: derives_def intro: tabulated.seed)
    then show ?thesis by (simp add: seed_node_def[abs_def] p)
  qed
  have "ifds_meets run P None
      (fold_res (seed_node run P) (sort_key (\<lambda>nd. node_key (graph P) (fst nd)) (ip_seeds P)))
      (\<lambda>s. \<forall>nd\<in>set (sort_key (\<lambda>nd. node_key (graph P) (fst nd)) (ip_seeds P)). \<forall>d\<in>set (snd nd).
         PathEdge (fst nd) d (fst nd) d (seed_context (depth_of run)) \<in> st_seen s)"
    using seed by (intro forward.meets_fold lasting_ball lasting_seen) auto
  then show ?thesis using ok by (simp add: seed_all_def[abs_def] seeded_def[abs_def])
qed

lemma ifds_start_inv: "ifds_inv run P None (ifds_start run)"
  by (simp add: ifds_inv_defs ifds_start_def)

definition loop_inv :: "('n, 'f, 'k) solver_run \<Rightarrow> ('p, 'n, 'f) ifds_problem \<Rightarrow> ('p, 'n, 'f) ifds_state \<Rightarrow> bool" where
  "loop_inv run P s \<longleftrightarrow> ifds_inv run P None s \<and> finite (st_seen s) \<and>
     (complete s \<longrightarrow> seeded run P s \<and> (\<forall>e \<in> st_seen s - set (st_queue s). processed run P e s))"

lemma seed_all_loop:
  assumes "problem_wf P" "seed_all run P (ifds_start run) = Inr s"
  shows "loop_inv run P s" and "\<not> stoppable run \<Longrightarrow> complete s"
proof -
  note m = meetsD[OF seed_all_meets[OF assms(1)] ifds_start_inv assms(2)]
  have "st_seen (ifds_start run) = {}" "complete (ifds_start run)" by (simp_all add: ifds_start_def bk_new_def)
  with m show "loop_inv run P s" "\<not> stoppable run \<Longrightarrow> complete s"
    by (auto simp: loop_inv_def ifds_grows_def)
qed

lemma processed_tables:
  assumes "same_tables s t"
  shows "processed run P e t = processed run P e s" "seeded run P t = seeded run P s"
  using assms
  by (auto simp: processed_def called_all_def called_def entered_def bypassed_def summarized_def
      followed_def seeded_def same_tables_def split: path_edge.splits sum.splits)

text \<open>One turn of the worklist loop.\<close>

lemma turn_popped:
  assumes inv: "loop_inv run P s" and q: "st_queue s = e # q" and c: "complete s"
  shows "ifds_inv run P None (s\<lparr>st_queue := q\<rparr>)" "derives run P e" "same_tables s (s\<lparr>st_queue := q\<rparr>)"
  using assms by (auto simp: loop_inv_def ifds_inv_defs same_tables_def)

lemma loop_inv_budget:
  assumes inv: "loop_inv run P s" and b: "budget run s = Inr s1"
  shows "loop_inv run P s1" "\<not> stoppable run \<Longrightarrow> complete s \<Longrightarrow> complete s1"
    "st_queue s1 = st_queue s" "st_seen s1 = st_seen s"
proof -
  have sb: "same_but_bk run s s1" by (rule budget_Inr[OF b])
  then have t: "same_tables s s1" "st_queue s1 = st_queue s" "complete s1 \<Longrightarrow> complete s"
    "\<not> stoppable run \<Longrightarrow> complete s \<Longrightarrow> complete s1" by (simp_all add: same_but_bk_def)
  then have seen: "st_seen s1 = st_seen s" by (simp add: same_tables_def)
  have i: "ifds_inv run P None s1" using same_but_bk_inv[OF sb] inv by (simp add: loop_inv_def)
  show "loop_inv run P s1"
    unfolding loop_inv_def processed_tables[OF t(1)] seen t(2) using i t(3) inv by (simp add: loop_inv_def)
  show "\<not> stoppable run \<Longrightarrow> complete s \<Longrightarrow> complete s1" "st_queue s1 = st_queue s" "st_seen s1 = st_seen s"
    using t seen by blast+
qed

lemma loop_turn:
  assumes wf: "problem_wf P" and inv: "loop_inv run P s" and q: "st_queue s = e # q" and c: "complete s"
  shows "process_edge run P e (count_step k (s\<lparr>st_queue := q\<rparr>)) = Inl err \<Longrightarrow> limit_error run err"
    and "process_edge run P e (count_step k (s\<lparr>st_queue := q\<rparr>)) = Inr s2 \<Longrightarrow>
      loop_inv run P s2 \<and> (\<not> stoppable run \<longrightarrow> complete s2) \<and>
      length (st_queue s2) + card (st_seen s) < length (st_queue s) + card (st_seen s2)"
proof -
  let ?s1 = "s\<lparr>st_queue := q\<rparr>" and ?s2 = "count_step k (s\<lparr>st_queue := q\<rparr>)"
  note p = turn_popped[OF inv q c]
  have sb: "same_but_bk run ?s1 ?s2" by simp
  have i: "ifds_inv run P None ?s2" by (rule same_but_bk_inv[OF sb p(1)])
  have e: "derives run P e" by (rule p(2))
  have t: "same_tables s ?s2" by (simp add: same_tables_def count_step_def)
  note contract = process_edge_meets[OF wf e]
  show "limit_error run err" if "process_edge run P e ?s2 = Inl err" using meets_fails[OF contract i that] .
  assume s2: "process_edge run P e ?s2 = Inr s2"
  note m = meetsD[OF contract i s2]
  have g: "ifds_grows run ?s2 s2" by (rule m(2))
  have f: "st_seen ?s2 = st_seen s" "st_queue ?s2 = q" "complete ?s2"
    using c by (simp_all add: count_step_def)
  have fin: "finite (st_seen s)" using inv by (simp add: loop_inv_def)
  have "seeded run P s2 \<and> (\<forall>e' \<in> st_seen s2 - set (st_queue s2). processed run P e' s2)" if c2: "complete s2"
  proof (intro conjI ballI)
    have "seeded run P ?s2" using inv c unfolding processed_tables[OF t] by (simp add: loop_inv_def)
    then show "seeded run P s2" using lasting_seeded[of run P] g c2 by (auto simp: lasting_def)
    fix e' assume e': "e' \<in> st_seen s2 - set (st_queue s2)"
    then have "e' \<in> st_seen s" "e' \<notin> set q" using g c2 f by (auto simp: ifds_grows_def)
    show "processed run P e' s2"
    proof (cases "e' = e")
      case True
      then show ?thesis using m(3)[OF c2] by simp
    next
      case False
      then have "processed run P e' s" using inv c q \<open>e' \<in> st_seen s\<close> \<open>e' \<notin> set q\<close> by (simp add: loop_inv_def)
      then have "processed run P e' ?s2" unfolding processed_tables[OF t] .
      then show ?thesis using lasting_processed[of run P e'] g c2 by (auto simp: lasting_def)
    qed
  qed
  moreover have "finite (st_seen s2) \<and> length (st_queue s2) + card (st_seen s) \<le> length q + card (st_seen s2)"
    using g fin f by (simp add: ifds_grows_def)
  moreover have "\<not> stoppable run \<longrightarrow> complete s2" using g f by (simp add: ifds_grows_def)
  ultimately show "loop_inv run P s2 \<and> (\<not> stoppable run \<longrightarrow> complete s2) \<and>
      length (st_queue s2) + card (st_seen s) < length (st_queue s) + card (st_seen s2)"
    using m(1) q by (simp add: loop_inv_def)
qed

definition loop_result :: "('n, 'f, 'k) solver_run \<Rightarrow> ('p, 'n, 'f) ifds_problem \<Rightarrow> bool \<Rightarrow> ('p, 'n, 'f) ifds_state res \<Rightarrow> bool" where
  "loop_result run P live r \<longleftrightarrow> (case r of
      Inl e \<Rightarrow> limit_error run e
    | Inr s \<Rightarrow> loop_inv run P s \<and> (st_queue s = [] \<or> \<not> complete s) \<and> (\<not> stoppable run \<longrightarrow> live \<longrightarrow> complete s))"

lemma worklist_result:
  assumes ret: "worklist run P s = Some r" and wf: "problem_wf P" and inv: "loop_inv run P s"
  shows "loop_result run P (complete s) r"
proof -
  have "problem_wf P \<longrightarrow> loop_inv run P s \<longrightarrow> loop_result run P (complete s) r"
  proof (rule worklist.raw_induct[where P = "\<lambda>run P s r. problem_wf P \<longrightarrow> loop_inv run P s \<longrightarrow>
        loop_result run P (complete s) r", OF _ ret], intro impI, goal_cases)
    case (1 f run P s r)
    note IH = 1(1) and eq = 1(2) and wf = 1(3) and inv = 1(4)
    show ?case
    proof (cases "st_queue s = [] \<or> \<not> complete s")
      case True
      then show ?thesis using eq inv by (auto simp: loop_result_def)
    next
      case False
      then obtain e q where q: "st_queue s = e # q" and c: "complete s" by (cases "st_queue s") auto
      show ?thesis
      proof (cases "budget run s")
        case (Inl err)
        then have "r = Inl err" using eq q c by simp
        then show ?thesis using budget_Inl[OF Inl] by (simp add: loop_result_def)
      next
        case (Inr s1)
        note b = loop_inv_budget[OF inv Inr]
        show ?thesis
        proof (cases "complete s1")
          case False
          then have "r = Inr s1" using eq q c Inr by simp
          moreover have "stoppable run" using b(2) c False by blast
          ultimately show ?thesis using b(1) False by (simp add: loop_result_def)
        next
          case c1: True
          note turn = loop_turn[OF wf b(1) b(3)[unfolded q] c1]
          show ?thesis
          proof (cases "process_edge run P e (count_step processed_path_edges (s1\<lparr>st_queue := q\<rparr>))")
            case (Inl err)
            then have "r = Inl err" using eq q c c1 \<open>budget run s = Inr s1\<close> b(3) by simp
            then show ?thesis using turn(1)[OF Inl] by (simp add: loop_result_def)
          next
            case (Inr s2)
            then have "f run P s2 = Some r" using eq q c c1 \<open>budget run s = Inr s1\<close> b(3) by simp
            then have "loop_result run P (complete s2) r" using IH wf turn(2)[OF Inr] by blast
            then show ?thesis using turn(2)[OF Inr] by (auto simp: loop_result_def split: sum.splits)
          qed
        qed
      qed
    qed
  qed
  with wf inv show ?thesis by blast
qed

lemma worklist_returns:
  assumes wf: "problem_wf P" and fin: "finite {e. derives run P e}" and inv: "loop_inv run P s"
  shows "\<exists>r. worklist run P s = Some r"
  using inv
proof (induction "card ({e. derives run P e} - st_seen s) + length (st_queue s)" arbitrary: s rule: less_induct)
  case less
  note inv = less.prems
  show ?case
  proof (cases "st_queue s = [] \<or> \<not> complete s")
    case True
    then show ?thesis by (subst worklist.simps) auto
  next
    case False
    then obtain e q where q: "st_queue s = e # q" and c: "complete s" by (cases "st_queue s") auto
    show ?thesis
    proof (cases "budget run s")
      case (Inl err)
      then show ?thesis using False by (subst worklist.simps) simp
    next
      case b: (Inr s1)
      note l = loop_inv_budget[OF inv b]
      show ?thesis
      proof (cases "complete s1")
        case False
        then show ?thesis using b q c by (subst worklist.simps) simp
      next
        case c1: True
        note turn = loop_turn[OF wf l(1) l(3)[unfolded q] c1]
        show ?thesis
        proof (cases "process_edge run P e (count_step processed_path_edges (s1\<lparr>st_queue := q\<rparr>))")
          case (Inl err)
          then show ?thesis using b q c c1 l(3) by (subst worklist.simps) simp
        next
          case (Inr s2)
          note t = turn(2)[OF Inr]
          have sub: "st_seen s \<subseteq> {e. derives run P e}" "st_seen s2 \<subseteq> {e. derives run P e}"
            using inv t by (auto simp: loop_inv_def ifds_inv_def ifds_base_def)
          have "card (D - st_seen s2) + length (st_queue s2) < card (D - st_seen s) + length (st_queue s)"
            if D: "finite D" "st_seen s \<subseteq> D" "st_seen s2 \<subseteq> D" for D
          proof -
            have "card (D - st_seen s2) = card D - card (st_seen s2)" "card (D - st_seen s) = card D - card (st_seen s)"
              using D by (simp_all add: card_Diff_subset finite_subset)
            moreover have "card (st_seen s) \<le> card D" "card (st_seen s2) \<le> card D" using D by (simp_all add: card_mono)
            moreover have "length (st_queue s2) + card (st_seen s) < length (st_queue s) + card (st_seen s2)"
              using t l(3,4) by simp
            ultimately show ?thesis by linarith
          qed
          from this[OF fin sub] have "card ({e. derives run P e} - st_seen s2) + length (st_queue s2) <
              card ({e. derives run P e} - st_seen s) + length (st_queue s)" .
          then obtain r where "worklist run P s2 = Some r" using less.hyps t by blast
          then show ?thesis using b q c c1 l(3) Inr by (subst worklist.simps) simp
        qed
      qed
    qed
  qed
qed

end
