(* ===== verification/IfdsResults.thy ===== *)
theory IfdsResults
  imports IfdsCorrectness
begin

text \<open>
  \<^verbatim>\<open>IFDSResult\<close> of \<^verbatim>\<open>analysis/ifds/core/solver.py\<close> and what a solved problem answers.
\<close>

section \<open>Queries\<close>

definition ir_is_complete :: "('p, 'n, 'f) ifds_result \<Rightarrow> bool" where
  "ir_is_complete r \<longleftrightarrow> ir_status r = COMPLETE"

definition ir_facts_at :: "('p, 'n, 'f) ifds_result \<Rightarrow> 'n \<Rightarrow> 'f set" where
  "ir_facts_at r n = set (get_list (ir_reached r) n)"

definition ir_is_reached :: "('p, 'n, 'f) ifds_result \<Rightarrow> 'n \<Rightarrow> 'f \<Rightarrow> bool" where
  "ir_is_reached r n d \<longleftrightarrow> d \<in> set (get_list (ir_reached r) n)"

definition ir_traces_for :: "('p, 'n, 'f) ifds_result \<Rightarrow> ('n, 'f) path_edge \<Rightarrow> ('p, 'n, 'f) trace list" where
  "ir_traces_for r e = get_list (ir_traces r) e"

definition ir_explain_fact ::
  "('p, 'n, 'f) ifds_result \<Rightarrow> 'n \<Rightarrow> 'f \<Rightarrow> (('n, 'f) path_edge \<times> ('p, 'n, 'f) trace list) set" where
  "ir_explain_fact r n d =
     (\<lambda>e. (e, ir_traces_for r e)) `
       {e \<in> ir_path_edges r. edge_node e = n \<and> edge_fact e = d \<and> ir_traces_for r e \<noteq> []}"

text \<open>The dictionary keys are the plain pairs and triples, without a context.\<close>

definition ir_incoming_records ::
  "('p, 'n, 'f) ifds_result \<Rightarrow> 'n \<Rightarrow> 'f \<Rightarrow> ('n, 'f) incoming_record list" where
  "ir_incoming_records r start d = get_list (ir_incoming r) (start, d, None)"

definition ir_end_summaries :: "('p, 'n, 'f) ifds_result \<Rightarrow> 'n \<Rightarrow> 'f \<Rightarrow> 'n \<Rightarrow> 'f set" where
  "ir_end_summaries r start d exit_node = set (get_list (ir_end_summary r) (start, d, exit_node, None))"

section \<open>Correctness of a solution\<close>

text \<open>The final state of a run that returned.\<close>

lemma ifds_solve_cases:
  assumes "ifds_solve run P = Some res" "problem_wf P"
  obtains (failed) e where "res = Inl e" "limit_error run e"
  | (solved) s bk where "loop_inv run P s" "st_queue s = [] \<or> \<not> complete s" "\<not> stoppable run \<longrightarrow> complete s"
      "finish run (complete s) (st_bk s) = Inr bk" "bk_step run (st_bk s) (Inr bk)"
      "res = Inr \<lparr>ir_reached = st_reached s, ir_path_edges = st_seen s, ir_statistics = bk_stats bk,
         ir_traces = frozen_traces run bk, ir_incoming = st_incoming s, ir_end_summary = st_end_summary s,
         ir_status = bk_status bk, ir_reason = bk_reason bk\<rparr>"
proof (cases "seed_all run P (ifds_start run)")
  case (Inl e)
  then have "res = Inl e" using assms(1) by (simp add: ifds_solve_def)
  moreover have "limit_error run e" by (rule meets_fails[OF seed_all_meets[OF assms(2)] ifds_start_inv Inl])
  ultimately show thesis by (rule failed)
next
  case (Inr s0)
  note s0 = seed_all_loop[OF assms(2) Inr]
  obtain w where w: "worklist run P s0 = Some w" and res: "Some res = (case w of Inl e \<Rightarrow> Some (Inl e) | Inr s \<Rightarrow> Some (ifds_finish run s))"
    using assms(1) Inr by (auto simp: ifds_solve_def split: option.splits sum.splits)
  have l: "loop_result run P (complete s0) w" by (rule worklist_result[OF w assms(2) s0(1)])
  show thesis
  proof (cases w)
    case (Inl e)
    then show thesis using failed l res by (simp add: loop_result_def)
  next
    case (Inr s)
    show thesis
    proof (cases "finish run (complete s) (st_bk s)")
      case (Inl e)
      have "bk_step run (st_bk s) (Inl e)" unfolding Inl[symmetric] by (rule finish_step)
      then show thesis using failed res Inl \<open>w = Inr s\<close> by (simp add: ifds_finish_def bk_step_def)
    next
      case (Inr bk)
      have "bk_step run (st_bk s) (Inr bk)" unfolding Inr[symmetric] by (rule finish_step)
      then show thesis using solved[of s bk] l s0(2) res Inr \<open>w = Inr s\<close>
        by (simp add: ifds_finish_def loop_result_def)
    qed
  qed
qed

text \<open>A drained worklist has every derivable path edge.\<close>

lemma drained_complete:
  assumes wf: "problem_wf P" and inv: "loop_inv run P s" and q: "st_queue s = []" and c: "complete s" and e: "derives run P e"
  shows "e \<in> st_seen s"
  using e unfolding derives_def
proof (induction rule: tabulated.induct)
  case (seed n ds d)
  then show ?case using inv c by (fastforce simp: loop_inv_def seeded_def)
next
  case (normal sn sd n d c m d')
  then have "followed P (PathEdge sn sd n d c) m s"
    using inv \<open>complete s\<close> q by (simp add: loop_inv_def processed_def)
  then show ?case using normal by (simp add: followed_def)
next
  case (bypass sn sd n d c r d')
  then have "bypassed P (PathEdge sn sd n d c) r s"
    using inv \<open>complete s\<close> q by (simp add: loop_inv_def processed_def called_all_def)
  then show ?case using bypass by (simp add: bypassed_def)
next
  case (call sn sd n d c p start d')
  then have "called run P (PathEdge sn sd n d c) p s"
    using inv \<open>complete s\<close> q by (simp add: loop_inv_def processed_def called_all_def)
  then show ?case using call by (simp add: called_def entered_def)
next
  case (return sn sd n d c p start d1 r x d2 d3)
  have "called run P (PathEdge sn sd n d c) p s"
    using return inv \<open>complete s\<close> q by (simp add: loop_inv_def processed_def called_all_def)
  then have rec: "IncomingRecord sn sd c n d r \<in>
      set (get_list (st_incoming s) (start, d1, push_context (depth_of run) c n))"
    using return by (simp add: called_def entered_def)
  have "is_exit_node (graph P) x"
    using return.hyps wf sg_wf_is_exit[of "graph P" x] by (auto simp: problem_wf_def)
  moreover have "summarized P (PathEdge start d1 x d2 (push_context (depth_of run) c n)) s"
    using return inv \<open>complete s\<close> q by (simp add: loop_inv_def processed_def)
  ultimately have sum: "d2 \<in> set (get_list (st_end_summary s) (start, d1, x, push_context (depth_of run) c n))"
    by (simp add: summarized_def)
  have "paired P s" using inv \<open>complete s\<close> by (simp add: loop_inv_def ifds_inv_def)
  from this[unfolded paired_def, rule_format, OF rec sum] return.hyps show ?case by simp
qed

lemma loop_reached:
  assumes "loop_inv run P s"
  shows "d \<in> set (get_list (st_reached s) n) \<longleftrightarrow> (\<exists>sn sd c. PathEdge sn sd n d c \<in> st_seen s)"
proof -
  have "d \<in> set (get_list (st_reached s) n) \<longleftrightarrow> (\<exists>e\<in>st_seen s. edge_node e = n \<and> edge_fact e = d)"
    using assms by (simp add: loop_inv_def ifds_inv_def ifds_base_def reached_exact_def)
  then show ?thesis by (metis path_edge.sel(3,4) path_edge.exhaust)
qed

lemma solution_sound:
  assumes "problem_wf P" "ifds_solve run P = Some (Inr r)" "e \<in> ir_path_edges r"
  shows "derives run P e"
  using assms(2,1)
proof (cases rule: ifds_solve_cases)
  case (solved s bk)
  then show ?thesis using assms(3) by (simp add: loop_inv_def ifds_inv_def ifds_base_def)
qed simp

lemma solution_drained:
  assumes "problem_wf P" "ifds_solve run P = Some (Inr r)" "ir_is_complete r" "derives run P e"
  shows "e \<in> ir_path_edges r"
  using assms(2,1)
proof (cases rule: ifds_solve_cases)
  case (solved s bk)
  then have "complete s" using assms(3) by (simp add: ir_is_complete_def bk_step_def)
  then show ?thesis using drained_complete[OF assms(1) solved(1) _ _ assms(4)] solved(2,6) by simp
qed simp

lemma solution_facts:
  assumes "problem_wf P" "ifds_solve run P = Some (Inr r)"
  shows "d \<in> ir_facts_at r n \<longleftrightarrow> (\<exists>sn sd c. PathEdge sn sd n d c \<in> ir_path_edges r)"
  using assms(2,1)
proof (cases rule: ifds_solve_cases)
  case (solved s bk)
  then show ?thesis using loop_reached[OF solved(1)] by (simp add: ir_facts_at_def)
qed simp

lemma derives_reachable: "(\<exists>sn sd c. derives run P (PathEdge sn sd n d c)) \<longleftrightarrow> reachable_fact P n d"
  unfolding derives_def by (rule tabulated_realizable)

lemma solution_reachable:
  assumes "problem_wf P" "ifds_solve run P = Some (Inr r)" "ir_is_complete r"
  shows "d \<in> ir_facts_at r n \<longleftrightarrow> reachable_fact P n d"
  unfolding solution_facts[OF assms(1,2)] derives_reachable[of run P n d, symmetric]
  using solution_sound[OF assms(1,2)] solution_drained[OF assms] by blast

text \<open>C1: an IFDS solution is exact. Whatever the limits and the order of facts, every fact
  that a result reports at a node is reached there by a run of the program with matching calls
  and returns, and every path edge it reports is derivable; and when the status is
  \<open>COMPLETE\<close> the facts at a node are exactly those that such runs reach, and the path edges
  exactly the derivable ones. A partial or cancelled result is an under-approximation.\<close>

theorem ifds_solution_exact:
  assumes "problem_wf P" "ifds_solve run P = Some (Inr r)"
  shows "(d \<in> ir_facts_at r n \<longrightarrow> reachable_fact P n d) \<and>
    (ir_path_edges r \<subseteq> Collect (tabulated P (so_max_depth (sr_options run)))) \<and>
    (ir_is_complete r \<longrightarrow> (d \<in> ir_facts_at r n \<longleftrightarrow> reachable_fact P n d) \<and>
       ir_path_edges r = Collect (tabulated P (so_max_depth (sr_options run))))"
proof -
  have "derives run P e" if "e \<in> ir_path_edges r" for e using solution_sound[OF assms that] .
  moreover have "derives run P e \<longleftrightarrow> e \<in> ir_path_edges r" if "ir_is_complete r" for e
    using solution_drained[OF assms that] solution_sound[OF assms] by blast
  moreover have "reachable_fact P n d" if "d \<in> ir_facts_at r n"
    using that solution_sound[OF assms] unfolding solution_facts[OF assms] derives_reachable[of run P, symmetric] by blast
  ultimately show ?thesis
    using solution_reachable[OF assms] by (auto simp: derives_def depth_of_def)
qed

section \<open>Termination\<close>

text \<open>A set of facts that the flows of a problem do not leave.\<close>

definition closed_facts :: "('p, 'n, 'f) ifds_problem \<Rightarrow> 'f set \<Rightarrow> bool" where
  "closed_facts P F \<longleftrightarrow>
     (\<forall>nd\<in>set (ip_seeds P). set (snd nd) \<subseteq> F) \<and>
     (\<forall>n m. \<forall>d\<in>F. normals P n m d \<subseteq> F \<and> bypasses P n m d \<subseteq> F) \<and>
     (\<forall>n p. \<forall>d\<in>F. calls P n p d \<subseteq> F) \<and>
     (\<forall>n p x r. \<forall>d\<in>F. \<forall>d'\<in>F. returns P n p x r d d' \<subseteq> F)"

definition bounded_context :: "'n set \<Rightarrow> int option \<Rightarrow> 'n call_context option \<Rightarrow> bool" where
  "bounded_context N depth c \<longleftrightarrow> (case c of None \<Rightarrow> True
     | Some ctx \<Rightarrow> depth = Some (max_depth ctx) \<and> set (call_sites ctx) \<subseteq> N \<and>
         length (call_sites ctx) \<le> nat (max_depth ctx))"

lemma bounded_push:
  assumes "bounded_context N depth c" "n \<in> N"
  shows "bounded_context N depth (push_context depth c n)"
proof (cases c)
  case (Some ctx)
  obtain sites k where k: "ctx = CallContext sites k" by (cases ctx)
  have "set (last_sites k (sites @ [n])) \<subseteq> N"
    using assms set_drop_subset[of "length (sites @ [n]) - nat k" "sites @ [n]"]
    unfolding last_sites_def by (auto simp: bounded_context_def Some k)
  moreover have "length (last_sites k (sites @ [n])) \<le> nat k" by (simp add: last_sites_def)
  ultimately show ?thesis
    using assms by (auto simp: bounded_context_def push_context_def Some k Let_def)
qed (simp add: push_context_def bounded_context_def)

lemma finite_bounded_contexts:
  assumes "finite N"
  shows "finite {c. bounded_context N depth c}"
proof (cases depth)
  case None
  have "{c. bounded_context N depth c} \<subseteq> {None}" by (auto simp: None bounded_context_def split: option.splits)
  then show ?thesis by (rule finite_subset) simp
next
  case (Some k)
  have "{c. bounded_context N depth c} \<subseteq>
      insert None ((\<lambda>xs. Some (CallContext xs k)) ` {xs. set xs \<subseteq> N \<and> length xs \<le> nat k})"
  proof
    fix c assume "c \<in> {c. bounded_context N depth c}"
    then show "c \<in> insert None ((\<lambda>xs. Some (CallContext xs k)) ` {xs. set xs \<subseteq> N \<and> length xs \<le> nat k})"
      by (cases c; cases "the c") (auto simp: bounded_context_def Some)
  qed
  then show ?thesis by (rule finite_subset) (simp add: assms finite_lists_length_le)
qed

lemma tabulated_bounded:
  assumes wf: "problem_wf P" and F: "closed_facts P F" and e: "tabulated P depth e"
  shows "known_node (graph P) (source_node e) \<and> known_node (graph P) (edge_node e) \<and>
    source_fact e \<in> F \<and> edge_fact e \<in> F \<and> bounded_context {n. known_node (graph P) n} depth (edge_context e)"
proof -
  have known: "known_node (graph P) (source_node e)" "known_node (graph P) (edge_node e)"
    if "tabulated P depth e" for e
    using tabulated_same_procedure[OF wf that]
    by (auto simp: known_node_def procedure_of_def split: option.splits)
  from e have "source_fact e \<in> F \<and> edge_fact e \<in> F \<and>
      bounded_context {n. known_node (graph P) n} depth (edge_context e)"
  proof (induction rule: tabulated.induct)
    case (seed n ds d)
    then have "d \<in> F" using F by (force simp: closed_facts_def)
    then show ?case by (auto simp: bounded_context_def seed_context_def split: option.splits)
  next
    case (normal sn sd n d c m d')
    then have "d \<in> F" by simp
    then have "d' \<in> F" using F normal.hyps(3) unfolding closed_facts_def by blast
    then show ?case using normal.IH by simp
  next
    case (bypass sn sd n d c r d')
    then have "d \<in> F" by simp
    then have "d' \<in> F" using F bypass.hyps(4) unfolding closed_facts_def by blast
    then show ?case using bypass.IH by simp
  next
    case (call sn sd n d c p start d')
    have "d' \<in> F"
    proof -
      have "d \<in> F" using call.IH by simp
      then show ?thesis using F call.hyps(5) unfolding closed_facts_def by blast
    qed
    moreover have "bounded_context {n. known_node (graph P) n} depth (push_context depth c n)"
      by (rule bounded_push) (use known(2)[OF call.hyps(1)] call.IH in simp_all)
    ultimately show ?case by (simp only: path_edge.sel simp_thms)
  next
    case (return sn sd n d c p start d1 r x d2 d3)
    then have "d \<in> F" "d2 \<in> F" by simp_all
    then have "d3 \<in> F" using F return.hyps(9) unfolding closed_facts_def by blast
    then show ?case using return.IH by simp
  qed
  with known[OF e] show ?thesis by blast
qed

lemma finite_derivable:
  assumes wf: "problem_wf P" and F: "closed_facts P F" "finite F"
  shows "finite {e. derives run P e}"
proof -
  let ?N = "{n. known_node (graph P) n}"
  let ?C = "{c. bounded_context ?N (depth_of run) c}"
  have "?N \<subseteq> fst ` set (sg_node_to_proc (graph P))"
    by (auto simp: known_node_def map_of_eq_None_iff)
  then have N: "finite ?N" by (rule finite_subset) simp
  have "{e. derives run P e} \<subseteq> (\<lambda>(sn, sd, n, d, c). PathEdge sn sd n d c) ` (?N \<times> F \<times> ?N \<times> F \<times> ?C)"
  proof
    fix e assume "e \<in> {e. derives run P e}"
    then have b: "known_node (graph P) (source_node e) \<and> known_node (graph P) (edge_node e) \<and>
      source_fact e \<in> F \<and> edge_fact e \<in> F \<and> bounded_context ?N (depth_of run) (edge_context e)"
      using tabulated_bounded[OF wf F(1)] by (simp add: derives_def)
    show "e \<in> (\<lambda>(sn, sd, n, d, c). PathEdge sn sd n d c) ` (?N \<times> F \<times> ?N \<times> F \<times> ?C)"
      by (rule image_eqI[of _ _ "(source_node e, source_fact e, edge_node e, edge_fact e, edge_context e)"])
         (use b in auto)
  qed
  then show ?thesis by (rule finite_subset) (use N F(2) finite_bounded_contexts[OF N] in simp)
qed

text \<open>C2: the solver terminates. If the flows stay in a finite set of facts, \<open>solve\<close> returns
  for every choice of options, call-string depth, clock and order of facts; it raises nothing
  but \<^verbatim>\<open>SolverLimitExceeded\<close>, and that only when a limit is set and the behaviour is
  \<^verbatim>\<open>raise\<close>; and when no limit and no token is set it ends \<open>COMPLETE\<close>.\<close>

theorem ifds_terminates:
  assumes "problem_wf P" "closed_facts P F" "finite F"
  shows "\<exists>res. ifds_solve run P = Some res \<and>
    (\<forall>e. res = Inl e \<longrightarrow> e = SolverLimitExceeded \<and> so_limit_behavior (sr_options run) = ''raise'' \<and> stoppable run) \<and>
    (\<not> stoppable run \<longrightarrow> (\<exists>r. res = Inr r \<and> ir_is_complete r))"
proof -
  have "\<exists>res. ifds_solve run P = Some res"
  proof (cases "seed_all run P (ifds_start run)")
    case (Inl e)
    then show ?thesis by (simp add: ifds_solve_def)
  next
    case (Inr s)
    obtain w where "worklist run P s = Some w"
      using worklist_returns[OF assms(1) finite_derivable[OF assms] seed_all_loop(1)[OF assms(1) Inr]] by blast
    then show ?thesis using Inr by (cases w) (simp_all add: ifds_solve_def)
  qed
  then obtain res where res: "ifds_solve run P = Some res" by blast
  from res assms(1) have "(\<forall>e. res = Inl e \<longrightarrow> limit_error run e) \<and>
      (\<not> stoppable run \<longrightarrow> (\<exists>r. res = Inr r \<and> ir_is_complete r))"
  proof (cases rule: ifds_solve_cases)
    case (failed e)
    then show ?thesis by (simp add: limit_error_def)
  next
    case (solved s bk)
    then show ?thesis by (auto simp: ir_is_complete_def bk_step_def)
  qed
  with res show ?thesis by (auto simp: limit_error_def)
qed

text \<open>C14: call strings change the cost, not the answer. Two complete solutions of the same
  problem, with whatever call-string depths, limits and fact orders, report the same facts at
  every node: the summaries already keep calls and returns matched.\<close>

theorem ifds_depth_irrelevant:
  assumes "problem_wf P" "ifds_solve run P = Some (Inr r)" "ifds_solve run' P = Some (Inr r')"
    and "ir_is_complete r" "ir_is_complete r'"
  shows "ir_facts_at r n = ir_facts_at r' n"
  using solution_reachable[OF assms(1,2,4)] solution_reachable[OF assms(1,3,5)] by blast

section \<open>An example\<close>

text \<open>Fact 7 is generated at the entry of \<open>main\<close>, passes through \<open>f\<close> and comes back as 8.\<close>

definition example_problem :: "(string, nat, nat) ifds_problem" where
  "example_problem =
     \<lparr>ip_supergraph = example_graph, ip_zero = 0, ip_seeds = [(0, [0])],
      ip_normal = (\<lambda>n m d. if n = 0 then gen_flow 7 0 d else identity_flow 0 d),
      ip_call = (\<lambda>n p d. identity_flow 0 d),
      ip_return = (\<lambda>n p x r d d'. if d' = 7 then [FactTransition 8] else kill_flow d'),
      ip_call_to_return = (\<lambda>n r d. kill_flow d)\<rparr>"

definition example_run :: "int option \<Rightarrow> (nat, nat, nat) solver_run" where
  "example_run depth =
     \<lparr>sr_options = default_solver_options\<lparr>so_max_depth := depth\<rparr>,
      sr_env = \<lparr>env_clock = (\<lambda>_. 0), env_peak = (\<lambda>_. 0), env_token = (\<lambda>_. token_new), env_tracing = False\<rparr>,
      sr_fact_key = id, sr_node_key = id\<rparr>"

lemma example_problem_wf: "problem_wf example_problem"
proof -
  have "known_node example_graph 0" by code_simp
  then show ?thesis using sg_built_wf[OF example_graph_built] by (simp add: problem_wf_def example_problem_def)
qed

lemma example_problem_closed: "closed_facts example_problem {0, 7, 8}"
  by (auto simp: closed_facts_def example_problem_def facts_of_def gen_flow_def identity_flow_def kill_flow_def)

lemma example_not_stoppable: "\<not> stoppable (example_run depth)"
  by (simp add: stoppable_def example_run_def default_solver_options_def)

text \<open>The run into the callee and back.\<close>

lemma example_reachable: "reachable_fact example_problem 3 8"
proof -
  have g: "ip_supergraph example_problem = example_graph" by (simp add: example_problem_def)
  have "realizable example_problem 0 0 []"
    by (rule realizable.start[of 0 "[0]"]) (simp_all add: example_problem_def)
  then have "realizable example_problem 1 7 []"
    by (rule realizable.step) (unfold g, code_simp, simp add: example_problem_def facts_of_def gen_flow_def)
  then have "realizable example_problem 10 7 [(1, ''f'', 7)]"
    by (rule realizable.enter) (unfold g, code_simp, code_simp, code_simp,
      simp add: example_problem_def facts_of_def identity_flow_def)
  then have "realizable example_problem 11 7 [(1, ''f'', 7)]"
    by (rule realizable.step) (unfold g, code_simp, simp add: example_problem_def facts_of_def identity_flow_def)
  then have "realizable example_problem 2 8 []"
    by (rule realizable.leave) (unfold g, code_simp, code_simp, simp add: example_problem_def facts_of_def)
  then have "realizable example_problem 3 8 []"
    by (rule realizable.step) (unfold g, code_simp, simp add: example_problem_def facts_of_def identity_flow_def)
  then show ?thesis by (auto simp: reachable_fact_def)
qed

lemma example_solved:
  obtains r where "ifds_solve (example_run depth) example_problem = Some (Inr r)" "ir_is_complete r"
proof -
  have w: "seed_all (example_run depth) example_problem (ifds_start (example_run depth)) = Inl e \<Longrightarrow> False" for e
    using meets_fails[OF seed_all_meets[OF example_problem_wf] ifds_start_inv] example_not_stoppable[of depth]
    by (auto simp: limit_error_def)
  obtain s where s: "seed_all (example_run depth) example_problem (ifds_start (example_run depth)) = Inr s"
    using w by (cases "seed_all (example_run depth) example_problem (ifds_start (example_run depth))") auto
  obtain res where "ifds_solve (example_run depth) example_problem = Some res"
    using worklist_returns[OF example_problem_wf finite_derivable[OF example_problem_wf example_problem_closed]
        seed_all_loop(1)[OF example_problem_wf s]] s
    by (fastforce simp: ifds_solve_def split: sum.splits)
  then show thesis using example_problem_wf
  proof (cases rule: ifds_solve_cases)
    case (failed e)
    then show thesis using example_not_stoppable[of depth] by (simp add: limit_error_def)
  next
    case (solved t bk)
    then show thesis using that \<open>ifds_solve (example_run depth) example_problem = Some res\<close> example_not_stoppable[of depth]
      by (auto simp: ir_is_complete_def bk_step_def)
  qed
qed

theorem ifds_solution_exact_witness:
  "\<exists>r. ifds_solve (example_run None) example_problem = Some (Inr r) \<and> 8 \<in> ir_facts_at r 3"
proof -
  obtain r where r: "ifds_solve (example_run None) example_problem = Some (Inr r)" "ir_is_complete r"
    by (rule example_solved)
  from ifds_solution_exact[OF example_problem_wf r(1), of 8 3] r(2) example_reachable
  have "8 \<in> ir_facts_at r 3" by blast
  with r(1) show ?thesis by blast
qed

theorem ifds_terminates_witness:
  "\<exists>r. ifds_solve (example_run (Some 2)) example_problem = Some (Inr r) \<and> ir_is_complete r"
  using ifds_terminates[OF example_problem_wf example_problem_closed, of "example_run (Some 2)"]
    example_not_stoppable[of "Some 2"] by auto

theorem ifds_depth_irrelevant_witness:
  "\<exists>r r'. ifds_solve (example_run None) example_problem = Some (Inr r) \<and>
     ifds_solve (example_run (Some 1)) example_problem = Some (Inr r') \<and> ir_facts_at r 3 = ir_facts_at r' 3"
proof -
  obtain r where r: "ifds_solve (example_run None) example_problem = Some (Inr r)" "ir_is_complete r"
    by (rule example_solved)
  obtain r' where r': "ifds_solve (example_run (Some 1)) example_problem = Some (Inr r')" "ir_is_complete r'"
    by (rule example_solved)
  from ifds_depth_irrelevant[OF example_problem_wf r(1) r'(1) r(2) r'(2), of 3] r r' show ?thesis by blast
qed

section \<open>Callers and summaries of a solution\<close>

lemma solution_incoming_sound:
  assumes "problem_wf P" "ifds_solve run P = Some (Inr r)" "rec \<in> set (get_list (ir_incoming r) (start, d1, kc))"
  shows "\<exists>p. entry_of (graph P) p = Inr start \<and> is_call_node (graph P) (call_node rec) \<and>
    p \<in> callees_of_call_at (graph P) (call_node rec) \<and> d1 \<in> calls P (call_node rec) p (call_fact rec) \<and>
    return_site rec \<in> return_sites_of_call_at (graph P) (call_node rec) \<and>
    kc = push_context (depth_of run) (caller_source_context rec) (call_node rec) \<and>
    derives run P (PathEdge (caller_source_node rec) (caller_source_fact rec) (call_node rec)
             (call_fact rec) (caller_source_context rec))"
  using assms(2,1)
proof (cases rule: ifds_solve_cases)
  case (solved s bk)
  then have "incoming_sound run P s" by (simp add: loop_inv_def ifds_inv_def ifds_base_def)
  moreover have "rec \<in> set (get_list (st_incoming s) (start, d1, kc))" using solved(6) assms(3) by simp
  ultimately show ?thesis unfolding incoming_sound_def by blast
qed simp

lemma solution_summary_sound:
  assumes "problem_wf P" "ifds_solve run P = Some (Inr r)" "d2 \<in> set (get_list (ir_end_summary r) (start, d1, x, kc))"
  shows "is_exit_node (graph P) x \<and> derives run P (PathEdge start d1 x d2 kc)"
  using assms(2,1)
proof (cases rule: ifds_solve_cases)
  case (solved s bk)
  then show ?thesis using assms(3) by (simp add: loop_inv_def ifds_inv_def ifds_base_def summary_sound_def)
qed simp

lemma solution_processed:
  assumes "problem_wf P" "ifds_solve run P = Some (Inr r)" "ir_is_complete r" "derives run P e"
  obtains s where "processed run P e s" "st_incoming s = ir_incoming r" "st_end_summary s = ir_end_summary r"
  using assms(2,1)
proof (cases rule: ifds_solve_cases)
  case (solved s bk)
  then have c: "complete s" using assms(3) by (simp add: ir_is_complete_def bk_step_def)
  then have "e \<in> st_seen s" using drained_complete[OF assms(1) solved(1) _ _ assms(4)] solved(2) by blast
  then have "processed run P e s" using solved(1,2) c by (simp add: loop_inv_def)
  then show ?thesis using that solved(6) by simp
qed simp

text \<open>C15: the callers and the summaries that a result reports. Without call strings, a
  complete result lists for the entry of a procedure exactly the calls that enter it with that
  fact, and for each exit exactly the facts that the procedure's path edges derive there. With
  call strings the tables are keyed by the context too, while the two queries look up the key
  without one, so they answer "none" for every procedure.\<close>

theorem solution_callers_and_summaries:
  assumes "problem_wf P" "ifds_solve run P = Some (Inr r)" "ir_is_complete r"
  shows "if so_max_depth (sr_options run) = None
    then (entry_of (graph P) p = Inr start \<longrightarrow>
           (IncomingRecord sn sd None n d rs \<in> set (ir_incoming_records r start d1) \<longleftrightarrow>
             tabulated P None (PathEdge sn sd n d None) \<and> p \<in> callees_of_call_at (graph P) n \<and>
             d1 \<in> calls P n p d \<and> rs \<in> return_sites_of_call_at (graph P) n)) \<and>
         (d2 \<in> ir_end_summaries r start d1 x \<longleftrightarrow>
           is_exit_node (graph P) x \<and> tabulated P None (PathEdge start d1 x d2 None))
    else ir_incoming_records r start d1 = [] \<and> ir_end_summaries r start d1 x = {}"
proof (cases "so_max_depth (sr_options run)")
  case (Some k)
  have "\<not> rec \<in> set (get_list (ir_incoming r) (start, d1, None))" for rec
    using solution_incoming_sound[OF assms(1,2), of rec start d1 None]
      derives_context[of run P "PathEdge (caller_source_node rec) (caller_source_fact rec) (call_node rec)
             (call_fact rec) (caller_source_context rec)"]
    by (auto simp: push_context_def depth_of_def Some)
  moreover have "\<not> d2 \<in> set (get_list (ir_end_summary r) (start, d1, x, None))" for d2
    using solution_summary_sound[OF assms(1,2), of d2 start d1 x None]
      derives_context[of run P "PathEdge start d1 x d2 None"]
    by (auto simp: depth_of_def Some)
  ultimately show ?thesis
    by (simp add: Some ir_incoming_records_def ir_end_summaries_def set_eq_iff flip: set_empty)
next
  case None
  have dep: "derives run P = tabulated P None" by (simp add: fun_eq_iff derives_def depth_of_def None)
  have push: "push_context (depth_of run) c n = None" for c :: "'b call_context option" and n
    by (simp add: push_context_def depth_of_def None)
  have call_iff: "is_call_node (graph P) m \<longleftrightarrow> callees_of_call_at (graph P) m \<noteq> {}" for m
    using assms(1) by (simp add: problem_wf_def sg_wf_def sg_ok_def sg_edges_def)
  have "IncomingRecord sn sd None n d rs \<in> set (get_list (ir_incoming r) (start, d1, None)) \<longleftrightarrow>
      tabulated P None (PathEdge sn sd n d None) \<and> p \<in> callees_of_call_at (graph P) n \<and>
      d1 \<in> calls P n p d \<and> rs \<in> return_sites_of_call_at (graph P) n" (is "?l \<longleftrightarrow> ?r")
    if p: "entry_of (graph P) p = Inr start"
  proof
    assume ?l
    from solution_incoming_sound[OF assms(1,2) this] show ?r
      using entry_unique[OF assms(1) _ p] by (auto simp: dep)
  next
    assume r: ?r
    then have e: "derives run P (PathEdge sn sd n d None)" by (simp add: dep)
    obtain s where s: "processed run P (PathEdge sn sd n d None) s" "st_incoming s = ir_incoming r"
      by (rule solution_processed[OF assms e])
    have "is_call_node (graph P) n" using r call_iff by auto
    then have "called run P (PathEdge sn sd n d None) p s"
      using s(1) r by (simp add: processed_def called_all_def)
    then show ?l using r p s(2) by (simp add: called_def entered_def push)
  qed
  moreover have "d2 \<in> set (get_list (ir_end_summary r) (start, d1, x, None)) \<longleftrightarrow>
      is_exit_node (graph P) x \<and> tabulated P None (PathEdge start d1 x d2 None)" (is "?l \<longleftrightarrow> ?r")
  proof
    assume ?l
    from solution_summary_sound[OF assms(1,2) this] show ?r by (simp add: dep)
  next
    assume r: ?r
    then have e: "derives run P (PathEdge start d1 x d2 None)" by (simp add: dep)
    obtain s where "processed run P (PathEdge start d1 x d2 None) s" "st_end_summary s = ir_end_summary r"
      by (rule solution_processed[OF assms e])
    then show ?l using r by (simp add: processed_def summarized_def)
  qed
  ultimately show ?thesis by (simp add: None ir_incoming_records_def ir_end_summaries_def)
qed

theorem solution_callers_and_summaries_witness:
  "\<exists>r. ifds_solve (example_run (Some 2)) example_problem = Some (Inr r) \<and> ir_is_complete r \<and>
     ir_incoming_records r 10 7 = []"
proof -
  obtain r where r: "ifds_solve (example_run (Some 2)) example_problem = Some (Inr r)" "ir_is_complete r"
    by (rule example_solved)
  have "so_max_depth (sr_options (example_run (Some 2))) = Some 2" by (simp add: example_run_def)
  with solution_callers_and_summaries[OF example_problem_wf r, where start = 10 and ?d1.0 = 7] r
  show ?thesis by auto
qed

end
