(* ===== verification/EdgeFunctions.thy ===== *)
theory EdgeFunctions
  imports PyBase
begin

text \<open>
  The edge functions of IDE problems, \<^verbatim>\<open>analysis/ifds/core/problem.py\<close>: the classes with
  their \<^verbatim>\<open>compute\<close>, \<^verbatim>\<open>compose\<close> and \<^verbatim>\<open>join\<close>, and the normal forms these build.

  An analysis may define edge functions of its own by overriding \<^verbatim>\<open>compute\<close> and
  \<^verbatim>\<open>is_idempotent\<close>: an object of a direct subclass of \<^verbatim>\<open>EdgeFunction\<close> is an \<open>AtomEdge\<close>, one of a
  subclass of \<^verbatim>\<open>IdentityEdgeFunction\<close> (which \<^verbatim>\<open>isinstance\<close> takes for an identity) is an
  \<open>IdentityLike\<close>. What such objects compute is a field of \<open>edge_semantics\<close>. A join of values is a Python callable, compared by equality and stored in a
  \<^verbatim>\<open>JoinedEdgeFunction\<close>: here a name whose meaning is the other field. The equality of edge
  functions is the structural one of the frozen dataclasses.
\<close>

section \<open>The classes\<close>

datatype ('a, 'j, 'v) edge_function =
    IdentityEdge
  | ConstantEdge 'v
  | IdentityLike 'a
  | AtomEdge 'a
  | ComposedEdge (outer: "('a, 'j, 'v) edge_function") (inner: "('a, 'j, 'v) edge_function")
  | JoinedEdge "('a, 'j, 'v) edge_function" "('a, 'j, 'v) edge_function" 'j

record ('a, 'j, 'v) edge_semantics =
  es_apply :: "'a \<Rightarrow> 'v \<Rightarrow> 'v"
  es_idempotent :: "'a \<Rightarrow> bool"
  es_join :: "'j \<Rightarrow> 'v \<Rightarrow> 'v \<Rightarrow> 'v"

fun compute :: "('a, 'j, 'v) edge_semantics \<Rightarrow> ('a, 'j, 'v) edge_function \<Rightarrow> 'v \<Rightarrow> 'v" where
  "compute S IdentityEdge v = v"
| "compute S (ConstantEdge c) v = c"
| "compute S (IdentityLike a) v = es_apply S a v"
| "compute S (AtomEdge a) v = es_apply S a v"
| "compute S (ComposedEdge f g) v = compute S f (compute S g v)"
| "compute S (JoinedEdge f g j) v = es_join S j (compute S f v) (compute S g v)"

fun is_idempotent :: "('a, 'j, 'v) edge_semantics \<Rightarrow> ('a, 'j, 'v) edge_function \<Rightarrow> bool" where
  "is_idempotent S IdentityEdge = True"
| "is_idempotent S (ConstantEdge c) = True"
| "is_idempotent S (IdentityLike a) = es_idempotent S a"
| "is_idempotent S (AtomEdge a) = es_idempotent S a"
| "is_idempotent S (ComposedEdge f g) = False"
| "is_idempotent S (JoinedEdge f g j) = False"

section \<open>Composition and join\<close>

text \<open>\<^verbatim>\<open>ComposedEdgeFunction._iter_terms\<close>, \<^verbatim>\<open>_normalize_terms\<close> and \<^verbatim>\<open>from_functions\<close>.\<close>

fun composed_terms :: "('a, 'j, 'v) edge_function \<Rightarrow> ('a, 'j, 'v) edge_function list" where
  "composed_terms (ComposedEdge f g) = composed_terms f @ composed_terms g"
| "composed_terms f = [f]"

fun normalize_terms ::
  "('a, 'j, 'v) edge_semantics \<Rightarrow> ('a, 'j, 'v) edge_function list \<Rightarrow> ('a, 'j, 'v) edge_function list \<Rightarrow>
   ('a, 'j, 'v) edge_function list" where
  "normalize_terms S normalized [] = normalized"
| "normalize_terms S normalized (t # ts) =
     (if normalized \<noteq> [] \<and> last normalized = t \<and> is_idempotent S t
      then normalize_terms S normalized ts
      else normalize_terms S (normalized @ [t]) ts)"

fun compose_terms :: "('a, 'j, 'v) edge_function list \<Rightarrow> ('a, 'j, 'v) edge_function" where
  "compose_terms [] = IdentityEdge"
| "compose_terms [t] = t"
| "compose_terms (t # ts) = ComposedEdge t (compose_terms ts)"

definition composed_from ::
  "('a, 'j, 'v) edge_semantics \<Rightarrow> ('a, 'j, 'v) edge_function \<Rightarrow> ('a, 'j, 'v) edge_function \<Rightarrow>
   ('a, 'j, 'v) edge_function" where
  "composed_from S f g = compose_terms (normalize_terms S [] (composed_terms f @ composed_terms g))"

text \<open>\<^verbatim>\<open>JoinedEdgeFunction._iter_terms\<close>, \<^verbatim>\<open>_merge_terms\<close> and \<^verbatim>\<open>from_functions\<close>.\<close>

fun add_terms :: "('a, 'j, 'v) edge_function list \<Rightarrow> ('a, 'j, 'v) edge_function list \<Rightarrow>
    ('a, 'j, 'v) edge_function list" where
  "add_terms merged [] = merged"
| "add_terms merged (t # ts) = add_terms (if t \<in> set merged then merged else merged @ [t]) ts"

fun joined_terms :: "'j \<Rightarrow> ('a, 'j, 'v) edge_function \<Rightarrow> ('a, 'j, 'v) edge_function list" where
  "joined_terms j (JoinedEdge f g j') =
     (if j' = j then add_terms (add_terms [] (joined_terms j f)) (joined_terms j g)
      else [JoinedEdge f g j'])"
| "joined_terms j f = [f]"

definition merge_terms ::
  "'j \<Rightarrow> ('a, 'j, 'v) edge_function \<Rightarrow> ('a, 'j, 'v) edge_function \<Rightarrow> ('a, 'j, 'v) edge_function list" where
  "merge_terms j f g = add_terms (add_terms [] (joined_terms j f)) (joined_terms j g)"

definition joined_from ::
  "'j \<Rightarrow> ('a, 'j, 'v) edge_function \<Rightarrow> ('a, 'j, 'v) edge_function \<Rightarrow> ('a, 'j, 'v) edge_function" where
  "joined_from j f g =
     (case merge_terms j f g of
        [] \<Rightarrow> IdentityEdge
      | t # ts \<Rightarrow> foldl (\<lambda>joined t. JoinedEdge joined t j) t ts)"

text \<open>\<^verbatim>\<open>isinstance(f, IdentityEdgeFunction)\<close>.\<close>

fun is_identity :: "('a, 'j, 'v) edge_function \<Rightarrow> bool" where
  "is_identity IdentityEdge = True"
| "is_identity (IdentityLike a) = True"
| "is_identity f = False"

definition join ::
  "'j \<Rightarrow> ('a, 'j, 'v) edge_function \<Rightarrow> ('a, 'j, 'v) edge_function \<Rightarrow> ('a, 'j, 'v) edge_function" where
  "join j f g = (if f = g then f else if is_identity f \<and> is_identity g then f else joined_from j f g)"

text \<open>\<^verbatim>\<open>compose\<close>, with the overriding methods of the constant and the joined function first.\<close>

function compose ::
  "('a, 'j, 'v) edge_semantics \<Rightarrow> ('a, 'j, 'v) edge_function \<Rightarrow> ('a, 'j, 'v) edge_function \<Rightarrow>
   ('a, 'j, 'v) edge_function" where
  "compose S f previous =
     (case f of
        ConstantEdge c \<Rightarrow> f
      | JoinedEdge l r j \<Rightarrow> join j (compose S l previous) (compose S r previous)
      | _ \<Rightarrow>
          if is_identity f then previous
          else if is_identity previous then f
          else (case previous of
            JoinedEdge l r j \<Rightarrow> join j (compose S f l) (compose S f r)
          | _ \<Rightarrow> composed_from S f previous))"
  by pat_completeness auto
termination
  by (relation "measure (\<lambda>(S, f, g). size f + size g)") auto

declare compose.simps [simp del]

lemma compose_simps [simp]:
  "compose S (ConstantEdge c) g = ConstantEdge c"
  "compose S (JoinedEdge l r j) g = join j (compose S l g) (compose S r g)"
  "compose S IdentityEdge g = g"
  "compose S (IdentityLike a) g = g"
  by (simp_all add: compose.simps)

text \<open>The remaining receivers: an atom or a composition.\<close>

fun is_step :: "('a, 'j, 'v) edge_function \<Rightarrow> bool" where
  "is_step (AtomEdge a) = True"
| "is_step (ComposedEdge f g) = True"
| "is_step f = False"

lemma compose_step:
  assumes "is_step f"
  shows "is_identity g \<Longrightarrow> compose S f g = f"
    and "compose S f (JoinedEdge l r j) = join j (compose S f l) (compose S f r)"
    and "\<not> is_identity g \<Longrightarrow> \<nexists>l r j. g = JoinedEdge l r j \<Longrightarrow> compose S f g = composed_from S f g"
  using assms by (cases f; cases g; simp add: compose.simps)+

section \<open>What composition and join compute\<close>

text \<open>The value domain of a problem: its join is a semilattice join, its own edge functions
  distribute over it, and those that claim to be idempotent are.\<close>

definition lawful :: "('a, 'j, 'v) edge_semantics \<Rightarrow> 'j \<Rightarrow> bool" where
  "lawful S j \<longleftrightarrow>
     (\<forall>x. es_join S j x x = x) \<and>
     (\<forall>x y. es_join S j x y = es_join S j y x) \<and>
     (\<forall>x y z. es_join S j (es_join S j x y) z = es_join S j x (es_join S j y z)) \<and>
     (\<forall>a x y. es_apply S a (es_join S j x y) = es_join S j (es_apply S a x) (es_apply S a y)) \<and>
     (\<forall>a x. es_idempotent S a \<longrightarrow> es_apply S a (es_apply S a x) = es_apply S a x)"

text \<open>An edge function of the problem: it joins with the problem's join only, and what passes
  for an identity is one.\<close>

fun proper :: "('a, 'j, 'v) edge_semantics \<Rightarrow> 'j \<Rightarrow> ('a, 'j, 'v) edge_function \<Rightarrow> bool" where
  "proper S j (IdentityLike a) = (\<forall>v. es_apply S a v = v)"
| "proper S j (ComposedEdge f g) = (proper S j f \<and> proper S j g)"
| "proper S j (JoinedEdge f g j') = (j' = j \<and> proper S j f \<and> proper S j g)"
| "proper S j f = True"

lemma lawfulD:
  assumes "lawful S j"
  shows "es_join S j x x = x" "es_join S j x y = es_join S j y x"
    "es_join S j (es_join S j x y) z = es_join S j x (es_join S j y z)"
    "es_apply S a (es_join S j x y) = es_join S j (es_apply S a x) (es_apply S a y)"
    "es_idempotent S a \<Longrightarrow> es_apply S a (es_apply S a x) = es_apply S a x"
  using assms unfolding lawful_def by blast+

lemma join_left_commute: "lawful S j \<Longrightarrow> es_join S j x (es_join S j y z) = es_join S j y (es_join S j x z)"
  by (metis lawfulD(2,3))

lemma compute_distributes:
  assumes "lawful S j" "proper S j f"
  shows "compute S f (es_join S j x y) = es_join S j (compute S f x) (compute S f y)"
  using assms(2)
  by (induction f arbitrary: x y)
    (simp_all add: lawfulD(1,4)[OF assms(1)], metis lawfulD(2,3)[OF assms(1)])

lemma compute_identity: "is_identity f \<Longrightarrow> proper S j f \<Longrightarrow> compute S f v = v"
  by (cases f) auto

subsection \<open>Compositions\<close>

definition compute_terms :: "('a, 'j, 'v) edge_semantics \<Rightarrow> ('a, 'j, 'v) edge_function list \<Rightarrow> 'v \<Rightarrow> 'v" where
  "compute_terms S ts v = foldr (compute S) ts v"

lemma compute_terms_simps [simp]:
  "compute_terms S [] v = v"
  "compute_terms S (t # ts) v = compute S t (compute_terms S ts v)"
  "compute_terms S (ts @ us) v = compute_terms S ts (compute_terms S us v)"
  by (simp_all add: compute_terms_def)

lemma compute_composed_terms: "compute_terms S (composed_terms f) v = compute S f v"
  by (induction f arbitrary: v) simp_all

lemma compute_compose_terms: "compute S (compose_terms ts) v = compute_terms S ts v"
  by (induction ts rule: compose_terms.induct) simp_all

lemma compute_idempotent:
  "lawful S j \<Longrightarrow> is_idempotent S t \<Longrightarrow> compute S t (compute S t v) = compute S t v"
  by (cases t) (auto simp: lawfulD)

lemma compute_normalize_terms:
  "lawful S j \<Longrightarrow> compute_terms S (normalize_terms S ns ts) v = compute_terms S (ns @ ts) v"
proof (induction S ns ts rule: normalize_terms.induct)
  case (2 S ns t ts)
  show ?case
  proof (cases "ns \<noteq> [] \<and> last ns = t \<and> is_idempotent S t")
    case True
    then obtain ns' where "ns = ns' @ [t]" by (metis append_butlast_last_id)
    then show ?thesis using 2 True compute_idempotent[OF 2(3)] by simp
  qed (use 2 in auto)
qed simp

lemma compute_composed_from:
  "lawful S j \<Longrightarrow> compute S (composed_from S f g) v = compute S f (compute S g v)"
  by (simp add: composed_from_def compute_compose_terms compute_normalize_terms compute_composed_terms)

subsection \<open>Joins\<close>

fun joins :: "('a, 'j, 'v) edge_semantics \<Rightarrow> 'j \<Rightarrow> ('a, 'j, 'v) edge_function list \<Rightarrow> 'v \<Rightarrow> 'v" where
  "joins S j [] v = v"
| "joins S j [t] v = compute S t v"
| "joins S j (t # ts) v = es_join S j (compute S t v) (joins S j ts v)"

lemma joins_Cons: "ts \<noteq> [] \<Longrightarrow> joins S j (t # ts) v = es_join S j (compute S t v) (joins S j ts v)"
  by (cases ts) auto

lemma joins_append:
  assumes "lawful S j"
  shows "ts \<noteq> [] \<Longrightarrow> us \<noteq> [] \<Longrightarrow> joins S j (ts @ us) v = es_join S j (joins S j ts v) (joins S j us v)"
proof (induction ts)
  case (Cons t ts)
  then show ?case by (cases "ts = []") (simp_all add: joins_Cons lawfulD(3)[OF assms])
qed simp

lemma joins_absorb:
  assumes "lawful S j"
  shows "t \<in> set ts \<Longrightarrow> es_join S j (joins S j ts v) (compute S t v) = joins S j ts v"
proof (induction ts)
  case (Cons u ts)
  show ?case
  proof (cases "ts = []")
    case True
    then show ?thesis using Cons.prems by (simp add: lawfulD(1)[OF assms])
  next
    case False
    show ?thesis
    proof (cases "t \<in> set ts")
      case True
      then show ?thesis using Cons.IH False by (simp add: joins_Cons lawfulD(3)[OF assms])
    next
      case f: False
      then have "t = u" using Cons.prems by simp
      then show ?thesis using False
        by (simp add: joins_Cons) (metis lawfulD(1-3)[OF assms])
    qed
  qed
qed simp

lemma joins_add_terms:
  assumes "lawful S j"
  shows "ns @ ts \<noteq> [] \<Longrightarrow> add_terms ns ts \<noteq> [] \<and> joins S j (add_terms ns ts) v = joins S j (ns @ ts) v"
proof (induction ns ts rule: add_terms.induct)
  case (2 ns t ts)
  show ?case
  proof (cases "t \<in> set ns")
    case True
    then have ns: "ns \<noteq> []" by auto
    have "joins S j (ns @ t # ts) v = joins S j (ns @ ts) v"
    proof (cases "ts = []")
      case True
      then show ?thesis using joins_append[OF assms ns, of "[t]"] joins_absorb[OF assms \<open>t \<in> set ns\<close>] by simp
    next
      case False
      have "joins S j ((ns @ [t]) @ ts) v = es_join S j (joins S j (ns @ [t]) v) (joins S j ts v)"
        by (rule joins_append[OF assms]) (use False in auto)
      also have "joins S j (ns @ [t]) v = joins S j ns v"
        using joins_append[OF assms ns, of "[t]"] joins_absorb[OF assms \<open>t \<in> set ns\<close>] by simp
      finally show ?thesis using joins_append[OF assms ns False] by simp
    qed
    then show ?thesis using 2 True ns by simp
  qed (use 2 in simp)
qed simp

lemma joins_joined_terms:
  assumes "lawful S j" "proper S j f"
  shows "joined_terms j f \<noteq> [] \<and> joins S j (joined_terms j f) v = compute S f v"
  using assms(2)
proof (induction f)
  case (JoinedEdge f g j')
  then have f: "joined_terms j f \<noteq> []" "joins S j (joined_terms j f) v = compute S f v"
    and g: "joined_terms j g \<noteq> []" "joins S j (joined_terms j g) v = compute S g v" and j: "j' = j" by auto
  note a = joins_add_terms[OF assms(1), of "[]" "joined_terms j f"]
  have "joins S j (add_terms (add_terms [] (joined_terms j f)) (joined_terms j g)) v =
      joins S j (add_terms [] (joined_terms j f) @ joined_terms j g) v"
    using joins_add_terms[OF assms(1), of "add_terms [] (joined_terms j f)" "joined_terms j g"] g(1) by blast
  also have "\<dots> = es_join S j (joins S j (add_terms [] (joined_terms j f)) v) (joins S j (joined_terms j g) v)"
    by (rule joins_append[OF assms(1)]) (use a f g in auto)
  finally show ?case
    using a f g joins_add_terms[OF assms(1), of "add_terms [] (joined_terms j f)" "joined_terms j g"]
    by (simp add: j)
qed simp_all

lemma joins_merge_terms:
  assumes "lawful S j" "proper S j f" "proper S j g"
  shows "merge_terms j f g \<noteq> [] \<and> joins S j (merge_terms j f g) v = es_join S j (compute S f v) (compute S g v)"
  using joins_joined_terms[of S j "JoinedEdge f g j"] assms by (simp add: merge_terms_def)

lemma compute_foldl_joined:
  assumes "lawful S j"
  shows "compute S (foldl (\<lambda>joined t. JoinedEdge joined t j) t ts) v = joins S j (t # ts) v"
proof (induction ts arbitrary: t)
  case (Cons u ts)
  show ?case
  proof (cases "ts = []")
    case False
    then show ?thesis using Cons[of "JoinedEdge t u j"] by (simp add: joins_Cons lawfulD(3)[OF assms])
  qed simp
qed simp

lemma compute_join:
  assumes "lawful S j" "proper S j f" "proper S j g"
  shows "compute S (join j f g) v = es_join S j (compute S f v) (compute S g v)"
proof -
  have "compute S (joined_from j f g) v = es_join S j (compute S f v) (compute S g v)"
    using joins_merge_terms[OF assms, of v] compute_foldl_joined[OF assms(1)]
    by (auto simp: joined_from_def split: list.splits)
  then show ?thesis
    using compute_identity[of f S j v] compute_identity[of g S j v] assms(2,3)
    by (auto simp: join_def lawfulD(1)[OF assms(1)])
qed

subsection \<open>Properness is preserved\<close>

lemma proper_composed_terms: "proper S j f \<Longrightarrow> t \<in> set (composed_terms f) \<Longrightarrow> proper S j t"
  by (induction f) auto

lemma set_normalize_terms: "set (normalize_terms S ns ts) \<subseteq> set ns \<union> set ts"
  by (induction S ns ts rule: normalize_terms.induct) auto

lemma proper_compose_terms: "\<forall>t\<in>set ts. proper S j t \<Longrightarrow> proper S j (compose_terms ts)"
  by (induction ts rule: compose_terms.induct) auto

lemma proper_composed_from:
  assumes "proper S j f" "proper S j g"
  shows "proper S j (composed_from S f g)"
proof -
  have "\<forall>t\<in>set (composed_terms f @ composed_terms g). proper S j t"
    using assms proper_composed_terms[of S j] by auto
  then have "\<forall>t\<in>set (normalize_terms S [] (composed_terms f @ composed_terms g)). proper S j t"
    using set_normalize_terms[of S "[]" "composed_terms f @ composed_terms g"] by auto
  then show ?thesis unfolding composed_from_def by (rule proper_compose_terms)
qed

lemma set_add_terms [simp]: "set (add_terms ns ts) = set ns \<union> set ts"
  by (induction ns ts rule: add_terms.induct) auto

lemma proper_joined_terms: "proper S j f \<Longrightarrow> t \<in> set (joined_terms j f) \<Longrightarrow> proper S j t"
  by (induction f) auto

lemma proper_foldl_joined:
  "proper S j t \<Longrightarrow> list_all (proper S j) ts \<Longrightarrow>
   proper S j (foldl (\<lambda>joined t. JoinedEdge joined t j) t ts)"
  by (induction ts arbitrary: t) auto

lemma proper_joined_from:
  assumes "proper S j f" "proper S j g"
  shows "proper S j (joined_from j f g)"
proof -
  have "list_all (proper S j) (merge_terms j f g)"
    using assms proper_joined_terms[of S j] by (auto simp: merge_terms_def list_all_iff)
  then show ?thesis by (auto simp: joined_from_def intro: proper_foldl_joined split: list.split)
qed

lemma proper_join: "proper S j f \<Longrightarrow> proper S j g \<Longrightarrow> proper S j (join j f g)"
  by (simp add: join_def proper_joined_from)

text \<open>The cases of a composition, as an induction rule.\<close>

lemma compose_induct [case_names const left_join identity right_identity right_join flat]:
  assumes "\<And>c g. Q (ConstantEdge c) g"
    and "\<And>l r j g. Q l g \<Longrightarrow> Q r g \<Longrightarrow> Q (JoinedEdge l r j) g"
    and "\<And>f g. is_identity f \<Longrightarrow> Q f g"
    and "\<And>f g. is_step f \<Longrightarrow> is_identity g \<Longrightarrow> Q f g"
    and "\<And>f l r j. is_step f \<Longrightarrow> Q f l \<Longrightarrow> Q f r \<Longrightarrow> Q f (JoinedEdge l r j)"
    and "\<And>f g. is_step f \<Longrightarrow> \<not> is_identity g \<Longrightarrow> \<nexists>l r j. g = JoinedEdge l r j \<Longrightarrow> Q f g"
  shows "Q f g"
proof -
  have "Q f g" if "is_step f" for f
    by (induction g) (use that assms(4-6) in auto)
  then show ?thesis by (induction f arbitrary: g) (use assms(1-3) in auto)
qed

lemma proper_compose: "proper S j f \<Longrightarrow> proper S j g \<Longrightarrow> proper S j (compose S f g)"
proof (induction f g rule: compose_induct)
  case (identity f g)
  then show ?case by (cases f) auto
qed (auto simp: compose_step proper_composed_from intro: proper_join)

lemma compute_compose:
  assumes "lawful S j"
  shows "proper S j f \<Longrightarrow> proper S j g \<Longrightarrow> compute S (compose S f g) v = compute S f (compute S g v)"
proof (induction f g rule: compose_induct)
  case (left_join l r j g)
  then show ?case using assms by (auto simp: compute_join proper_compose)
next
  case (identity f g)
  then show ?case using compute_identity[of f S j] by (cases f) auto
next
  case (right_identity f g)
  then show ?case using compute_identity[of g S j] by (simp add: compose_step)
next
  case (right_join f l r j)
  then show ?case using assms
    by (auto simp: compose_step compute_join proper_compose compute_distributes)
next
  case (flat f g)
  then show ?case using compute_composed_from[OF assms] by (simp add: compose_step)
qed simp

text \<open>C34: the algebra of edge functions is sound. In a value domain whose join is a semilattice
  join and whose own edge functions distribute over it, composing two edge functions, with all
  the flattening, dropping of repeated idempotent terms and distribution over joins that
  \<^verbatim>\<open>compose\<close> performs, computes one after the other; joining them, with all the merging of
  terms, computes the join of the two values; and both give edge functions of the problem again.\<close>

theorem edge_algebra:
  assumes "lawful S j" "proper S j f" "proper S j g"
  shows "compute S (compose S f g) v = compute S f (compute S g v) \<and>
    compute S (join j f g) v = es_join S j (compute S f v) (compute S g v) \<and>
    proper S j (compose S f g) \<and> proper S j (join j f g)"
  using assms by (simp_all add: compute_compose compute_join proper_compose proper_join)

definition max_semantics :: "(int, unit, int) edge_semantics" where
  "max_semantics = \<lparr>es_apply = max, es_idempotent = (\<lambda>a. True), es_join = (\<lambda>j. max)\<rparr>"

lemma max_lawful: "lawful max_semantics ()"
  unfolding lawful_def max_semantics_def by (auto simp: max.assoc max.left_commute max.commute)

theorem edge_algebra_witness:
  "compute max_semantics
     (compose max_semantics (join () (AtomEdge 3) (ConstantEdge 1)) (join () IdentityEdge (AtomEdge 4))) 2 = 4"
proof -
  have p: "proper max_semantics () (join () (AtomEdge 3) (ConstantEdge 1))"
    "proper max_semantics () (join () IdentityEdge (AtomEdge 4))" by (simp_all add: proper_join)
  have q: "proper max_semantics () (AtomEdge a)" "proper max_semantics () (ConstantEdge c)"
    "proper max_semantics () IdentityEdge" for a c by simp_all
  show ?thesis
    unfolding conjunct1[OF edge_algebra[OF max_lawful p]]
      conjunct1[OF conjunct2[OF edge_algebra[OF max_lawful q(1,2)]]]
      conjunct1[OF conjunct2[OF edge_algebra[OF max_lawful q(3,1)]]]
    by (simp add: max_semantics_def)
qed

section \<open>Normal forms\<close>

text \<open>A chain is a composition, nested to the right, of atoms and constants without a repeated
  idempotent term; a normal form is a join, nested to the left, of different chains or the
  identity.\<close>

fun is_simple :: "('a, 'j, 'v) edge_function \<Rightarrow> bool" where
  "is_simple (AtomEdge a) = True"
| "is_simple (ConstantEdge c) = True"
| "is_simple f = False"

definition unrepeated :: "('a, 'j, 'v) edge_semantics \<Rightarrow> ('a, 'j, 'v) edge_function list \<Rightarrow> bool" where
  "unrepeated S ts \<longleftrightarrow> successively (\<lambda>t u. \<not> (t = u \<and> is_idempotent S u)) ts"

definition chain :: "('a, 'j, 'v) edge_semantics \<Rightarrow> ('a, 'j, 'v) edge_function \<Rightarrow> bool" where
  "chain S t \<longleftrightarrow> (\<exists>ts. ts \<noteq> [] \<and> list_all is_simple ts \<and> unrepeated S ts \<and> t = compose_terms ts)"

abbreviation join_terms :: "'j \<Rightarrow> ('a, 'j, 'v) edge_function list \<Rightarrow> ('a, 'j, 'v) edge_function" where
  "join_terms j ts \<equiv> foldl (\<lambda>joined t. JoinedEdge joined t j) (hd ts) (tl ts)"

definition normal_form :: "('a, 'j, 'v) edge_semantics \<Rightarrow> 'j \<Rightarrow> ('a, 'j, 'v) edge_function \<Rightarrow> bool" where
  "normal_form S j f \<longleftrightarrow>
     (\<exists>ts. ts \<noteq> [] \<and> distinct ts \<and> (\<forall>t\<in>set ts. t = IdentityEdge \<or> chain S t) \<and> f = join_terms j ts)"

lemma composed_terms_simple: "is_simple t \<Longrightarrow> composed_terms t = [t]"
  by (cases t) auto

lemma composed_terms_compose: "ts \<noteq> [] \<Longrightarrow> list_all is_simple ts \<Longrightarrow> composed_terms (compose_terms ts) = ts"
  by (induction ts rule: compose_terms.induct) (auto simp: composed_terms_simple)

lemma unrepeated_normalize: "unrepeated S ns \<Longrightarrow> unrepeated S (normalize_terms S ns ts)"
proof (induction S ns ts rule: normalize_terms.induct)
  case (2 S ns t ts)
  then show ?case by (auto simp: unrepeated_def successively_append_iff)
qed simp

lemma normalize_nonempty: "ns @ ts \<noteq> [] \<Longrightarrow> normalize_terms S ns ts \<noteq> []"
  by (induction S ns ts rule: normalize_terms.induct) auto

lemma chain_composed_from:
  assumes "chain S f" "chain S g"
  shows "chain S (composed_from S f g)"
proof -
  obtain ts us where ts: "ts \<noteq> []" "list_all is_simple ts" "f = compose_terms ts"
    and us: "us \<noteq> []" "list_all is_simple us" "g = compose_terms us"
    using assms by (auto simp: chain_def)
  have "composed_from S f g = compose_terms (normalize_terms S [] (ts @ us))"
    using ts us by (simp add: composed_from_def composed_terms_compose)
  moreover have "list_all is_simple (normalize_terms S [] (ts @ us))"
    using ts us set_normalize_terms[of S "[]" "ts @ us"] by (auto simp: list_all_iff)
  ultimately show ?thesis using ts normalize_nonempty[of "[]" "ts @ us" S] unrepeated_normalize[of S "[]" "ts @ us"]
    by (auto simp: chain_def unrepeated_def)
qed

lemma chain_cases: "chain S t \<Longrightarrow> is_step t \<or> (\<exists>c. t = ConstantEdge c)"
proof -
  assume "chain S t"
  then obtain u ts where t: "is_simple u" "t = compose_terms (u # ts)"
    by (auto simp: chain_def list_all_iff neq_Nil_conv)
  then show ?thesis by (cases ts; cases u) auto
qed

lemma chain_not_joined: "chain S t \<Longrightarrow> t \<noteq> JoinedEdge l r j" "chain S t \<Longrightarrow> \<not> is_identity t"
  using chain_cases[of S t] by (auto elim: is_identity.elims)

lemma add_terms_distinct: "distinct (ns @ ts) \<Longrightarrow> add_terms ns ts = ns @ ts"
  by (induction ns ts rule: add_terms.induct) auto

lemma joined_terms_join_terms:
  assumes "ts \<noteq> []" "distinct ts" "\<forall>t\<in>set ts. t = IdentityEdge \<or> chain S t"
  shows "joined_terms j (join_terms j ts) = ts"
  using assms
proof (induction ts rule: rev_induct)
  case (snoc t ts)
  have t: "joined_terms j t = [t]" using snoc.prems chain_not_joined(1)[of S t] by (cases t) auto
  show ?case using snoc t by (cases "ts = []") (auto simp: add_terms_distinct)
qed simp

lemma distinct_add_terms: "distinct ns \<Longrightarrow> distinct (add_terms ns ts)"
  by (induction ns ts rule: add_terms.induct) auto

lemma normal_join:
  assumes "normal_form S j f" "normal_form S j g"
  shows "normal_form S j (join j f g)"
proof (cases "f = g \<or> is_identity f \<and> is_identity g")
  case False
  obtain ts us where ts: "ts \<noteq> []" "distinct ts" "\<forall>t\<in>set ts. t = IdentityEdge \<or> chain S t" "f = join_terms j ts"
    and us: "us \<noteq> []" "distinct us" "\<forall>t\<in>set us. t = IdentityEdge \<or> chain S t" "g = join_terms j us"
    using assms by (auto simp: normal_form_def)
  have m: "merge_terms j f g = add_terms (add_terms [] ts) us"
    unfolding merge_terms_def ts(4) us(4) joined_terms_join_terms[OF ts(1-3)] joined_terms_join_terms[OF us(1-3)] ..
  have "merge_terms j f g \<noteq> []" using ts(1) by (simp add: m flip: set_empty)
  moreover have "distinct (merge_terms j f g)" by (simp add: m distinct_add_terms)
  moreover have "\<forall>t\<in>set (merge_terms j f g). t = IdentityEdge \<or> chain S t" unfolding m using ts(3) us(3) by auto
  moreover have "join j f g = join_terms j (merge_terms j f g)"
    using False calculation(1) by (auto simp: join_def joined_from_def split: list.split)
  ultimately show ?thesis unfolding normal_form_def by blast
qed (use assms in \<open>auto simp: join_def\<close>)

text \<open>A join that changes its first function has more terms.\<close>

lemma add_terms_appends: "\<exists>us. add_terms ns ts = ns @ us"
proof (induction ns ts rule: add_terms.induct)
  case (2 ns t ts)
  then show ?case by (cases "t \<in> set ns") auto
qed simp

lemma join_grows:
  assumes "normal_form S j f" "normal_form S j g" "join j f g \<noteq> f"
  shows "length (joined_terms j f) < length (joined_terms j (join j f g))"
proof -
  obtain ts us where ts: "ts \<noteq> []" "distinct ts" "\<forall>t\<in>set ts. t = IdentityEdge \<or> chain S t" "f = join_terms j ts"
    and us: "us \<noteq> []" "distinct us" "\<forall>t\<in>set us. t = IdentityEdge \<or> chain S t" "g = join_terms j us"
    using assms by (auto simp: normal_form_def)
  have terms: "joined_terms j f = ts" "joined_terms j g = us"
    using joined_terms_join_terms[OF ts(1-3)] joined_terms_join_terms[OF us(1-3)] ts(4) us(4) by simp_all
  have m: "merge_terms j f g = add_terms ts us" by (simp add: merge_terms_def terms add_terms_distinct ts(2))
  obtain vs where vs: "add_terms ts us = ts @ vs" using add_terms_appends by blast
  have distinct: "distinct (ts @ vs)" using distinct_add_terms[OF ts(2), of us] vs by simp
  have chains: "\<forall>t\<in>set (ts @ vs). t = IdentityEdge \<or> chain S t" using ts(3) us(3) vs[symmetric] by auto
  have "merge_terms j f g \<noteq> []" using ts(1) by (simp add: m vs)
  then have "join j f g = join_terms j (merge_terms j f g)"
    using assms(3) by (auto simp: join_def joined_from_def split: list.split if_splits)
  then have j: "join j f g = join_terms j (ts @ vs)" unfolding m vs .
  then have "vs \<noteq> []" using assms(3) ts(4) by auto
  then show ?thesis using joined_terms_join_terms[OF _ distinct chains, of j] ts(1) terms(1) j by simp
qed

lemma normal_terms: "normal_form S j f \<Longrightarrow> joined_terms j f \<noteq> []"
  unfolding normal_form_def using joined_terms_join_terms by fastforce

lemma normal_flat: "t = IdentityEdge \<or> chain S t \<Longrightarrow> normal_form S j t"
  unfolding normal_form_def by (rule exI[of _ "[t]"]) simp

lemma normal_cases:
  assumes "normal_form S j f"
  obtains (flat) "f = IdentityEdge \<or> chain S f"
  | (joined) l r where "f = JoinedEdge l r j" "normal_form S j l" "normal_form S j r"
proof -
  obtain ts where ts: "ts \<noteq> []" "distinct ts" "\<forall>t\<in>set ts. t = IdentityEdge \<or> chain S t" "f = join_terms j ts"
    using assms by (auto simp: normal_form_def)
  show thesis
  proof (cases ts rule: rev_cases)
    case (snoc us t)
    show thesis
    proof (cases "us = []")
      case False
      then have "f = JoinedEdge (join_terms j us) t j" using ts(4) snoc by simp
      moreover have "normal_form S j (join_terms j us)" using False ts snoc by (auto simp: normal_form_def)
      moreover have "normal_form S j t" using ts snoc by (intro normal_flat) auto
      ultimately show thesis by (rule joined)
    next
      case True
      then have "f = t" "t = IdentityEdge \<or> chain S t" using ts(3,4) snoc by simp_all
      from this(2)[folded this(1)] show thesis by (rule flat)
    qed
  qed (use ts in simp)
qed

lemma normal_compose: "normal_form S j f \<Longrightarrow> normal_form S j g \<Longrightarrow> normal_form S j (compose S f g)"
proof (induction f g rule: compose_induct)
  case (const c g)
  then show ?case by simp
next
  case (left_join l r j' g)
  from left_join.prems(1) show ?case
  proof (cases rule: normal_cases)
    case flat
    then show ?thesis using chain_not_joined(1)[of S "JoinedEdge l r j'" l r j'] by auto
  next
    case (joined l' r')
    then show ?thesis using left_join by (auto intro: normal_join)
  qed
next
  case (identity f g)
  from identity.prems(1) have "f = IdentityEdge"
  proof (cases rule: normal_cases)
    case flat
    then show ?thesis using identity(1) chain_not_joined(2) by blast
  next
    case (joined l r)
    then show ?thesis using identity(1) by simp
  qed
  then show ?case using identity.prems(2) by simp
next
  case (right_identity f g)
  then show ?case by (simp add: compose_step)
next
  case (right_join f l r j')
  from right_join.prems(2) show ?case
  proof (cases rule: normal_cases)
    case flat
    then show ?thesis using chain_not_joined(1)[of S "JoinedEdge l r j'" l r j'] by auto
  next
    case (joined l' r')
    then show ?thesis using right_join by (auto simp: compose_step intro: normal_join)
  qed
next
  case (flat f g)
  have "chain S f" using flat.prems(1)
  proof (cases rule: normal_cases)
    case flat': flat
    then show ?thesis using flat(1) by auto
  qed (use flat(1) in simp)
  moreover have "chain S g" using flat.prems(2)
  proof (cases rule: normal_cases)
    case flat': flat
    then show ?thesis using flat(2) by auto
  qed (use flat(3) in simp)
  ultimately show ?case using flat by (simp add: compose_step normal_flat chain_composed_from)
qed

text \<open>C35: edge functions have a normal form, and the solver's operations stay in it. Composing and
  joining normal forms gives a join of pairwise different chains, each of which composes atoms
  and constants without repeating an idempotent one; the identity, atoms and constants are
  normal forms. So two jump functions of a run are equal exactly when their chains are, in
  order.\<close>

theorem normal_forms_closed:
  "normal_form S j IdentityEdge \<and> normal_form S j (AtomEdge a) \<and> normal_form S j (ConstantEdge c) \<and>
   (normal_form S j f \<longrightarrow> normal_form S j g \<longrightarrow>
      normal_form S j (compose S f g) \<and> normal_form S j (join j f g))"
proof -
  have "chain S (AtomEdge a)" "chain S (ConstantEdge c)"
    unfolding chain_def by (rule exI[of _ "[AtomEdge a]"], simp add: unrepeated_def)
      (rule exI[of _ "[ConstantEdge c]"], simp add: unrepeated_def)
  then show ?thesis
    using normal_compose[of S j f g] normal_join[of S j f g]
    by (simp add: normal_flat)
qed

theorem normal_forms_closed_witness:
  "normal_form max_semantics () (compose max_semantics (AtomEdge 1) (join () IdentityEdge (AtomEdge 1))) \<and>
   compose max_semantics (AtomEdge 1) (join () IdentityEdge (AtomEdge 1)) = AtomEdge 1"
proof
  have "normal_form max_semantics () (AtomEdge 1)" "normal_form max_semantics () IdentityEdge"
    "normal_form max_semantics () (join () IdentityEdge (AtomEdge 1))"
    by (simp_all add: normal_forms_closed)
  then show "normal_form max_semantics () (compose max_semantics (AtomEdge 1) (join () IdentityEdge (AtomEdge 1)))"
    using normal_forms_closed[where S = max_semantics and f = "AtomEdge 1"] by blast
  show "compose max_semantics (AtomEdge 1) (join () IdentityEdge (AtomEdge 1)) = AtomEdge 1"
    by (simp add: compose.simps join_def joined_from_def merge_terms_def composed_from_def max_semantics_def)
qed

end
