(* ===== verification/IdeSolvers.thy ===== *)
theory IdeSolvers
  imports ExplodedGraphs EdgeFunctions "HOL-Library.AList"
begin

text \<open>
  \<^verbatim>\<open>IDESolver.solve\<close> and \<^verbatim>\<open>IDEResult\<close> of \<^verbatim>\<open>analysis/ifds/core/solver.py\<close>.

  An \<^verbatim>\<open>IDEProblem\<close> is a record of its graph, its values and its flow functions, which return facts
  with edge functions. The local variables of \<^verbatim>\<open>solve\<close> are the record \<open>ide_state\<close>; its dicts whose
  order is observed are association lists, updated in place. The worklist and the iteration of
  the source values are \<open>partial_function\<close>s: \<open>None\<close> is a run that never ends. A value of an analysis is
  never Python's \<^verbatim>\<open>None\<close>, which the code uses for a missing one.
\<close>

section \<open>Problems\<close>

datatype ('f, 'e) value_transition = ValueTransition (vt_fact: 'f) (vt_edge: 'e)

type_synonym ('f, 'a, 'j, 'v) transitions = "('f, ('a, 'j, 'v) edge_function) value_transition list"

record ('p, 'n, 'f, 'a, 'j, 'v) ide_problem =
  de_supergraph :: "('p, 'n) supergraph"
  de_zero :: 'f
  de_bottom :: 'v
  de_semantics :: "('a, 'j, 'v) edge_semantics"
  de_join :: 'j
  de_seeds :: "(('n \<times> 'f) \<times> 'v) list"
  de_normal :: "'n \<Rightarrow> 'n \<Rightarrow> 'f \<Rightarrow> ('f, 'a, 'j, 'v) transitions"
  de_call :: "'n \<Rightarrow> 'p \<Rightarrow> 'f \<Rightarrow> ('f, 'a, 'j, 'v) transitions"
  de_return :: "'n \<Rightarrow> 'p \<Rightarrow> 'n \<Rightarrow> 'n \<Rightarrow> 'f \<Rightarrow> 'f \<Rightarrow> ('f, 'a, 'j, 'v) transitions"
  de_call_to_return :: "'n \<Rightarrow> 'n \<Rightarrow> 'f \<Rightarrow> ('f, 'a, 'j, 'v) transitions"

definition join_values :: "('p, 'n, 'f, 'a, 'j, 'v) ide_problem \<Rightarrow> 'v \<Rightarrow> 'v \<Rightarrow> 'v" where
  "join_values P = es_join (de_semantics P) (de_join P)"

text \<open>A run of the solver: what \<open>solver_run\<close> has, with the order of edge functions and the \<^verbatim>\<open>repr\<close>
  of the source keys.\<close>

record ('n, 'f, 'k, 'e) ide_run =
  dr_base :: "('n, 'f, 'k) solver_run"
  dr_edge_key :: "'e \<Rightarrow> 'k"
  dr_repr :: "'n \<times> 'f \<times> 'n call_context option \<Rightarrow> 'k"

abbreviation dr_depth :: "('n, 'f, 'k, 'e) ide_run \<Rightarrow> int option" where
  "dr_depth run \<equiv> so_max_depth (sr_options (dr_base run))"

text \<open>\<^verbatim>\<open>_ordered_value_transitions\<close>.\<close>

definition ordered_transitions ::
  "('n, 'f, 'k::linorder, 'e) ide_run \<Rightarrow> ('f, 'e) value_transition list \<Rightarrow> ('f, 'e) value_transition list" where
  "ordered_transitions run ts =
     sort_key (\<lambda>t. [sr_fact_key (dr_base run) (vt_fact t), dr_edge_key run (vt_edge t)]) ts"

lemma set_ordered_transitions [simp]: "set (ordered_transitions run ts) = set ts"
  by (simp add: ordered_transitions_def)

section \<open>State\<close>

type_synonym ('n, 'f) source_key = "'n \<times> 'f \<times> 'n call_context option"

datatype ('n, 'f, 'e) ide_record =
  IDERecord (rec_source_node: 'n) (rec_source_fact: 'f) (rec_context: "'n call_context option")
    (rec_call_node: 'n) (rec_call_fact: 'f) (rec_return_site: 'n) (rec_jump: 'e)

record ('p, 'n, 'f, 'e) ide_state =
  es_queue :: "('n, 'f) path_edge list"
  es_jumps :: "(('n, 'f) path_edge \<times> 'e) list"
  es_reached :: "'n \<rightharpoonup> 'f list"
  es_incoming :: "(('n, 'f) source_key \<times> ('n, 'f, 'e) ide_record list) list"
  es_summaries :: "(('n \<times> 'f \<times> 'n \<times> 'f \<times> 'n call_context option) \<times> 'e) list"
  es_contexts :: "'p \<rightharpoonup> 'n call_context option list"
  es_incoming_total :: int
  es_bk :: "('p, 'n, 'f) bookkeeping"

definition ide_start :: "('n, 'f, 'k, 'e) ide_run \<Rightarrow> ('p, 'n, 'f, 'e) ide_state" where
  "ide_start run =
     \<lparr>es_queue = [], es_jumps = [], es_reached = Map.empty, es_incoming = [], es_summaries = [],
      es_contexts = Map.empty, es_incoming_total = 0, es_bk = bk_new (dr_base run) ''IDE''\<rparr>"

abbreviation running :: "('p, 'n, 'f, 'e) ide_state \<Rightarrow> bool" where
  "running s \<equiv> bk_status (es_bk s) = COMPLETE"

abbreviation jump_of :: "('p, 'n, 'f, 'e) ide_state \<Rightarrow> ('n, 'f) path_edge \<Rightarrow> 'e option" where
  "jump_of s \<equiv> map_of (es_jumps s)"

abbreviation summary_of ::
  "('p, 'n, 'f, 'e) ide_state \<Rightarrow> 'n \<times> 'f \<times> 'n \<times> 'f \<times> 'n call_context option \<Rightarrow> 'e option" where
  "summary_of s \<equiv> map_of (es_summaries s)"

abbreviation records_of :: "('p, 'n, 'f, 'e) ide_state \<Rightarrow> ('n, 'f) source_key \<Rightarrow> ('n, 'f, 'e) ide_record list" where
  "records_of s \<equiv> get_list (map_of (es_incoming s))"

definition ide_count :: "stat \<Rightarrow> ('p, 'n, 'f, 'e) ide_state \<Rightarrow> ('p, 'n, 'f, 'e) ide_state" where
  "ide_count k s = s\<lparr>es_bk := increment k (es_bk s)\<rparr>"

definition ide_check ::
  "('n, 'f, 'k, 'e) ide_run \<Rightarrow> int \<Rightarrow> ('p, 'n, 'f, 'e) ide_state \<Rightarrow> ('p, 'n, 'f, 'e) ide_state res" where
  "ide_check run queue_size s =
     bind_res (check_budget (dr_base run) queue_size (es_incoming_total s) (int (length (es_summaries s))) False (es_bk s))
       (\<lambda>bk. Inr (s\<lparr>es_bk := bk\<rparr>))"

definition ide_budget ::
  "('n, 'f, 'k, 'e) ide_run \<Rightarrow> ('p, 'n, 'f, 'e) ide_state \<Rightarrow> ('p, 'n, 'f, 'e) ide_state res" where
  "ide_budget run s = ide_check run (int (length (es_queue s))) s"

definition ide_stop ::
  "('n, 'f, 'k, 'e) ide_run \<Rightarrow> string \<Rightarrow> int \<Rightarrow> ('p, 'n, 'f, 'e) ide_state \<Rightarrow> ('p, 'n, 'f, 'e) ide_state res" where
  "ide_stop run name limit s =
     bind_res (stop_run (dr_base run) PARTIAL (Exceeded ''IDE'' name limit) (es_bk s)) (\<lambda>bk. Inr (s\<lparr>es_bk := bk\<rparr>))"

definition beyond :: "int \<Rightarrow> int option \<Rightarrow> bool" where
  "beyond v limit = (case limit of None \<Rightarrow> False | Some l \<Rightarrow> v > l)"

section \<open>propagate\<close>

definition ide_enqueue ::
  "('n, 'f, 'k, 'e) ide_run \<Rightarrow> ('n, 'f) path_edge \<Rightarrow> string \<Rightarrow> ('n, 'f) path_edge option \<Rightarrow>
   ('p, 'n) trace_note option \<Rightarrow> ('p, 'n, 'f, 'e) ide_state \<Rightarrow> ('p, 'n, 'f, 'e) ide_state res" where
  "ide_enqueue run edge kind predecessor note s =
     bind_res (record_propagation (dr_base run) edge kind predecessor note (es_bk s))
       (\<lambda>bk. if bk_status bk \<noteq> COMPLETE then Inr (s\<lparr>es_bk := bk\<rparr>)
             else ide_budget run (s\<lparr>es_bk := bk, es_queue := es_queue s @ [edge]\<rparr>))"

definition ide_context ::
  "('n, 'f, 'k, 'e) ide_run \<Rightarrow> ('p, 'n) supergraph \<Rightarrow> ('n, 'f) path_edge \<Rightarrow> string \<Rightarrow>
   ('n, 'f) path_edge option \<Rightarrow> ('p, 'n) trace_note option \<Rightarrow> ('p, 'n, 'f, 'e) ide_state \<Rightarrow>
   ('p, 'n, 'f, 'e) ide_state res" where
  "ide_context run g edge kind predecessor note s =
     bind_res (procedure_of g (edge_node edge))
       (\<lambda>p. let s = s\<lparr>es_contexts := set_add p (edge_context edge) (es_contexts s)\<rparr>;
                contexts = int (length (get_list (es_contexts s) p));
                s = s\<lparr>es_bk := observe peak_contexts_per_procedure contexts (es_bk s)\<rparr>
            in if beyond contexts (so_max_contexts (sr_options (dr_base run)))
               then ide_stop run ''max_contexts_per_procedure'' (the (so_max_contexts (sr_options (dr_base run)))) s
               else ide_enqueue run edge kind predecessor note s)"

definition ide_propagate ::
  "('n, 'f, 'k, ('a, 'j, 'v) edge_function) ide_run \<Rightarrow> ('p, 'n, 'f, 'a, 'j, 'v) ide_problem \<Rightarrow> string \<Rightarrow>
   ('n, 'f) path_edge option \<Rightarrow> ('p, 'n) trace_note option \<Rightarrow> ('n, 'f) path_edge \<Rightarrow> ('a, 'j, 'v) edge_function \<Rightarrow>
   ('p, 'n, 'f, ('a, 'j, 'v) edge_function) ide_state \<Rightarrow> ('p, 'n, 'f, ('a, 'j, 'v) edge_function) ide_state res" where
  "ide_propagate run P kind predecessor note edge jump s =
     (if \<not> running s then Inr s
      else case jump_of s edge of
        None \<Rightarrow>
          let s = s\<lparr>es_jumps := AList.update edge jump (es_jumps s),
                    es_reached := set_add (edge_node edge) (edge_fact edge) (es_reached s)\<rparr>;
              facts = int (length (get_list (es_reached s) (edge_node edge)));
              s = s\<lparr>es_bk := observe peak_facts_at_node facts (es_bk s)\<rparr>
          in if beyond facts (so_max_facts (sr_options (dr_base run)))
             then ide_stop run ''max_facts_per_node'' (the (so_max_facts (sr_options (dr_base run)))) s
             else ide_context run (de_supergraph P) edge kind predecessor note s
      | Some current \<Rightarrow>
          let joined = join (de_join P) current jump in
          if joined = current then Inr s
          else ide_enqueue run edge kind predecessor note
            (s\<lparr>es_jumps := AList.update edge joined (es_jumps s),
               es_reached := set_add (edge_node edge) (edge_fact edge) (es_reached s)\<rparr>))"

section \<open>Processing a path edge\<close>

text \<open>The loop over the transitions of a flow that continues the path edge from its source.\<close>

definition continue_edge ::
  "('n, 'f, 'k::linorder, ('a, 'j, 'v) edge_function) ide_run \<Rightarrow> ('p, 'n, 'f, 'a, 'j, 'v) ide_problem \<Rightarrow> string \<Rightarrow>
   ('n, 'f) path_edge option \<Rightarrow> ('p, 'n) trace_note option \<Rightarrow> ('f \<Rightarrow> ('n, 'f) path_edge) \<Rightarrow>
   (('a, 'j, 'v) edge_function \<Rightarrow> ('a, 'j, 'v) edge_function) \<Rightarrow> ('f, 'a, 'j, 'v) transitions \<Rightarrow>
   ('p, 'n, 'f, ('a, 'j, 'v) edge_function) ide_state \<Rightarrow> ('p, 'n, 'f, ('a, 'j, 'v) edge_function) ide_state res" where
  "continue_edge run P kind predecessor note target jump ts =
     fold_res (\<lambda>t. ide_propagate run P kind predecessor note (target (vt_fact t)) (jump (vt_edge t)))
       (ordered_transitions run ts)"

definition ide_bypass ::
  "('n, 'f, 'k::linorder, ('a, 'j, 'v) edge_function) ide_run \<Rightarrow> ('p, 'n, 'f, 'a, 'j, 'v) ide_problem \<Rightarrow>
   ('n, 'f) path_edge \<Rightarrow> ('a, 'j, 'v) edge_function \<Rightarrow> 'n \<Rightarrow>
   ('p, 'n, 'f, ('a, 'j, 'v) edge_function) ide_state \<Rightarrow> ('p, 'n, 'f, ('a, 'j, 'v) edge_function) ide_state res" where
  "ide_bypass run P edge jump r s =
     (case edge of PathEdge sn sd n d c \<Rightarrow>
        continue_edge run P ''call_to_return'' (Some edge) (Some (StepNote n r)) (\<lambda>d'. PathEdge sn sd r d' c)
          (\<lambda>f. compose (de_semantics P) f jump) (de_call_to_return P n r d) (ide_count call_to_return_steps s))"

text \<open>The replay of a summary for a new incoming record, at one exit fact and at one exit.\<close>

definition ide_replay_fact ::
  "('n, 'f, 'k::linorder, ('a, 'j, 'v) edge_function) ide_run \<Rightarrow> ('p, 'n, 'f, 'a, 'j, 'v) ide_problem \<Rightarrow>
   ('n, 'f) path_edge \<Rightarrow> 'p \<Rightarrow> ('n, 'f) source_key \<Rightarrow> ('a, 'j, 'v) edge_function \<Rightarrow> 'n \<Rightarrow> 'n \<Rightarrow> 'f \<Rightarrow>
   ('p, 'n, 'f, ('a, 'j, 'v) edge_function) ide_state \<Rightarrow> ('p, 'n, 'f, ('a, 'j, 'v) edge_function) ide_state res" where
  "ide_replay_fact run P edge callee start call_jump r exit_node exit_fact s =
     (case edge of PathEdge sn sd n d c \<Rightarrow> (case start of (sn', sd', c') \<Rightarrow>
        (case summary_of s (sn', sd', exit_node, exit_fact, c') of
           None \<Rightarrow> Inr s
         | Some summary \<Rightarrow>
             continue_edge run P ''return_flow(summary_replay)'' None (Some (ViaNote callee r))
               (\<lambda>d'. PathEdge sn sd r d' c)
               (\<lambda>f. compose (de_semantics P) (compose (de_semantics P) f summary) call_jump)
               (de_return P n callee exit_node r d exit_fact) s)))"

definition ide_replay_exit ::
  "('n, 'f, 'k::linorder, ('a, 'j, 'v) edge_function) ide_run \<Rightarrow> ('p, 'n, 'f, 'a, 'j, 'v) ide_problem \<Rightarrow>
   ('n, 'f) path_edge \<Rightarrow> 'p \<Rightarrow> ('n, 'f) source_key \<Rightarrow> ('a, 'j, 'v) edge_function \<Rightarrow> 'n \<Rightarrow> 'n \<Rightarrow>
   ('p, 'n, 'f, ('a, 'j, 'v) edge_function) ide_state \<Rightarrow> ('p, 'n, 'f, ('a, 'j, 'v) edge_function) ide_state res" where
  "ide_replay_exit run P edge callee start call_jump r exit_node s =
     fold_res (ide_replay_fact run P edge callee start call_jump r exit_node)
       (sort_key (sr_fact_key (dr_base run)) (get_list (es_reached s) exit_node)) s"

definition ide_add_incoming ::
  "('n, 'f, 'k::linorder, ('a, 'j, 'v) edge_function) ide_run \<Rightarrow> ('p, 'n, 'f, 'a, 'j, 'v) ide_problem \<Rightarrow>
   ('n, 'f) path_edge \<Rightarrow> 'p \<Rightarrow> ('n, 'f) source_key \<Rightarrow> ('a, 'j, 'v) edge_function \<Rightarrow> 'n \<Rightarrow>
   ('p, 'n, 'f, ('a, 'j, 'v) edge_function) ide_state \<Rightarrow> ('p, 'n, 'f, ('a, 'j, 'v) edge_function) ide_state res" where
  "ide_add_incoming run P edge callee start call_jump r s =
     (case edge of PathEdge sn sd n d c \<Rightarrow>
        let rec = IDERecord sn sd c n d r call_jump in
        if rec \<in> set (records_of s start) then Inr s
        else bind_res
          (ide_budget run (ide_count incoming_records
             (s\<lparr>es_incoming := AList.update start (add_new rec (records_of s start)) (es_incoming s),
                es_incoming_total := es_incoming_total s + 1\<rparr>)))
          (fold_res (ide_replay_exit run P edge callee start call_jump r)
             (ordered_exits_of (de_supergraph P) callee)))"

definition ide_call_transition ::
  "('n, 'f, 'k::linorder, ('a, 'j, 'v) edge_function) ide_run \<Rightarrow> ('p, 'n, 'f, 'a, 'j, 'v) ide_problem \<Rightarrow>
   ('n, 'f) path_edge \<Rightarrow> ('a, 'j, 'v) edge_function \<Rightarrow> 'p \<Rightarrow> 'n \<Rightarrow> ('f, ('a, 'j, 'v) edge_function) value_transition \<Rightarrow>
   ('p, 'n, 'f, ('a, 'j, 'v) edge_function) ide_state \<Rightarrow> ('p, 'n, 'f, ('a, 'j, 'v) edge_function) ide_state res" where
  "ide_call_transition run P edge jump callee start t s =
     (case edge of PathEdge sn sd n d c \<Rightarrow>
        let c' = push_context (dr_depth run) c n;
            call_jump = compose (de_semantics P) (vt_edge t) jump
        in bind_res
          (fold_res (ide_add_incoming run P edge callee (start, vt_fact t, key_context (dr_depth run) c') call_jump)
             (ordered_return_sites_of_call_at (de_supergraph P) n) s)
          (ide_propagate run P ''call_flow'' (Some edge) (Some (CallNote n callee))
             (PathEdge start (vt_fact t) start (vt_fact t) c') IdentityEdge))"

definition ide_call ::
  "('n, 'f, 'k::linorder, ('a, 'j, 'v) edge_function) ide_run \<Rightarrow> ('p, 'n, 'f, 'a, 'j, 'v) ide_problem \<Rightarrow>
   ('n, 'f) path_edge \<Rightarrow> ('a, 'j, 'v) edge_function \<Rightarrow> 'p \<Rightarrow>
   ('p, 'n, 'f, ('a, 'j, 'v) edge_function) ide_state \<Rightarrow> ('p, 'n, 'f, ('a, 'j, 'v) edge_function) ide_state res" where
  "ide_call run P edge jump callee s =
     bind_res (entry_of (de_supergraph P) callee)
       (\<lambda>start. fold_res (ide_call_transition run P edge jump callee start)
          (ordered_transitions run (de_call P (edge_node edge) callee (edge_fact edge)))
          (ide_count call_flow_steps s))"

definition ide_call_part ::
  "('n, 'f, 'k::linorder, ('a, 'j, 'v) edge_function) ide_run \<Rightarrow> ('p, 'n, 'f, 'a, 'j, 'v) ide_problem \<Rightarrow>
   ('n, 'f) path_edge \<Rightarrow> ('a, 'j, 'v) edge_function \<Rightarrow>
   ('p, 'n, 'f, ('a, 'j, 'v) edge_function) ide_state \<Rightarrow> ('p, 'n, 'f, ('a, 'j, 'v) edge_function) ide_state res" where
  "ide_call_part run P edge jump s =
     (if is_call_node (de_supergraph P) (edge_node edge)
      then bind_res
        (fold_res (ide_bypass run P edge jump)
           (ordered_call_to_return_successors (de_supergraph P) (edge_node edge)) s)
        (fold_res (ide_call run P edge jump) (ordered_callees_of_call_at (de_supergraph P) (edge_node edge)))
      else Inr s)"

text \<open>The order of the incoming records: their fields, as in \<^verbatim>\<open>_stable_value_key\<close>.\<close>

definition ide_record_key :: "('n, 'f, 'k, 'e) ide_run \<Rightarrow> ('n, 'f, 'e) ide_record \<Rightarrow> 'k list list" where
  "ide_record_key run rec =
     [[sr_node_key (dr_base run) (rec_source_node rec)], [sr_fact_key (dr_base run) (rec_source_fact rec)],
      (case rec_context rec of None \<Rightarrow> [] | Some c \<Rightarrow> map (sr_node_key (dr_base run)) (call_sites c)),
      [sr_node_key (dr_base run) (rec_call_node rec)], [sr_fact_key (dr_base run) (rec_call_fact rec)],
      [sr_node_key (dr_base run) (rec_return_site rec)], [dr_edge_key run (rec_jump rec)]]"

definition ide_return ::
  "('n, 'f, 'k::linorder, ('a, 'j, 'v) edge_function) ide_run \<Rightarrow> ('p, 'n, 'f, 'a, 'j, 'v) ide_problem \<Rightarrow>
   ('n, 'f) path_edge \<Rightarrow> ('a, 'j, 'v) edge_function \<Rightarrow> 'p \<Rightarrow> ('n, 'f, ('a, 'j, 'v) edge_function) ide_record \<Rightarrow>
   ('p, 'n, 'f, ('a, 'j, 'v) edge_function) ide_state \<Rightarrow> ('p, 'n, 'f, ('a, 'j, 'v) edge_function) ide_state res" where
  "ide_return run P edge summary callee rec s =
     continue_edge run P ''return_flow'' (Some edge) (Some (ReturnNote callee (rec_return_site rec)))
       (\<lambda>d'. PathEdge (rec_source_node rec) (rec_source_fact rec) (rec_return_site rec) d' (rec_context rec))
       (\<lambda>f. compose (de_semantics P) (compose (de_semantics P) f summary) (rec_jump rec))
       (de_return P (rec_call_node rec) callee (edge_node edge) (rec_return_site rec) (rec_call_fact rec) (edge_fact edge))
       (ide_count return_flow_steps s)"

text \<open>The summary after the jump function of an exit: \<open>None\<close> if it stays as it is.\<close>

definition new_summary ::
  "'j \<Rightarrow> ('a, 'j, 'v) edge_function option \<Rightarrow> ('a, 'j, 'v) edge_function \<Rightarrow> ('a, 'j, 'v) edge_function option" where
  "new_summary j current jump =
     (case current of
        None \<Rightarrow> Some jump
      | Some f \<Rightarrow> (let joined = join j f jump in if joined = f then None else Some joined))"

definition ide_exit_part ::
  "('n, 'f, 'k::linorder, ('a, 'j, 'v) edge_function) ide_run \<Rightarrow> ('p, 'n, 'f, 'a, 'j, 'v) ide_problem \<Rightarrow>
   ('n, 'f) path_edge \<Rightarrow> ('a, 'j, 'v) edge_function \<Rightarrow>
   ('p, 'n, 'f, ('a, 'j, 'v) edge_function) ide_state \<Rightarrow> ('p, 'n, 'f, ('a, 'j, 'v) edge_function) ide_state res" where
  "ide_exit_part run P edge jump s =
     (if is_exit_node (de_supergraph P) (edge_node edge)
      then case edge of PathEdge sn sd n d c \<Rightarrow>
        let kc = key_context (dr_depth run) c in
        (case new_summary (de_join P) (summary_of s (sn, sd, n, d, kc)) jump of
           None \<Rightarrow> Inr s
         | Some summary \<Rightarrow>
             bind_res
               (ide_budget run (ide_count summary_updates
                  (s\<lparr>es_summaries := AList.update (sn, sd, n, d, kc) summary (es_summaries s)\<rparr>)))
               (\<lambda>s. bind_res (procedure_of (de_supergraph P) n)
                  (\<lambda>callee. fold_res (ide_return run P edge summary callee)
                     (sort_key (ide_record_key run) (records_of s (sn, sd, kc))) s)))
      else Inr s)"

definition ide_normal_step ::
  "('n, 'f, 'k::linorder, ('a, 'j, 'v) edge_function) ide_run \<Rightarrow> ('p, 'n, 'f, 'a, 'j, 'v) ide_problem \<Rightarrow>
   ('n, 'f) path_edge \<Rightarrow> ('a, 'j, 'v) edge_function \<Rightarrow> 'n \<Rightarrow>
   ('p, 'n, 'f, ('a, 'j, 'v) edge_function) ide_state \<Rightarrow> ('p, 'n, 'f, ('a, 'j, 'v) edge_function) ide_state res" where
  "ide_normal_step run P edge jump m s =
     (case edge of PathEdge sn sd n d c \<Rightarrow>
        continue_edge run P ''normal_flow'' (Some edge) (Some (StepNote n m)) (\<lambda>d'. PathEdge sn sd m d' c)
          (\<lambda>f. compose (de_semantics P) f jump) (de_normal P n m d) (ide_count normal_flow_steps s))"

definition ide_process ::
  "('n, 'f, 'k::linorder, ('a, 'j, 'v) edge_function) ide_run \<Rightarrow> ('p, 'n, 'f, 'a, 'j, 'v) ide_problem \<Rightarrow>
   ('n, 'f) path_edge \<Rightarrow> ('a, 'j, 'v) edge_function \<Rightarrow>
   ('p, 'n, 'f, ('a, 'j, 'v) edge_function) ide_state \<Rightarrow> ('p, 'n, 'f, ('a, 'j, 'v) edge_function) ide_state res" where
  "ide_process run P edge jump s =
     bind_res (ide_call_part run P edge jump s) (\<lambda>s. bind_res (ide_exit_part run P edge jump s)
       (fold_res (ide_normal_step run P edge jump)
          (ordered_normal_successors (de_supergraph P) (edge_node edge))))"

section \<open>The jump functions\<close>

text \<open>The seeds in the order of their nodes, then of their facts, and their values by source.\<close>

definition ordered_seeds ::
  "('n, 'f, 'k::linorder, 'e) ide_run \<Rightarrow> ('p, 'n, 'f, 'a, 'j, 'v) ide_problem \<Rightarrow> (('n \<times> 'f) \<times> 'v) list" where
  "ordered_seeds run P =
     sort_key (\<lambda>sv. node_key (de_supergraph P) (fst (fst sv)))
       (sort_key (\<lambda>sv. sr_fact_key (dr_base run) (snd (fst sv))) (de_seeds P))"

definition source_key :: "('n, 'f, 'k, 'e) ide_run \<Rightarrow> 'n \<Rightarrow> 'f \<Rightarrow> 'n call_context option \<Rightarrow> ('n, 'f) source_key" where
  "source_key run n d c = (n, d, key_context (dr_depth run) c)"

definition add_seed_value ::
  "('n, 'f, 'k, 'e) ide_run \<Rightarrow> ('p, 'n, 'f, 'a, 'j, 'v) ide_problem \<Rightarrow> ('n \<times> 'f) \<times> 'v \<Rightarrow>
   (('n, 'f) source_key \<times> 'v) list \<Rightarrow> (('n, 'f) source_key \<times> 'v) list" where
  "add_seed_value run P sv values =
     (case sv of ((n, d), v) \<Rightarrow>
        let key = source_key run n d (seed_context (dr_depth run)) in
        AList.update key
          (case map_of values key of None \<Rightarrow> v | Some w \<Rightarrow> join_values P w v) values)"

definition seed_values ::
  "('n, 'f, 'k::linorder, 'e) ide_run \<Rightarrow> ('p, 'n, 'f, 'a, 'j, 'v) ide_problem \<Rightarrow> (('n, 'f) source_key \<times> 'v) list" where
  "seed_values run P = fold (add_seed_value run P) (ordered_seeds run P) []"

definition ide_seed_all ::
  "('n, 'f, 'k::linorder, ('a, 'j, 'v) edge_function) ide_run \<Rightarrow> ('p, 'n, 'f, 'a, 'j, 'v) ide_problem \<Rightarrow>
   ('p, 'n, 'f, ('a, 'j, 'v) edge_function) ide_state \<Rightarrow> ('p, 'n, 'f, ('a, 'j, 'v) edge_function) ide_state res" where
  "ide_seed_all run P s =
     (if list_all (\<lambda>sv. is_ok (node_id (de_supergraph P) (fst (fst sv)))) (de_seeds P)
      then fold_res (\<lambda>sv. ide_propagate run P ''seed'' None None
             (PathEdge (fst (fst sv)) (snd (fst sv)) (fst (fst sv)) (snd (fst sv)) (seed_context (dr_depth run)))
             IdentityEdge) (ordered_seeds run P) s
      else Inl KeyError)"

text \<open>One edge from the queue.\<close>

definition ide_turn ::
  "('n, 'f, 'k::linorder, ('a, 'j, 'v) edge_function) ide_run \<Rightarrow> ('p, 'n, 'f, 'a, 'j, 'v) ide_problem \<Rightarrow>
   ('p, 'n, 'f, ('a, 'j, 'v) edge_function) ide_state \<Rightarrow> ('p, 'n, 'f, ('a, 'j, 'v) edge_function) ide_state res" where
  "ide_turn run P s =
     (let edge = hd (es_queue s);
          s = ide_count processed_path_edges (s\<lparr>es_queue := tl (es_queue s)\<rparr>)
      in case jump_of s edge of
           None \<Rightarrow> Inl KeyError
         | Some jump \<Rightarrow> ide_process run P edge jump s)"

partial_function (option) ide_worklist ::
  "('n, 'f, 'k::linorder, ('a, 'j, 'v) edge_function) ide_run \<Rightarrow> ('p, 'n, 'f, 'a, 'j, 'v) ide_problem \<Rightarrow>
   ('p, 'n, 'f, ('a, 'j, 'v) edge_function) ide_state \<Rightarrow> ('p, 'n, 'f, ('a, 'j, 'v) edge_function) ide_state res option" where
  "ide_worklist run prob s =
     (if es_queue s = [] \<or> \<not> running s then Some (Inr s)
      else (case ide_budget run s of
        Inl e \<Rightarrow> Some (Inl e)
      | Inr s1 \<Rightarrow>
          if \<not> running s1 then Some (Inr s1)
          else (case ide_turn run prob s1 of
            Inl e \<Rightarrow> Some (Inl e)
          | Inr s2 \<Rightarrow> ide_worklist run prob s2)))"

declare ide_worklist.simps [code]

section \<open>The values of the sources\<close>

text \<open>All source keys, in the order of their \<^verbatim>\<open>repr\<close>.\<close>

definition source_keys ::
  "('n, 'f, 'k::linorder, 'e) ide_run \<Rightarrow> (('n, 'f) source_key \<times> 'v) list \<Rightarrow> ('p, 'n, 'f, 'e) ide_state \<Rightarrow>
   ('n, 'f) source_key list" where
  "source_keys run seeds s =
     sort_key (dr_repr run) (dedup
       (map fst seeds @
        map (\<lambda>ej. source_key run (source_node (fst ej)) (source_fact (fst ej)) (edge_context (fst ej))) (es_jumps s) @
        map fst (es_incoming s) @
        concat (map (\<lambda>kr. map (\<lambda>rec. source_key run (rec_source_node rec) (rec_source_fact rec) (rec_context rec)) (snd kr))
          (es_incoming s))))"

text \<open>The value that flows into a source: its seed and the values of its callers.\<close>

definition resolve_record ::
  "('n, 'f, 'k, ('a, 'j, 'v) edge_function) ide_run \<Rightarrow> ('p, 'n, 'f, 'a, 'j, 'v) ide_problem \<Rightarrow>
   (('n, 'f) source_key \<rightharpoonup> 'v) \<Rightarrow> ('n, 'f, ('a, 'j, 'v) edge_function) ide_record \<Rightarrow> 'v option \<Rightarrow> 'v option" where
  "resolve_record run P sources rec resolved =
     (case sources (source_key run (rec_source_node rec) (rec_source_fact rec) (rec_context rec)) of
        None \<Rightarrow> resolved
      | Some caller_value \<Rightarrow>
          let v = compute (de_semantics P) (rec_jump rec) caller_value in
          (case resolved of None \<Rightarrow> Some v | Some w \<Rightarrow> Some (join_values P w v)))"

definition resolve ::
  "('n, 'f, 'k::linorder, ('a, 'j, 'v) edge_function) ide_run \<Rightarrow> ('p, 'n, 'f, 'a, 'j, 'v) ide_problem \<Rightarrow>
   ('p, 'n, 'f, ('a, 'j, 'v) edge_function) ide_state \<Rightarrow> (('n, 'f) source_key \<rightharpoonup> 'v) \<Rightarrow> (('n, 'f) source_key \<rightharpoonup> 'v) \<Rightarrow>
   ('n, 'f) source_key \<Rightarrow> 'v option" where
  "resolve run P s seeds sources key =
     fold (resolve_record run P sources) (sort_key (ide_record_key run) (records_of s key)) (seeds key)"

definition update_source ::
  "('n, 'f, 'k::linorder, ('a, 'j, 'v) edge_function) ide_run \<Rightarrow> ('p, 'n, 'f, 'a, 'j, 'v) ide_problem \<Rightarrow>
   ('p, 'n, 'f, ('a, 'j, 'v) edge_function) ide_state \<Rightarrow> (('n, 'f) source_key \<rightharpoonup> 'v) \<Rightarrow> ('n, 'f) source_key \<Rightarrow>
   (('n, 'f) source_key \<rightharpoonup> 'v) \<times> bool \<Rightarrow> (('n, 'f) source_key \<rightharpoonup> 'v) \<times> bool" where
  "update_source run P s seeds key sc =
     (case resolve run P s seeds (fst sc) key of
        None \<Rightarrow> sc
      | Some v \<Rightarrow> if fst sc key = Some v then sc else ((fst sc)(key \<mapsto> v), True))"

definition sweep ::
  "('n, 'f, 'k::linorder, ('a, 'j, 'v) edge_function) ide_run \<Rightarrow> ('p, 'n, 'f, 'a, 'j, 'v) ide_problem \<Rightarrow>
   ('p, 'n, 'f, ('a, 'j, 'v) edge_function) ide_state \<Rightarrow> (('n, 'f) source_key \<rightharpoonup> 'v) \<Rightarrow> ('n, 'f) source_key list \<Rightarrow>
   (('n, 'f) source_key \<rightharpoonup> 'v) \<Rightarrow> (('n, 'f) source_key \<rightharpoonup> 'v) \<times> bool" where
  "sweep run P s seeds keys sources = fold (update_source run P s seeds) keys (sources, False)"

partial_function (option) source_loop ::
  "('n, 'f, 'k::linorder, ('a, 'j, 'v) edge_function) ide_run \<Rightarrow> ('p, 'n, 'f, 'a, 'j, 'v) ide_problem \<Rightarrow>
   (('n, 'f) source_key \<rightharpoonup> 'v) \<Rightarrow> ('n, 'f) source_key list \<Rightarrow>
   ('p, 'n, 'f, ('a, 'j, 'v) edge_function) ide_state \<Rightarrow> (('n, 'f) source_key \<rightharpoonup> 'v) \<Rightarrow>
   (('p, 'n, 'f, ('a, 'j, 'v) edge_function) ide_state \<times> (('n, 'f) source_key \<rightharpoonup> 'v)) res option" where
  "source_loop run prob seeds keys s sources =
     (if \<not> running s then Some (Inr (s, sources))
      else (case ide_check run 0 s of
        Inl e \<Rightarrow> Some (Inl e)
      | Inr s1 \<Rightarrow> (case sweep run prob s1 seeds keys sources of
          (sources1, changed) \<Rightarrow>
            if changed then source_loop run prob seeds keys s1 sources1 else Some (Inr (s1, sources1)))))"

declare source_loop.simps [code]

section \<open>The result\<close>

record ('p, 'n, 'f, 'e, 'v) ide_result =
  dv_values :: "'n \<times> 'f \<rightharpoonup> 'v"
  dv_by_context :: "'n \<times> 'f \<rightharpoonup> ('n call_context option \<rightharpoonup> 'v)"
  dv_path_edges :: "('n, 'f) path_edge \<rightharpoonup> 'v"
  dv_reached :: "'n \<rightharpoonup> 'f list"
  dv_jumps :: "(('n, 'f) path_edge \<times> 'e) list"
  dv_statistics :: "stat \<Rightarrow> int"
  dv_traces :: "('n, 'f) path_edge \<rightharpoonup> ('p, 'n, 'f) trace list"
  dv_incoming :: "(('n, 'f) source_key \<times> ('n, 'f, 'e) ide_record list) list"
  dv_summaries :: "(('n \<times> 'f \<times> 'n \<times> 'f \<times> 'n call_context option) \<times> 'e) list"
  dv_status :: analysis_status
  dv_reason :: "stop_reason option"

text \<open>\<^verbatim>\<open>d[k] = v\<close>, or the join with the old value.\<close>

definition join_into :: "('p, 'n, 'f, 'a, 'j, 'v) ide_problem \<Rightarrow> 'k \<Rightarrow> 'v \<Rightarrow> ('k \<rightharpoonup> 'v) \<Rightarrow> ('k \<rightharpoonup> 'v)" where
  "join_into P k v m = m(k \<mapsto> (case m k of None \<Rightarrow> v | Some w \<Rightarrow> join_values P w v))"

type_synonym ('n, 'f, 'v) value_tables =
  "('n \<times> 'f \<rightharpoonup> 'v) \<times> ('n \<times> 'f \<rightharpoonup> ('n call_context option \<rightharpoonup> 'v)) \<times> (('n, 'f) path_edge \<rightharpoonup> 'v)"

definition edge_value ::
  "('n, 'f, 'k, ('a, 'j, 'v) edge_function) ide_run \<Rightarrow> ('p, 'n, 'f, 'a, 'j, 'v) ide_problem \<Rightarrow>
   (('n, 'f) source_key \<rightharpoonup> 'v) \<Rightarrow> ('n, 'f) path_edge \<times> ('a, 'j, 'v) edge_function \<Rightarrow> 'v option" where
  "edge_value run P sources ej =
     map_option (compute (de_semantics P) (snd ej))
       (sources (source_key run (source_node (fst ej)) (source_fact (fst ej)) (edge_context (fst ej))))"

definition add_edge_value ::
  "('n, 'f, 'k, ('a, 'j, 'v) edge_function) ide_run \<Rightarrow> ('p, 'n, 'f, 'a, 'j, 'v) ide_problem \<Rightarrow>
   (('n, 'f) source_key \<rightharpoonup> 'v) \<Rightarrow> ('n, 'f) path_edge \<times> ('a, 'j, 'v) edge_function \<Rightarrow>
   ('n, 'f, 'v) value_tables \<Rightarrow> ('n, 'f, 'v) value_tables" where
  "add_edge_value run P sources ej tables =
     (case tables of (values, contexts, edges) \<Rightarrow>
        (case edge_value run P sources ej of
           None \<Rightarrow> tables
         | Some v \<Rightarrow>
             let key = (edge_node (fst ej), edge_fact (fst ej)) in
             (join_into P key v values,
              contexts(key \<mapsto> join_into P (edge_context (fst ej)) v
                (case contexts key of None \<Rightarrow> Map.empty | Some m \<Rightarrow> m)),
              edges(fst ej \<mapsto> v))))"

text \<open>\<^verbatim>\<open>setdefault\<close> for every reached fact.\<close>

definition with_default :: "('n \<rightharpoonup> 'f list) \<Rightarrow> 'v \<Rightarrow> ('n \<times> 'f \<rightharpoonup> 'v) \<Rightarrow> ('n \<times> 'f \<rightharpoonup> 'v)" where
  "with_default reached v m =
     (\<lambda>nd. case m nd of
        Some w \<Rightarrow> Some w
      | None \<Rightarrow> if snd nd \<in> set (get_list reached (fst nd)) then Some v else None)"

definition ide_finish ::
  "('n, 'f, 'k, ('a, 'j, 'v) edge_function) ide_run \<Rightarrow> ('p, 'n, 'f, 'a, 'j, 'v) ide_problem \<Rightarrow>
   ('p, 'n, 'f, ('a, 'j, 'v) edge_function) ide_state \<Rightarrow> (('n, 'f) source_key \<rightharpoonup> 'v) \<Rightarrow>
   ('p, 'n, 'f, ('a, 'j, 'v) edge_function, 'v) ide_result res" where
  "ide_finish run P s sources =
     (case fold (add_edge_value run P sources) (es_jumps s) (Map.empty, Map.empty, Map.empty) of
        (values, contexts, edges) \<Rightarrow>
          bind_res (finish (dr_base run) (running s) (es_bk s))
            (\<lambda>bk. Inr \<lparr>dv_values = with_default (es_reached s) (de_bottom P) values,
                       dv_by_context = with_default (es_reached s) Map.empty contexts,
                       dv_path_edges = edges, dv_reached = es_reached s, dv_jumps = es_jumps s,
                       dv_statistics = bk_stats bk, dv_traces = frozen_traces (dr_base run) bk,
                       dv_incoming = es_incoming s, dv_summaries = es_summaries s,
                       dv_status = bk_status bk, dv_reason = bk_reason bk\<rparr>))"

definition ide_solve ::
  "('n, 'f, 'k::linorder, ('a, 'j, 'v) edge_function) ide_run \<Rightarrow> ('p, 'n, 'f, 'a, 'j, 'v) ide_problem \<Rightarrow>
   ('p, 'n, 'f, ('a, 'j, 'v) edge_function, 'v) ide_result res option" where
  "ide_solve run P =
     (case ide_seed_all run P (ide_start run) of
        Inl e \<Rightarrow> Some (Inl e)
      | Inr s \<Rightarrow> (case ide_worklist run P s of
          None \<Rightarrow> None
        | Some (Inl e) \<Rightarrow> Some (Inl e)
        | Some (Inr s) \<Rightarrow>
            let seeds = seed_values run P in
            (case source_loop run P (map_of seeds) (source_keys run seeds s) s Map.empty of
               None \<Rightarrow> None
             | Some (Inl e) \<Rightarrow> Some (Inl e)
             | Some (Inr (s, sources)) \<Rightarrow> Some (ide_finish run P s sources))))"

text \<open>The queries of \<^verbatim>\<open>IDEResult\<close>.\<close>

definition dv_is_complete :: "('p, 'n, 'f, 'e, 'v) ide_result \<Rightarrow> bool" where
  "dv_is_complete r \<longleftrightarrow> dv_status r = COMPLETE"

definition dv_facts_at :: "('p, 'n, 'f, 'e, 'v) ide_result \<Rightarrow> 'n \<Rightarrow> 'f set" where
  "dv_facts_at r n = set (get_list (dv_reached r) n)"

definition dict_item :: "('k \<rightharpoonup> 'v) \<Rightarrow> 'k \<Rightarrow> 'v res" where
  "dict_item m k = (case m k of None \<Rightarrow> Inl KeyError | Some v \<Rightarrow> Inr v)"

definition value_at :: "('p, 'n, 'f, 'e, 'v) ide_result \<Rightarrow> 'n \<Rightarrow> 'f \<Rightarrow> 'v res" where
  "value_at r n d = dict_item (dv_values r) (n, d)"

definition value_at_context ::
  "('p, 'n, 'f, 'e, 'v) ide_result \<Rightarrow> 'n \<Rightarrow> 'f \<Rightarrow> 'n call_context option \<Rightarrow> 'v res" where
  "value_at_context r n d c = bind_res (dict_item (dv_by_context r) (n, d)) (\<lambda>m. dict_item m c)"

definition values_at_contexts ::
  "('p, 'n, 'f, 'e, 'v) ide_result \<Rightarrow> 'n \<Rightarrow> 'f \<Rightarrow> ('n call_context option \<rightharpoonup> 'v)" where
  "values_at_contexts r n d = (case dv_by_context r (n, d) of None \<Rightarrow> Map.empty | Some m \<Rightarrow> m)"

definition value_for_path_edge :: "('p, 'n, 'f, 'e, 'v) ide_result \<Rightarrow> ('n, 'f) path_edge \<Rightarrow> 'v res" where
  "value_for_path_edge r e = dict_item (dv_path_edges r) e"

definition dv_traces_for :: "('p, 'n, 'f, 'e, 'v) ide_result \<Rightarrow> ('n, 'f) path_edge \<Rightarrow> ('p, 'n, 'f) trace list" where
  "dv_traces_for r e = get_list (dv_traces r) e"

definition dv_explain_fact ::
  "('p, 'n, 'f, 'e, 'v) ide_result \<Rightarrow> 'n \<Rightarrow> 'f \<Rightarrow> (('n, 'f) path_edge \<times> ('p, 'n, 'f) trace list) list" where
  "dv_explain_fact r n d =
     map (\<lambda>ej. (fst ej, dv_traces_for r (fst ej)))
       (filter (\<lambda>ej. edge_node (fst ej) = n \<and> edge_fact (fst ej) = d \<and> dv_traces_for r (fst ej) \<noteq> []) (dv_jumps r))"

definition dv_incoming_records ::
  "('p, 'n, 'f, 'e, 'v) ide_result \<Rightarrow> 'n \<Rightarrow> 'f \<Rightarrow> ('n, 'f, 'e) ide_record list" where
  "dv_incoming_records r start d = get_list (map_of (dv_incoming r)) (start, d, None)"

end
