(* ===== verification/ExplodedValues.thy ===== *)
theory ExplodedValues
  imports IdeSolvers
begin

text \<open>
  What a solution of an IDE problem is. \<open>travels\<close> gives the functions that the tabulation rules derive for
  a path edge, one for each way through it, \<open>enters\<close> the values that reach the source of path edges, and
  \<open>valued_run\<close> the values that runs of the program compute, with a stack of pending calls. The first
  two together give the same values as the third at every node (\<open>arrives_run\<close>), for every depth of the
  call strings. The facts alone are those of the IFDS problem \<open>erase P\<close>.
\<close>

abbreviation (input) net :: "('p, 'n, 'f, 'a, 'j, 'v) ide_problem \<Rightarrow> ('p, 'n) supergraph" where
  "net P \<equiv> de_supergraph P"

abbreviation apply_edge :: "('p, 'n, 'f, 'a, 'j, 'v) ide_problem \<Rightarrow> ('a, 'j, 'v) edge_function \<Rightarrow> 'v \<Rightarrow> 'v" where
  "apply_edge P \<equiv> compute (de_semantics P)"

section \<open>Runs with values\<close>

inductive valued_run ::
  "('p, 'n, 'f, 'a, 'j, 'v) ide_problem \<Rightarrow> 'n \<Rightarrow> 'f \<Rightarrow> ('p, 'n, 'f) frame list \<Rightarrow> 'v \<Rightarrow> bool"
  for P :: "('p, 'n, 'f, 'a, 'j, 'v) ide_problem" where
  start: "((n, d), v) \<in> set (de_seeds P) \<Longrightarrow> valued_run P n d [] v"
| step: "valued_run P n d stack v \<Longrightarrow> m \<in> normal_successors (net P) n \<Longrightarrow>
    ValueTransition d' f \<in> set (de_normal P n m d) \<Longrightarrow> valued_run P m d' stack (apply_edge P f v)"
| skip: "valued_run P n d stack v \<Longrightarrow> is_call_node (net P) n \<Longrightarrow> r \<in> call_to_return_successors (net P) n \<Longrightarrow>
    ValueTransition d' f \<in> set (de_call_to_return P n r d) \<Longrightarrow> valued_run P r d' stack (apply_edge P f v)"
| enter: "valued_run P n d stack v \<Longrightarrow> is_call_node (net P) n \<Longrightarrow> p \<in> callees_of_call_at (net P) n \<Longrightarrow>
    entry_of (net P) p = Inr start \<Longrightarrow> ValueTransition d' f \<in> set (de_call P n p d) \<Longrightarrow>
    valued_run P start d' ((n, p, d) # stack) (apply_edge P f v)"
| leave: "valued_run P x d2 ((n, p, d) # stack) v \<Longrightarrow> x \<in> exits_of (net P) p \<Longrightarrow>
    r \<in> return_sites_of_call_at (net P) n \<Longrightarrow> ValueTransition d3 f \<in> set (de_return P n p x r d d2) \<Longrightarrow>
    valued_run P r d3 stack (apply_edge P f v)"

section \<open>Path edges with functions\<close>

inductive travels ::
  "('p, 'n, 'f, 'a, 'j, 'v) ide_problem \<Rightarrow> int option \<Rightarrow> ('n, 'f) path_edge \<Rightarrow> ('v \<Rightarrow> 'v) \<Rightarrow> bool"
  for P :: "('p, 'n, 'f, 'a, 'j, 'v) ide_problem" and depth :: "int option" where
  seed: "((n, d), v) \<in> set (de_seeds P) \<Longrightarrow> travels P depth (PathEdge n d n d (seed_context depth)) id"
| normal: "travels P depth (PathEdge sn sd n d c) h \<Longrightarrow> m \<in> normal_successors (net P) n \<Longrightarrow>
    ValueTransition d' f \<in> set (de_normal P n m d) \<Longrightarrow>
    travels P depth (PathEdge sn sd m d' c) (apply_edge P f \<circ> h)"
| bypass: "travels P depth (PathEdge sn sd n d c) h \<Longrightarrow> is_call_node (net P) n \<Longrightarrow>
    r \<in> call_to_return_successors (net P) n \<Longrightarrow> ValueTransition d' f \<in> set (de_call_to_return P n r d) \<Longrightarrow>
    travels P depth (PathEdge sn sd r d' c) (apply_edge P f \<circ> h)"
| call: "travels P depth (PathEdge sn sd n d c) h \<Longrightarrow> is_call_node (net P) n \<Longrightarrow>
    p \<in> callees_of_call_at (net P) n \<Longrightarrow> entry_of (net P) p = Inr start \<Longrightarrow>
    ValueTransition d' f \<in> set (de_call P n p d) \<Longrightarrow>
    travels P depth (PathEdge start d' start d' (push_context depth c n)) id"
| return: "travels P depth (PathEdge sn sd n d c) h \<Longrightarrow> is_call_node (net P) n \<Longrightarrow>
    p \<in> callees_of_call_at (net P) n \<Longrightarrow> entry_of (net P) p = Inr start \<Longrightarrow>
    ValueTransition d1 f \<in> set (de_call P n p d) \<Longrightarrow> r \<in> return_sites_of_call_at (net P) n \<Longrightarrow>
    travels P depth (PathEdge start d1 x d2 (push_context depth c n)) g \<Longrightarrow>
    x \<in> exits_of (net P) p \<Longrightarrow> ValueTransition d3 k \<in> set (de_return P n p x r d d2) \<Longrightarrow>
    travels P depth (PathEdge sn sd r d3 c) (apply_edge P k \<circ> (g \<circ> (apply_edge P f \<circ> h)))"

inductive enters ::
  "('p, 'n, 'f, 'a, 'j, 'v) ide_problem \<Rightarrow> int option \<Rightarrow> 'n \<times> 'f \<times> 'n call_context option \<Rightarrow> 'v \<Rightarrow> bool"
  for P :: "('p, 'n, 'f, 'a, 'j, 'v) ide_problem" and depth :: "int option" where
  seed: "((n, d), v) \<in> set (de_seeds P) \<Longrightarrow> enters P depth (n, d, seed_context depth) v"
| call: "enters P depth (sn, sd, c) w \<Longrightarrow> travels P depth (PathEdge sn sd n d c) h \<Longrightarrow>
    is_call_node (net P) n \<Longrightarrow> p \<in> callees_of_call_at (net P) n \<Longrightarrow> entry_of (net P) p = Inr start \<Longrightarrow>
    ValueTransition d' f \<in> set (de_call P n p d) \<Longrightarrow> return_sites_of_call_at (net P) n \<noteq> {} \<Longrightarrow>
    enters P depth (start, d', push_context depth c n) (apply_edge P f (h w))"

definition arrives_in ::
  "('p, 'n, 'f, 'a, 'j, 'v) ide_problem \<Rightarrow> int option \<Rightarrow> 'n call_context option \<Rightarrow> 'n \<Rightarrow> 'f \<Rightarrow> 'v \<Rightarrow> bool" where
  "arrives_in P depth c n d v \<longleftrightarrow>
     (\<exists>sn sd w h. enters P depth (sn, sd, c) w \<and> travels P depth (PathEdge sn sd n d c) h \<and> v = h w)"

definition arrives :: "('p, 'n, 'f, 'a, 'j, 'v) ide_problem \<Rightarrow> int option \<Rightarrow> 'n \<Rightarrow> 'f \<Rightarrow> 'v \<Rightarrow> bool" where
  "arrives P depth n d v \<longleftrightarrow> (\<exists>c. arrives_in P depth c n d v)"

text \<open>A stack whose calls all have a site to return to: only such calls bring their values along.\<close>

definition returning :: "('p, 'n, 'f, 'a, 'j, 'v) ide_problem \<Rightarrow> ('p, 'n, 'f) frame list \<Rightarrow> bool" where
  "returning P stack \<longleftrightarrow> (\<forall>(n, p, d)\<in>set stack. return_sites_of_call_at (net P) n \<noteq> {})"

text \<open>The call string of a stack of calls.\<close>

definition call_string :: "int option \<Rightarrow> ('p, 'n, 'f) frame list \<Rightarrow> 'n call_context option" where
  "call_string depth stack = foldr (\<lambda>(n, p, d) c. push_context depth c n) stack (seed_context depth)"

lemma call_string_simps [simp]:
  "call_string depth [] = seed_context depth"
  "call_string depth ((n, p, d) # stack) = push_context depth (call_string depth stack) n"
  by (simp_all add: call_string_def)

text \<open>A stack that the path edges account for, down to a seed.\<close>

inductive vaccounted ::
  "('p, 'n, 'f, 'a, 'j, 'v) ide_problem \<Rightarrow> int option \<Rightarrow> 'n \<Rightarrow> 'f \<Rightarrow> 'n call_context option \<Rightarrow> 'v \<Rightarrow>
   ('p, 'n, 'f) frame list \<Rightarrow> bool"
  for P :: "('p, 'n, 'f, 'a, 'j, 'v) ide_problem" and depth :: "int option" where
  bottom: "((sn, sd), w) \<in> set (de_seeds P) \<Longrightarrow> vaccounted P depth sn sd (seed_context depth) w []"
| frame: "travels P depth (PathEdge sn sd n d c) h \<Longrightarrow> vaccounted P depth sn sd c w stack \<Longrightarrow>
    is_call_node (net P) n \<Longrightarrow> p \<in> callees_of_call_at (net P) n \<Longrightarrow> entry_of (net P) p = Inr start \<Longrightarrow>
    ValueTransition d1 f \<in> set (de_call P n p d) \<Longrightarrow>
    vaccounted P depth start d1 (push_context depth c n) (apply_edge P f (h w)) ((n, p, d) # stack)"

inductive_cases vaccounted_ConsE: "vaccounted P depth sn sd c w ((n, p, d) # stack)"

lemma vaccounted_enters: "vaccounted P depth sn sd c w stack \<Longrightarrow> returning P stack \<Longrightarrow> enters P depth (sn, sd, c) w"
  by (induction rule: vaccounted.induct) (auto simp: returning_def intro: enters.intros)

lemma vaccounted_string: "vaccounted P depth sn sd c w stack \<Longrightarrow> c = call_string depth stack"
  by (induction rule: vaccounted.induct) simp_all

lemma valued_run_travels:
  "valued_run P n d stack v \<Longrightarrow>
   \<exists>sn sd c w h. travels P depth (PathEdge sn sd n d c) h \<and> vaccounted P depth sn sd c w stack \<and> v = h w"
proof (induction rule: valued_run.induct)
  case (start n d v)
  have "travels P depth (PathEdge n d n d (seed_context depth)) id" by (rule travels.seed[OF start])
  moreover have "vaccounted P depth n d (seed_context depth) v []"
    by (rule vaccounted.bottom[OF start])
  moreover have "v = id v" by simp
  ultimately show ?case by blast
next
  case (step n d stack v m d' f)
  then obtain sn sd c w h where t: "travels P depth (PathEdge sn sd n d c) h"
    and a: "vaccounted P depth sn sd c w stack" "v = h w" by blast
  have "apply_edge P f v = (apply_edge P f \<circ> h) w" using a(2) by simp
  with travels.normal[OF t step.hyps(2,3)] a(1) show ?case by blast
next
  case (skip n d stack v r d' f)
  then obtain sn sd c w h where t: "travels P depth (PathEdge sn sd n d c) h"
    and a: "vaccounted P depth sn sd c w stack" "v = h w" by blast
  have "apply_edge P f v = (apply_edge P f \<circ> h) w" using a(2) by simp
  with travels.bypass[OF t skip.hyps(2-4)] a(1) show ?case by blast
next
  case (enter n d stack v p start d' f)
  then obtain sn sd c w h where t: "travels P depth (PathEdge sn sd n d c) h"
    and a: "vaccounted P depth sn sd c w stack" and v: "v = h w" by blast
  have "apply_edge P f v = id (apply_edge P f (h w))" using v by simp
  with travels.call[OF t enter.hyps(2-5)] vaccounted.frame[OF t a enter.hyps(2-5)] show ?case by blast
next
  case (leave x d2 n p d stack v r d3 f)
  then obtain sn sd c w g where t: "travels P depth (PathEdge sn sd x d2 c) g"
    and a: "vaccounted P depth sn sd c w ((n, p, d) # stack)" and v: "v = g w" by blast
  from a show ?case
  proof (rule vaccounted_ConsE)
    fix sn' sd' c' h w' f'
    assume c: "c = push_context depth c' n" and w: "w = apply_edge P f' (h w')"
      and t': "travels P depth (PathEdge sn' sd' n d c') h" and a': "vaccounted P depth sn' sd' c' w' stack"
      and i: "is_call_node (net P) n" "p \<in> callees_of_call_at (net P) n" "entry_of (net P) p = Inr sn"
      "ValueTransition sd f' \<in> set (de_call P n p d)"
    have "apply_edge P f v = (apply_edge P f \<circ> (g \<circ> (apply_edge P f' \<circ> h))) w'" by (simp add: v w)
    with travels.return[OF t' i leave.hyps(3) t[unfolded c] leave.hyps(2,4)] a' show ?case by blast
  qed
qed

lemma travels_valued_run:
  "travels P depth e h \<Longrightarrow> valued_run P (source_node e) (source_fact e) stack w \<Longrightarrow>
   valued_run P (edge_node e) (edge_fact e) stack (h w)"
proof (induction arbitrary: stack w rule: travels.induct)
  case (return sn sd n d c h p start d1 f r x d2 g d3 k)
  have "valued_run P n d stack (h w)" using return.IH(1)[of stack w] return.prems by simp
  then have "valued_run P start d1 ((n, p, d) # stack) (apply_edge P f (h w))"
    by (rule valued_run.enter[OF _ return.hyps(2-5)])
  then have "valued_run P x d2 ((n, p, d) # stack) (g (apply_edge P f (h w)))"
    using return.IH(2)[of "(n, p, d) # stack"] by simp
  from valued_run.leave[OF this return.hyps(8,6,9)] show ?case by simp
next
  case (normal sn sd n d c h m d' f)
  have "valued_run P n d stack (h w)" using normal.IH[of stack w] normal.prems by simp
  from valued_run.step[OF this normal.hyps(2,3)] show ?case by simp
next
  case (bypass sn sd n d c h r d' f)
  have "valued_run P n d stack (h w)" using bypass.IH[of stack w] bypass.prems by simp
  from valued_run.skip[OF this bypass.hyps(2-4)] show ?case by simp
qed simp_all

lemma enters_valued_run:
  "enters P depth k w \<Longrightarrow> \<exists>stack. valued_run P (fst k) (fst (snd k)) stack w \<and>
     call_string depth stack = snd (snd k) \<and> returning P stack"
proof (induction rule: enters.induct)
  case (seed n d v)
  from valued_run.start[OF seed] show ?case by (intro exI[of _ "[]"]) (simp add: returning_def)
next
  case (call sn sd c w n d h p start d' f)
  then obtain stack where stack: "valued_run P sn sd stack w" "call_string depth stack = c" "returning P stack" by auto
  then have "valued_run P n d stack (h w)" using travels_valued_run[OF call.hyps(2)] by simp
  from valued_run.enter[OF this call.hyps(3-6)] stack(2,3) call.hyps(7) show ?case
    by (intro exI[of _ "(n, p, d) # stack"]) (simp add: returning_def)
qed

lemma arrives_in_run: "arrives_in P depth c n d v \<longleftrightarrow> (\<exists>stack. valued_run P n d stack v \<and> call_string depth stack = c \<and> returning P stack)"
proof
  assume "arrives_in P depth c n d v"
  then obtain sn sd w h where a: "enters P depth (sn, sd, c) w" "travels P depth (PathEdge sn sd n d c) h" "v = h w"
    by (auto simp: arrives_in_def)
  obtain stack where stack: "valued_run P sn sd stack w" "call_string depth stack = c" "returning P stack"
    using enters_valued_run[OF a(1)] by auto
  then have "valued_run P n d stack (h w)" using travels_valued_run[OF a(2)] by simp
  then show "\<exists>stack. valued_run P n d stack v \<and> call_string depth stack = c \<and> returning P stack" using a(3) stack(2,3) by blast
next
  assume "\<exists>stack. valued_run P n d stack v \<and> call_string depth stack = c \<and> returning P stack"
  then obtain stack where stack: "valued_run P n d stack v" "call_string depth stack = c" "returning P stack" by blast
  obtain sn sd c' w h where t: "travels P depth (PathEdge sn sd n d c') h" "vaccounted P depth sn sd c' w stack" "v = h w"
    using valued_run_travels[OF stack(1)] by blast
  have "c' = c" using vaccounted_string[OF t(2)] stack(2) by simp
  then show "arrives_in P depth c n d v"
    unfolding arrives_in_def using t vaccounted_enters[OF t(2) stack(3)] by blast
qed

lemma arrives_run: "arrives P depth n d v \<longleftrightarrow> (\<exists>stack. valued_run P n d stack v \<and> returning P stack)"
  unfolding arrives_def arrives_in_run by blast

text \<open>Whatever travels is reached by a run.\<close>

lemma travels_reached: "travels P depth e h \<Longrightarrow> \<exists>stack w. valued_run P (source_node e) (source_fact e) stack w"
proof (induction rule: travels.induct)
  case (call sn sd n d c h p start d' f)
  then obtain stack w where "valued_run P sn sd stack w" by auto
  then have "valued_run P n d stack (h w)" using travels_valued_run[OF call.hyps(1)] by simp
  from valued_run.enter[OF this call.hyps(2-5)] show ?case by auto
qed (auto intro: valued_run.start)

section \<open>The facts of an IDE problem\<close>

definition erase_outputs :: "('f, 'e) value_transition list \<Rightarrow> 'f flow_output list" where
  "erase_outputs = map (\<lambda>t. RawFact (vt_fact t))"

definition erase :: "('p, 'n, 'f, 'a, 'j, 'v) ide_problem \<Rightarrow> ('p, 'n, 'f) ifds_problem" where
  "erase P =
     \<lparr>ip_supergraph = de_supergraph P, ip_zero = de_zero P, ip_seeds = map (\<lambda>sv. (fst (fst sv), [snd (fst sv)])) (de_seeds P),
      ip_normal = (\<lambda>n m d. erase_outputs (de_normal P n m d)),
      ip_call = (\<lambda>n p d. erase_outputs (de_call P n p d)),
      ip_return = (\<lambda>n p x r d d'. erase_outputs (de_return P n p x r d d')),
      ip_call_to_return = (\<lambda>n r d. erase_outputs (de_call_to_return P n r d))\<rparr>"

lemma facts_of_erased [simp]: "d \<in> facts_of (erase_outputs ts) \<longleftrightarrow> (\<exists>f. ValueTransition d f \<in> set ts)"
proof
  assume "d \<in> facts_of (erase_outputs ts)"
  then obtain t where "t \<in> set ts" "d = vt_fact t" by (auto simp: facts_of_def erase_outputs_def)
  then have "ValueTransition d (vt_edge t) \<in> set ts" by simp
  then show "\<exists>f. ValueTransition d f \<in> set ts" ..
qed (force simp: facts_of_def erase_outputs_def)

lemma erase_simps [simp]:
  "ip_supergraph (erase P) = de_supergraph P"
  "ip_normal (erase P) n m d = erase_outputs (de_normal P n m d)"
  "ip_call (erase P) n p d = erase_outputs (de_call P n p d)"
  "ip_return (erase P) n p x r d d' = erase_outputs (de_return P n p x r d d')"
  "ip_call_to_return (erase P) n r d = erase_outputs (de_call_to_return P n r d)"
  by (simp_all add: erase_def)

lemma travels_tabulated: "travels P depth e h \<Longrightarrow> tabulated (erase P) depth e"
proof (induction rule: travels.induct)
  case (seed n d v)
  then have "(n, [d]) \<in> set (ip_seeds (erase P))" by (force simp: erase_def)
  then show ?case by (rule tabulated.seed) simp
next
  case (normal sn sd n d c h m d' f)
  show ?case by (rule tabulated.normal[OF normal.IH]) (use normal.hyps in auto)
next
  case (bypass sn sd n d c h r d' f)
  show ?case by (rule tabulated.bypass[OF bypass.IH]) (use bypass.hyps in auto)
next
  case (call sn sd n d c h p start d' f)
  show ?case by (rule tabulated.call[OF call.IH, where p = p]) (use call.hyps in auto)
next
  case (return sn sd n d c h p start d1 f r x d2 g d3 k)
  show ?case
    by (rule tabulated.return[OF return.IH(1), where p = p and start = start and ?d1.0 = d1 and x = x and ?d2.0 = d2])
      (use return.hyps return.IH in auto)
qed

definition ide_wf :: "('p, 'n, 'f, 'a, 'j, 'v) ide_problem \<Rightarrow> bool" where
  "ide_wf P \<longleftrightarrow> problem_wf (erase P)"

definition all_transitions :: "('p, 'n, 'f, 'a, 'j, 'v) ide_problem \<Rightarrow> ('a, 'j, 'v) edge_function set" where
  "all_transitions P = {f. \<exists>n m p x r d d' t.
     ValueTransition t f \<in> set (de_normal P n m d) \<union> set (de_call P n p d) \<union> set (de_return P n p x r d d') \<union>
       set (de_call_to_return P n r d)}"

text \<open>The laws of the values, for problems whose flows return edge functions of the problem.\<close>

definition ide_lawful :: "('p, 'n, 'f, 'a, 'j, 'v) ide_problem \<Rightarrow> bool" where
  "ide_lawful P \<longleftrightarrow> lawful (de_semantics P) (de_join P) \<and>
     (\<forall>f\<in>all_transitions P. proper (de_semantics P) (de_join P) f)"

text \<open>The edge functions that a solver can build from those of the flows.\<close>

inductive edge_ok :: "('p, 'n, 'f, 'a, 'j, 'v) ide_problem \<Rightarrow> ('a, 'j, 'v) edge_function \<Rightarrow> bool"
  for P :: "('p, 'n, 'f, 'a, 'j, 'v) ide_problem" where
  identity_ok [intro, simp]: "edge_ok P IdentityEdge"
| flow_ok: "f \<in> all_transitions P \<Longrightarrow> edge_ok P f"
| compose_ok: "edge_ok P f \<Longrightarrow> edge_ok P g \<Longrightarrow> edge_ok P (compose (de_semantics P) f g)"
| join_ok: "edge_ok P f \<Longrightarrow> edge_ok P g \<Longrightarrow> edge_ok P (join (de_join P) f g)"

lemma edge_ok_proper: "edge_ok P f \<Longrightarrow> ide_lawful P \<Longrightarrow> proper (de_semantics P) (de_join P) f"
  by (induction rule: edge_ok.induct) (simp_all add: ide_lawful_def proper_compose proper_join)

lemma transition_ok:
  shows "ValueTransition d' f \<in> set (de_normal P n m d) \<Longrightarrow> edge_ok P f"
    "ValueTransition d' f \<in> set (de_call P n p d) \<Longrightarrow> edge_ok P f"
    "ValueTransition d' f \<in> set (de_return P n p x r d d2) \<Longrightarrow> edge_ok P f"
    "ValueTransition d' f \<in> set (de_call_to_return P n r d) \<Longrightarrow> edge_ok P f"
  by (rule flow_ok; (unfold all_transitions_def, blast))+

section \<open>The order of values\<close>

definition vle :: "('p, 'n, 'f, 'a, 'j, 'v) ide_problem \<Rightarrow> 'v \<Rightarrow> 'v \<Rightarrow> bool" where
  "vle P = (\<lambda>x y. \<exists>z. y = join_values P x z)\<^sup>*\<^sup>*"

lemma vle_refl [simp]: "vle P x x"
  by (simp add: vle_def)

lemma vle_trans: "vle P x y \<Longrightarrow> vle P y z \<Longrightarrow> vle P x z"
  unfolding vle_def by (rule rtranclp_trans)

lemma vle_join [simp]: "vle P x (join_values P x z)"
  unfolding vle_def by (rule r_into_rtranclp) blast

lemma join_lawfulD:
  assumes "ide_lawful P"
  shows "join_values P x x = x" "join_values P x y = join_values P y x"
    "join_values P (join_values P x y) z = join_values P x (join_values P y z)"
  using assms lawfulD[of "de_semantics P" "de_join P"] by (simp_all add: ide_lawful_def join_values_def)

lemma vle_iff:
  assumes "ide_lawful P"
  shows "vle P x y \<longleftrightarrow> join_values P x y = y"
proof
  assume "vle P x y"
  then show "join_values P x y = y"
    unfolding vle_def
  proof (induction rule: rtranclp_induct)
    case (step y z)
    then obtain w where z: "z = join_values P y w" by blast
    have "join_values P x z = join_values P (join_values P x y) w" by (simp add: z join_lawfulD(3)[OF assms])
    then show ?case using step.IH z by simp
  qed (simp add: join_lawfulD[OF assms])
qed (metis vle_join)

lemma vle_join_right: "ide_lawful P \<Longrightarrow> vle P z (join_values P x z)"
  by (metis join_lawfulD(2) vle_join)

lemma vle_lub:
  assumes "ide_lawful P" "vle P x u" "vle P y u"
  shows "vle P (join_values P x y) u"
  using assms join_lawfulD(3)[OF assms(1)] by (simp add: vle_iff)

lemma vle_antisym: "ide_lawful P \<Longrightarrow> vle P x y \<Longrightarrow> vle P y x \<Longrightarrow> x = y"
  by (metis vle_iff join_lawfulD(2))

lemma apply_join:
  "ide_lawful P \<Longrightarrow> edge_ok P f \<Longrightarrow>
   apply_edge P f (join_values P x y) = join_values P (apply_edge P f x) (apply_edge P f y)"
  using compute_distributes[of "de_semantics P" "de_join P" f x y] edge_ok_proper[of P f]
  by (simp add: ide_lawful_def join_values_def)

lemma apply_mono:
  "ide_lawful P \<Longrightarrow> edge_ok P f \<Longrightarrow> vle P x y \<Longrightarrow> vle P (apply_edge P f x) (apply_edge P f y)"
  by (metis vle_iff apply_join)

lemma apply_compose:
  "ide_lawful P \<Longrightarrow> edge_ok P f \<Longrightarrow> edge_ok P g \<Longrightarrow>
   apply_edge P (compose (de_semantics P) f g) = apply_edge P f \<circ> apply_edge P g"
  using compute_compose[of "de_semantics P" "de_join P" f g] edge_ok_proper[of P f] edge_ok_proper[of P g]
  by (auto simp: ide_lawful_def)

lemma apply_edge_join:
  "ide_lawful P \<Longrightarrow> edge_ok P f \<Longrightarrow> edge_ok P g \<Longrightarrow>
   apply_edge P (join (de_join P) f g) v = join_values P (apply_edge P f v) (apply_edge P g v)"
  using compute_join[of "de_semantics P" "de_join P" f g v] edge_ok_proper[of P f] edge_ok_proper[of P g]
  by (simp add: ide_lawful_def join_values_def)

text \<open>The functions of path edges distribute over joins and are monotone.\<close>

lemma travels_join:
  "travels P depth e h \<Longrightarrow> ide_lawful P \<Longrightarrow> h (join_values P x y) = join_values P (h x) (h y)"
  by (induction arbitrary: x y rule: travels.induct) (simp_all add: apply_join transition_ok)

lemma travels_mono: "travels P depth e h \<Longrightarrow> ide_lawful P \<Longrightarrow> vle P x y \<Longrightarrow> vle P (h x) (h y)"
  by (metis vle_iff travels_join)

section \<open>Finite joins\<close>

text \<open>A join of finitely many elements, at least one, of a set.\<close>

inductive join_of :: "('a \<Rightarrow> 'a \<Rightarrow> 'a) \<Rightarrow> ('a \<Rightarrow> bool) \<Rightarrow> 'a \<Rightarrow> bool" for op :: "'a \<Rightarrow> 'a \<Rightarrow> 'a" and X :: "'a \<Rightarrow> bool" where
  single: "X x \<Longrightarrow> join_of op X x"
| both: "join_of op X x \<Longrightarrow> join_of op X y \<Longrightarrow> join_of op X (op x y)"

abbreviation join_fun :: "('p, 'n, 'f, 'a, 'j, 'v) ide_problem \<Rightarrow> ('v \<Rightarrow> 'v) \<Rightarrow> ('v \<Rightarrow> 'v) \<Rightarrow> 'v \<Rightarrow> 'v" where
  "join_fun P g h \<equiv> (\<lambda>v. join_values P (g v) (h v))"

lemma join_of_mono: "join_of op X x \<Longrightarrow> (\<And>x. X x \<Longrightarrow> Y x) \<Longrightarrow> join_of op Y x"
  by (induction rule: join_of.induct) (auto intro: join_of.intros)

lemma join_of_image:
  assumes "join_of op X x" "\<And>x y. f (op x y) = op' (f x) (f y)"
  shows "join_of op' (\<lambda>y. \<exists>x. X x \<and> y = f x) (f x)"
  using assms(1) by (induction rule: join_of.induct) (auto simp: assms(2) intro: join_of.intros)

text \<open>Joins of joins.\<close>

lemma join_of_flat: "join_of op (join_of op X) x \<Longrightarrow> join_of op X x"
  by (induction rule: join_of.induct) (auto intro: join_of.both)

lemma join_of_upper:
  assumes "ide_lawful P"
  shows "join_of (join_values P) X x \<Longrightarrow> (\<And>y. X y \<Longrightarrow> vle P y u) \<Longrightarrow> vle P x u"
  by (induction rule: join_of.induct) (auto intro: vle_lub[OF assms])

text \<open>A join of functions, applied to a join of values.\<close>

lemma join_of_apply:
  assumes f: "join_of (join_fun P) F f" and distrib: "\<And>g x y. F g \<Longrightarrow> g (join_values P x y) = join_values P (g x) (g y)"
    and x: "join_of (join_values P) X x"
  shows "join_of (join_values P) (\<lambda>v. \<exists>g x. F g \<and> X x \<and> v = g x) (f x)"
  using f
proof (induction rule: join_of.induct)
  case (single g)
  have "join_of (join_values P) (\<lambda>v. \<exists>x. X x \<and> v = g x) (g x)"
    using join_of_image[where f = g and op' = "join_values P", OF x] distrib[OF single] by blast
  then show ?case by (rule join_of_mono) (use single in blast)
next
  case (both g h)
  show ?case by (rule join_of.both[OF both.IH])
qed

lemma join_of_compose:
  assumes g: "join_of (join_fun P) G g" and f: "join_of (join_fun P) F f"
    and distrib: "\<And>g x y. G g \<Longrightarrow> g (join_values P x y) = join_values P (g x) (g y)"
  shows "join_of (join_fun P) (\<lambda>h. \<exists>g f. G g \<and> F f \<and> h = g \<circ> f) (g \<circ> f)"
  using g
proof (induction rule: join_of.induct)
  case (single g)
  have "join_of (join_fun P) (\<lambda>h. \<exists>f. F f \<and> h = g \<circ> f) (g \<circ> f)"
    using join_of_image[where f = "\<lambda>f. g \<circ> f" and op' = "join_fun P", OF f] distrib[OF single]
    by (simp add: fun_eq_iff)
  then show ?case by (rule join_of_mono) (use single in blast)
next
  case (both x y)
  have "(\<lambda>v. join_values P (x v) (y v)) \<circ> f = join_fun P (x \<circ> f) (y \<circ> f)" by auto
  then show ?case using join_of.both[OF both.IH] by simp
qed

end
