(* ===== verification/IdeCorrectness.thy ===== *)
theory IdeCorrectness
  imports ExplodedValues IfdsCorrectness
begin

text \<open>
  Correctness of the jump functions that \<^verbatim>\<open>IDESolver.solve\<close> computes. At every moment the jump function of
  a path edge is a finite join of functions that ways through the program give for it (\<open>ide_base\<close>); a
  processed path edge has left all its consequences (\<open>vprocessed\<close>), and a path edge whose jump
  function grows is queued again; so in a run that ends complete the jump functions are the
  least upper bounds over all ways.
\<close>

section \<open>The order of the states of a run\<close>

definition functions_le ::
  "('p, 'n, 'f, 'a, 'j, 'v) ide_problem \<Rightarrow> ('k \<rightharpoonup> ('a, 'j, 'v) edge_function) \<Rightarrow> ('k \<rightharpoonup> ('a, 'j, 'v) edge_function) \<Rightarrow> bool" where
  "functions_le P m m' \<longleftrightarrow>
     (\<forall>k f. m k = Some f \<longrightarrow> (\<exists>f'. m' k = Some f' \<and> (\<forall>v. vle P (apply_edge P f v) (apply_edge P f' v))))"

lemma functions_le_refl [simp]: "functions_le P m m"
  by (simp add: functions_le_def)

lemma functions_le_trans: "functions_le P m m' \<Longrightarrow> functions_le P m' m'' \<Longrightarrow> functions_le P m m''"
  unfolding functions_le_def by (meson vle_trans)

definition has_function ::
  "('p, 'n, 'f, 'a, 'j, 'v) ide_problem \<Rightarrow> ('k \<rightharpoonup> ('a, 'j, 'v) edge_function) \<Rightarrow> 'k \<Rightarrow> ('v \<Rightarrow> 'v) \<Rightarrow> bool" where
  "has_function P m k h \<longleftrightarrow> (\<exists>f. m k = Some f \<and> (\<forall>v. vle P (h v) (apply_edge P f v)))"

lemma has_function_le: "functions_le P m m' \<Longrightarrow> has_function P m k h \<Longrightarrow> has_function P m' k h"
  unfolding functions_le_def has_function_def by (meson vle_trans)

lemma has_function_weaken:
  assumes "has_function P m k h'" "\<And>v. vle P (h v) (h' v)"
  shows "has_function P m k h"
  using assms unfolding has_function_def by (meson vle_trans)

type_synonym ('p, 'n, 'f, 'a, 'j, 'v) jump_state = "('p, 'n, 'f, ('a, 'j, 'v) edge_function) ide_state"
type_synonym ('n, 'f, 'k, 'a, 'j, 'v) jump_run = "('n, 'f, 'k, ('a, 'j, 'v) edge_function) ide_run"

abbreviation spent :: "('p, 'n, 'f, 'e) ide_state \<Rightarrow> int" where
  "spent s \<equiv> bk_stats (es_bk s) propagated_path_edges"

definition ide_grows ::
  "('n, 'f, 'k, 'a, 'j, 'v) jump_run \<Rightarrow> ('p, 'n, 'f, 'a, 'j, 'v) ide_problem \<Rightarrow>
   ('p, 'n, 'f, 'a, 'j, 'v) jump_state \<Rightarrow> ('p, 'n, 'f, 'a, 'j, 'v) jump_state \<Rightarrow> bool" where
  "ide_grows run P s s' \<longleftrightarrow>
     functions_le P (jump_of s) (jump_of s') \<and> functions_le P (summary_of s) (summary_of s') \<and>
     table_le (map_of (es_incoming s)) (map_of (es_incoming s')) \<and>
     (running s' \<longrightarrow> running s \<and> set (es_queue s) \<subseteq> set (es_queue s') \<and>
        (\<forall>e. jump_of s' e \<noteq> jump_of s e \<longrightarrow> e \<in> set (es_queue s'))) \<and>
     (\<not> stoppable (dr_base run) \<longrightarrow> running s \<longrightarrow> running s') \<and>
     int (length (es_queue s')) + spent s \<le> int (length (es_queue s)) + spent s'"

lemma ide_grows_queue:
  assumes "ide_grows run P s s'" "running s'"
  shows "e \<in> set (es_queue s) \<Longrightarrow> e \<in> set (es_queue s')"
    "e \<notin> set (es_queue s') \<Longrightarrow> jump_of s' e = jump_of s e"
proof -
  from assms have "set (es_queue s) \<subseteq> set (es_queue s')" "\<forall>e. jump_of s' e \<noteq> jump_of s e \<longrightarrow> e \<in> set (es_queue s')"
    by (simp_all add: ide_grows_def)
  then show "e \<in> set (es_queue s) \<Longrightarrow> e \<in> set (es_queue s')"
    "e \<notin> set (es_queue s') \<Longrightarrow> jump_of s' e = jump_of s e" by blast+
qed

interpretation jumps: step_logic "ide_grows run P" "\<lambda>s :: ('p, 'n, 'f, 'a, 'j, 'v) jump_state. running s"
    "limit_error (dr_base run)"
  for run :: "('n, 'f, 'k, 'a, 'j, 'v) jump_run" and P :: "('p, 'n, 'f, 'a, 'j, 'v) ide_problem"
proof
  fix s t u :: "('p, 'n, 'f, 'a, 'j, 'v) jump_state"
  show "ide_grows run P s s" by (simp add: ide_grows_def)
  show "ide_grows run P s t \<Longrightarrow> running t \<Longrightarrow> running s" by (simp add: ide_grows_def)
  assume a: "ide_grows run P s t" "ide_grows run P t u"
  have "functions_le P (jump_of s) (jump_of u)" "functions_le P (summary_of s) (summary_of u)"
    "table_le (map_of (es_incoming s)) (map_of (es_incoming u))"
    using a unfolding ide_grows_def by (blast intro: functions_le_trans table_le_trans)+
  moreover have "running s \<and> set (es_queue s) \<subseteq> set (es_queue u) \<and>
      (\<forall>e. jump_of u e \<noteq> jump_of s e \<longrightarrow> e \<in> set (es_queue u))" if u: "running u"
  proof -
    have t: "running t" "set (es_queue t) \<subseteq> set (es_queue u)" "\<forall>e. jump_of u e \<noteq> jump_of t e \<longrightarrow> e \<in> set (es_queue u)"
      using a(2) u by (simp_all add: ide_grows_def)
    then have "running s" "set (es_queue s) \<subseteq> set (es_queue t)" "\<forall>e. jump_of t e \<noteq> jump_of s e \<longrightarrow> e \<in> set (es_queue t)"
      using a(1) by (simp_all add: ide_grows_def)
    with t show ?thesis by (metis subset_iff)
  qed
  moreover have "running u" if "\<not> stoppable (dr_base run)" "running s"
    using a that by (simp add: ide_grows_def)
  moreover have "int (length (es_queue u)) + spent s \<le> int (length (es_queue s)) + spent u"
    using a by (simp add: ide_grows_def)
  ultimately show "ide_grows run P s u" by (simp add: ide_grows_def)
qed

section \<open>Bookkeeping\<close>

text \<open>A bookkeeping operation changes neither the run nor the number of propagations.\<close>

definition bk_keeps :: "('n, 'f, 'k) solver_run \<Rightarrow> ('p, 'n, 'f) bookkeeping \<Rightarrow> ('p, 'n, 'f) bookkeeping res \<Rightarrow> bool" where
  "bk_keeps run bk r \<longleftrightarrow> bk_step run bk r \<and>
     (\<forall>bk'. r = Inr bk' \<longrightarrow> bk_stats bk' propagated_path_edges = bk_stats bk propagated_path_edges)"

lemma stop_run_stats: "stop_run run status r bk = Inr bk' \<Longrightarrow> bk_stats bk' = bk_stats bk"
  by (auto simp: stop_run_def split: if_splits)

lemma timed_check_stats:
  "timed_check run bk = Inr bk' \<Longrightarrow> bk_stats bk' propagated_path_edges = bk_stats bk propagated_path_edges"
  by (auto simp: timed_check_def Let_def bind_res_eq_Inr increment_def observe_def
      split: option.splits if_splits dest!: stop_run_stats)

lemma check_budget_stats:
  "check_budget run q i e force bk = Inr bk' \<Longrightarrow>
   bk_stats bk' propagated_path_edges = bk_stats bk propagated_path_edges"
  by (auto simp: check_budget_def Let_def observe_def
      split: option.splits if_splits dest!: stop_run_stats timed_check_stats)

lemma check_budget_keeps: "bk_keeps run bk (check_budget run q i e force bk)"
  by (simp add: bk_keeps_def check_budget_step check_budget_stats)

text \<open>A recorded propagation is counted, and within the limit while the run goes on.\<close>

definition within :: "('n, 'f, 'k) solver_run \<Rightarrow> int \<Rightarrow> bool" where
  "within run k \<longleftrightarrow> (\<forall>l. so_max_path_edges (sr_options run) = Some l \<longrightarrow> k \<le> max 0 l)"

lemma record_propagation_stats:
  assumes "record_propagation run e k pr no bk = Inr bk'" "bk_status bk = COMPLETE"
  shows "bk_stats bk' propagated_path_edges = bk_stats bk propagated_path_edges + 1"
    and "bk_status bk' = COMPLETE \<Longrightarrow> within run (bk_stats bk' propagated_path_edges)"
proof -
  show "bk_stats bk' propagated_path_edges = bk_stats bk propagated_path_edges + 1"
    using assms
    by (auto simp: record_propagation_def Let_def increment_def split: option.splits if_splits dest!: stop_run_stats)
  show "within run (bk_stats bk' propagated_path_edges)" if "bk_status bk' = COMPLETE"
    using assms that
    by (auto simp: record_propagation_def Let_def increment_def within_def split: option.splits if_splits dest!: stop_run_Inr)
qed

section \<open>What is recorded is derivable\<close>

abbreviation ways :: "('n, 'f, 'k, 'a, 'j, 'v) jump_run \<Rightarrow> ('p, 'n, 'f, 'a, 'j, 'v) ide_problem \<Rightarrow> ('n, 'f) path_edge \<Rightarrow> ('v \<Rightarrow> 'v) \<Rightarrow> bool" where
  "ways run P e \<equiv> travels P (dr_depth run) e"

text \<open>An edge function that is a join of functions of a set.\<close>

definition is_join_of :: "('p, 'n, 'f, 'a, 'j, 'v) ide_problem \<Rightarrow> (('v \<Rightarrow> 'v) \<Rightarrow> bool) \<Rightarrow> ('a, 'j, 'v) edge_function \<Rightarrow> bool" where
  "is_join_of P H f \<longleftrightarrow> edge_ok P f \<and> join_of (join_fun P) H (apply_edge P f)"

text \<open>The functions from the source of a caller into a callee.\<close>

definition ways_in ::
  "('n, 'f, 'k, 'a, 'j, 'v) jump_run \<Rightarrow> ('p, 'n, 'f, 'a, 'j, 'v) ide_problem \<Rightarrow> ('n, 'f) path_edge \<Rightarrow> 'p \<Rightarrow> 'f \<Rightarrow> ('v \<Rightarrow> 'v) \<Rightarrow> bool" where
  "ways_in run P e p d1 g \<longleftrightarrow>
     (\<exists>f h. ValueTransition d1 f \<in> set (de_call P (edge_node e) p (edge_fact e)) \<and> ways run P e h \<and> g = apply_edge P f \<circ> h)"

definition caller_edge :: "('n, 'f, 'e) ide_record \<Rightarrow> ('n, 'f) path_edge" where
  "caller_edge rec = PathEdge (rec_source_node rec) (rec_source_fact rec) (rec_call_node rec) (rec_call_fact rec) (rec_context rec)"

definition return_edge :: "('n, 'f, 'e) ide_record \<Rightarrow> 'f \<Rightarrow> ('n, 'f) path_edge" where
  "return_edge rec d = PathEdge (rec_source_node rec) (rec_source_fact rec) (rec_return_site rec) d (rec_context rec)"

definition record_sound ::
  "('n, 'f, 'k, 'a, 'j, 'v) jump_run \<Rightarrow> ('p, 'n, 'f, 'a, 'j, 'v) ide_problem \<Rightarrow> ('n, 'f) source_key \<Rightarrow>
   ('n, 'f, ('a, 'j, 'v) edge_function) ide_record \<Rightarrow> bool" where
  "record_sound run P key rec \<longleftrightarrow> (case key of (start, d1, kc) \<Rightarrow>
     (\<exists>p. entry_of (net P) p = Inr start \<and> is_call_node (net P) (rec_call_node rec) \<and>
        p \<in> callees_of_call_at (net P) (rec_call_node rec) \<and>
        rec_return_site rec \<in> return_sites_of_call_at (net P) (rec_call_node rec) \<and>
        kc = push_context (dr_depth run) (rec_context rec) (rec_call_node rec) \<and>
        is_join_of P (ways_in run P (caller_edge rec) p d1) (rec_jump rec)))"

definition summary_ok ::
  "('n, 'f, 'k, 'a, 'j, 'v) jump_run \<Rightarrow> ('p, 'n, 'f, 'a, 'j, 'v) ide_problem \<Rightarrow> 'n \<times> 'f \<times> 'n \<times> 'f \<times> 'n call_context option \<Rightarrow>
   ('a, 'j, 'v) edge_function \<Rightarrow> bool" where
  "summary_ok run P key f \<longleftrightarrow> (case key of (sn, sd, x, d, c) \<Rightarrow>
     is_exit_node (net P) x \<and> is_join_of P (ways run P (PathEdge sn sd x d c)) f)"

text \<open>Every recorded caller of a start has received every summary of it.\<close>

definition vpaired :: "('p, 'n, 'f, 'a, 'j, 'v) ide_problem \<Rightarrow> ('p, 'n, 'f, 'a, 'j, 'v) jump_state \<Rightarrow> bool" where
  "vpaired P s \<longleftrightarrow>
     (\<forall>start d1 kc rec x d2 S p d3 k. rec \<in> set (records_of s (start, d1, kc)) \<longrightarrow>
        summary_of s (start, d1, x, d2, kc) = Some S \<longrightarrow> entry_of (net P) p = Inr start \<longrightarrow> x \<in> exits_of (net P) p \<longrightarrow>
        ValueTransition d3 k \<in> set (de_return P (rec_call_node rec) p x (rec_return_site rec) (rec_call_fact rec) d2) \<longrightarrow>
        has_function P (jump_of s) (return_edge rec d3) (apply_edge P k \<circ> (apply_edge P S \<circ> apply_edge P (rec_jump rec))))"

text \<open>The number of terms of the jump functions. When the functions are in normal form, every recorded
  propagation adds a term.\<close>

definition terms_in :: "('p, 'n, 'f, 'a, 'j, 'v) ide_problem \<Rightarrow> ('k \<rightharpoonup> ('a, 'j, 'v) edge_function) \<Rightarrow> int" where
  "terms_in P m = (\<Sum>e\<in>dom m. int (length (joined_terms (de_join P) (the (m e)))))"

definition normal_functions :: "('p, 'n, 'f, 'a, 'j, 'v) ide_problem \<Rightarrow> bool" where
  "normal_functions P \<longleftrightarrow> (\<forall>f. edge_ok P f \<longrightarrow> normal_form (de_semantics P) (de_join P) f)"

lemma terms_in_update:
  assumes "normal_functions P" "finite (dom m)" "edge_ok P g" "\<And>f. m e = Some f \<Longrightarrow> edge_ok P f"
    "\<And>f. m e = Some f \<Longrightarrow> join (de_join P) f g \<noteq> f"
  shows "terms_in P m + 1 \<le> terms_in P (m(e \<mapsto> (case m e of None \<Rightarrow> g | Some f \<Rightarrow> join (de_join P) f g)))"
proof -
  let ?len = "\<lambda>f. int (length (joined_terms (de_join P) f))"
  let ?f' = "case m e of None \<Rightarrow> g | Some f \<Rightarrow> join (de_join P) f g"
  have rest: "(\<Sum>k\<in>dom m - {e}. ?len (the ((m(e \<mapsto> ?f')) k))) = (\<Sum>k\<in>dom m - {e}. ?len (the (m k)))"
    by (rule sum.cong) auto
  have new: "terms_in P (m(e \<mapsto> ?f')) = ?len ?f' + (\<Sum>k\<in>dom m - {e}. ?len (the (m k)))"
    using assms(2) rest by (simp add: terms_in_def sum.insert_remove)
  have g: "normal_form (de_semantics P) (de_join P) g" using assms(1,3) by (simp add: normal_functions_def)
  show ?thesis
  proof (cases "m e")
    case None
    then have "dom m - {e} = dom m" by auto
    moreover have "?len g \<ge> 1" using normal_terms[OF g] by (cases "joined_terms (de_join P) g") auto
    ultimately show ?thesis using new None by (simp add: terms_in_def)
  next
    case (Some f)
    have "terms_in P m = ?len f + (\<Sum>k\<in>dom m - {e}. ?len (the (m k)))"
      using assms(2) Some sum.remove[of "dom m" e "\<lambda>k. ?len (the (m k))"] by (simp add: terms_in_def domI)
    moreover have "?len f < ?len (join (de_join P) f g)"
      using join_grows[of "de_semantics P" "de_join P" f g] g assms(1,4,5) Some by (simp add: normal_functions_def)
    ultimately show ?thesis using new Some by simp
  qed
qed

definition ide_base ::
  "('n, 'f, 'k, 'a, 'j, 'v) jump_run \<Rightarrow> ('p, 'n, 'f, 'a, 'j, 'v) ide_problem \<Rightarrow> ('p, 'n, 'f, 'a, 'j, 'v) jump_state \<Rightarrow> bool" where
  "ide_base run P s \<longleftrightarrow>
     distinct (map fst (es_jumps s)) \<and> (\<forall>e f. jump_of s e = Some f \<longrightarrow> is_join_of P (ways run P e) f) \<and>
     (\<forall>e\<in>set (es_queue s). jump_of s e \<noteq> None) \<and>
     (\<forall>n d. d \<in> set (get_list (es_reached s) n) \<longleftrightarrow> (\<exists>e. jump_of s e \<noteq> None \<and> edge_node e = n \<and> edge_fact e = d)) \<and>
     (\<forall>key rec. rec \<in> set (records_of s key) \<longrightarrow> record_sound run P key rec) \<and>
     (\<forall>key f. summary_of s key = Some f \<longrightarrow> summary_ok run P key f) \<and>
     (\<forall>sn sd x d c. summary_of s (sn, sd, x, d, c) \<noteq> None \<longrightarrow> jump_of s (PathEdge sn sd x d c) \<noteq> None) \<and>
     (running s \<longrightarrow> within (dr_base run) (spent s) \<and> (normal_functions P \<longrightarrow> spent s \<le> terms_in P (jump_of s)))"

text \<open>The invariant. With \<open>tables = None\<close> callers and summaries are paired; with
  \<open>Some (incoming, summaries)\<close> the tables are fixed, which is how a replay sees them.\<close>

definition ide_inv ::
  "('n, 'f, 'k, 'a, 'j, 'v) jump_run \<Rightarrow> ('p, 'n, 'f, 'a, 'j, 'v) ide_problem \<Rightarrow>
   ((('n, 'f) source_key \<times> ('n, 'f, ('a, 'j, 'v) edge_function) ide_record list) list \<times>
    (('n \<times> 'f \<times> 'n \<times> 'f \<times> 'n call_context option) \<times> ('a, 'j, 'v) edge_function) list) option \<Rightarrow>
   ('p, 'n, 'f, 'a, 'j, 'v) jump_state \<Rightarrow> bool" where
  "ide_inv run P tables s \<longleftrightarrow> ide_base run P s \<and>
     (case tables of
        None \<Rightarrow> running s \<longrightarrow> vpaired P s
      | Some (i, t) \<Rightarrow> es_incoming s = i \<and> es_summaries s = t)"

lemma ide_base_jump: "ide_base run P s \<Longrightarrow> jump_of s e = Some f \<Longrightarrow> is_join_of P (ways run P e) f"
  by (simp add: ide_base_def)

lemma join_of_nonempty: "join_of op X x \<Longrightarrow> \<exists>y. X y"
  by (induction rule: join_of.induct) auto

lemma way_exists: "is_join_of P H f \<Longrightarrow> \<exists>h. H h"
  unfolding is_join_of_def by (blast dest: join_of_nonempty)

lemma way_tabulated: "is_join_of P (ways run P e) f \<Longrightarrow> tabulated (erase P) (dr_depth run) e"
  using way_exists[of P "ways run P e"] travels_tabulated by blast

section \<open>propagate\<close>

definition same_functions :: "('p, 'n, 'f, 'e) ide_state \<Rightarrow> ('p, 'n, 'f, 'e) ide_state \<Rightarrow> bool" where
  "same_functions s s' \<longleftrightarrow> es_jumps s' = es_jumps s \<and> es_reached s' = es_reached s \<and>
     es_incoming s' = es_incoming s \<and> es_summaries s' = es_summaries s"

definition same_but_ide_bk ::
  "('n, 'f, 'k, 'e) ide_run \<Rightarrow> ('p, 'n, 'f, 'e) ide_state \<Rightarrow> ('p, 'n, 'f, 'e) ide_state \<Rightarrow> bool" where
  "same_but_ide_bk run s s' \<longleftrightarrow> same_functions s s' \<and> es_queue s' = es_queue s \<and> spent s' = spent s \<and>
     (running s' \<longrightarrow> running s) \<and> (\<not> stoppable (dr_base run) \<longrightarrow> running s \<longrightarrow> running s')"

lemma same_but_ide_bk_inv:
  assumes "same_but_ide_bk run s s'" "ide_inv run P T s"
  shows "ide_inv run P T s'"
proof -
  have f: "es_jumps s' = es_jumps s" "es_reached s' = es_reached s" "es_incoming s' = es_incoming s"
    "es_summaries s' = es_summaries s" "es_queue s' = es_queue s" "spent s' = spent s" and r: "running s' \<Longrightarrow> running s"
    using assms(1) by (simp_all add: same_but_ide_bk_def same_functions_def)
  show ?thesis using assms(2) r unfolding ide_inv_def ide_base_def vpaired_def f by (auto split: option.splits)
qed

lemma same_but_ide_bk_grows: "same_but_ide_bk run s s' \<Longrightarrow> ide_grows run P s s'"
  by (auto simp: ide_grows_def same_but_ide_bk_def same_functions_def)

lemma ide_check_Inr:
  assumes "ide_check run q s = Inr s'"
  shows "same_but_ide_bk run s s'"
proof -
  obtain bk where c: "check_budget (dr_base run) q (es_incoming_total s) (int (length (es_summaries s))) False (es_bk s) = Inr bk"
    and s': "s' = s\<lparr>es_bk := bk\<rparr>" using assms by (auto simp: ide_check_def bind_res_eq_Inr)
  have "bk_keeps (dr_base run) (es_bk s) (Inr bk)" unfolding c[symmetric] by (rule check_budget_keeps)
  then show ?thesis by (simp add: s' bk_keeps_def bk_step_def same_but_ide_bk_def same_functions_def)
qed

lemma ide_check_Inl:
  assumes "ide_check run q s = Inl e"
  shows "limit_error (dr_base run) e"
proof -
  have c: "check_budget (dr_base run) q (es_incoming_total s) (int (length (es_summaries s))) False (es_bk s) = Inl e"
    using assms by (auto simp: ide_check_def bind_res_eq_Inl)
  have "bk_step (dr_base run) (es_bk s) (Inl e)" unfolding c[symmetric] by (rule check_budget_step)
  then show ?thesis by (simp add: bk_step_def)
qed

lemmas ide_budget_Inr = ide_check_Inr[of run "int (length (es_queue s))" s s', folded ide_budget_def] for run s s'
lemmas ide_budget_Inl = ide_check_Inl[of run "int (length (es_queue s))" s e, folded ide_budget_def] for run s e

lemma ide_stop_Inr:
  assumes "ide_stop run name l s = Inr s'"
  shows "same_functions s s' \<and> es_queue s' = es_queue s \<and> spent s' = spent s \<and> \<not> running s'"
proof -
  obtain bk where b: "stop_run (dr_base run) PARTIAL (Exceeded ''IDE'' name l) (es_bk s) = Inr bk"
    and s': "s' = s\<lparr>es_bk := bk\<rparr>" using assms by (auto simp: ide_stop_def bind_res_eq_Inr)
  show ?thesis using stop_run_Inr[OF b] stop_run_stats[OF b] by (simp add: s' same_functions_def)
qed

lemma ide_stop_Inl:
  assumes "ide_stop run name l s = Inl e" "stoppable (dr_base run)"
  shows "limit_error (dr_base run) e"
proof -
  have "stop_run (dr_base run) PARTIAL (Exceeded ''IDE'' name l) (es_bk s) = Inl e"
    using assms(1) by (simp add: ide_stop_def bind_res_eq_Inl)
  then show ?thesis using assms(2) by (rule stop_run_Inl)
qed

text \<open>The outcome of an attempt to queue an edge.\<close>

definition vqueued ::
  "('n, 'f, 'k, 'e) ide_run \<Rightarrow> ('n, 'f) path_edge \<Rightarrow> ('p, 'n, 'f, 'e) ide_state \<Rightarrow> ('p, 'n, 'f, 'e) ide_state \<Rightarrow> bool" where
  "vqueued run e s s' \<longleftrightarrow> same_functions s s' \<and>
     (es_queue s' = es_queue s \<and> spent s \<le> spent s' \<or> es_queue s' = es_queue s @ [e] \<and> spent s' = spent s + 1) \<and>
     (running s' \<longrightarrow> es_queue s' = es_queue s @ [e] \<and> within (dr_base run) (spent s')) \<and>
     (\<not> stoppable (dr_base run) \<longrightarrow> running s')"

lemma ide_enqueue_Inr:
  assumes "ide_enqueue run e kind pr no s = Inr s'" "running s"
  shows "vqueued run e s s'"
proof -
  obtain bk where r: "record_propagation (dr_base run) e kind pr no (es_bk s) = Inr bk"
    and s': "(if bk_status bk \<noteq> COMPLETE then Inr (s\<lparr>es_bk := bk\<rparr>)
             else ide_budget run (s\<lparr>es_bk := bk, es_queue := es_queue s @ [e]\<rparr>)) = Inr s'"
    using assms(1) by (auto simp: ide_enqueue_def bind_res_eq_Inr)
  have "bk_step (dr_base run) (es_bk s) (Inr bk)" unfolding r[symmetric] by (rule record_propagation_step)
  then have b: "\<not> stoppable (dr_base run) \<longrightarrow> bk_status bk = bk_status (es_bk s)"
    by (simp_all add: bk_step_def)
  note st = record_propagation_stats[OF r assms(2)]
  show ?thesis
  proof (cases "bk_status bk = COMPLETE")
    case False
    then have "s' = s\<lparr>es_bk := bk\<rparr>" using s' by simp
    then show ?thesis using False b assms(2) st(1) by (auto simp: vqueued_def same_functions_def)
  next
    case True
    then have "same_but_ide_bk run (s\<lparr>es_bk := bk, es_queue := es_queue s @ [e]\<rparr>) s'"
      using s' by (intro ide_budget_Inr) simp
    then show ?thesis using b True st by (simp add: same_but_ide_bk_def same_functions_def vqueued_def)
  qed
qed

lemma ide_enqueue_Inl:
  assumes "ide_enqueue run e kind pr no s = Inl err"
  shows "limit_error (dr_base run) err"
proof (cases "record_propagation (dr_base run) e kind pr no (es_bk s)")
  case (Inl err')
  have "bk_step (dr_base run) (es_bk s) (Inl err')" unfolding Inl[symmetric] by (rule record_propagation_step)
  then show ?thesis using assms Inl by (simp add: ide_enqueue_def bk_step_def)
next
  case (Inr bk)
  then show ?thesis using assms by (auto simp: ide_enqueue_def split: if_splits dest: ide_budget_Inl)
qed

lemma beyond_stoppable:
  "beyond v (so_max_facts (sr_options run)) \<Longrightarrow> stoppable run"
  "beyond v (so_max_contexts (sr_options run)) \<Longrightarrow> stoppable run"
  by (auto simp: beyond_def stoppable_def split: option.splits)

lemma ide_context_Inr:
  assumes "ide_context run g e k pr no s = Inr s'" "running s"
  shows "vqueued run e s s'"
proof -
  obtain p where p: "procedure_of g (edge_node e) = Inr p"
    using assms by (auto simp: ide_context_def bind_res_eq_Inr)
  let ?c = "set_add p (edge_context e) (es_contexts s)"
  let ?n = "int (length (get_list ?c p))"
  let ?s = "s\<lparr>es_contexts := ?c, es_bk := observe peak_contexts_per_procedure ?n (es_bk s)\<rparr>"
  have sp: "spent ?s = spent s" by (simp add: observe_def)
  show ?thesis
  proof (cases "beyond ?n (so_max_contexts (sr_options (dr_base run)))")
    case True
    then have "ide_stop run ''max_contexts_per_procedure'' (the (so_max_contexts (sr_options (dr_base run)))) ?s = Inr s'"
      using assms p by (simp add: ide_context_def Let_def)
    from ide_stop_Inr[OF this] beyond_stoppable(2)[OF True] sp show ?thesis
      by (simp add: same_functions_def vqueued_def)
  next
    case False
    then have "ide_enqueue run e k pr no ?s = Inr s'" using assms p by (simp add: ide_context_def Let_def)
    from ide_enqueue_Inr[OF this] assms(2) sp show ?thesis by (simp add: vqueued_def same_functions_def)
  qed
qed

lemma ide_context_Inl:
  assumes "ide_context run g e k pr no s = Inl err" "procedure_of g (edge_node e) = Inr p"
  shows "limit_error (dr_base run) err"
  using assms by (auto simp: ide_context_def Let_def split: if_splits
      dest: ide_enqueue_Inl ide_stop_Inl beyond_stoppable)

text \<open>What a propagation does to the state: nothing, when the run is stopped or the jump function
  stays; else the edge has a new jump function and is queued.\<close>

definition new_jump :: "'j \<Rightarrow> ('a, 'j, 'v) edge_function option \<Rightarrow> ('a, 'j, 'v) edge_function \<Rightarrow> ('a, 'j, 'v) edge_function" where
  "new_jump j current g = (case current of None \<Rightarrow> g | Some f \<Rightarrow> join j f g)"

definition vpropagated ::
  "('n, 'f, 'k, 'a, 'j, 'v) jump_run \<Rightarrow> ('p, 'n, 'f, 'a, 'j, 'v) ide_problem \<Rightarrow> ('n, 'f) path_edge \<Rightarrow> ('a, 'j, 'v) edge_function \<Rightarrow>
   ('p, 'n, 'f, 'a, 'j, 'v) jump_state \<Rightarrow> ('p, 'n, 'f, 'a, 'j, 'v) jump_state \<Rightarrow> bool" where
  "vpropagated run P e g s s' \<longleftrightarrow>
     s' = s \<and> (\<not> running s \<or> jump_of s e = Some (new_jump (de_join P) (jump_of s e) g)) \<or>
     running s \<and> jump_of s e \<noteq> Some (new_jump (de_join P) (jump_of s e) g) \<and>
     es_jumps s' = AList.update e (new_jump (de_join P) (jump_of s e) g) (es_jumps s) \<and>
     es_reached s' = set_add (edge_node e) (edge_fact e) (es_reached s) \<and>
     es_incoming s' = es_incoming s \<and> es_summaries s' = es_summaries s \<and>
     (es_queue s' = es_queue s \<and> spent s \<le> spent s' \<or> es_queue s' = es_queue s @ [e] \<and> spent s' = spent s + 1) \<and>
     (running s' \<longrightarrow> es_queue s' = es_queue s @ [e] \<and> within (dr_base run) (spent s')) \<and>
     (\<not> stoppable (dr_base run) \<longrightarrow> running s')"

lemma ide_propagate_Inr:
  assumes "ide_propagate run P k pr no e g s = Inr s'"
  shows "vpropagated run P e g s s'"
proof (cases "running s")
  case False
  then show ?thesis using assms by (simp add: ide_propagate_def vpropagated_def)
next
  case run: True
  show ?thesis
  proof (cases "jump_of s e")
    case None
    let ?r = "set_add (edge_node e) (edge_fact e) (es_reached s)"
    let ?n = "int (length (get_list ?r (edge_node e)))"
    let ?s = "s\<lparr>es_jumps := AList.update e g (es_jumps s), es_reached := ?r, es_bk := observe peak_facts_at_node ?n (es_bk s)\<rparr>"
    have sp: "spent ?s = spent s" by (simp add: observe_def)
    have "vqueued run e ?s s'"
    proof (cases "beyond ?n (so_max_facts (sr_options (dr_base run)))")
      case True
      then have "ide_stop run ''max_facts_per_node'' (the (so_max_facts (sr_options (dr_base run)))) ?s = Inr s'"
        using assms run None by (simp add: ide_propagate_def Let_def)
      from ide_stop_Inr[OF this] beyond_stoppable(1)[OF True] sp show ?thesis by (simp add: vqueued_def)
    next
      case False
      then have "ide_context run (net P) e k pr no ?s = Inr s'" using assms run None by (simp add: ide_propagate_def Let_def)
      then show ?thesis using run by (intro ide_context_Inr) simp_all
    qed
    then show ?thesis using run None sp by (auto simp: vpropagated_def vqueued_def same_functions_def new_jump_def)
  next
    case (Some f)
    let ?j = "join (de_join P) f g"
    let ?s = "s\<lparr>es_jumps := AList.update e ?j (es_jumps s), es_reached := set_add (edge_node e) (edge_fact e) (es_reached s)\<rparr>"
    show ?thesis
    proof (cases "?j = f")
      case True
      then show ?thesis using assms run Some by (simp add: ide_propagate_def Let_def vpropagated_def new_jump_def)
    next
      case False
      then have "ide_enqueue run e k pr no ?s = Inr s'" using assms run Some by (simp add: ide_propagate_def Let_def)
      then have "vqueued run e ?s s'" using run by (intro ide_enqueue_Inr) simp_all
      then show ?thesis using run Some False by (auto simp: vpropagated_def vqueued_def same_functions_def new_jump_def)
    qed
  qed
qed

lemma ide_propagate_Inl:
  assumes "ide_propagate run P k pr no e g s = Inl err" "procedure_of (net P) (edge_node e) = Inr p"
  shows "limit_error (dr_base run) err"
  using assms by (auto simp: ide_propagate_def Let_def split: if_splits option.splits
      dest: ide_context_Inl ide_enqueue_Inl ide_stop_Inl beyond_stoppable)

section \<open>The contract of each step\<close>

abbreviation ide_meets where
  "ide_meets run P tables \<equiv>
     meets (ide_grows run P) (\<lambda>s. running s) (limit_error (dr_base run)) (ide_inv run P tables)"

abbreviation ide_lasting where
  "ide_lasting run P \<equiv> lasting (ide_grows run P) (\<lambda>s. running s)"

abbreviation has where
  "has P s e h \<equiv> has_function P (jump_of s) e h"

lemma lasting_has [intro, simp]: "ide_lasting run P (\<lambda>s. has P s e h)"
  by (auto simp: lasting_def ide_grows_def intro: has_function_le)

lemma lasting_record [intro, simp]: "ide_lasting run P (\<lambda>s. r \<in> set (records_of s k))"
  by (auto simp: lasting_def ide_grows_def dest: table_leD)

lemma lasting_summary_of [intro, simp]: "ide_lasting run P (\<lambda>s. has_function P (summary_of s) k h)"
  by (auto simp: lasting_def ide_grows_def intro: has_function_le)

lemma is_join_of_join:
  assumes "ide_lawful P" "is_join_of P H f" "is_join_of P H g"
  shows "is_join_of P H (join (de_join P) f g)"
proof -
  have e: "edge_ok P f" "edge_ok P g" using assms by (simp_all add: is_join_of_def)
  have "apply_edge P (join (de_join P) f g) = join_fun P (apply_edge P f) (apply_edge P g)"
    by (rule ext) (rule apply_edge_join[OF assms(1) e])
  then show ?thesis using assms e by (auto simp: is_join_of_def intro: join_ok join_of.both)
qed

lemma new_jump_join_of:
  assumes "ide_lawful P" "\<And>f. current = Some f \<Longrightarrow> is_join_of P H f" "is_join_of P H g"
  shows "is_join_of P H (new_jump (de_join P) current g)"
  using assms by (auto simp: new_jump_def intro: is_join_of_join split: option.split)

lemma new_jump_upper:
  assumes "ide_lawful P" "\<And>f. current = Some f \<Longrightarrow> edge_ok P f" "edge_ok P g"
  shows "vle P (apply_edge P g v) (apply_edge P (new_jump (de_join P) current g) v)"
    and "current = Some f \<Longrightarrow> vle P (apply_edge P f v) (apply_edge P (new_jump (de_join P) current g) v)"
  using assms by (auto simp: new_jump_def apply_edge_join vle_join_right split: option.split)

lemma vpropagated_inv:
  assumes lawful: "ide_lawful P" and p: "vpropagated run P e g s s'" and g: "is_join_of P (ways run P e) g"
    and inv: "ide_inv run P T s"
  shows "ide_inv run P T s' \<and> ide_grows run P s s' \<and> (running s' \<longrightarrow> has P s' e (apply_edge P g))"
proof -
  have b: "ide_base run P s" using inv by (simp add: ide_inv_def)
  have old: "is_join_of P (ways run P e) f" if "jump_of s e = Some f" for f
    using ide_base_jump[OF b that] .
  let ?f = "new_jump (de_join P) (jump_of s e) g"
  have fj: "is_join_of P (ways run P e) ?f" using new_jump_join_of[OF lawful old g] .
  have up: "vle P (apply_edge P g v) (apply_edge P ?f v)"
    "jump_of s e = Some f \<Longrightarrow> vle P (apply_edge P f v) (apply_edge P ?f v)" for v f
    using new_jump_upper[OF lawful, of "jump_of s e" g] old g by (auto simp: is_join_of_def)
  show ?thesis
  proof (cases "s' = s")
    case True
    then have "\<not> running s \<or> jump_of s e = Some ?f" using p by (auto simp: vpropagated_def)
    then show ?thesis using True inv up(1) by (auto simp: jumps.grows_refl has_function_def)
  next
    case False
    then have c: "running s" "jump_of s e \<noteq> Some ?f" and f: "es_jumps s' = AList.update e ?f (es_jumps s)"
      "es_incoming s' = es_incoming s" "es_summaries s' = es_summaries s"
      "es_reached s' = set_add (edge_node e) (edge_fact e) (es_reached s)"
      and q: "es_queue s' = es_queue s \<and> spent s \<le> spent s' \<or> es_queue s' = es_queue s @ [e] \<and> spent s' = spent s + 1"
      "running s' \<Longrightarrow> es_queue s' = es_queue s @ [e] \<and> within (dr_base run) (spent s')"
      "\<not> stoppable (dr_base run) \<Longrightarrow> running s'"
      using p by (auto simp: vpropagated_def)
    have j: "jump_of s' = (jump_of s)(e \<mapsto> ?f)" by (simp add: f(1) update_conv')
    have le: "functions_le P (jump_of s) (jump_of s')"
      using up(2) by (auto simp: functions_le_def j)
    have "ide_base run P s'"
      unfolding ide_base_def f(2-4) j
    proof (intro conjI)
      show "distinct (map fst (es_jumps s'))" using b by (simp add: f(1) distinct_update ide_base_def)
      show "\<forall>e' f. ((jump_of s)(e \<mapsto> ?f)) e' = Some f \<longrightarrow> is_join_of P (ways run P e') f"
        using b fj by (simp add: ide_base_def)
      show "\<forall>e'\<in>set (es_queue s'). ((jump_of s)(e \<mapsto> ?f)) e' \<noteq> None" using b q(1) by (auto simp: ide_base_def)
      show "\<forall>n d. d \<in> set (get_list (set_add (edge_node e) (edge_fact e) (es_reached s)) n) \<longleftrightarrow>
          (\<exists>e'. ((jump_of s)(e \<mapsto> ?f)) e' \<noteq> None \<and> edge_node e' = n \<and> edge_fact e' = d)"
        using b by (auto simp: ide_base_def)
      show "\<forall>key rec. rec \<in> set (get_list (map_of (es_incoming s)) key) \<longrightarrow> record_sound run P key rec"
        "\<forall>key f. map_of (es_summaries s) key = Some f \<longrightarrow> summary_ok run P key f"
        using b by (simp_all add: ide_base_def)
      show "\<forall>sn sd x d c. map_of (es_summaries s) (sn, sd, x, d, c) \<noteq> None \<longrightarrow> ((jump_of s)(e \<mapsto> ?f)) (PathEdge sn sd x d c) \<noteq> None"
        using b by (auto simp: ide_base_def)
      show "running s' \<longrightarrow> within (dr_base run) (spent s') \<and>
          (normal_functions P \<longrightarrow> spent s' \<le> terms_in P ((jump_of s)(e \<mapsto> ?f)))"
      proof (intro impI conjI)
        assume r: "running s'"
        then show "within (dr_base run) (spent s')" using q(2) by simp
        assume n: "normal_functions P"
        have "spent s \<le> terms_in P (jump_of s)" using b c(1) n by (simp add: ide_base_def)
        moreover have "spent s' = spent s + 1" using q(1) q(2)[OF r] by auto
        moreover have "terms_in P (jump_of s) + 1 \<le> terms_in P ((jump_of s)(e \<mapsto> ?f))"
          unfolding new_jump_def
          by (rule terms_in_update[OF n finite_dom_map_of])
            (use g old c(2) in \<open>auto simp: is_join_of_def new_jump_def\<close>)
        ultimately show "spent s' \<le> terms_in P ((jump_of s)(e \<mapsto> ?f))" by simp
      qed
    qed
    moreover have "vpaired P s'" if "vpaired P s"
      using that has_function_le[OF le] unfolding vpaired_def f(2,3) by blast
    ultimately have "ide_inv run P T s'"
      using inv c(1) unfolding ide_inv_def f(2,3) by (auto split: option.splits)
    moreover have "ide_grows run P s s'"
      unfolding ide_grows_def using le c q j f(2,3) by auto
    moreover have "has P s' e (apply_edge P g)" using up(1) by (simp add: has_function_def j)
    ultimately show ?thesis by blast
  qed
qed

lemma ide_propagate_meets:
  assumes "ide_wf P" "ide_lawful P" "is_join_of P (ways run P e) g"
  shows "ide_meets run P T (ide_propagate run P k pr no e g) (\<lambda>s. has P s e (apply_edge P g))"
proof (rule meetsI)
  fix s err assume "ide_propagate run P k pr no e g s = Inl err"
  moreover obtain p where "procedure_of (net P) (edge_node e) = Inr p"
    using tabulated_same_procedure[OF assms(1)[unfolded ide_wf_def] way_tabulated[OF assms(3)]] by auto
  ultimately show "limit_error (dr_base run) err" by (rule ide_propagate_Inl)
next
  fix s s' assume "ide_inv run P T s" "ide_propagate run P k pr no e g s = Inr s'"
  then show "ide_inv run P T s' \<and> ide_grows run P s s' \<and> (running s' \<longrightarrow> has P s' e (apply_edge P g))"
    using vpropagated_inv[OF assms(2) ide_propagate_Inr assms(3)] by blast
qed

lemma ide_count_same: "k \<noteq> propagated_path_edges \<Longrightarrow> same_but_ide_bk run s (ide_count k s)"
  by (simp add: same_but_ide_bk_def same_functions_def ide_count_def increment_def)

lemma ide_meets_counted:
  assumes "ide_meets run P T f Q" "k \<noteq> propagated_path_edges"
  shows "ide_meets run P T (\<lambda>s. f (ide_count k s)) Q"
  by (rule jumps.meets_after[OF assms(1)])
     (use same_but_ide_bk_inv same_but_ide_bk_grows ide_count_same[OF assms(2)] in blast)

lemma continue_edge_meets:
  assumes "ide_wf P" "ide_lawful P"
    and "\<And>d f. ValueTransition d f \<in> set ts \<Longrightarrow> is_join_of P (ways run P (target d)) (jump f)"
  shows "ide_meets run P T (continue_edge run P k pr no target jump ts)
    (\<lambda>s. \<forall>t\<in>set ts. has P s (target (vt_fact t)) (apply_edge P (jump (vt_edge t))))"
proof -
  have "ide_meets run P T (continue_edge run P k pr no target jump ts)
      (\<lambda>s. \<forall>t\<in>set (ordered_transitions run ts). has P s (target (vt_fact t)) (apply_edge P (jump (vt_edge t))))"
    unfolding continue_edge_def
  proof (rule jumps.meets_fold)
    fix t assume "t \<in> set (ordered_transitions run ts)"
    then have "ValueTransition (vt_fact t) (vt_edge t) \<in> set ts" by simp
    from assms(3)[OF this]
    show "ide_meets run P T (ide_propagate run P k pr no (target (vt_fact t)) (jump (vt_edge t)))
        (\<lambda>s. has P s (target (vt_fact t)) (apply_edge P (jump (vt_edge t))))"
      by (rule ide_propagate_meets[OF assms(1,2)])
  qed auto
  then show ?thesis by simp
qed

subsection \<open>Composed functions\<close>

lemma compose_way:
  assumes "ide_lawful P" "edge_ok P f" "is_join_of P H g" "\<And>h. H h \<Longrightarrow> H' (apply_edge P f \<circ> h)"
  shows "is_join_of P H' (compose (de_semantics P) f g)"
proof -
  have g: "edge_ok P g" using assms(3) by (simp add: is_join_of_def)
  have "join_of (join_fun P) (\<lambda>h'. \<exists>h. H h \<and> h' = apply_edge P f \<circ> h) (apply_edge P f \<circ> apply_edge P g)"
    using join_of_image[where f = "\<lambda>h. apply_edge P f \<circ> h" and op' = "join_fun P", of "join_fun P" H "apply_edge P g"]
      assms(3) by (simp add: is_join_of_def fun_eq_iff apply_join[OF assms(1,2)])
  then have "join_of (join_fun P) H' (apply_edge P f \<circ> apply_edge P g)"
    by (rule join_of_mono) (use assms(4) in blast)
  then show ?thesis
    using assms(2) g by (simp add: is_join_of_def apply_compose[OF assms(1,2) g] compose_ok)
qed

lemma identity_way: "H id \<Longrightarrow> is_join_of P H IdentityEdge"
proof -
  assume "H id"
  moreover have "apply_edge P IdentityEdge = id" by (simp add: fun_eq_iff)
  ultimately show ?thesis by (auto simp: is_join_of_def intro: join_of.single)
qed

lemma apply_return:
  assumes "ide_lawful P" "edge_ok P k" "edge_ok P S" "edge_ok P f"
  shows "apply_edge P (compose (de_semantics P) (compose (de_semantics P) k S) f) =
    apply_edge P k \<circ> (apply_edge P S \<circ> apply_edge P f)"
proof -
  have "edge_ok P (compose (de_semantics P) k S)" by (rule compose_ok[OF assms(2,3)])
  then show ?thesis
    using assms by (simp add: apply_compose comp_assoc)
qed

lemma return_way:
  assumes lawful: "ide_lawful P" and k: "edge_ok P k" and S: "is_join_of P (ways run P ce) S"
    and f: "is_join_of P (ways_in run P e p d1) f"
    and way: "\<And>g h f. ways run P ce g \<Longrightarrow> ValueTransition d1 f \<in> set (de_call P (edge_node e) p (edge_fact e)) \<Longrightarrow>
      ways run P e h \<Longrightarrow> ways run P te (apply_edge P k \<circ> (g \<circ> (apply_edge P f \<circ> h)))"
  shows "is_join_of P (ways run P te) (compose (de_semantics P) (compose (de_semantics P) k S) f)"
proof -
  have ok: "edge_ok P S" "edge_ok P f" using S f by (simp_all add: is_join_of_def)
  have "join_of (join_fun P) (\<lambda>h. \<exists>g i. ways run P ce g \<and> ways_in run P e p d1 i \<and> h = g \<circ> i)
      (apply_edge P S \<circ> apply_edge P f)"
    by (rule join_of_compose) (use S f in \<open>simp_all add: is_join_of_def travels_join[OF _ lawful]\<close>)
  from join_of_image[where f = "\<lambda>h. apply_edge P k \<circ> h" and op' = "join_fun P", OF this]
  have "join_of (join_fun P)
      (\<lambda>h'. \<exists>h. (\<exists>g i. ways run P ce g \<and> ways_in run P e p d1 i \<and> h = g \<circ> i) \<and> h' = apply_edge P k \<circ> h)
      (apply_edge P k \<circ> (apply_edge P S \<circ> apply_edge P f))"
    by (simp add: fun_eq_iff apply_join[OF lawful k])
  then have "join_of (join_fun P) (ways run P te) (apply_edge P k \<circ> (apply_edge P S \<circ> apply_edge P f))"
    by (rule join_of_mono) (use way in \<open>auto simp: ways_in_def\<close>)
  then show ?thesis
    using k ok by (simp add: is_join_of_def apply_return[OF lawful k ok] compose_ok)
qed

section \<open>Flows within a procedure\<close>

definition vfollowed ::
  "('p, 'n, 'f, 'a, 'j, 'v) ide_problem \<Rightarrow> ('n, 'f) path_edge \<Rightarrow> ('a, 'j, 'v) edge_function \<Rightarrow> 'n \<Rightarrow>
   ('p, 'n, 'f, 'a, 'j, 'v) jump_state \<Rightarrow> bool" where
  "vfollowed P e J m s \<longleftrightarrow> (case e of PathEdge sn sd n d c \<Rightarrow>
     \<forall>t\<in>set (de_normal P n m d). has P s (PathEdge sn sd m (vt_fact t) c) (apply_edge P (vt_edge t) \<circ> apply_edge P J))"

definition vbypassed ::
  "('p, 'n, 'f, 'a, 'j, 'v) ide_problem \<Rightarrow> ('n, 'f) path_edge \<Rightarrow> ('a, 'j, 'v) edge_function \<Rightarrow> 'n \<Rightarrow>
   ('p, 'n, 'f, 'a, 'j, 'v) jump_state \<Rightarrow> bool" where
  "vbypassed P e J r s \<longleftrightarrow> (case e of PathEdge sn sd n d c \<Rightarrow>
     \<forall>t\<in>set (de_call_to_return P n r d). has P s (PathEdge sn sd r (vt_fact t) c) (apply_edge P (vt_edge t) \<circ> apply_edge P J))"

lemma lasting_vfollowed [intro, simp]: "ide_lasting run P (vfollowed P e J m)"
  by (cases e) (simp add: vfollowed_def[abs_def] lasting_ball)

lemma lasting_vbypassed [intro, simp]: "ide_lasting run P (vbypassed P e J r)"
  by (cases e) (simp add: vbypassed_def[abs_def] lasting_ball)

lemma vt_cases: "t \<in> set ts \<Longrightarrow> ValueTransition (vt_fact t) (vt_edge t) \<in> set ts"
  by simp

lemma ide_normal_step_meets:
  assumes wf: "ide_wf P" and lawful: "ide_lawful P" and J: "is_join_of P (ways run P e) J"
    and m: "m \<in> normal_successors (net P) (edge_node e)"
  shows "ide_meets run P T (ide_normal_step run P e J m) (vfollowed P e J m)"
proof -
  obtain sn sd n d c where e: "e = PathEdge sn sd n d c" by (cases e)
  have ok: "edge_ok P J" using J by (simp add: is_join_of_def)
  have "ide_meets run P T (\<lambda>s. continue_edge run P ''normal_flow'' (Some e) (Some (StepNote n m)) (\<lambda>d'. PathEdge sn sd m d' c)
      (\<lambda>f. compose (de_semantics P) f J) (de_normal P n m d) (ide_count normal_flow_steps s))
    (\<lambda>s. \<forall>t\<in>set (de_normal P n m d). has P s (PathEdge sn sd m (vt_fact t) c) (apply_edge P (compose (de_semantics P) (vt_edge t) J)))"
  proof (rule ide_meets_counted[OF continue_edge_meets[OF wf lawful]])
    fix d' f assume t: "ValueTransition d' f \<in> set (de_normal P n m d)"
    show "is_join_of P (ways run P (PathEdge sn sd m d' c)) (compose (de_semantics P) f J)"
      by (rule compose_way[OF lawful transition_ok(1)[OF t] J])
        (use m t in \<open>auto simp: e intro: travels.normal\<close>)
  qed simp
  moreover have "apply_edge P (compose (de_semantics P) (vt_edge t) J) = apply_edge P (vt_edge t) \<circ> apply_edge P J"
    if "t \<in> set (de_normal P n m d)" for t
    by (rule apply_compose[OF lawful transition_ok(1)[OF vt_cases[OF that]] ok])
  ultimately show ?thesis by (simp add: ide_normal_step_def[abs_def] vfollowed_def[abs_def] e cong: ball_cong)
qed

lemma ide_bypass_meets:
  assumes wf: "ide_wf P" and lawful: "ide_lawful P" and J: "is_join_of P (ways run P e) J"
    and n: "is_call_node (net P) (edge_node e)" and r: "r \<in> call_to_return_successors (net P) (edge_node e)"
  shows "ide_meets run P T (ide_bypass run P e J r) (vbypassed P e J r)"
proof -
  obtain sn sd n d c where e: "e = PathEdge sn sd n d c" by (cases e)
  have ok: "edge_ok P J" using J by (simp add: is_join_of_def)
  have "ide_meets run P T (\<lambda>s. continue_edge run P ''call_to_return'' (Some e) (Some (StepNote n r)) (\<lambda>d'. PathEdge sn sd r d' c)
      (\<lambda>f. compose (de_semantics P) f J) (de_call_to_return P n r d) (ide_count call_to_return_steps s))
    (\<lambda>s. \<forall>t\<in>set (de_call_to_return P n r d). has P s (PathEdge sn sd r (vt_fact t) c) (apply_edge P (compose (de_semantics P) (vt_edge t) J)))"
  proof (rule ide_meets_counted[OF continue_edge_meets[OF wf lawful]])
    fix d' f assume t: "ValueTransition d' f \<in> set (de_call_to_return P n r d)"
    show "is_join_of P (ways run P (PathEdge sn sd r d' c)) (compose (de_semantics P) f J)"
      by (rule compose_way[OF lawful transition_ok(4)[OF t] J])
        (use n r t in \<open>auto simp: e intro: travels.bypass\<close>)
  qed simp
  moreover have "apply_edge P (compose (de_semantics P) (vt_edge t) J) = apply_edge P (vt_edge t) \<circ> apply_edge P J"
    if "t \<in> set (de_call_to_return P n r d)" for t
    by (rule apply_compose[OF lawful transition_ok(4)[OF vt_cases[OF that]] ok])
  ultimately show ?thesis by (simp add: ide_bypass_def[abs_def] vbypassed_def[abs_def] e cong: ball_cong)
qed

section \<open>Calls\<close>

lemma ide_key_context:
  assumes "is_join_of P (ways run P (PathEdge sn sd n d c)) f"
  shows "key_context (dr_depth run) c = c"
    and "key_context (dr_depth run) (push_context (dr_depth run) c n') = push_context (dr_depth run) c n'"
  using way_tabulated[OF assms] key_context_edge[of "dr_base run" "erase P" sn sd n d c]
    key_context_push[of "dr_base run" "erase P" sn sd n d c n']
  by (simp_all add: derives_def depth_of_def)

text \<open>A call of a procedure with a fact, as a record describes it.\<close>

definition calls_with ::
  "('n, 'f, 'k, 'a, 'j, 'v) jump_run \<Rightarrow> ('p, 'n, 'f, 'a, 'j, 'v) ide_problem \<Rightarrow> ('n, 'f) path_edge \<Rightarrow> 'p \<Rightarrow> 'n \<Rightarrow> 'f \<Rightarrow>
   'n call_context option \<Rightarrow> ('a, 'j, 'v) edge_function \<Rightarrow> bool" where
  "calls_with run P e p start d1 c' f \<longleftrightarrow>
     is_call_node (net P) (edge_node e) \<and> p \<in> callees_of_call_at (net P) (edge_node e) \<and>
     entry_of (net P) p = Inr start \<and> c' = push_context (dr_depth run) (edge_context e) (edge_node e) \<and>
     is_join_of P (ways_in run P e p d1) f"

lemma return_way_of_call:
  assumes lawful: "ide_lawful P" and call: "calls_with run P (PathEdge sn sd n d c) p start d1 c' f"
    and r: "r \<in> return_sites_of_call_at (net P) n" and x: "x \<in> exits_of (net P) p"
    and S: "is_join_of P (ways run P (PathEdge start d1 x d2 c')) S"
    and k: "ValueTransition d3 k \<in> set (de_return P n p x r d d2)"
  shows "is_join_of P (ways run P (PathEdge sn sd r d3 c)) (compose (de_semantics P) (compose (de_semantics P) k S) f)"
proof (rule return_way[OF lawful transition_ok(3)[OF k] S])
  show "is_join_of P (ways_in run P (PathEdge sn sd n d c) p d1) f" using call by (simp add: calls_with_def)
  fix g h f' assume g: "ways run P (PathEdge start d1 x d2 c') g" and h: "ways run P (PathEdge sn sd n d c) h"
    and f': "ValueTransition d1 f' \<in> set (de_call P (edge_node (PathEdge sn sd n d c)) p (edge_fact (PathEdge sn sd n d c)))"
  show "ways run P (PathEdge sn sd r d3 c) (apply_edge P k \<circ> (g \<circ> (apply_edge P f' \<circ> h)))"
    by (rule travels.return[OF h, where p = p and start = start and ?d1.0 = d1 and x = x and ?d2.0 = d2])
      (use call r x f' g k in \<open>simp_all add: calls_with_def\<close>)
qed

text \<open>The replay of summaries for a caller that is being recorded: the tables are fixed.\<close>

definition vreplayed ::
  "('p, 'n, 'f, 'a, 'j, 'v) ide_problem \<Rightarrow> ('n, 'f) path_edge \<Rightarrow> 'p \<Rightarrow> ('a, 'j, 'v) edge_function \<Rightarrow> 'n \<Rightarrow> 'n \<Rightarrow> 'f \<Rightarrow>
   ('a, 'j, 'v) edge_function option \<Rightarrow> ('p, 'n, 'f, 'a, 'j, 'v) jump_state \<Rightarrow> bool" where
  "vreplayed P e p f r x d2 summary s \<longleftrightarrow> (case (e, summary) of
      (PathEdge sn sd n d c, Some S) \<Rightarrow> (\<forall>t\<in>set (de_return P n p x r d d2).
        has P s (PathEdge sn sd r (vt_fact t) c) (apply_edge P (vt_edge t) \<circ> (apply_edge P S \<circ> apply_edge P f)))
    | _ \<Rightarrow> True)"

lemma lasting_vreplayed [intro, simp]: "ide_lasting run P (vreplayed P e p f r x d2 S)"
  by (cases e; cases S) (simp_all add: vreplayed_def[abs_def] lasting_ball)

lemma ide_replay_fact_meets:
  assumes wf: "ide_wf P" and lawful: "ide_lawful P" and call: "calls_with run P e p start d1 c' f"
    and r: "r \<in> return_sites_of_call_at (net P) (edge_node e)" and x: "x \<in> exits_of (net P) p"
  shows "ide_meets run P (Some (i, t)) (ide_replay_fact run P e p (start, d1, c') f r x d2)
    (vreplayed P e p f r x d2 (map_of t (start, d1, x, d2, c')))"
proof -
  obtain sn sd n d c where e: "e = PathEdge sn sd n d c" by (cases e)
  let ?step = "\<lambda>S. continue_edge run P ''return_flow(summary_replay)'' None (Some (ViaNote p r)) (\<lambda>d'. PathEdge sn sd r d' c)
      (\<lambda>g. compose (de_semantics P) (compose (de_semantics P) g S) f) (de_return P n p x r d d2)"
  have step: "ide_replay_fact run P e p (start, d1, c') f r x d2 s =
      (case map_of t (start, d1, x, d2, c') of None \<Rightarrow> Inr s | Some S \<Rightarrow> ?step S s)"
    if "ide_inv run P (Some (i, t)) s" for s
    using that by (simp add: ide_replay_fact_def e ide_inv_def)
  show ?thesis
  proof (cases "map_of t (start, d1, x, d2, c')")
    case None
    show ?thesis
      by (rule meetsI) (use step None in \<open>auto simp: vreplayed_def e jumps.grows_refl\<close>)
  next
    case (Some S)
    have m: "ide_meets run P (Some (i, t)) (?step S) (vreplayed P e p f r x d2 (Some S))"
      if s: "ide_inv run P (Some (i, t)) s" for s
    proof -
      have S: "is_join_of P (ways run P (PathEdge start d1 x d2 c')) S"
        using s Some by (auto simp: ide_inv_def ide_base_def summary_ok_def)
      then have okS: "edge_ok P S" by (simp add: is_join_of_def)
      have okf: "edge_ok P f" using call by (simp add: calls_with_def is_join_of_def)
      have "ide_meets run P (Some (i, t)) (?step S)
          (\<lambda>s. \<forall>t\<in>set (de_return P n p x r d d2). has P s (PathEdge sn sd r (vt_fact t) c)
             (apply_edge P (compose (de_semantics P) (compose (de_semantics P) (vt_edge t) S) f)))"
        by (rule continue_edge_meets[OF wf lawful])
          (rule return_way_of_call[OF lawful call[unfolded e] r[unfolded e path_edge.sel] x S])
      moreover have "apply_edge P (compose (de_semantics P) (compose (de_semantics P) (vt_edge u) S) f) =
          apply_edge P (vt_edge u) \<circ> (apply_edge P S \<circ> apply_edge P f)" if "u \<in> set (de_return P n p x r d d2)" for u
        by (rule apply_return[OF lawful transition_ok(3)[OF vt_cases[OF that]] okS okf])
      ultimately show ?thesis by (simp add: vreplayed_def[abs_def] e cong: ball_cong)
    qed
    show ?thesis
    proof (rule meetsI)
      fix s err assume s: "ide_inv run P (Some (i, t)) s" "ide_replay_fact run P e p (start, d1, c') f r x d2 s = Inl err"
      show "limit_error (dr_base run) err" by (rule meets_fails[OF m[OF s(1)] s(1)]) (use s step Some in simp)
    next
      fix s s' assume s: "ide_inv run P (Some (i, t)) s" "ide_replay_fact run P e p (start, d1, c') f r x d2 s = Inr s'"
      have "?step S s = Inr s'" using s step Some by simp
      from meetsD[OF m[OF s(1)] s(1) this] Some show "ide_inv run P (Some (i, t)) s' \<and> ide_grows run P s s' \<and>
          (running s' \<longrightarrow> vreplayed P e p f r x d2 (map_of t (start, d1, x, d2, c')) s')" by simp
    qed
  qed
qed

text \<open>A summary whose exit fact has been reached.\<close>

lemma ide_replay_exit_meets:
  assumes wf: "ide_wf P" and lawful: "ide_lawful P" and call: "calls_with run P e p start d1 c' f"
    and r: "r \<in> return_sites_of_call_at (net P) (edge_node e)" and x: "x \<in> exits_of (net P) p"
  shows "ide_meets run P (Some (i, t)) (ide_replay_exit run P e p (start, d1, c') f r x)
    (\<lambda>s. \<forall>d2. vreplayed P e p f r x d2 (map_of t (start, d1, x, d2, c')) s)"
proof -
  let ?fold = "\<lambda>ds. fold_res (ide_replay_fact run P e p (start, d1, c') f r x) (sort_key (sr_fact_key (dr_base run)) ds)"
  have m: "ide_meets run P (Some (i, t)) (?fold ds)
      (\<lambda>s. \<forall>d2\<in>set (sort_key (sr_fact_key (dr_base run)) ds). vreplayed P e p f r x d2 (map_of t (start, d1, x, d2, c')) s)" for ds
    by (rule jumps.meets_fold) (auto intro: ide_replay_fact_meets[OF wf lawful call r x])
  show ?thesis
  proof (rule meetsI)
    fix s err assume s: "ide_inv run P (Some (i, t)) s" "ide_replay_exit run P e p (start, d1, c') f r x s = Inl err"
    show "limit_error (dr_base run) err" by (rule meets_fails[OF m s(1)]) (use s(2) in \<open>simp add: ide_replay_exit_def\<close>)
  next
    fix s s' assume s: "ide_inv run P (Some (i, t)) s" "ide_replay_exit run P e p (start, d1, c') f r x s = Inr s'"
    have "?fold (get_list (es_reached s) x) s = Inr s'" using s(2) by (simp add: ide_replay_exit_def)
    note d = meetsD[OF m s(1) this]
    have "vreplayed P e p f r x d2 (map_of t (start, d1, x, d2, c')) s'" if c: "running s'" for d2
    proof (cases "map_of t (start, d1, x, d2, c')")
      case None
      then show ?thesis by (cases e) (simp add: vreplayed_def)
    next
      case (Some S)
      have b: "ide_base run P s" and t: "es_summaries s = t" using s(1) by (simp_all add: ide_inv_def)
      have "jump_of s (PathEdge start d1 x d2 c') \<noteq> None" using b Some t unfolding ide_base_def by blast
      then have "d2 \<in> set (get_list (es_reached s) x)" using b unfolding ide_base_def by (metis path_edge.sel(3,4))
      then show ?thesis using d(3)[OF c] by simp
    qed
    then show "ide_inv run P (Some (i, t)) s' \<and> ide_grows run P s s' \<and>
        (running s' \<longrightarrow> (\<forall>d2. vreplayed P e p f r x d2 (map_of t (start, d1, x, d2, c')) s'))"
      using d(1,2) by blast
  qed
qed

text \<open>The state in which a new record has been entered.\<close>

lemma vrecord_entered:
  assumes s: "ide_inv run P None s" and call: "calls_with run P e p start d1 c' f"
    and r: "r \<in> return_sites_of_call_at (net P) (edge_node e)" and e: "e = PathEdge sn sd n d c"
    and s1: "s1 = s\<lparr>es_incoming := AList.update (start, d1, c') (add_new (IDERecord sn sd c n d r f) (records_of s (start, d1, c'))) (es_incoming s),
                es_incoming_total := t\<rparr>"
  shows "ide_inv run P (Some (es_incoming s1, es_summaries s)) s1" and "ide_grows run P s s1"
proof -
  have rec: "records_of s1 key = (if key = (start, d1, c') then add_new (IDERecord sn sd c n d r f) (records_of s key) else records_of s key)" for key
    by (simp add: s1 update_conv')
  have new: "record_sound run P (start, d1, c') (IDERecord sn sd c n d r f)"
    using call r by (auto simp: record_sound_def calls_with_def caller_edge_def e)
  have "\<forall>key rec. rec \<in> set (records_of s1 key) \<longrightarrow> record_sound run P key rec"
    using s new by (auto simp: rec ide_inv_def ide_base_def)
  moreover have f: "es_jumps s1 = es_jumps s" "es_queue s1 = es_queue s" "es_reached s1 = es_reached s"
    "es_summaries s1 = es_summaries s" "es_bk s1 = es_bk s" by (simp_all add: s1)
  ultimately have "ide_base run P s1"
    using s unfolding ide_inv_def ide_base_def f by blast
  then show "ide_inv run P (Some (es_incoming s1, es_summaries s)) s1" by (simp add: ide_inv_def s1)
  have "table_le (map_of (es_incoming s)) (map_of (es_incoming s1))"
    by (auto simp: table_le_def rec)
  then show "ide_grows run P s s1" by (simp add: ide_grows_def s1)
qed

lemma vpaired_after_record:
  assumes wf: "ide_wf P" and old: "vpaired P s" and le: "functions_le P (jump_of s) (jump_of s')"
    and tables: "es_incoming s' = AList.update (start, d1, c') (add_new rec0 (records_of s (start, d1, c'))) (es_incoming s)"
      "es_summaries s' = es_summaries s" and rec0: "rec0 = IDERecord sn sd c n d r f"
    and p: "entry_of (net P) p = Inr start"
    and replayed: "\<forall>x\<in>exits_of (net P) p. \<forall>d2.
      vreplayed P (PathEdge sn sd n d c) p f r x d2 (summary_of s (start, d1, x, d2, c')) s'"
  shows "vpaired P s'"
  unfolding vpaired_def
proof (intro allI impI)
  fix start' d1' kc rec x d2 S q d3 k
  assume rec: "rec \<in> set (records_of s' (start', d1', kc))" and S: "summary_of s' (start', d1', x, d2, kc) = Some S"
    and q: "entry_of (net P) q = Inr start'" "x \<in> exits_of (net P) q"
    and d3: "ValueTransition d3 k \<in> set (de_return P (rec_call_node rec) q x (rec_return_site rec) (rec_call_fact rec) d2)"
  consider "start' = start" "d1' = d1" "kc = c'" "rec = rec0" | "rec \<in> set (records_of s (start', d1', kc))"
    using rec by (auto simp: tables update_conv' split: if_splits)
  then show "has P s' (return_edge rec d3) (apply_edge P k \<circ> (apply_edge P S \<circ> apply_edge P (rec_jump rec)))"
  proof cases
    case 1
    then have "q = p" using entry_unique[of "erase P"] wf q(1) p by (auto simp: ide_wf_def)
    then have "vreplayed P (PathEdge sn sd n d c) p f r x d2 (Some S) s'"
      using replayed q(2) S 1 by (metis tables(2))
    then show ?thesis using d3 \<open>q = p\<close> 1(4) by (force simp: vreplayed_def rec0 return_edge_def)
  next
    case 2
    then have "has P s (return_edge rec d3) (apply_edge P k \<circ> (apply_edge P S \<circ> apply_edge P (rec_jump rec)))"
      using old S q d3 unfolding vpaired_def tables by blast
    then show ?thesis by (rule has_function_le[OF le])
  qed
qed

lemma ide_add_incoming_meets:
  assumes wf: "ide_wf P" and lawful: "ide_lawful P" and call: "calls_with run P e p start d1 c' f"
    and r: "r \<in> return_sites_of_call_at (net P) (edge_node e)" and e: "e = PathEdge sn sd n d c"
  shows "ide_meets run P None (ide_add_incoming run P e p (start, d1, c') f r)
    (\<lambda>s. IDERecord sn sd c n d r f \<in> set (records_of s (start, d1, c')))"
proof -
  let ?rec = "IDERecord sn sd c n d r f"
  let ?step = "ide_add_incoming run P e p (start, d1, c') f r"
  let ?i = "\<lambda>s. AList.update (start, d1, c') (add_new ?rec (records_of s (start, d1, c'))) (es_incoming s)"
  let ?s1 = "\<lambda>s. s\<lparr>es_incoming := ?i s, es_incoming_total := es_incoming_total s + 1\<rparr>"
  let ?replay = "fold_res (ide_replay_exit run P e p (start, d1, c') f r) (ordered_exits_of (net P) p)"
  have step: "?step s = bind_res (ide_budget run (ide_count incoming_records (?s1 s))) ?replay"
    if "?rec \<notin> set (records_of s (start, d1, c'))" for s
    using that by (simp add: ide_add_incoming_def Let_def e)
  have replay: "ide_meets run P (Some (i, t)) ?replay
      (\<lambda>s. \<forall>x\<in>set (ordered_exits_of (net P) p). \<forall>d2. vreplayed P e p f r x d2 (map_of t (start, d1, x, d2, c')) s)" for i t
    by (rule jumps.meets_fold)
      (auto intro!: ide_replay_exit_meets[OF wf lawful call r] simp: lasting_def dest: lasting_vreplayed[unfolded lasting_def, rule_format])
  have start: "ide_inv run P (Some (?i s, es_summaries s)) s2 \<and> ide_grows run P s s2"
    if s: "ide_inv run P None s" and s2: "ide_budget run (ide_count incoming_records (?s1 s)) = Inr s2" for s s2
  proof -
    note i1 = vrecord_entered[OF s call r e refl, of "es_incoming_total s + 1"]
    have c: "same_but_ide_bk run (?s1 s) (ide_count incoming_records (?s1 s))" by (rule ide_count_same) simp
    note b = ide_budget_Inr[OF s2]
    have "ide_inv run P (Some (?i s, es_summaries s)) s2"
      using same_but_ide_bk_inv[OF b same_but_ide_bk_inv[OF c i1(1)]] by simp
    then show ?thesis
      using jumps.grows_trans[OF i1(2) jumps.grows_trans[OF same_but_ide_bk_grows[OF c] same_but_ide_bk_grows[OF b]]] by blast
  qed
  show ?thesis
  proof (rule meetsI)
    fix s err assume s: "ide_inv run P None s" and err: "?step s = Inl err"
    have new: "?rec \<notin> set (records_of s (start, d1, c'))"
      using err by (auto simp: ide_add_incoming_def Let_def e)
    show "limit_error (dr_base run) err"
    proof (cases "ide_budget run (ide_count incoming_records (?s1 s))")
      case (Inl err')
      then show ?thesis using err step[OF new] by (auto dest: ide_budget_Inl)
    next
      case (Inr s2)
      have "?replay s2 = Inl err" using err step[OF new] Inr by simp
      then show ?thesis by (rule meets_fails[OF replay conjunct1[OF start[OF s Inr]]])
    qed
  next
    fix s s' assume s: "ide_inv run P None s" and s': "?step s = Inr s'"
    show "ide_inv run P None s' \<and> ide_grows run P s s' \<and>
        (running s' \<longrightarrow> ?rec \<in> set (records_of s' (start, d1, c')))"
    proof (cases "?rec \<in> set (records_of s (start, d1, c'))")
      case True
      then have "s' = s" using s' by (simp add: ide_add_incoming_def Let_def e)
      then show ?thesis using s True by (simp add: jumps.grows_refl)
    next
      case new: False
      then obtain s2 where s2: "ide_budget run (ide_count incoming_records (?s1 s)) = Inr s2"
        and rep: "?replay s2 = Inr s'" using s' step by (auto simp: bind_res_eq_Inr)
      note i3 = start[OF s s2]
      note m = meetsD[OF replay conjunct1[OF i3] rep]
      have g: "ide_grows run P s s'" by (rule jumps.grows_trans[OF conjunct2[OF i3] m(2)])
      have "vpaired P s'" if c: "running s'"
      proof (rule vpaired_after_record[OF wf _ _ _ _ refl])
        have "running s" using g c by (rule jumps.live_before)
        then show "vpaired P s" using s by (simp add: ide_inv_def)
        show "functions_le P (jump_of s) (jump_of s')" using g by (simp add: ide_grows_def)
        show "es_incoming s' = ?i s" "es_summaries s' = es_summaries s"
          using m(1) by (simp_all add: ide_inv_def)
        show "entry_of (net P) p = Inr start" using call by (simp add: calls_with_def)
        show "\<forall>x\<in>exits_of (net P) p. \<forall>d2.
            vreplayed P (PathEdge sn sd n d c) p f r x d2 (summary_of s (start, d1, x, d2, c')) s'"
          using m(3)[OF c] e by simp
      qed
      moreover have "?rec \<in> set (records_of s' (start, d1, c'))"
        using m(1) by (simp add: ide_inv_def update_conv')
      ultimately show ?thesis using m(1) g by (simp add: ide_inv_def)
    qed
  qed
qed

text \<open>What processing leaves of a path edge at a call.\<close>

definition ventered ::
  "('n, 'f, 'k, 'a, 'j, 'v) jump_run \<Rightarrow> ('p, 'n, 'f, 'a, 'j, 'v) ide_problem \<Rightarrow> ('n, 'f) path_edge \<Rightarrow> ('a, 'j, 'v) edge_function \<Rightarrow>
   'n \<Rightarrow> ('f, ('a, 'j, 'v) edge_function) value_transition \<Rightarrow> ('p, 'n, 'f, 'a, 'j, 'v) jump_state \<Rightarrow> bool" where
  "ventered run P e J start t s \<longleftrightarrow> (case e of PathEdge sn sd n d c \<Rightarrow>
     has P s (PathEdge start (vt_fact t) start (vt_fact t) (push_context (dr_depth run) c n)) id \<and>
     (\<forall>r\<in>return_sites_of_call_at (net P) n.
        IDERecord sn sd c n d r (compose (de_semantics P) (vt_edge t) J)
          \<in> set (records_of s (start, vt_fact t, push_context (dr_depth run) c n))))"

lemma lasting_ventered [intro, simp]: "ide_lasting run P (ventered run P e J start t)"
  unfolding ventered_def[abs_def] by (cases e) (auto intro!: lasting_conj lasting_ball lasting_record lasting_has)

lemma ide_call_transition_meets:
  assumes wf: "ide_wf P" and lawful: "ide_lawful P" and J: "is_join_of P (ways run P e) J"
    and n: "is_call_node (net P) (edge_node e)" and p: "p \<in> callees_of_call_at (net P) (edge_node e)" "entry_of (net P) p = Inr start"
    and t: "t \<in> set (de_call P (edge_node e) p (edge_fact e))"
  shows "ide_meets run P None (ide_call_transition run P e J p start t) (ventered run P e J start t)"
proof -
  obtain sn sd n d c where e: "e = PathEdge sn sd n d c" by (cases e)
  let ?c = "push_context (dr_depth run) c n"
  let ?f = "compose (de_semantics P) (vt_edge t) J"
  let ?start = "PathEdge start (vt_fact t) start (vt_fact t) ?c"
  have t': "ValueTransition (vt_fact t) (vt_edge t) \<in> set (de_call P n p d)" using t e by simp
  have f: "is_join_of P (ways_in run P e p (vt_fact t)) ?f"
    by (rule compose_way[OF lawful transition_ok(2)[OF t'] J])
      (use t' in \<open>unfold ways_in_def e path_edge.sel, blast\<close>)
  have call: "calls_with run P e p start (vt_fact t) ?c ?f"
    using n p f by (simp add: calls_with_def e)
  obtain h where h: "ways run P e h" using way_exists[OF J] by blast
  have start: "is_join_of P (ways run P ?start) IdentityEdge"
    by (rule identity_way, rule travels.call[OF h[unfolded e] n[unfolded e path_edge.sel] p[unfolded e path_edge.sel] t'])
  have inc: "ide_meets run P None (ide_add_incoming run P e p (start, vt_fact t, ?c) ?f r)
      (\<lambda>s. IDERecord sn sd c n d r ?f \<in> set (records_of s (start, vt_fact t, ?c)))"
    if "r \<in> return_sites_of_call_at (net P) n" for r
    by (rule ide_add_incoming_meets[OF wf lawful call _ e]) (use that e in simp)
  have id: "apply_edge P IdentityEdge = id" by (simp add: fun_eq_iff)
  have "ide_meets run P None
      (\<lambda>s. bind_res (fold_res (ide_add_incoming run P e p (start, vt_fact t, ?c) ?f) (ordered_return_sites_of_call_at (net P) n) s)
             (ide_propagate run P ''call_flow'' (Some e) (Some (CallNote n p)) ?start IdentityEdge))
      (\<lambda>s. (\<forall>r\<in>set (ordered_return_sites_of_call_at (net P) n).
              IDERecord sn sd c n d r ?f \<in> set (records_of s (start, vt_fact t, ?c))) \<and>
           has P s ?start (apply_edge P IdentityEdge))"
  proof (rule jumps.meets_bind)
    show "ide_meets run P None (fold_res (ide_add_incoming run P e p (start, vt_fact t, ?c) ?f) (ordered_return_sites_of_call_at (net P) n))
      (\<lambda>s. \<forall>r\<in>set (ordered_return_sites_of_call_at (net P) n). IDERecord sn sd c n d r ?f \<in> set (records_of s (start, vt_fact t, ?c)))"
      by (rule jumps.meets_fold) (auto intro: inc)
    show "ide_meets run P None (ide_propagate run P ''call_flow'' (Some e) (Some (CallNote n p)) ?start IdentityEdge)
      (\<lambda>s. has P s ?start (apply_edge P IdentityEdge))"
      by (rule ide_propagate_meets[OF wf lawful start])
  qed (intro lasting_ball lasting_record)
  moreover have "ide_call_transition run P e J p start t =
      (\<lambda>s. bind_res (fold_res (ide_add_incoming run P e p (start, vt_fact t, ?c) ?f) (ordered_return_sites_of_call_at (net P) n) s)
             (ide_propagate run P ''call_flow'' (Some e) (Some (CallNote n p)) ?start IdentityEdge))"
    using ide_key_context(2)[OF J[unfolded e]] by (simp add: fun_eq_iff ide_call_transition_def Let_def e)
  ultimately show ?thesis by (auto simp: ventered_def e id elim: meets_weaken)
qed

definition vcalled ::
  "('n, 'f, 'k, 'a, 'j, 'v) jump_run \<Rightarrow> ('p, 'n, 'f, 'a, 'j, 'v) ide_problem \<Rightarrow> ('n, 'f) path_edge \<Rightarrow> ('a, 'j, 'v) edge_function \<Rightarrow>
   'p \<Rightarrow> ('p, 'n, 'f, 'a, 'j, 'v) jump_state \<Rightarrow> bool" where
  "vcalled run P e J p s \<longleftrightarrow> (case entry_of (net P) p of
      Inl _ \<Rightarrow> False
    | Inr start \<Rightarrow> (\<forall>t\<in>set (de_call P (edge_node e) p (edge_fact e)). ventered run P e J start t s))"

lemma lasting_vcalled [intro, simp]: "ide_lasting run P (vcalled run P e J p)"
  by (cases "entry_of (net P) p") (simp_all add: vcalled_def[abs_def] lasting_def[of _ _ "\<lambda>_. False"] lasting_ball)

lemma ide_call_meets:
  assumes wf: "ide_wf P" and lawful: "ide_lawful P" and J: "is_join_of P (ways run P e) J"
    and n: "is_call_node (net P) (edge_node e)" and p: "p \<in> callees_of_call_at (net P) (edge_node e)"
  shows "ide_meets run P None (ide_call run P e J p) (vcalled run P e J p)"
proof -
  have "sg_wf (net P)" using wf by (simp add: ide_wf_def problem_wf_def)
  then obtain start where start: "entry_of (net P) p = Inr start" using sg_wf_callees[of "net P" p] p by blast
  have "ide_meets run P None
      (\<lambda>s. fold_res (ide_call_transition run P e J p start)
         (ordered_transitions run (de_call P (edge_node e) p (edge_fact e))) (ide_count call_flow_steps s))
      (\<lambda>s. \<forall>t\<in>set (ordered_transitions run (de_call P (edge_node e) p (edge_fact e))). ventered run P e J start t s)"
    by (intro ide_meets_counted jumps.meets_fold)
      (auto intro!: ide_call_transition_meets[OF wf lawful J n p start])
  then show ?thesis using start by (simp add: ide_call_def[abs_def] vcalled_def[abs_def])
qed

definition vcalled_all ::
  "('n, 'f, 'k, 'a, 'j, 'v) jump_run \<Rightarrow> ('p, 'n, 'f, 'a, 'j, 'v) ide_problem \<Rightarrow> ('n, 'f) path_edge \<Rightarrow> ('a, 'j, 'v) edge_function \<Rightarrow>
   ('p, 'n, 'f, 'a, 'j, 'v) jump_state \<Rightarrow> bool" where
  "vcalled_all run P e J s \<longleftrightarrow> (is_call_node (net P) (edge_node e) \<longrightarrow>
     (\<forall>r\<in>call_to_return_successors (net P) (edge_node e). vbypassed P e J r s) \<and>
     (\<forall>p\<in>callees_of_call_at (net P) (edge_node e). vcalled run P e J p s))"

lemma lasting_vcalled_all [intro, simp]: "ide_lasting run P (vcalled_all run P e J)"
  by (cases "is_call_node (net P) (edge_node e)") (simp_all add: vcalled_all_def[abs_def] lasting_ball lasting_conj)

lemma ide_call_part_meets:
  assumes wf: "ide_wf P" and lawful: "ide_lawful P" and J: "is_join_of P (ways run P e) J"
  shows "ide_meets run P None (ide_call_part run P e J) (vcalled_all run P e J)"
proof (cases "is_call_node (net P) (edge_node e)")
  case False
  then show ?thesis using jumps.meets_skip[of run P "ide_inv run P None"]
    by (simp add: ide_call_part_def[abs_def] vcalled_all_def[abs_def])
next
  case n: True
  have "ide_meets run P None
      (\<lambda>s. bind_res (fold_res (ide_bypass run P e J) (ordered_call_to_return_successors (net P) (edge_node e)) s)
         (fold_res (ide_call run P e J) (ordered_callees_of_call_at (net P) (edge_node e))))
      (\<lambda>s. (\<forall>r\<in>set (ordered_call_to_return_successors (net P) (edge_node e)). vbypassed P e J r s) \<and>
           (\<forall>p\<in>set (ordered_callees_of_call_at (net P) (edge_node e)). vcalled run P e J p s))"
    by (intro jumps.meets_bind jumps.meets_fold lasting_ball lasting_vbypassed lasting_vcalled)
      (auto intro!: ide_bypass_meets[OF wf lawful J n] ide_call_meets[OF wf lawful J n])
  then show ?thesis using n by (simp add: ide_call_part_def[abs_def] vcalled_all_def[abs_def])
qed

section \<open>Exits\<close>

text \<open>A new summary and its return flows into the recorded callers.\<close>

lemma record_calls:
  assumes wf: "ide_wf P" and rec: "record_sound run P (sn, sd, c) rec"
    and w: "tabulated (erase P) (dr_depth run) (PathEdge sn sd x d c)" and x: "is_exit_node (net P) x" "procedure_of (net P) x = Inr p"
  shows "calls_with run P (caller_edge rec) p sn sd c (rec_jump rec)" "x \<in> exits_of (net P) p"
    "rec_return_site rec \<in> return_sites_of_call_at (net P) (rec_call_node rec)"
proof -
  have wf': "problem_wf (erase P)" using wf by (simp add: ide_wf_def)
  obtain q where q: "entry_of (net P) q = Inr sn" "is_call_node (net P) (rec_call_node rec)"
    "q \<in> callees_of_call_at (net P) (rec_call_node rec)" "rec_return_site rec \<in> return_sites_of_call_at (net P) (rec_call_node rec)"
    "c = push_context (dr_depth run) (rec_context rec) (rec_call_node rec)"
    "is_join_of P (ways_in run P (caller_edge rec) q sd) (rec_jump rec)"
    using rec by (auto simp: record_sound_def)
  have "procedure_of (net P) sn = Inr q" using q(1) wf' sg_wf_entry by (auto simp: problem_wf_def)
  then have "q = p" using tabulated_same_procedure[OF wf' w] x(2) by simp
  then show "calls_with run P (caller_edge rec) p sn sd c (rec_jump rec)"
    using q by (simp add: calls_with_def caller_edge_def)
  show "x \<in> exits_of (net P) p" using exit_of_procedure[OF wf'] x by simp
  show "rec_return_site rec \<in> return_sites_of_call_at (net P) (rec_call_node rec)" by (rule q(4))
qed

definition vreturned ::
  "('p, 'n, 'f, 'a, 'j, 'v) ide_problem \<Rightarrow> ('n, 'f) path_edge \<Rightarrow> ('a, 'j, 'v) edge_function \<Rightarrow> 'p \<Rightarrow>
   ('n, 'f, ('a, 'j, 'v) edge_function) ide_record \<Rightarrow> ('p, 'n, 'f, 'a, 'j, 'v) jump_state \<Rightarrow> bool" where
  "vreturned P e S p rec s \<longleftrightarrow>
     (\<forall>t\<in>set (de_return P (rec_call_node rec) p (edge_node e) (rec_return_site rec) (rec_call_fact rec) (edge_fact e)).
        has P s (return_edge rec (vt_fact t)) (apply_edge P (vt_edge t) \<circ> (apply_edge P S \<circ> apply_edge P (rec_jump rec))))"

lemma lasting_vreturned [intro, simp]: "ide_lasting run P (vreturned P e S p rec)"
  by (simp add: vreturned_def[abs_def] lasting_ball)

lemma ide_return_meets:
  assumes wf: "ide_wf P" and lawful: "ide_lawful P" and S: "is_join_of P (ways run P (PathEdge sn sd x d c)) S"
    and x: "is_exit_node (net P) x" "procedure_of (net P) x = Inr p" and rec: "record_sound run P (sn, sd, c) rec"
  shows "ide_meets run P T (ide_return run P (PathEdge sn sd x d c) S p rec) (vreturned P (PathEdge sn sd x d c) S p rec)"
proof -
  let ?e = "PathEdge sn sd x d c"
  let ?ts = "de_return P (rec_call_node rec) p x (rec_return_site rec) (rec_call_fact rec) d"
  note call = record_calls[OF wf rec way_tabulated[OF S] x]
  have okS: "edge_ok P S" using S by (simp add: is_join_of_def)
  have okf: "edge_ok P (rec_jump rec)" using call(1) by (simp add: calls_with_def is_join_of_def)
  have "ide_meets run P T
      (\<lambda>s. continue_edge run P ''return_flow'' (Some ?e) (Some (ReturnNote p (rec_return_site rec)))
         (\<lambda>d'. PathEdge (rec_source_node rec) (rec_source_fact rec) (rec_return_site rec) d' (rec_context rec))
         (\<lambda>f. compose (de_semantics P) (compose (de_semantics P) f S) (rec_jump rec)) ?ts (ide_count return_flow_steps s))
      (\<lambda>s. \<forall>t\<in>set ?ts. has P s (PathEdge (rec_source_node rec) (rec_source_fact rec) (rec_return_site rec) (vt_fact t) (rec_context rec))
         (apply_edge P (compose (de_semantics P) (compose (de_semantics P) (vt_edge t) S) (rec_jump rec))))"
    by (rule ide_meets_counted[OF continue_edge_meets[OF wf lawful]])
      (rule return_way_of_call[OF lawful call(1)[unfolded caller_edge_def] call(3,2) S], simp_all)
  moreover have "apply_edge P (compose (de_semantics P) (compose (de_semantics P) (vt_edge t) S) (rec_jump rec)) =
      apply_edge P (vt_edge t) \<circ> (apply_edge P S \<circ> apply_edge P (rec_jump rec))" if "t \<in> set ?ts" for t
    by (rule apply_return[OF lawful transition_ok(3)[OF vt_cases[OF that]] okS okf])
  ultimately show ?thesis
    by (simp add: ide_return_def[abs_def] vreturned_def[abs_def] return_edge_def cong: ball_cong)
qed

lemma vsummary_entered:
  assumes s: "ide_inv run P None s" and S: "is_join_of P (ways run P (PathEdge sn sd n d c)) S"
    and n: "is_exit_node (net P) n" and J: "jump_of s (PathEdge sn sd n d c) \<noteq> None"
    and up: "functions_le P (summary_of s) ((summary_of s)((sn, sd, n, d, c) \<mapsto> S))"
    and s1: "s1 = s\<lparr>es_summaries := AList.update (sn, sd, n, d, c) S (es_summaries s)\<rparr>"
  shows "ide_inv run P (Some (es_incoming s, es_summaries s1)) s1" and "ide_grows run P s s1"
proof -
  have f: "es_jumps s1 = es_jumps s" "es_queue s1 = es_queue s" "es_reached s1 = es_reached s"
    "es_incoming s1 = es_incoming s" "es_bk s1 = es_bk s" by (simp_all add: s1)
  have sum: "summary_of s1 = (summary_of s)((sn, sd, n, d, c) \<mapsto> S)" by (simp add: s1 update_conv')
  have b: "ide_base run P s" using s by (simp add: ide_inv_def)
  have "summary_ok run P (sn, sd, n, d, c) S" using S n by (simp add: summary_ok_def)
  then have "\<forall>key f. summary_of s1 key = Some f \<longrightarrow> summary_ok run P key f"
    using b by (auto simp: sum ide_base_def)
  moreover have "\<forall>sn sd x d c. summary_of s1 (sn, sd, x, d, c) \<noteq> None \<longrightarrow> jump_of s (PathEdge sn sd x d c) \<noteq> None"
    using b J unfolding sum ide_base_def by (metis fun_upd_apply prod.inject)
  ultimately have "ide_base run P s1" using b unfolding ide_base_def f by blast
  then show "ide_inv run P (Some (es_incoming s, es_summaries s1)) s1" by (simp add: ide_inv_def f)
  show "ide_grows run P s s1" using up by (simp add: ide_grows_def f sum)
qed

lemma vpaired_after_summary:
  assumes wf: "ide_wf P" and old: "vpaired P s" and le: "functions_le P (jump_of s) (jump_of s')"
    and tables: "es_incoming s' = es_incoming s" "summary_of s' = (summary_of s)((sn, sd, n, d, c) \<mapsto> S)"
    and p: "procedure_of (net P) n = Inr p"
    and returned: "\<forall>rec\<in>set (records_of s (sn, sd, c)). vreturned P (PathEdge sn sd n d c) S p rec s'"
  shows "vpaired P s'"
  unfolding vpaired_def
proof (intro allI impI)
  fix start d1 kc rec x d2 S' q d3 k
  assume rec: "rec \<in> set (records_of s' (start, d1, kc))" and S': "summary_of s' (start, d1, x, d2, kc) = Some S'"
    and q: "entry_of (net P) q = Inr start" "x \<in> exits_of (net P) q"
    and d3: "ValueTransition d3 k \<in> set (de_return P (rec_call_node rec) q x (rec_return_site rec) (rec_call_fact rec) d2)"
  show "has P s' (return_edge rec d3) (apply_edge P k \<circ> (apply_edge P S' \<circ> apply_edge P (rec_jump rec)))"
  proof (cases "(start, d1, x, d2, kc) = (sn, sd, n, d, c)")
    case True
    then have e: "start = sn" "d1 = sd" "x = n" "d2 = d" "kc = c" "S' = S" using S' by (simp_all add: tables)
    have "q = p" using sg_wf_exits[of "net P" x q] wf q(2) p e by (simp add: ide_wf_def problem_wf_def)
    then show ?thesis using returned rec d3 e by (force simp: tables vreturned_def)
  next
    case False
    then have "summary_of s (start, d1, x, d2, kc) = Some S'" using S' by (simp add: tables fun_upd_apply del: prod.inject)
    then have "has P s (return_edge rec d3) (apply_edge P k \<circ> (apply_edge P S' \<circ> apply_edge P (rec_jump rec)))"
      using old rec q d3 unfolding vpaired_def tables by blast
    then show ?thesis by (rule has_function_le[OF le])
  qed
qed

definition vsummarized ::
  "('p, 'n, 'f, 'a, 'j, 'v) ide_problem \<Rightarrow> ('n, 'f) path_edge \<Rightarrow> ('a, 'j, 'v) edge_function \<Rightarrow>
   ('p, 'n, 'f, 'a, 'j, 'v) jump_state \<Rightarrow> bool" where
  "vsummarized P e J s \<longleftrightarrow> (case e of PathEdge sn sd n d c \<Rightarrow>
     is_exit_node (net P) n \<longrightarrow> has_function P (summary_of s) (sn, sd, n, d, c) (apply_edge P J))"

lemma lasting_vsummarized [intro, simp]: "ide_lasting run P (vsummarized P e J)"
  by (cases e; cases "is_exit_node (net P) (edge_node e)") (simp_all add: vsummarized_def[abs_def])

lemma new_summary_None: "new_summary j current J = None \<Longrightarrow> \<exists>f. current = Some f \<and> join j f J = f"
  by (auto simp: new_summary_def Let_def split: option.splits if_splits)

lemma new_summary_Some: "new_summary j current J = Some S \<Longrightarrow> S = new_jump j current J"
  by (auto simp: new_summary_def new_jump_def Let_def split: option.splits if_splits)

lemma ide_exit_part_meets:
  assumes wf: "ide_wf P" and lawful: "ide_lawful P" and J: "is_join_of P (ways run P e) J"
  shows "meets (ide_grows run P) (\<lambda>s. running s) (limit_error (dr_base run)) (\<lambda>s. ide_inv run P None s \<and> jump_of s e \<noteq> None)
    (ide_exit_part run P e J) (vsummarized P e J)"
proof -
  obtain sn sd n d c where e: "e = PathEdge sn sd n d c" by (cases e)
  let ?ex = "ide_exit_part run P e J"
  have okJ: "edge_ok P J" using J by (simp add: is_join_of_def)
  obtain p where p: "procedure_of (net P) n = Inr p"
    using tabulated_same_procedure[OF wf[unfolded ide_wf_def] way_tabulated[OF J]] e by auto
  have kc: "key_context (dr_depth run) c = c" by (rule ide_key_context(1)[OF J[unfolded e]])
  let ?S = "\<lambda>s. new_summary (de_join P) (summary_of s (sn, sd, n, d, c)) J"
  let ?s1 = "\<lambda>s S. s\<lparr>es_summaries := AList.update (sn, sd, n, d, c) S (es_summaries s)\<rparr>"
  let ?ret = "\<lambda>S s. fold_res (ide_return run P e S p) (sort_key (ide_record_key run) (records_of s (sn, sd, c))) s"
  have step: "?ex s = (if is_exit_node (net P) n then (case ?S s of None \<Rightarrow> Inr s
       | Some S \<Rightarrow> bind_res (ide_budget run (ide_count summary_updates (?s1 s S))) (?ret S)) else Inr s)" for s
    using p by (simp add: ide_exit_part_def e Let_def kc cong: bind_res_cong option.case_cong)
  show ?thesis
  proof (cases "is_exit_node (net P) n")
    case False
    then have "?ex s = Inr s" "vsummarized P e J s" for s
      by (simp_all only: step if_False) (simp_all add: vsummarized_def e)
    then show ?thesis by (intro meetsI) (simp_all add: jumps.grows_refl)
  next
    case n: True
    have ok: "is_join_of P (ways run P e) f" if "ide_inv run P T s" "summary_of s (sn, sd, n, d, c) = Some f" for T s f
      using that by (auto simp: ide_inv_def ide_base_def summary_ok_def e)
    have ret: "ide_meets run P (Some (i, t)) (fold_res (ide_return run P e S p) (sort_key (ide_record_key run) (get_list (map_of i) (sn, sd, c))))
        (\<lambda>s. \<forall>rec\<in>set (sort_key (ide_record_key run) (get_list (map_of i) (sn, sd, c))). vreturned P e S p rec s)"
      if S: "is_join_of P (ways run P e) S" and s0: "ide_inv run P (Some (i, t)) s0" for S i t s0
    proof (rule jumps.meets_fold)
      fix rec assume "rec \<in> set (sort_key (ide_record_key run) (get_list (map_of i) (sn, sd, c)))"
      then have "record_sound run P (sn, sd, c) rec" using s0 by (simp add: ide_inv_def ide_base_def)
      then show "ide_meets run P (Some (i, t)) (ide_return run P e S p rec) (vreturned P e S p rec)"
        unfolding e by (rule ide_return_meets[OF wf lawful S[unfolded e] n p])
    qed auto
    have start: "is_join_of P (ways run P e) S \<and>
        (\<forall>s2. ide_budget run (ide_count summary_updates (?s1 s S)) = Inr s2 \<longrightarrow>
          ide_inv run P (Some (es_incoming s, AList.update (sn, sd, n, d, c) S (es_summaries s))) s2 \<and> ide_grows run P s s2)"
      if s: "ide_inv run P None s" "jump_of s e \<noteq> None" and S: "?S s = Some S" for s S
    proof -
      have Sj: "S = new_jump (de_join P) (summary_of s (sn, sd, n, d, c)) J" by (rule new_summary_Some[OF S])
      have Sok: "is_join_of P (ways run P e) S" unfolding Sj by (rule new_jump_join_of[OF lawful ok[OF s(1)] J])
      have okf: "edge_ok P f" if "summary_of s (sn, sd, n, d, c) = Some f" for f
        using ok[OF s(1) that] by (simp add: is_join_of_def)
      have up: "functions_le P (summary_of s) ((summary_of s)((sn, sd, n, d, c) \<mapsto> S))"
        using new_jump_upper(2)[OF lawful okf okJ, of "summary_of s (sn, sd, n, d, c)"]
        unfolding functions_le_def Sj by auto
      note i1 = vsummary_entered[OF s(1) Sok[unfolded e] n s(2)[unfolded e] up refl]
      have c: "same_but_ide_bk run (?s1 s S) (ide_count summary_updates (?s1 s S))" by (rule ide_count_same) simp
      have "ide_inv run P (Some (es_incoming s, AList.update (sn, sd, n, d, c) S (es_summaries s))) s2 \<and> ide_grows run P s s2"
        if "ide_budget run (ide_count summary_updates (?s1 s S)) = Inr s2" for s2
        using same_but_ide_bk_inv[OF ide_budget_Inr[OF that] same_but_ide_bk_inv[OF c i1(1)]]
          jumps.grows_trans[OF i1(2) jumps.grows_trans[OF same_but_ide_bk_grows[OF c] same_but_ide_bk_grows[OF ide_budget_Inr[OF that]]]]
        by simp
      with Sok show ?thesis by blast
    qed
    show ?thesis
    proof (rule meetsI)
      fix s err assume s: "ide_inv run P None s \<and> jump_of s e \<noteq> None" and err: "?ex s = Inl err"
      obtain S where S: "?S s = Some S" using err n by (auto simp: step split: option.splits)
      have b: "bind_res (ide_budget run (ide_count summary_updates (?s1 s S))) (?ret S) = Inl err"
        using err n S by (simp add: step)
      show "limit_error (dr_base run) err"
      proof (cases "ide_budget run (ide_count summary_updates (?s1 s S))")
        case (Inl err')
        then show ?thesis using b by (auto dest: ide_budget_Inl)
      next
        case (Inr s2)
        have i3: "ide_inv run P (Some (es_incoming s, AList.update (sn, sd, n, d, c) S (es_summaries s))) s2"
          using start[OF _ _ S] s Inr by blast
        then have "es_incoming s2 = es_incoming s" by (simp add: ide_inv_def)
        then show ?thesis using meets_fails[OF ret[OF _ i3] i3] start[OF _ _ S] s b Inr by auto
      qed
    next
      fix s s' assume s: "ide_inv run P None s \<and> jump_of s e \<noteq> None" and s': "?ex s = Inr s'"
      have keep: "jump_of s' e \<noteq> None" if "ide_grows run P s s'"
        using that s unfolding ide_grows_def functions_le_def by (metis not_None_eq)
      show "(ide_inv run P None s' \<and> jump_of s' e \<noteq> None) \<and> ide_grows run P s s' \<and> (running s' \<longrightarrow> vsummarized P e J s')"
      proof (cases "?S s")
        case None
        then have [simp]: "s' = s" using s' n by (simp add: step)
        obtain f where f: "summary_of s (sn, sd, n, d, c) = Some f" "join (de_join P) f J = f"
          using new_summary_None[OF None] by blast
        then have "edge_ok P f" using ok[of None s f] s by (simp add: is_join_of_def)
        then have "vle P (apply_edge P J v) (apply_edge P f v)" for v
          using apply_edge_join[OF lawful _ okJ, of f v] f(2) vle_join_right[OF lawful] by metis
        then show ?thesis using s f by (auto simp: jumps.grows_refl vsummarized_def e has_function_def)
      next
        case (Some S)
        then obtain s2 where s2: "ide_budget run (ide_count summary_updates (?s1 s S)) = Inr s2" and r: "?ret S s2 = Inr s'"
          using s' n by (auto simp: step bind_res_eq_Inr)
        have st: "is_join_of P (ways run P e) S" "ide_inv run P (Some (es_incoming s, AList.update (sn, sd, n, d, c) S (es_summaries s))) s2"
          "ide_grows run P s s2" using start[OF _ _ Some] s s2 by blast+
        have inc: "es_incoming s2 = es_incoming s" using st(2) by (simp add: ide_inv_def)
        note m = meetsD[OF ret[OF st(1,2)] st(2) r[unfolded inc]]
        have g: "ide_grows run P s s'" by (rule jumps.grows_trans[OF st(3) m(2)])
        have t: "es_incoming s' = es_incoming s" "summary_of s' = (summary_of s)((sn, sd, n, d, c) \<mapsto> S)"
          using m(1) by (simp_all add: ide_inv_def update_conv')
        have "vpaired P s'" if c: "running s'"
        proof (rule vpaired_after_summary[OF wf _ _ t p])
          have "running s" using g c by (rule jumps.live_before)
          then show "vpaired P s" using s by (simp add: ide_inv_def)
          show "functions_le P (jump_of s) (jump_of s')" using g by (simp add: ide_grows_def)
          show "\<forall>rec\<in>set (records_of s (sn, sd, c)). vreturned P (PathEdge sn sd n d c) S p rec s'"
            using m(3)[OF c] e by simp
        qed
        moreover have "vsummarized P e J s'"
        proof -
          have "edge_ok P f" if "summary_of s (sn, sd, n, d, c) = Some f" for f
            using ok[of None s f] that s by (simp add: is_join_of_def)
          then have "vle P (apply_edge P J v) (apply_edge P S v)" for v
            using new_jump_upper(1)[OF lawful _ okJ] new_summary_Some[OF Some] by blast
          then show ?thesis by (simp add: vsummarized_def e has_function_def t)
        qed
        ultimately show ?thesis using m(1) g keep[OF g] by (simp add: ide_inv_def)
      qed
    qed
  qed
qed

section \<open>Processing a path edge\<close>

text \<open>A processed path edge has left all its consequences.\<close>

definition vprocessed ::
  "('n, 'f, 'k, 'a, 'j, 'v) jump_run \<Rightarrow> ('p, 'n, 'f, 'a, 'j, 'v) ide_problem \<Rightarrow> ('n, 'f) path_edge \<Rightarrow> ('a, 'j, 'v) edge_function \<Rightarrow>
   ('p, 'n, 'f, 'a, 'j, 'v) jump_state \<Rightarrow> bool" where
  "vprocessed run P e J s \<longleftrightarrow> vcalled_all run P e J s \<and> vsummarized P e J s \<and>
     (\<forall>m\<in>normal_successors (net P) (edge_node e). vfollowed P e J m s)"

lemma lasting_vprocessed [intro, simp]: "ide_lasting run P (vprocessed run P e J)"
  unfolding vprocessed_def[abs_def]
  by (intro lasting_conj lasting_ball lasting_vcalled_all lasting_vsummarized lasting_vfollowed)

lemma ide_grows_known: "ide_grows run P s s' \<Longrightarrow> jump_of s e \<noteq> None \<Longrightarrow> jump_of s' e \<noteq> None"
  unfolding ide_grows_def functions_le_def by (metis not_None_eq)

lemma meets_known:
  assumes "ide_meets run P None f Q"
  shows "meets (ide_grows run P) (\<lambda>s. running s) (limit_error (dr_base run))
    (\<lambda>s. ide_inv run P None s \<and> jump_of s e \<noteq> None) f Q"
proof (rule meetsI)
  fix s err assume "ide_inv run P None s \<and> jump_of s e \<noteq> None" "f s = Inl err"
  then show "limit_error (dr_base run) err" using meets_fails[OF assms] by blast
next
  fix s s' assume s: "ide_inv run P None s \<and> jump_of s e \<noteq> None" "f s = Inr s'"
  note m = meetsD[OF assms conjunct1[OF s(1)] s(2)]
  show "(ide_inv run P None s' \<and> jump_of s' e \<noteq> None) \<and> ide_grows run P s s' \<and> (running s' \<longrightarrow> Q s')"
    using m s(1) ide_grows_known[OF m(2)] by blast
qed

lemma ide_process_meets:
  assumes wf: "ide_wf P" and lawful: "ide_lawful P" and J: "is_join_of P (ways run P e) J"
  shows "meets (ide_grows run P) (\<lambda>s. running s) (limit_error (dr_base run)) (\<lambda>s. ide_inv run P None s \<and> jump_of s e \<noteq> None)
    (ide_process run P e J) (vprocessed run P e J)"
proof -
  have "meets (ide_grows run P) (\<lambda>s. running s) (limit_error (dr_base run)) (\<lambda>s. ide_inv run P None s \<and> jump_of s e \<noteq> None)
      (\<lambda>s. bind_res (ide_call_part run P e J s) (\<lambda>s. bind_res (ide_exit_part run P e J s)
         (fold_res (ide_normal_step run P e J) (ordered_normal_successors (net P) (edge_node e)))))
      (\<lambda>s. vcalled_all run P e J s \<and> vsummarized P e J s \<and>
         (\<forall>m\<in>set (ordered_normal_successors (net P) (edge_node e)). vfollowed P e J m s))"
    by (intro jumps.meets_bind jumps.meets_fold meets_known ide_call_part_meets[OF wf lawful J] ide_exit_part_meets[OF wf lawful J]
        lasting_vcalled_all lasting_vsummarized lasting_vfollowed ide_normal_step_meets[OF wf lawful J]) simp_all
  then show ?thesis by (simp add: ide_process_def[abs_def] vprocessed_def[abs_def])
qed

section \<open>The loop\<close>

definition vseeded :: "('n, 'f, 'k, 'a, 'j, 'v) jump_run \<Rightarrow> ('p, 'n, 'f, 'a, 'j, 'v) ide_problem \<Rightarrow> ('p, 'n, 'f, 'a, 'j, 'v) jump_state \<Rightarrow> bool" where
  "vseeded run P s \<longleftrightarrow> (\<forall>sv\<in>set (de_seeds P).
     has P s (PathEdge (fst (fst sv)) (snd (fst sv)) (fst (fst sv)) (snd (fst sv)) (seed_context (dr_depth run))) id)"

lemma lasting_vseeded [intro, simp]: "ide_lasting run P (vseeded run P)"
  unfolding vseeded_def[abs_def] by (intro lasting_ball lasting_has)

lemma set_ordered_seeds [simp]: "set (ordered_seeds run P) = set (de_seeds P)"
  by (simp add: ordered_seeds_def)

lemma ide_seed_all_meets:
  assumes wf: "ide_wf P" and lawful: "ide_lawful P"
  shows "ide_meets run P None (ide_seed_all run P) (vseeded run P)"
proof -
  have "\<forall>sv\<in>set (de_seeds P). known_node (net P) (fst (fst sv))" "sg_wf (net P)"
    using wf by (auto simp: ide_wf_def problem_wf_def erase_def)
  then have ok: "list_all (\<lambda>sv. is_ok (node_id (net P) (fst (fst sv)))) (de_seeds P)"
    using known_node_id[of "net P"] by (auto simp: list_all_iff)
  let ?e = "\<lambda>sv. PathEdge (fst (fst sv)) (snd (fst sv)) (fst (fst sv)) (snd (fst sv)) (seed_context (dr_depth run))"
  have "ide_meets run P None (fold_res (\<lambda>sv. ide_propagate run P ''seed'' None None (?e sv) IdentityEdge) (ordered_seeds run P))
      (\<lambda>s. \<forall>sv\<in>set (ordered_seeds run P). has P s (?e sv) (apply_edge P IdentityEdge))"
  proof (rule jumps.meets_fold)
    fix sv assume sv: "sv \<in> set (ordered_seeds run P)"
    then have "((fst (fst sv), snd (fst sv)), snd sv) \<in> set (de_seeds P)" by simp
    then have "is_join_of P (ways run P (?e sv)) IdentityEdge" by (intro identity_way travels.seed)
    then show "ide_meets run P None (ide_propagate run P ''seed'' None None (?e sv) IdentityEdge)
        (\<lambda>s. has P s (?e sv) (apply_edge P IdentityEdge))"
      by (rule ide_propagate_meets[OF wf lawful])
  qed auto
  moreover have "apply_edge P IdentityEdge = id" by (simp add: fun_eq_iff)
  ultimately show ?thesis using ok by (simp add: ide_seed_all_def[abs_def] vseeded_def[abs_def])
qed

lemma ide_start_inv: "ide_inv run P None (ide_start run)"
  by (simp add: ide_inv_def ide_base_def vpaired_def ide_start_def bk_new_def within_def terms_in_def)

definition ide_loop_inv ::
  "('n, 'f, 'k, 'a, 'j, 'v) jump_run \<Rightarrow> ('p, 'n, 'f, 'a, 'j, 'v) ide_problem \<Rightarrow> ('p, 'n, 'f, 'a, 'j, 'v) jump_state \<Rightarrow> bool" where
  "ide_loop_inv run P s \<longleftrightarrow> ide_inv run P None s \<and>
     (running s \<longrightarrow> vseeded run P s \<and>
        (\<forall>e J. jump_of s e = Some J \<longrightarrow> e \<notin> set (es_queue s) \<longrightarrow> vprocessed run P e J s))"

lemma ide_seed_all_loop:
  fixes s :: "('p, 'n, 'f, 'a, 'j, 'v) jump_state"
  assumes "ide_wf P" "ide_lawful P" "ide_seed_all run P (ide_start run) = Inr s"
  shows "ide_loop_inv run P s" and "\<not> stoppable (dr_base run) \<Longrightarrow> running s"
proof -
  note m = meetsD[OF ide_seed_all_meets[OF assms(1,2)] ide_start_inv assms(3)]
  have start: "jump_of (ide_start run :: ('p, 'n, 'f, 'a, 'j, 'v) jump_state) e = None"
    "running (ide_start run :: ('p, 'n, 'f, 'a, 'j, 'v) jump_state)" for e
    by (simp_all add: ide_start_def bk_new_def)
  have "e \<in> set (es_queue s)" if "running s" "jump_of s e = Some J" for e J
    using ide_grows_queue(2)[OF m(2) that(1), of e] that(2) start(1)[of e] by auto
  then show "ide_loop_inv run P s" using m(1,3) unfolding ide_loop_inv_def by simp
  show "\<not> stoppable (dr_base run) \<Longrightarrow> running s" using m(2) start(2) by (simp add: ide_grows_def)
qed

lemma vprocessed_tables:
  assumes "same_functions s t"
  shows "vprocessed run P e J t = vprocessed run P e J s" "vseeded run P t = vseeded run P s"
proof -
  have f: "es_jumps t = es_jumps s" "es_incoming t = es_incoming s" "es_summaries t = es_summaries s"
    using assms by (simp_all add: same_functions_def)
  show "vprocessed run P e J t = vprocessed run P e J s"
    unfolding vprocessed_def vcalled_all_def vcalled_def ventered_def vbypassed_def vsummarized_def vfollowed_def f ..
  show "vseeded run P t = vseeded run P s" unfolding vseeded_def f ..
qed

lemma ide_loop_inv_budget:
  assumes inv: "ide_loop_inv run P s" and b: "same_but_ide_bk run s s1"
  shows "ide_loop_inv run P s1" "\<not> stoppable (dr_base run) \<Longrightarrow> running s \<Longrightarrow> running s1"
    "es_queue s1 = es_queue s" "es_jumps s1 = es_jumps s" "spent s1 = spent s"
proof -
  have t: "same_functions s s1" "es_queue s1 = es_queue s" "spent s1 = spent s" "running s1 \<Longrightarrow> running s"
    "\<not> stoppable (dr_base run) \<Longrightarrow> running s \<Longrightarrow> running s1" using b by (simp_all add: same_but_ide_bk_def)
  then have j: "es_jumps s1 = es_jumps s" by (simp add: same_functions_def)
  have i: "ide_inv run P None s1" using same_but_ide_bk_inv[OF b] inv by (simp add: ide_loop_inv_def)
  show "ide_loop_inv run P s1"
    unfolding ide_loop_inv_def vprocessed_tables[OF t(1)] j t(2) using i t(4) inv by (simp add: ide_loop_inv_def)
  show "\<not> stoppable (dr_base run) \<Longrightarrow> running s \<Longrightarrow> running s1" "es_queue s1 = es_queue s"
    "es_jumps s1 = es_jumps s" "spent s1 = spent s" using t j by blast+
qed

lemma ide_turn_loop:
  assumes wf: "ide_wf P" and lawful: "ide_lawful P" and inv: "ide_loop_inv run P s" and q: "es_queue s = e # q" and c: "running s"
  shows "ide_turn run P s = Inl err \<Longrightarrow> limit_error (dr_base run) err"
    and "ide_turn run P s = Inr s2 \<Longrightarrow>
      ide_loop_inv run P s2 \<and> (\<not> stoppable (dr_base run) \<longrightarrow> running s2) \<and>
      int (length (es_queue s2)) + spent s < int (length (es_queue s)) + spent s2"
proof -
  let ?s1 = "s\<lparr>es_queue := q\<rparr>" and ?s2 = "ide_count processed_path_edges (s\<lparr>es_queue := q\<rparr>)"
  have i: "ide_inv run P None s" using inv by (simp add: ide_loop_inv_def)
  then have known: "jump_of s e \<noteq> None" using q by (auto simp: ide_inv_def ide_base_def)
  then obtain J where J: "jump_of s e = Some J" by blast
  have Jw: "is_join_of P (ways run P e) J" using i J by (auto simp: ide_inv_def dest: ide_base_jump)
  have turn: "ide_turn run P s = ide_process run P e J ?s2"
    using J by (simp add: ide_turn_def Let_def q ide_count_def)
  have sf: "same_functions s ?s2" by (simp add: same_functions_def ide_count_def)
  have i2: "ide_inv run P None ?s2 \<and> jump_of ?s2 e \<noteq> None"
  proof -
    have f: "es_jumps ?s2 = es_jumps s" "es_queue ?s2 = q" "es_reached ?s2 = es_reached s"
      "es_incoming ?s2 = es_incoming s" "es_summaries ?s2 = es_summaries s" "spent ?s2 = spent s"
      "bk_status (es_bk ?s2) = bk_status (es_bk s)"
      by (simp_all add: ide_count_def increment_def)
    show ?thesis using i known q unfolding ide_inv_def ide_base_def vpaired_def f by auto
  qed
  note proc = ide_process_meets[OF wf lawful Jw]
  show "limit_error (dr_base run) err" if "ide_turn run P s = Inl err"
    by (rule meets_fails[OF proc i2]) (use that turn in simp)
  show "ide_loop_inv run P s2 \<and> (\<not> stoppable (dr_base run) \<longrightarrow> running s2) \<and>
      int (length (es_queue s2)) + spent s < int (length (es_queue s)) + spent s2" if "ide_turn run P s = Inr s2"
  proof -
    note m = meetsD[OF proc i2 that[unfolded turn]]
    have st: "running ?s2" "spent ?s2 = spent s" "es_queue ?s2 = q" "es_jumps ?s2 = es_jumps s"
      using c by (simp_all add: ide_count_def increment_def)
    have "vseeded run P s2 \<and> (\<forall>e' J'. jump_of s2 e' = Some J' \<longrightarrow> e' \<notin> set (es_queue s2) \<longrightarrow> vprocessed run P e' J' s2)"
      if r: "running s2"
    proof (intro conjI allI impI)
      have keep: "Q s2" if "Q ?s2" "ide_lasting run P Q" for Q
        using that m(2) r unfolding lasting_def by blast
      show "vseeded run P s2"
        by (rule keep) (use inv c vprocessed_tables(2)[OF sf] in \<open>auto simp: ide_loop_inv_def\<close>)
      fix e' J' assume J': "jump_of s2 e' = Some J'" and e': "e' \<notin> set (es_queue s2)"
      have g: "set q \<subseteq> set (es_queue s2)" "jump_of s2 e' = jump_of s e'"
        using ide_grows_queue[OF m(2) r] e' st by auto
      then have old: "jump_of s e' = Some J'" using J' by simp
      show "vprocessed run P e' J' s2"
      proof (cases "e' = e")
        case True
        then show ?thesis using m(3)[OF r] old J by simp
      next
        case False
        then have "e' \<notin> set (es_queue s)" using g(1) e' q by auto
        then have "vprocessed run P e' J' ?s2"
          unfolding vprocessed_tables(1)[OF sf] using inv c old by (simp add: ide_loop_inv_def)
        then show ?thesis by (rule keep) simp
      qed
    qed
    then have "ide_loop_inv run P s2" using m(1) by (simp add: ide_loop_inv_def)
    moreover have "\<not> stoppable (dr_base run) \<longrightarrow> running s2" using m(2) st by (simp add: ide_grows_def)
    moreover have "int (length (es_queue s2)) + spent s < int (length (es_queue s)) + spent s2"
      using m(2) st q by (simp add: ide_grows_def)
    ultimately show ?thesis by blast
  qed
qed

definition ide_loop_result ::
  "('n, 'f, 'k, 'a, 'j, 'v) jump_run \<Rightarrow> ('p, 'n, 'f, 'a, 'j, 'v) ide_problem \<Rightarrow> bool \<Rightarrow> ('p, 'n, 'f, 'a, 'j, 'v) jump_state res \<Rightarrow> bool" where
  "ide_loop_result run P live r \<longleftrightarrow> (case r of
      Inl e \<Rightarrow> limit_error (dr_base run) e
    | Inr s \<Rightarrow> ide_loop_inv run P s \<and> (es_queue s = [] \<or> \<not> running s) \<and> (\<not> stoppable (dr_base run) \<longrightarrow> live \<longrightarrow> running s))"

lemma ide_worklist_result:
  assumes ret: "ide_worklist run P s = Some r" and wf: "ide_wf P" and lawful: "ide_lawful P" and inv: "ide_loop_inv run P s"
  shows "ide_loop_result run P (running s) r"
proof -
  have "ide_wf P \<longrightarrow> ide_lawful P \<longrightarrow> ide_loop_inv run P s \<longrightarrow> ide_loop_result run P (running s) r"
  proof (rule ide_worklist.raw_induct[where P = "\<lambda>run P s r. ide_wf P \<longrightarrow> ide_lawful P \<longrightarrow> ide_loop_inv run P s \<longrightarrow>
        ide_loop_result run P (running s) r", OF _ ret], intro impI, goal_cases)
    case (1 f run P s r)
    note IH = 1(1) and eq = 1(2) and wf = 1(3) and lawful = 1(4) and inv = 1(5)
    show ?case
    proof (cases "es_queue s = [] \<or> \<not> running s")
      case True
      then show ?thesis using eq inv by (auto simp: ide_loop_result_def)
    next
      case False
      then obtain e q where q: "es_queue s = e # q" and c: "running s" by (cases "es_queue s") auto
      show ?thesis
      proof (cases "ide_budget run s")
        case (Inl err)
        then have "r = Inl err" using eq q c by simp
        then show ?thesis using ide_budget_Inl[OF Inl] by (simp add: ide_loop_result_def)
      next
        case (Inr s1)
        note b = ide_loop_inv_budget[OF inv ide_budget_Inr[OF Inr]]
        show ?thesis
        proof (cases "running s1")
          case False
          then have "r = Inr s1" using eq q c Inr by simp
          moreover have "stoppable (dr_base run)" using b(2) c False by blast
          ultimately show ?thesis using b(1) False by (simp add: ide_loop_result_def)
        next
          case c1: True
          note turn = ide_turn_loop[OF wf lawful b(1) b(3)[unfolded q] c1]
          show ?thesis
          proof (cases "ide_turn run P s1")
            case (Inl err)
            then have "r = Inl err" using eq q c c1 \<open>ide_budget run s = Inr s1\<close> by simp
            then show ?thesis using turn(1)[OF Inl] by (simp add: ide_loop_result_def)
          next
            case (Inr s2)
            then have "f run P s2 = Some r" using eq q c c1 \<open>ide_budget run s = Inr s1\<close> by simp
            then have "ide_loop_result run P (running s2) r" using IH wf lawful turn(2)[OF Inr] by blast
            then show ?thesis using turn(2)[OF Inr] by (auto simp: ide_loop_result_def split: sum.splits)
          qed
        qed
      qed
    qed
  qed
  with wf lawful inv show ?thesis by blast
qed

section \<open>The jump functions of a drained run\<close>

lemma vprocessedD:
  assumes v: "vprocessed run P (PathEdge sn sd n d c) J s"
  shows "m \<in> normal_successors (net P) n \<Longrightarrow> ValueTransition d' f \<in> set (de_normal P n m d) \<Longrightarrow>
      has P s (PathEdge sn sd m d' c) (apply_edge P f \<circ> apply_edge P J)"
    and "is_call_node (net P) n \<Longrightarrow> r \<in> call_to_return_successors (net P) n \<Longrightarrow>
      ValueTransition d' f \<in> set (de_call_to_return P n r d) \<Longrightarrow>
      has P s (PathEdge sn sd r d' c) (apply_edge P f \<circ> apply_edge P J)"
    and "is_call_node (net P) n \<Longrightarrow> p \<in> callees_of_call_at (net P) n \<Longrightarrow> entry_of (net P) p = Inr start \<Longrightarrow>
      ValueTransition d' f \<in> set (de_call P n p d) \<Longrightarrow>
      has P s (PathEdge start d' start d' (push_context (dr_depth run) c n)) id"
    and "is_call_node (net P) n \<Longrightarrow> p \<in> callees_of_call_at (net P) n \<Longrightarrow> entry_of (net P) p = Inr start \<Longrightarrow>
      ValueTransition d' f \<in> set (de_call P n p d) \<Longrightarrow> r \<in> return_sites_of_call_at (net P) n \<Longrightarrow>
      IDERecord sn sd c n d r (compose (de_semantics P) f J)
        \<in> set (records_of s (start, d', push_context (dr_depth run) c n))"
    and "is_exit_node (net P) n \<Longrightarrow> has_function P (summary_of s) (sn, sd, n, d, c) (apply_edge P J)"
proof -
  have p: "vcalled_all run P (PathEdge sn sd n d c) J s" "vsummarized P (PathEdge sn sd n d c) J s"
    "\<forall>m\<in>normal_successors (net P) n. vfollowed P (PathEdge sn sd n d c) J m s"
    using v by (simp_all add: vprocessed_def)
  show "has P s (PathEdge sn sd m d' c) (apply_edge P f \<circ> apply_edge P J)"
    if "m \<in> normal_successors (net P) n" "ValueTransition d' f \<in> set (de_normal P n m d)"
    using bspec[OF bspec[OF p(3) that(1), unfolded vfollowed_def, simplified] that(2)] by simp
  show "has_function P (summary_of s) (sn, sd, n, d, c) (apply_edge P J)" if "is_exit_node (net P) n"
    using p(2) that by (simp add: vsummarized_def)
  assume "is_call_node (net P) n"
  then have q: "\<forall>r\<in>call_to_return_successors (net P) n. vbypassed P (PathEdge sn sd n d c) J r s"
    "\<forall>p\<in>callees_of_call_at (net P) n. vcalled run P (PathEdge sn sd n d c) J p s"
    using p(1) by (simp_all add: vcalled_all_def)
  show "has P s (PathEdge sn sd r d' c) (apply_edge P f \<circ> apply_edge P J)"
    if "r \<in> call_to_return_successors (net P) n" "ValueTransition d' f \<in> set (de_call_to_return P n r d)"
    using bspec[OF bspec[OF q(1) that(1), unfolded vbypassed_def, simplified] that(2)] by simp
  assume e: "p \<in> callees_of_call_at (net P) n" "entry_of (net P) p = Inr start" "ValueTransition d' f \<in> set (de_call P n p d)"
  have "\<forall>t\<in>set (de_call P n p d). ventered run P (PathEdge sn sd n d c) J start t s"
    using bspec[OF q(2) e(1)] e(2) by (simp add: vcalled_def)
  from bspec[OF this e(3)] have t: "ventered run P (PathEdge sn sd n d c) J start (ValueTransition d' f) s" .
  then show "has P s (PathEdge start d' start d' (push_context (dr_depth run) c n)) id"
    by (simp add: ventered_def)
  show "IDERecord sn sd c n d r (compose (de_semantics P) f J) \<in> set (records_of s (start, d', push_context (dr_depth run) c n))"
    if "r \<in> return_sites_of_call_at (net P) n"
    using t that by (simp add: ventered_def)
qed

lemma vpairedD:
  "vpaired P s \<Longrightarrow> rec \<in> set (records_of s (start, d1, kc)) \<Longrightarrow> summary_of s (start, d1, x, d2, kc) = Some S \<Longrightarrow>
   entry_of (net P) p = Inr start \<Longrightarrow> x \<in> exits_of (net P) p \<Longrightarrow>
   ValueTransition d3 k \<in> set (de_return P (rec_call_node rec) p x (rec_return_site rec) (rec_call_fact rec) d2) \<Longrightarrow>
   has P s (return_edge rec d3) (apply_edge P k \<circ> (apply_edge P S \<circ> apply_edge P (rec_jump rec)))"
  unfolding vpaired_def by blast

lemma drained_processed:
  assumes inv: "ide_loop_inv run P s" and q: "es_queue s = []" and c: "running s" and e: "has P s e h"
  obtains J where "jump_of s e = Some J" "\<And>v. vle P (h v) (apply_edge P J v)" "vprocessed run P e J s"
proof -
  obtain J where J: "jump_of s e = Some J" "\<And>v. vle P (h v) (apply_edge P J v)"
    using e unfolding has_function_def by blast
  moreover have "vprocessed run P e J s" using inv c q J(1) by (simp add: ide_loop_inv_def)
  ultimately show thesis by (rule that)
qed

lemma drained_upper:
  assumes wf: "ide_wf P" and lawful: "ide_lawful P" and inv: "ide_loop_inv run P s" and q: "es_queue s = []" and c: "running s"
  shows "ways run P e h \<Longrightarrow> has P s e h"
proof (induction rule: travels.induct)
  case (seed n d v)
  have "vseeded run P s" using inv c by (simp add: ide_loop_inv_def)
  from bspec[OF this[unfolded vseeded_def] seed] show ?case by (simp add: id_def)
next
  case (normal sn sd n d c' h m d' f)
  obtain J where "jump_of s (PathEdge sn sd n d c') = Some J"
    and J: "\<And>v. vle P (h v) (apply_edge P J v)" "vprocessed run P (PathEdge sn sd n d c') J s"
    by (rule drained_processed[OF inv q c normal.IH]) blast
  show ?case
    by (rule has_function_weaken[OF vprocessedD(1)[OF J(2) normal.hyps(2,3)]])
      (simp add: apply_mono[OF lawful transition_ok(1)[OF normal.hyps(3)] J(1)])
next
  case (bypass sn sd n d c' h r d' f)
  obtain J where "jump_of s (PathEdge sn sd n d c') = Some J"
    and J: "\<And>v. vle P (h v) (apply_edge P J v)" "vprocessed run P (PathEdge sn sd n d c') J s"
    by (rule drained_processed[OF inv q c bypass.IH]) blast
  show ?case
    by (rule has_function_weaken[OF vprocessedD(2)[OF J(2) bypass.hyps(2-4)]])
      (simp add: apply_mono[OF lawful transition_ok(4)[OF bypass.hyps(4)] J(1)])
next
  case (call sn sd n d c' h p start d' f)
  obtain J where "jump_of s (PathEdge sn sd n d c') = Some J" "\<And>v. vle P (h v) (apply_edge P J v)"
    and J: "vprocessed run P (PathEdge sn sd n d c') J s"
    by (rule drained_processed[OF inv q c call.IH]) blast
  show ?case by (rule vprocessedD(3)[OF J call.hyps(2-5)])
next
  case (return sn sd n d c' h p start d1 f r x d2 g d3 k)
  let ?kc = "push_context (dr_depth run) c' n"
  have b: "ide_base run P s" "vpaired P s" using inv c by (simp_all add: ide_loop_inv_def ide_inv_def)
  obtain J where J: "jump_of s (PathEdge sn sd n d c') = Some J" "\<And>v. vle P (h v) (apply_edge P J v)"
    "vprocessed run P (PathEdge sn sd n d c') J s"
    by (rule drained_processed[OF inv q c return.IH(1)]) blast
  obtain G where "jump_of s (PathEdge start d1 x d2 ?kc) = Some G"
    and G: "\<And>v. vle P (g v) (apply_edge P G v)" "vprocessed run P (PathEdge start d1 x d2 ?kc) G s"
    by (rule drained_processed[OF inv q c return.IH(2)]) blast
  have okJ: "edge_ok P J" and okf: "edge_ok P f" and okk: "edge_ok P k"
    using ide_base_jump[OF b(1) J(1)] transition_ok(2)[OF return.hyps(5)] transition_ok(3)[OF return.hyps(9)]
    by (simp_all add: is_join_of_def)
  note rec = vprocessedD(4)[OF J(3) return.hyps(2-6)]
  have "is_exit_node (net P) x"
    using sg_wf_is_exit[of "net P" x] wf return.hyps(8) unfolding ide_wf_def problem_wf_def by auto
  from vprocessedD(5)[OF G(2) this] obtain S where S: "summary_of s (start, d1, x, d2, ?kc) = Some S"
    "\<And>v. vle P (apply_edge P G v) (apply_edge P S v)"
    unfolding has_function_def by blast
  have le: "vle P (apply_edge P k (g (apply_edge P f (h v)))) (apply_edge P k (apply_edge P S (apply_edge P f (apply_edge P J v))))" for v
  proof -
    have "vle P (apply_edge P f (h v)) (apply_edge P f (apply_edge P J v))" by (rule apply_mono[OF lawful okf J(2)])
    then have "vle P (g (apply_edge P f (h v))) (g (apply_edge P f (apply_edge P J v)))"
      by (rule travels_mono[OF return.hyps(7) lawful])
    also have "vle P (g (apply_edge P f (apply_edge P J v))) (apply_edge P S (apply_edge P f (apply_edge P J v)))"
      by (rule vle_trans[OF G(1) S(2)])
    finally (vle_trans) show ?thesis by (rule apply_mono[OF lawful okk])
  qed
  have "has P s (PathEdge sn sd r d3 c') (apply_edge P k \<circ> (apply_edge P S \<circ> (apply_edge P f \<circ> apply_edge P J)))"
    using vpairedD[OF b(2) rec S(1) return.hyps(4,8), of d3 k] return.hyps(9)
    by (simp add: return_edge_def apply_compose[OF lawful okf okJ])
  then show ?case by (rule has_function_weaken) (simp add: le)
qed

end
