(* ===== verification/IdeResults.thy ===== *)
theory IdeResults
  imports IdeCorrectness IfdsResults
begin

text \<open>
  Correctness of the values that \<^verbatim>\<open>IDESolver.solve\<close> of \<^verbatim>\<open>analysis/ifds/core/solver.py\<close> returns. The
  values of the sources are joins of values that runs bring into them, and at the fixed
  point their least upper bounds (\<open>source_loop_exact\<close>); so a complete result has, at every node, the least
  upper bound of the values of all runs of the program (\<open>ide_solution_exact\<close>).
\<close>

section \<open>The seeds\<close>

lemma key_context_seed [simp]: "key_context depth (seed_context depth) = seed_context depth"
  by (simp add: key_context_def seed_context_def)

lemma map_of_AList_update [simp]: "map_of (AList.update k v m) = (map_of m)(k \<mapsto> v)"
  by (rule ext) (simp add: update_conv)

text \<open>Joins over a table: every entry is a join of the values added at its key, and above all of them.\<close>

definition tabulates ::
  "('p, 'n, 'f, 'a, 'j, 'v) ide_problem \<Rightarrow> ('k \<rightharpoonup> 'v) \<Rightarrow> ('k \<Rightarrow> 'v \<Rightarrow> bool) \<Rightarrow> bool" where
  "tabulates P m X \<longleftrightarrow>
     (\<forall>k v. m k = Some v \<longrightarrow> join_of (join_values P) (X k) v) \<and>
     (\<forall>k x. X k x \<longrightarrow> (\<exists>v. m k = Some v \<and> vle P x v))"

lemma tabulates_empty: "(\<And>k x. \<not> X k x) \<Longrightarrow> tabulates P Map.empty X"
  by (simp add: tabulates_def)

lemma tabulates_add:
  assumes lawful: "ide_lawful P" and m: "tabulates P m X"
    and Y: "\<And>k' x. Y k' x \<longleftrightarrow> X k' x \<or> (k' = k \<and> x = v)"
  shows "tabulates P (join_into P k v m) Y"
  unfolding tabulates_def
proof (intro conjI allI impI)
  fix k' w assume w: "join_into P k v m k' = Some w"
  have old: "join_of (join_values P) (Y k') u" if "m k' = Some u" for u
    using m that join_of_mono[of "join_values P" "X k'" u "Y k'"] Y unfolding tabulates_def by blast
  show "join_of (join_values P) (Y k') w"
  proof (cases "k' = k")
    case True
    have new: "join_of (join_values P) (Y k') v" using Y True by (intro join_of.single) simp
    show ?thesis
    proof (cases "m k")
      case None
      then show ?thesis using w True new by (simp add: join_into_def)
    next
      case (Some u)
      then show ?thesis using w True new old[of u] by (auto simp: join_into_def intro: join_of.both)
    qed
  next
    case False
    then show ?thesis using w old by (simp add: join_into_def)
  qed
next
  fix k' x assume "Y k' x"
  then consider "X k' x" | "k' = k" "x = v" using Y by blast
  then show "\<exists>w. join_into P k v m k' = Some w \<and> vle P x w"
  proof cases
    case 1
    then obtain u where u: "m k' = Some u" "vle P x u" using m unfolding tabulates_def by blast
    then show ?thesis by (cases "k' = k") (auto simp: join_into_def intro: vle_trans)
  next
    case 2
    then show ?thesis
      by (cases "m k") (auto simp: join_into_def vle_join_right[OF lawful])
  qed
qed

text \<open>The value of a key is the least upper bound.\<close>

lemma tabulates_lub:
  assumes lawful: "ide_lawful P" and m: "tabulates P m X" and k: "m k = Some v"
  shows "X k x \<Longrightarrow> vle P x v" and "(\<And>x. X k x \<Longrightarrow> vle P x u) \<Longrightarrow> vle P v u" and "\<exists>x. X k x"
proof -
  have j: "join_of (join_values P) (X k) v" using m k unfolding tabulates_def by blast
  show "X k x \<Longrightarrow> vle P x v" using m k unfolding tabulates_def by fastforce
  show "(\<And>x. X k x \<Longrightarrow> vle P x u) \<Longrightarrow> vle P v u" using join_of_upper[OF lawful j] .
  show "\<exists>x. X k x" using join_of_nonempty[OF j] .
qed

lemma tabulates_dom: "tabulates P m X \<Longrightarrow> m k \<noteq> None \<longleftrightarrow> (\<exists>x. X k x)"
  unfolding tabulates_def using join_of_nonempty by fastforce

definition seed_key :: "int option \<Rightarrow> ('n \<times> 'f) \<times> 'v \<Rightarrow> ('n, 'f) source_key" where
  "seed_key depth sv = (fst (fst sv), snd (fst sv), seed_context depth)"

lemma add_seed_value_map:
  "map_of (add_seed_value run P sv m) = join_into P (seed_key (dr_depth run) sv) (snd sv) (map_of m)"
  by (cases sv) (auto simp: add_seed_value_def source_key_def seed_key_def join_into_def Let_def split: option.splits)

lemma seed_values_tabulate:
  assumes lawful: "ide_lawful P"
  shows "tabulates P (map_of (seed_values run P)) (\<lambda>k x. \<exists>sv\<in>set (de_seeds P). k = seed_key (dr_depth run) sv \<and> x = snd sv)"
proof -
  have "tabulates P (map_of (fold (add_seed_value run P) svs m)) (\<lambda>k x. X k x \<or> (\<exists>sv\<in>set svs. k = seed_key (dr_depth run) sv \<and> x = snd sv))"
    if "tabulates P (map_of m) X" for svs m X
    using that
  proof (induction svs arbitrary: m X)
    case (Cons sv svs)
    let ?Y = "\<lambda>k x. X k x \<or> (k = seed_key (dr_depth run) sv \<and> x = snd sv)"
    have "tabulates P (map_of (add_seed_value run P sv m)) ?Y"
      unfolding add_seed_value_map by (rule tabulates_add[OF lawful Cons.prems]) simp
    from Cons.IH[OF this] show ?case by (simp add: disj_assoc)
  qed simp
  from this[of "[]" "\<lambda>_ _. False" "ordered_seeds run P"] show ?thesis
    by (simp add: seed_values_def tabulates_empty)
qed

section \<open>The values of the sources\<close>

type_synonym ('n, 'f, 'v) source_values = "('n, 'f) source_key \<rightharpoonup> 'v"

abbreviation brought :: "('n, 'f, 'k, 'a, 'j, 'v) jump_run \<Rightarrow> ('p, 'n, 'f, 'a, 'j, 'v) ide_problem \<Rightarrow> ('n, 'f) source_key \<Rightarrow> 'v \<Rightarrow> bool" where
  "brought run P k \<equiv> join_of (join_values P) (enters P (dr_depth run) k)"

definition sources_sound ::
  "('n, 'f, 'k, 'a, 'j, 'v) jump_run \<Rightarrow> ('p, 'n, 'f, 'a, 'j, 'v) ide_problem \<Rightarrow> ('n, 'f, 'v) source_values \<Rightarrow> bool" where
  "sources_sound run P \<sigma> \<longleftrightarrow> (\<forall>k v. \<sigma> k = Some v \<longrightarrow> brought run P k v)"

lemma record_caller_key:
  assumes "record_sound run P key rec"
  shows "source_key run (rec_source_node rec) (rec_source_fact rec) (rec_context rec) =
    (rec_source_node rec, rec_source_fact rec, rec_context rec)"
proof -
  obtain p d1 where "is_join_of P (ways_in run P (caller_edge rec) p d1) (rec_jump rec)"
    using assms by (auto simp: record_sound_def split: prod.splits)
  then obtain h where "ways run P (caller_edge rec) h" unfolding ways_in_def by (blast dest: way_exists)
  then have "derives (dr_base run) (erase P) (caller_edge rec)"
    by (simp add: derives_def depth_of_def travels_tabulated)
  from key_context_edge[OF this[unfolded caller_edge_def]] show ?thesis by (simp add: source_key_def depth_of_def)
qed

lemma record_brings:
  assumes lawful: "ide_lawful P" and rec: "record_sound run P key rec"
    and w: "brought run P (rec_source_node rec, rec_source_fact rec, rec_context rec) w"
  shows "brought run P key (apply_edge P (rec_jump rec) w)"
proof -
  obtain start d1 kc where key: "key = (start, d1, kc)" by (cases key) auto
  obtain p where p: "entry_of (net P) p = Inr start" "is_call_node (net P) (rec_call_node rec)"
    "p \<in> callees_of_call_at (net P) (rec_call_node rec)"
    "kc = push_context (dr_depth run) (rec_context rec) (rec_call_node rec)"
    "is_join_of P (ways_in run P (caller_edge rec) p d1) (rec_jump rec)"
    "return_sites_of_call_at (net P) (rec_call_node rec) \<noteq> {}"
    using rec by (auto simp: record_sound_def key)
  let ?X = "enters P (dr_depth run) (rec_source_node rec, rec_source_fact rec, rec_context rec)"
  have "join_of (join_values P) (\<lambda>v. \<exists>g x. ways_in run P (caller_edge rec) p d1 g \<and> ?X x \<and> v = g x) (apply_edge P (rec_jump rec) w)"
  proof (rule join_of_apply[where F = "ways_in run P (caller_edge rec) p d1" and X = ?X and
        f = "apply_edge P (rec_jump rec)" and x = w])
    show "join_of (join_fun P) (ways_in run P (caller_edge rec) p d1) (apply_edge P (rec_jump rec))"
      using p(5) by (simp add: is_join_of_def)
    show "g (join_values P x y) = join_values P (g x) (g y)" if "ways_in run P (caller_edge rec) p d1 g" for g x y
      using that by (auto simp: ways_in_def apply_join[OF lawful transition_ok(2)] travels_join[OF _ lawful])
    show "join_of (join_values P) ?X w" by (rule w)
  qed
  then show ?thesis
  proof (rule join_of_mono)
    fix v assume "\<exists>g x. ways_in run P (caller_edge rec) p d1 g \<and> ?X x \<and> v = g x"
    then obtain f h x where f: "ValueTransition d1 f \<in> set (de_call P (rec_call_node rec) p (rec_call_fact rec))"
      and h: "ways run P (caller_edge rec) h" and x: "?X x" and v: "v = apply_edge P f (h x)"
      by (auto simp: ways_in_def caller_edge_def)
    show "enters P (dr_depth run) key v"
      unfolding key v p(4) by (rule enters.call[OF x h[unfolded caller_edge_def] p(2,3,1) f p(6)])
  qed
qed

lemma resolve_sound:
  assumes lawful: "ide_lawful P" and base: "ide_base run P s" and seeds: "sources_sound run P seeds" and \<sigma>: "sources_sound run P \<sigma>"
    and v: "resolve run P s seeds \<sigma> key = Some v"
  shows "brought run P key v"
proof -
  have step: "brought run P key w" if "resolve_record run P \<sigma> rec acc = Some w" "record_sound run P key rec"
    "\<And>u. acc = Some u \<Longrightarrow> brought run P key u" for rec acc w
  proof -
    let ?k = "(rec_source_node rec, rec_source_fact rec, rec_context rec)"
    show ?thesis
    proof (cases "\<sigma> ?k")
      case None
      then show ?thesis using that(1,3) record_caller_key[OF that(2)] by (simp add: resolve_record_def)
    next
      case (Some u)
      then have b: "brought run P key (apply_edge P (rec_jump rec) u)"
        using record_brings[OF lawful that(2)] \<sigma> unfolding sources_sound_def by blast
      have "w = (case acc of None \<Rightarrow> apply_edge P (rec_jump rec) u
          | Some x \<Rightarrow> join_values P x (apply_edge P (rec_jump rec) u))"
        using that(1) record_caller_key[OF that(2)] Some by (simp add: resolve_record_def Let_def split: option.splits)
      then show ?thesis using b that(3) by (auto intro: join_of.both split: option.splits)
    qed
  qed
  have "brought run P key w" if "fold (resolve_record run P \<sigma>) recs acc = Some w" "\<forall>rec\<in>set recs. record_sound run P key rec"
    "\<And>u. acc = Some u \<Longrightarrow> brought run P key u" for recs acc w
    using that
  proof (induction recs arbitrary: acc)
    case (Cons rec recs)
    show ?case
    proof (rule Cons.IH[of "resolve_record run P \<sigma> rec acc"])
      show "fold (resolve_record run P \<sigma>) recs (resolve_record run P \<sigma> rec acc) = Some w" using Cons.prems(1) by simp
      show "\<forall>rec\<in>set recs. record_sound run P key rec" using Cons.prems(2) by simp
      show "brought run P key u" if "resolve_record run P \<sigma> rec acc = Some u" for u
        by (rule step[OF that]) (use Cons.prems(2,3) in auto)
    qed
  qed simp
  from this[OF v[unfolded resolve_def]] show ?thesis
    using base seeds unfolding ide_base_def sources_sound_def by simp
qed

text \<open>The value of a source is above its seed and above what its callers bring.\<close>

lemma resolve_upper:
  assumes lawful: "ide_lawful P" and base: "ide_base run P s"
  shows "seeds key = Some x \<Longrightarrow> \<exists>v. resolve run P s seeds \<sigma> key = Some v \<and> vle P x v"
    and "rec \<in> set (records_of s key) \<Longrightarrow> \<sigma> (rec_source_node rec, rec_source_fact rec, rec_context rec) = Some w \<Longrightarrow>
      \<exists>v. resolve run P s seeds \<sigma> key = Some v \<and> vle P (apply_edge P (rec_jump rec) w) v"
proof -
  have keep: "\<exists>v. fold (resolve_record run P \<sigma>) recs acc = Some v \<and> vle P x v" if "\<exists>u. acc = Some u \<and> vle P x u" for recs acc x
    using that
  proof (induction recs arbitrary: acc)
    case (Cons rec recs)
    have "\<exists>u. resolve_record run P \<sigma> rec acc = Some u \<and> vle P x u"
      using Cons.prems by (auto simp: resolve_record_def Let_def intro: vle_trans split: option.splits)
    then show ?case using Cons.IH by simp
  qed simp
  show "seeds key = Some x \<Longrightarrow> \<exists>v. resolve run P s seeds \<sigma> key = Some v \<and> vle P x v"
    unfolding resolve_def by (rule keep) simp
  assume rec: "rec \<in> set (records_of s key)" and w: "\<sigma> (rec_source_node rec, rec_source_fact rec, rec_context rec) = Some w"
  have sound: "record_sound run P key rec" using base rec unfolding ide_base_def by blast
  have "\<exists>v. fold (resolve_record run P \<sigma>) recs acc = Some v \<and> vle P (apply_edge P (rec_jump rec) w) v"
    if "rec \<in> set recs" for recs acc
    using that
  proof (induction recs arbitrary: acc)
    case (Cons r recs)
    show ?case
    proof (cases "r = rec")
      case True
      have "\<exists>u. resolve_record run P \<sigma> rec acc = Some u \<and> vle P (apply_edge P (rec_jump rec) w) u"
        using w record_caller_key[OF sound] vle_join_right[OF lawful]
        by (auto simp: resolve_record_def Let_def split: option.splits)
      then show ?thesis using keep True by simp
    qed (use Cons in simp)
  qed simp
  then show "\<exists>v. resolve run P s seeds \<sigma> key = Some v \<and> vle P (apply_edge P (rec_jump rec) w) v"
    unfolding resolve_def using rec by simp
qed

section \<open>The iteration over the sources\<close>

definition settled ::
  "('n, 'f, 'k::linorder, 'a, 'j, 'v) jump_run \<Rightarrow> ('p, 'n, 'f, 'a, 'j, 'v) ide_problem \<Rightarrow> ('p, 'n, 'f, 'a, 'j, 'v) jump_state \<Rightarrow>
   ('n, 'f, 'v) source_values \<Rightarrow> ('n, 'f) source_key list \<Rightarrow> ('n, 'f, 'v) source_values \<Rightarrow> bool" where
  "settled run P s seeds keys \<sigma> \<longleftrightarrow>
     (\<forall>k\<in>set keys. resolve run P s seeds \<sigma> k = None \<or> \<sigma> k = resolve run P s seeds \<sigma> k)"

lemma settledD:
  "settled run P s seeds keys \<sigma> \<Longrightarrow> k \<in> set keys \<Longrightarrow> resolve run P s seeds \<sigma> k = Some v \<Longrightarrow> \<sigma> k = Some v"
  unfolding settled_def by force

lemma sweep_sound:
  assumes lawful: "ide_lawful P" and base: "ide_base run P s" and seeds: "sources_sound run P seeds" and \<sigma>: "sources_sound run P \<sigma>"
  shows "sources_sound run P (fst (sweep run P s seeds keys \<sigma>))"
proof -
  have "sources_sound run P (fst (fold (update_source run P s seeds) keys sc))" if "sources_sound run P (fst sc)" for sc
    using that
  proof (induction keys arbitrary: sc)
    case (Cons k keys)
    have "sources_sound run P (fst (update_source run P s seeds k sc))"
      using Cons.prems resolve_sound[OF lawful base seeds Cons.prems, of k]
      by (auto simp: update_source_def sources_sound_def split: option.splits)
    then show ?case using Cons.IH by simp
  qed simp
  then show ?thesis using \<sigma> by (simp add: sweep_def)
qed

lemma sweep_settled:
  assumes "sweep run P s seeds keys \<sigma> = (\<sigma>', False)"
  shows "\<sigma>' = \<sigma>" "settled run P s seeds keys \<sigma>"
proof -
  have mark: "snd (fold (update_source run P s seeds) keys sc)" if "snd sc" for keys sc
    using that by (induction keys arbitrary: sc) (auto simp: update_source_def split: option.splits)
  have "fst r = fst sc \<and> settled run P s seeds keys (fst sc)"
    if "fold (update_source run P s seeds) keys sc = r" "\<not> snd r" for keys sc r
    using that
  proof (induction keys arbitrary: sc)
    case (Cons k keys)
    have "\<not> snd (update_source run P s seeds k sc)"
      using Cons.prems mark[of "update_source run P s seeds k sc" keys] by auto
    then have "update_source run P s seeds k sc = sc"
      "resolve run P s seeds (fst sc) k = None \<or> fst sc k = resolve run P s seeds (fst sc) k"
      by (auto simp: update_source_def split: option.splits if_splits)
    then show ?case using Cons by (simp add: settled_def)
  qed (simp add: settled_def)
  from this[of keys "(\<sigma>, False)" "(\<sigma>', False)"] show "\<sigma>' = \<sigma>" "settled run P s seeds keys \<sigma>"
    using assms by (simp_all add: sweep_def)
qed

lemma same_but_ide_bk_trans: "same_but_ide_bk run s t \<Longrightarrow> same_but_ide_bk run t u \<Longrightarrow> same_but_ide_bk run s u"
  unfolding same_but_ide_bk_def same_functions_def by (elim conjE, intro conjI; metis)

lemma same_but_ide_bk_refl: "same_but_ide_bk run s s"
  by (simp add: same_but_ide_bk_def same_functions_def)

lemma same_but_ide_bk_resolve: "same_but_ide_bk run s t \<Longrightarrow> resolve run' P' t = resolve run' P' s"
  by (simp add: fun_eq_iff resolve_def same_but_ide_bk_def same_functions_def)

definition source_result ::
  "('n, 'f, 'k::linorder, 'a, 'j, 'v) jump_run \<Rightarrow> ('p, 'n, 'f, 'a, 'j, 'v) ide_problem \<Rightarrow> ('n, 'f, 'v) source_values \<Rightarrow>
   ('n, 'f) source_key list \<Rightarrow> ('p, 'n, 'f, 'a, 'j, 'v) jump_state \<Rightarrow>
   (('p, 'n, 'f, 'a, 'j, 'v) jump_state \<times> ('n, 'f, 'v) source_values) res \<Rightarrow> bool" where
  "source_result run P seeds keys s r \<longleftrightarrow> (case r of
      Inl e \<Rightarrow> limit_error (dr_base run) e
    | Inr (s', \<sigma>) \<Rightarrow> same_but_ide_bk run s s' \<and> sources_sound run P \<sigma> \<and> (running s' \<longrightarrow> settled run P s seeds keys \<sigma>))"

lemma source_loop_result:
  assumes ret: "source_loop run P seeds keys s \<sigma> = Some r" and lawful: "ide_lawful P" and base: "ide_base run P s"
    and seeds: "sources_sound run P seeds" and \<sigma>: "sources_sound run P \<sigma>"
  shows "source_result run P seeds keys s r"
proof -
  have "ide_lawful P \<longrightarrow> (\<forall>s0. same_but_ide_bk run s0 s \<longrightarrow> ide_base run P s0 \<longrightarrow> sources_sound run P seeds \<longrightarrow> sources_sound run P \<sigma> \<longrightarrow>
      source_result run P seeds keys s0 r)"
  proof (rule source_loop.raw_induct[where P = "\<lambda>run P seeds keys s \<sigma> r. ide_lawful P \<longrightarrow> (\<forall>s0. same_but_ide_bk run s0 s \<longrightarrow>
        ide_base run P s0 \<longrightarrow> sources_sound run P seeds \<longrightarrow> sources_sound run P \<sigma> \<longrightarrow> source_result run P seeds keys s0 r)",
        OF _ ret], intro impI allI, goal_cases)
    case (1 f run P seeds keys s \<sigma> r s0)
    note IH = 1(1) and eq = 1(2) and lawful = 1(3) and s0 = 1(4) and base = 1(5) and seeds = 1(6) and \<sigma> = 1(7)
    show ?case
    proof (cases "running s")
      case False
      then show ?thesis using eq s0 \<sigma> by (auto simp: source_result_def)
    next
      case c: True
      show ?thesis
      proof (cases "ide_check run 0 s")
        case (Inl e)
        then have "r = Inl e" using eq c by simp
        then show ?thesis using ide_check_Inl[OF Inl] by (simp add: source_result_def)
      next
        case (Inr s1)
        have s1: "same_but_ide_bk run s0 s1" using ide_check_Inr[OF Inr] s0 same_but_ide_bk_trans by blast
        obtain \<sigma>1 changed where sw: "sweep run P s1 seeds keys \<sigma> = (\<sigma>1, changed)" by (cases "sweep run P s1 seeds keys \<sigma>")
        have sw0: "sweep run P s0 seeds keys \<sigma> = (\<sigma>1, changed)"
          using sw unfolding sweep_def update_source_def[abs_def] same_but_ide_bk_resolve[OF s1, of run P] .
        have \<sigma>1: "sources_sound run P \<sigma>1" using sweep_sound[OF lawful base seeds \<sigma>, of keys] sw0 by simp
        show ?thesis
        proof (cases changed)
          case True
          then have "f run P seeds keys s1 \<sigma>1 = Some r" using eq c Inr sw by simp
          then show ?thesis using IH lawful s1 base seeds \<sigma>1 by blast
        next
          case False
          then have "r = Inr (s1, \<sigma>1)" using eq c Inr sw by simp
          then show ?thesis using s1 \<sigma>1 sweep_settled[of run P s0 seeds keys \<sigma> \<sigma>1] sw0 False
            by (simp add: source_result_def)
        qed
      qed
    qed
  qed
  then show ?thesis using lawful base seeds \<sigma> same_but_ide_bk_refl by blast
qed

text \<open>At the fixed point every value that a run brings into a source is below the value of the source.\<close>

lemma record_key: "rec \<in> set (records_of s k) \<Longrightarrow> k \<in> fst ` set (es_incoming s)"
  by (cases "map_of (es_incoming s) k") (auto simp: get_list_def dest: map_of_SomeD intro: rev_image_eqI)

lemma settled_upper:
  assumes wf: "ide_wf P" and lawful: "ide_lawful P"
    and inv: "ide_loop_inv run P s" and q: "es_queue s = []" and c: "running s"
    and st: "settled run P s (map_of (seed_values run P)) (source_keys run (seed_values run P) s) \<sigma>"
  shows "enters P (dr_depth run) k w \<Longrightarrow> \<exists>v. \<sigma> k = Some v \<and> vle P w v"
proof (induction rule: enters.induct)
  case (seed n d v)
  let ?k = "(n, d, seed_context (dr_depth run))" and ?m = "map_of (seed_values run P)"
  have base: "ide_base run P s" using inv by (simp add: ide_loop_inv_def ide_inv_def)
  have "\<exists>sv\<in>set (de_seeds P). ?k = seed_key (dr_depth run) sv \<and> v = snd sv"
    using seed by (auto simp: seed_key_def intro!: bexI[of _ "((n, d), v)"])
  then obtain u where u: "?m ?k = Some u" "vle P v u"
    using seed_values_tabulate[OF lawful, of run] unfolding tabulates_def by blast
  have "?k \<in> set (source_keys run (seed_values run P) s)"
    using map_of_SomeD[OF u(1)] by (auto simp: source_keys_def intro: rev_image_eqI)
  moreover obtain x where x: "resolve run P s ?m \<sigma> ?k = Some x" "vle P u x"
    using resolve_upper(1)[where seeds = ?m and \<sigma> = \<sigma>, OF lawful base u(1)] by blast
  ultimately have "\<sigma> ?k = Some x" by (intro settledD[OF st])
  then show ?case using vle_trans[OF u(2) x(2)] by blast
next
  case (call sn sd c' w n d h p start d' f)
  let ?k = "(start, d', push_context (dr_depth run) c' n)" and ?m = "map_of (seed_values run P)"
  have base: "ide_base run P s" using inv by (simp add: ide_loop_inv_def ide_inv_def)
  obtain v where v: "\<sigma> (sn, sd, c') = Some v" "vle P w v" using call.IH by blast
  obtain J where J: "jump_of s (PathEdge sn sd n d c') = Some J" "\<And>v. vle P (h v) (apply_edge P J v)"
    "vprocessed run P (PathEdge sn sd n d c') J s"
    by (rule drained_processed[OF inv q c drained_upper[OF wf lawful inv q c call.hyps(2)]]) blast
  obtain r where r: "r \<in> return_sites_of_call_at (net P) n" using call.hyps(7) by blast
  let ?rec = "IDERecord sn sd c' n d r (compose (de_semantics P) f J)"
  have rec: "?rec \<in> set (records_of s ?k)" by (rule vprocessedD(4)[OF J(3) call.hyps(3-6) r])
  have okf: "edge_ok P f" and okJ: "edge_ok P J"
    using transition_ok(2)[OF call.hyps(6)] ide_base_jump[OF base J(1)] by (simp_all add: is_join_of_def)
  have "vle P (h w) (apply_edge P J v)" using travels_mono[OF call.hyps(2) lawful v(2)] J(2) by (rule vle_trans)
  then have le: "vle P (apply_edge P f (h w)) (apply_edge P (rec_jump ?rec) v)"
    by (simp add: apply_compose[OF lawful okf okJ] apply_mono[OF lawful okf])
  have "?k \<in> set (source_keys run (seed_values run P) s)"
    using record_key[OF rec] by (simp add: source_keys_def)
  moreover obtain x where x: "resolve run P s ?m \<sigma> ?k = Some x" "vle P (apply_edge P (rec_jump ?rec) v) x"
    using resolve_upper(2)[where seeds = ?m and \<sigma> = \<sigma>, OF lawful base rec, of v] v(1) by auto
  ultimately have "\<sigma> ?k = Some x" by (intro settledD[OF st])
  then show ?case using vle_trans[OF le x(2)] by blast
qed

section \<open>The tables of the result\<close>

lemma tabulates_refine:
  assumes m: "tabulates P m X" and sound: "\<And>k x. X k x \<Longrightarrow> join_of (join_values P) (Y k) x"
    and upper: "\<And>k y. Y k y \<Longrightarrow> \<exists>x. X k x \<and> vle P y x"
  shows "tabulates P m Y"
  unfolding tabulates_def
proof (intro conjI allI impI)
  fix k v assume "m k = Some v"
  then have "join_of (join_values P) (X k) v" using m unfolding tabulates_def by blast
  then have "join_of (join_values P) (join_of (join_values P) (Y k)) v" by (rule join_of_mono) (rule sound)
  then show "join_of (join_values P) (Y k) v" by (rule join_of_flat)
next
  fix k y assume "Y k y"
  then obtain x where x: "X k x" "vle P y x" using upper by blast
  then obtain v where "m k = Some v" "vle P x v" using m unfolding tabulates_def by blast
  then show "\<exists>v. m k = Some v \<and> vle P y v" using vle_trans[OF x(2)] by (intro exI[of _ v]) simp
qed

definition flat :: "('k \<rightharpoonup> ('c \<rightharpoonup> 'v)) \<Rightarrow> 'k \<times> 'c \<rightharpoonup> 'v" where
  "flat t = (\<lambda>(k, c). case t k of None \<Rightarrow> None | Some m \<Rightarrow> m c)"

type_synonym ('n, 'f, 'a, 'j, 'v) jump_entry = "('n, 'f) path_edge \<times> ('a, 'j, 'v) edge_function"

lemma flat_join_into:
  "flat (t(k \<mapsto> join_into P c v (case t k of None \<Rightarrow> Map.empty | Some m \<Rightarrow> m))) = join_into P (k, c) v (flat t)"
proof
  fix kc show "flat (t(k \<mapsto> join_into P c v (case t k of None \<Rightarrow> Map.empty | Some m \<Rightarrow> m))) kc = join_into P (k, c) v (flat t) kc"
    by (cases kc; cases "t k") (simp_all add: flat_def join_into_def)
qed

lemma add_edge_value_tables:
  "fst (add_edge_value run P \<sigma> ej t) =
     (case edge_value run P \<sigma> ej of None \<Rightarrow> fst t | Some v \<Rightarrow> join_into P (edge_node (fst ej), edge_fact (fst ej)) v (fst t))"
  "flat (fst (snd (add_edge_value run P \<sigma> ej t))) =
     (case edge_value run P \<sigma> ej of
        None \<Rightarrow> flat (fst (snd t))
      | Some v \<Rightarrow> join_into P ((edge_node (fst ej), edge_fact (fst ej)), edge_context (fst ej)) v (flat (fst (snd t))))"
  by (cases t; cases "edge_value run P \<sigma> ej"; simp add: add_edge_value_def Let_def flat_join_into)+

lemma tabulates_fold:
  assumes lawful: "ide_lawful P"
    and step: "\<And>ej t. ej \<in> set js \<Longrightarrow> get (add_edge_value run P \<sigma> ej t) =
      (case edge_value run P \<sigma> ej of None \<Rightarrow> get t | Some v \<Rightarrow> join_into P (key (fst ej)) v (get t))"
    and t: "tabulates P (get t) X"
  shows "tabulates P (get (fold (add_edge_value run P \<sigma>) js t))
    (\<lambda>k x. X k x \<or> (\<exists>ej\<in>set js. edge_value run P \<sigma> ej = Some x \<and> key (fst ej) = k))"
  using step t
proof (induction js arbitrary: t X)
  case (Cons ej js)
  let ?Y = "\<lambda>k x. X k x \<or> (edge_value run P \<sigma> ej = Some x \<and> key (fst ej) = k)"
  have "tabulates P (get (add_edge_value run P \<sigma> ej t)) ?Y"
  proof (cases "edge_value run P \<sigma> ej")
    case (Some v)
    show ?thesis
      unfolding Cons.prems(1)[of ej, simplified] Some option.case
      by (rule tabulates_add[OF lawful Cons.prems(2)]) (auto simp: Some)
  qed (use Cons.prems in simp)
  then have "tabulates P (get (fold (add_edge_value run P \<sigma>) js (add_edge_value run P \<sigma> ej t)))
    (\<lambda>k x. ?Y k x \<or> (\<exists>ej\<in>set js. edge_value run P \<sigma> ej = Some x \<and> key (fst ej) = k))"
    by (rule Cons.IH[rotated]) (use Cons.prems(1) in simp)
  then show ?case by (simp add: disj_assoc)
qed simp

lemma tables_of_jumps:
  fixes js :: "('n, 'f, 'a, 'j, 'v) jump_entry list"
  assumes lawful: "ide_lawful P" and tables: "fold (add_edge_value run P \<sigma>) js (Map.empty, Map.empty, Map.empty) = (values, contexts, edges)"
  shows "tabulates P values (\<lambda>nd x. \<exists>ej\<in>set js. edge_value run P \<sigma> ej = Some x \<and> (edge_node (fst ej), edge_fact (fst ej)) = nd)"
    and "tabulates P (flat contexts) (\<lambda>ndc x. \<exists>ej\<in>set js. edge_value run P \<sigma> ej = Some x \<and>
      ((edge_node (fst ej), edge_fact (fst ej)), edge_context (fst ej)) = ndc)"
    and "(contexts nd \<noteq> None) = (values nd \<noteq> None)"
    and "distinct (map fst js) \<Longrightarrow>
      edges e = (case map_of js e of None \<Rightarrow> None | Some J \<Rightarrow> edge_value run P \<sigma> (e, J))"
proof -
  let ?t0 = "(Map.empty, Map.empty, Map.empty) :: ('n, 'f, 'v) value_tables"
  have start: "tabulates P (fst ?t0) (\<lambda>_ _. False)" "tabulates P (flat (fst (snd ?t0))) (\<lambda>_ _. False)"
    by (simp_all add: tabulates_def flat_def)
  show "tabulates P values (\<lambda>nd x. \<exists>ej\<in>set js. edge_value run P \<sigma> ej = Some x \<and> (edge_node (fst ej), edge_fact (fst ej)) = nd)"
    using tabulates_fold[where get = fst and t = ?t0 and js = js and run = run and \<sigma> = \<sigma> and
        key = "\<lambda>e. (edge_node e, edge_fact e)", OF lawful _ start(1)] tables
    by (simp add: add_edge_value_tables(1))
  show "tabulates P (flat contexts) (\<lambda>ndc x. \<exists>ej\<in>set js. edge_value run P \<sigma> ej = Some x \<and>
      ((edge_node (fst ej), edge_fact (fst ej)), edge_context (fst ej)) = ndc)"
    using tabulates_fold[where get = "\<lambda>t. flat (fst (snd t))" and t = ?t0 and js = js and run = run and \<sigma> = \<sigma> and
        key = "\<lambda>e. ((edge_node e, edge_fact e), edge_context e)", OF lawful _ start(2)] tables
    by (simp add: add_edge_value_tables(2))
  have step: "dom (fst (snd (add_edge_value run P \<sigma> ej t))) = dom (fst (add_edge_value run P \<sigma> ej t))"
    if "dom (fst (snd t)) = dom (fst t)" for ej t
    using that by (cases t; cases "edge_value run P \<sigma> ej") (simp_all add: add_edge_value_def Let_def join_into_def)
  have "dom (fst (snd (fold (add_edge_value run P \<sigma>) js t))) = dom (fst (fold (add_edge_value run P \<sigma>) js t))"
    if "dom (fst (snd t)) = dom (fst t)" for t
    using that
  proof (induction js arbitrary: t)
    case (Cons ej js)
    then show ?case using Cons.IH[OF step[OF Cons.prems]] by simp
  qed simp
  from this[of ?t0] show "(contexts nd \<noteq> None) = (values nd \<noteq> None)" using tables by (simp add: dom_def set_eq_iff) (cases nd; simp)
  assume "distinct (map fst js)"
  then have "snd (snd (fold (add_edge_value run P \<sigma>) js t)) e =
      (case map_of js e of None \<Rightarrow> snd (snd t) e | Some J \<Rightarrow> (case edge_value run P \<sigma> (e, J) of None \<Rightarrow> snd (snd t) e | Some v \<Rightarrow> Some v))"
    for t
  proof (induction js arbitrary: t)
    case (Cons ej js)
    have "snd (snd (add_edge_value run P \<sigma> ej t)) e =
        (if e = fst ej then (case edge_value run P \<sigma> ej of None \<Rightarrow> snd (snd t) e | Some v \<Rightarrow> Some v) else snd (snd t) e)"
      by (cases t) (auto simp: add_edge_value_def Let_def split: option.splits)
    moreover have "map_of js (fst ej) = None" using Cons.prems by (simp add: map_of_eq_None_iff)
    ultimately show ?case using Cons by (cases ej) (auto split: option.splits)
  qed simp
  from this[of ?t0] show "edges e = (case map_of js e of None \<Rightarrow> None | Some J \<Rightarrow> edge_value run P \<sigma> (e, J))"
    using tables by (simp split: option.splits)
qed

section \<open>The solution\<close>

text \<open>A solved problem: the final state of the jump functions, and source values that are the least upper
  bounds of what runs bring into the sources.\<close>

definition solved_by ::
  "('n, 'f, 'k, 'a, 'j, 'v) jump_run \<Rightarrow> ('p, 'n, 'f, 'a, 'j, 'v) ide_problem \<Rightarrow> ('p, 'n, 'f, 'a, 'j, 'v) jump_state \<Rightarrow>
   ('n, 'f, 'v) source_values \<Rightarrow> bool" where
  "solved_by run P s \<sigma> \<longleftrightarrow> distinct (map fst (es_jumps s)) \<and>
     (\<forall>e J. jump_of s e = Some J \<longrightarrow> is_join_of P (ways run P e) J) \<and>
     (\<forall>e h. ways run P e h \<longrightarrow> has P s e h) \<and>
     (\<forall>n d. d \<in> set (get_list (es_reached s) n) \<longleftrightarrow> (\<exists>e. jump_of s e \<noteq> None \<and> edge_node e = n \<and> edge_fact e = d)) \<and>
     tabulates P \<sigma> (enters P (dr_depth run))"

lemma way_source_key:
  "ways run P e h \<Longrightarrow> source_key run (source_node e) (source_fact e) (edge_context e) = (source_node e, source_fact e, edge_context e)"
  using key_context_edge[of "dr_base run" "erase P" "source_node e" "source_fact e" "edge_node e" "edge_fact e" "edge_context e"]
    travels_tabulated[of P "dr_depth run" e h]
  by (simp add: source_key_def derives_def depth_of_def)

definition arrives_by :: "('p, 'n, 'f, 'a, 'j, 'v) ide_problem \<Rightarrow> int option \<Rightarrow> ('n, 'f) path_edge \<Rightarrow> 'v \<Rightarrow> bool" where
  "arrives_by P depth e v \<longleftrightarrow> (\<exists>w h. enters P depth (source_node e, source_fact e, edge_context e) w \<and> travels P depth e h \<and> v = h w)"

text \<open>The value of a path edge.\<close>

lemma edge_value_solved:
  assumes lawful: "ide_lawful P" and s: "solved_by run P s \<sigma>"
  shows "jump_of s e = Some J \<Longrightarrow> edge_value run P \<sigma> (e, J) = Some x \<Longrightarrow> join_of (join_values P) (arrives_by P (dr_depth run) e) x"
    and "arrives_by P (dr_depth run) e v \<Longrightarrow>
      \<exists>J x. jump_of s e = Some J \<and> edge_value run P \<sigma> (e, J) = Some x \<and> vle P v x"
proof -
  let ?k = "(source_node e, source_fact e, edge_context e)"
  show "join_of (join_values P) (arrives_by P (dr_depth run) e) x" if J: "jump_of s e = Some J" "edge_value run P \<sigma> (e, J) = Some x"
  proof -
    have j: "is_join_of P (ways run P e) J" using s J(1) by (simp add: solved_by_def)
    then obtain h where h: "ways run P e h" using way_exists by blast
    obtain w where w: "\<sigma> ?k = Some w" "x = apply_edge P J w"
      using J(2) by (auto simp: edge_value_def way_source_key[OF h])
    have "join_of (join_values P) (enters P (dr_depth run) ?k) w"
      using s w(1) unfolding solved_by_def tabulates_def by blast
    then have "join_of (join_values P) (\<lambda>v. \<exists>g x. ways run P e g \<and> enters P (dr_depth run) ?k x \<and> v = g x) (apply_edge P J w)"
      by (intro join_of_apply[where F = "ways run P e" and f = "apply_edge P J" and x = w])
        (use j in \<open>simp_all add: is_join_of_def travels_join[OF _ lawful]\<close>)
    then show ?thesis unfolding w(2) by (rule join_of_mono) (auto simp: arrives_by_def)
  qed
  assume "arrives_by P (dr_depth run) e v"
  then obtain w h where w: "enters P (dr_depth run) ?k w" "ways run P e h" "v = h w" by (auto simp: arrives_by_def)
  obtain u where u: "\<sigma> ?k = Some u" "vle P w u" using s w(1) unfolding solved_by_def tabulates_def by blast
  obtain J where J: "jump_of s e = Some J" "\<And>v. vle P (h v) (apply_edge P J v)"
    using s w(2) unfolding solved_by_def has_function_def by blast
  have "edge_value run P \<sigma> (e, J) = Some (apply_edge P J u)"
    using u(1) way_source_key[OF w(2)] by (simp add: edge_value_def)
  moreover have "vle P v (apply_edge P J u)"
    unfolding w(3) by (rule vle_trans[OF travels_mono[OF w(2) lawful u(2)] J(2)])
  ultimately show "\<exists>J x. jump_of s e = Some J \<and> edge_value run P \<sigma> (e, J) = Some x \<and> vle P v x"
    using J(1) by blast
qed

text \<open>The tables by node, by node and context, and by path edge.\<close>

lemma tables_exact:
  assumes lawful: "ide_lawful P" and s: "solved_by run P s \<sigma>"
    and tables: "fold (add_edge_value run P \<sigma>) (es_jumps s) (Map.empty, Map.empty, Map.empty) = (values, contexts, edges)"
  shows "tabulates P values (\<lambda>(n, d). arrives P (dr_depth run) n d)"
    and "tabulates P (flat contexts) (\<lambda>((n, d), c). arrives_in P (dr_depth run) c n d)"
    and "tabulates P edges (arrives_by P (dr_depth run))"
proof -
  have dist: "distinct (map fst (es_jumps s))" using s by (simp add: solved_by_def)
  have entry: "(e, J) \<in> set (es_jumps s) \<longleftrightarrow> jump_of s e = Some J" for e J using dist by simp
  note t = tables_of_jumps[OF lawful tables]
  have in_by: "arrives_in P (dr_depth run) c n d v \<longleftrightarrow>
      (\<exists>e. arrives_by P (dr_depth run) e v \<and> edge_node e = n \<and> edge_fact e = d \<and> edge_context e = c)" for c n d v
  proof
    assume "arrives_in P (dr_depth run) c n d v"
    then obtain sn sd where "arrives_by P (dr_depth run) (PathEdge sn sd n d c) v"
      unfolding arrives_in_def arrives_by_def by auto
    then show "\<exists>e. arrives_by P (dr_depth run) e v \<and> edge_node e = n \<and> edge_fact e = d \<and> edge_context e = c" by force
  next
    assume "\<exists>e. arrives_by P (dr_depth run) e v \<and> edge_node e = n \<and> edge_fact e = d \<and> edge_context e = c"
    then obtain e where e: "arrives_by P (dr_depth run) e v" "edge_node e = n" "edge_fact e = d" "edge_context e = c" by blast
    then show "arrives_in P (dr_depth run) c n d v"
      by (cases e) (auto simp: arrives_in_def arrives_by_def)
  qed
  have exact: "tabulates P m Y"
    if m: "tabulates P m (\<lambda>k x. \<exists>ej\<in>set (es_jumps s). edge_value run P \<sigma> ej = Some x \<and> key (fst ej) = k)"
      and Y: "\<And>k v. Y k v \<longleftrightarrow> (\<exists>e. arrives_by P (dr_depth run) e v \<and> key e = k)" for m Y and key :: "_ \<Rightarrow> 'z"
  proof (rule tabulates_refine[OF m])
    fix k x assume "\<exists>ej\<in>set (es_jumps s). edge_value run P \<sigma> ej = Some x \<and> key (fst ej) = k"
    then obtain e J where e: "jump_of s e = Some J" "edge_value run P \<sigma> (e, J) = Some x" "key e = k"
      using entry by auto
    show "join_of (join_values P) (Y k) x"
      by (rule join_of_mono[OF edge_value_solved(1)[OF lawful s e(1,2)]]) (use Y e(3) in blast)
  next
    fix k v assume "Y k v"
    then obtain e where e: "arrives_by P (dr_depth run) e v" "key e = k" using Y by blast
    then obtain J x where x: "jump_of s e = Some J" "edge_value run P \<sigma> (e, J) = Some x" "vle P v x"
      using edge_value_solved(2)[OF lawful s e(1)] by blast
    then show "\<exists>x. (\<exists>ej\<in>set (es_jumps s). edge_value run P \<sigma> ej = Some x \<and> key (fst ej) = k) \<and> vle P v x"
      using entry e(2) by (intro exI[of _ x] conjI bexI[of _ "(e, J)"]) simp_all
  qed
  show "tabulates P values (\<lambda>(n, d). arrives P (dr_depth run) n d)"
    by (rule exact[OF t(1)]) (auto simp: arrives_def in_by)
  show "tabulates P (flat contexts) (\<lambda>((n, d), c). arrives_in P (dr_depth run) c n d)"
    by (rule exact[OF t(2)]) (auto simp: in_by)
  have "tabulates P edges (\<lambda>e x. \<exists>ej\<in>set (es_jumps s). edge_value run P \<sigma> ej = Some x \<and> fst ej = e)"
    unfolding tabulates_def
  proof (intro conjI allI impI)
    fix e x assume "edges e = Some x"
    then obtain J where "jump_of s e = Some J" "edge_value run P \<sigma> (e, J) = Some x"
      using t(4)[OF dist] by (auto split: option.splits)
    then show "join_of (join_values P) (\<lambda>x. \<exists>ej\<in>set (es_jumps s). edge_value run P \<sigma> ej = Some x \<and> fst ej = e) x"
      using entry by (intro join_of.single bexI[of _ "(e, J)"]) simp_all
  next
    fix e x assume "\<exists>ej\<in>set (es_jumps s). edge_value run P \<sigma> ej = Some x \<and> fst ej = e"
    then obtain J where "jump_of s e = Some J" "edge_value run P \<sigma> (e, J) = Some x" using entry by auto
    then show "\<exists>v. edges e = Some v \<and> vle P x v" using t(4)[OF dist, of e] by simp
  qed
  then show "tabulates P edges (arrives_by P (dr_depth run))" by (rule exact) simp
qed

text \<open>A complete run of the solver.\<close>

lemma ide_solve_cases:
  assumes ret: "ide_solve run P = Some res" and wf: "ide_wf P" and lawful: "ide_lawful P"
  obtains (failed) e where "res = Inl e" "limit_error (dr_base run) e"
  | (solved) s \<sigma> s' where "ide_loop_inv run P s" "es_queue s = [] \<or> \<not> running s" "same_but_ide_bk run s s'"
      "sources_sound run P \<sigma>" "running s' \<longrightarrow> settled run P s (map_of (seed_values run P)) (source_keys run (seed_values run P) s) \<sigma>"
      "res = ide_finish run P s' \<sigma>" "\<not> stoppable (dr_base run) \<longrightarrow> running s'"
proof (cases "ide_seed_all run P (ide_start run)")
  case (Inl e)
  then have "res = Inl e" using ret by (simp add: ide_solve_def)
  moreover have "limit_error (dr_base run) e" by (rule meets_fails[OF ide_seed_all_meets[OF wf lawful] ide_start_inv Inl])
  ultimately show thesis by (rule failed)
next
  case (Inr s0)
  note s0 = ide_seed_all_loop[OF wf lawful Inr]
  let ?seeds = "seed_values run P"
  obtain wl where wl: "ide_worklist run P s0 = Some wl" using ret Inr by (auto simp: ide_solve_def split: option.splits)
  have l: "ide_loop_result run P (running s0) wl" by (rule ide_worklist_result[OF wl wf lawful s0(1)])
  show thesis
  proof (cases wl)
    case (Inl e)
    then show thesis using failed[of e] l ret Inr wl by (simp add: ide_solve_def ide_loop_result_def)
  next
    case (Inr s)
    then obtain sl where sl: "source_loop run P (map_of ?seeds) (source_keys run ?seeds s) s Map.empty = Some sl"
      and res: "res = (case sl of Inl e \<Rightarrow> Inl e | Inr (s', \<sigma>) \<Rightarrow> ide_finish run P s' \<sigma>)"
      using ret \<open>ide_seed_all run P (ide_start run) = Inr s0\<close> wl
      by (auto simp: ide_solve_def Let_def split: option.splits sum.splits prod.splits)
    have inv: "ide_loop_inv run P s" and q: "es_queue s = [] \<or> \<not> running s" and live: "\<not> stoppable (dr_base run) \<longrightarrow> running s"
      using l Inr s0(2) by (simp_all add: ide_loop_result_def)
    have seeds: "sources_sound run P (map_of ?seeds)"
      unfolding sources_sound_def
    proof (intro allI impI)
      fix k v assume "map_of ?seeds k = Some v"
      then have "join_of (join_values P) (\<lambda>x. \<exists>sv\<in>set (de_seeds P). k = seed_key (dr_depth run) sv \<and> x = snd sv) v"
        using seed_values_tabulate[OF lawful, of run] unfolding tabulates_def by blast
      then show "brought run P k v" by (rule join_of_mono) (auto simp: seed_key_def intro: enters.seed)
    qed
    have r: "source_result run P (map_of ?seeds) (source_keys run ?seeds s) s sl"
      by (rule source_loop_result[OF sl lawful _ seeds])
        (use inv in \<open>simp_all add: ide_loop_inv_def ide_inv_def sources_sound_def\<close>)
    show thesis
    proof (cases sl)
      case (Inl e)
      then show thesis using failed[of e] r res by (simp add: source_result_def)
    next
      case sr: (Inr s\<sigma>)
      obtain s' \<sigma> where p: "s\<sigma> = (s', \<sigma>)" by (cases s\<sigma>)
      have r': "same_but_ide_bk run s s'" "sources_sound run P \<sigma>"
        "running s' \<longrightarrow> settled run P s (map_of ?seeds) (source_keys run ?seeds s) \<sigma>"
        using r sr p by (simp_all add: source_result_def)
      moreover have "\<not> stoppable (dr_base run) \<longrightarrow> running s'" using live r'(1) by (simp add: same_but_ide_bk_def)
      ultimately show thesis using solved[OF inv q] res sr p by simp
    qed
  qed
qed

lemma ide_finish_Inr:
  assumes "ide_finish run P s \<sigma> = Inr r"
  obtains vals ctxs edges bk where
    "fold (add_edge_value run P \<sigma>) (es_jumps s) (Map.empty, Map.empty, Map.empty) = (vals, ctxs, edges)"
    "dv_values r = with_default (es_reached s) (de_bottom P) vals"
    "dv_by_context r = with_default (es_reached s) Map.empty ctxs" "dv_path_edges r = edges"
    "dv_reached r = es_reached s" "dv_jumps r = es_jumps s" "dv_status r = COMPLETE \<longrightarrow> running s"
    "\<not> stoppable (dr_base run) \<longrightarrow> running s \<longrightarrow> dv_status r = COMPLETE"
proof -
  obtain vals ctxs edges where t:
    "fold (add_edge_value run P \<sigma>) (es_jumps s) (Map.empty, Map.empty, Map.empty) = (vals, ctxs, edges)"
    by (cases "fold (add_edge_value run P \<sigma>) (es_jumps s) (Map.empty, Map.empty, Map.empty)") auto
  obtain bk where bk: "finish (dr_base run) (running s) (es_bk s) = Inr bk"
    and r: "r = \<lparr>dv_values = with_default (es_reached s) (de_bottom P) vals,
       dv_by_context = with_default (es_reached s) Map.empty ctxs,
       dv_path_edges = edges, dv_reached = es_reached s, dv_jumps = es_jumps s,
       dv_statistics = bk_stats bk, dv_traces = frozen_traces (dr_base run) bk,
       dv_incoming = es_incoming s, dv_summaries = es_summaries s,
       dv_status = bk_status bk, dv_reason = bk_reason bk\<rparr>"
    using assms t by (auto simp: ide_finish_def bind_res_eq_Inr)
  have "bk_step (dr_base run) (es_bk s) (Inr bk)" unfolding bk[symmetric] by (rule finish_step)
  then show thesis using that[OF t] r by (simp add: bk_step_def)
qed

lemma complete_solved:
  assumes ret: "ide_solve run P = Some (Inr r)" and compl: "dv_is_complete r" and wf: "ide_wf P" and lawful: "ide_lawful P"
  obtains s \<sigma> where "solved_by run P s \<sigma>" "ide_finish run P s \<sigma> = Inr r"
  using ret wf lawful
proof (cases rule: ide_solve_cases)
  case (solved s \<sigma> s')
  have fin: "ide_finish run P s' \<sigma> = Inr r" using solved(6) by simp
  then have c': "running s'" using compl ide_finish_Inr[OF fin] unfolding dv_is_complete_def by metis
  have f: "es_jumps s' = es_jumps s" "es_reached s' = es_reached s" and c: "running s"
    using solved(3) c' by (simp_all add: same_but_ide_bk_def same_functions_def)
  then have q: "es_queue s = []" using solved(2) by simp
  have base: "ide_base run P s" using solved(1) by (simp add: ide_loop_inv_def ide_inv_def)
  have "tabulates P \<sigma> (enters P (dr_depth run))"
    unfolding tabulates_def
    using solved(4) settled_upper[OF wf lawful solved(1) q c solved(5)[rule_format, OF c']]
    by (simp add: sources_sound_def)
  moreover have "\<forall>e h. ways run P e h \<longrightarrow> has P s e h" using drained_upper[OF wf lawful solved(1) q c] by blast
  ultimately have "solved_by run P s' \<sigma>" using base by (simp add: solved_by_def ide_base_def f)
  then show thesis using that fin by blast
qed simp

lemma solved_reached:
  assumes s: "solved_by run P s \<sigma>"
  shows "d \<in> set (get_list (es_reached s) n) \<longleftrightarrow> (\<exists>stack v. valued_run P n d stack v)"
proof
  assume "d \<in> set (get_list (es_reached s) n)"
  then obtain e J where e: "jump_of s e = Some J" "edge_node e = n" "edge_fact e = d"
    using s unfolding solved_by_def by auto
  then obtain h where h: "ways run P e h" using s way_exists unfolding solved_by_def by blast
  then obtain stack w where "valued_run P (source_node e) (source_fact e) stack w" using travels_reached by blast
  then show "\<exists>stack v. valued_run P n d stack v" using travels_valued_run[OF h] e(2,3) by blast
next
  assume "\<exists>stack v. valued_run P n d stack v"
  then obtain stack v where "valued_run P n d stack v" by blast
  then obtain sn sd c h where h: "ways run P (PathEdge sn sd n d c) h" using valued_run_travels[of P n d stack v "dr_depth run"] by blast
  then have "jump_of s (PathEdge sn sd n d c) \<noteq> None" using s unfolding solved_by_def has_function_def by force
  then show "d \<in> set (get_list (es_reached s) n)" using s unfolding solved_by_def by force
qed

text \<open>The tables of a complete result; the default of the values is the bottom value.\<close>

lemma result_tables:
  assumes ret: "ide_solve run P = Some (Inr r)" and compl: "dv_is_complete r" and wf: "ide_wf P" and lawful: "ide_lawful P"
  shows "d \<in> dv_facts_at r n \<longleftrightarrow> (\<exists>stack v. valued_run P n d stack v)"
    and "\<exists>vals. tabulates P vals (\<lambda>(n, d) v. \<exists>stack. valued_run P n d stack v \<and> returning P stack) \<and>
      dv_values r = with_default (dv_reached r) (de_bottom P) vals"
    and "tabulates P (flat (dv_by_context r))
      (\<lambda>((n, d), c) v. \<exists>stack. valued_run P n d stack v \<and> call_string (dr_depth run) stack = c \<and> returning P stack)"
    and "tabulates P (dv_path_edges r) (arrives_by P (dr_depth run))"
proof -
  obtain s \<sigma> where s: "solved_by run P s \<sigma>" and fin: "ide_finish run P s \<sigma> = Inr r"
    by (rule complete_solved[OF assms])
  obtain vals ctxs edges where t: "fold (add_edge_value run P \<sigma>) (es_jumps s) (Map.empty, Map.empty, Map.empty) = (vals, ctxs, edges)"
    and r: "dv_values r = with_default (es_reached s) (de_bottom P) vals"
      "dv_by_context r = with_default (es_reached s) Map.empty ctxs" "dv_path_edges r = edges" "dv_reached r = es_reached s"
    using ide_finish_Inr[OF fin] by metis
  note e = tables_exact[OF lawful s t]
  show "d \<in> dv_facts_at r n \<longleftrightarrow> (\<exists>stack v. valued_run P n d stack v)"
    using solved_reached[OF s] by (simp add: dv_facts_at_def r)
  have "(\<lambda>(n, d). arrives P (dr_depth run) n d) = (\<lambda>(n, d) v. \<exists>stack. valued_run P n d stack v \<and> returning P stack)"
    by (simp add: fun_eq_iff arrives_run)
  then show "\<exists>vals. tabulates P vals (\<lambda>(n, d) v. \<exists>stack. valued_run P n d stack v \<and> returning P stack) \<and>
      dv_values r = with_default (dv_reached r) (de_bottom P) vals"
    using e(1) r by auto
  have "flat (with_default (es_reached s) Map.empty ctxs) = flat ctxs"
  proof
    fix kc show "flat (with_default (es_reached s) Map.empty ctxs) kc = flat ctxs kc"
      by (cases kc) (simp add: flat_def with_default_def split: option.split)
  qed
  moreover have "(\<lambda>((n, d), c). arrives_in P (dr_depth run) c n d) =
      (\<lambda>((n, d), c) v. \<exists>stack. valued_run P n d stack v \<and> call_string (dr_depth run) stack = c \<and> returning P stack)"
    by (simp add: fun_eq_iff arrives_in_run)
  ultimately show "tabulates P (flat (dv_by_context r))
      (\<lambda>((n, d), c) v. \<exists>stack. valued_run P n d stack v \<and> call_string (dr_depth run) stack = c \<and> returning P stack)"
    using e(2) by (simp add: r)
  show "tabulates P (dv_path_edges r) (arrives_by P (dr_depth run))" using e(3) by (simp add: r)
qed

definition least_upper :: "('p, 'n, 'f, 'a, 'j, 'v) ide_problem \<Rightarrow> ('v \<Rightarrow> bool) \<Rightarrow> 'v \<Rightarrow> bool" where
  "least_upper P X v \<longleftrightarrow> (\<exists>x. X x) \<and> (\<forall>x. X x \<longrightarrow> vle P x v) \<and> (\<forall>u. (\<forall>x. X x \<longrightarrow> vle P x u) \<longrightarrow> vle P v u)"

lemma tabulates_item:
  assumes lawful: "ide_lawful P" and m: "tabulates P m X"
  shows "dict_item m k = Inr v \<longleftrightarrow> least_upper P (X k) v"
    and "dict_item m k = Inl e \<longleftrightarrow> e = KeyError \<and> (\<forall>x. \<not> X k x)"
proof -
  have entry: "least_upper P (X k) v" if "m k = Some v" for v
    using tabulates_lub[OF lawful m that] unfolding least_upper_def by blast
  show "dict_item m k = Inr v \<longleftrightarrow> least_upper P (X k) v"
  proof
    assume "dict_item m k = Inr v"
    then show "least_upper P (X k) v" using entry by (simp add: dict_item_def split: option.splits)
  next
    assume v: "least_upper P (X k) v"
    then obtain u where u: "m k = Some u" using tabulates_dom[OF m, of k] unfolding least_upper_def by blast
    have "u = v" using entry[OF u] v vle_antisym[OF lawful] unfolding least_upper_def by blast
    then show "dict_item m k = Inr v" using u by (simp add: dict_item_def)
  qed
  show "dict_item m k = Inl e \<longleftrightarrow> e = KeyError \<and> (\<forall>x. \<not> X k x)"
    using tabulates_dom[OF m, of k] by (auto simp: dict_item_def split: option.splits)
qed

lemma value_cases:
  assumes "ide_solve run P = Some (Inr r)" "dv_is_complete r" "ide_wf P" "ide_lawful P"
  shows "value_at r n d = Inr v \<longleftrightarrow>
      (if \<exists>stack x. valued_run P n d stack x \<and> returning P stack
       then least_upper P (\<lambda>x. \<exists>stack. valued_run P n d stack x \<and> returning P stack) v
       else (\<exists>stack x. valued_run P n d stack x) \<and> v = de_bottom P)"
    and "value_at r n d = Inl e \<longleftrightarrow> e = KeyError \<and> \<not> (\<exists>stack v. valued_run P n d stack v)"
proof -
  obtain vals where t: "tabulates P vals (\<lambda>(n, d) v. \<exists>stack. valued_run P n d stack v \<and> returning P stack)"
    and r: "dv_values r = with_default (dv_reached r) (de_bottom P) vals"
    using result_tables(2)[OF assms] by blast
  have reached: "d \<in> set (get_list (dv_reached r) n) \<longleftrightarrow> (\<exists>stack v. valued_run P n d stack v)"
    using result_tables(1)[OF assms] by (simp add: dv_facts_at_def)
  note item = tabulates_item[OF assms(4) t, of "(n, d)", unfolded prod.case]
  have dom: "vals (n, d) \<noteq> None \<longleftrightarrow> (\<exists>stack x. valued_run P n d stack x \<and> returning P stack)"
    using tabulates_dom[OF t, of "(n, d)"] by blast
  have entry: "value_at r n d = (case vals (n, d) of Some v \<Rightarrow> Inr v
      | None \<Rightarrow> if \<exists>stack v. valued_run P n d stack v then Inr (de_bottom P) else Inl KeyError)"
    unfolding value_at_def dict_item_def r with_default_def fst_conv snd_conv reached by (simp split: option.split)
  show "value_at r n d = Inr v \<longleftrightarrow>
      (if \<exists>stack x. valued_run P n d stack x \<and> returning P stack
       then least_upper P (\<lambda>x. \<exists>stack. valued_run P n d stack x \<and> returning P stack) v
       else (\<exists>stack x. valued_run P n d stack x) \<and> v = de_bottom P)"
  proof (cases "vals (n, d)")
    case None
    then show ?thesis using entry dom by auto
  next
    case (Some w)
    then show ?thesis using entry dom item(1)[of v] by (auto simp: dict_item_def)
  qed
  show "value_at r n d = Inl e \<longleftrightarrow> e = KeyError \<and> \<not> (\<exists>stack v. valued_run P n d stack v)"
    using entry dom by (cases "vals (n, d)") (simp, auto)
qed

section \<open>The properties of a solution\<close>

definition calls_return :: "('p, 'n, 'f, 'a, 'j, 'v) ide_problem \<Rightarrow> bool" where
  "calls_return P \<longleftrightarrow> (\<forall>n. callees_of_call_at (net P) n \<noteq> {} \<longrightarrow> return_sites_of_call_at (net P) n \<noteq> {})"

lemma all_returning: "valued_run P n d stack v \<Longrightarrow> calls_return P \<Longrightarrow> returning P stack"
  by (induction rule: valued_run.induct) (auto simp: returning_def calls_return_def)

text \<open>C3: the solver computes the least upper bound over all runs. In a complete result of a
  problem that is well formed, whose flows return lawful edge functions and whose calls
  return, exactly the facts of the runs of the program are reached; the value of a fact at a node
  is the least upper bound of the values that runs compute there, matched calls and returns
  only; and a fact that no run reaches has no value (\<^verbatim>\<open>KeyError\<close>).\<close>

theorem ide_solution_exact:
  assumes "ide_solve run P = Some (Inr r)" "dv_is_complete r" "ide_wf P" "ide_lawful P" "calls_return P"
  shows "(d \<in> dv_facts_at r n \<longleftrightarrow> (\<exists>stack v. valued_run P n d stack v)) \<and>
    (\<forall>v. value_at r n d = Inr v \<longleftrightarrow> least_upper P (\<lambda>x. \<exists>stack. valued_run P n d stack x) v) \<and>
    (\<forall>e. value_at r n d = Inl e \<longleftrightarrow> e = KeyError \<and> \<not> (\<exists>stack v. valued_run P n d stack v))"
proof -
  have "(valued_run P n d stack v \<and> returning P stack) = valued_run P n d stack v" for stack v
    using all_returning[OF _ assms(5)] by blast
  note value_cases(1)[OF assms(1-4), of n d, unfolded this]
  then show ?thesis
    using result_tables(1)[OF assms(1-4), of d n] value_cases(2)[OF assms(1-4), of n d]
    by (auto simp: least_upper_def split: if_splits)
qed

text \<open>C19: a call without a site to return to does not bring its value along. In a complete result, a fact that
  only runs with such a pending call reach is reported as reached, with the bottom value of the
  problem, whatever the values of those runs are.\<close>

theorem ide_unreturned_bottom:
  assumes "ide_solve run P = Some (Inr r)" "dv_is_complete r" "ide_wf P" "ide_lawful P"
    and "valued_run P n d stack v"
    and "\<And>stack v. valued_run P n d stack v \<Longrightarrow> \<exists>(c, p, f)\<in>set stack. return_sites_of_call_at (de_supergraph P) c = {}"
  shows "d \<in> dv_facts_at r n \<and> value_at r n d = Inr (de_bottom P)"
proof -
  have "\<not> (valued_run P n d stack v \<and> returning P stack)" for stack v
    using assms(6)[of stack v] by (auto simp: returning_def)
  then show ?thesis using result_tables(1)[OF assms(1-4)] value_cases(1)[OF assms(1-4)] assms(5) by auto
qed

text \<open>C5: the values by context are exact. With call strings of any depth, the value of a fact at a node in
  a context is the least upper bound of the values of the runs whose stack of pending calls has that
  call string (and whose pending calls have a return site); a context that no such run has gives \<^verbatim>\<open>KeyError\<close>.\<close>

theorem ide_context_exact:
  assumes "ide_solve run P = Some (Inr r)" "dv_is_complete r" "ide_wf P" "ide_lawful P"
  shows "(\<forall>v. value_at_context r n d c = Inr v \<longleftrightarrow> least_upper P (\<lambda>x. \<exists>stack. valued_run P n d stack x \<and>
        call_string (dr_depth run) stack = c \<and> returning P stack) v) \<and>
    (\<forall>e. value_at_context r n d c = Inl e \<longleftrightarrow> e = KeyError \<and> \<not> (\<exists>stack v. valued_run P n d stack v \<and>
        call_string (dr_depth run) stack = c \<and> returning P stack))"
proof -
  have "value_at_context r n d c = dict_item (flat (dv_by_context r)) ((n, d), c)"
    by (simp add: value_at_context_def dict_item_def flat_def split: option.splits)
  then show ?thesis
    using tabulates_item[OF assms(4) result_tables(3)[OF assms], of "((n, d), c)"] by simp blast
qed

text \<open>C20: call strings do not change the merged values. Two complete results of the same problem, for any two depths
  of the call strings, any limits, any clock and any order of facts and edge functions, have the same
  facts and the same values at every node.\<close>

theorem ide_depth_irrelevant:
  assumes "ide_solve run P = Some (Inr r)" "dv_is_complete r" "ide_solve run' P = Some (Inr r')" "dv_is_complete r'"
    "ide_wf P" "ide_lawful P"
  shows "dv_facts_at r n = dv_facts_at r' n \<and> value_at r n d = value_at r' n d"
proof
  show "dv_facts_at r n = dv_facts_at r' n"
    using result_tables(1)[OF assms(1,2,5,6)] result_tables(1)[OF assms(3-6)] by auto
  show "value_at r n d = value_at r' n d"
  proof (cases "value_at r' n d")
    case (Inl e)
    then show ?thesis using value_cases(2)[OF assms(1,2,5,6), of n d e] value_cases(2)[OF assms(3-6), of n d e] by simp
  next
    case (Inr v)
    have "value_at r n d = Inr v \<longleftrightarrow> value_at r' n d = Inr v"
      unfolding value_cases(1)[OF assms(1,2,5,6)] value_cases(1)[OF assms(3-6)] ..
    then show ?thesis using Inr by simp
  qed
qed

lemma ide_solve_errors:
  assumes "ide_solve run P = Some res" "ide_wf P" "ide_lawful P"
  shows "(\<forall>e. res = Inl e \<longrightarrow> e = SolverLimitExceeded \<and> so_limit_behavior (sr_options (dr_base run)) = ''raise'' \<and>
      stoppable (dr_base run)) \<and>
    (\<not> stoppable (dr_base run) \<longrightarrow> (\<exists>r. res = Inr r \<and> dv_is_complete r))"
  using assms
proof (cases rule: ide_solve_cases)
  case (failed e)
  then show ?thesis by (simp add: limit_error_def)
next
  case (solved s \<sigma> s')
  show ?thesis
  proof (cases "ide_finish run P s' \<sigma>")
    case (Inl e)
    then obtain bk where "finish (dr_base run) (running s') (es_bk s') = Inl e"
      by (auto simp: ide_finish_def bind_res_eq_Inl split: prod.splits)
    then have "bk_step (dr_base run) (es_bk s') (Inl e)" using finish_step by metis
    then show ?thesis using solved(6) Inl by (simp add: bk_step_def limit_error_def)
  next
    case (Inr r)
    then show ?thesis using solved(6,7) ide_finish_Inr[OF Inr] unfolding dv_is_complete_def by (metis Inl_Inr_False Inr_inject)
  qed
qed

text \<open>C21: the only failure of the solver is a limit: \<^verbatim>\<open>SolverLimitExceeded\<close>, with a limit set or a token given
  and the behaviour \<^verbatim>\<open>raise\<close>; without limit and token a result is complete.\<close>

theorem ide_errors:
  assumes "ide_solve run P = Some res" "ide_wf P" "ide_lawful P"
  shows "(\<forall>e. res = Inl e \<longrightarrow> e = SolverLimitExceeded \<and> so_limit_behavior (sr_options (dr_base run)) = ''raise'' \<and>
      stoppable (dr_base run)) \<and>
    (\<not> stoppable (dr_base run) \<longrightarrow> (\<exists>r. res = Inr r \<and> dv_is_complete r))"
  by (rule ide_solve_errors[OF assms])

section \<open>Termination\<close>

text \<open>When the propagations are bounded the worklist ends: each turn takes an edge, and only a propagation puts one back.\<close>

definition propagates_at_most ::
  "('n, 'f, 'k::linorder, 'a, 'j, 'v) jump_run \<Rightarrow> ('p, 'n, 'f, 'a, 'j, 'v) ide_problem \<Rightarrow> int \<Rightarrow> bool" where
  "propagates_at_most run P l \<longleftrightarrow> (\<forall>s. ide_loop_inv run P s \<longrightarrow> running s \<longrightarrow> spent s \<le> l)"

lemma ide_worklist_returns:
  assumes wf: "ide_wf P" and lawful: "ide_lawful P" and limit: "propagates_at_most run P l"
    and inv: "ide_loop_inv run P s"
  shows "\<exists>r. ide_worklist run P s = Some r"
  using inv
proof (induction "nat (int (length (es_queue s)) + (l - spent s))" arbitrary: s rule: less_induct)
  case less
  show ?case
  proof (cases "es_queue s = [] \<or> \<not> running s")
    case True
    then show ?thesis by (subst ide_worklist.simps) auto
  next
    case False
    then obtain e q where q: "es_queue s = e # q" and c: "running s" by (cases "es_queue s") auto
    show ?thesis
    proof (cases "ide_budget run s")
      case (Inl err)
      then show ?thesis using q c by (subst ide_worklist.simps) simp
    next
      case s1: (Inr s1)
      note b = ide_loop_inv_budget[OF less.prems ide_budget_Inr[OF s1]]
      show ?thesis
      proof (cases "running s1")
        case False
        then show ?thesis using q c s1 by (subst ide_worklist.simps) simp
      next
        case c1: True
        show ?thesis
        proof (cases "ide_turn run P s1")
          case (Inl err)
          then show ?thesis using q c c1 s1 by (subst ide_worklist.simps) simp
        next
          case s2: (Inr s2)
          note t = ide_turn_loop(2)[OF wf lawful b(1) b(3)[unfolded q] c1 s2]
          have "\<exists>r. ide_worklist run P s2 = Some r"
          proof (cases "running s2")
            case True
            then have "spent s2 \<le> l" using t limit unfolding propagates_at_most_def by blast
            then have "nat (int (length (es_queue s2)) + (l - spent s2)) < nat (int (length (es_queue s)) + (l - spent s))"
              using t b(3,5) by (auto simp: nat_less_iff)
            then show ?thesis using less.hyps t by blast
          next
            case False
            then show ?thesis by (subst ide_worklist.simps) simp
          qed
          then show ?thesis using q c c1 s1 s2 by (subst ide_worklist.simps) simp
        qed
      qed
    qed
  qed
qed

text \<open>The iteration over the sources ends when the values have a bounded height: the values only grow.\<close>

definition bounded_height :: "('p, 'n, 'f, 'a, 'j, 'v) ide_problem \<Rightarrow> bool" where
  "bounded_height P \<longleftrightarrow> (\<exists>(height :: 'v \<Rightarrow> nat) top.
     (\<forall>x y. vle P x y \<longrightarrow> x \<noteq> y \<longrightarrow> height x < height y) \<and> (\<forall>x. height x \<le> top))"

definition below :: "('p, 'n, 'f, 'a, 'j, 'v) ide_problem \<Rightarrow> 'v option \<Rightarrow> 'v option \<Rightarrow> bool" where
  "below P o1 o2 \<longleftrightarrow> (\<forall>x. o1 = Some x \<longrightarrow> (\<exists>y. o2 = Some y \<and> vle P x y))"

lemma below_simps [simp]: "below P None o2" "below P (Some x) (Some y) \<longleftrightarrow> vle P x y" "\<not> below P (Some x) None" "below P o1 o1"
  by (auto simp: below_def)

lemma below_trans: "below P o1 o2 \<Longrightarrow> below P o2 o3 \<Longrightarrow> below P o1 o3"
  by (cases o1; cases o2; cases o3) (auto intro: vle_trans)

lemma resolve_mono:
  assumes lawful: "ide_lawful P" and base: "ide_base run P s" and le: "\<And>k. below P (\<sigma> k) (\<tau> k)"
  shows "below P (resolve run P s seeds \<sigma> key) (resolve run P s seeds \<tau> key)"
proof -
  have step: "below P (resolve_record run P \<sigma> rec a) (resolve_record run P \<tau> rec b)"
    if rec: "rec \<in> set (records_of s key)" and ab: "below P a b" for rec a b
  proof -
    let ?k = "source_key run (rec_source_node rec) (rec_source_fact rec) (rec_context rec)"
    have "record_sound run P key rec" using base rec unfolding ide_base_def by blast
    then have ok: "edge_ok P (rec_jump rec)" by (auto simp: record_sound_def is_join_of_def split: prod.splits)
    have b_le: "below P b (resolve_record run P \<tau> rec b)"
      by (cases b) (auto simp: resolve_record_def Let_def split: option.splits)
    show ?thesis
    proof (cases "\<sigma> ?k")
      case None
      then show ?thesis using below_trans[OF ab b_le] by (simp add: resolve_record_def)
    next
      case (Some u)
      then obtain v where v: "\<tau> ?k = Some v" "vle P u v" using le[of ?k] by (cases "\<tau> ?k") auto
      have m: "vle P (apply_edge P (rec_jump rec) u) (apply_edge P (rec_jump rec) v)" by (rule apply_mono[OF lawful ok v(2)])
      show ?thesis
      proof (cases a)
        case None
        then show ?thesis using Some v m vle_trans[OF m vle_join_right[OF lawful]]
          by (cases b) (simp_all add: resolve_record_def Let_def)
      next
        case (Some x)
        then obtain y where y: "b = Some y" "vle P x y" using ab by (cases b) auto
        have "vle P (join_values P x (apply_edge P (rec_jump rec) u)) (join_values P y (apply_edge P (rec_jump rec) v))"
          by (rule vle_lub[OF lawful]) (use y(2) m in \<open>auto intro: vle_trans vle_join_right[OF lawful]\<close>)
        then show ?thesis using \<open>\<sigma> ?k = Some u\<close> v(1) y(1) Some by (simp add: resolve_record_def Let_def)
      qed
    qed
  qed
  have "below P (fold (resolve_record run P \<sigma>) recs a) (fold (resolve_record run P \<tau>) recs b)"
    if "set recs \<subseteq> set (records_of s key)" "below P a b" for recs a b
    using that
  proof (induction recs arbitrary: a b)
    case (Cons rec recs)
    have "below P (resolve_record run P \<sigma> rec a) (resolve_record run P \<tau> rec b)" by (rule step) (use Cons.prems in auto)
    with Cons.IH show ?case using Cons.prems(1) by simp
  qed simp
  then show ?thesis by (simp add: resolve_def)
qed

definition growing ::
  "('n, 'f, 'k::linorder, 'a, 'j, 'v) jump_run \<Rightarrow> ('p, 'n, 'f, 'a, 'j, 'v) ide_problem \<Rightarrow> ('p, 'n, 'f, 'a, 'j, 'v) jump_state \<Rightarrow>
   ('n, 'f, 'v) source_values \<Rightarrow> ('n, 'f, 'v) source_values \<Rightarrow> bool" where
  "growing run P s seeds \<sigma> \<longleftrightarrow> (\<forall>k. below P (\<sigma> k) (resolve run P s seeds \<sigma> k))"

definition weight :: "('v \<Rightarrow> nat) \<Rightarrow> 'k set \<Rightarrow> ('k \<rightharpoonup> 'v) \<Rightarrow> nat" where
  "weight height K \<sigma> = (\<Sum>k\<in>K. case \<sigma> k of None \<Rightarrow> 0 | Some v \<Rightarrow> Suc (height v))"

lemma update_source_grows:
  assumes lawful: "ide_lawful P" and base: "ide_base run P s" and g: "growing run P s seeds \<sigma>"
    and h: "\<And>x y. vle P x y \<Longrightarrow> x \<noteq> y \<Longrightarrow> height x < (height y :: nat)" and K: "finite K" "k \<in> K"
    and u: "update_source run P s seeds k (\<sigma>, b) = (\<sigma>', b')"
  shows "growing run P s seeds \<sigma>'" "weight height K \<sigma> \<le> weight height K \<sigma>'"
    "b' \<Longrightarrow> b \<or> weight height K \<sigma> < weight height K \<sigma>'"
proof -
  have "growing run P s seeds \<sigma>' \<and> weight height K \<sigma> \<le> weight height K \<sigma>' \<and> (b' \<longrightarrow> b \<or> weight height K \<sigma> < weight height K \<sigma>')"
  proof (cases "\<sigma>' = \<sigma> \<and> b' = b")
    case False
    then obtain v where v: "resolve run P s seeds \<sigma> k = Some v" "\<sigma> k \<noteq> Some v" "\<sigma>' = \<sigma>(k \<mapsto> v)"
      using u by (auto simp: update_source_def split: option.splits if_splits)
    have le: "below P (\<sigma> k') (\<sigma>' k')" for k'
      using g[unfolded growing_def, rule_format, of k] v(1) unfolding v(3) by (cases "k' = k") simp_all
    have "below P (\<sigma>' k') (resolve run P s seeds \<sigma>' k')" for k'
    proof -
      have "below P (\<sigma>' k') (resolve run P s seeds \<sigma> k')"
        using g[unfolded growing_def, rule_format, of k'] v(1) unfolding v(3) by (cases "k' = k") simp_all
      then show ?thesis by (rule below_trans) (rule resolve_mono[OF lawful base le])
    qed
    then have "growing run P s seeds \<sigma>'" unfolding growing_def by blast
    moreover have "weight height K \<sigma> < weight height K \<sigma>'"
      unfolding weight_def
    proof (rule sum_strict_mono_ex1[OF K(1)])
      show "\<forall>k'\<in>K. (case \<sigma> k' of None \<Rightarrow> 0 | Some v \<Rightarrow> Suc (height v)) \<le> (case \<sigma>' k' of None \<Rightarrow> 0 | Some v \<Rightarrow> Suc (height v))"
      proof
        fix k' show "(case \<sigma> k' of None \<Rightarrow> 0 | Some v \<Rightarrow> Suc (height v)) \<le> (case \<sigma>' k' of None \<Rightarrow> 0 | Some v \<Rightarrow> Suc (height v))"
          using le[of k'] h by (cases "\<sigma> k'"; cases "\<sigma>' k'") (auto simp: le_eq_less_or_eq)
      qed
      have "(case \<sigma> k of None \<Rightarrow> 0 | Some v \<Rightarrow> Suc (height v)) < (case \<sigma>' k of None \<Rightarrow> 0 | Some v \<Rightarrow> Suc (height v))"
        using le[of k] h v(2) by (cases "\<sigma> k") (auto simp: v(3))
      then show "\<exists>k\<in>K. (case \<sigma> k of None \<Rightarrow> 0 | Some v \<Rightarrow> Suc (height v)) < (case \<sigma>' k of None \<Rightarrow> 0 | Some v \<Rightarrow> Suc (height v))"
        using K(2) by blast
    qed
    ultimately show ?thesis by simp
  qed (use g in simp)
  then show "growing run P s seeds \<sigma>'" "weight height K \<sigma> \<le> weight height K \<sigma>'"
    "b' \<Longrightarrow> b \<or> weight height K \<sigma> < weight height K \<sigma>'" by blast+
qed

lemma sweep_grows:
  assumes lawful: "ide_lawful P" and base: "ide_base run P s" and g: "growing run P s seeds \<sigma>"
    and h: "\<And>x y. vle P x y \<Longrightarrow> x \<noteq> y \<Longrightarrow> height x < (height y :: nat)"
    and sw: "sweep run P s seeds keys \<sigma> = (\<sigma>', True)"
  shows "growing run P s seeds \<sigma>'" "weight height (set keys) \<sigma> < weight height (set keys) \<sigma>'"
proof -
  have "growing run P s seeds \<sigma>' \<and> weight height (set keys) \<sigma> \<le> weight height (set keys) \<sigma>' \<and>
      (b' \<longrightarrow> b \<or> weight height (set keys) \<sigma> < weight height (set keys) \<sigma>')"
    if "growing run P s seeds \<sigma>" "set ks \<subseteq> set keys" "fold (update_source run P s seeds) ks (\<sigma>, b) = (\<sigma>', b')" for ks \<sigma> b \<sigma>' b'
    using that
  proof (induction ks arbitrary: \<sigma> b)
    case (Cons k ks)
    obtain \<sigma>1 b1 where u: "update_source run P s seeds k (\<sigma>, b) = (\<sigma>1, b1)" by (cases "update_source run P s seeds k (\<sigma>, b)")
    have "k \<in> set keys" using Cons.prems(2) by simp
    note g1 = update_source_grows[where height = height, OF lawful base Cons.prems(1) h finite_set this u]
    have "growing run P s seeds \<sigma>' \<and> weight height (set keys) \<sigma>1 \<le> weight height (set keys) \<sigma>' \<and>
      (b' \<longrightarrow> b1 \<or> weight height (set keys) \<sigma>1 < weight height (set keys) \<sigma>')"
      by (rule Cons.IH[OF g1(1)]) (use Cons.prems u in auto)
    then show ?case using g1(2,3) by auto
  qed simp
  from this[OF g subset_refl sw[unfolded sweep_def]] show "growing run P s seeds \<sigma>'"
    "weight height (set keys) \<sigma> < weight height (set keys) \<sigma>'" by simp_all
qed

lemma source_loop_returns:
  fixes P :: "('p, 'n, 'f, 'a, 'j, 'v) ide_problem"
  assumes lawful: "ide_lawful P" and base: "ide_base run P s" and bounded: "bounded_height P"
  shows "\<exists>r. source_loop run P seeds keys s Map.empty = Some r"
proof -
  obtain height :: "'v \<Rightarrow> nat" and top where h: "\<And>x y. vle P x y \<Longrightarrow> x \<noteq> y \<Longrightarrow> height x < height y" and top: "\<And>x. height x \<le> top"
    using bounded unfolding bounded_height_def by blast
  let ?bound = "card (set keys) * Suc top"
  have weight_le: "weight height (set keys) \<sigma> \<le> ?bound" for \<sigma>
    unfolding weight_def using sum_bounded_above[of "set keys" "\<lambda>k. case \<sigma> k of None \<Rightarrow> 0 | Some v \<Rightarrow> Suc (height v)" "Suc top"]
    top by (simp split: option.splits)
  have "\<exists>r. source_loop run P seeds keys t \<sigma> = Some r" if "same_but_ide_bk run s t" "growing run P s seeds \<sigma>" for t \<sigma>
    using that
  proof (induction "?bound - weight height (set keys) \<sigma>" arbitrary: t \<sigma> rule: less_induct)
    case less
    show ?case
    proof (cases "running t")
      case False
      then show ?thesis by (subst source_loop.simps) simp
    next
      case c: True
      show ?thesis
      proof (cases "ide_check run 0 t")
        case (Inl e)
        then show ?thesis using c by (subst source_loop.simps) simp
      next
        case (Inr t1)
        have t1: "same_but_ide_bk run s t1" using less.prems(1) ide_check_Inr[OF Inr] by (rule same_but_ide_bk_trans)
        have same: "sweep run P t1 seeds keys \<sigma> = sweep run P s seeds keys \<sigma>"
          unfolding sweep_def update_source_def[abs_def] same_but_ide_bk_resolve[OF t1, of run P] ..
        obtain \<sigma>1 changed where sw: "sweep run P s seeds keys \<sigma> = (\<sigma>1, changed)" by (cases "sweep run P s seeds keys \<sigma>")
        show ?thesis
        proof (cases changed)
          case True
          then have sw': "sweep run P s seeds keys \<sigma> = (\<sigma>1, True)" using sw by simp
          note g = sweep_grows[where height = height, OF lawful base less.prems(2) h sw']
          have "?bound - weight height (set keys) \<sigma>1 < ?bound - weight height (set keys) \<sigma>"
            using g(2) weight_le[of \<sigma>1] by linarith
          then have "\<exists>r. source_loop run P seeds keys t1 \<sigma>1 = Some r" using less.hyps t1 g(1) by blast
          then show ?thesis using c Inr sw same True by (subst source_loop.simps) simp
        next
          case False
          then show ?thesis using c Inr sw same by (subst source_loop.simps) simp
        qed
      qed
    qed
  qed
  from this[OF same_but_ide_bk_refl, of Map.empty] show ?thesis by (simp add: growing_def)
qed

lemma ide_returns:
  assumes "ide_wf P" "ide_lawful P" "propagates_at_most run P l" "bounded_height P"
  shows "\<exists>res. ide_solve run P = Some res"
proof (cases "ide_seed_all run P (ide_start run)")
  case (Inl e)
  then show ?thesis by (simp add: ide_solve_def)
next
  case s0: (Inr s0)
  note inv = ide_seed_all_loop(1)[OF assms(1,2) s0]
  obtain wl where wl: "ide_worklist run P s0 = Some wl" using ide_worklist_returns[OF assms(1-3) inv] by blast
  show ?thesis
  proof (cases wl)
    case (Inl e)
    then show ?thesis using s0 wl by (simp add: ide_solve_def)
  next
    case (Inr s)
    have "ide_base run P s"
      using ide_worklist_result[OF wl assms(1,2) inv] Inr by (simp add: ide_loop_result_def ide_loop_inv_def ide_inv_def)
    then obtain r where "source_loop run P (map_of (seed_values run P)) (source_keys run (seed_values run P) s) s Map.empty = Some r"
      using source_loop_returns[OF assms(2) _ assms(4)] by blast
    then show ?thesis using s0 wl Inr by (cases r) (auto simp: ide_solve_def Let_def)
  qed
qed

lemma limit_bounds:
  "so_max_path_edges (sr_options (dr_base run)) = Some l \<Longrightarrow> propagates_at_most run P (max 0 l)"
  by (auto simp: propagates_at_most_def ide_loop_inv_def ide_inv_def ide_base_def within_def)

text \<open>Without a limit: finitely many path edges, and finitely many edge functions, in normal form.\<close>

definition finite_functions :: "('p, 'n, 'f, 'a, 'j, 'v) ide_problem \<Rightarrow> bool" where
  "finite_functions P \<longleftrightarrow> normal_functions P \<and> finite {f. edge_ok P f}"

lemma finite_bounds:
  fixes P :: "('p, 'n, 'f, 'a, 'j, 'v) ide_problem"
  assumes wf: "ide_wf P" and fin: "finite_functions P" and F: "closed_facts (erase P) F" "finite F"
  shows "\<exists>l. propagates_at_most run P l"
proof -
  let ?E = "{e. derives (dr_base run) (erase P) e}" and ?len = "\<lambda>f. int (length (joined_terms (de_join P) f))"
  let ?top = "Max (?len ` {f. edge_ok P f})"
  have E: "finite ?E" using finite_derivable[OF wf[unfolded ide_wf_def] F] .
  have "spent s \<le> int (card ?E) * ?top" if inv: "ide_loop_inv run P s" and c: "running s" for s
  proof -
    have base: "ide_base run P s" using inv by (simp add: ide_loop_inv_def ide_inv_def)
    have f: "edge_ok P f \<and> e \<in> ?E" if "jump_of s e = Some f" for e f
      using ide_base_jump[OF base that] way_tabulated[of P run e f] by (simp add: is_join_of_def derives_def depth_of_def)
    have dom: "dom (jump_of s) \<subseteq> ?E" using f by blast
    have len: "?len (the (jump_of s e)) \<le> ?top" if "e \<in> dom (jump_of s)" for e
      using that f fin by (auto simp: finite_functions_def intro!: Max_ge)
    have "?len IdentityEdge \<in> ?len ` {f. edge_ok P f}" by (rule image_eqI[of _ _ IdentityEdge]) simp_all
    then have "?len IdentityEdge \<le> ?top" using fin by (intro Max_ge) (simp_all add: finite_functions_def)
    then have top: "0 \<le> ?top" by linarith
    have "spent s \<le> terms_in P (jump_of s)" using base c fin by (simp add: ide_base_def finite_functions_def)
    also have "\<dots> \<le> int (card (dom (jump_of s))) * ?top"
      unfolding terms_in_def using sum_bounded_above[of "dom (jump_of s)" "\<lambda>e. ?len (the (jump_of s e))" ?top] len by simp
    also have "\<dots> \<le> int (card ?E) * ?top" using card_mono[OF E dom] top by (intro mult_right_mono) simp_all
    finally show ?thesis .
  qed
  then show ?thesis unfolding propagates_at_most_def by blast
qed

text \<open>C40: the solver terminates with a limit. When the number of path edges is limited and the values have a bounded
  height, \<^verbatim>\<open>solve\<close> returns a result or raises \<^verbatim>\<open>SolverLimitExceeded\<close>, for every problem, every other
  limit, depth, clock and order.\<close>

theorem ide_terminates_limited:
  assumes "ide_wf P" "ide_lawful P" "so_max_path_edges (sr_options (dr_base run)) = Some l" "bounded_height P"
  shows "\<exists>res. ide_solve run P = Some res \<and> (\<forall>e. res = Inl e \<longrightarrow> e = SolverLimitExceeded)"
  using ide_returns[OF assms(1,2) limit_bounds[OF assms(3)] assms(4)] ide_solve_errors[OF _ assms(1,2)] by blast

text \<open>C4: the solver terminates without a limit when the facts stay in a finite set, the flows give finitely
  many edge functions, all in normal form, and the values have a bounded height; without limit and
  token the result is complete.\<close>

theorem ide_terminates:
  assumes "ide_wf P" "ide_lawful P" "closed_facts (erase P) F" "finite F" "finite_functions P" "bounded_height P"
  shows "\<exists>res. ide_solve run P = Some res \<and> (\<not> stoppable (dr_base run) \<longrightarrow> (\<exists>r. res = Inr r \<and> dv_is_complete r))"
proof -
  obtain l where "propagates_at_most run P l" using finite_bounds[OF assms(1,5,3,4)] by blast
  from ide_returns[OF assms(1,2) this assms(6)] show ?thesis using ide_solve_errors[OF _ assms(1,2)] by blast
qed

end
