(* ===== verification/IdeExamples.thy ===== *)
theory IdeExamples
  imports IdeResults
begin

text \<open>
  Concrete runs of the IDE solver: Boolean values over the graph of \<open>Supergraphs\<close>, and over the same graph
  with a call that has no return site. They satisfy the hypotheses of the theorems of \<open>IdeResults\<close>.
\<close>

definition or_semantics :: "(bool, unit, bool) edge_semantics" where
  "or_semantics = \<lparr>es_apply = (\<or>), es_idempotent = (\<lambda>a. True), es_join = (\<lambda>j. (\<or>))\<rparr>"

definition values_on :: "(string, nat) supergraph \<Rightarrow> (string, nat, nat, bool, unit, bool) ide_problem" where
  "values_on g =
     \<lparr>de_supergraph = g, de_zero = 0, de_bottom = False, de_semantics = or_semantics, de_join = (),
      de_seeds = [((0, 0), False)],
      de_normal = (\<lambda>n m d. if n = 0 \<and> d = 0 then [ValueTransition 0 IdentityEdge, ValueTransition 7 (AtomEdge True)]
        else [ValueTransition d IdentityEdge]),
      de_call = (\<lambda>n p d. [ValueTransition d IdentityEdge]),
      de_return = (\<lambda>n p x r d d'. if d' = 7 then [ValueTransition 8 IdentityEdge] else []),
      de_call_to_return = (\<lambda>n r d. if d = 0 then [ValueTransition 0 IdentityEdge] else [])\<rparr>"

definition example_value_run :: "int option \<Rightarrow> (nat, nat, nat, (bool, unit, bool) edge_function) ide_run" where
  "example_value_run depth =
     \<lparr>dr_base = example_run depth, dr_edge_key = (\<lambda>f. 0), dr_repr = (\<lambda>(n, d, c). 100 * n + d)\<rparr>"

lemma or_lawful: "lawful or_semantics ()"
  by (auto simp: lawful_def or_semantics_def)

lemma values_on_simps [simp]:
  "de_supergraph (values_on g) = g" "de_semantics (values_on g) = or_semantics" "de_join (values_on g) = ()"
  by (simp_all add: values_on_def)

lemma example_flows: "f \<in> all_transitions (values_on g) \<Longrightarrow> f = IdentityEdge \<or> f = AtomEdge True"
  by (auto simp: all_transitions_def values_on_def split: if_splits)

lemma values_on_wf:
  assumes "sg_step\<^sup>*\<^sup>* sg_new g" "known_node g 0"
  shows "ide_wf (values_on g)"
  using sg_built_wf[OF assms(1)] assms(2) by (simp add: ide_wf_def problem_wf_def erase_def values_on_def)

lemma values_on_lawful: "ide_lawful (values_on g)"
  using or_lawful example_flows by (fastforce simp: ide_lawful_def)

lemma values_on_closed: "closed_facts (erase (values_on g)) {0, 7, 8}"
  by (auto simp: closed_facts_def erase_def values_on_def facts_of_def erase_outputs_def)

definition example_functions :: "(bool, unit, bool) edge_function set" where
  "example_functions = {IdentityEdge, AtomEdge True, JoinedEdge IdentityEdge (AtomEdge True) (), JoinedEdge (AtomEdge True) IdentityEdge ()}"

lemma example_edge_ok: "edge_ok (values_on g) f \<Longrightarrow> f \<in> example_functions"
proof (induction rule: edge_ok.induct)
  case (flow_ok f)
  then show ?case using example_flows by (auto simp: example_functions_def)
next
  case (compose_ok f g)
  then show ?case
    by (auto simp: example_functions_def compose.simps join_def joined_from_def merge_terms_def composed_from_def or_semantics_def)
next
  case (join_ok f g)
  then show ?case by (auto simp: example_functions_def join_def joined_from_def merge_terms_def)
qed (simp add: example_functions_def)

lemma example_finite_functions: "finite_functions (values_on g)"
proof -
  have i: "normal_form or_semantics () IdentityEdge" and a: "normal_form or_semantics () (AtomEdge True)"
    by (simp_all add: normal_forms_closed)
  have n: "normal_form or_semantics () f" if "edge_ok (values_on g) f" for f
    using that
  proof (induction rule: edge_ok.induct)
    case (flow_ok f)
    then show ?case using example_flows i a by blast
  qed (use normal_join normal_compose i in simp_all)
  have "finite {f. edge_ok (values_on g) f}"
    by (rule finite_subset[of _ example_functions]) (use example_edge_ok in blast, simp add: example_functions_def)
  with n show ?thesis by (simp add: finite_functions_def normal_functions_def)
qed

lemma example_bounded: "bounded_height (values_on g)"
proof -
  have "vle (values_on g) x y \<longleftrightarrow> (x \<longrightarrow> y)" for x y
    by (auto simp: vle_iff[OF values_on_lawful] join_values_def or_semantics_def)
  then show ?thesis unfolding bounded_height_def by (intro exI[of _ "\<lambda>b. if b then 1 else 0"] exI[of _ 1]) auto
qed

lemma values_on_least: "X True \<Longrightarrow> least_upper (values_on g) X True"
  by (auto simp: least_upper_def vle_iff[OF values_on_lawful] join_values_def or_semantics_def)

lemma values_on_solved:
  assumes "ide_wf (values_on g)"
  obtains r where "ide_solve (example_value_run depth) (values_on g) = Some (Inr r)" "dv_is_complete r"
proof -
  obtain l where l: "propagates_at_most (example_value_run depth) (values_on g) l"
    using finite_bounds[OF assms example_finite_functions values_on_closed] by auto
  obtain res where res: "ide_solve (example_value_run depth) (values_on g) = Some res"
    using ide_returns[OF assms values_on_lawful l example_bounded] by blast
  have "\<not> stoppable (dr_base (example_value_run depth))" by (simp add: example_value_run_def example_not_stoppable)
  then obtain r where "res = Inr r" "dv_is_complete r"
    using ide_solve_errors[OF res assms values_on_lawful] by blast
  then show thesis using that res by blast
qed

lemma sg_wf_callers: "sg_wf g \<Longrightarrow> callees_of_call_at g n \<noteq> {} \<Longrightarrow> n \<in> set (map fst (sg_node_to_proc g))"
proof -
  assume "sg_wf g" "callees_of_call_at g n \<noteq> {}"
  then have "known_node g n" by (auto simp: sg_wf_def sg_ok_def sg_edges_def)
  then show ?thesis by (auto simp: known_node_def map_of_eq_None_iff)
qed

text \<open>The graph of \<open>Supergraphs\<close>, where \<open>f\<close> returns to node 2.\<close>

abbreviation example_values :: "(string, nat, nat, bool, unit, bool) ide_problem" where
  "example_values \<equiv> values_on example_graph"

lemma example_values_wf: "ide_wf example_values"
  by (rule values_on_wf[OF example_graph_built]) code_simp

lemma example_values_return: "calls_return example_values"
proof -
  have "list_all (\<lambda>n. callees_of_call_at example_graph n \<noteq> {} \<longrightarrow> return_sites_of_call_at example_graph n \<noteq> {})
      (map fst (sg_node_to_proc example_graph))" by code_simp
  then show ?thesis
    using sg_wf_callers[OF sg_built_wf[OF example_graph_built]] unfolding calls_return_def list_all_iff values_on_simps by blast
qed

text \<open>The run of \<open>example_reachable\<close>, with its value, and all its calls have returned.\<close>

lemma example_value_reached: "valued_run example_values 3 8 [] True"
proof -
  have "valued_run example_values 0 0 [] False"
    by (rule valued_run.start) (simp add: values_on_def)
  then have "valued_run example_values 1 7 [] (apply_edge example_values (AtomEdge True) False)"
    by (rule valued_run.step) (unfold values_on_simps, code_simp, simp add: values_on_def)
  then have "valued_run example_values 10 7 [(1, ''f'', 7)] (apply_edge example_values IdentityEdge (apply_edge example_values (AtomEdge True) False))"
    by (rule valued_run.enter) (unfold values_on_simps, code_simp, code_simp, code_simp, simp add: values_on_def)
  then have "valued_run example_values 11 7 [(1, ''f'', 7)] (apply_edge example_values IdentityEdge (apply_edge example_values IdentityEdge
      (apply_edge example_values (AtomEdge True) False)))"
    by (rule valued_run.step) (unfold values_on_simps, code_simp, simp add: values_on_def)
  then have "valued_run example_values 2 8 [] (apply_edge example_values IdentityEdge (apply_edge example_values IdentityEdge
      (apply_edge example_values IdentityEdge (apply_edge example_values (AtomEdge True) False))))"
    by (rule valued_run.leave) (unfold values_on_simps, code_simp, code_simp, simp add: values_on_def)
  then have "valued_run example_values 3 8 [] (apply_edge example_values IdentityEdge (apply_edge example_values IdentityEdge (apply_edge example_values IdentityEdge
      (apply_edge example_values IdentityEdge (apply_edge example_values (AtomEdge True) False)))))"
    by (rule valued_run.step) (unfold values_on_simps, code_simp, simp add: values_on_def)
  then show ?thesis by (simp add: or_semantics_def)
qed

theorem ide_solution_exact_witness:
  "\<exists>r. ide_solve (example_value_run (Some 2)) example_values = Some (Inr r) \<and> 8 \<in> dv_facts_at r 3 \<and> value_at r 3 8 = Inr True"
proof -
  obtain r where r: "ide_solve (example_value_run (Some 2)) example_values = Some (Inr r)" "dv_is_complete r"
    by (rule values_on_solved[OF example_values_wf])
  have "\<exists>stack. valued_run example_values 3 8 stack True" using example_value_reached by blast
  note exact = ide_solution_exact[OF r example_values_wf values_on_lawful example_values_return, of 8 3]
  have "8 \<in> dv_facts_at r 3" using conjunct1[OF exact] example_value_reached by blast
  moreover have "value_at r 3 8 = Inr True"
    using conjunct1[OF conjunct2[OF exact]] values_on_least[of "\<lambda>x. \<exists>stack. valued_run example_values 3 8 stack x"]
      example_value_reached by blast
  ultimately show ?thesis using r(1) by blast
qed

theorem ide_context_exact_witness:
  "\<exists>r. ide_solve (example_value_run (Some 2)) example_values = Some (Inr r) \<and>
     value_at_context r 3 8 (Some (CallContext [] 2)) = Inr True"
proof -
  obtain r where r: "ide_solve (example_value_run (Some 2)) example_values = Some (Inr r)" "dv_is_complete r"
    by (rule values_on_solved[OF example_values_wf])
  have c: "call_string (Some 2) ([] :: (string, nat, nat) frame list) = Some (CallContext [] 2)"
    by (simp add: seed_context_def)
  have depth: "dr_depth (example_value_run (Some 2)) = Some 2"
    by (simp add: example_value_run_def example_run_def)
  have "\<exists>stack. valued_run example_values 3 8 stack True \<and>
      call_string (dr_depth (example_value_run (Some 2))) stack = Some (CallContext [] 2) \<and> returning example_values stack"
    using example_value_reached c all_returning[OF _ example_values_return] unfolding depth by blast
  from values_on_least[of "\<lambda>x. \<exists>stack. valued_run example_values 3 8 stack x \<and>
      call_string (dr_depth (example_value_run (Some 2))) stack = Some (CallContext [] 2) \<and> returning example_values stack", OF this]
    conjunct1[OF ide_context_exact[OF r example_values_wf values_on_lawful, of 3 8 "Some (CallContext [] 2)"]]
  have "value_at_context r 3 8 (Some (CallContext [] 2)) = Inr True" by simp
  with r(1) show ?thesis by blast
qed

theorem ide_depth_irrelevant_witness:
  "\<exists>r r'. ide_solve (example_value_run None) example_values = Some (Inr r) \<and>
     ide_solve (example_value_run (Some 1)) example_values = Some (Inr r') \<and> value_at r 3 8 = value_at r' 3 8"
proof -
  obtain r where r: "ide_solve (example_value_run None) example_values = Some (Inr r)" "dv_is_complete r"
    by (rule values_on_solved[OF example_values_wf])
  obtain r' where r': "ide_solve (example_value_run (Some 1)) example_values = Some (Inr r')" "dv_is_complete r'"
    by (rule values_on_solved[OF example_values_wf])
  show ?thesis
    using r(1) r'(1) ide_depth_irrelevant[OF r r' example_values_wf values_on_lawful, of 3 8] by blast
qed

theorem ide_terminates_witness:
  "\<exists>res. ide_solve (example_value_run (Some 1)) example_values = Some res"
  using ide_terminates[OF example_values_wf values_on_lawful values_on_closed _ example_finite_functions example_bounded,
      of "example_value_run (Some 1)"] by auto

theorem ide_terminates_limited_witness:
  "\<exists>res. ide_solve ((example_value_run None)\<lparr>dr_base := (example_run None)\<lparr>sr_options :=
       default_solver_options\<lparr>so_max_path_edges := Some 3\<rparr>\<rparr>\<rparr>) example_values = Some res"
  using ide_terminates_limited[OF example_values_wf values_on_lawful _ example_bounded,
      of "(example_value_run None)\<lparr>dr_base := (example_run None)\<lparr>sr_options := default_solver_options\<lparr>so_max_path_edges := Some 3\<rparr>\<rparr>\<rparr>" 3]
  by auto

theorem ide_errors_witness:
  "\<exists>r. ide_solve (example_value_run None) example_values = Some (Inr r) \<and> dv_is_complete r"
proof -
  obtain r where r: "ide_solve (example_value_run None) example_values = Some (Inr r)" by (rule values_on_solved[OF example_values_wf])
  have "\<not> stoppable (dr_base (example_value_run None))" by (simp add: example_value_run_def example_not_stoppable)
  then show ?thesis using ide_errors[OF r example_values_wf values_on_lawful] r by blast
qed

text \<open>The same without the return site: \<open>f\<close> is called, and nothing comes back.\<close>

definition open_graph :: "(string, nat) supergraph" where
  "open_graph = snd (run_builders
     [add_procedure ''main'' 0 [3], add_node ''main'' 1, add_procedure ''f'' 10 [11], add_normal_edge 0 1,
      add_normal_edge 10 11, add_call_edge 1 ''f'' None])"

lemma open_graph_built: "sg_step\<^sup>*\<^sup>* sg_new open_graph"
proof -
  have "fst (run_builders
     [add_procedure ''main'' 0 [3], add_node ''main'' 1, add_procedure ''f'' 10 [11], add_normal_edge (0::nat) 1,
      add_normal_edge 10 11, add_call_edge 1 ''f'' None]) = Inr ()" by code_simp
  then show ?thesis
    unfolding open_graph_def by (intro run_builders_built[OF prod_eqI]) (auto intro: sg_step.intros)
qed

lemma open_wf: "ide_wf (values_on open_graph)"
  by (rule values_on_wf[OF open_graph_built]) code_simp

lemma open_no_returns: "return_sites_of_call_at open_graph n = {}"
proof (rule ccontr)
  assume r: "return_sites_of_call_at open_graph n \<noteq> {}"
  then have "n \<in> fst ` set (sg_node_to_proc open_graph)"
    using sg_wf_return_sites[OF sg_built_wf[OF open_graph_built], of _ n] map_of_SomeD
    by (force simp: procedure_of_def split: option.splits)
  moreover have "list_all (\<lambda>n. return_sites_of_call_at open_graph n = {}) (map fst (sg_node_to_proc open_graph))" by code_simp
  ultimately show False using r by (auto simp: list_all_iff)
qed

lemma open_stacks: "valued_run (values_on open_graph) n d stack v \<Longrightarrow> n \<in> {10, 11} \<Longrightarrow> stack \<noteq> []"
proof (induction rule: valued_run.induct)
  case (step n d stack v m d' f)
  have "n \<in> fst ` set (sg_node_to_proc open_graph)"
    using sg_wf_normal[OF sg_built_wf[OF open_graph_built], of m n] step.hyps(2) map_of_SomeD
    by (force simp: procedure_of_def split: option.splits)
  moreover have "list_all (\<lambda>n. list_all (\<lambda>m. m \<in> {10, 11} \<longrightarrow> n \<in> {10, 11}) (get_list (sg_normal_succs open_graph) n))
      (map fst (sg_node_to_proc open_graph))" by code_simp
  ultimately have "n \<in> {10, 11}" using step.hyps(2) step.prems by (auto simp: list_all_iff normal_successors_def)
  then show ?case by (rule step.IH)
next
  case (skip n d stack v r d' f)
  then show ?case using sg_wf_call_to_return[OF sg_built_wf[OF open_graph_built], of n] by (simp add: open_no_returns)
qed (auto simp: open_no_returns values_on_def)

theorem ide_unreturned_bottom_witness:
  "\<exists>r. ide_solve (example_value_run None) (values_on open_graph) = Some (Inr r) \<and>
     valued_run (values_on open_graph) 10 7 [(1, ''f'', 7)] True \<and> value_at r 10 7 = Inr False"
proof -
  obtain r where r: "ide_solve (example_value_run None) (values_on open_graph) = Some (Inr r)" "dv_is_complete r"
    by (rule values_on_solved[OF open_wf])
  have "valued_run (values_on open_graph) 0 0 [] False" by (rule valued_run.start) (simp add: values_on_def)
  then have "valued_run (values_on open_graph) 1 7 [] (apply_edge (values_on open_graph) (AtomEdge True) False)"
    by (rule valued_run.step) (unfold values_on_simps, code_simp, simp add: values_on_def)
  then have "valued_run (values_on open_graph) 10 7 [(1, ''f'', 7)]
      (apply_edge (values_on open_graph) IdentityEdge (apply_edge (values_on open_graph) (AtomEdge True) False))"
    by (rule valued_run.enter) (unfold values_on_simps, code_simp, code_simp, code_simp, simp add: values_on_def)
  then have run: "valued_run (values_on open_graph) 10 7 [(1, ''f'', 7)] True" by (simp add: or_semantics_def)
  have "value_at r 10 7 = Inr (de_bottom (values_on open_graph))"
    by (rule conjunct2[OF ide_unreturned_bottom[OF r open_wf values_on_lawful run]])
      (use open_stacks in \<open>force simp: open_no_returns neq_Nil_conv\<close>)
  then show ?thesis using r(1) run by (auto simp: values_on_def)
qed

end
