(* ===== verification/MirSyntax.thy ===== *)
theory MirSyntax
  imports PyBase "HOL-Library.AList"
begin

text \<open>
  The seven-instruction MIR language, \<^verbatim>\<open>ir/mir/model.py\<close>: expressions, instructions, control-flow
  graphs, programs, and \<^verbatim>\<open>Program.validate\<close>.

  A Python string is the list of the bytes of its UTF-8 encoding, which keeps equality,
  concatenation and the order of strings. A dict is an association list in insertion order.
  All positions of the syntax that the source types as l-values hold expressions here, as in
  Python, where only the validation checks them.
\<close>

section \<open>Syntax\<close>

datatype literal = LBool bool | LInt int | LStr string

datatype expr =
    Var string
  | Attr expr expr
  | Literal literal
  | NewObject
  | ListExpr "expr list"
  | DictExpr "(string \<times> expr) list"
  | Lambda (args_param: string) (kwargs_param: string) (parent_param: string) (body: string)
      (return_var: string)
  | NotExpr expr
  | Length expr
  | Binary string expr expr

text \<open>\<^verbatim>\<open>isinstance(e, LValue)\<close>.\<close>

fun is_lvalue :: "expr \<Rightarrow> bool" where
  "is_lvalue (Var x) = True"
| "is_lvalue (Attr b k) = True"
| "is_lvalue e = False"

datatype instruction =
    Skip
  | Assume expr
  | Alloc string expr
  | Bind expr expr
  | Env string
  | Delete expr
  | Call string expr expr expr

record mir_node =
  nd_id :: int
  nd_instruction :: instruction
  nd_successors :: "int list"
  nd_lineno :: "int option"

record mir_cfg =
  cg_name :: string
  cg_nodes :: "(int \<times> mir_node) list"
  cg_entry :: int
  cg_exit :: int
  cg_synthetic :: bool
  cg_filename :: string
  cg_parameters :: "string list"
  cg_receiver_class :: "string option"
  cg_receiver_kind :: "string option"

record mir_program =
  mp_cfgs :: "(string \<times> mir_cfg) list"
  mp_entry :: string

section \<open>Validation\<close>

abbreviation MIRValidationError :: py_error where
  "MIRValidationError \<equiv> OtherError ''MIRValidationError''"

definition require :: "bool \<Rightarrow> unit res" where
  "require b = (if b then Inr () else Inl MIRValidationError)"

lemma require_iff [simp]: "require b = Inr u \<longleftrightarrow> b" "require b = Inl e \<longleftrightarrow> \<not> b \<and> e = MIRValidationError"
  by (auto simp: require_def)

text \<open>\<^verbatim>\<open>_identifier\<close>: a nonempty string.\<close>

definition check_identifier :: "string \<Rightarrow> unit res" where
  "check_identifier s = require (s \<noteq> [])"

text \<open>The operator \<^verbatim>\<open>U+2228\<close> in UTF-8, the alternative spelling of \<^verbatim>\<open>or\<close>.\<close>

definition or_sign :: string where
  "or_sign = [CHR 0xE2, CHR 0x88, CHR 0xA8]"

definition primitive_operators :: "string list" where
  "primitive_operators = [''+'', ''-'', ''='', ''<'', ''or'', or_sign, ''in'']"

fun validate_expr :: "mir_program \<Rightarrow> bool \<Rightarrow> expr \<Rightarrow> unit res" where
  "validate_expr P lvalue e =
     (if lvalue \<and> \<not> is_lvalue e then Inl MIRValidationError
      else case e of
        Var x \<Rightarrow> check_identifier x
      | Attr b k \<Rightarrow> bind_res (validate_expr P True b) (\<lambda>_. validate_expr P False k)
      | Literal l \<Rightarrow> Inr ()
      | NewObject \<Rightarrow> Inr ()
      | ListExpr items \<Rightarrow> fold_res (\<lambda>item _. validate_expr P True item) items ()
      | DictExpr items \<Rightarrow> fold_res (\<lambda>item _. validate_expr P True (snd item)) items ()
      | Lambda a k p b r \<Rightarrow>
          bind_res (fold_res (\<lambda>name _. check_identifier name) [a, k, p, r] ())
            (\<lambda>_. bind_res (require (distinct [a, k, p]))
               (\<lambda>_. require (b \<in> fst ` set (mp_cfgs P))))
      | NotExpr e \<Rightarrow> validate_expr P False e
      | Length e \<Rightarrow> validate_expr P False e
      | Binary op l r \<Rightarrow>
          bind_res (require (op \<in> set primitive_operators))
            (\<lambda>_. bind_res (validate_expr P False l) (\<lambda>_. validate_expr P False r)))"

declare validate_expr.simps [simp del]

definition validate_instruction :: "mir_program \<Rightarrow> instruction \<Rightarrow> unit res" where
  "validate_instruction P i =
     (case i of
        Skip \<Rightarrow> Inr ()
      | Assume e \<Rightarrow> validate_expr P False e
      | Alloc x e \<Rightarrow> bind_res (check_identifier x) (\<lambda>_. validate_expr P False e)
      | Bind t s \<Rightarrow> bind_res (validate_expr P True t) (\<lambda>_. validate_expr P True s)
      | Env x \<Rightarrow> check_identifier x
      | Delete t \<Rightarrow> validate_expr P True t
      | Call x f a k \<Rightarrow>
          bind_res (check_identifier x) (\<lambda>_. bind_res (validate_expr P False f)
            (\<lambda>_. bind_res (validate_expr P True a) (\<lambda>_. validate_expr P True k))))"

definition validate_node :: "mir_program \<Rightarrow> mir_cfg \<Rightarrow> int \<times> mir_node \<Rightarrow> unit res" where
  "validate_node P g entry =
     (case entry of (node_id, node) \<Rightarrow>
        bind_res (require (nd_id node = node_id))
          (\<lambda>_. bind_res (require (distinct (nd_successors node)))
             (\<lambda>_. bind_res (fold_res (\<lambda>s _. require (s \<in> fst ` set (cg_nodes g))) (nd_successors node) ())
                (\<lambda>_. validate_instruction P (nd_instruction node)))))"

definition validate_cfg :: "mir_program \<Rightarrow> string \<times> mir_cfg \<Rightarrow> unit res" where
  "validate_cfg P entry =
     (case entry of (name, g) \<Rightarrow>
        bind_res (require (name = cg_name g))
          (\<lambda>_. case (map_of (cg_nodes g) (cg_entry g), map_of (cg_nodes g) (cg_exit g)) of
             (Some _, Some exit_node) \<Rightarrow>
               bind_res (require (nd_successors exit_node = []))
                 (\<lambda>_. fold_res (\<lambda>n _. validate_node P g n) (cg_nodes g) ())
           | _ \<Rightarrow> Inl MIRValidationError))"

definition validate :: "mir_program \<Rightarrow> unit res" where
  "validate P =
     bind_res (require (mp_entry P \<in> fst ` set (mp_cfgs P)))
       (\<lambda>_. fold_res (\<lambda>g _. validate_cfg P g) (mp_cfgs P) ())"

section \<open>What validation establishes\<close>

text \<open>The grammar of the language, as a predicate.\<close>

fun wf_expr :: "mir_program \<Rightarrow> expr \<Rightarrow> bool" where
  "wf_expr P (Var x) = (x \<noteq> [])"
| "wf_expr P (Attr b k) = (is_lvalue b \<and> wf_expr P b \<and> wf_expr P k)"
| "wf_expr P (Literal l) = True"
| "wf_expr P NewObject = True"
| "wf_expr P (ListExpr items) = (\<forall>e\<in>set items. is_lvalue e \<and> wf_expr P e)"
| "wf_expr P (DictExpr items) = (\<forall>kv\<in>set items. is_lvalue (snd kv) \<and> wf_expr P (snd kv))"
| "wf_expr P (Lambda a k p b r) =
     (a \<noteq> [] \<and> k \<noteq> [] \<and> p \<noteq> [] \<and> r \<noteq> [] \<and> distinct [a, k, p] \<and> b \<in> fst ` set (mp_cfgs P))"
| "wf_expr P (NotExpr e) = wf_expr P e"
| "wf_expr P (Length e) = wf_expr P e"
| "wf_expr P (Binary op l r) = (op \<in> set primitive_operators \<and> wf_expr P l \<and> wf_expr P r)"

fun wf_instruction :: "mir_program \<Rightarrow> instruction \<Rightarrow> bool" where
  "wf_instruction P Skip = True"
| "wf_instruction P (Assume e) = wf_expr P e"
| "wf_instruction P (Alloc x e) = (x \<noteq> [] \<and> wf_expr P e)"
| "wf_instruction P (Bind t s) = (is_lvalue t \<and> wf_expr P t \<and> is_lvalue s \<and> wf_expr P s)"
| "wf_instruction P (Env x) = (x \<noteq> [])"
| "wf_instruction P (Delete t) = (is_lvalue t \<and> wf_expr P t)"
| "wf_instruction P (Call x f a k) =
     (x \<noteq> [] \<and> wf_expr P f \<and> is_lvalue a \<and> wf_expr P a \<and> is_lvalue k \<and> wf_expr P k)"

definition wf_node :: "mir_program \<Rightarrow> mir_cfg \<Rightarrow> int \<times> mir_node \<Rightarrow> bool" where
  "wf_node P g entry \<longleftrightarrow> nd_id (snd entry) = fst entry \<and> distinct (nd_successors (snd entry)) \<and>
     set (nd_successors (snd entry)) \<subseteq> fst ` set (cg_nodes g) \<and> wf_instruction P (nd_instruction (snd entry))"

definition wf_cfg :: "mir_program \<Rightarrow> string \<times> mir_cfg \<Rightarrow> bool" where
  "wf_cfg P entry \<longleftrightarrow> fst entry = cg_name (snd entry) \<and>
     cg_entry (snd entry) \<in> fst ` set (cg_nodes (snd entry)) \<and>
     (\<exists>x. map_of (cg_nodes (snd entry)) (cg_exit (snd entry)) = Some x \<and> nd_successors x = []) \<and>
     (\<forall>n\<in>set (cg_nodes (snd entry)). wf_node P (snd entry) n)"

definition wf_program :: "mir_program \<Rightarrow> bool" where
  "wf_program P \<longleftrightarrow> mp_entry P \<in> fst ` set (mp_cfgs P) \<and> (\<forall>g\<in>set (mp_cfgs P). wf_cfg P g)"

lemma fold_unit_iff: "fold_res (\<lambda>x _. f x) xs () = Inr () \<longleftrightarrow> (\<forall>x\<in>set xs. f x = Inr ())"
  by (induction xs) (auto simp: bind_res_eq_Inr)

lemma fold_unit_Inl: "fold_res (\<lambda>x _. f x) xs () = Inl e \<Longrightarrow> \<exists>x\<in>set xs. f x = Inl e"
  by (induction xs) (auto simp: bind_res_eq_Inl)

lemma validate_expr_iff: "validate_expr P lvalue e = Inr () \<longleftrightarrow> (lvalue \<longrightarrow> is_lvalue e) \<and> wf_expr P e"
proof (induction P lvalue e rule: validate_expr.induct)
  case (1 P lvalue e)
  show ?case
  proof (cases "lvalue \<and> \<not> is_lvalue e")
    case True
    then show ?thesis by (simp add: validate_expr.simps)
  next
    case False
    note IH = 1[OF False]
    show ?thesis
    proof (cases e)
      case (Lambda a k p b r)
      then show ?thesis using False
        by (auto simp: validate_expr.simps check_identifier_def bind_res_eq_Inr)
    next
      case (ListExpr items)
      then show ?thesis using False IH(3) by (auto simp: validate_expr.simps fold_unit_iff)
    next
      case (DictExpr items)
      then show ?thesis using False IH(4) by (auto simp: validate_expr.simps fold_unit_iff)
    qed (use False IH in \<open>auto simp: validate_expr.simps check_identifier_def bind_res_eq_Inr\<close>)
  qed
qed

lemma validate_expr_error: "validate_expr P lvalue e = Inl err \<Longrightarrow> err = MIRValidationError"
proof (induction P lvalue e rule: validate_expr.induct)
  case (1 P lvalue e)
  show ?case
  proof (cases "lvalue \<and> \<not> is_lvalue e")
    case True
    then show ?thesis using 1(9) by (simp add: validate_expr.simps)
  next
    case False
    note IH = 1(1-8)[OF False]
    show ?thesis
    proof (cases e)
      case (ListExpr items)
      then show ?thesis using False IH(3) 1(9) fold_unit_Inl[of "validate_expr P True" items err]
        by (auto simp: validate_expr.simps)
    next
      case (DictExpr items)
      then show ?thesis using False IH(4) 1(9) fold_unit_Inl[of "\<lambda>item. validate_expr P True (snd item)" items err]
        by (auto simp: validate_expr.simps)
    next
      case (Lambda a k p b r)
      then show ?thesis using False 1(9)
        by (auto simp: validate_expr.simps check_identifier_def bind_res_eq_Inl)
    qed (use False IH 1(9) in \<open>auto simp: validate_expr.simps check_identifier_def bind_res_eq_Inl\<close>)
  qed
qed

lemma validate_instruction_iff: "validate_instruction P i = Inr () \<longleftrightarrow> wf_instruction P i"
  by (cases i) (auto simp: validate_instruction_def bind_res_eq_Inr validate_expr_iff check_identifier_def)

lemma validate_instruction_error: "validate_instruction P i = Inl err \<Longrightarrow> err = MIRValidationError"
  by (cases i)
    (auto simp: validate_instruction_def bind_res_eq_Inl check_identifier_def dest: validate_expr_error)

lemma validate_node_iff: "validate_node P g n = Inr () \<longleftrightarrow> wf_node P g n"
  by (cases n) (auto simp: validate_node_def wf_node_def bind_res_eq_Inr fold_unit_iff validate_instruction_iff)

lemma validate_node_error: "validate_node P g n = Inl err \<Longrightarrow> err = MIRValidationError"
  by (cases n) (auto simp: validate_node_def bind_res_eq_Inl dest: validate_instruction_error fold_unit_Inl)

lemma map_of_eq_Some_ex: "k \<in> fst ` set xs \<longleftrightarrow> (\<exists>v. map_of xs k = Some v)"
  by (metis map_of_eq_None_iff option.exhaust option.distinct(1))

lemma validate_cfg_iff: "validate_cfg P g = Inr () \<longleftrightarrow> wf_cfg P g"
  by (cases g) (auto simp: validate_cfg_def wf_cfg_def bind_res_eq_Inr fold_unit_iff validate_node_iff
      map_of_eq_Some_ex split: option.splits)

lemma validate_cfg_error: "validate_cfg P g = Inl err \<Longrightarrow> err = MIRValidationError"
  by (cases g) (auto simp: validate_cfg_def bind_res_eq_Inl
      dest: validate_node_error fold_unit_Inl split: option.splits)

lemma validate_iff: "validate P = Inr () \<longleftrightarrow> wf_program P"
  by (auto simp: validate_def wf_program_def bind_res_eq_Inr fold_unit_iff validate_cfg_iff)

lemma validate_error: "validate P = Inl err \<Longrightarrow> err = MIRValidationError"
  by (auto simp: validate_def bind_res_eq_Inl dest: validate_cfg_error fold_unit_Inl)

text \<open>validation decides the grammar. \<^verbatim>\<open>Program.validate\<close> accepts a program exactly when its
  entry and its lambda bodies are graphs of it, every graph is stored under its name with an
  existing entry and an exit without successors, every node under its identifier with different
  existing successors, references stand where references must, identifiers are not empty,
  the parameters of a lambda are different and operators are the primitive ones; anything else
  raises \<^verbatim>\<open>MIRValidationError\<close>, and no other exception.\<close>

theorem validate_decides_grammar:
  "validate P = (if wf_program P then Inr () else Inl MIRValidationError)"
  using validate_iff[of P] validate_error[of P] by (cases "validate P") auto

section \<open>An example\<close>

text \<open>A call of a one-instruction function, and a branch on its result.\<close>

definition node_at :: "int \<Rightarrow> instruction \<Rightarrow> int list \<Rightarrow> int \<times> mir_node" where
  "node_at i ins succ = (i, \<lparr>nd_id = i, nd_instruction = ins, nd_successors = succ, nd_lineno = Some (i + 1)\<rparr>)"

definition example_program :: mir_program where
  "example_program =
     \<lparr>mp_cfgs =
        [(''main'', \<lparr>cg_name = ''main'',
            cg_nodes =
              [node_at 7 Skip [],
               node_at 0 (Alloc ''x'' (Literal (LInt 7))) [1],
               node_at 1 (Alloc ''f'' (Lambda ''a'' ''k'' ''p'' ''leaf'' ''r'')) [2],
               node_at 2 (Alloc ''args'' (ListExpr [Var ''x''])) [3],
               node_at 3 (Alloc ''kw'' (DictExpr [])) [4],
               node_at 4 (Call ''out'' (Var ''f'') (Var ''args'') (Var ''kw'')) [5, 6],
               node_at 5 (Assume (Binary ''<'' (Var ''out'') (Literal (LInt 9)))) [7],
               node_at 6 (Assume (NotExpr (Binary ''<'' (Var ''out'') (Literal (LInt 9))))) [7]],
            cg_entry = 0, cg_exit = 7, cg_synthetic = False, cg_filename = ''example.py'',
            cg_parameters = [], cg_receiver_class = None, cg_receiver_kind = None\<rparr>),
         (''leaf'', \<lparr>cg_name = ''leaf'',
            cg_nodes = [node_at 0 (Bind (Var ''r'') (Attr (Var ''a'') (Literal (LInt 1)))) [1], node_at 1 Skip []],
            cg_entry = 0, cg_exit = 1, cg_synthetic = False, cg_filename = ''example.py'',
            cg_parameters = [], cg_receiver_class = None, cg_receiver_kind = None\<rparr>)],
      mp_entry = ''main''\<rparr>"

lemma example_program_valid: "validate example_program = Inr ()"
  by code_simp

end
