(* ===== verification/MirSerialization.thy ===== *)
theory MirSerialization
  imports MirSyntax
begin

text \<open>
  The JSON form of MIR programs: \<^verbatim>\<open>Program.to_dict\<close> and \<^verbatim>\<open>_encode\<close> of \<^verbatim>\<open>ir/mir/model.py\<close> and the strict
  loader \<^verbatim>\<open>ir/mir/serialization.py\<close>, with the round trip between them.

  JSON data is the tree that \<^verbatim>\<open>json.loads\<close> gives; \<open>JOther\<close> is any other Python value. Every error
  of the loader is a \<^verbatim>\<open>MIRValidationError\<close>; its path and text are not modelled.
\<close>

section \<open>JSON\<close>

datatype json =
    JNull
  | JBool bool
  | JInt int
  | JStr string
  | JArray "json list"
  | JObject "(string \<times> json) list"
  | JOther

text \<open>\<^verbatim>\<open>str(i)\<close>, and \<^verbatim>\<open>int(s)\<close> on an optional minus sign and digits. Other strings that \<^verbatim>\<open>int\<close> accepts
  (blanks, a plus sign, underscores) are not equal to the string of their value, so the loader
  rejects them, like the strings \<^verbatim>\<open>int\<close> does not accept.\<close>

fun show_nat :: "nat \<Rightarrow> string" where
  "show_nat n = (if n < 10 then [] else show_nat (n div 10)) @ [char_of (48 + n mod 10)]"

declare show_nat.simps [simp del]

definition show_int :: "int \<Rightarrow> string" where
  "show_int i = (if i < 0 then CHR ''-'' # show_nat (nat (- i)) else show_nat (nat i))"

definition digit_of :: "char \<Rightarrow> nat option" where
  "digit_of c = (let n = of_char c in if 48 \<le> n \<and> n \<le> (57 :: nat) then Some (n - 48) else None)"

fun parse_digits :: "nat \<Rightarrow> string \<Rightarrow> nat option" where
  "parse_digits acc [] = Some acc"
| "parse_digits acc (c # cs) =
     (case digit_of c of None \<Rightarrow> None | Some d \<Rightarrow> parse_digits (10 * acc + d) cs)"

definition parse_int :: "string \<Rightarrow> int option" where
  "parse_int s =
     (case s of
        [] \<Rightarrow> None
      | c # cs \<Rightarrow>
          if c = CHR ''-''
          then if cs = [] then None else map_option (\<lambda>n. - int n) (parse_digits 0 cs)
          else map_option int (parse_digits 0 s))"

section \<open>Encoding\<close>

definition encode_term :: "string \<Rightarrow> (string \<times> json) list \<Rightarrow> json" where
  "encode_term kind members = JObject ((''kind'', JStr kind) # members)"

fun encode_literal :: "literal \<Rightarrow> json" where
  "encode_literal (LBool b) = JBool b"
| "encode_literal (LInt i) = JInt i"
| "encode_literal (LStr s) = JStr s"

fun encode_expr :: "expr \<Rightarrow> json" where
  "encode_expr (Var x) = encode_term ''Var'' [(''name'', JStr x)]"
| "encode_expr (Attr b k) = encode_term ''Attr'' [(''base'', encode_expr b), (''key'', encode_expr k)]"
| "encode_expr (Literal l) = encode_term ''Literal'' [(''value'', encode_literal l)]"
| "encode_expr NewObject = encode_term ''NewObject'' []"
| "encode_expr (ListExpr items) = encode_term ''ListExpr'' [(''items'', JArray (map encode_expr items))]"
| "encode_expr (DictExpr items) =
     encode_term ''DictExpr'' [(''items'', JArray (map (\<lambda>kv. JArray [JStr (fst kv), encode_expr (snd kv)]) items))]"
| "encode_expr (Lambda a k p b r) =
     encode_term ''Lambda'' [(''args_param'', JStr a), (''kwargs_param'', JStr k), (''parent_param'', JStr p),
       (''body'', JStr b), (''return_var'', JStr r)]"
| "encode_expr (NotExpr e) = encode_term ''Not'' [(''operand'', encode_expr e)]"
| "encode_expr (Length e) = encode_term ''Length'' [(''operand'', encode_expr e)]"
| "encode_expr (Binary op l r) =
     encode_term ''Binary'' [(''op'', JStr op), (''left'', encode_expr l), (''right'', encode_expr r)]"

fun encode_instruction :: "instruction \<Rightarrow> json" where
  "encode_instruction Skip = encode_term ''Skip'' []"
| "encode_instruction (Assume e) = encode_term ''Assume'' [(''condition'', encode_expr e)]"
| "encode_instruction (Alloc x e) = encode_term ''Alloc'' [(''target'', JStr x), (''value'', encode_expr e)]"
| "encode_instruction (Bind t s) = encode_term ''Bind'' [(''target'', encode_expr t), (''source'', encode_expr s)]"
| "encode_instruction (Env x) = encode_term ''Env'' [(''target'', JStr x)]"
| "encode_instruction (Delete t) = encode_term ''Delete'' [(''target'', encode_expr t)]"
| "encode_instruction (Call x f a k) =
     encode_term ''Call'' [(''target'', JStr x), (''function'', encode_expr f), (''args'', encode_expr a),
       (''kwargs'', encode_expr k)]"

definition encode_node :: "mir_node \<Rightarrow> json" where
  "encode_node n = JObject
     [(''id'', JInt (nd_id n)), (''instruction'', encode_instruction (nd_instruction n)),
      (''successors'', JArray (map JInt (nd_successors n))),
      (''lineno'', case nd_lineno n of None \<Rightarrow> JNull | Some l \<Rightarrow> JInt l)]"

definition encode_cfg :: "mir_cfg \<Rightarrow> json" where
  "encode_cfg g = JObject
     [(''name'', JStr (cg_name g)), (''entry'', JInt (cg_entry g)), (''exit'', JInt (cg_exit g)),
      (''is_synthetic'', JBool (cg_synthetic g)), (''filename'', JStr (cg_filename g)),
      (''nodes'', JObject (map (\<lambda>kn. (show_int (fst kn), encode_node (snd kn))) (sort_key fst (cg_nodes g))))]"

definition encode_program :: "mir_program \<Rightarrow> json" where
  "encode_program P = JObject
     [(''version'', JInt 1), (''entry'', JStr (mp_entry P)),
      (''cfgs'', JObject (map (\<lambda>ng. (fst ng, encode_cfg (snd ng))) (sort_key fst (mp_cfgs P))))]"

section \<open>Decoding terms\<close>

datatype schema = SString | SLiteral | SExpr | SLValue | SReferences | SPairs

datatype term_class = ExprClass | LValueClass | InstructionClass

datatype argument =
    AString string
  | ALiteral literal
  | AExpr expr
  | AReferences "expr list"
  | APairs "(string \<times> expr) list"

datatype mir_term = ExprTerm expr | InstructionTerm instruction

type_synonym arguments = "(string \<times> argument) list"

text \<open>The keyword arguments of a constructor, with the types that the schema gives them.\<close>

definition string_arg :: "arguments \<Rightarrow> string \<Rightarrow> string" where
  "string_arg args name = (case map_of args name of Some (AString s) \<Rightarrow> s | _ \<Rightarrow> [])"

definition literal_arg :: "arguments \<Rightarrow> string \<Rightarrow> literal" where
  "literal_arg args name = (case map_of args name of Some (ALiteral l) \<Rightarrow> l | _ \<Rightarrow> LBool False)"

definition expr_arg :: "arguments \<Rightarrow> string \<Rightarrow> expr" where
  "expr_arg args name = (case map_of args name of Some (AExpr e) \<Rightarrow> e | _ \<Rightarrow> NewObject)"

definition references_arg :: "arguments \<Rightarrow> string \<Rightarrow> expr list" where
  "references_arg args name = (case map_of args name of Some (AReferences es) \<Rightarrow> es | _ \<Rightarrow> [])"

definition pairs_arg :: "arguments \<Rightarrow> string \<Rightarrow> (string \<times> expr) list" where
  "pairs_arg args name = (case map_of args name of Some (APairs ps) \<Rightarrow> ps | _ \<Rightarrow> [])"

text \<open>The constructor table \<^verbatim>\<open>_TERMS\<close>.\<close>

definition mir_terms :: "(string \<times> term_class \<times> (string \<times> schema) list \<times> (arguments \<Rightarrow> mir_term)) list" where
  "mir_terms =
    [(''Var'', LValueClass, [(''name'', SString)], \<lambda>a. ExprTerm (Var (string_arg a ''name''))),
     (''Attr'', LValueClass, [(''base'', SLValue), (''key'', SExpr)],
        \<lambda>a. ExprTerm (Attr (expr_arg a ''base'') (expr_arg a ''key''))),
     (''Literal'', ExprClass, [(''value'', SLiteral)], \<lambda>a. ExprTerm (Literal (literal_arg a ''value''))),
     (''NewObject'', ExprClass, [], \<lambda>a. ExprTerm NewObject),
     (''ListExpr'', ExprClass, [(''items'', SReferences)], \<lambda>a. ExprTerm (ListExpr (references_arg a ''items''))),
     (''DictExpr'', ExprClass, [(''items'', SPairs)], \<lambda>a. ExprTerm (DictExpr (pairs_arg a ''items''))),
     (''Lambda'', ExprClass,
        [(''args_param'', SString), (''kwargs_param'', SString), (''parent_param'', SString), (''body'', SString),
         (''return_var'', SString)],
        \<lambda>a. ExprTerm (Lambda (string_arg a ''args_param'') (string_arg a ''kwargs_param'')
               (string_arg a ''parent_param'') (string_arg a ''body'') (string_arg a ''return_var''))),
     (''Not'', ExprClass, [(''operand'', SExpr)], \<lambda>a. ExprTerm (NotExpr (expr_arg a ''operand''))),
     (''Length'', ExprClass, [(''operand'', SExpr)], \<lambda>a. ExprTerm (Length (expr_arg a ''operand''))),
     (''Binary'', ExprClass, [(''op'', SString), (''left'', SExpr), (''right'', SExpr)],
        \<lambda>a. ExprTerm (Binary (string_arg a ''op'') (expr_arg a ''left'') (expr_arg a ''right''))),
     (''Skip'', InstructionClass, [], \<lambda>a. InstructionTerm Skip),
     (''Assume'', InstructionClass, [(''condition'', SExpr)],
        \<lambda>a. InstructionTerm (Assume (expr_arg a ''condition''))),
     (''Alloc'', InstructionClass, [(''target'', SString), (''value'', SExpr)],
        \<lambda>a. InstructionTerm (Alloc (string_arg a ''target'') (expr_arg a ''value''))),
     (''Bind'', InstructionClass, [(''target'', SLValue), (''source'', SLValue)],
        \<lambda>a. InstructionTerm (Bind (expr_arg a ''target'') (expr_arg a ''source''))),
     (''Env'', InstructionClass, [(''target'', SString)], \<lambda>a. InstructionTerm (Env (string_arg a ''target''))),
     (''Delete'', InstructionClass, [(''target'', SLValue)],
        \<lambda>a. InstructionTerm (Delete (expr_arg a ''target''))),
     (''Call'', InstructionClass,
        [(''target'', SString), (''function'', SExpr), (''args'', SLValue), (''kwargs'', SLValue)],
        \<lambda>a. InstructionTerm (Call (string_arg a ''target'') (expr_arg a ''function'') (expr_arg a ''args'')
               (expr_arg a ''kwargs'')))]"

text \<open>\<^verbatim>\<open>issubclass\<close>.\<close>

fun is_subclass :: "term_class \<Rightarrow> term_class \<Rightarrow> bool" where
  "is_subclass LValueClass ExprClass = True"
| "is_subclass c c' = (c = c')"

fun map_res :: "('a \<Rightarrow> 'b res) \<Rightarrow> 'a list \<Rightarrow> 'b list res" where
  "map_res f [] = Inr []"
| "map_res f (x # xs) = bind_res (f x) (\<lambda>y. bind_res (map_res f xs) (\<lambda>ys. Inr (y # ys)))"

lemma map_res_cong [fundef_cong]:
  "xs = ys \<Longrightarrow> (\<And>x. x \<in> set ys \<Longrightarrow> f x = g x) \<Longrightarrow> map_res f xs = map_res g ys"
proof (induction ys arbitrary: xs)
  case (Cons y ys)
  then have "map_res f ys = map_res g ys" by simp
  with Cons.prems show ?case by simp
qed simp

lemma size_json_field: "map_of members name = Some v \<Longrightarrow> size v < size (JObject members)"
  by (drule map_of_SomeD, induction members) auto

lemma size_json_item: "v \<in> set items \<Longrightarrow> size v < size (JArray items)"
  by (induction items) auto

definition expr_of :: "mir_term \<Rightarrow> expr" where
  "expr_of t = (case t of ExprTerm e \<Rightarrow> e | InstructionTerm i \<Rightarrow> NewObject)"

text \<open>\<^verbatim>\<open>_value\<close> and \<^verbatim>\<open>_term\<close>.\<close>

function decode_value :: "schema \<Rightarrow> json \<Rightarrow> argument res"
  and decode_term :: "term_class \<Rightarrow> json \<Rightarrow> mir_term res" where
  "decode_value s v =
     (case s of
        SString \<Rightarrow> (case v of JStr x \<Rightarrow> Inr (AString x) | _ \<Rightarrow> Inl MIRValidationError)
      | SLiteral \<Rightarrow> (case v of JBool b \<Rightarrow> Inr (ALiteral (LBool b)) | JInt i \<Rightarrow> Inr (ALiteral (LInt i))
          | JStr x \<Rightarrow> Inr (ALiteral (LStr x)) | _ \<Rightarrow> Inl MIRValidationError)
      | SExpr \<Rightarrow> bind_res (decode_term ExprClass v) (\<lambda>t. Inr (AExpr (expr_of t)))
      | SLValue \<Rightarrow> bind_res (decode_term LValueClass v) (\<lambda>t. Inr (AExpr (expr_of t)))
      | SReferences \<Rightarrow> (case v of
            JArray items \<Rightarrow> bind_res (map_res (decode_term LValueClass) items)
              (\<lambda>ts. Inr (AReferences (map expr_of ts)))
          | _ \<Rightarrow> Inl MIRValidationError)
      | SPairs \<Rightarrow> (case v of
            JArray items \<Rightarrow> bind_res
              (map_res (\<lambda>pair. case pair of
                   JArray [k, t] \<Rightarrow> (case k of
                       JStr name \<Rightarrow> bind_res (decode_term LValueClass t) (\<lambda>t. Inr (name, expr_of t))
                     | _ \<Rightarrow> Inl MIRValidationError)
                 | _ \<Rightarrow> Inl MIRValidationError) items)
              (\<lambda>ps. Inr (APairs ps))
          | _ \<Rightarrow> Inl MIRValidationError))"
| "decode_term expected data =
     (case data of
        JObject members \<Rightarrow> (case map_of members ''kind'' of
            Some (JStr kind) \<Rightarrow> (case map_of mir_terms kind of
                Some (cls, schema, build) \<Rightarrow>
                  if fst ` set members \<noteq> insert ''kind'' (fst ` set schema) then Inl MIRValidationError
                  else if \<not> is_subclass cls expected then Inl MIRValidationError
                  else bind_res
                    (map_res (\<lambda>field. case map_of members (fst field) of
                         None \<Rightarrow> Inl KeyError
                       | Some v \<Rightarrow> bind_res (decode_value (snd field) v) (\<lambda>a. Inr (fst field, a))) schema)
                    (\<lambda>args. Inr (build args))
              | None \<Rightarrow> Inl MIRValidationError)
          | _ \<Rightarrow> Inl MIRValidationError)
      | _ \<Rightarrow> Inl MIRValidationError)"
  by pat_completeness auto
termination
  by (relation "measure (\<lambda>x. case x of Inl (s, v) \<Rightarrow> 2 * size v + 1 | Inr (c, v) \<Rightarrow> 2 * size v)")
    (auto dest!: size_json_field size_json_item)

declare decode_value.simps [simp del] decode_term.simps [simp del]

section \<open>Decoding an encoded term\<close>

lemma map_res_map: "(\<And>x. x \<in> set xs \<Longrightarrow> f (g x) = Inr (h x)) \<Longrightarrow> map_res f (map g xs) = Inr (map h xs)"
  by (induction xs) auto

text \<open>One unfolding of the decoder at the entry of the table for the given kind.\<close>

definition table_entry ::
  "string \<Rightarrow> (term_class \<times> (string \<times> schema) list \<times> (arguments \<Rightarrow> mir_term)) option" where
  "table_entry kind = map_of mir_terms kind"

lemma decode_encoded:
  assumes "table_entry kind = Some (cls, schema, build)" "is_subclass cls expected"
    and "map fst members = map fst schema" "distinct (''kind'' # map fst schema)"
    and "map_res (\<lambda>(f, m). bind_res (decode_value (snd f) (snd m)) (\<lambda>a. Inr (fst f, a))) (zip schema members) = Inr args"
  shows "decode_term expected (encode_term kind members) = Inr (build args)"
proof -
  have len: "length schema = length members" using assms(3) by (metis length_map)
  have d: "distinct (map fst members)" "''kind'' \<notin> fst ` set members"
    using assms(3,4) by (simp_all flip: set_map)
  let ?look = "\<lambda>f. case map_of ((''kind'', JStr kind) # members) (fst f) of
      None \<Rightarrow> Inl KeyError | Some v \<Rightarrow> bind_res (decode_value (snd f) v) (\<lambda>a. Inr (fst f, a))"
  have found: "map_of ((''kind'', JStr kind) # members) (fst f) = Some (snd m)" if "(f, m) \<in> set (zip schema members)" for f m
  proof -
    from that obtain i where i: "i < length schema" "f = schema ! i" "m = members ! i" by (auto simp: set_zip)
    then have "fst f = fst m" using assms(3) len by (metis nth_map)
    moreover have "m \<in> set members" using i len by simp
    ultimately show ?thesis using d by (cases m) (auto intro: map_of_is_SomeI rev_image_eqI)
  qed
  have "map_res (\<lambda>(f, m). ?look f) (zip schema members) = Inr args"
    unfolding assms(5)[symmetric]
  proof (intro map_res_cong refl)
    fix x assume x: "x \<in> set (zip schema members)"
    obtain f m where p: "x = (f, m)" by (cases x)
    show "(case x of (f, m) \<Rightarrow> ?look f) =
        (case x of (f, m) \<Rightarrow> bind_res (decode_value (snd f) (snd m)) (\<lambda>a. Inr (fst f, a)))"
      unfolding p prod.case found[OF x[unfolded p]] option.case ..
  qed
  moreover have "map_res (\<lambda>(f, m). g f) (zip schema members) = map_res g schema" for g :: "string \<times> schema \<Rightarrow> (string \<times> argument) res"
    using len by (induction schema members rule: list_induct2) auto
  ultimately have look: "map_res ?look schema = Inr args" by simp
  have keys: "fst ` set ((''kind'', JStr kind) # members) = insert ''kind'' (fst ` set schema)"
    using arg_cong[where f = set, OF assms(3)] by simp
  show ?thesis
    using assms(1,2) look keys by (simp add: decode_term.simps encode_term_def table_entry_def)
qed

lemma table_entries:
  "table_entry ''Var'' = Some (LValueClass, [(''name'', SString)], \<lambda>a. ExprTerm (Var (string_arg a ''name'')))"
  "table_entry ''Attr'' = Some (LValueClass, [(''base'', SLValue), (''key'', SExpr)],
     \<lambda>a. ExprTerm (Attr (expr_arg a ''base'') (expr_arg a ''key'')))"
  "table_entry ''Literal'' = Some (ExprClass, [(''value'', SLiteral)], \<lambda>a. ExprTerm (Literal (literal_arg a ''value'')))"
  "table_entry ''NewObject'' = Some (ExprClass, [], \<lambda>a. ExprTerm NewObject)"
  "table_entry ''ListExpr'' = Some (ExprClass, [(''items'', SReferences)],
     \<lambda>a. ExprTerm (ListExpr (references_arg a ''items'')))"
  "table_entry ''DictExpr'' = Some (ExprClass, [(''items'', SPairs)], \<lambda>a. ExprTerm (DictExpr (pairs_arg a ''items'')))"
  "table_entry ''Lambda'' = Some (ExprClass,
     [(''args_param'', SString), (''kwargs_param'', SString), (''parent_param'', SString), (''body'', SString),
      (''return_var'', SString)],
     \<lambda>a. ExprTerm (Lambda (string_arg a ''args_param'') (string_arg a ''kwargs_param'')
            (string_arg a ''parent_param'') (string_arg a ''body'') (string_arg a ''return_var'')))"
  "table_entry ''Not'' = Some (ExprClass, [(''operand'', SExpr)], \<lambda>a. ExprTerm (NotExpr (expr_arg a ''operand'')))"
  "table_entry ''Length'' = Some (ExprClass, [(''operand'', SExpr)], \<lambda>a. ExprTerm (Length (expr_arg a ''operand'')))"
  "table_entry ''Binary'' = Some (ExprClass, [(''op'', SString), (''left'', SExpr), (''right'', SExpr)],
     \<lambda>a. ExprTerm (Binary (string_arg a ''op'') (expr_arg a ''left'') (expr_arg a ''right'')))"
  "table_entry ''Skip'' = Some (InstructionClass, [], \<lambda>a. InstructionTerm Skip)"
  "table_entry ''Assume'' = Some (InstructionClass, [(''condition'', SExpr)],
     \<lambda>a. InstructionTerm (Assume (expr_arg a ''condition'')))"
  "table_entry ''Alloc'' = Some (InstructionClass, [(''target'', SString), (''value'', SExpr)],
     \<lambda>a. InstructionTerm (Alloc (string_arg a ''target'') (expr_arg a ''value'')))"
  "table_entry ''Bind'' = Some (InstructionClass, [(''target'', SLValue), (''source'', SLValue)],
     \<lambda>a. InstructionTerm (Bind (expr_arg a ''target'') (expr_arg a ''source'')))"
  "table_entry ''Env'' = Some (InstructionClass, [(''target'', SString)], \<lambda>a. InstructionTerm (Env (string_arg a ''target'')))"
  "table_entry ''Delete'' = Some (InstructionClass, [(''target'', SLValue)],
     \<lambda>a. InstructionTerm (Delete (expr_arg a ''target'')))"
  "table_entry ''Call'' = Some (InstructionClass,
     [(''target'', SString), (''function'', SExpr), (''args'', SLValue), (''kwargs'', SLValue)],
     \<lambda>a. InstructionTerm (Call (string_arg a ''target'') (expr_arg a ''function'') (expr_arg a ''args'')
            (expr_arg a ''kwargs'')))"
  by (simp_all add: table_entry_def mir_terms_def)

lemma decode_leaf [simp]:
  "decode_value SString (JStr x) = Inr (AString x)"
  "decode_value SLiteral (encode_literal l) = Inr (ALiteral l)"
  "decode_term ExprClass v = Inr (ExprTerm e) \<Longrightarrow> decode_value SExpr v = Inr (AExpr e)"
  "decode_term LValueClass v = Inr (ExprTerm e) \<Longrightarrow> decode_value SLValue v = Inr (AExpr e)"
  by (simp_all add: decode_value.simps expr_of_def) (cases l; simp)

lemmas term_args = string_arg_def literal_arg_def expr_arg_def references_arg_def pairs_arg_def

lemma decode_encode_expr:
  "wf_expr P e \<Longrightarrow> is_lvalue e \<or> c = ExprClass \<Longrightarrow> c \<noteq> InstructionClass \<Longrightarrow>
   decode_term c (encode_expr e) = Inr (ExprTerm e)"
proof (induction e arbitrary: c)
  case (Var x)
  then show ?case
    using decode_encoded[OF table_entries(1), of c "[(''name'', JStr x)]" "[(''name'', AString x)]"]
    by (cases c) (simp_all add: term_args)
next
  case (Attr b k)
  then show ?case
    using decode_encoded[OF table_entries(2), of c "[(''base'', encode_expr b), (''key'', encode_expr k)]" "[(''base'', AExpr b), (''key'', AExpr k)]"]
    by (cases c) (simp_all add: term_args)
next
  case (Literal l)
  then show ?case
    using decode_encoded[OF table_entries(3), of c "[(''value'', encode_literal l)]" "[(''value'', ALiteral l)]"]
    by (cases c) (simp_all add: term_args)
next
  case NewObject
  then show ?case using decode_encoded[OF table_entries(4), of c "[]" "[]"] by (cases c) simp_all
next
  case (ListExpr items)
  then have "map_res (decode_term LValueClass) (map encode_expr items) = Inr (map ExprTerm items)"
    by (intro map_res_map) auto
  then have "decode_value SReferences (JArray (map encode_expr items)) = Inr (AReferences items)"
    by (simp add: decode_value.simps expr_of_def comp_def)
  then show ?case
    using ListExpr.prems decode_encoded[OF table_entries(5), of c "[(''items'', JArray (map encode_expr items))]"
        "[(''items'', AReferences items)]"]
    by (cases c) (simp_all add: term_args)
next
  case (DictExpr items)
  have "decode_term LValueClass (encode_expr (snd kv)) = Inr (ExprTerm (snd kv))" if "kv \<in> set items" for kv
    using DictExpr that by (cases kv) auto
  then have "decode_value SPairs (JArray (map (\<lambda>kv. JArray [JStr (fst kv), encode_expr (snd kv)]) items)) =
      Inr (APairs items)"
    by (simp add: decode_value.simps expr_of_def map_res_map[where h = "\<lambda>kv. kv"])
  then show ?case
    using DictExpr.prems decode_encoded[OF table_entries(6), of c
        "[(''items'', JArray (map (\<lambda>kv. JArray [JStr (fst kv), encode_expr (snd kv)]) items))]"
        "[(''items'', APairs items)]"]
    by (cases c) (simp_all add: term_args)
next
  case (Lambda a k p b r)
  then show ?case
    using decode_encoded[OF table_entries(7), of c "[(''args_param'', JStr a), (''kwargs_param'', JStr k), (''parent_param'', JStr p), (''body'', JStr b), (''return_var'', JStr r)]" "[(''args_param'', AString a), (''kwargs_param'', AString k), (''parent_param'', AString p), (''body'', AString b), (''return_var'', AString r)]"]
    by (cases c) (simp_all add: term_args)
next
  case (NotExpr e)
  then show ?case
    using decode_encoded[OF table_entries(8), of c "[(''operand'', encode_expr e)]" "[(''operand'', AExpr e)]"]
    by (cases c) (simp_all add: term_args)
next
  case (Length e)
  then show ?case
    using decode_encoded[OF table_entries(9), of c "[(''operand'', encode_expr e)]" "[(''operand'', AExpr e)]"]
    by (cases c) (simp_all add: term_args)
next
  case (Binary op l r)
  then show ?case
    using decode_encoded[OF table_entries(10), of c "[(''op'', JStr op), (''left'', encode_expr l), (''right'', encode_expr r)]" "[(''op'', AString op), (''left'', AExpr l), (''right'', AExpr r)]"]
    by (cases c) (simp_all add: term_args)
qed

lemma decode_encode_instruction:
  assumes "wf_instruction P i"
  shows "decode_term InstructionClass (encode_instruction i) = Inr (InstructionTerm i)"
proof (cases i)
  case Skip
  then show ?thesis using decode_encoded[OF table_entries(11), of InstructionClass "[]" "[]"] by simp
next
  case (Assume e)
  then show ?thesis
    using decode_encoded[OF table_entries(12), of InstructionClass "[(''condition'', encode_expr e)]" "[(''condition'', AExpr e)]"] assms
    by (simp add: term_args decode_encode_expr[of P])
next
  case (Alloc x e)
  then show ?thesis
    using decode_encoded[OF table_entries(13), of InstructionClass "[(''target'', JStr x), (''value'', encode_expr e)]" "[(''target'', AString x), (''value'', AExpr e)]"] assms
    by (simp add: term_args decode_encode_expr[of P])
next
  case (Bind t s)
  then show ?thesis
    using decode_encoded[OF table_entries(14), of InstructionClass "[(''target'', encode_expr t), (''source'', encode_expr s)]" "[(''target'', AExpr t), (''source'', AExpr s)]"] assms
    by (simp add: term_args decode_encode_expr[of P])
next
  case (Env x)
  then show ?thesis
    using decode_encoded[OF table_entries(15), of InstructionClass "[(''target'', JStr x)]" "[(''target'', AString x)]"] assms
    by (simp add: term_args decode_encode_expr[of P])
next
  case (Delete t)
  then show ?thesis
    using decode_encoded[OF table_entries(16), of InstructionClass "[(''target'', encode_expr t)]" "[(''target'', AExpr t)]"] assms
    by (simp add: term_args decode_encode_expr[of P])
next
  case (Call x f a k)
  then show ?thesis
    using decode_encoded[OF table_entries(17), of InstructionClass "[(''target'', JStr x), (''function'', encode_expr f), (''args'', encode_expr a), (''kwargs'', encode_expr k)]" "[(''target'', AString x), (''function'', AExpr f), (''args'', AExpr a), (''kwargs'', AExpr k)]"] assms
    by (simp add: term_args decode_encode_expr[of P])
qed

section \<open>Loading a program\<close>

text \<open>\<^verbatim>\<open>_object\<close>, \<^verbatim>\<open>_array\<close>, \<^verbatim>\<open>_string\<close> and \<^verbatim>\<open>_integer\<close>.\<close>

definition as_object :: "string set option \<Rightarrow> json \<Rightarrow> (string \<times> json) list res" where
  "as_object keys data =
     (case data of
        JObject members \<Rightarrow>
          if (case keys of None \<Rightarrow> True | Some ks \<Rightarrow> fst ` set members = ks) then Inr members
          else Inl MIRValidationError
      | _ \<Rightarrow> Inl MIRValidationError)"

definition as_array :: "json \<Rightarrow> json list res" where
  "as_array v = (case v of JArray items \<Rightarrow> Inr items | _ \<Rightarrow> Inl MIRValidationError)"

definition as_string :: "json \<Rightarrow> string res" where
  "as_string v = (case v of JStr s \<Rightarrow> Inr s | _ \<Rightarrow> Inl MIRValidationError)"

definition as_integer :: "json \<Rightarrow> int res" where
  "as_integer v = (case v of JInt i \<Rightarrow> Inr i | _ \<Rightarrow> Inl MIRValidationError)"

definition as_bool :: "json \<Rightarrow> bool res" where
  "as_bool v = (case v of JBool b \<Rightarrow> Inr b | _ \<Rightarrow> Inl MIRValidationError)"

text \<open>\<^verbatim>\<open>data[name]\<close>.\<close>

definition member :: "(string \<times> json) list \<Rightarrow> string \<Rightarrow> json res" where
  "member members name = (case map_of members name of None \<Rightarrow> Inl KeyError | Some v \<Rightarrow> Inr v)"

definition instruction_of :: "mir_term \<Rightarrow> instruction" where
  "instruction_of t = (case t of InstructionTerm i \<Rightarrow> i | ExprTerm e \<Rightarrow> Skip)"

definition decode_lineno :: "json \<Rightarrow> int option res" where
  "decode_lineno v = (if v = JNull then Inr None else bind_res (as_integer v) (\<lambda>i. Inr (Some i)))"

definition decode_node :: "json \<Rightarrow> mir_node res" where
  "decode_node raw =
     bind_res (as_object (Some {''id'', ''instruction'', ''successors'', ''lineno''}) raw) (\<lambda>ms.
     bind_res (bind_res (member ms ''lineno'') decode_lineno) (\<lambda>lineno.
     bind_res (bind_res (member ms ''id'') as_integer) (\<lambda>node_id.
     bind_res (bind_res (member ms ''instruction'') (decode_term InstructionClass)) (\<lambda>i.
     bind_res (bind_res (bind_res (member ms ''successors'') as_array) (map_res as_integer)) (\<lambda>successors.
       Inr \<lparr>nd_id = node_id, nd_instruction = instruction_of i, nd_successors = successors, nd_lineno = lineno\<rparr>)))))"

definition add_decoded_node :: "string \<times> json \<Rightarrow> (int \<times> mir_node) list \<Rightarrow> (int \<times> mir_node) list res" where
  "add_decoded_node entry nodes =
     (case parse_int (fst entry) of
        None \<Rightarrow> Inl MIRValidationError
      | Some node_id \<Rightarrow>
          if show_int node_id \<noteq> fst entry then Inl MIRValidationError
          else bind_res (decode_node (snd entry)) (\<lambda>node. Inr (AList.update node_id node nodes)))"

definition decode_cfg :: "json \<Rightarrow> mir_cfg res" where
  "decode_cfg raw =
     bind_res (as_object (Some {''name'', ''entry'', ''exit'', ''is_synthetic'', ''filename'', ''nodes''}) raw) (\<lambda>ms.
     bind_res (bind_res (member ms ''is_synthetic'') as_bool) (\<lambda>synthetic.
     bind_res (bind_res (member ms ''nodes'') (as_object None)) (\<lambda>raw_nodes.
     bind_res (fold_res add_decoded_node raw_nodes []) (\<lambda>nodes.
     bind_res (bind_res (member ms ''name'') as_string) (\<lambda>name.
     bind_res (bind_res (member ms ''entry'') as_integer) (\<lambda>entry.
     bind_res (bind_res (member ms ''exit'') as_integer) (\<lambda>exit_id.
     bind_res (bind_res (member ms ''filename'') as_string) (\<lambda>filename.
       Inr \<lparr>cg_name = name, cg_nodes = nodes, cg_entry = entry, cg_exit = exit_id, cg_synthetic = synthetic,
            cg_filename = filename, cg_parameters = [], cg_receiver_class = None, cg_receiver_kind = None\<rparr>))))))))"

definition program_from_dict :: "json \<Rightarrow> mir_program res" where
  "program_from_dict data =
     bind_res (as_object (Some {''version'', ''entry'', ''cfgs''}) data) (\<lambda>ms.
     bind_res (bind_res (member ms ''version'') (\<lambda>v. if v = JInt 1 then Inr () else Inl MIRValidationError)) (\<lambda>_.
     bind_res (bind_res (member ms ''entry'') as_string) (\<lambda>entry.
     bind_res (bind_res (member ms ''cfgs'') (as_object None)) (\<lambda>raw_cfgs.
     bind_res (fold_res (\<lambda>ng cfgs. bind_res (decode_cfg (snd ng)) (\<lambda>g. Inr (AList.update (fst ng) g cfgs))) raw_cfgs [])
       (\<lambda>cfgs. let P = \<lparr>mp_cfgs = cfgs, mp_entry = entry\<rparr> in bind_res (validate P) (\<lambda>_. Inr P))))))"

text \<open>\<^verbatim>\<open>program_from_json\<close>, from what the JSON grammar gives: a tree whose objects may repeat a key
  and whose \<^verbatim>\<open>NaN\<close> and \<^verbatim>\<open>Infinity\<close> constants, and whose numbers with a fraction, which no field
  accepts, are \<open>JOther\<close>; or nothing for a syntax error.\<close>

fun unique_object :: "json \<Rightarrow> json res" where
  "unique_object (JArray items) = bind_res (map_res unique_object items) (\<lambda>vs. Inr (JArray vs))"
| "unique_object (JObject members) =
     bind_res (map_res (\<lambda>m. bind_res (unique_object (snd m)) (\<lambda>v. Inr (fst m, v))) members)
       (\<lambda>ms. if distinct (map fst ms) then Inr (JObject ms) else Inl MIRValidationError)"
| "unique_object JOther = Inl MIRValidationError"
| "unique_object v = Inr v"

definition program_from_json :: "json option \<Rightarrow> mir_program res" where
  "program_from_json tree =
     (case tree of
        None \<Rightarrow> Inl MIRValidationError
      | Some t \<Rightarrow> bind_res (unique_object t) program_from_dict)"

section \<open>Numbers as keys\<close>

lemma digit_of_digit: "d < 10 \<Longrightarrow> digit_of (char_of (48 + d)) = Some d"
  by (simp add: digit_of_def)

lemma digit_not_minus: "d < 10 \<Longrightarrow> char_of (48 + d :: nat) \<noteq> CHR ''-''"
proof
  assume d: "d < 10" and c: "char_of (48 + d) = CHR ''-''"
  have "(of_char (char_of (48 + d) :: char) :: nat) = 48 + d" using d by simp
  moreover have "(of_char (CHR ''-'') :: nat) = 45" by simp
  ultimately show False using c by simp
qed

lemma parse_digits_append:
  "parse_digits acc (xs @ ys) = (case parse_digits acc xs of None \<Rightarrow> None | Some n \<Rightarrow> parse_digits n ys)"
  by (induction acc xs rule: parse_digits.induct) (auto split: option.splits)

lemma parse_show_nat: "parse_digits 0 (show_nat n) = Some n"
proof (induction n rule: show_nat.induct)
  case (1 n)
  show ?case
  proof (cases "n < 10")
    case True
    then show ?thesis by (subst show_nat.simps) (simp add: digit_of_digit)
  next
    case False
    then show ?thesis using 1 by (subst show_nat.simps) (simp add: digit_of_digit parse_digits_append)
  qed
qed

lemma show_nat_Cons: "\<exists>c cs. show_nat n = c # cs \<and> c \<noteq> CHR ''-''"
proof (induction n rule: show_nat.induct)
  case (1 n)
  then show ?case by (subst show_nat.simps) (auto simp: digit_not_minus)
qed

lemma parse_show_int: "parse_int (show_int i) = Some i"
proof -
  obtain c cs where n: "show_nat (nat \<bar>i\<bar>) = c # cs" "c \<noteq> CHR ''-''" using show_nat_Cons by blast
  show ?thesis
    using n parse_show_nat[of "nat \<bar>i\<bar>"] by (auto simp: show_int_def parse_int_def)
qed

lemma show_int_inj: "show_int i = show_int j \<longleftrightarrow> i = j"
  by (metis parse_show_int option.inject)

section \<open>The round trip\<close>

lemma decode_encode_node:
  assumes "wf_instruction P (nd_instruction n)"
  shows "decode_node (encode_node n) = Inr n"
proof -
  have "map_res as_integer (map JInt xs) = Inr xs" for xs
    using map_res_map[of xs as_integer JInt "\<lambda>i. i"] by (simp add: as_integer_def)
  then show ?thesis
    using decode_encode_instruction[OF assms]
    by (cases n; cases "nd_lineno n")
      (simp_all add: decode_node_def encode_node_def as_object_def member_def decode_lineno_def as_integer_def
        as_array_def instruction_of_def)
qed

text \<open>Loading the entries of an object one after the other restores the dict.\<close>

lemma fold_update:
  assumes "\<And>x d. x \<in> set xs \<Longrightarrow> step x d = Inr (AList.update (key x) (val x) d)"
    and "distinct (map key xs)" "fst ` set d \<inter> key ` set xs = {}"
  shows "fold_res step xs d = Inr (d @ map (\<lambda>x. (key x, val x)) xs)"
  using assms
proof (induction xs arbitrary: d)
  case (Cons x xs)
  have "AList.update (key x) (val x) d = d @ [(key x, val x)]"
  proof -
    have "key x \<notin> fst ` set d" using Cons.prems(3) by auto
    then show ?thesis by (induction d) auto
  qed
  then show ?case using Cons.IH[of "d @ [(key x, val x)]"] Cons.prems by auto
qed simp

text \<open>The dicts of a program have every key once.\<close>

definition dicts :: "mir_program \<Rightarrow> bool" where
  "dicts P \<longleftrightarrow> distinct (map fst (mp_cfgs P)) \<and> (\<forall>g\<in>set (mp_cfgs P). distinct (map fst (cg_nodes (snd g))))"

text \<open>What a dump keeps of a graph and of a program: everything but the order of the dicts and
  the parameter and receiver fields of the graphs.\<close>

definition dumped_cfg :: "mir_cfg \<Rightarrow> mir_cfg" where
  "dumped_cfg g = g\<lparr>cg_nodes := sort_key fst (cg_nodes g), cg_parameters := [], cg_receiver_class := None,
     cg_receiver_kind := None\<rparr>"

definition dumped_program :: "mir_program \<Rightarrow> mir_program" where
  "dumped_program P = P\<lparr>mp_cfgs := map (\<lambda>ng. (fst ng, dumped_cfg (snd ng))) (sort_key fst (mp_cfgs P))\<rparr>"

lemma distinct_sort_fst: "distinct (map fst xs) \<Longrightarrow> distinct (map fst (sort_key fst xs))"
  by (metis distinct_map distinct_sort set_sort)

lemma decode_encode_cfg:
  assumes "\<forall>n\<in>set (cg_nodes g). wf_instruction P (nd_instruction (snd n))" "distinct (map fst (cg_nodes g))"
  shows "decode_cfg (encode_cfg g) = Inr (dumped_cfg g)"
proof -
  let ?ns = "sort_key fst (cg_nodes g)"
  let ?raw = "map (\<lambda>kn. (show_int (fst kn), encode_node (snd kn))) ?ns"
  have step: "add_decoded_node (show_int (fst kn), encode_node (snd kn)) d = Inr (AList.update (fst kn) (snd kn) d)"
    if "kn \<in> set ?ns" for kn d
    using that assms(1) by (simp add: add_decoded_node_def parse_show_int decode_encode_node[of P])
  have "fold_res add_decoded_node ?raw [] = fold_res (\<lambda>kn. add_decoded_node (show_int (fst kn), encode_node (snd kn))) ?ns []"
  proof -
    have "fold_res f (map h xs) d = fold_res (\<lambda>x. f (h x)) xs d" for f h xs and d :: "(int \<times> mir_node) list"
      by (induction xs arbitrary: d) (auto intro!: bind_res_cong)
    then show ?thesis .
  qed
  also have "\<dots> = Inr ?ns"
    using fold_update[of ?ns "\<lambda>kn. add_decoded_node (show_int (fst kn), encode_node (snd kn))" fst snd "[]"]
      step distinct_sort_fst[OF assms(2)] by simp
  finally show ?thesis
    by (cases g) (simp add: decode_cfg_def encode_cfg_def as_object_def member_def as_bool_def as_string_def
        as_integer_def dumped_cfg_def)
qed

lemma wf_expr_keys:
  "fst ` set (mp_cfgs P) = fst ` set (mp_cfgs Q) \<Longrightarrow> wf_expr P e = wf_expr Q e"
  by (induction e) auto

lemma wf_instruction_keys:
  "fst ` set (mp_cfgs P) = fst ` set (mp_cfgs Q) \<Longrightarrow> wf_instruction P i = wf_instruction Q i"
  using wf_expr_keys[of P Q] by (cases i) auto

lemma dumped_keys: "fst ` set (mp_cfgs (dumped_program P)) = fst ` set (mp_cfgs P)"
  by (force simp: dumped_program_def)

lemma map_of_sort_fst: "distinct (map fst xs) \<Longrightarrow> map_of (sort_key fst xs) = map_of xs"
  by (rule map_of_inject_set[THEN iffD2]) (simp_all add: distinct_sort_fst)

lemma dumped_wf:
  assumes "dicts P" "wf_program P"
  shows "wf_program (dumped_program P)"
proof -
  have "wf_cfg (dumped_program P) (name, dumped_cfg g)" if g: "(name, g) \<in> set (mp_cfgs P)" for name g
  proof -
    have "wf_cfg P (name, g)" "distinct (map fst (cg_nodes g))" using assms g by (auto simp: wf_program_def dicts_def)
    then show ?thesis
      using wf_instruction_keys[OF dumped_keys]
      by (auto simp: wf_cfg_def wf_node_def dumped_cfg_def map_of_sort_fst)
  qed
  moreover have "mp_entry (dumped_program P) = mp_entry P" by (simp add: dumped_program_def)
  moreover have "g' \<in> set (mp_cfgs (dumped_program P)) \<Longrightarrow>
      \<exists>name g. (name, g) \<in> set (mp_cfgs P) \<and> g' = (name, dumped_cfg g)" for g'
    by (auto simp: dumped_program_def)
  ultimately show ?thesis using assms(2) unfolding wf_program_def dumped_keys by (metis)
qed

lemma fold_res_map: "fold_res f (map h xs) d = fold_res (\<lambda>x. f (h x)) xs d"
  by (induction xs arbitrary: d) (auto intro!: bind_res_cong)

text \<open>C37: a dump can be loaded again. For every valid program, loading the data that \<^verbatim>\<open>to_dict\<close> gives
  succeeds, with the same graphs, nodes, instructions, successors and line numbers; only the order of the
  dicts is normalized, and the parameter and receiver annotations of the graphs, which the schema
  has no field for, are reset.\<close>

theorem program_roundtrip:
  assumes "wf_program P" "dicts P"
  shows "program_from_dict (encode_program P) = Inr (dumped_program P)"
proof -
  let ?gs = "sort_key fst (mp_cfgs P)"
  have g: "\<forall>n\<in>set (cg_nodes (snd ng)). wf_instruction P (nd_instruction (snd n))" "distinct (map fst (cg_nodes (snd ng)))"
    if "ng \<in> set ?gs" for ng
    using that assms by (auto simp: wf_program_def wf_cfg_def wf_node_def dicts_def)
  have "fold_res (\<lambda>ng cfgs. bind_res (decode_cfg (snd ng)) (\<lambda>g. Inr (AList.update (fst ng) g cfgs)))
      (map (\<lambda>ng. (fst ng, encode_cfg (snd ng))) ?gs) [] = Inr (map (\<lambda>ng. (fst ng, dumped_cfg (snd ng))) ?gs)"
    unfolding fold_res_map
    using fold_update[of ?gs _ fst "\<lambda>ng. dumped_cfg (snd ng)" "[]"] assms(2) distinct_sort_fst[of "mp_cfgs P"]
    by (simp add: decode_encode_cfg[OF g] dicts_def)
  moreover have "validate (dumped_program P) = Inr ()"
    using dumped_wf[OF assms(2,1)] by (simp add: validate_iff)
  ultimately show ?thesis
    by (cases P) (simp add: program_from_dict_def encode_program_def as_object_def member_def as_string_def
        dumped_program_def Let_def insert_commute)
qed

theorem program_roundtrip_witness:
  "program_from_dict (encode_program example_program) = Inr (dumped_program example_program) \<and>
   map fst (mp_cfgs (dumped_program example_program)) = [''leaf'', ''main'']"
proof
  have "wf_program example_program" using example_program_valid by (simp add: validate_iff)
  moreover have "dicts example_program"
    by (simp add: dicts_def example_program_def node_at_def)
  ultimately show "program_from_dict (encode_program example_program) = Inr (dumped_program example_program)"
    by (rule program_roundtrip)
  show "map fst (mp_cfgs (dumped_program example_program)) = [''leaf'', ''main'']"
    by code_simp
qed

section \<open>The loader is strict\<close>

text \<open>Results whose only exception is \<^verbatim>\<open>MIRValidationError\<close>.\<close>

definition strict :: "'a res \<Rightarrow> bool" where
  "strict r \<longleftrightarrow> (case r of Inl e \<Rightarrow> e = MIRValidationError | Inr _ \<Rightarrow> True)"

lemma strict_simps [simp]: "strict (Inr x)" "strict (Inl e) \<longleftrightarrow> e = MIRValidationError"
  by (simp_all add: strict_def)

lemma strict_bind: "strict r \<Longrightarrow> (\<And>x. r = Inr x \<Longrightarrow> strict (f x)) \<Longrightarrow> strict (bind_res r f)"
  by (cases r) auto

lemma strict_bind_iff: "strict (bind_res r f) \<longleftrightarrow> strict r \<and> (\<forall>x. r = Inr x \<longrightarrow> strict (f x))"
  by (cases r) auto

lemma strict_map_res: "(\<And>x. x \<in> set xs \<Longrightarrow> strict (f x)) \<Longrightarrow> strict (map_res f xs)"
  by (induction xs) (auto intro!: strict_bind)

lemma strict_fold: "(\<And>x s. x \<in> set xs \<Longrightarrow> strict (f x s)) \<Longrightarrow> strict (fold_res f xs s)"
  by (induction xs arbitrary: s) (auto intro!: strict_bind)

lemma strict_member: "name \<in> fst ` set ms \<Longrightarrow> strict (member ms name)"
  by (auto simp: member_def split: option.splits dest: map_of_SomeD simp: map_of_eq_None_iff)

lemma decode_strict: "strict (decode_value s v)" "strict (decode_term c v)"
proof (induction s v and c v rule: decode_value_decode_term.induct)
  case (1 s v)
  show ?case
    by (subst decode_value.simps)
      (use 1 in \<open>auto intro!: strict_bind strict_map_res split: schema.split json.split list.split\<close>)
next
  case (2 expected data)
  show ?case
  proof (cases "\<exists>ms kind cls schema build. data = JObject ms \<and> map_of ms ''kind'' = Some (JStr kind) \<and>
      map_of mir_terms kind = Some (cls, schema, build) \<and> fst ` set ms = insert ''kind'' (fst ` set schema) \<and>
      is_subclass cls expected")
    case True
    then obtain ms kind cls schema build where d: "data = JObject ms" "map_of ms ''kind'' = Some (JStr kind)"
      "map_of mir_terms kind = Some (cls, schema, build)" "fst ` set ms = insert ''kind'' (fst ` set schema)"
      "is_subclass cls expected" by (elim exE conjE) (rule that)
    have "strict (case map_of ms (fst f) of None \<Rightarrow> Inl KeyError
        | Some v \<Rightarrow> bind_res (decode_value (snd f) v) (\<lambda>a. Inr (fst f, a)))" if f: "f \<in> set schema" for f
    proof -
      have "fst f \<in> fst ` set ms" using f d(4) by auto
      then obtain v where v: "map_of ms (fst f) = Some v" by (auto simp: map_of_eq_Some_ex)
      have "strict (decode_value (snd f) v)" by (rule 2[OF d(1,2) refl d(3) refl refl _ _ f v]) (use d(4,5) in simp_all)
      then show ?thesis by (auto simp: v intro!: strict_bind)
    qed
    then show ?thesis using d by (auto simp: decode_term.simps intro!: strict_bind strict_map_res)
  next
    case False
    then show ?thesis by (subst decode_term.simps) (auto split: json.split option.split)
  qed
qed

lemma as_strict [simp]: "strict (as_object keys v)" "strict (as_array v)" "strict (as_string v)"
  "strict (as_integer v)" "strict (as_bool v)"
  by (auto simp: as_object_def as_array_def as_string_def as_integer_def as_bool_def split: json.split)

lemma as_object_iff: "as_object (Some ks) v = Inr ms \<longleftrightarrow> v = JObject ms \<and> fst ` set ms = ks"
  by (auto simp: as_object_def split: json.splits if_splits)

lemma strict_lineno: "strict (decode_lineno v)"
  by (simp add: decode_lineno_def strict_bind_iff)

lemma decode_node_strict: "strict (decode_node raw)"
  by (simp add: decode_node_def strict_bind_iff as_object_iff strict_member strict_lineno decode_strict strict_map_res)

lemma add_decoded_strict: "strict (add_decoded_node x d)"
  by (simp add: add_decoded_node_def strict_bind_iff decode_node_strict split: option.split)

lemma decode_cfg_strict: "strict (decode_cfg raw)"
  by (simp add: decode_cfg_def strict_bind_iff as_object_iff strict_member strict_fold add_decoded_strict)

lemma validate_strict: "strict (validate P)"
  using validate_error by (cases "validate P") auto

lemma program_from_dict_strict: "strict (program_from_dict data)"
  by (simp add: program_from_dict_def Let_def strict_bind_iff as_object_iff strict_member strict_fold
      decode_cfg_strict validate_strict)

lemma add_decoded_nodes_distinct:
  "fold_res add_decoded_node xs d = Inr d' \<Longrightarrow> distinct (map fst d) \<Longrightarrow> distinct (map fst d')"
  by (rule fold_res_invariant[where P = "\<lambda>d. distinct (map fst d)"])
    (auto simp: add_decoded_node_def bind_res_eq_Inr distinct_update split: option.splits if_splits)

lemma decode_cfg_distinct: "decode_cfg raw = Inr g \<Longrightarrow> distinct (map fst (cg_nodes g))"
  by (auto simp: decode_cfg_def bind_res_eq_Inr dest: add_decoded_nodes_distinct)

lemma update_members: "(k', v') \<in> set (AList.update k v d) \<Longrightarrow> (k', v') = (k, v) \<or> (k', v') \<in> set d"
  by (induction d) (auto split: if_splits)

lemma program_from_dict_dicts:
  assumes "program_from_dict data = Inr P"
  shows "wf_program P \<and> dicts P"
proof -
  let ?add = "\<lambda>ng cfgs. bind_res (decode_cfg (snd ng)) (\<lambda>g. Inr (AList.update (fst ng) g cfgs))"
  obtain raw where f: "fold_res ?add raw [] = Inr (mp_cfgs P)" and v: "validate P = Inr ()"
    using assms by (auto simp: program_from_dict_def bind_res_eq_Inr Let_def)
  have "distinct (map fst (mp_cfgs P)) \<and> (\<forall>g\<in>snd ` set (mp_cfgs P). distinct (map fst (cg_nodes g)))"
    using f
  proof (rule fold_res_invariant)
    fix x d d' assume "distinct (map fst d) \<and> (\<forall>g\<in>snd ` set d. distinct (map fst (cg_nodes g)))" "?add x d = Inr d'"
    then show "distinct (map fst d') \<and> (\<forall>g\<in>snd ` set d'. distinct (map fst (cg_nodes g)))"
      by (auto simp: bind_res_eq_Inr distinct_update dest: decode_cfg_distinct dest!: update_members)
  qed simp
  then show ?thesis using v by (auto simp: dicts_def validate_iff)
qed

text \<open>the loader never lets an invalid program through. Whatever data it is given, it
  returns a program that passes validation and has every dict key once, or raises
  \<^verbatim>\<open>MIRValidationError\<close>; no other exception escapes, in particular no \<^verbatim>\<open>KeyError\<close> from a
  missing field. The same holds for JSON text, where an object that repeats a key is refused.\<close>

theorem loader_strict:
  "(case program_from_dict data of
      Inl e \<Rightarrow> e = MIRValidationError
    | Inr P \<Rightarrow> validate P = Inr () \<and> dicts P) \<and>
   (case program_from_json tree of
      Inl e \<Rightarrow> e = MIRValidationError
    | Inr P \<Rightarrow> validate P = Inr () \<and> dicts P)"
proof -
  have a: "case program_from_dict d of Inl e \<Rightarrow> e = MIRValidationError | Inr P \<Rightarrow> validate P = Inr () \<and> dicts P" for d
    using program_from_dict_strict[of d] program_from_dict_dicts[of d]
    by (cases "program_from_dict d") (auto simp: validate_iff)
  have b: "case program_from_json tree of Inl e \<Rightarrow> e = MIRValidationError | Inr P \<Rightarrow> validate P = Inr () \<and> dicts P"
    if u: "strict (unique_object t)" and t: "tree = Some t" for t
    using u a by (cases "unique_object t") (simp_all add: program_from_json_def t)
  have "strict (unique_object t)" for t
    by (induction t rule: unique_object.induct) (auto intro!: strict_bind strict_map_res)
  then show ?thesis using a b by (cases tree) (auto simp: program_from_json_def)
qed

end
