(* ===== verification/MirInterpreter.thy ===== *)
theory MirInterpreter
  imports MirSyntax
begin

text \<open>
  The reference interpreter of MIR, \<^verbatim>\<open>ir/mir/interpreter.py\<close>.

  Memory maps addresses to values; objects, dicts and environments are association lists from
  names to addresses with every name once. The loop of \<^verbatim>\<open>_run_cfg\<close> and the recursion through
  \<^verbatim>\<open>_execute\<close> count down a fuel: the interpreter stops by itself after \<open>max_steps\<close> instructions, so a
  fuel of \<open>max_steps + 1\<close> is never used up, which \<open>mir_run_returns\<close> proves. The place that is attached to an exception
  on its way out is not modelled.
\<close>

section \<open>Values and memory\<close>

type_synonym address = nat
type_synonym bindings = "(string \<times> address) list"

datatype mir_value =
    VBool bool
  | VInt int
  | VStr string
  | ObjectValue bindings
  | DictValue bindings
  | EnvironmentValue bindings
  | ListValue "address list"
  | ClosureValue expr address

abbreviation MIRTypeError :: py_error where "MIRTypeError \<equiv> OtherError ''MIRTypeError''"
abbreviation UnboundVariableError :: py_error where "UnboundVariableError \<equiv> OtherError ''UnboundVariableError''"
abbreviation MissingAttributeError :: py_error where "MissingAttributeError \<equiv> OtherError ''MissingAttributeError''"
abbreviation InvalidIndexError :: py_error where "InvalidIndexError \<equiv> OtherError ''InvalidIndexError''"
abbreviation PathPruned :: py_error where "PathPruned \<equiv> OtherError ''PathPruned''"
abbreviation NondeterministicControlFlow :: py_error where
  "NondeterministicControlFlow \<equiv> OtherError ''NondeterministicControlFlow''"
abbreviation StepLimitExceeded :: py_error where "StepLimitExceeded \<equiv> OtherError ''StepLimitExceeded''"
abbreviation CallDepthExceeded :: py_error where "CallDepthExceeded \<equiv> OtherError ''CallDepthExceeded''"

type_synonym memory = "address \<rightharpoonup> mir_value"

record mir_state =
  ms_memory :: memory
  ms_steps :: nat
  ms_next :: address

text \<open>\<^verbatim>\<open>self.memory[address]\<close>.\<close>

definition read_memory :: "memory \<Rightarrow> address \<Rightarrow> mir_value res" where
  "read_memory m a = (case m a of None \<Rightarrow> Inl KeyError | Some v \<Rightarrow> Inr v)"

definition allocate :: "mir_value \<Rightarrow> mir_state \<Rightarrow> address \<times> mir_state" where
  "allocate v s = (ms_next s, s\<lparr>ms_memory := (ms_memory s)(ms_next s \<mapsto> v), ms_next := ms_next s + 1\<rparr>)"

definition environment_at :: "memory \<Rightarrow> address \<Rightarrow> bindings res" where
  "environment_at m a =
     bind_res (read_memory m a) (\<lambda>v. case v of EnvironmentValue bs \<Rightarrow> Inr bs | _ \<Rightarrow> Inl MIRTypeError)"

definition env_bind :: "address \<Rightarrow> string \<Rightarrow> address \<Rightarrow> mir_state \<Rightarrow> mir_state res" where
  "env_bind env name a s =
     bind_res (environment_at (ms_memory s) env)
       (\<lambda>bs. Inr (s\<lparr>ms_memory := (ms_memory s)(env \<mapsto> EnvironmentValue (AList.update name a bs))\<rparr>))"

section \<open>Expressions\<close>

text \<open>\<^verbatim>\<open>_index\<close> and \<^verbatim>\<open>_key\<close>.\<close>

definition list_index :: "mir_value \<Rightarrow> nat \<Rightarrow> nat res" where
  "list_index key n =
     (case key of
        VInt i \<Rightarrow> if 1 \<le> i \<and> i \<le> int n then Inr (nat (i - 1)) else Inl InvalidIndexError
      | _ \<Rightarrow> Inl MIRTypeError)"

definition member_key :: "mir_value \<Rightarrow> string res" where
  "member_key key = (case key of VStr s \<Rightarrow> Inr s | _ \<Rightarrow> Inl MIRTypeError)"

text \<open>\<^verbatim>\<open>isinstance(v, _MAP_VALUES)\<close> with the fields of the value.\<close>

fun map_fields :: "mir_value \<Rightarrow> bindings option" where
  "map_fields (ObjectValue bs) = Some bs"
| "map_fields (DictValue bs) = Some bs"
| "map_fields (EnvironmentValue bs) = Some bs"
| "map_fields v = None"

text \<open>\<^verbatim>\<open>type(container)(members)\<close>.\<close>

fun with_fields :: "mir_value \<Rightarrow> bindings \<Rightarrow> mir_value" where
  "with_fields (ObjectValue _) bs = ObjectValue bs"
| "with_fields (DictValue _) bs = DictValue bs"
| "with_fields (EnvironmentValue _) bs = EnvironmentValue bs"
| "with_fields v bs = v"

fun literal_value :: "literal \<Rightarrow> mir_value" where
  "literal_value (LBool b) = VBool b"
| "literal_value (LInt i) = VInt i"
| "literal_value (LStr s) = VStr s"

text \<open>Two mappings with the same entries.\<close>

definition same_bindings :: "bindings \<Rightarrow> bindings \<Rightarrow> bool" where
  "same_bindings xs ys \<longleftrightarrow>
     list_all (\<lambda>k. map_of xs k = map_of ys k) (map fst xs) \<and> list_all (\<lambda>k. map_of xs k = map_of ys k) (map fst ys)"

definition select_reference :: "mir_value \<Rightarrow> mir_value \<Rightarrow> address res" where
  "select_reference container key =
     (case container of
        ListValue items \<Rightarrow> bind_res (list_index key (length items)) (\<lambda>i. Inr (items ! i))
      | _ \<Rightarrow> (case map_fields container of
          Some bs \<Rightarrow> bind_res (member_key key)
            (\<lambda>name. case map_of bs name of None \<Rightarrow> Inl MissingAttributeError | Some a \<Rightarrow> Inr a)
        | None \<Rightarrow> Inl MIRTypeError))"

definition binary :: "string \<Rightarrow> mir_value \<Rightarrow> mir_value \<Rightarrow> mir_value res" where
  "binary op left right =
     (if op = ''+'' then
        (case (left, right) of
           (VInt a, VInt b) \<Rightarrow> Inr (VInt (a + b))
         | (VStr a, VStr b) \<Rightarrow> Inr (VStr (a @ b))
         | (ListValue a, ListValue b) \<Rightarrow> Inr (ListValue (a @ b))
         | _ \<Rightarrow> Inl MIRTypeError)
      else if op = ''-'' then
        (case (left, right) of (VInt a, VInt b) \<Rightarrow> Inr (VInt (a - b)) | _ \<Rightarrow> Inl MIRTypeError)
      else if op = ''='' then
        (case (left, right) of
           (VBool a, VBool b) \<Rightarrow> Inr (VBool (a = b))
         | (VInt a, VInt b) \<Rightarrow> Inr (VBool (a = b))
         | (VStr a, VStr b) \<Rightarrow> Inr (VBool (a = b))
         | (ObjectValue a, ObjectValue b) \<Rightarrow> Inr (VBool (same_bindings a b))
         | _ \<Rightarrow> Inl MIRTypeError)
      else if op = ''<'' then
        (case (left, right) of
           (VInt a, VInt b) \<Rightarrow> Inr (VBool (a < b))
         | (VStr a, VStr b) \<Rightarrow> Inr (VBool (a < b))
         | _ \<Rightarrow> Inl MIRTypeError)
      else if op = ''or'' \<or> op = or_sign then
        (case (left, right) of (VBool a, VBool b) \<Rightarrow> Inr (VBool (a \<or> b)) | _ \<Rightarrow> Inl MIRTypeError)
      else if op = ''in'' then
        (case (left, map_fields right) of
           (VStr a, Some bs) \<Rightarrow> Inr (VBool (a \<in> fst ` set bs))
         | _ \<Rightarrow> Inl MIRTypeError)
      else Inl MIRTypeError)"

definition negate :: "mir_value \<Rightarrow> mir_value res" where
  "negate v = (case v of VBool b \<Rightarrow> Inr (VBool (\<not> b)) | _ \<Rightarrow> Inl MIRTypeError)"

definition value_length :: "mir_value \<Rightarrow> mir_value res" where
  "value_length v =
     (case v of
        ListValue items \<Rightarrow> Inr (VInt (int (length items)))
      | _ \<Rightarrow> (case map_fields v of Some bs \<Rightarrow> Inr (VInt (int (length bs))) | None \<Rightarrow> Inl MIRTypeError))"

lemma size_item: "e \<in> set items \<Longrightarrow> size e \<le> size_list size items"
  by (induction items) auto

lemma size_pair: "(k, e) \<in> set items \<Longrightarrow> size e \<le> size_list (size_prod (\<lambda>x. 0) size) items"
  by (induction items) auto

text \<open>\<^verbatim>\<open>except KeyError: raise UnboundVariableError\<close>, around both lookups of \<^verbatim>\<open>address_of\<close>.\<close>

definition unbound_on_key_error :: "'a res \<Rightarrow> 'a res" where
  "unbound_on_key_error r = (if r = Inl KeyError then Inl UnboundVariableError else r)"

lemma unbound_on_key_error_simps [simp]:
  "unbound_on_key_error (Inr x) = Inr x" "unbound_on_key_error (Inl KeyError) = Inl UnboundVariableError"
  by (simp_all add: unbound_on_key_error_def)

text \<open>\<^verbatim>\<open>address_of\<close> and \<^verbatim>\<open>evaluate\<close>.\<close>

function address_of :: "memory \<Rightarrow> address \<Rightarrow> expr \<Rightarrow> address res"
  and evaluate :: "memory \<Rightarrow> address \<Rightarrow> expr \<Rightarrow> mir_value res" where
  "address_of m env reference =
     (case reference of
        Var x \<Rightarrow> unbound_on_key_error
          (bind_res (environment_at m env) (\<lambda>bs. case map_of bs x of None \<Rightarrow> Inl KeyError | Some a \<Rightarrow> Inr a))
      | Attr b k \<Rightarrow> bind_res (bind_res (address_of m env b) (read_memory m))
          (\<lambda>container. bind_res (evaluate m env k) (select_reference container))
      | _ \<Rightarrow> Inl MIRTypeError)"
| "evaluate m env e =
     (if is_lvalue e then bind_res (address_of m env e) (read_memory m)
      else case e of
        Literal l \<Rightarrow> Inr (literal_value l)
      | NewObject \<Rightarrow> Inr (ObjectValue [])
      | ListExpr items \<Rightarrow>
          bind_res (fold_res (\<lambda>item as. bind_res (address_of m env item) (\<lambda>a. Inr (as @ [a]))) items [])
            (\<lambda>as. Inr (ListValue as))
      | DictExpr items \<Rightarrow>
          bind_res (fold_res (\<lambda>kv bs. bind_res (address_of m env (snd kv)) (\<lambda>a. Inr (AList.update (fst kv) a bs)))
              items [])
            (\<lambda>bs. Inr (DictValue bs))
      | Lambda a k p b r \<Rightarrow> Inr (ClosureValue e env)
      | NotExpr e' \<Rightarrow> bind_res (evaluate m env e') negate
      | Length e' \<Rightarrow> bind_res (evaluate m env e') value_length
      | Binary op l r \<Rightarrow> bind_res (evaluate m env l) (\<lambda>x. bind_res (evaluate m env r) (binary op x))
      | _ \<Rightarrow> Inl MIRTypeError)"
  by pat_completeness auto
termination
  by (relation "measure (\<lambda>x. case x of Inl (m, env, e) \<Rightarrow> 2 * size e | Inr (m, env, e) \<Rightarrow> 2 * size e + 1)")
    (auto dest!: size_item size_pair)

declare address_of.simps [simp del] evaluate.simps [simp del]

section \<open>Instructions\<close>

text \<open>\<^verbatim>\<open>_assumption\<close>.\<close>

definition assumption :: "memory \<Rightarrow> address \<Rightarrow> expr \<Rightarrow> bool res" where
  "assumption m env condition =
     bind_res (evaluate m env condition) (\<lambda>v. case v of VBool b \<Rightarrow> Inr b | _ \<Rightarrow> Inl MIRTypeError)"

text \<open>\<^verbatim>\<open>del items[i]\<close>.\<close>

definition delete_at :: "nat \<Rightarrow> 'a list \<Rightarrow> 'a list" where
  "delete_at i xs = take i xs @ drop (Suc i) xs"

definition store :: "address \<Rightarrow> mir_value \<Rightarrow> mir_state \<Rightarrow> mir_state" where
  "store a v s = s\<lparr>ms_memory := (ms_memory s)(a \<mapsto> v)\<rparr>"

definition bind_reference :: "expr \<Rightarrow> address \<Rightarrow> address \<Rightarrow> mir_state \<Rightarrow> mir_state res" where
  "bind_reference target source env s =
     (case target of
        Var x \<Rightarrow> env_bind env x source s
      | Attr b k \<Rightarrow>
          bind_res (address_of (ms_memory s) env b) (\<lambda>a.
          bind_res (read_memory (ms_memory s) a) (\<lambda>container.
          bind_res (evaluate (ms_memory s) env k) (\<lambda>key.
            case container of
              ListValue items \<Rightarrow>
                bind_res (list_index key (length items)) (\<lambda>i. Inr (store a (ListValue (items[i := source])) s))
            | _ \<Rightarrow> (case map_fields container of
                Some bs \<Rightarrow> bind_res (member_key key)
                  (\<lambda>name. Inr (store a (with_fields container (AList.update name source bs)) s))
              | None \<Rightarrow> Inl MIRTypeError))))
      | _ \<Rightarrow> Inl MIRTypeError)"

definition delete_reference :: "expr \<Rightarrow> address \<Rightarrow> mir_state \<Rightarrow> mir_state res" where
  "delete_reference target env s =
     (case target of
        Var x \<Rightarrow> bind_res (environment_at (ms_memory s) env)
          (\<lambda>bs. if x \<notin> fst ` set bs then Inl UnboundVariableError
                else Inr (store env (EnvironmentValue (AList.delete x bs)) s))
      | Attr b k \<Rightarrow>
          bind_res (address_of (ms_memory s) env b) (\<lambda>a.
          bind_res (read_memory (ms_memory s) a) (\<lambda>container.
          bind_res (evaluate (ms_memory s) env k) (\<lambda>key.
            case container of
              ListValue items \<Rightarrow>
                bind_res (list_index key (length items)) (\<lambda>i. Inr (store a (ListValue (delete_at i items)) s))
            | _ \<Rightarrow> (case map_fields container of
                Some bs \<Rightarrow> bind_res (member_key key)
                  (\<lambda>name. if name \<notin> fst ` set bs then Inl MissingAttributeError
                          else Inr (store a (with_fields container (AList.delete name bs)) s))
              | None \<Rightarrow> Inl MIRTypeError))))
      | _ \<Rightarrow> Inl MIRTypeError)"

text \<open>\<^verbatim>\<open>_execute\<close>. The recursive run of a callee is an argument; \<open>None\<close> is a run out of fuel.\<close>

definition lift_res :: "'a res \<Rightarrow> ('a \<Rightarrow> 'b res option) \<Rightarrow> 'b res option" where
  "lift_res r f = (case r of Inl e \<Rightarrow> Some (Inl e) | Inr x \<Rightarrow> f x)"

lemma lift_res_simps [simp]: "lift_res (Inl e) f = Some (Inl e)" "lift_res (Inr x) f = f x"
  by (simp_all add: lift_res_def)

definition then_res :: "'a res option \<Rightarrow> ('a \<Rightarrow> 'b res option) \<Rightarrow> 'b res option" where
  "then_res r f = (case r of None \<Rightarrow> None | Some r \<Rightarrow> lift_res r f)"

lemma then_res_simps [simp]: "then_res None f = None" "then_res (Some r) f = lift_res r f"
  by (simp_all add: then_res_def)

definition execute_instruction ::
  "(string \<Rightarrow> address \<Rightarrow> mir_state \<Rightarrow> mir_state res option) \<Rightarrow> instruction \<Rightarrow> address \<Rightarrow> mir_state \<Rightarrow>
   mir_state res option" where
  "execute_instruction run_callee i env s =
     (case i of
        Skip \<Rightarrow> Some (Inr s)
      | Assume c \<Rightarrow> Some (bind_res (assumption (ms_memory s) env c) (\<lambda>b. if b then Inr s else Inl PathPruned))
      | Alloc x e \<Rightarrow> Some (bind_res (evaluate (ms_memory s) env e)
          (\<lambda>v. case allocate v s of (a, s) \<Rightarrow> env_bind env x a s))
      | Bind t src \<Rightarrow> Some (bind_res (address_of (ms_memory s) env src) (\<lambda>a. bind_reference t a env s))
      | Env x \<Rightarrow> Some (env_bind env x env s)
      | Delete t \<Rightarrow> Some (delete_reference t env s)
      | Call x f a k \<Rightarrow>
          lift_res (evaluate (ms_memory s) env f) (\<lambda>closure.
            case closure of
              ClosureValue (Lambda ap kp pp b r) parent \<Rightarrow>
                lift_res (address_of (ms_memory s) env a) (\<lambda>args.
                lift_res (address_of (ms_memory s) env k) (\<lambda>kwargs.
                  case allocate (EnvironmentValue
                      (AList.update pp parent (AList.update kp kwargs [(ap, args)]))) s of
                    (callee_env, s) \<Rightarrow>
                      then_res (run_callee b callee_env s) (\<lambda>s.
                      lift_res (address_of (ms_memory s) callee_env (Var r)) (\<lambda>res.
                        Some (env_bind env x res s)))))
            | _ \<Rightarrow> Some (Inl MIRTypeError)))"

section \<open>Runs\<close>

text \<open>The successors whose guard holds; a successor that is not an assumption is feasible.\<close>

definition feasible_step ::
  "mir_cfg \<Rightarrow> memory \<Rightarrow> address \<Rightarrow> int \<Rightarrow> int list \<Rightarrow> int list res" where
  "feasible_step g m env successor found =
     (case map_of (cg_nodes g) successor of
        None \<Rightarrow> Inl KeyError
      | Some node \<Rightarrow> (case nd_instruction node of
          Assume c \<Rightarrow> bind_res (assumption m env c) (\<lambda>b. Inr (if b then found @ [successor] else found))
        | _ \<Rightarrow> Inr (found @ [successor])))"

definition feasible :: "mir_cfg \<Rightarrow> memory \<Rightarrow> address \<Rightarrow> int list \<Rightarrow> int list res" where
  "feasible g m env successors = fold_res (feasible_step g m env) successors []"

text \<open>The limits of an interpreter.\<close>

record mir_limits =
  ml_max_steps :: int
  ml_max_depth :: int

text \<open>\<^verbatim>\<open>_run_cfg\<close> from the node \<open>current\<close> on.\<close>

fun run_from ::
  "nat \<Rightarrow> mir_limits \<Rightarrow> mir_program \<Rightarrow> string \<Rightarrow> address \<Rightarrow> int \<Rightarrow> int \<Rightarrow> mir_state \<Rightarrow> mir_state res option" where
  "run_from 0 lim P name env depth current s = None"
| "run_from (Suc fuel) lim P name env depth current s =
     (case map_of (mp_cfgs P) name of
        None \<Rightarrow> Some (Inl KeyError)
      | Some g \<Rightarrow>
          if int (ms_steps s) \<ge> ml_max_steps lim then Some (Inl StepLimitExceeded)
          else case map_of (cg_nodes g) current of
            None \<Rightarrow> Some (Inl KeyError)
          | Some node \<Rightarrow>
              then_res
                (execute_instruction
                   (\<lambda>body callee_env s.
                      if depth + 1 \<ge> ml_max_depth lim then Some (Inl CallDepthExceeded)
                      else case map_of (mp_cfgs P) body of
                        None \<Rightarrow> Some (Inl KeyError)
                      | Some g' \<Rightarrow> run_from fuel lim P body callee_env (depth + 1) (cg_entry g') s)
                   (nd_instruction node) env (s\<lparr>ms_steps := ms_steps s + 1\<rparr>))
                (\<lambda>s.
                  if current = cg_exit g then Some (Inr s)
                  else lift_res (feasible g (ms_memory s) env (nd_successors node)) (\<lambda>found.
                    case found of
                      [] \<Rightarrow> Some (Inl PathPruned)
                    | [succ] \<Rightarrow> run_from fuel lim P name env depth succ s
                    | _ \<Rightarrow> Some (Inl NondeterministicControlFlow))))"

declare run_from.simps [simp del]

record execution =
  ex_memory :: memory
  ex_environment :: address
  ex_steps :: nat

text \<open>The constructor's check of the limits, and \<^verbatim>\<open>run\<close>.\<close>

definition mir_run :: "mir_limits \<Rightarrow> mir_program \<Rightarrow> execution res option" where
  "mir_run lim P =
     (if ml_max_steps lim < 1 \<or> ml_max_depth lim < 1 then Some (Inl ValueError)
      else lift_res (validate P) (\<lambda>_.
        case allocate (EnvironmentValue []) \<lparr>ms_memory = Map.empty, ms_steps = 0, ms_next = 1\<rparr> of
          (env, s) \<Rightarrow>
            if 0 \<ge> ml_max_depth lim then Some (Inl CallDepthExceeded)
            else case map_of (mp_cfgs P) (mp_entry P) of
              None \<Rightarrow> Some (Inl KeyError)
            | Some g \<Rightarrow>
                then_res (run_from (nat (ml_max_steps lim) + 1) lim P (mp_entry P) env 0 (cg_entry g) s)
                  (\<lambda>s. Some (Inr \<lparr>ex_memory = ms_memory s, ex_environment = env, ex_steps = ms_steps s\<rparr>))))"

text \<open>\<^verbatim>\<open>ExecutionResult.address\<close> and \<^verbatim>\<open>value\<close>.\<close>

definition ex_address :: "execution \<Rightarrow> string \<Rightarrow> address res" where
  "ex_address r name =
     bind_res (read_memory (ex_memory r) (ex_environment r)) (\<lambda>v. case v of
        EnvironmentValue bs \<Rightarrow> (case map_of bs name of None \<Rightarrow> Inl UnboundVariableError | Some a \<Rightarrow> Inr a)
      | _ \<Rightarrow> Inl AssertionError)"

definition ex_value :: "execution \<Rightarrow> string \<Rightarrow> mir_value res" where
  "ex_value r name = bind_res (ex_address r name) (read_memory (ex_memory r))"

definition interpret_program :: "mir_program \<Rightarrow> execution res option" where
  "interpret_program P = mir_run \<lparr>ml_max_steps = 100000, ml_max_depth = 256\<rparr> P"

end
