(* ===== verification/MirSafety.thy ===== *)
theory MirSafety
  imports MirInterpreter MirSerialization
begin

text \<open>
  What running a valid MIR program can do: memory has no dangling reference, an environment
  stays an environment, only the documented runtime errors are raised, and every run ends within
  the limit of steps. The proofs follow the calls of the interpreter; each operation meets a
  contract \<open>safe\<close> over its result.
\<close>

section \<open>Contracts on results\<close>

definition runtime_error :: "py_error \<Rightarrow> bool" where
  "runtime_error e \<longleftrightarrow> e \<in> {MIRTypeError, UnboundVariableError, MissingAttributeError, InvalidIndexError,
     PathPruned, NondeterministicControlFlow, StepLimitExceeded, CallDepthExceeded}"

lemma runtime_errors [simp]:
  "runtime_error MIRTypeError" "runtime_error UnboundVariableError" "runtime_error MissingAttributeError"
  "runtime_error InvalidIndexError" "runtime_error PathPruned" "runtime_error NondeterministicControlFlow"
  "runtime_error StepLimitExceeded" "runtime_error CallDepthExceeded"
  by (simp_all add: runtime_error_def)

definition safe :: "('a \<Rightarrow> bool) \<Rightarrow> 'a res \<Rightarrow> bool" where
  "safe Q r \<longleftrightarrow> (case r of Inl e \<Rightarrow> runtime_error e | Inr x \<Rightarrow> Q x)"

lemma safe_simps [simp]: "safe Q (Inl e) \<longleftrightarrow> runtime_error e" "safe Q (Inr x) \<longleftrightarrow> Q x"
  by (simp_all add: safe_def)

lemma safe_bind: "safe Q r \<Longrightarrow> (\<And>x. Q x \<Longrightarrow> safe R (f x)) \<Longrightarrow> safe R (bind_res r f)"
  by (cases r) auto

lemma safe_weaken: "safe Q r \<Longrightarrow> (\<And>x. Q x \<Longrightarrow> R x) \<Longrightarrow> safe R r"
  by (cases r) auto

lemma safe_fold:
  "Q s \<Longrightarrow> (\<And>x s. x \<in> set xs \<Longrightarrow> Q s \<Longrightarrow> safe Q (f x s)) \<Longrightarrow> safe Q (fold_res f xs s)"
proof (induction xs arbitrary: s)
  case (Cons x xs)
  show ?case unfolding fold_res.simps by (rule safe_bind[where Q = Q]) (use Cons in auto)
qed simp

section \<open>Well-formed memory\<close>

definition env_at :: "memory \<Rightarrow> address \<Rightarrow> bool" where
  "env_at m a \<longleftrightarrow> (\<exists>bs. m a = Some (EnvironmentValue bs))"

definition bindings_ok :: "memory \<Rightarrow> bindings \<Rightarrow> bool" where
  "bindings_ok m bs \<longleftrightarrow> snd ` set bs \<subseteq> dom m \<and> distinct (map fst bs)"

fun value_ok :: "mir_program \<Rightarrow> memory \<Rightarrow> mir_value \<Rightarrow> bool" where
  "value_ok P m (ObjectValue bs) = bindings_ok m bs"
| "value_ok P m (DictValue bs) = bindings_ok m bs"
| "value_ok P m (EnvironmentValue bs) = bindings_ok m bs"
| "value_ok P m (ListValue as) = (set as \<subseteq> dom m)"
| "value_ok P m (ClosureValue e parent) =
     (wf_expr P e \<and> (\<exists>a k p b r. e = Lambda a k p b r) \<and> env_at m parent)"
| "value_ok P m v = True"

definition memory_ok :: "mir_program \<Rightarrow> memory \<Rightarrow> bool" where
  "memory_ok P m \<longleftrightarrow> (\<forall>a v. m a = Some v \<longrightarrow> value_ok P m v)"

definition state_ok :: "mir_program \<Rightarrow> mir_state \<Rightarrow> bool" where
  "state_ok P s \<longleftrightarrow> memory_ok P (ms_memory s) \<and> (\<forall>a\<in>dom (ms_memory s). a < ms_next s)"

text \<open>A later memory of the same run.\<close>

definition memory_le :: "memory \<Rightarrow> memory \<Rightarrow> bool" where
  "memory_le m m' \<longleftrightarrow> dom m \<subseteq> dom m' \<and> (\<forall>a. env_at m a \<longrightarrow> env_at m' a)"

lemma memory_le_refl [simp]: "memory_le m m"
  by (simp add: memory_le_def)

lemma memory_le_trans: "memory_le m m' \<Longrightarrow> memory_le m' m'' \<Longrightarrow> memory_le m m''"
  unfolding memory_le_def by blast

lemma bindings_ok_mono: "memory_le m m' \<Longrightarrow> bindings_ok m bs \<Longrightarrow> bindings_ok m' bs"
  unfolding memory_le_def bindings_ok_def by blast

lemma value_ok_mono: "memory_le m m' \<Longrightarrow> value_ok P m v \<Longrightarrow> value_ok P m' v"
  by (cases v) (auto intro: bindings_ok_mono simp: memory_le_def)

lemma memory_okD: "memory_ok P m \<Longrightarrow> m a = Some v \<Longrightarrow> value_ok P m v"
  by (simp add: memory_ok_def)

lemma map_fields_ok: "value_ok P m v \<Longrightarrow> map_fields v = Some bs \<Longrightarrow> bindings_ok m bs"
  by (cases v) auto

lemma bindings_lookup: "bindings_ok m bs \<Longrightarrow> map_of bs x = Some a \<Longrightarrow> a \<in> dom m"
  by (auto simp: bindings_ok_def dest: map_of_SomeD)

lemma update_entries: "(k', v') \<in> set (AList.update k v d) \<Longrightarrow> (k', v') = (k, v) \<or> (k', v') \<in> set d"
  by (rule update_members)

lemma bindings_update: "bindings_ok m bs \<Longrightarrow> a \<in> dom m \<Longrightarrow> bindings_ok m (AList.update x a bs)"
  by (auto simp: bindings_ok_def distinct_update dest!: update_entries)

lemma bindings_delete: "bindings_ok m bs \<Longrightarrow> bindings_ok m (AList.delete x bs)"
  by (auto simp: bindings_ok_def AList.delete_eq distinct_map_filter)

section \<open>Expressions\<close>

lemma safe_read: "a \<in> dom m \<Longrightarrow> memory_ok P m \<Longrightarrow> safe (\<lambda>v. m a = Some v \<and> value_ok P m v) (read_memory m a)"
  by (auto simp: read_memory_def memory_ok_def)

lemma safe_environment: "env_at m env \<Longrightarrow> memory_ok P m \<Longrightarrow> safe (bindings_ok m) (environment_at m env)"
  by (auto simp: environment_at_def read_memory_def env_at_def dest: memory_okD)

lemma safe_index: "safe (\<lambda>i. i < n) (list_index key n)"
  by (auto simp: list_index_def split: mir_value.split)

lemma safe_key: "safe (\<lambda>s. True) (member_key key)"
  by (auto simp: member_key_def split: mir_value.split)

lemma safe_select:
  assumes "value_ok P m container"
  shows "safe (\<lambda>a. a \<in> dom m) (select_reference container key)"
proof (cases "map_fields container")
  case None
  have "safe (\<lambda>a. a \<in> dom m) (bind_res (list_index key (length items)) (\<lambda>i. Inr (items ! i)))"
    if "set items \<subseteq> dom m" for items
    by (rule safe_bind[OF safe_index]) (use that nth_mem in force)
  then show ?thesis using assms None by (cases container) (simp_all add: select_reference_def)
next
  case (Some bs)
  have "safe (\<lambda>a. a \<in> dom m)
      (bind_res (member_key key) (\<lambda>name. case map_of bs name of None \<Rightarrow> Inl MissingAttributeError | Some a \<Rightarrow> Inr a))"
    by (rule safe_bind[OF safe_key])
      (use bindings_lookup[OF map_fields_ok[OF assms Some]] in \<open>auto split: option.split\<close>)
  then show ?thesis using Some by (cases container) (simp_all add: select_reference_def)
qed

lemma safe_binary: "value_ok P m l \<Longrightarrow> value_ok P m r \<Longrightarrow> safe (value_ok P m) (binary op l r)"
  by (cases l; cases r; simp add: binary_def)

lemma literal_ok: "value_ok P m (literal_value l)"
  by (cases l) auto

lemma safe_negate: "safe (value_ok P m) (negate v)"
  by (auto simp: negate_def split: mir_value.split)

lemma safe_length: "safe (value_ok P m) (value_length v)"
  by (auto simp: value_length_def split: mir_value.split option.split)

lemma address_of_var:
  "env_at m env \<Longrightarrow> address_of m env (Var x) =
     bind_res (environment_at m env) (\<lambda>bs. case map_of bs x of None \<Rightarrow> Inl UnboundVariableError | Some a \<Rightarrow> Inr a)"
  by (auto simp: address_of.simps environment_at_def read_memory_def env_at_def split: option.splits mir_value.splits)

lemma safe_expressions:
  "memory_ok P m \<Longrightarrow> env_at m env \<Longrightarrow> wf_expr P e \<Longrightarrow> safe (\<lambda>a. a \<in> dom m) (address_of m env e)"
  "memory_ok P m \<Longrightarrow> env_at m env \<Longrightarrow> wf_expr P e \<Longrightarrow> safe (value_ok P m) (evaluate m env e)"
proof (induction m env e and m env e rule: address_of_evaluate.induct)
  case (1 m env reference)
  show ?case
  proof (cases reference)
    case (Var x)
    have "safe (\<lambda>a. a \<in> dom m)
        (bind_res (environment_at m env) (\<lambda>bs. case map_of bs x of None \<Rightarrow> Inl UnboundVariableError | Some a \<Rightarrow> Inr a))"
      by (rule safe_bind[OF safe_environment[OF 1(4,3)]]) (auto split: option.split dest: bindings_lookup)
    then show ?thesis using address_of_var [OF 1(4), of x] by (simp add: Var)
  next
    case (Attr b k)
    have b: "safe (\<lambda>a. a \<in> dom m) (address_of m env b)" using 1 Attr by auto
    have c: "safe (value_ok P m) (bind_res (address_of m env b) (read_memory m))"
      by (rule safe_bind[OF b], rule safe_weaken[OF safe_read]) (use 1 in auto)
    show ?thesis
    proof (cases "bind_res (address_of m env b) (read_memory m)")
      case (Inr container)
      then have k: "safe (value_ok P m) (evaluate m env k)" using 1 Attr by auto
      have "safe (\<lambda>a. a \<in> dom m) (bind_res (evaluate m env k) (select_reference container))"
        by (rule safe_bind[OF k], rule safe_select) (use c Inr in simp)
      then show ?thesis using Inr by (simp add: Attr address_of.simps)
    qed (use c in \<open>simp add: Attr address_of.simps\<close>)
  qed (simp_all add: address_of.simps)
next
  case (2 m env e)
  show ?case
  proof (cases "is_lvalue e")
    case True
    have "safe (value_ok P m) (bind_res (address_of m env e) (read_memory m))"
      by (rule safe_bind[OF 2(1)], rule True, rule 2, rule 2, rule 2, rule safe_weaken[OF safe_read]) (use 2 in auto)
    then show ?thesis using True by (simp add: evaluate.simps)
  next
    case False
    show ?thesis
    proof (cases e)
      case (ListExpr items)
      have "safe (\<lambda>as. set as \<subseteq> dom m)
          (fold_res (\<lambda>item as. bind_res (address_of m env item) (\<lambda>a. Inr (as @ [a]))) items [])"
      proof (rule safe_fold)
        fix x as assume "x \<in> set items" and as: "set as \<subseteq> dom m"
        then have "safe (\<lambda>a. a \<in> dom m) (address_of m env x)" using 2 ListExpr False by auto
        then show "safe (\<lambda>as. set as \<subseteq> dom m) (bind_res (address_of m env x) (\<lambda>a. Inr (as @ [a])))"
          by (rule safe_bind) (use as in auto)
      qed simp
      then have "safe (value_ok P m)
          (bind_res (fold_res (\<lambda>item as. bind_res (address_of m env item) (\<lambda>a. Inr (as @ [a]))) items [])
            (\<lambda>as. Inr (ListValue as)))"
        by (rule safe_bind) simp
      then show ?thesis by (simp add: ListExpr evaluate.simps)
    next
      case (DictExpr items)
      let ?step = "\<lambda>kv bs. bind_res (address_of m env (snd kv)) (\<lambda>a. Inr (AList.update (fst kv) a bs))"
      have "safe (bindings_ok m) (fold_res ?step items [])"
      proof (rule safe_fold)
        fix x bs assume x: "x \<in> set items" and bs: "bindings_ok m bs"
        have "safe (\<lambda>a. a \<in> dom m) (address_of m env (snd x))"
          using 2 DictExpr False x by (cases x) auto
        then show "safe (bindings_ok m) (?step x bs)"
          by (rule safe_bind) (use bs in \<open>simp add: bindings_update\<close>)
      qed (simp add: bindings_ok_def)
      then have "safe (value_ok P m) (bind_res (fold_res ?step items []) (\<lambda>bs. Inr (DictValue bs)))"
        by (rule safe_bind) simp
      then show ?thesis by (simp add: DictExpr evaluate.simps)
    next
      case (NotExpr e')
      then have "safe (value_ok P m) (bind_res (evaluate m env e') negate)"
        using 2 False by (auto intro!: safe_bind[OF _ safe_negate])
      then show ?thesis by (simp add: NotExpr evaluate.simps)
    next
      case (Length e')
      then have "safe (value_ok P m) (bind_res (evaluate m env e') value_length)"
        using 2 False by (auto intro!: safe_bind[OF _ safe_length])
      then show ?thesis by (simp add: Length evaluate.simps)
    next
      case (Binary op l r)
      have l: "safe (value_ok P m) (evaluate m env l)" using 2 False Binary by auto
      show ?thesis
      proof (cases "evaluate m env l")
        case (Inr x)
        then have r: "safe (value_ok P m) (evaluate m env r)" using 2 False Binary by auto
        have "safe (value_ok P m) (bind_res (evaluate m env r) (binary op x))"
          by (rule safe_bind[OF r], rule safe_binary) (use l Inr in simp)
        then show ?thesis using Inr by (simp add: Binary evaluate.simps)
      qed (use l in \<open>simp add: Binary evaluate.simps\<close>)
    qed (use False 2 in \<open>auto simp: evaluate.simps literal_ok bindings_ok_def\<close>)
  qed
qed

lemmas safe_address = safe_expressions(1)
lemmas safe_evaluate = safe_expressions(2)

lemma safe_assumption:
  "memory_ok P m \<Longrightarrow> env_at m env \<Longrightarrow> wf_expr P c \<Longrightarrow> safe (\<lambda>b. True) (assumption m env c)"
  unfolding assumption_def by (rule safe_bind[OF safe_evaluate]) (auto split: mir_value.split)

section \<open>Instructions\<close>

text \<open>A later state of the run that started in \<open>s\<close>: well-formed, with at least the addresses and
  environments of \<open>s\<close> and at least its steps, but not steps beyond the limit.\<close>

definition later :: "mir_limits \<Rightarrow> mir_program \<Rightarrow> mir_state \<Rightarrow> mir_state \<Rightarrow> bool" where
  "later lim P s s' \<longleftrightarrow> state_ok P s' \<and> memory_le (ms_memory s) (ms_memory s') \<and> ms_steps s \<le> ms_steps s' \<and>
     int (ms_steps s') \<le> max (int (ms_steps s)) (ml_max_steps lim)"

lemma later_refl: "state_ok P s \<Longrightarrow> later lim P s s"
  by (simp add: later_def)

lemma later_trans: "later lim P s t \<Longrightarrow> later lim P t u \<Longrightarrow> later lim P s u"
  unfolding later_def by (auto intro: memory_le_trans)

lemma later_ok: "later lim P s s' \<Longrightarrow> state_ok P s'"
  by (simp add: later_def)

lemma later_env: "later lim P s s' \<Longrightarrow> env_at (ms_memory s) a \<Longrightarrow> env_at (ms_memory s') a"
  by (simp add: later_def memory_le_def)

lemma later_steps: "later lim P s s' \<Longrightarrow> ms_steps s \<le> ms_steps s'"
  by (simp add: later_def)

lemma state_okD: "state_ok P s \<Longrightarrow> memory_ok P (ms_memory s)"
  by (simp add: state_ok_def)

text \<open>Storing a value of the same kind at an existing address.\<close>

lemma store_later:
  assumes "state_ok P s" "a \<in> dom (ms_memory s)" "value_ok P (ms_memory s) v"
    and "env_at (ms_memory s) a \<Longrightarrow> \<exists>bs. v = EnvironmentValue bs"
  shows "later lim P s (store a v s)"
proof -
  let ?m = "ms_memory s"
  have le: "memory_le ?m (?m(a \<mapsto> v))" using assms(2,4) by (auto simp: memory_le_def env_at_def)
  have "value_ok P (?m(a \<mapsto> v)) w" if "(?m(a \<mapsto> v)) b = Some w" for b w
    using that assms(1,3) value_ok_mono[OF le] by (auto simp: state_ok_def memory_ok_def split: if_splits)
  then show ?thesis using assms(1,2) le by (auto simp: later_def state_ok_def memory_ok_def store_def)
qed

lemma allocate_later:
  assumes "state_ok P s" "value_ok P (ms_memory s) v" "allocate v s = (a, s')"
  shows "later lim P s s'" "ms_memory s' a = Some v" "a \<in> dom (ms_memory s')"
proof -
  let ?m = "ms_memory s"
  have a: "a \<notin> dom ?m" "a = ms_next s" and s': "ms_memory s' = ?m(a \<mapsto> v)" "ms_next s' = ms_next s + 1" "ms_steps s' = ms_steps s"
    using assms(1,3) by (auto simp: allocate_def state_ok_def)
  have le: "memory_le ?m (?m(a \<mapsto> v))" using a by (auto simp: memory_le_def env_at_def)
  have "value_ok P (?m(a \<mapsto> v)) w" if "(?m(a \<mapsto> v)) b = Some w" for b w
    using that assms(1,2) value_ok_mono[OF le] by (auto simp: state_ok_def memory_ok_def split: if_splits)
  moreover have "\<forall>b\<in>dom (?m(a \<mapsto> v)). b < Suc (ms_next s)"
    using assms(1) a by (auto simp: state_ok_def intro: less_SucI)
  ultimately show "later lim P s s'" using s' le by (auto simp: later_def state_ok_def memory_ok_def)
  show "ms_memory s' a = Some v" "a \<in> dom (ms_memory s')" using s' by auto
qed

lemma safe_env_bind:
  assumes "state_ok P s" "env_at (ms_memory s) env" "a \<in> dom (ms_memory s)"
  shows "safe (later lim P s) (env_bind env x a s)"
  unfolding env_bind_def
proof (rule safe_bind[OF safe_environment[OF assms(2) state_okD[OF assms(1)]]])
  fix bs assume bs: "bindings_ok (ms_memory s) bs"
  have "later lim P s (store env (EnvironmentValue (AList.update x a bs)) s)"
    by (rule store_later[OF assms(1)]) (use assms bs in \<open>auto simp: env_at_def bindings_update\<close>)
  then show "safe (later lim P s) (Inr (s\<lparr>ms_memory := (ms_memory s)(env \<mapsto> EnvironmentValue (AList.update x a bs))\<rparr>))"
    by (simp add: store_def)
qed

lemma with_fields_ok:
  assumes "map_fields v = Some bs" "bindings_ok m bs'"
  shows "value_ok P m (with_fields v bs')" "v = EnvironmentValue bs \<Longrightarrow> \<exists>bs. with_fields v bs' = EnvironmentValue bs"
  using assms by (cases v; simp)+

text \<open>Replacing the members of a container at an existing address.\<close>

lemma store_fields_later:
  assumes "state_ok P s" "ms_memory s a = Some v" "map_fields v = Some bs" "bindings_ok (ms_memory s) bs'"
  shows "later lim P s (store a (with_fields v bs') s)"
  by (rule store_later[OF assms(1)])
    (use assms with_fields_ok[OF assms(3,4)] in \<open>auto simp: env_at_def\<close>)

lemma store_list_later:
  assumes "state_ok P s" "ms_memory s a = Some (ListValue xs)" "set ys \<subseteq> dom (ms_memory s)"
  shows "later lim P s (store a (ListValue ys) s)"
  by (rule store_later[OF assms(1)]) (use assms in \<open>auto simp: env_at_def\<close>)

text \<open>Reading the container of an attribute target, and its key.\<close>

lemma safe_container:
  assumes "state_ok P s" "env_at (ms_memory s) env" "wf_expr P b" "wf_expr P k"
    and "\<And>a v key. ms_memory s a = Some v \<Longrightarrow> value_ok P (ms_memory s) v \<Longrightarrow> safe Q (f a v key)"
  shows "safe Q (bind_res (address_of (ms_memory s) env b) (\<lambda>a. bind_res (read_memory (ms_memory s) a)
    (\<lambda>v. bind_res (evaluate (ms_memory s) env k) (\<lambda>key. f a v key))))"
proof (rule safe_bind[OF safe_address[OF state_okD[OF assms(1)] assms(2,3)]])
  fix a assume a: "a \<in> dom (ms_memory s)"
  show "safe Q (bind_res (read_memory (ms_memory s) a)
      (\<lambda>v. bind_res (evaluate (ms_memory s) env k) (\<lambda>key. f a v key)))"
    by (rule safe_bind[OF safe_read[OF a state_okD[OF assms(1)]]],
        rule safe_bind[OF safe_evaluate[OF state_okD[OF assms(1)] assms(2,4)]], rule assms(5)) auto
qed

lemma safe_bind_reference:
  assumes "state_ok P s" "env_at (ms_memory s) env" "wf_expr P t" "src \<in> dom (ms_memory s)"
  shows "safe (later lim P s) (bind_reference t src env s)"
proof (cases t)
  case (Var x)
  then show ?thesis using safe_env_bind[OF assms(1,2,4)] by (simp add: bind_reference_def)
next
  case (Attr b k)
  then have w: "wf_expr P b" "wf_expr P k" using assms(3) by auto
  show ?thesis
    unfolding bind_reference_def Attr expr.case
  proof (rule safe_container[OF assms(1,2) w])
    fix a v key assume v: "ms_memory s a = Some v" "value_ok P (ms_memory s) v"
    show "safe (later lim P s) (case v of
          ListValue items \<Rightarrow> bind_res (list_index key (length items)) (\<lambda>i. Inr (store a (ListValue (items[i := src])) s))
        | _ \<Rightarrow> (case map_fields v of
            Some bs \<Rightarrow> bind_res (member_key key)
              (\<lambda>name. Inr (store a (with_fields v (AList.update name src bs)) s))
          | None \<Rightarrow> Inl MIRTypeError))"
    proof (cases "map_fields v")
      case (Some bs)
      have "safe (later lim P s) (bind_res (member_key key)
          (\<lambda>name. Inr (store a (with_fields v (AList.update name src bs)) s)))"
        by (rule safe_bind[OF safe_key])
          (simp add: store_fields_later[OF assms(1) v(1) Some] bindings_update[OF map_fields_ok[OF v(2) Some] assms(4)])
      then show ?thesis using Some by (cases v) simp_all
    next
      case None
      have "safe (later lim P s) (bind_res (list_index key (length items)) (\<lambda>i. Inr (store a (ListValue (items[i := src])) s)))"
        if "v = ListValue items" for items
        by (rule safe_bind[OF safe_index])
          (use that v assms(4) set_update_subset_insert in \<open>fastforce intro: store_list_later[OF assms(1)]\<close>)
      then show ?thesis using None by (cases v) simp_all
    qed
  qed
qed (simp_all add: bind_reference_def)

lemma set_delete_at: "set (delete_at i xs) \<subseteq> set xs"
  by (auto simp: delete_at_def dest: in_set_takeD in_set_dropD)

lemma safe_delete_reference:
  assumes "state_ok P s" "env_at (ms_memory s) env" "wf_expr P t"
  shows "safe (later lim P s) (delete_reference t env s)"
proof (cases t)
  case (Var x)
  have "safe (later lim P s) (bind_res (environment_at (ms_memory s) env)
      (\<lambda>bs. if x \<notin> fst ` set bs then Inl UnboundVariableError
            else Inr (store env (EnvironmentValue (AList.delete x bs)) s)))"
  proof (rule safe_bind[OF safe_environment[OF assms(2) state_okD[OF assms(1)]]])
    fix bs assume bs: "bindings_ok (ms_memory s) bs"
    have "later lim P s (store env (EnvironmentValue (AList.delete x bs)) s)"
      by (rule store_later[OF assms(1)]) (use assms bs in \<open>auto simp: env_at_def bindings_delete\<close>)
    then show "safe (later lim P s) (if x \<notin> fst ` set bs then Inl UnboundVariableError
        else Inr (store env (EnvironmentValue (AList.delete x bs)) s))" by simp
  qed
  then show ?thesis by (simp add: delete_reference_def Var)
next
  case (Attr b k)
  then have w: "wf_expr P b" "wf_expr P k" using assms(3) by auto
  show ?thesis
    unfolding delete_reference_def Attr expr.case
  proof (rule safe_container[OF assms(1,2) w])
    fix a v key assume v: "ms_memory s a = Some v" "value_ok P (ms_memory s) v"
    show "safe (later lim P s) (case v of
          ListValue items \<Rightarrow> bind_res (list_index key (length items)) (\<lambda>i. Inr (store a (ListValue (delete_at i items)) s))
        | _ \<Rightarrow> (case map_fields v of
            Some bs \<Rightarrow> bind_res (member_key key)
              (\<lambda>name. if name \<notin> fst ` set bs then Inl MissingAttributeError
                      else Inr (store a (with_fields v (AList.delete name bs)) s))
          | None \<Rightarrow> Inl MIRTypeError))"
    proof (cases "map_fields v")
      case (Some bs)
      have "safe (later lim P s) (bind_res (member_key key)
          (\<lambda>name. if name \<notin> fst ` set bs then Inl MissingAttributeError
                  else Inr (store a (with_fields v (AList.delete name bs)) s)))"
        by (rule safe_bind[OF safe_key])
          (simp add: store_fields_later[OF assms(1) v(1) Some] bindings_delete[OF map_fields_ok[OF v(2) Some]])
      then show ?thesis using Some by (cases v) simp_all
    next
      case None
      have "safe (later lim P s) (bind_res (list_index key (length items)) (\<lambda>i. Inr (store a (ListValue (delete_at i items)) s)))"
        if "v = ListValue items" for items
        by (rule safe_bind[OF safe_index])
          (use that v set_delete_at in \<open>fastforce intro: store_list_later[OF assms(1)]\<close>)
      then show ?thesis using None by (cases v) simp_all
    qed
  qed
qed (simp_all add: delete_reference_def)

text \<open>The contract of a step that may run out of fuel, unless \<open>t\<close> holds.\<close>

definition safe_run :: "bool \<Rightarrow> ('a \<Rightarrow> bool) \<Rightarrow> 'a res option \<Rightarrow> bool" where
  "safe_run t Q r \<longleftrightarrow> (case r of None \<Rightarrow> \<not> t | Some x \<Rightarrow> safe Q x)"

lemma safe_run_simps [simp]: "safe_run t Q None \<longleftrightarrow> \<not> t" "safe_run t Q (Some x) \<longleftrightarrow> safe Q x"
  by (simp_all add: safe_run_def)

lemma safe_run_lift: "safe Q r \<Longrightarrow> (\<And>x. Q x \<Longrightarrow> safe_run t R (f x)) \<Longrightarrow> safe_run t R (lift_res r f)"
  by (cases r) auto

lemma safe_run_then: "safe_run t Q r \<Longrightarrow> (\<And>x. Q x \<Longrightarrow> safe_run t R (f x)) \<Longrightarrow> safe_run t R (then_res r f)"
  by (cases r) (auto intro: safe_run_lift)

lemma safe_run_weaken: "safe_run t Q r \<Longrightarrow> (\<And>x. Q x \<Longrightarrow> R x) \<Longrightarrow> safe_run t R r"
  by (cases r) (auto intro: safe_weaken)

lemma safe_call:
  assumes s: "state_ok P s" and env: "env_at (ms_memory s) env"
    and wf: "wf_expr P f" "wf_expr P a" "wf_expr P k"
    and callee: "\<And>body env' s'. body \<in> fst ` set (mp_cfgs P) \<Longrightarrow> later lim P s s' \<Longrightarrow> env_at (ms_memory s') env' \<Longrightarrow>
      safe_run t (later lim P s') (run_callee body env' s')"
  shows "safe_run t (later lim P s) (execute_instruction run_callee (Call x f a k) env s)"
  unfolding execute_instruction_def instruction.case
proof (rule safe_run_lift[OF safe_evaluate[OF state_okD[OF s] env wf(1)]])
  fix closure assume c: "value_ok P (ms_memory s) closure"
  let ?call = "\<lambda>ap kp pp b r parent. lift_res (address_of (ms_memory s) env a) (\<lambda>args.
      lift_res (address_of (ms_memory s) env k) (\<lambda>kwargs.
        case allocate (EnvironmentValue (AList.update pp parent (AList.update kp kwargs [(ap, args)]))) s of
          (callee_env, s) \<Rightarrow> then_res (run_callee b callee_env s) (\<lambda>s.
            lift_res (address_of (ms_memory s) callee_env (Var r)) (\<lambda>res. Some (env_bind env x res s)))))"
  have call: "safe_run t (later lim P s) (?call ap kp pp b r parent)"
    if l: "wf_expr P (Lambda ap kp pp b r)" and parent: "env_at (ms_memory s) parent" for ap kp pp b r parent
  proof (rule safe_run_lift[OF safe_address[OF state_okD[OF s] env wf(2)]],
      rule safe_run_lift[OF safe_address[OF state_okD[OF s] env wf(3)]])
    fix args kwargs assume args: "args \<in> dom (ms_memory s)" "kwargs \<in> dom (ms_memory s)"
    let ?v = "EnvironmentValue (AList.update pp parent (AList.update kp kwargs [(ap, args)]))"
    obtain cenv s1 where al: "allocate ?v s = (cenv, s1)" by fastforce
    have "bindings_ok (ms_memory s) [(ap, args)]" using args by (simp add: bindings_ok_def)
    then have v: "value_ok P (ms_memory s) ?v"
      unfolding value_ok.simps by (intro bindings_update) (use args parent in \<open>auto simp: env_at_def\<close>)
    note s1 = allocate_later[OF s v al]
    have e1: "env_at (ms_memory s1) cenv" using s1(2) by (auto simp: env_at_def)
    have b: "b \<in> fst ` set (mp_cfgs P)" using l by simp
    have "safe_run t (later lim P s) (then_res (run_callee b cenv s1) (\<lambda>s2.
        lift_res (address_of (ms_memory s2) cenv (Var r)) (\<lambda>res. Some (env_bind env x res s2))))"
    proof (rule safe_run_then[OF callee[OF b s1(1) e1]])
      fix s2 assume s2: "later lim P s1 s2"
      have ok2: "state_ok P s2" and l2: "later lim P s s2" using s1(1) s2 later_trans later_ok by blast+
      have r: "wf_expr P (Var r)" using l by simp
      show "safe_run t (later lim P s) (lift_res (address_of (ms_memory s2) cenv (Var r)) (\<lambda>res. Some (env_bind env x res s2)))"
      proof (rule safe_run_lift[OF safe_address[OF state_okD[OF ok2] later_env[OF s2 e1] r]])
        fix res assume "res \<in> dom (ms_memory s2)"
        then have "safe (later lim P s2) (env_bind env x res s2)"
          using ok2 later_env[OF l2 env] by (intro safe_env_bind)
        then show "safe_run t (later lim P s) (Some (env_bind env x res s2))"
          using l2 later_trans by (auto intro: safe_weaken)
      qed
    qed
    then show "safe_run t (later lim P s) (case allocate ?v s of (callee_env, s) \<Rightarrow> then_res (run_callee b callee_env s) (\<lambda>s.
            lift_res (address_of (ms_memory s) callee_env (Var r)) (\<lambda>res. Some (env_bind env x res s))))"
      unfolding al prod.case .
  qed
  show "safe_run t (later lim P s) (case closure of
      ClosureValue (Lambda ap kp pp b r) parent \<Rightarrow> ?call ap kp pp b r parent | _ \<Rightarrow> Some (Inl MIRTypeError))"
  proof (cases "\<exists>ap kp pp b r parent. closure = ClosureValue (Lambda ap kp pp b r) parent")
    case True
    then obtain ap kp pp b r parent where cl: "closure = ClosureValue (Lambda ap kp pp b r) parent" by blast
    then have "wf_expr P (Lambda ap kp pp b r)" "env_at (ms_memory s) parent" using c by auto
    from call[OF this] show ?thesis by (simp add: cl)
  next
    case False
    then show ?thesis by (auto split: mir_value.split expr.split)
  qed
qed

lemma safe_execute:
  assumes s: "state_ok P s" and env: "env_at (ms_memory s) env" and wf: "wf_instruction P i"
    and callee: "\<And>body env' s'. body \<in> fst ` set (mp_cfgs P) \<Longrightarrow> later lim P s s' \<Longrightarrow> env_at (ms_memory s') env' \<Longrightarrow>
      safe_run t (later lim P s') (run_callee body env' s')"
  shows "safe_run t (later lim P s) (execute_instruction run_callee i env s)"
proof (cases i)
  case Skip
  then show ?thesis using later_refl[OF s] by (simp add: execute_instruction_def)
next
  case (Assume c)
  have "safe (later lim P s) (bind_res (assumption (ms_memory s) env c) (\<lambda>b. if b then Inr s else Inl PathPruned))"
    by (rule safe_bind[OF safe_assumption[OF state_okD[OF s] env]])
      (use wf Assume later_refl[OF s] in auto)
  then show ?thesis by (simp add: execute_instruction_def Assume)
next
  case (Alloc x e)
  have "safe (later lim P s) (bind_res (evaluate (ms_memory s) env e) (\<lambda>v. case allocate v s of (a, s) \<Rightarrow> env_bind env x a s))"
  proof (rule safe_bind[OF safe_evaluate[OF state_okD[OF s] env]])
    show "wf_expr P e" using wf Alloc by simp
    fix v assume v: "value_ok P (ms_memory s) v"
    obtain a s1 where al: "allocate v s = (a, s1)" by fastforce
    note s1 = allocate_later[OF s v al]
    have "safe (later lim P s1) (env_bind env x a s1)"
      by (rule safe_env_bind[OF later_ok[OF s1(1)] later_env[OF s1(1) env] s1(3)])
    then show "safe (later lim P s) (case allocate v s of (a, s) \<Rightarrow> env_bind env x a s)"
      unfolding al prod.case by (rule safe_weaken) (rule later_trans[OF s1(1)])
  qed
  then show ?thesis by (simp add: execute_instruction_def Alloc)
next
  case (Bind t src)
  have "safe (later lim P s) (bind_res (address_of (ms_memory s) env src) (\<lambda>a. bind_reference t a env s))"
    by (rule safe_bind[OF safe_address[OF state_okD[OF s] env]], use wf Bind in simp)
      (rule safe_bind_reference[OF s env], use wf Bind in simp)
  then show ?thesis by (simp add: execute_instruction_def Bind)
next
  case (Env x)
  have "env \<in> dom (ms_memory s)" using env by (auto simp: env_at_def)
  then show ?thesis using safe_env_bind[OF s env] by (simp add: execute_instruction_def Env)
next
  case (Delete t)
  then show ?thesis using safe_delete_reference[OF s env] wf by (simp add: execute_instruction_def)
next
  case (Call x f a k)
  show ?thesis unfolding Call by (rule safe_call[OF s env _ _ _ callee]) (use wf Call in auto)
qed

section \<open>Runs\<close>

lemma wf_cfg_at:
  assumes "wf_program P" "map_of (mp_cfgs P) name = Some g"
  shows "wf_cfg P (name, g)"
  using assms by (auto simp: wf_program_def dest: map_of_SomeD)

lemma wf_node_at:
  assumes "wf_cfg P (name, g)" "map_of (cg_nodes g) i = Some n"
  shows "wf_node P g (i, n)"
  using assms by (auto simp: wf_cfg_def dest: map_of_SomeD)

lemma safe_feasible:
  assumes s: "state_ok P s" and env: "env_at (ms_memory s) env" and g: "wf_cfg P (name, g)"
    and succ: "set successors \<subseteq> fst ` set (cg_nodes g)"
  shows "safe (\<lambda>found. set found \<subseteq> set successors) (feasible g (ms_memory s) env successors)"
  unfolding feasible_def
proof (rule safe_fold)
  fix x found assume x: "x \<in> set successors" and f: "set found \<subseteq> set successors"
  then obtain n where n: "map_of (cg_nodes g) x = Some n" using succ by (metis map_of_eq_Some_ex subsetD)
  have "wf_instruction P (nd_instruction n)" using wf_node_at[OF g n] by (simp add: wf_node_def)
  then have "safe (\<lambda>found. set found \<subseteq> set successors)
      (bind_res (assumption (ms_memory s) env c) (\<lambda>b. Inr (if b then found @ [x] else found)))"
    if "nd_instruction n = Assume c" for c
    by (intro safe_bind[OF safe_assumption[OF state_okD[OF s] env]]) (use that x f in auto)
  then show "safe (\<lambda>found. set found \<subseteq> set successors) (feasible_step g (ms_memory s) env x found)"
    using x f by (auto simp: feasible_step_def n split: instruction.split)
qed simp

lemma safe_run_from:
  assumes wf: "wf_program P"
  shows "state_ok P s \<Longrightarrow> env_at (ms_memory s) env \<Longrightarrow> map_of (mp_cfgs P) name = Some g \<Longrightarrow>
    current \<in> fst ` set (cg_nodes g) \<Longrightarrow>
    (t \<Longrightarrow> fuel > 0 \<and> int (ms_steps s) + int fuel > ml_max_steps lim) \<Longrightarrow>
    safe_run t (later lim P s) (run_from fuel lim P name env depth current s)"
proof (induction fuel arbitrary: name g env depth current s)
  case 0
  then have "\<not> t" by blast
  then show ?case by (simp add: run_from.simps)
next
  case (Suc fuel)
  note g = wf_cfg_at[OF wf Suc.prems(3)]
  obtain n where n: "map_of (cg_nodes g) current = Some n" using Suc.prems(4) by (auto simp: map_of_eq_Some_ex)
  note nd = wf_node_at[OF g n]
  show ?case
  proof (cases "int (ms_steps s) \<ge> ml_max_steps lim")
    case True
    then show ?thesis using Suc.prems by (simp add: run_from.simps)
  next
    case False
    let ?s1 = "s\<lparr>ms_steps := ms_steps s + 1\<rparr>"
    let ?callee = "\<lambda>body callee_env s. if depth + 1 \<ge> ml_max_depth lim then Some (Inl CallDepthExceeded)
        else case map_of (mp_cfgs P) body of None \<Rightarrow> Some (Inl KeyError)
        | Some g' \<Rightarrow> run_from fuel lim P body callee_env (depth + 1) (cg_entry g') s"
    have s1: "state_ok P ?s1" "later lim P s ?s1"
      using Suc.prems(1) False by (auto simp: later_def state_ok_def)
    have left: "fuel > 0 \<and> int (ms_steps s') + int fuel > ml_max_steps lim"
      if "ms_steps ?s1 \<le> ms_steps s'" t for s'
      using Suc.prems(5)[OF that(2)] that(1) False by simp
    have exec: "safe_run t (later lim P ?s1) (execute_instruction ?callee (nd_instruction n) env ?s1)"
    proof (rule safe_execute[OF s1(1)])
      show "env_at (ms_memory ?s1) env" using Suc.prems(2) by simp
      show "wf_instruction P (nd_instruction n)" using nd by (simp add: wf_node_def)
      fix body env' s' assume b: "body \<in> fst ` set (mp_cfgs P)" and s': "later lim P ?s1 s'" "env_at (ms_memory s') env'"
      obtain g' where g': "map_of (mp_cfgs P) body = Some g'" using b by (auto simp: map_of_eq_Some_ex)
      have "cg_entry g' \<in> fst ` set (cg_nodes g')" using wf_cfg_at[OF wf g'] by (simp add: wf_cfg_def)
      then have "safe_run t (later lim P s') (run_from fuel lim P body env' (depth + 1) (cg_entry g') s')"
        by (rule Suc.IH[OF later_ok[OF s'(1)] s'(2) g' _ left[OF later_steps[OF s'(1)]]])
      then show "safe_run t (later lim P s') (?callee body env' s')" by (simp add: g')
    qed
    have "safe_run t (later lim P s) (then_res (execute_instruction ?callee (nd_instruction n) env ?s1)
        (\<lambda>s. if current = cg_exit g then Some (Inr s)
          else lift_res (feasible g (ms_memory s) env (nd_successors n)) (\<lambda>found.
            case found of [] \<Rightarrow> Some (Inl PathPruned) | [succ] \<Rightarrow> run_from fuel lim P name env depth succ s
            | _ \<Rightarrow> Some (Inl NondeterministicControlFlow))))"
    proof (rule safe_run_then[OF exec])
      fix s2 assume l12: "later lim P ?s1 s2"
      then have l2: "later lim P s s2" using s1(2) later_trans by blast
      note steps2 = later_steps[OF l12]
      note env2 = later_env[OF l2 Suc.prems(2)]
      have succ: "set (nd_successors n) \<subseteq> fst ` set (cg_nodes g)" using nd by (simp add: wf_node_def)
      show "safe_run t (later lim P s) (if current = cg_exit g then Some (Inr s2)
          else lift_res (feasible g (ms_memory s2) env (nd_successors n)) (\<lambda>found.
            case found of [] \<Rightarrow> Some (Inl PathPruned) | [succ] \<Rightarrow> run_from fuel lim P name env depth succ s2
            | _ \<Rightarrow> Some (Inl NondeterministicControlFlow)))"
      proof (cases "current = cg_exit g")
        case False
        have "safe_run t (later lim P s) (lift_res (feasible g (ms_memory s2) env (nd_successors n)) (\<lambda>found.
            case found of [] \<Rightarrow> Some (Inl PathPruned) | [succ] \<Rightarrow> run_from fuel lim P name env depth succ s2
            | _ \<Rightarrow> Some (Inl NondeterministicControlFlow)))"
        proof (rule safe_run_lift[OF safe_feasible[OF later_ok[OF l2] env2 g succ]])
          fix found assume f: "set found \<subseteq> set (nd_successors n)"
          have "safe_run t (later lim P s) (run_from fuel lim P name env depth succ s2)" if "found = [succ]" for succ
          proof -
            have "succ \<in> fst ` set (cg_nodes g)" using f that \<open>set (nd_successors n) \<subseteq> _\<close> by auto
            then show ?thesis
              by (intro safe_run_weaken[OF Suc.IH[OF later_ok[OF l2] env2 Suc.prems(3)]])
                (use left[OF steps2] l2 later_trans in blast)+
          qed
          then show "safe_run t (later lim P s) (case found of [] \<Rightarrow> Some (Inl PathPruned)
              | [succ] \<Rightarrow> run_from fuel lim P name env depth succ s2 | _ \<Rightarrow> Some (Inl NondeterministicControlFlow))"
            by (auto split: list.split)
        qed
        with False show ?thesis by simp
      qed (use l2 in simp)
    qed
    then show ?thesis using False Suc.prems n by (simp add: run_from.simps)
  qed
qed

text \<open>The run of a valid program under sound limits, at every fuel beyond the limit of steps.\<close>

definition initial_state :: mir_state where
  "initial_state = snd (allocate (EnvironmentValue []) \<lparr>ms_memory = Map.empty, ms_steps = 0, ms_next = 1\<rparr>)"

lemma initial_state: "allocate (EnvironmentValue []) \<lparr>ms_memory = Map.empty, ms_steps = 0, ms_next = 1\<rparr> = (1, initial_state)"
  by (simp add: initial_state_def allocate_def)

lemma initial_ok: "state_ok P initial_state" "env_at (ms_memory initial_state) 1"
  "ms_steps initial_state = 0"
  by (auto simp: initial_state_def allocate_def state_ok_def memory_ok_def env_at_def bindings_ok_def)

lemma safe_start:
  assumes wf: "wf_program P" and lim: "ml_max_steps lim \<ge> 1" and g: "map_of (mp_cfgs P) (mp_entry P) = Some g"
    and fuel: "int fuel > ml_max_steps lim"
  shows "safe_run True (later lim P initial_state) (run_from fuel lim P (mp_entry P) 1 0 (cg_entry g) initial_state)"
proof (rule safe_run_from[OF wf initial_ok(1,2) g])
  show "cg_entry g \<in> fst ` set (cg_nodes g)" using wf_cfg_at[OF wf g] by (simp add: wf_cfg_def)
qed (use lim fuel in \<open>simp add: initial_ok\<close>)

lemma mir_run_valid:
  assumes "wf_program P" "ml_max_steps lim \<ge> 1" "ml_max_depth lim \<ge> 1" "map_of (mp_cfgs P) (mp_entry P) = Some g"
  shows "mir_run lim P = then_res (run_from (nat (ml_max_steps lim) + 1) lim P (mp_entry P) 1 0 (cg_entry g) initial_state)
    (\<lambda>s. Some (Inr \<lparr>ex_memory = ms_memory s, ex_environment = 1, ex_steps = ms_steps s\<rparr>))"
proof -
  have v: "validate P = Inr ()" using assms(1) by (simp add: validate_iff)
  show ?thesis unfolding mir_run_def initial_state v lift_res_simps prod.case using assms by simp
qed

lemma mir_run_rejected:
  "ml_max_steps lim < 1 \<or> ml_max_depth lim < 1 \<Longrightarrow> mir_run lim P = Some (Inl ValueError)"
  "\<not> (ml_max_steps lim < 1 \<or> ml_max_depth lim < 1) \<Longrightarrow> \<not> wf_program P \<Longrightarrow> mir_run lim P = Some (Inl MIRValidationError)"
  using validate_decides_grammar[of P] by (simp_all add: mir_run_def)

text \<open>What every result of \<open>mir_run\<close> is.\<close>

definition run_outcome :: "mir_limits \<Rightarrow> mir_program \<Rightarrow> execution res \<Rightarrow> bool" where
  "run_outcome lim P r \<longleftrightarrow>
     (if ml_max_steps lim < 1 \<or> ml_max_depth lim < 1 then r = Inl ValueError
      else if \<not> wf_program P then r = Inl MIRValidationError
      else safe (\<lambda>x. memory_ok P (ex_memory x) \<and> env_at (ex_memory x) (ex_environment x) \<and>
        int (ex_steps x) \<le> ml_max_steps lim) r)"

lemma mir_run_outcome: "\<exists>r. mir_run lim P = Some r \<and> run_outcome lim P r"
proof (cases "(ml_max_steps lim < 1 \<or> ml_max_depth lim < 1) \<or> \<not> wf_program P")
  case True
  then show ?thesis using mir_run_rejected[of lim P] by (fastforce simp: run_outcome_def)
next
  case False
  then have wf: "wf_program P" and lim: "ml_max_steps lim \<ge> 1" "ml_max_depth lim \<ge> 1" by auto
  obtain g where g: "map_of (mp_cfgs P) (mp_entry P) = Some g"
    using wf by (auto simp: wf_program_def map_of_eq_Some_ex)
  let ?r = "run_from (nat (ml_max_steps lim) + 1) lim P (mp_entry P) 1 0 (cg_entry g) initial_state"
  have "safe_run True (later lim P initial_state) ?r" by (rule safe_start[OF wf lim(1) g]) simp
  then obtain x where x: "?r = Some x" "safe (later lim P initial_state) x" by (cases ?r) auto
  show ?thesis
  proof (cases x)
    case (Inl e)
    then show ?thesis using x False by (simp add: mir_run_valid[OF wf lim g] run_outcome_def)
  next
    case (Inr s)
    then have l: "later lim P initial_state s" using x by simp
    then have "memory_ok P (ms_memory s)" "env_at (ms_memory s) 1" "int (ms_steps s) \<le> ml_max_steps lim"
      using later_env[OF l initial_ok(2)] lim(1) by (auto simp: later_def state_ok_def initial_ok(3))
    then show ?thesis using x Inr False by (simp add: mir_run_valid[OF wf lim g] run_outcome_def)
  qed
qed

section \<open>More fuel changes nothing\<close>

definition extends_run :: "'a option \<Rightarrow> 'a option \<Rightarrow> bool" where
  "extends_run r r' \<longleftrightarrow> r = None \<or> r' = r"

lemma extends_refl [simp]: "extends_run r r" "extends_run None r"
  by (simp_all add: extends_run_def)

lemma extends_lift: "(\<And>x. extends_run (f x) (g x)) \<Longrightarrow> extends_run (lift_res r f) (lift_res r g)"
  by (cases r) auto

lemma extends_then:
  assumes "extends_run r r'" "\<And>x. extends_run (f x) (g x)"
  shows "extends_run (then_res r f) (then_res r' g)"
proof (cases r)
  case (Some x)
  then have "r' = Some x" using assms(1) by (auto simp: extends_run_def)
  then show ?thesis using Some extends_lift[of f g x] assms(2) by simp
qed simp

lemma extends_execute:
  assumes "\<And>b e s. extends_run (rc b e s) (rc' b e s)"
  shows "extends_run (execute_instruction rc i env s) (execute_instruction rc' i env s)"
  by (cases i) (auto simp: execute_instruction_def intro!: extends_lift extends_then assms
      split: mir_value.split expr.split prod.split)

lemma extends_run_from:
  "fuel \<le> fuel' \<Longrightarrow>
   extends_run (run_from fuel lim P name env depth current s) (run_from fuel' lim P name env depth current s)"
proof (induction fuel arbitrary: fuel' name env depth current s)
  case 0
  then show ?case by (simp add: run_from.simps(1))
next
  case (Suc fuel)
  then obtain n where n: "fuel' = Suc n" "fuel \<le> n" by (cases fuel') auto
  show ?case
    unfolding n(1) run_from.simps(2)
    by (auto intro!: extends_then extends_execute extends_lift Suc.IH[OF n(2)] split: option.split list.split)
qed

section \<open>Properties\<close>

text \<open>C39: a run of the interpreter ends. For every program and every limits, \<^verbatim>\<open>run\<close> returns a result or
  raises one of its errors: loops and recursion of the interpreted program are cut off by the
  step limit. And any fuel beyond the limit of steps gives the same run, so the fuel of the
  model is not observable.\<close>

theorem mir_run_returns:
  "(\<exists>r. mir_run lim P = Some r) \<and>
   (wf_program P \<longrightarrow> ml_max_steps lim \<ge> 1 \<longrightarrow> int fuel > ml_max_steps lim \<longrightarrow>
     (\<exists>g r. map_of (mp_cfgs P) (mp_entry P) = Some g \<and>
       run_from fuel lim P (mp_entry P) 1 0 (cg_entry g) initial_state = Some r \<and>
       run_from (nat (ml_max_steps lim) + 1) lim P (mp_entry P) 1 0 (cg_entry g) initial_state = Some r))"
proof (intro conjI impI)
  show "\<exists>r. mir_run lim P = Some r" using mir_run_outcome by blast
  assume wf: "wf_program P" and lim: "ml_max_steps lim \<ge> 1" and fuel: "int fuel > ml_max_steps lim"
  obtain g where g: "map_of (mp_cfgs P) (mp_entry P) = Some g"
    using wf by (auto simp: wf_program_def map_of_eq_Some_ex)
  let ?run = "\<lambda>fuel. run_from fuel lim P (mp_entry P) 1 0 (cg_entry g) initial_state"
  have "safe_run True (later lim P initial_state) (?run (nat (ml_max_steps lim) + 1))"
    by (rule safe_start[OF wf lim g]) simp
  then obtain r where r: "?run (nat (ml_max_steps lim) + 1) = Some r"
    by (cases "?run (nat (ml_max_steps lim) + 1)") auto
  moreover have "nat (ml_max_steps lim) + 1 \<le> fuel" using fuel lim by linarith
  ultimately have "?run fuel = Some r"
    using extends_run_from[of "nat (ml_max_steps lim) + 1" fuel lim P "mp_entry P" 1 0 "cg_entry g" initial_state]
    by (simp add: extends_run_def)
  then show "\<exists>g r. map_of (mp_cfgs P) (mp_entry P) = Some g \<and>
       run_from fuel lim P (mp_entry P) 1 0 (cg_entry g) initial_state = Some r \<and>
       run_from (nat (ml_max_steps lim) + 1) lim P (mp_entry P) 1 0 (cg_entry g) initial_state = Some r"
    using g r by blast
qed

theorem mir_run_returns_witness:
  "run_from 60 \<lparr>ml_max_steps = 50, ml_max_depth = 4\<rparr> example_program ''main'' 1 0 0 initial_state \<noteq> None"
proof -
  have "wf_program example_program" using example_program_valid by (simp add: validate_iff)
  moreover have "map_of (mp_cfgs example_program) (mp_entry example_program) = Some g \<Longrightarrow> cg_entry g = 0" for g
    by (auto simp: example_program_def)
  ultimately show ?thesis
    using mir_run_returns[of "\<lparr>ml_max_steps = 50, ml_max_depth = 4\<rparr>" example_program 60]
    by (auto simp: example_program_def)
qed

text \<open>C36: a valid program cannot break the interpreter. Whatever a run returns, the limits were at least
  one (else \<^verbatim>\<open>ValueError\<close>), the program passed validation (else \<^verbatim>\<open>MIRValidationError\<close>), the only
  exceptions are the documented runtime errors, never a \<^verbatim>\<open>KeyError\<close> for an address, a node or a
  graph, and a completed run took at most the allowed steps and left a memory without dangling
  references where the environment of the run is an environment.\<close>

theorem mir_run_safe:
  "(case mir_run lim P of
      None \<Rightarrow> False
    | Some (Inl e) \<Rightarrow>
        (if ml_max_steps lim < 1 \<or> ml_max_depth lim < 1 then e = ValueError
         else if validate P \<noteq> Inr () then e = MIRValidationError else runtime_error e)
    | Some (Inr r) \<Rightarrow>
        ml_max_steps lim \<ge> 1 \<and> ml_max_depth lim \<ge> 1 \<and> validate P = Inr () \<and> memory_ok P (ex_memory r) \<and>
        env_at (ex_memory r) (ex_environment r) \<and> int (ex_steps r) \<le> ml_max_steps lim)"
  using mir_run_outcome[of lim P]
  by (auto simp: run_outcome_def validate_iff split: sum.split if_splits)

text \<open>binding is by reference. A successful \<^verbatim>\<open>Bind\<close> of a variable makes it name the very address of the
  source, leaves what every other variable names and all memory but the environment as it was;
  an \<^verbatim>\<open>Alloc\<close> names a fresh address that holds the value.\<close>

theorem bind_shares_alloc_copies:
  assumes "state_ok P s" "env_at (ms_memory s) env"
  shows
  "(execute_instruction rc (Bind (Var x) src) env s = Some (Inr s') \<longrightarrow>
     address_of (ms_memory s') env (Var x) = address_of (ms_memory s) env src \<and>
     (\<forall>y. y \<noteq> x \<longrightarrow> address_of (ms_memory s') env (Var y) = address_of (ms_memory s) env (Var y)) \<and>
     (\<forall>b. b \<noteq> env \<longrightarrow> ms_memory s' b = ms_memory s b)) \<and>
   (execute_instruction rc (Alloc x e) env s = Some (Inr s') \<longrightarrow>
     (\<exists>v. evaluate (ms_memory s) env e = Inr v \<and>
       address_of (ms_memory s') env (Var x) = Inr (ms_next s) \<and>
       ms_memory s (ms_next s) = None \<and> ms_memory s' (ms_next s) = Some v \<and>
       (\<forall>y. y \<noteq> x \<longrightarrow> address_of (ms_memory s') env (Var y) = address_of (ms_memory s) env (Var y)) \<and>
       (\<forall>b. b \<noteq> env \<longrightarrow> b \<noteq> ms_next s \<longrightarrow> ms_memory s' b = ms_memory s b)))"
proof (intro conjI impI)
  assume "execute_instruction rc (Bind (Var x) src) env s = Some (Inr s')"
  then obtain a bs where a: "address_of (ms_memory s) env src = Inr a" "ms_memory s env = Some (EnvironmentValue bs)"
    and s': "s' = s\<lparr>ms_memory := (ms_memory s)(env \<mapsto> EnvironmentValue (AList.update x a bs))\<rparr>"
    by (auto simp: execute_instruction_def bind_reference_def env_bind_def bind_res_eq_Inr environment_at_def
        read_memory_def split: option.splits mir_value.splits)
  show "address_of (ms_memory s') env (Var x) = address_of (ms_memory s) env src"
    using a by (simp add: s' address_of.simps environment_at_def read_memory_def update_conv')
  show "\<forall>y. y \<noteq> x \<longrightarrow> address_of (ms_memory s') env (Var y) = address_of (ms_memory s) env (Var y)"
    using a by (simp add: s' address_of.simps environment_at_def read_memory_def update_conv')
  show "\<forall>b. b \<noteq> env \<longrightarrow> ms_memory s' b = ms_memory s b" by (simp add: s')
next
  assume "execute_instruction rc (Alloc x e) env s = Some (Inr s')"
  then obtain v where v: "evaluate (ms_memory s) env e = Inr v"
    and b: "env_bind env x (ms_next s) (snd (allocate v s)) = Inr s'"
    by (auto simp: execute_instruction_def bind_res_eq_Inr allocate_def)
  have fresh: "ms_memory s (ms_next s) = None" "env \<noteq> ms_next s"
    using assms by (force simp: state_ok_def env_at_def)+
  obtain bs where bs: "((ms_memory s)(ms_next s \<mapsto> v)) env = Some (EnvironmentValue bs)"
      "ms_memory s' = ((ms_memory s)(ms_next s \<mapsto> v))(env \<mapsto> EnvironmentValue (AList.update x (ms_next s) bs))"
    using b by (auto simp: env_bind_def bind_res_eq_Inr environment_at_def read_memory_def allocate_def
        split: option.splits mir_value.splits)
  show "\<exists>v. evaluate (ms_memory s) env e = Inr v \<and>
       address_of (ms_memory s') env (Var x) = Inr (ms_next s) \<and>
       ms_memory s (ms_next s) = None \<and> ms_memory s' (ms_next s) = Some v \<and>
       (\<forall>y. y \<noteq> x \<longrightarrow> address_of (ms_memory s') env (Var y) = address_of (ms_memory s) env (Var y)) \<and>
       (\<forall>b. b \<noteq> env \<longrightarrow> b \<noteq> ms_next s \<longrightarrow> ms_memory s' b = ms_memory s b)"
    using v fresh bs by (auto simp: address_of.simps environment_at_def read_memory_def update_conv' split: if_splits)
qed

section \<open>Running a dump\<close>

lemma dumped_entry: "mp_entry (dumped_program P) = mp_entry P"
  by (simp add: dumped_program_def)

lemma dumped_cfgs:
  assumes "dicts P"
  shows "map_of (mp_cfgs (dumped_program P)) name = map_option dumped_cfg (map_of (mp_cfgs P) name)"
proof -
  have "map_of (map (\<lambda>ng. (fst ng, dumped_cfg (snd ng))) xs) name = map_option dumped_cfg (map_of xs name)" for xs
    by (induction xs) auto
  then show ?thesis using assms by (simp add: dumped_program_def map_of_sort_fst dicts_def)
qed

lemma dumped_nodes:
  assumes "dicts P" "map_of (mp_cfgs P) name = Some g"
  shows "map_of (cg_nodes (dumped_cfg g)) = map_of (cg_nodes g)"
  using assms by (auto simp: dumped_cfg_def dicts_def map_of_sort_fst dest: map_of_SomeD)

lemma dumped_ends: "cg_entry (dumped_cfg g) = cg_entry g" "cg_exit (dumped_cfg g) = cg_exit g"
  by (simp_all add: dumped_cfg_def)

lemma dumped_run_from:
  assumes "dicts P"
  shows "run_from fuel lim (dumped_program P) name env depth current s = run_from fuel lim P name env depth current s"
proof (induction fuel arbitrary: name env depth current s)
  case 0
  show ?case by (simp add: run_from.simps(1))
next
  case (Suc fuel)
  have callee: "(case map_of (mp_cfgs (dumped_program P)) body of None \<Rightarrow> x
        | Some g' \<Rightarrow> run_from fuel lim P body e d (cg_entry g') s) =
      (case map_of (mp_cfgs P) body of None \<Rightarrow> x
        | Some g' \<Rightarrow> run_from fuel lim P body e d (cg_entry g') s)" for body e d s x
    by (simp add: dumped_cfgs[OF assms] dumped_ends split: option.split)
  show ?case
  proof (cases "map_of (mp_cfgs P) name")
    case (Some g)
    have f: "feasible (dumped_cfg g) = feasible g"
    proof -
      have "feasible_step (dumped_cfg g) = feasible_step g"
        by (intro ext) (simp add: feasible_step_def dumped_nodes[OF assms Some])
      then show ?thesis by (intro ext) (simp add: feasible_def)
    qed
    show ?thesis
      unfolding run_from.simps(2) Suc.IH callee
      unfolding dumped_cfgs[OF assms] Some option.map option.case dumped_nodes[OF assms Some] dumped_ends f ..
  qed (simp add: run_from.simps(2) dumped_cfgs[OF assms])
qed

text \<open>C38: a dump runs like the program. Loading the dumped form of a valid program and running it gives the same
  result, memory, environment and step count, or the same error, under every limits.\<close>

theorem dump_runs_alike:
  assumes "wf_program P" "dicts P"
  shows "bind_res (program_from_dict (encode_program P)) (\<lambda>Q. Inr (mir_run lim Q)) = Inr (mir_run lim P)"
proof -
  have "validate (dumped_program P) = validate P"
    using assms dumped_wf[OF assms(2,1)] by (simp add: validate_iff validate_decides_grammar)
  then have "mir_run lim (dumped_program P) = mir_run lim P"
    by (cases "map_of (mp_cfgs P) (mp_entry P)")
      (simp_all add: mir_run_def dumped_run_from[OF assms(2)] dumped_cfgs[OF assms(2)] dumped_ends
        allocate_def dumped_entry)
  then show ?thesis by (simp add: program_roundtrip[OF assms])
qed

text \<open>Witnesses.\<close>

lemma example_ok: "wf_program example_program" "dicts example_program"
  using example_program_valid by (simp_all add: validate_iff dicts_def) (simp add: example_program_def node_at_def)

theorem dump_runs_alike_witness:
  "bind_res (program_from_dict (encode_program example_program))
     (\<lambda>Q. Inr (mir_run \<lparr>ml_max_steps = 50, ml_max_depth = 4\<rparr> Q)) =
   Inr (mir_run \<lparr>ml_max_steps = 50, ml_max_depth = 4\<rparr> example_program)"
  by (rule dump_runs_alike[OF example_ok])

theorem bind_shares_alloc_copies_witness:
  "\<exists>s'. execute_instruction (\<lambda>b e s. None) (Alloc ''x'' (Literal (LInt 7))) 1 initial_state = Some (Inr s') \<and>
     address_of (ms_memory s') 1 (Var ''x'') = Inr 2 \<and> ms_memory s' 2 = Some (VInt 7)"
proof -
  let ?i = "Alloc ''x'' (Literal (LInt 7))"
  obtain s' where s': "execute_instruction (\<lambda>b e s. None) ?i 1 initial_state = Some (Inr s')"
    by (auto simp: execute_instruction_def initial_state_def allocate_def evaluate.simps env_bind_def
        environment_at_def read_memory_def)
  have "ms_next initial_state = 2" by (simp add: initial_state_def allocate_def)
  moreover have "evaluate (ms_memory initial_state) 1 (Literal (LInt 7)) = Inr (VInt 7)"
    by (simp add: evaluate.simps)
  ultimately show ?thesis
    using s' bind_shares_alloc_copies[OF initial_ok(1,2), of "\<lambda>b e s. None" "''x''" "Var ''x''" s' "Literal (LInt 7)"]
    by auto
qed

text \<open>The example takes nine steps and its call returns the element of the argument list.\<close>

lemma example_run:
  "(case mir_run \<lparr>ml_max_steps = 50, ml_max_depth = 4\<rparr> example_program of
      Some (Inr r) \<Rightarrow> ex_value r ''out'' = Inr (VInt 7) \<and> ex_steps r = 9 | _ \<Rightarrow> False)"
  by code_simp

end
