(* ===== verification/Dominance.thy ===== *)
theory Dominance
  imports PyBase
begin

text \<open>
  What dominance means in a graph given by its successors: walks from a root, reachable vertices, dominators, the
  shortening of a walk to one that visits nothing twice. The code that computes dominators is in
  \<open>Dominators\<close> and \<open>DjGraphs\<close>.
\<close>

section \<open>Walks\<close>

fun walk :: "('m \<Rightarrow> 'm list) \<Rightarrow> 'm \<Rightarrow> 'm list \<Rightarrow> bool" where
  "walk succ u [] = True"
| "walk succ u (v # p) = (v \<in> set (succ u) \<and> walk succ v p)"

definition reached :: "('m \<Rightarrow> 'm list) \<Rightarrow> 'm \<Rightarrow> 'm set" where
  "reached succ r = {v. \<exists>p. walk succ r p \<and> last (r # p) = v}"

definition dominates :: "('m \<Rightarrow> 'm list) \<Rightarrow> 'm \<Rightarrow> 'm \<Rightarrow> 'm \<Rightarrow> bool" where
  "dominates succ r d v \<longleftrightarrow> (\<forall>p. walk succ r p \<longrightarrow> last (r # p) = v \<longrightarrow> d \<in> set (r # p))"

lemma walk_append: "walk succ u (p @ q) \<longleftrightarrow> walk succ u p \<and> walk succ (last (u # p)) q"
  by (induction p arbitrary: u) auto

lemma last_append_walk: "last (u # p @ q) = last (last (u # p) # q)"
  by (induction q rule: rev_induct) auto

lemma walk_join:
  "walk succ r q \<Longrightarrow> last (r # q) = u \<Longrightarrow> walk succ u p \<Longrightarrow> last (u # p) = v \<Longrightarrow>
    walk succ r (q @ p) \<and> last (r # q @ p) = v"
  by (simp only: walk_append last_append_walk)

lemma reachedI: "walk succ r p \<Longrightarrow> last (r # p) = v \<Longrightarrow> v \<in> reached succ r"
  unfolding reached_def by blast

lemma walk_snoc: "walk succ u (p @ [v]) \<longleftrightarrow> walk succ u p \<and> v \<in> set (succ (last (u # p)))"
  by (simp add: walk_append)

lemma reached_root: "r \<in> reached succ r"
  unfolding reached_def by (auto intro!: exI[of _ "[]"])

lemma reached_step: "u \<in> reached succ r \<Longrightarrow> v \<in> set (succ u) \<Longrightarrow> v \<in> reached succ r"
  unfolding reached_def
proof (elim CollectE exE conjE)
  fix p assume "walk succ r p" "last (r # p) = u" "v \<in> set (succ u)"
  then show "v \<in> {v. \<exists>p. walk succ r p \<and> last (r # p) = v}"
    by (intro CollectI exI[of _ "p @ [v]"]) (simp add: walk_snoc)
qed

lemma reached_induct [consumes 1, case_names root step]:
  assumes "v \<in> reached succ r" and "P r"
    and "\<And>u v. u \<in> reached succ r \<Longrightarrow> P u \<Longrightarrow> v \<in> set (succ u) \<Longrightarrow> P v"
  shows "P v"
proof -
  from assms(1) obtain p where "walk succ r p" "last (r # p) = v" by (auto simp: reached_def)
  then show ?thesis
  proof (induction p arbitrary: v rule: rev_induct)
    case (snoc w p)
    then have "walk succ r p" "w \<in> set (succ (last (r # p)))" by (simp_all add: walk_snoc)
    moreover have "last (r # p) \<in> reached succ r" using \<open>walk succ r p\<close> by (auto simp: reached_def)
    ultimately show ?case using snoc.IH[of "last (r # p)"] assms(3)[of "last (r # p)" w] snoc.prems(2) by simp
  qed (use assms(2) in simp)
qed

lemma reached_subset:
  assumes "r \<in> S" and "\<And>u. u \<in> S \<Longrightarrow> set (succ u) \<subseteq> S"
  shows "reached succ r \<subseteq> S"
proof
  fix v assume "v \<in> reached succ r"
  then show "v \<in> S" by (induction rule: reached_induct) (use assms in auto)
qed

lemma walk_reached: "walk succ r p \<Longrightarrow> set (r # p) \<subseteq> reached succ r"
proof (induction p rule: rev_induct)
  case (snoc v p)
  then have "set (r # p) \<subseteq> reached succ r" "v \<in> set (succ (last (r # p)))" by (simp_all add: walk_snoc)
  then have "v \<in> reached succ r" by (meson last_in_set list.simps(3) reached_step subsetD)
  with \<open>set (r # p) \<subseteq> reached succ r\<close> show ?case by simp
qed (simp add: reached_root)

text \<open>A vertex on a walk ends an initial part of it.\<close>

lemma walk_prefix:
  assumes "walk succ r p" and "v \<in> set (r # p)"
  shows "\<exists>q q'. p = q @ q' \<and> walk succ r q \<and> last (r # q) = v"
proof (cases "v = r")
  case True
  then show ?thesis by (intro exI[of _ "[]"] exI[of _ p]) simp
next
  case False
  with assms(2) obtain a b where "p = a @ v # b" by (auto dest: split_list)
  with assms(1) show ?thesis by (intro exI[of _ "a @ [v]"] exI[of _ b]) (simp add: walk_append)
qed

text \<open>Every walk can be shortened to one that visits nothing twice, inside the same vertices.\<close>

lemma walk_distinct:
  assumes "walk succ r p"
  shows "\<exists>q. walk succ r q \<and> last (r # q) = last (r # p) \<and> set q \<subseteq> set p \<and> distinct (r # q)"
  using assms
proof (induction p rule: rev_induct)
  case Nil
  then show ?case by (intro exI[of _ "[]"]) simp
next
  case (snoc v p)
  then obtain q where q: "walk succ r q" "last (r # q) = last (r # p)" "set q \<subseteq> set p" "distinct (r # q)"
    by (auto simp: walk_snoc)
  show ?case
  proof (cases "v \<in> set (r # q)")
    case True
    from walk_prefix[OF q(1) this] obtain a b where a: "q = a @ b" "walk succ r a" "last (r # a) = v" by blast
    with q show ?thesis by (intro exI[of _ a]) auto
  next
    case False
    have "walk succ r (q @ [v])" using q(1,2) snoc.prems by (simp add: walk_snoc)
    with False q(3,4) show ?thesis by (intro exI[of _ "q @ [v]"]) auto
  qed
qed

section \<open>Dominators\<close>

lemma dominates_refl [simp]: "dominates succ r v v"
  unfolding dominates_def by (metis last_in_set list.simps(3))

lemma dominates_root [simp]: "dominates succ r r v"
  by (simp add: dominates_def)

lemma dominated_root: "dominates succ r d r \<longleftrightarrow> d = r"
proof
  assume "dominates succ r d r"
  from this[unfolded dominates_def, rule_format, of "[]"] show "d = r" by simp
qed simp

lemma dominates_trans: "dominates succ r c d \<Longrightarrow> dominates succ r d v \<Longrightarrow> dominates succ r c v"
proof (unfold dominates_def, intro allI impI)
  fix p assume a: "\<forall>p. walk succ r p \<longrightarrow> last (r # p) = d \<longrightarrow> c \<in> set (r # p)"
    and b: "\<forall>p. walk succ r p \<longrightarrow> last (r # p) = v \<longrightarrow> d \<in> set (r # p)" and p: "walk succ r p" "last (r # p) = v"
  from walk_prefix[OF p(1), of d] b p obtain q q' where "p = q @ q'" "walk succ r q" "last (r # q) = d" by blast
  with a show "c \<in> set (r # p)" by fastforce
qed

text \<open>A dominator of a vertex other than itself dominates the predecessors.\<close>

lemma dominates_predecessor:
  assumes "dominates succ r d v" and "v \<in> set (succ u)" and "d \<noteq> v"
  shows "dominates succ r d u"
  unfolding dominates_def
proof (intro allI impI)
  fix p assume "walk succ r p" "last (r # p) = u"
  with assms(2) have "walk succ r (p @ [v])" by (simp add: walk_snoc)
  from assms(1)[unfolded dominates_def, rule_format, OF this] assms(3) show "d \<in> set (r # p)" by auto
qed

lemma dominates_reached: "dominates succ r d v \<Longrightarrow> v \<in> reached succ r \<Longrightarrow> d \<in> reached succ r"
proof -
  assume d: "dominates succ r d v" and "v \<in> reached succ r"
  then obtain p where "walk succ r p" "last (r # p) = v" by (auto simp: reached_def)
  with d have "d \<in> set (r # p)" by (simp add: dominates_def)
  with walk_reached[OF \<open>walk succ r p\<close>] show ?thesis by blast
qed

lemma dominates_antisym:
  assumes "dominates succ r d v" and "dominates succ r v d" and "v \<in> reached succ r"
  shows "d = v"
proof -
  from assms(3) obtain p where "walk succ r p" "last (r # p) = v" by (auto simp: reached_def)
  from walk_distinct[OF this(1)] this(2) obtain q where q: "walk succ r q" "last (r # q) = v" "distinct (r # q)" by auto
  then have "d \<in> set (r # q)" using assms(1) by (auto simp: dominates_def)
  from walk_prefix[OF q(1) this] obtain a b where a: "q = a @ b" "walk succ r a" "last (r # a) = d" by blast
  then have "v \<in> set (r # a)" using assms(2) by (auto simp: dominates_def)
  moreover have "b = [] \<or> last b = v" using q(2) a(1) by (cases "b = []") auto
  ultimately have "b = []" using q(3) a(1) by (metis disjoint_iff distinct_append append_Cons last_in_set)
  with a q(2) show ?thesis by simp
qed

end
