(* ===== verification/Dominators.thy ===== *)
theory Dominators
  imports Dominance
begin

text \<open>
  \<^verbatim>\<open>findIDoms\<close> of \<^verbatim>\<open>util/graphalgorithim/dominator.py\<close>: the immediate dominators of a graph with several roots, by
  the iteration of Cooper, Harvey and Kennedy over a reverse postorder. A vertex is \<open>Some n\<close>, a node of the graph,
  or \<open>None\<close>, the \<^verbatim>\<open>synthetic_root\<close>. The three loops that may run forever are \<open>partial_function\<close>s; \<open>None\<close> as a result
  is a run without an end. Nodes are compared by identity, as the code compares them; \<^verbatim>\<open>forwardCallback\<close> is a
  function.
\<close>

section \<open>The depth-first search\<close>

record 'm dfs_state =
  ds_successors :: "('m \<times> 'm list) list"
  ds_seen :: "'m set"
  ds_postorder :: "'m list"
  ds_stack :: "('m \<times> 'm list) list"

definition vertex_successors :: "('n \<Rightarrow> 'n list) \<Rightarrow> 'n list \<Rightarrow> 'n option \<Rightarrow> 'n option list" where
  "vertex_successors forward roots v = (case v of None \<Rightarrow> map Some roots | Some n \<Rightarrow> map Some (forward n))"

definition dfs_start :: "('m \<Rightarrow> 'm list) \<Rightarrow> 'm \<Rightarrow> 'm dfs_state" where
  "dfs_start succ root =
     \<lparr>ds_successors = [(root, succ root)], ds_seen = {root}, ds_postorder = [], ds_stack = [(root, succ root)]\<rparr>"

text \<open>The body of the loop: the head of \<open>ds_stack\<close> is the top of the stack, with what is left of its iterator.\<close>

definition dfs_step :: "('m \<Rightarrow> 'm list) \<Rightarrow> 'm dfs_state \<Rightarrow> 'm dfs_state" where
  "dfs_step succ s =
     (case ds_stack s of
        [] \<Rightarrow> s
      | (node, []) # rest \<Rightarrow> s\<lparr>ds_postorder := ds_postorder s @ [node], ds_stack := rest\<rparr>
      | (node, child # children) # rest \<Rightarrow>
          if child \<in> ds_seen s then s\<lparr>ds_stack := (node, children) # rest\<rparr>
          else s\<lparr>ds_seen := insert child (ds_seen s), ds_successors := ds_successors s @ [(child, succ child)],
                 ds_stack := (child, succ child) # (node, children) # rest\<rparr>)"

partial_function (option) dfs_loop :: "('m \<Rightarrow> 'm list) \<Rightarrow> 'm dfs_state \<Rightarrow> 'm dfs_state option" where
  "dfs_loop succ s = (if ds_stack s = [] then Some s else dfs_loop succ (dfs_step succ s))"

declare dfs_loop.simps [code]

definition index_of :: "'m list \<Rightarrow> 'm \<rightharpoonup> nat" where
  "index_of rpo = map_of (zip rpo [0..<length rpo])"

definition add_predecessor :: "'m \<Rightarrow> 'm \<Rightarrow> ('m \<rightharpoonup> 'm list) \<Rightarrow> ('m \<rightharpoonup> 'm list)" where
  "add_predecessor source target preds =
     (case preds target of
        None \<Rightarrow> preds
      | Some sources \<Rightarrow> if source = target then preds else preds(target \<mapsto> sources @ [source]))"

definition predecessors_of :: "'m list \<Rightarrow> ('m \<times> 'm list) list \<Rightarrow> ('m \<rightharpoonup> 'm list)" where
  "predecessors_of rpo successors =
     fold (\<lambda>(source, targets). fold (add_predecessor source) targets) successors
       (\<lambda>n. if n \<in> set rpo then Some [] else None)"

section \<open>The iteration\<close>

definition bind_run :: "'a res option \<Rightarrow> ('a \<Rightarrow> 'b res option) \<Rightarrow> 'b res option" where
  "bind_run m f = (case m of None \<Rightarrow> None | Some (Inl e) \<Rightarrow> Some (Inl e) | Some (Inr x) \<Rightarrow> f x)"

lemma bind_run_simps [simp]:
  "bind_run (Some (Inr x)) f = f x" "bind_run (Some (Inl e)) f = Some (Inl e)" "bind_run None f = None"
  by (simp_all add: bind_run_def)

text \<open>\<open>while rpo_index[node] > rpo_index[bound]: node = idoms[node]\<close>.\<close>

partial_function (option) climb :: "('m \<rightharpoonup> nat) \<Rightarrow> ('m \<rightharpoonup> 'm) \<Rightarrow> 'm \<Rightarrow> 'm \<Rightarrow> 'm res option" where
  "climb rpo_index idoms node bound =
     (case rpo_index node of None \<Rightarrow> Some (Inl KeyError) | Some i \<Rightarrow>
      (case rpo_index bound of None \<Rightarrow> Some (Inl KeyError) | Some j \<Rightarrow>
        if i > j
        then (case idoms node of None \<Rightarrow> Some (Inl KeyError) | Some up \<Rightarrow> climb rpo_index idoms up bound)
        else Some (Inr node)))"

partial_function (option) intersect :: "('m \<rightharpoonup> nat) \<Rightarrow> ('m \<rightharpoonup> 'm) \<Rightarrow> 'm \<Rightarrow> 'm \<Rightarrow> 'm res option" where
  "intersect rpo_index idoms left right =
     (if left = right then Some (Inr left)
      else (case climb rpo_index idoms left right of
          None \<Rightarrow> None
        | Some (Inl e) \<Rightarrow> Some (Inl e)
        | Some (Inr left') \<Rightarrow>
            (case climb rpo_index idoms right left' of
                None \<Rightarrow> None
              | Some (Inl e) \<Rightarrow> Some (Inl e)
              | Some (Inr right') \<Rightarrow> intersect rpo_index idoms left' right')))"

declare climb.simps [code] intersect.simps [code]

fun intersect_all :: "('m \<rightharpoonup> nat) \<Rightarrow> ('m \<rightharpoonup> 'm) \<Rightarrow> 'm list \<Rightarrow> 'm \<Rightarrow> 'm res option" where
  "intersect_all rpo_index idoms [] new_idom = Some (Inr new_idom)"
| "intersect_all rpo_index idoms (pred # preds) new_idom =
     bind_run (intersect rpo_index idoms pred new_idom) (intersect_all rpo_index idoms preds)"

definition update_idom ::
  "('m \<rightharpoonup> nat) \<Rightarrow> ('m \<rightharpoonup> 'm list) \<Rightarrow> 'm \<Rightarrow> ('m \<rightharpoonup> 'm) \<times> bool \<Rightarrow> (('m \<rightharpoonup> 'm) \<times> bool) res option" where
  "update_idom rpo_index predecessors node s =
     (case predecessors node of
        None \<Rightarrow> Some (Inl KeyError)
      | Some preds \<Rightarrow>
          (case filter (\<lambda>pred. fst s pred \<noteq> None) preds of
             [] \<Rightarrow> Some (Inr s)
           | new_idom # available \<Rightarrow>
               bind_run (intersect_all rpo_index (fst s) available new_idom)
                 (\<lambda>new_idom. Some (Inr (if fst s node = Some new_idom then s else ((fst s)(node \<mapsto> new_idom), True))))))"

fun update_idoms ::
  "('m \<rightharpoonup> nat) \<Rightarrow> ('m \<rightharpoonup> 'm list) \<Rightarrow> 'm list \<Rightarrow> ('m \<rightharpoonup> 'm) \<times> bool \<Rightarrow> (('m \<rightharpoonup> 'm) \<times> bool) res option" where
  "update_idoms rpo_index predecessors [] s = Some (Inr s)"
| "update_idoms rpo_index predecessors (node # nodes) s =
     bind_run (update_idom rpo_index predecessors node s) (update_idoms rpo_index predecessors nodes)"

partial_function (option) idom_loop ::
  "('m \<rightharpoonup> nat) \<Rightarrow> ('m \<rightharpoonup> 'm list) \<Rightarrow> 'm list \<Rightarrow> ('m \<rightharpoonup> 'm) \<Rightarrow> ('m \<rightharpoonup> 'm) res option" where
  "idom_loop rpo_index predecessors nodes idoms =
     (case update_idoms rpo_index predecessors nodes (idoms, False) of
        None \<Rightarrow> None
      | Some (Inl e) \<Rightarrow> Some (Inl e)
      | Some (Inr s) \<Rightarrow> (if snd s then idom_loop rpo_index predecessors nodes (fst s) else Some (Inr (fst s))))"

declare idom_loop.simps [code]

definition find_idoms :: "('n \<Rightarrow> 'n list) \<Rightarrow> 'n list \<Rightarrow> ('n \<times> 'n option) list res option" where
  "find_idoms forward all_roots =
     (let roots = dedup all_roots in
      if roots = [] then Some (Inr [])
      else
        (case dfs_loop (vertex_successors forward roots) (dfs_start (vertex_successors forward roots) None) of
           None \<Rightarrow> None
         | Some s \<Rightarrow>
             let rpo = rev (ds_postorder s) in
             bind_run (idom_loop (index_of rpo) (predecessors_of rpo (ds_successors s)) (tl rpo) [None \<mapsto> None])
               (\<lambda>idoms. Some (Inr (concat (map (\<lambda>node. case node of
                    None \<Rightarrow> []
                  | Some n \<Rightarrow> [(n, case idoms node of None \<Rightarrow> None | Some idom \<Rightarrow> idom)]) rpo))))))"

section \<open>What the search finds\<close>

text \<open>The vertices met so far, finished ones first and then the stack from its top: a vertex that finishes keeps its
  place in this list, and a new one enters it before the vertex it was met from.\<close>

definition search_order :: "'m dfs_state \<Rightarrow> 'm list" where
  "search_order s = ds_postorder s @ map fst (ds_stack s)"

definition has_parent :: "('m \<Rightarrow> 'm list) \<Rightarrow> 'm list \<Rightarrow> 'm \<Rightarrow> bool" where
  "has_parent succ order v \<longleftrightarrow> (\<exists>a b u. order = a @ v # b \<and> u \<in> set b \<and> v \<in> set (succ u))"

definition search_inv :: "('m \<Rightarrow> 'm list) \<Rightarrow> 'm \<Rightarrow> 'm dfs_state \<Rightarrow> bool" where
  "search_inv succ root s \<longleftrightarrow>
     distinct (search_order s) \<and> search_order s \<noteq> [] \<and> last (search_order s) = root \<and>
     ds_seen s = set (search_order s) \<and> ds_seen s \<subseteq> reached succ root \<and>
     fst ` set (ds_successors s) = ds_seen s \<and> (\<forall>(v, vs) \<in> set (ds_successors s). vs = succ v) \<and>
     (\<forall>v \<in> set (ds_postorder s). set (succ v) \<subseteq> ds_seen s) \<and>
     (\<forall>(v, cs) \<in> set (ds_stack s). set cs \<subseteq> set (succ v) \<and> set (succ v) - set cs \<subseteq> ds_seen s) \<and>
     (\<forall>v \<in> ds_seen s. v \<noteq> root \<longrightarrow> has_parent succ (search_order s) v)"

lemma search_invD:
  assumes "search_inv succ root s"
  shows "distinct (search_order s)" and "search_order s \<noteq> []" and "last (search_order s) = root"
    and "ds_seen s = set (search_order s)" and "ds_seen s \<subseteq> reached succ root"
    and "fst ` set (ds_successors s) = ds_seen s" and "\<And>v vs. (v, vs) \<in> set (ds_successors s) \<Longrightarrow> vs = succ v"
    and "\<And>v. v \<in> set (ds_postorder s) \<Longrightarrow> set (succ v) \<subseteq> ds_seen s"
    and "\<And>v cs. (v, cs) \<in> set (ds_stack s) \<Longrightarrow> set cs \<subseteq> set (succ v) \<and> set (succ v) - set cs \<subseteq> ds_seen s"
    and "\<And>v. v \<in> ds_seen s \<Longrightarrow> v \<noteq> root \<Longrightarrow> has_parent succ (search_order s) v"
  using assms unfolding search_inv_def by blast+

lemma search_start: "search_inv succ root (dfs_start succ root)"
  by (simp add: search_inv_def dfs_start_def search_order_def reached_root)

lemma has_parent_insert:
  assumes "has_parent succ (xs @ ys) v" and "v \<noteq> w"
  shows "has_parent succ (xs @ w # ys) v"
proof -
  from assms(1) obtain a b u where *: "xs @ ys = a @ v # b" "u \<in> set b" "v \<in> set (succ u)"
    by (auto simp: has_parent_def)
  from *(1) consider c where "xs = a @ v # c" "c @ ys = b" | c where "a = xs @ c" "ys = c @ v # b"
    by (auto simp: append_eq_append_conv2 append_eq_Cons_conv)
  then show ?thesis
  proof cases
    case 1
    then have "xs @ w # ys = a @ v # c @ w # ys" "u \<in> set (c @ w # ys)" using *(2) by auto
    with *(3) show ?thesis unfolding has_parent_def by blast
  next
    case 2
    then have "xs @ w # ys = (xs @ w # c) @ v # b" by simp
    with *(2,3) show ?thesis unfolding has_parent_def by blast
  qed
qed

lemma search_step:
  assumes inv: "search_inv succ root s" and "ds_stack s = (node, children) # rest"
  shows "search_inv succ root (dfs_step succ s)"
proof (cases children)
  case Nil
  have "set (succ node) \<subseteq> ds_seen s" using search_invD(9)[OF inv, of node "[]"] assms(2) Nil by simp
  moreover have "search_order (dfs_step succ s) = search_order s" "ds_seen (dfs_step succ s) = ds_seen s"
    "ds_successors (dfs_step succ s) = ds_successors s" "ds_postorder (dfs_step succ s) = ds_postorder s @ [node]"
    "ds_stack (dfs_step succ s) = rest"
    using assms(2) Nil by (simp_all add: search_order_def dfs_step_def)
  ultimately show ?thesis using inv assms(2) unfolding search_inv_def by (elim conjE) simp
next
  case (Cons child cs)
  note I = search_invD[OF inv]
  have ch: "child \<in> set (succ node)" "set cs \<subseteq> set (succ node)" "set (succ node) - set (child # cs) \<subseteq> ds_seen s"
    using I(9)[of node children] assms(2) Cons by auto
  show ?thesis
  proof (cases "child \<in> ds_seen s")
    case True
    then have "set (succ node) - set cs \<subseteq> ds_seen s" using ch by auto
    moreover have "search_order (dfs_step succ s) = search_order s" "ds_seen (dfs_step succ s) = ds_seen s"
      "ds_successors (dfs_step succ s) = ds_successors s" "ds_postorder (dfs_step succ s) = ds_postorder s"
      "ds_stack (dfs_step succ s) = (node, cs) # rest"
      using assms(2) Cons True by (simp_all add: search_order_def dfs_step_def)
    ultimately show ?thesis using inv assms(2) ch(2) unfolding search_inv_def by (elim conjE) simp
  next
    case False
    let ?s = "dfs_step succ s"
    have step: "ds_seen ?s = insert child (ds_seen s)" "ds_postorder ?s = ds_postorder s"
      "ds_successors ?s = ds_successors s @ [(child, succ child)]"
      "ds_stack ?s = (child, succ child) # (node, cs) # rest"
      using False assms(2) Cons by (simp_all add: dfs_step_def)
    have order: "search_order s = ds_postorder s @ node # map fst rest"
      "search_order ?s = ds_postorder s @ child # node # map fst rest"
      using step assms(2) by (simp_all add: search_order_def)
    have "node \<in> ds_seen s" using I(4) order by simp
    then have reach: "child \<in> reached succ root" using I(5) ch(1) reached_step by fast
    have parents: "has_parent succ (search_order ?s) v" if "v \<in> ds_seen ?s" "v \<noteq> root" for v
    proof (cases "v = child")
      case True
      then show ?thesis unfolding has_parent_def order(2) using ch(1) by (metis list.set_intros(1))
    next
      case neq: False
      with that have "has_parent succ (ds_postorder s @ node # map fst rest) v" using I(10) order step by simp
      from has_parent_insert[OF this neq] show ?thesis using order by simp
    qed
    show ?thesis
      unfolding search_inv_def
    proof (intro conjI ballI impI)
      show "distinct (search_order ?s)" using I(1) I(4) False order by auto
      show "last (search_order ?s) = root" using I(3) order by simp
      show "search_order ?s \<noteq> []" using order by simp
      show "ds_seen ?s = set (search_order ?s)" using I(4) order step(1) by auto
      show "ds_seen ?s \<subseteq> reached succ root" using I(5) step(1) reach by simp
      show "fst ` set (ds_successors ?s) = ds_seen ?s" using I(6) step by auto
      show "case e of (v, vs) \<Rightarrow> vs = succ v" if "e \<in> set (ds_successors ?s)" for e
        using that I(7) step(3) by auto
      show "set (succ v) \<subseteq> ds_seen ?s" if "v \<in> set (ds_postorder ?s)" for v
        using that I(8)[of v] step by auto
      show "case e of (v, cs) \<Rightarrow> set cs \<subseteq> set (succ v) \<and> set (succ v) - set cs \<subseteq> ds_seen ?s"
        if "e \<in> set (ds_stack ?s)" for e
      proof -
        obtain v ys where e: "e = (v, ys)" by fastforce
        from that consider "e = (child, succ child)" | "e = (node, cs)" | "e \<in> set rest" using step(4) by auto
        then show ?thesis
        proof cases
          case 3
          with assms(2) e have "(v, ys) \<in> set (ds_stack s)" by simp
          from I(9)[OF this] show ?thesis unfolding e step(1) by blast
        qed (use ch step(1) in auto)
      qed
      show "has_parent succ (search_order ?s) v" if "v \<in> ds_seen ?s" "v \<noteq> root" for v
        using that by (rule parents)
    qed
  qed
qed

text \<open>Each step of the loop uses up a child or an entry of the stack; a new vertex pays for its own.\<close>

definition search_work :: "('m \<Rightarrow> 'm list) \<Rightarrow> 'm \<Rightarrow> 'm dfs_state \<Rightarrow> nat" where
  "search_work succ root s =
     (\<Sum>v \<in> reached succ root - ds_seen s. length (succ v) + 2) + (\<Sum>(v, cs) \<leftarrow> ds_stack s. length cs + 1)"

lemma search_work_step:
  assumes inv: "search_inv succ root s" and st: "ds_stack s = (node, children) # rest" and fin: "finite (reached succ root)"
  shows "search_work succ root (dfs_step succ s) < search_work succ root s"
proof (cases "\<exists>child cs. children = child # cs \<and> child \<notin> ds_seen s")
  case True
  then obtain child cs where c: "children = child # cs" "child \<notin> ds_seen s" by blast
  let ?R = "reached succ root"
  have "node \<in> ds_seen s" using search_invD(4)[OF inv] st by (simp add: search_order_def)
  then have "child \<in> ?R"
    using search_invD(5)[OF inv] search_invD(9)[OF inv, of node children] st c(1) reached_step by fastforce
  then have "?R - ds_seen s = insert child (?R - insert child (ds_seen s))" using c(2) by auto
  then have "(\<Sum>v \<in> ?R - ds_seen s. length (succ v) + 2) =
      length (succ child) + 2 + (\<Sum>v \<in> ?R - insert child (ds_seen s). length (succ v) + 2)"
    using fin by (metis (no_types, lifting) DiffE finite_Diff insertI1 sum.insert)
  with c st show ?thesis by (simp add: search_work_def dfs_step_def)
next
  case False
  with st show ?thesis by (cases children) (auto simp: search_work_def dfs_step_def)
qed

lemma search_returns:
  assumes "search_inv succ root s" and fin: "finite (reached succ root)"
  shows "\<exists>s'. dfs_loop succ s = Some s' \<and> search_inv succ root s' \<and> ds_stack s' = []"
  using assms(1)
proof (induction "search_work succ root s" arbitrary: s rule: less_induct)
  case less
  show ?case
  proof (cases "ds_stack s")
    case Nil
    with less.prems show ?thesis by (subst dfs_loop.simps) simp
  next
    case (Cons e rest)
    obtain node children where "e = (node, children)" by fastforce
    with Cons have st: "ds_stack s = (node, children) # rest" by simp
    from less.hyps[OF search_work_step[OF less.prems st fin] search_step[OF less.prems st]] st
    show ?thesis by (subst dfs_loop.simps) simp
  qed
qed

lemma search_complete:
  assumes inv: "search_inv succ root s" and empty: "ds_stack s = []"
  shows "set (ds_postorder s) = reached succ root"
proof
  note I = search_invD[OF inv]
  have seen: "ds_seen s = set (ds_postorder s)" using I(4) empty by (simp add: search_order_def)
  then show "set (ds_postorder s) \<subseteq> reached succ root" using I(5) by simp
  have "root \<in> set (ds_postorder s)" using I(2,3,4) seen by (metis last_in_set)
  then show "reached succ root \<subseteq> set (ds_postorder s)" by (rule reached_subset) (use I(8) seen in auto)
qed

end
