(* ===== verification/DominatorResults.thy ===== *)
theory DominatorResults
  imports Dominators
begin

text \<open>
  The iteration of \<^verbatim>\<open>findIDoms\<close> ends and finds the immediate dominators. The proof keeps, through every update of
  one node, that all dominators of a node lie on its chain in the table (\<open>keeps_dominators\<close>) and that after the
  pass number \<open>t\<close> the chain of a node lies on every walk with less than \<open>t\<close> retreating edges (\<open>on_walks\<close>): as a walk
  without repetition has fewer retreating edges than the graph has vertices, the passes are bounded by them.
\<close>

section \<open>The numbering\<close>

definition num :: "'m list \<Rightarrow> 'm \<Rightarrow> nat" where
  "num rpo v = the (index_of rpo v)"

lemma index_of_nth:
  assumes "distinct rpo" and "i < length rpo"
  shows "index_of rpo (rpo ! i) = Some i"
proof -
  have "map_of (zip rpo [0..<length rpo]) (rpo ! i) = Some ([0..<length rpo] ! i)"
    using assms by (intro map_of_zip_nth) simp_all
  with assms(2) show ?thesis by (simp add: index_of_def)
qed

lemma index_of_num:
  assumes "distinct rpo" and "v \<in> set rpo"
  shows "index_of rpo v = Some (num rpo v)" and "num rpo v < length rpo" and "rpo ! num rpo v = v"
  using assms index_of_nth[OF assms(1)] by (auto simp: num_def in_set_conv_nth)

lemma num_eq_iff: "distinct rpo \<Longrightarrow> u \<in> set rpo \<Longrightarrow> v \<in> set rpo \<Longrightarrow> num rpo u = num rpo v \<longleftrightarrow> u = v"
  using index_of_num(3) by metis

lemma num_nth: "distinct rpo \<Longrightarrow> i < length rpo \<Longrightarrow> num rpo (rpo ! i) = i"
  by (simp add: num_def index_of_nth)

definition numbered ::
  "('m \<Rightarrow> 'm list) \<Rightarrow> 'm \<Rightarrow> 'm list \<Rightarrow> ('m \<rightharpoonup> 'm list) \<Rightarrow> bool" where
  "numbered succ root rpo predecessors \<longleftrightarrow>
     distinct rpo \<and> set rpo = reached succ root \<and> (\<exists>nodes. rpo = root # nodes) \<and>
     (\<forall>v \<in> set rpo. \<exists>ps. predecessors v = Some ps \<and> set ps = {u \<in> set rpo. v \<in> set (succ u) \<and> u \<noteq> v}) \<and>
     (\<forall>v \<in> set rpo. v \<noteq> root \<longrightarrow> (\<exists>u \<in> set rpo. v \<in> set (succ u) \<and> num rpo u < num rpo v))"

lemma numberedD:
  assumes "numbered succ root rpo predecessors"
  shows "distinct rpo" and "set rpo = reached succ root" and "root \<in> set rpo" and "num rpo root = 0"
    and "rpo = root # tl rpo"
    and "\<And>v. v \<in> set rpo \<Longrightarrow> \<exists>ps. predecessors v = Some ps \<and> set ps = {u \<in> set rpo. v \<in> set (succ u) \<and> u \<noteq> v}"
    and "\<And>v. v \<in> set rpo \<Longrightarrow> v \<noteq> root \<Longrightarrow> \<exists>u \<in> set rpo. v \<in> set (succ u) \<and> num rpo u < num rpo v"
proof -
  from assms obtain nodes where n: "rpo = root # nodes" and d: "distinct rpo" by (auto simp: numbered_def)
  then show "root \<in> set rpo" "rpo = root # tl rpo" by simp_all
  show "num rpo root = 0" using num_nth[OF d, of 0] n by simp
qed (use assms in \<open>auto simp: numbered_def\<close>)

lemma num_zero: "numbered succ root rpo predecessors \<Longrightarrow> v \<in> set rpo \<Longrightarrow> num rpo v = 0 \<longleftrightarrow> v = root"
  using num_eq_iff[OF numberedD(1), of succ root rpo predecessors v root] numberedD(3,4) by metis

section \<open>Tables of immediate dominators\<close>

definition above :: "('m \<rightharpoonup> 'm) \<Rightarrow> ('m \<times> 'm) set" where
  "above idoms = {(v, d). idoms v = Some d}"

definition chain :: "('m \<rightharpoonup> 'm) \<Rightarrow> 'm \<Rightarrow> 'm set" where
  "chain idoms v = {y. (v, y) \<in> (above idoms)\<^sup>*}"

definition idom_table :: "'m list \<Rightarrow> 'm \<Rightarrow> ('m \<rightharpoonup> 'm) \<Rightarrow> bool" where
  "idom_table rpo root idoms \<longleftrightarrow>
     idoms root = Some root \<and> dom idoms \<subseteq> set rpo \<and>
     (\<forall>v d. idoms v = Some d \<longrightarrow> v \<noteq> root \<longrightarrow> d \<in> dom idoms \<and> num rpo d < num rpo v)"

lemma chain_refl [simp]: "v \<in> chain idoms v"
  by (simp add: chain_def)

lemma chain_step: "idoms v = Some d \<Longrightarrow> y \<in> chain idoms d \<Longrightarrow> y \<in> chain idoms v"
  by (auto simp: chain_def above_def intro: converse_rtrancl_into_rtrancl)

lemma chain_trans: "y \<in> chain idoms v \<Longrightarrow> z \<in> chain idoms y \<Longrightarrow> z \<in> chain idoms v"
  by (auto simp: chain_def)

lemma chain_unfold: "chain idoms v = insert v (case idoms v of None \<Rightarrow> {} | Some d \<Rightarrow> chain idoms d)"
proof (intro equalityI subsetI)
  fix y assume "y \<in> chain idoms v"
  then have "(v, y) \<in> (above idoms)\<^sup>*" by (simp add: chain_def)
  then show "y \<in> insert v (case idoms v of None \<Rightarrow> {} | Some d \<Rightarrow> chain idoms d)"
    by (cases rule: converse_rtranclE) (auto simp: chain_def above_def)
qed (auto intro: chain_step split: option.splits)

lemma chain_induct [consumes 1, case_names base step]:
  assumes "y \<in> chain idoms v" and "P v"
    and "\<And>x d. x \<in> chain idoms v \<Longrightarrow> P x \<Longrightarrow> idoms x = Some d \<Longrightarrow> P d"
  shows "P y"
proof -
  from assms(1) have "(v, y) \<in> (above idoms)\<^sup>*" by (simp add: chain_def)
  then show ?thesis
    by (induction rule: rtrancl_induct) (use assms(2,3) in \<open>auto simp: chain_def above_def\<close>)
qed

lemma table_root: "idom_table rpo root idoms \<Longrightarrow> idoms root = Some root \<and> root \<in> dom idoms"
  by (auto simp: idom_table_def)

lemma table_step:
  "idom_table rpo root idoms \<Longrightarrow> idoms v = Some d \<Longrightarrow>
    d \<in> dom idoms \<and> num rpo d \<le> num rpo v \<and> (v \<noteq> root \<longrightarrow> num rpo d < num rpo v)"
  by (cases "v = root") (force simp: idom_table_def)+

lemma table_rpo: "idom_table rpo root idoms \<Longrightarrow> v \<in> dom idoms \<Longrightarrow> v \<in> set rpo"
  by (auto simp: idom_table_def)

lemma chain_dom: "y \<in> chain idoms v \<Longrightarrow> idom_table rpo root idoms \<Longrightarrow> v \<in> dom idoms \<Longrightarrow> y \<in> dom idoms"
proof (induction rule: chain_induct)
  case (step x d)
  with table_step[of rpo root idoms x d] show ?case by simp
qed simp

lemma chain_num: "y \<in> chain idoms v \<Longrightarrow> idom_table rpo root idoms \<Longrightarrow> num rpo y \<le> num rpo v"
proof (induction rule: chain_induct)
  case (step x d)
  with table_step[of rpo root idoms x d] show ?case by simp
qed simp

lemma chain_root:
  assumes "idom_table rpo root idoms"
  shows "chain idoms root = {root}"
proof -
  have "y = root" if "y \<in> chain idoms root" for y
    using that by (induction rule: chain_induct) (use table_root[OF assms] in auto)
  then show ?thesis by auto
qed

text \<open>The chain of a vertex but itself is the chain of its entry; two vertices of a chain are on the chain of the one
  with the larger number.\<close>

lemma chain_entry: "idoms v = Some d \<Longrightarrow> y \<in> chain idoms v \<Longrightarrow> y \<noteq> v \<Longrightarrow> y \<in> chain idoms d"
  using chain_unfold[of idoms v] by simp

lemma chain_linear:
  assumes "y \<in> chain idoms v" and "idom_table rpo root idoms" and "z \<in> chain idoms v" and "num rpo z < num rpo y"
  shows "z \<in> chain idoms y"
  using assms
proof (induction rule: chain_induct)
  case (step x d)
  have "num rpo z < num rpo x" using table_step[of rpo root idoms x d] step.prems step.hyps by simp
  with step have "z \<in> chain idoms x" by blast
  moreover have "z \<noteq> x" using \<open>num rpo z < num rpo x\<close> by auto
  ultimately show ?case using chain_entry[of idoms x d z] step.hyps(2) by simp
qed

section \<open>The nearest common ancestor\<close>

lemma climb_correct:
  assumes nm: "numbered succ root rpo predecessors" and tab: "idom_table rpo root idoms"
    and "v \<in> dom idoms" and b: "b \<in> dom idoms"
  shows "\<exists>w. climb (index_of rpo) idoms v b = Some (Inr w) \<and> w \<in> chain idoms v \<and> num rpo w \<le> num rpo b \<and>
    (num rpo v > num rpo b \<longrightarrow> num rpo w < num rpo v) \<and> (num rpo v \<le> num rpo b \<longrightarrow> w = v) \<and>
    (\<forall>y \<in> chain idoms v. num rpo y \<le> num rpo b \<longrightarrow> y \<in> chain idoms w)"
  using assms(3)
proof (induction "num rpo v" arbitrary: v rule: less_induct)
  case less
  have ix: "index_of rpo v = Some (num rpo v)" "index_of rpo b = Some (num rpo b)"
    using index_of_num(1)[OF numberedD(1)[OF nm]] table_rpo[OF tab] less.prems b by blast+
  show ?case
  proof (cases "num rpo v > num rpo b")
    case False
    with ix show ?thesis by (subst climb.simps) auto
  next
    case True
    then have "v \<noteq> root" using numberedD(4)[OF nm] by auto
    obtain d where d: "idoms v = Some d" using less.prems by blast
    have dn: "num rpo d < num rpo v" "d \<in> dom idoms" using table_step[of rpo root idoms v d] tab d \<open>v \<noteq> root\<close> by auto
    from less.hyps[OF dn] obtain w where w: "climb (index_of rpo) idoms d b = Some (Inr w)" "w \<in> chain idoms d"
      "num rpo w \<le> num rpo b" "\<forall>y \<in> chain idoms d. num rpo y \<le> num rpo b \<longrightarrow> y \<in> chain idoms w"
      by blast
    have "climb (index_of rpo) idoms v b = Some (Inr w)" using ix True d w(1) by (subst climb.simps) simp
    moreover have "y \<in> chain idoms w" if "y \<in> chain idoms v" "num rpo y \<le> num rpo b" for y
      using chain_entry[of idoms v d y] d that True w(4) by fastforce
    ultimately show ?thesis using w(2,3) True chain_step[of idoms v d w] d dn(1) chain_num[OF w(2) tab] by auto
  qed
qed

definition is_meet :: "('m \<rightharpoonup> 'm) \<Rightarrow> 'm set \<Rightarrow> 'm \<Rightarrow> bool" where
  "is_meet idoms ps d \<longleftrightarrow>
     d \<in> dom idoms \<and> (\<forall>p \<in> ps. d \<in> chain idoms p) \<and> (\<forall>y. (\<forall>p \<in> ps. y \<in> chain idoms p) \<longrightarrow> y \<in> chain idoms d)"

lemma intersect_correct:
  assumes nm: "numbered succ root rpo predecessors" and tab: "idom_table rpo root idoms"
    and "l \<in> dom idoms" and "r \<in> dom idoms"
  shows "\<exists>d. intersect (index_of rpo) idoms l r = Some (Inr d) \<and> is_meet idoms {l, r} d"
  using assms(3,4)
proof (induction "num rpo l + num rpo r" arbitrary: l r rule: less_induct)
  case less
  show ?case
  proof (cases "l = r")
    case True
    with less.prems show ?thesis by (subst intersect.simps) (auto simp: is_meet_def)
  next
    case False
    from climb_correct[OF nm tab less.prems] obtain l' where l': "climb (index_of rpo) idoms l r = Some (Inr l')"
      "l' \<in> chain idoms l" "num rpo l' \<le> num rpo r" "num rpo l > num rpo r \<longrightarrow> num rpo l' < num rpo l"
      "num rpo l \<le> num rpo r \<longrightarrow> l' = l" "\<forall>y \<in> chain idoms l. num rpo y \<le> num rpo r \<longrightarrow> y \<in> chain idoms l'"
      by blast
    have ld: "l' \<in> dom idoms" using chain_dom[OF l'(2) tab less.prems(1)] .
    from climb_correct[OF nm tab less.prems(2) ld] obtain r' where r': "climb (index_of rpo) idoms r l' = Some (Inr r')"
      "r' \<in> chain idoms r" "num rpo r > num rpo l' \<longrightarrow> num rpo r' < num rpo r"
      "num rpo r \<le> num rpo l' \<longrightarrow> r' = r" "\<forall>y \<in> chain idoms r. num rpo y \<le> num rpo l' \<longrightarrow> y \<in> chain idoms r'"
      by blast
    have rd: "r' \<in> dom idoms" using chain_dom[OF r'(2) tab less.prems(2)] .
    have "num rpo l \<noteq> num rpo r"
      using num_eq_iff[OF numberedD(1)[OF nm]] table_rpo[OF tab] less.prems False by blast
    then have "num rpo l' + num rpo r' < num rpo l + num rpo r"
      using l'(3,4,5) r'(3,4) by (cases "num rpo l > num rpo r"; cases "num rpo r > num rpo l'") auto
    from less.hyps[OF this ld rd] obtain d where d: "intersect (index_of rpo) idoms l' r' = Some (Inr d)"
      "is_meet idoms {l', r'} d" by blast
    have "intersect (index_of rpo) idoms l r = Some (Inr d)"
      using False l'(1) r'(1) d(1) by (subst intersect.simps) simp
    moreover have "y \<in> chain idoms l' \<and> y \<in> chain idoms r'" if "y \<in> chain idoms l" "y \<in> chain idoms r" for y
    proof -
      have "y \<in> chain idoms l'" using that l'(6) chain_num[OF that(2) tab] by blast
      moreover from this have "y \<in> chain idoms r'" using that(2) r'(5) chain_num[OF _ tab] by blast
      ultimately show ?thesis by blast
    qed
    moreover have "d \<in> chain idoms l" "d \<in> chain idoms r"
      using d(2) chain_trans[OF l'(2)] chain_trans[OF r'(2)] by (auto simp: is_meet_def)
    ultimately have "is_meet idoms {l, r} d" using d(2) by (auto simp: is_meet_def)
    with \<open>intersect (index_of rpo) idoms l r = Some (Inr d)\<close> show ?thesis by blast
  qed
qed

lemma is_meet_insert:
  assumes "is_meet idoms {p, m} d" and "is_meet idoms ps m"
  shows "is_meet idoms (insert p ps) d"
proof -
  have m: "d \<in> chain idoms p" "d \<in> chain idoms m" using assms(1) by (auto simp: is_meet_def)
  with assms(2) have "d \<in> chain idoms q" if "q \<in> ps" for q
    using that chain_trans[of m idoms q d] by (auto simp: is_meet_def)
  with m assms show ?thesis by (auto simp: is_meet_def)
qed

lemma intersect_all_correct:
  assumes nm: "numbered succ root rpo predecessors" and tab: "idom_table rpo root idoms"
    and "is_meet idoms qs m" and "set ps \<subseteq> dom idoms"
  shows "\<exists>d. intersect_all (index_of rpo) idoms ps m = Some (Inr d) \<and> is_meet idoms (qs \<union> set ps) d"
  using assms(3,4)
proof (induction ps arbitrary: m qs)
  case (Cons p ps)
  have "m \<in> dom idoms" using Cons.prems(1) by (simp add: is_meet_def)
  with Cons.prems(2) intersect_correct[OF nm tab, of p m] obtain k
    where k: "intersect (index_of rpo) idoms p m = Some (Inr k)" "is_meet idoms {p, m} k" by auto
  from Cons.IH[OF is_meet_insert[OF k(2) Cons.prems(1)]] Cons.prems(2) k(1) show ?case by auto
qed simp

section \<open>Updates\<close>

text \<open>The table after one entry has changed.\<close>

lemma table_update:
  assumes "idom_table rpo root idoms" and "node \<in> set rpo" and "node \<noteq> root"
    and "d \<in> dom idoms" and "num rpo d < num rpo node"
  shows "idom_table rpo root (idoms(node \<mapsto> d))"
  using assms unfolding idom_table_def by auto

lemma chain_update_below:
  assumes "node \<notin> chain idoms v"
  shows "chain (idoms(node \<mapsto> d)) v = chain idoms v"
proof (intro equalityI subsetI)
  fix y assume "y \<in> chain (idoms(node \<mapsto> d)) v"
  then show "y \<in> chain idoms v"
  proof (induction rule: chain_induct)
    case (step x e)
    then have "x \<noteq> node" using assms by auto
    with step.hyps have "idoms x = Some e" by simp
    then have "e \<in> chain idoms x" by (rule chain_step) simp
    with step.IH show ?case by (rule chain_trans)
  qed simp
next
  fix y assume "y \<in> chain idoms v"
  then show "y \<in> chain (idoms(node \<mapsto> d)) v"
  proof (induction rule: chain_induct)
    case (step x e)
    then have "x \<noteq> node" using assms by auto
    with step have "(idoms(node \<mapsto> d)) x = Some e" by simp
    then have "e \<in> chain (idoms(node \<mapsto> d)) x" by (rule chain_step) simp
    with step.IH show ?case by (rule chain_trans)
  qed simp
qed

lemma chain_update:
  assumes "y \<in> chain (idoms(node \<mapsto> d)) v"
  shows "y \<in> chain idoms v \<or> node \<in> chain idoms v \<and> y \<in> chain (idoms(node \<mapsto> d)) node"
  using assms
proof (induction rule: chain_induct)
  case (step x e)
  have e: "e \<in> chain (idoms(node \<mapsto> d)) x" using chain_step[of "idoms(node \<mapsto> d)" x e e] step.hyps by simp
  show ?case
  proof (cases "x = node \<or> x \<notin> chain idoms v")
    case True
    with step.IH e chain_trans[OF _ e, of node] show ?thesis by (auto simp del: fun_upd_apply)
  next
    case False
    with step.hyps have "e \<in> chain idoms x" using chain_step[of idoms x e e] by simp
    with False show ?thesis using chain_trans[of x idoms v e] by blast
  qed
qed simp

text \<open>Every dominator of a node but itself dominates its entry.\<close>

definition keeps_dominators :: "('m \<Rightarrow> 'm list) \<Rightarrow> 'm \<Rightarrow> ('m \<rightharpoonup> 'm) \<Rightarrow> bool" where
  "keeps_dominators succ root idoms \<longleftrightarrow>
     (\<forall>v d e. idoms v = Some d \<longrightarrow> dominates succ root e v \<longrightarrow> e \<noteq> v \<longrightarrow> dominates succ root e d)"

lemma dominator_on_chain:
  assumes tab: "idom_table rpo root idoms" and keep: "keeps_dominators succ root idoms"
    and "v \<in> dom idoms" and "dominates succ root e v"
  shows "e \<in> chain idoms v"
  using assms(3,4)
proof (induction "num rpo v" arbitrary: v rule: less_induct)
  case less
  show ?case
  proof (cases "e = v")
    case False
    then have "v \<noteq> root" using less.prems(2) dominated_root by metis
    obtain d where d: "idoms v = Some d" using less.prems(1) by blast
    with table_step[of rpo root idoms v d] tab \<open>v \<noteq> root\<close> have dn: "num rpo d < num rpo v" "d \<in> dom idoms" by auto
    have "dominates succ root e d" using keep d less.prems(2) False unfolding keeps_dominators_def by blast
    from less.hyps[OF dn this] show ?thesis by (rule chain_step[of idoms v d, OF d])
  qed simp
qed

lemma dominates_on_chain:
  assumes "d \<in> chain idoms p" and tab: "idom_table rpo root idoms" and keep: "keeps_dominators succ root idoms"
    and "dominates succ root e p" and "num rpo e < num rpo d"
  shows "dominates succ root e d"
  using assms
proof (induction rule: chain_induct)
  case (step x d)
  have "num rpo d \<le> num rpo x" using table_step[of rpo root idoms x d] step by simp
  then have "num rpo e < num rpo x" using step.prems by simp
  with step have "dominates succ root e x" "e \<noteq> x" by auto
  with keep step.hyps(2) show ?case unfolding keeps_dominators_def by blast
qed

text \<open>The meet of the predecessors that have an entry keeps the dominators.\<close>

lemma meet_keeps_dominators:
  assumes nm: "numbered succ root rpo predecessors" and tab: "idom_table rpo root idoms"
    and keep: "keeps_dominators succ root idoms"
    and ps: "ps \<subseteq> dom idoms" "ps \<noteq> {}" "\<And>p. p \<in> ps \<Longrightarrow> node \<in> set (succ p)" and d: "is_meet idoms ps d"
    and e: "dominates succ root e node" "e \<noteq> node"
  shows "dominates succ root e d"
proof -
  have p: "dominates succ root e p" if "p \<in> ps" for p
    using dominates_predecessor[OF e(1) ps(3)[OF that] e(2)] .
  then have "e \<in> chain idoms p" if "p \<in> ps" for p
    using that dominator_on_chain[OF tab keep] ps(1) by blast
  then have ed: "e \<in> chain idoms d" using d by (auto simp: is_meet_def)
  show ?thesis
  proof (cases "e = d")
    case False
    have "e \<in> dom idoms" "d \<in> dom idoms" using ed d chain_dom[OF ed tab] by (auto simp: is_meet_def)
    then have "num rpo e \<noteq> num rpo d" using num_eq_iff[OF numberedD(1)[OF nm]] table_rpo[OF tab] False by blast
    with chain_num[OF ed tab] have "num rpo e < num rpo d" by simp
    moreover obtain q where "q \<in> ps" using ps(2) by blast
    ultimately show ?thesis
      using dominates_on_chain[of d idoms q rpo root succ e] tab keep p d by (auto simp: is_meet_def)
  qed simp
qed

section \<open>Retreating edges\<close>

fun retreats :: "'m list \<Rightarrow> 'm \<Rightarrow> 'm list \<Rightarrow> nat" where
  "retreats rpo u [] = 0"
| "retreats rpo u (v # p) = (if num rpo v \<le> num rpo u then 1 else 0) + retreats rpo v p"

lemma retreats_append: "retreats rpo u (p @ q) = retreats rpo u p + retreats rpo (last (u # p)) q"
  by (induction p arbitrary: u) auto

lemma retreats_length: "retreats rpo u p \<le> length p"
  by (induction p arbitrary: u) (auto intro: le_SucI)

text \<open>\<open>y\<close> is on every walk to \<open>v\<close> with less than \<open>t\<close> retreating edges.\<close>

definition on_walks :: "('m \<Rightarrow> 'm list) \<Rightarrow> 'm \<Rightarrow> 'm list \<Rightarrow> nat \<Rightarrow> 'm \<Rightarrow> 'm \<Rightarrow> bool" where
  "on_walks succ root rpo t v y \<longleftrightarrow>
     (\<forall>p. walk succ root p \<longrightarrow> last (root # p) = v \<longrightarrow> retreats rpo root p < t \<longrightarrow> y \<in> set (root # p))"

lemma on_walks_refl [simp]: "on_walks succ root rpo t v v"
  unfolding on_walks_def by (metis last_in_set list.simps(3))

lemma on_walks_0 [simp]: "on_walks succ root rpo 0 v y"
  by (simp add: on_walks_def)

lemma on_walks_mono: "on_walks succ root rpo t' v y \<Longrightarrow> t \<le> t' \<Longrightarrow> on_walks succ root rpo t v y"
  by (simp add: on_walks_def)

lemma on_walks_trans:
  assumes "on_walks succ root rpo t v x" and "on_walks succ root rpo t x y"
  shows "on_walks succ root rpo t v y"
  unfolding on_walks_def
proof (intro allI impI)
  fix p assume p: "walk succ root p" "last (root # p) = v" "retreats rpo root p < t"
  with assms(1) have "x \<in> set (root # p)" by (simp add: on_walks_def)
  from walk_prefix[OF p(1) this] obtain q q' where q: "p = q @ q'" "walk succ root q" "last (root # q) = x" by blast
  then have "retreats rpo root q < t" using p(3) by (simp add: retreats_append)
  with assms(2) q have "y \<in> set (root # q)" by (simp add: on_walks_def)
  with q(1) show "y \<in> set (root # p)" by auto
qed

text \<open>With enough passes these are all walks.\<close>

lemma on_walks_dominates:
  assumes nm: "numbered succ root rpo predecessors" and "length rpo \<le> t" and "on_walks succ root rpo t v y"
  shows "dominates succ root y v"
  unfolding dominates_def
proof (intro allI impI)
  fix p assume p: "walk succ root p" "last (root # p) = v"
  from walk_distinct[OF p(1)] p(2) obtain q
    where q: "walk succ root q" "last (root # q) = v" "set q \<subseteq> set p" "distinct (root # q)" by auto
  have "card (set (root # q)) \<le> card (set rpo)"
    using walk_reached[OF q(1)] numberedD(2)[OF nm] by (metis List.finite_set card_mono)
  then have "length (root # q) \<le> length rpo"
    using distinct_card[OF q(4)] distinct_card[OF numberedD(1)[OF nm]] by simp
  then have "retreats rpo root q < t" using retreats_length[of rpo root q] assms(2) by simp
  with assms(3) q(1,2) have "y \<in> set (root # q)" by (simp add: on_walks_def)
  with q(3) show "y \<in> set (root # p)" by auto
qed

section \<open>A pass\<close>

text \<open>In the pass after \<open>t\<close> others, with the vertices below \<open>k\<close> done.\<close>

definition in_pass :: "('m \<Rightarrow> 'm list) \<Rightarrow> 'm \<Rightarrow> 'm list \<Rightarrow> nat \<Rightarrow> nat \<Rightarrow> ('m \<rightharpoonup> 'm) \<Rightarrow> bool" where
  "in_pass succ root rpo t k idoms \<longleftrightarrow>
     idom_table rpo root idoms \<and> keeps_dominators succ root idoms \<and>
     (\<forall>v \<in> set rpo. num rpo v < k \<or> t > 0 \<longrightarrow> v \<in> dom idoms) \<and>
     (\<forall>v y. y \<in> chain idoms v \<longrightarrow> on_walks succ root rpo t v y) \<and>
     (\<forall>v y. v \<in> dom idoms \<longrightarrow> num rpo v < k \<longrightarrow> y \<in> chain idoms v \<longrightarrow> on_walks succ root rpo (Suc t) v y)"

lemma in_passD:
  assumes "in_pass succ root rpo t k idoms"
  shows "idom_table rpo root idoms" and "keeps_dominators succ root idoms"
    and "\<And>v. v \<in> set rpo \<Longrightarrow> num rpo v < k \<or> t > 0 \<Longrightarrow> v \<in> dom idoms"
    and "\<And>v y. y \<in> chain idoms v \<Longrightarrow> on_walks succ root rpo t v y"
    and "\<And>v y. v \<in> dom idoms \<Longrightarrow> num rpo v < k \<Longrightarrow> y \<in> chain idoms v \<Longrightarrow> on_walks succ root rpo (Suc t) v y"
  using assms unfolding in_pass_def by blast+

definition available :: "('m \<Rightarrow> 'm list) \<Rightarrow> 'm list \<Rightarrow> ('m \<rightharpoonup> 'm) \<Rightarrow> 'm \<Rightarrow> 'm set" where
  "available succ rpo idoms v = {u \<in> set rpo. v \<in> set (succ u) \<and> u \<noteq> v \<and> u \<in> dom idoms}"

text \<open>A walk to a node comes through a predecessor; when that one is not available its last edge retreats in the
  first pass, in which no retreating edge is allowed.\<close>

lemma meet_on_walks:
  assumes nm: "numbered succ root rpo predecessors" and inv: "in_pass succ root rpo t (num rpo node) idoms"
    and node: "node \<noteq> root" and d: "is_meet idoms (available succ rpo idoms node) d" and y: "y \<in> chain idoms d"
  shows "on_walks succ root rpo (Suc t) node y"
proof -
  have "y \<in> set (root # p)" if "walk succ root p" "last (root # p) = node" "retreats rpo root p < Suc t" for p
    using that
  proof (induction p rule: rev_induct)
    case Nil
    with node show ?case by simp
  next
    case (snoc v q)
    let ?u = "last (root # q)"
    from snoc.prems have q: "walk succ root q" "node \<in> set (succ ?u)" "v = node" by (simp_all add: walk_snoc)
    have r: "retreats rpo root q + (if num rpo node \<le> num rpo ?u then 1 else 0) < Suc t"
      using snoc.prems(3) q(3) by (simp add: retreats_append)
    have u: "?u \<in> set rpo" using walk_reached[OF q(1)] numberedD(2)[OF nm] last_in_set[of "root # q"] by blast
    show ?case
    proof (cases "?u = node")
      case True
      with snoc.IH q(1) r have "y \<in> set (root # q)" by simp
      then show ?thesis by auto
    next
      case False
      have "?u \<in> dom idoms \<and> (\<forall>z \<in> chain idoms ?u. z \<in> set (root # q))"
      proof (cases "num rpo node \<le> num rpo ?u")
        case True
        then have "retreats rpo root q < t" using r by simp
        moreover from this have "?u \<in> dom idoms" using in_passD(3)[OF inv u] by simp
        ultimately show ?thesis using in_passD(4)[OF inv] q(1) by (auto simp: on_walks_def)
      next
        case below: False
        then have "?u \<in> dom idoms" using in_passD(3)[OF inv u] by simp
        with below in_passD(5)[OF inv this] q(1) r show ?thesis by (auto simp: on_walks_def)
      qed
      moreover from this have "?u \<in> available succ rpo idoms node" using u q(2) False by (simp add: available_def)
      then have "d \<in> chain idoms ?u" using d by (simp add: is_meet_def)
      then have "y \<in> chain idoms ?u" using y by (rule chain_trans)
      ultimately have "y \<in> set (root # q)" by blast
      then show ?thesis by auto
    qed
  qed
  then show ?thesis by (simp add: on_walks_def)
qed

lemma in_pass_update:
  assumes nm: "numbered succ root rpo predecessors" and inv: "in_pass succ root rpo t (num rpo node) idoms"
    and node: "node \<in> set rpo" "node \<noteq> root" and d: "is_meet idoms (available succ rpo idoms node) d"
    and dn: "num rpo d < num rpo node" and ne: "available succ rpo idoms node \<noteq> {}"
  shows "in_pass succ root rpo t (Suc (num rpo node)) (idoms(node \<mapsto> d))"
proof -
  let ?idoms = "idoms(node \<mapsto> d)"
  note I = in_passD[OF inv]
  have dd: "d \<in> dom idoms" using d by (simp add: is_meet_def)
  have tab: "idom_table rpo root ?idoms" using table_update[OF I(1) node dd dn] .
  have keep: "keeps_dominators succ root ?idoms"
    unfolding keeps_dominators_def
  proof (intro allI impI)
    fix v c e assume v: "?idoms v = Some c" "dominates succ root e v" "e \<noteq> v"
    show "dominates succ root e c"
    proof (cases "v = node")
      case True
      with v show ?thesis
        using meet_keeps_dominators[OF nm I(1,2) _ ne _ d] by (auto simp: available_def)
    next
      case False
      with v I(2) show ?thesis unfolding keeps_dominators_def by auto
    qed
  qed
  have "node \<notin> chain idoms d" using chain_num[of node idoms d rpo root] I(1) dn by auto
  then have "chain ?idoms d = chain idoms d" by (rule chain_update_below)
  then have node_chain: "on_walks succ root rpo (Suc t) node y" if "y \<in> chain ?idoms node" for y
    using that chain_unfold[of ?idoms node] meet_on_walks[OF nm inv node(2) d] by auto
  have t: "on_walks succ root rpo t v y" if "y \<in> chain ?idoms v" for v y
    using chain_update[OF that]
  proof
    assume "node \<in> chain idoms v \<and> y \<in> chain ?idoms node"
    then show ?thesis using I(4) node_chain on_walks_mono on_walks_trans by (metis le_SucI order_refl)
  qed (rule I(4))
  have "on_walks succ root rpo (Suc t) v y"
    if v: "v \<in> dom ?idoms" "num rpo v < Suc (num rpo node)" "y \<in> chain ?idoms v" for v y
  proof (cases "v = node")
    case True
    with node_chain v(3) show ?thesis by simp
  next
    case False
    then have vd: "v \<in> dom idoms" using v(1) by auto
    with False node(1) v(2) have "num rpo v < num rpo node"
      using num_eq_iff[OF numberedD(1)[OF nm]] table_rpo[OF I(1)] by (metis less_SucE)
    moreover from this have "node \<notin> chain idoms v" using chain_num[of node idoms v rpo root] I(1) by auto
    ultimately show ?thesis using I(5)[OF vd] v(3) chain_update_below[of node idoms v d] by simp
  qed
  moreover have "v \<in> dom ?idoms" if "v \<in> set rpo" "num rpo v < Suc (num rpo node) \<or> t > 0" for v
    using I(3)[OF that(1)] that num_eq_iff[OF numberedD(1)[OF nm] that(1) node(1)] by (auto simp: less_Suc_eq)
  ultimately show ?thesis unfolding in_pass_def using tab keep t by blast
qed

lemma update_idom_correct:
  assumes nm: "numbered succ root rpo predecessors" and inv: "in_pass succ root rpo t (num rpo node) (fst s)"
    and node: "node \<in> set rpo" "node \<noteq> root"
  shows "\<exists>d. update_idom (index_of rpo) predecessors node s =
      Some (Inr (if fst s node = Some d then s else ((fst s)(node \<mapsto> d), True))) \<and>
    is_meet (fst s) (available succ rpo (fst s) node) d \<and>
    in_pass succ root rpo t (Suc (num rpo node)) ((fst s)(node \<mapsto> d))"
proof -
  let ?idoms = "fst s"
  note I = in_passD[OF inv]
  from numberedD(6)[OF nm node(1)] obtain ps
    where ps: "predecessors node = Some ps" "set ps = {u \<in> set rpo. node \<in> set (succ u) \<and> u \<noteq> node}" by blast
  have av: "set (filter (\<lambda>pred. ?idoms pred \<noteq> None) ps) = available succ rpo ?idoms node"
    using ps(2) by (auto simp: available_def)
  from numberedD(7)[OF nm node] obtain u where u: "u \<in> set rpo" "node \<in> set (succ u)" "num rpo u < num rpo node" by blast
  then have "u \<in> available succ rpo ?idoms node" using I(3)[of u] by (auto simp: available_def)
  then have ne: "available succ rpo ?idoms node \<noteq> {}" by blast
  with av obtain p qs where f: "filter (\<lambda>pred. ?idoms pred \<noteq> None) ps = p # qs"
    by (metis list.exhaust set_empty)
  have avs: "insert p (set qs) = available succ rpo ?idoms node" using av unfolding f by simp
  then have "p \<in> dom ?idoms" "set qs \<subseteq> dom ?idoms" by (auto simp: available_def)
  moreover from this have "is_meet ?idoms {p} p" by (simp add: is_meet_def)
  ultimately obtain d where d: "intersect_all (index_of rpo) ?idoms qs p = Some (Inr d)"
    and m: "is_meet ?idoms ({p} \<union> set qs) d"
    using intersect_all_correct[OF nm I(1), of "{p}" p qs] by blast
  have m': "is_meet ?idoms (available succ rpo ?idoms node) d" using m avs by simp
  have "d \<in> chain ?idoms u" using m' \<open>u \<in> available succ rpo ?idoms node\<close> by (simp add: is_meet_def)
  then have "num rpo d < num rpo node" using chain_num[of d ?idoms u rpo root] I(1) u(3) by simp
  from in_pass_update[OF nm inv node m' this ne] m' d f ps(1) show ?thesis
    by (intro exI[of _ d]) (simp add: update_idom_def)
qed

text \<open>When the passes are as many as the vertices the table is exact, and an update finds what is there.\<close>

lemma exact_update:
  assumes nm: "numbered succ root rpo predecessors" and inv: "in_pass succ root rpo t (num rpo node) idoms"
    and node: "node \<in> set rpo" "node \<noteq> root" and t: "length rpo \<le> t"
    and inv': "in_pass succ root rpo t (Suc (num rpo node)) (idoms(node \<mapsto> d))"
  shows "idoms node = Some d"
proof -
  have pos: "t > 0" using t numberedD(5)[OF nm] by (cases rpo) auto
  then obtain c where c: "idoms node = Some c" using in_passD(3)[OF inv node(1)] by blast
  have reach: "node \<in> reached succ root" using node(1) numberedD(2)[OF nm] by simp
  have "c \<in> chain idoms node" using chain_step[of idoms node c c] c by simp
  from on_walks_dominates[OF nm t in_passD(4)[OF inv this]] have 1: "dominates succ root c node" .
  have "d \<in> chain (idoms(node \<mapsto> d)) node" using chain_step[of "idoms(node \<mapsto> d)" node d d] by simp
  from on_walks_dominates[OF nm t in_passD(4)[OF inv' this]] have 2: "dominates succ root d node" .
  have neq: "c \<noteq> node" "d \<noteq> node"
    using table_step[of rpo root idoms node c] table_step[of rpo root "idoms(node \<mapsto> d)" node d]
      in_passD(1)[OF inv] in_passD(1)[OF inv'] c node(2) by auto
  have "dominates succ root d c" using in_passD(2)[OF inv] c 2 neq unfolding keeps_dominators_def by blast
  moreover have "dominates succ root c d"
    using in_passD(2)[OF inv'] 1 neq unfolding keeps_dominators_def by (metis fun_upd_same)
  ultimately have "c = d" using dominates_antisym dominates_reached[OF 1 reach] by metis
  with c show ?thesis by simp
qed

lemma update_idoms_correct:
  assumes nm: "numbered succ root rpo predecessors" and inv: "in_pass succ root rpo t k (fst s)"
    and nodes: "nodes = drop k rpo" "k > 0" "k \<le> length rpo"
  shows "\<exists>s'. update_idoms (index_of rpo) predecessors nodes s = Some (Inr s') \<and>
    in_pass succ root rpo t (length rpo) (fst s') \<and> (length rpo \<le> t \<longrightarrow> s' = s) \<and>
    (snd s \<longrightarrow> snd s') \<and>
    (\<not> snd s' \<longrightarrow> s' = s \<and> (\<forall>v \<in> set nodes. \<exists>d. fst s v = Some d \<and> is_meet (fst s) (available succ rpo (fst s) v) d))"
  using inv nodes
proof (induction nodes arbitrary: k s)
  case Nil
  then have "k = length rpo" by simp
  with Nil show ?case by auto
next
  case (Cons node nodes)
  note d = numberedD(1)[OF nm]
  have k: "k < length rpo" using Cons.prems by (metis drop_eq_Nil2 leI list.distinct(1))
  then have drop: "drop k rpo = rpo ! k # drop (Suc k) rpo" by (rule Cons_nth_drop_Suc[symmetric])
  then have n: "node = rpo ! k" "nodes = drop (Suc k) rpo" using Cons.prems(2) by simp_all
  have num: "num rpo node = k" and node: "node \<in> set rpo" using num_nth[OF d k] n(1) k by simp_all
  have root: "node \<noteq> root" using num Cons.prems(3) numberedD(4)[OF nm] by auto
  have i: "in_pass succ root rpo t (num rpo node) (fst s)" using Cons.prems(1) num by simp
  from update_idom_correct[OF nm i node root] obtain c
    where c: "update_idom (index_of rpo) predecessors node s =
        Some (Inr (if fst s node = Some c then s else ((fst s)(node \<mapsto> c), True)))"
      "is_meet (fst s) (available succ rpo (fst s) node) c"
      "in_pass succ root rpo t (Suc (num rpo node)) ((fst s)(node \<mapsto> c))" by blast
  let ?s = "if fst s node = Some c then s else ((fst s)(node \<mapsto> c), True)"
  have fst: "fst ?s = (fst s)(node \<mapsto> c)" by (auto simp: fun_upd_idem)
  have "in_pass succ root rpo t (Suc k) (fst ?s)" using c(3) num fst by simp
  from Cons.IH[OF this n(2) zero_less_Suc Suc_leI[OF k]] obtain s'
    where s': "update_idoms (index_of rpo) predecessors nodes ?s = Some (Inr s')"
      "in_pass succ root rpo t (length rpo) (fst s')" "length rpo \<le> t \<longrightarrow> s' = ?s" "snd ?s \<longrightarrow> snd s'"
      "\<not> snd s' \<longrightarrow> s' = ?s \<and> (\<forall>v \<in> set nodes. \<exists>d. fst ?s v = Some d \<and> is_meet (fst ?s) (available succ rpo (fst ?s) v) d)"
    by blast
  have same: "?s = s" if "fst s node = Some c" using that by simp
  have exact: "length rpo \<le> t \<longrightarrow> ?s = s" using exact_update[OF nm i node root _ c(3)] by auto
  have still: "fst s node = Some c" if "\<not> snd s'" using that s'(4) by (auto split: if_splits)
  show ?case
  proof (intro exI conjI impI)
    show "update_idoms (index_of rpo) predecessors (node # nodes) s = Some (Inr s')" using c(1) s'(1) by simp
    show "in_pass succ root rpo t (length rpo) (fst s')" by (rule s'(2))
    show "s' = s" if "length rpo \<le> t" using that s'(3) exact by simp
    show "snd s'" if "snd s" using that s'(4) by (auto split: if_splits)
    show "s' = s" if "\<not> snd s'" using s'(5) that same[OF still[OF that]] by simp
    show "\<forall>v \<in> set (node # nodes). \<exists>d. fst s v = Some d \<and> is_meet (fst s) (available succ rpo (fst s) v) d"
      if "\<not> snd s'"
      using s'(5) that same[OF still[OF that]] still[OF that] c(2) by auto
  qed
qed

lemma next_pass:
  assumes nm: "numbered succ root rpo predecessors" and inv: "in_pass succ root rpo t (length rpo) idoms"
  shows "in_pass succ root rpo (Suc t) 1 idoms"
proof -
  note I = in_passD[OF inv]
  have below: "num rpo v < length rpo" if "v \<in> set rpo" for v
    using index_of_num(2)[OF numberedD(1)[OF nm] that] .
  have "on_walks succ root rpo (Suc t) v y" if "y \<in> chain idoms v" for v y
  proof (cases "v \<in> dom idoms")
    case True
    then show ?thesis using I(5)[OF True _ that] below table_rpo[OF I(1) True] by blast
  next
    case False
    with that have "y = v" using chain_unfold[of idoms v] by (auto simp: domIff split: option.splits)
    then show ?thesis by simp
  qed
  moreover have "on_walks succ root rpo (Suc (Suc t)) v y"
    if "v \<in> dom idoms" "num rpo v < 1" "y \<in> chain idoms v" for v y
  proof -
    have "v = root" using that table_rpo[OF I(1)] num_zero[OF nm] by (metis less_one)
    with that(3) show ?thesis using chain_root[OF I(1)] by simp
  qed
  ultimately show ?thesis unfolding in_pass_def using I(1-3) below by blast
qed

section \<open>The passes\<close>

definition settled :: "('m \<Rightarrow> 'm list) \<Rightarrow> 'm \<Rightarrow> 'm list \<Rightarrow> ('m \<rightharpoonup> 'm) \<Rightarrow> bool" where
  "settled succ root rpo idoms \<longleftrightarrow>
     idom_table rpo root idoms \<and> keeps_dominators succ root idoms \<and> set rpo \<subseteq> dom idoms \<and>
     (\<forall>v \<in> set rpo. v \<noteq> root \<longrightarrow> (\<exists>d. idoms v = Some d \<and> is_meet idoms (available succ rpo idoms v) d))"

lemma idom_loop_correct:
  assumes nm: "numbered succ root rpo predecessors" and "in_pass succ root rpo t 1 idoms"
  shows "\<exists>idoms'. idom_loop (index_of rpo) predecessors (tl rpo) idoms = Some (Inr idoms') \<and>
    settled succ root rpo idoms'"
  using assms(2)
proof (induction "length rpo - t" arbitrary: t idoms rule: less_induct)
  case less
  have "tl rpo = drop 1 rpo" "1 \<le> length rpo" using numberedD(5)[OF nm] by (cases rpo; simp add: drop_Suc)+
  with update_idoms_correct[OF nm, of t 1 "(idoms, False)" "tl rpo"] less.prems obtain idoms1 changed
    where p: "update_idoms (index_of rpo) predecessors (tl rpo) (idoms, False) = Some (Inr (idoms1, changed))"
      "in_pass succ root rpo t (length rpo) idoms1" "length rpo \<le> t \<longrightarrow> \<not> changed"
      "\<not> changed \<longrightarrow> idoms1 = idoms \<and>
         (\<forall>v \<in> set (tl rpo). \<exists>d. idoms v = Some d \<and> is_meet idoms (available succ rpo idoms v) d)"
    by auto
  note n = next_pass[OF nm p(2)]
  show ?case
  proof (cases changed)
    case True
    with p(3) have "length rpo - Suc t < length rpo - t" by auto
    from less.hyps[OF this n] p(1) True show ?thesis by (subst idom_loop.simps) simp
  next
    case False
    have "v \<in> set (tl rpo)" if "v \<in> set rpo" "v \<noteq> root" for v
      using that numberedD(5)[OF nm] by (metis set_ConsD)
    then have "settled succ root rpo idoms1"
      using in_passD(1-3)[OF n] p(4) False unfolding settled_def by blast
    with p(1) False show ?thesis by (subst idom_loop.simps) simp
  qed
qed

lemma first_pass:
  assumes nm: "numbered succ root rpo predecessors"
  shows "in_pass succ root rpo 0 1 [root \<mapsto> root]"
proof -
  have "y = v" if "y \<in> chain [root \<mapsto> root] v" for v y
    using that by (induction rule: chain_induct) (auto split: if_splits)
  then have "on_walks succ root rpo t v y" if "y \<in> chain [root \<mapsto> root] v" for t v y
    using that by force
  then show ?thesis
    using numberedD(3)[OF nm] num_zero[OF nm]
    by (auto simp: in_pass_def idom_table_def keeps_dominators_def dominated_root)
qed

text \<open>In a settled table the chain of a vertex lies on every walk to it.\<close>

lemma settled_on_walks:
  assumes nm: "numbered succ root rpo predecessors" and st: "settled succ root rpo idoms"
    and "walk succ root p" and "last (root # p) = v" and "y \<in> chain idoms v"
  shows "y \<in> set (root # p)"
  using assms(3-5)
proof (induction p arbitrary: v rule: rev_induct)
  case Nil
  then show ?case using chain_root st by (force simp: settled_def)
next
  case (snoc w q)
  let ?u = "last (root # q)"
  from snoc.prems have q: "walk succ root q" "v \<in> set (succ ?u)" "w = v" by (simp_all add: walk_snoc)
  have u: "?u \<in> set rpo" using walk_reached[OF q(1)] numberedD(2)[OF nm] last_in_set[of "root # q"] by blast
  have v: "v \<in> set rpo" using u q(2) numberedD(2)[OF nm] reached_step by fast
  consider "y = v" | "y \<noteq> v" "?u = v" | "y \<noteq> v" "?u \<noteq> v" by blast
  then show ?case
  proof cases
    case 1
    with q(3) show ?thesis by simp
  next
    case 2
    with snoc.IH[OF q(1) _ snoc.prems(3)] have "y \<in> set (root # q)" by blast
    then show ?thesis by auto
  next
    case 3
    have "v \<noteq> root"
    proof
      assume "v = root"
      with snoc.prems(3) 3(1) chain_root st show False by (fastforce simp: settled_def)
    qed
    with st v obtain d where d: "idoms v = Some d" "is_meet idoms (available succ rpo idoms v) d"
      by (auto simp: settled_def)
    have "?u \<in> available succ rpo idoms v" using u q(2) 3(2) st by (auto simp: available_def settled_def)
    then have "d \<in> chain idoms ?u" using d(2) by (simp add: is_meet_def)
    moreover have "y \<in> chain idoms d" using chain_entry[of idoms v d y] d(1) snoc.prems(3) 3(1) by simp
    ultimately have "y \<in> chain idoms ?u" by (rule chain_trans)
    with snoc.IH[OF q(1) refl] have "y \<in> set (root # q)" by blast
    then show ?thesis by auto
  qed
qed

definition immediate :: "('m \<Rightarrow> 'm list) \<Rightarrow> 'm \<Rightarrow> 'm \<Rightarrow> 'm \<Rightarrow> bool" where
  "immediate succ root d v \<longleftrightarrow>
     d \<noteq> v \<and> dominates succ root d v \<and> (\<forall>e. dominates succ root e v \<longrightarrow> e \<noteq> v \<longrightarrow> dominates succ root e d)"

lemma settled_immediate:
  assumes nm: "numbered succ root rpo predecessors" and st: "settled succ root rpo idoms"
    and v: "v \<in> set rpo" "v \<noteq> root"
  shows "\<exists>d. idoms v = Some d \<and> immediate succ root d v"
proof -
  from st v obtain d where d: "idoms v = Some d" by (auto simp: settled_def)
  have "num rpo d < num rpo v" using table_step[of rpo root idoms v d] st d v(2) by (simp add: settled_def)
  then have "d \<noteq> v" by auto
  moreover have "d \<in> chain idoms v" using chain_step[of idoms v d d] d by simp
  then have "dominates succ root d v" using settled_on_walks[OF nm st] by (auto simp: dominates_def)
  moreover have "dominates succ root e d" if "dominates succ root e v" "e \<noteq> v" for e
    using st d that unfolding settled_def keeps_dominators_def by blast
  ultimately show ?thesis using d by (auto simp: immediate_def)
qed

section \<open>From the search to the numbering\<close>

lemma num_rev_less:
  assumes "distinct (a @ v # b)" and "u \<in> set b"
  shows "num (rev (a @ v # b)) u < num (rev (a @ v # b)) v"
proof -
  let ?rpo = "rev (a @ v # b)"
  have d: "distinct ?rpo" using assms(1) by auto
  obtain i where i: "i < length b" "rev b ! i = u" using assms(2) by (metis in_set_conv_nth length_rev set_rev)
  have "?rpo ! i = u" using i by (simp add: nth_append)
  moreover have "?rpo ! length b = v" by (simp add: nth_append)
  ultimately have "num ?rpo u = i" "num ?rpo v = length b"
    using num_nth[OF d, of i] num_nth[OF d, of "length b"] i(1) by simp_all
  with i(1) show ?thesis by simp
qed

lemma add_predecessor_fold:
  assumes "preds v = Some ps"
  shows "\<exists>qs. fold (add_predecessor source) targets preds v = Some (ps @ qs) \<and>
    set qs = (if v \<in> set targets \<and> source \<noteq> v then {source} else {})"
  using assms
proof (induction targets arbitrary: preds ps)
  case (Cons target targets)
  show ?case
  proof (cases "target = v \<and> source \<noteq> v")
    case True
    with Cons.prems have "add_predecessor source target preds v = Some (ps @ [source])"
      by (simp add: add_predecessor_def)
    from Cons.IH[where preds = "add_predecessor source target preds", OF this] True show ?thesis by auto
  next
    case False
    with Cons.prems have "add_predecessor source target preds v = Some ps"
      by (auto simp: add_predecessor_def split: option.splits)
    from Cons.IH[where preds = "add_predecessor source target preds", OF this] False show ?thesis by auto
  qed
qed simp

lemma predecessors_fold:
  assumes "preds v = Some ps"
  shows "\<exists>qs. fold (\<lambda>(source, targets). fold (add_predecessor source) targets) successors preds v = Some (ps @ qs) \<and>
    set qs = {u. u \<noteq> v \<and> (\<exists>vs. (u, vs) \<in> set successors \<and> v \<in> set vs)}"
  using assms
proof (induction successors arbitrary: preds ps)
  case (Cons e successors)
  obtain u vs where e: "e = (u, vs)" by fastforce
  from add_predecessor_fold[where preds = preds and v = v and source = u and targets = vs, OF Cons.prems] obtain qs
    where qs: "fold (add_predecessor u) vs preds v = Some (ps @ qs)" "set qs = (if v \<in> set vs \<and> u \<noteq> v then {u} else {})"
    by blast
  from Cons.IH[where preds = "fold (add_predecessor u) vs preds", OF qs(1)] qs(2) show ?case unfolding e by auto
qed simp

lemma search_numbered:
  assumes inv: "search_inv succ root s" and fin: "ds_stack s = []"
  shows "numbered succ root (rev (ds_postorder s)) (predecessors_of (rev (ds_postorder s)) (ds_successors s))"
proof -
  note I = search_invD[OF inv]
  let ?post = "ds_postorder s"
  have order: "search_order s = ?post" using fin by (simp add: search_order_def)
  have all: "set ?post = reached succ root" using search_complete[OF inv fin] .
  have succs: "(\<exists>vs. (u, vs) \<in> set (ds_successors s) \<and> v \<in> set vs) \<longleftrightarrow> u \<in> set ?post \<and> v \<in> set (succ u)" for u v
    using I(4,6,7) order by (force simp: image_iff)
  have "\<exists>ps. predecessors_of (rev ?post) (ds_successors s) v = Some ps \<and> set ps = {u \<in> set (rev ?post). v \<in> set (succ u) \<and> u \<noteq> v}"
    if "v \<in> set (rev ?post)" for v
  proof -
    have "(\<lambda>n. if n \<in> set (rev ?post) then Some [] else None) v = Some []" using that by simp
    from predecessors_fold[of "\<lambda>n. if n \<in> set (rev ?post) then Some [] else None", OF this, of "ds_successors s"]
    show ?thesis unfolding predecessors_of_def succs by auto
  qed
  moreover have "\<exists>u \<in> set (rev ?post). v \<in> set (succ u) \<and> num (rev ?post) u < num (rev ?post) v"
    if v: "v \<in> set (rev ?post)" "v \<noteq> root" for v
  proof -
    from I(10)[of v] v I(4) order obtain a b u where "?post = a @ v # b" "u \<in> set b" "v \<in> set (succ u)"
      by (auto simp: has_parent_def)
    with num_rev_less[of a v b u] I(1) order show ?thesis by auto
  qed
  moreover have "\<exists>nodes. rev ?post = root # nodes"
    using I(2,3) order by (metis append_butlast_last_id rev.simps(2) rev_append rev_rev_ident append_Cons append_Nil)
  ultimately show ?thesis using I(1) order all unfolding numbered_def by simp
qed

section \<open>The nodes of the graph\<close>

definition reached_from :: "('n \<Rightarrow> 'n list) \<Rightarrow> 'n list \<Rightarrow> 'n set" where
  "reached_from forward roots = (\<Union>r \<in> set roots. reached forward r)"

definition dominates_from :: "('n \<Rightarrow> 'n list) \<Rightarrow> 'n list \<Rightarrow> 'n \<Rightarrow> 'n \<Rightarrow> bool" where
  "dominates_from forward roots d v \<longleftrightarrow> (\<forall>r \<in> set roots. dominates forward r d v)"

lemma walk_Some: "walk (vertex_successors forward roots) (Some u) p \<longleftrightarrow> (\<exists>q. p = map Some q \<and> walk forward u q)"
proof (induction p arbitrary: u)
  case (Cons v p)
  show ?case
  proof (cases v)
    case None
    then show ?thesis by (auto simp: vertex_successors_def)
  next
    case (Some w)
    with Cons.IH[of w] show ?thesis by (auto simp: vertex_successors_def Cons_eq_map_conv)
  qed
qed simp

lemma walk_None:
  "walk (vertex_successors forward roots) None p \<longleftrightarrow>
     p = [] \<or> (\<exists>r q. r \<in> set roots \<and> p = map Some (r # q) \<and> walk forward r q)"
  by (cases p) (auto simp: vertex_successors_def walk_Some)

lemma walks_from:
  "(\<forall>p. walk (vertex_successors forward roots) None p \<longrightarrow> last (None # p) = Some v \<longrightarrow> Q p) \<longleftrightarrow>
   (\<forall>r \<in> set roots. \<forall>q. walk forward r q \<longrightarrow> last (r # q) = v \<longrightarrow> Q (map Some (r # q)))"
proof -
  have "last (None # map Some (r # q)) = Some (last (r # q))" for r :: 'a and q
    by (metis last_ConsR last_map list.simps(3) map_is_Nil_conv)
  moreover have "last [None] \<noteq> Some v" by simp
  ultimately show ?thesis by (auto simp: walk_None simp del: list.map last.simps)
qed

lemma reached_vertices:
  "reached (vertex_successors forward roots) None = insert None (Some ` reached_from forward roots)"
proof -
  have "Some v \<in> reached (vertex_successors forward roots) None \<longleftrightarrow> v \<in> reached_from forward roots" for v
  proof -
    have "Some v \<in> reached (vertex_successors forward roots) None \<longleftrightarrow>
        \<not> (\<forall>p. walk (vertex_successors forward roots) None p \<longrightarrow> last (None # p) = Some v \<longrightarrow> False)"
      unfolding reached_def by blast
    also have "\<dots> \<longleftrightarrow> v \<in> reached_from forward roots"
      unfolding walks_from reached_from_def reached_def by blast
    finally show ?thesis .
  qed
  moreover have "None \<in> reached (vertex_successors forward roots) None" by (rule reached_root)
  ultimately have "x \<in> reached (vertex_successors forward roots) None \<longleftrightarrow>
      x \<in> insert None (Some ` reached_from forward roots)" for x
    by (cases x) auto
  then show ?thesis by blast
qed

lemma dominates_vertices:
  "dominates (vertex_successors forward roots) None (Some d) (Some v) \<longleftrightarrow> dominates_from forward roots d v"
  unfolding dominates_def[of "vertex_successors forward roots"] walks_from
  by (auto simp: dominates_from_def dominates_def)

lemma idoms_of_list:
  assumes "None \<notin> set nodes"
  shows "map fst (concat (map (\<lambda>node. case node of None \<Rightarrow> [] | Some n \<Rightarrow> [(n, f node)]) nodes)) = map the nodes"
  using assms
proof (induction nodes)
  case (Cons v nodes)
  then show ?case by (cases v) auto
qed simp

lemma find_idoms_settled:
  assumes fin: "finite (reached_from forward roots)" and ne: "roots \<noteq> []"
  shows "\<exists>rpo predecessors idoms. numbered (vertex_successors forward (dedup roots)) None rpo predecessors \<and>
    settled (vertex_successors forward (dedup roots)) None rpo idoms \<and>
    find_idoms forward roots =
      Some (Inr (concat (map (\<lambda>node. case node of None \<Rightarrow> []
        | Some n \<Rightarrow> [(n, case idoms node of None \<Rightarrow> None | Some idom \<Rightarrow> idom)]) rpo)))"
proof -
  let ?succ = "vertex_successors forward (dedup roots)"
  have "reached_from forward (dedup roots) = reached_from forward roots" by (simp add: reached_from_def)
  then have "finite (reached ?succ None)" using fin by (simp add: reached_vertices)
  from search_returns[OF search_start this] obtain s
    where s: "dfs_loop ?succ (dfs_start ?succ None) = Some s" "search_inv ?succ None s" "ds_stack s = []" by blast
  note nm = search_numbered[OF s(2,3)]
  from idom_loop_correct[OF nm first_pass[OF nm]] obtain idoms
    where "idom_loop (index_of (rev (ds_postorder s))) (predecessors_of (rev (ds_postorder s)) (ds_successors s))
        (tl (rev (ds_postorder s))) [None \<mapsto> None] = Some (Inr idoms)"
      "settled ?succ None (rev (ds_postorder s)) idoms" by blast
  moreover have "dedup roots \<noteq> []" using ne by (cases roots) auto
  ultimately show ?thesis using nm s(1) by (auto simp: find_idoms_def Let_def)
qed

lemma find_idoms_correct_lemma:
  assumes fin: "finite (reached_from forward roots)"
  shows "\<exists>idoms. find_idoms forward roots = Some (Inr idoms) \<and> distinct (map fst idoms) \<and>
    set (map fst idoms) = reached_from forward roots \<and>
    (\<forall>(v, idom) \<in> set idoms.
       (case idom of
          None \<Rightarrow> \<forall>e. dominates_from forward roots e v \<longrightarrow> e = v
        | Some d \<Rightarrow> d \<noteq> v \<and> dominates_from forward roots d v \<and>
            (\<forall>e. dominates_from forward roots e v \<longrightarrow> e \<noteq> v \<longrightarrow> dominates_from forward roots e d)))"
proof (cases "roots = []")
  case True
  then show ?thesis by (simp add: find_idoms_def reached_from_def)
next
  case False
  let ?succ = "vertex_successors forward (dedup roots)"
  from find_idoms_settled[OF fin False] obtain rpo predecessors idoms
    where nm: "numbered ?succ None rpo predecessors" and st: "settled ?succ None rpo idoms"
      and r: "find_idoms forward roots = Some (Inr (concat (map (\<lambda>node. case node of None \<Rightarrow> []
        | Some n \<Rightarrow> [(n, case idoms node of None \<Rightarrow> None | Some idom \<Rightarrow> idom)]) rpo)))"
    by blast
  define result where "result = concat (map (\<lambda>node. case node of None \<Rightarrow> []
        | Some n \<Rightarrow> [(n, case idoms node of None \<Rightarrow> None | Some idom \<Rightarrow> idom)]) rpo)"
  have rpo: "rpo = None # tl rpo" "distinct (tl rpo)" "None \<notin> set (tl rpo)"
    using numberedD(1,5)[OF nm] by (metis distinct.simps(2))+
  have "result = concat (map (\<lambda>node. case node of None \<Rightarrow> []
        | Some n \<Rightarrow> [(n, case idoms node of None \<Rightarrow> None | Some idom \<Rightarrow> idom)]) (tl rpo))"
    unfolding result_def by (subst rpo(1)) simp
  then have keys: "map fst result = map the (tl rpo)"
    using rpo(2,3) idoms_of_list[of "tl rpo" "\<lambda>node. case idoms node of None \<Rightarrow> None | Some idom \<Rightarrow> idom"] by auto
  have "set rpo = insert None (Some ` reached_from forward roots)"
    using numberedD(2)[OF nm] by (simp add: reached_vertices reached_from_def)
  then have tl: "set (tl rpo) = Some ` reached_from forward roots"
    using rpo(1,3) by (metis Diff_insert_absorb image_iff insert_Diff_single list.simps(15) option.distinct(1))
  have "inj_on the (set (tl rpo))" using tl by (auto simp: inj_on_def)
  then have "distinct (map fst result)" unfolding keys using rpo(2) by (simp add: distinct_map)
  moreover have "set (map fst result) = reached_from forward roots" unfolding keys using tl by (auto simp: image_iff)
  moreover have "case idom of
          None \<Rightarrow> \<forall>e. dominates_from forward roots e v \<longrightarrow> e = v
        | Some d \<Rightarrow> d \<noteq> v \<and> dominates_from forward roots d v \<and>
            (\<forall>e. dominates_from forward roots e v \<longrightarrow> e \<noteq> v \<longrightarrow> dominates_from forward roots e d)"
    if e: "(v, idom) \<in> set result" for v idom
  proof -
    have v: "Some v \<in> set rpo" "idom = (case idoms (Some v) of None \<Rightarrow> None | Some idom \<Rightarrow> idom)"
      using e by (auto simp: result_def split: option.splits)
    from settled_immediate[OF nm st v(1)] obtain x
      where x: "idoms (Some v) = Some x" "immediate ?succ None x (Some v)" by auto
    have D: "dominates ?succ None (Some d) (Some v) \<longleftrightarrow> dominates_from forward roots d v" for d v
      unfolding dominates_vertices by (simp add: dominates_from_def)
    show ?thesis
    proof (cases x)
      case None
      then have "e = v" if "dominates_from forward roots e v" for e
        using x(2) that D[of e v] unfolding immediate_def by (metis dominated_root option.distinct(1) option.inject)
      with v(2) x(1) None show ?thesis by simp
    next
      case (Some d)
      with x(2) have "d \<noteq> v" "dominates_from forward roots d v"
        "dominates_from forward roots e v \<longrightarrow> e \<noteq> v \<longrightarrow> dominates_from forward roots e d" for e
        using D[of d v] D[of e v] D[of e d] by (auto simp: immediate_def)
      with v(2) x(1) Some show ?thesis by simp
    qed
  qed
  ultimately show ?thesis using r unfolding result_def[symmetric] by blast
qed

section \<open>Properties\<close>

text \<open>C6: The search ends and finds the immediate dominators: every node that the roots reach has one entry, and
  the entry is the closest of its other dominators, or \<open>None\<close> when it has none, as a root and a node that two roots
  reach apart from each other.\<close>

theorem find_idoms_correct:
  assumes "finite (reached_from forward roots)"
  shows "\<exists>idoms. find_idoms forward roots = Some (Inr idoms) \<and> distinct (map fst idoms) \<and>
    set (map fst idoms) = reached_from forward roots \<and>
    (\<forall>(v, idom) \<in> set idoms.
       (case idom of
          None \<Rightarrow> \<forall>e. dominates_from forward roots e v \<longrightarrow> e = v
        | Some d \<Rightarrow> d \<noteq> v \<and> dominates_from forward roots d v \<and>
            (\<forall>e. dominates_from forward roots e v \<longrightarrow> e \<noteq> v \<longrightarrow> dominates_from forward roots e d)))"
  using assms by (rule find_idoms_correct_lemma)

text \<open>A graph with a loop that has two entries: \<open>3\<close> and \<open>4\<close> form it, \<open>1\<close> dominates both and \<open>5\<close>.\<close>

definition two_entries :: "nat \<Rightarrow> nat list" where
  "two_entries n = (if n = 1 then [2, 3] else if n = 2 then [4] else if n = 3 then [4, 5] else if n = 4 then [3] else [])"

lemma two_entries_reached: "reached two_entries 1 \<subseteq> {1, 2, 3, 4, 5}"
  by (rule reached_subset) (auto simp: two_entries_def)

lemma two_entries_finite: "finite (reached_from two_entries [1])"
  using two_entries_reached by (auto simp: reached_from_def intro: finite_subset)

lemma two_entries_idoms:
  "find_idoms two_entries [1] = Some (Inr [(1, None), (2, Some 1), (4, Some 1), (3, Some 1), (5, Some 3)])"
  by code_simp

theorem find_idoms_correct_witness:
  "dominates_from two_entries [1] 3 5 \<and> \<not> dominates_from two_entries [1] 2 4 \<and> \<not> dominates_from two_entries [1] 3 4"
proof -
  note c = find_idoms_correct[OF two_entries_finite, unfolded two_entries_idoms]
  have d: "dominates_from two_entries [1] 3 5" and one: "\<And>e. dominates_from two_entries [1] e 1 \<Longrightarrow> e = 1"
    and four: "\<And>e. dominates_from two_entries [1] e 4 \<Longrightarrow> e \<noteq> 4 \<Longrightarrow> dominates_from two_entries [1] e 1"
    using c by auto
  show ?thesis using d one[of 2] one[of 3] four[of 2] four[of 3] by auto
qed

end
