(* ===== verification/DjGraphs.thy ===== *)
theory DjGraphs
  imports DominatorResults
begin

text \<open>
  \<^verbatim>\<open>ir/cfg/dom.py\<close>: the graph of dominance and join edges that \<^verbatim>\<open>evaluate\<close> builds over the immediate dominators,
  the numbering of its tree and the sets that \<^verbatim>\<open>FullIDF\<close> collects. There is one \<^verbatim>\<open>DJNode\<close> for each node of the
  graph, so a reference to a \<^verbatim>\<open>DJNode\<close> is its node, and the objects are a map \<open>md_nodes\<close>. What \<^verbatim>\<open>bindCallback\<close>
  keeps elsewhere is not modelled. \<open>None\<close> as a result is a loop without an end.
\<close>

section \<open>Nodes\<close>

record 'n dj_node =
  dj_idom :: "'n option"
  dj_level :: nat
  dj_d :: "'n list"
  dj_j :: "'n list"
  dj_idf :: "'n set"
  dj_pre :: nat
  dj_post :: nat

definition new_dj_node :: "'n dj_node" where
  "new_dj_node = \<lparr>dj_idom = None, dj_level = 0, dj_d = [], dj_j = [], dj_idf = {}, dj_pre = 0, dj_post = 0\<rparr>"

record 'n mdj =
  md_nodes :: "'n \<rightharpoonup> 'n dj_node"
  md_processed :: "'n set"
  md_levels :: nat

text \<open>An assignment to an attribute of an object.\<close>

definition with_node :: "'n \<Rightarrow> ('n dj_node \<Rightarrow> 'n dj_node) \<Rightarrow> ('n \<rightharpoonup> 'n dj_node) \<Rightarrow> ('n \<rightharpoonup> 'n dj_node)" where
  "with_node n f nodes = (case nodes n of None \<Rightarrow> nodes | Some x \<Rightarrow> nodes(n \<mapsto> f x))"

section \<open>MakeDJGraph\<close>

text \<open>\<open>getNode\<close>: the missing nodes of the chain of dominators, the highest one first, and their creation.\<close>

partial_function (option) missing_chain ::
  "('n \<rightharpoonup> 'n option) \<Rightarrow> ('n \<rightharpoonup> 'n dj_node) \<Rightarrow> 'n \<Rightarrow> 'n list \<Rightarrow> 'n list res option" where
  "missing_chain idom nodes current missing =
     (if nodes current \<noteq> None then Some (Inr missing)
      else (case idom current of
          None \<Rightarrow> Some (Inl KeyError)
        | Some parent \<Rightarrow> (case parent of
            None \<Rightarrow> Some (Inr (current # missing))
          | Some up \<Rightarrow> missing_chain idom nodes up (current # missing))))"

declare missing_chain.simps [code]

definition set_idom :: "'n \<Rightarrow> 'n \<Rightarrow> ('n \<rightharpoonup> 'n dj_node) \<Rightarrow> ('n \<rightharpoonup> 'n dj_node) res" where
  "set_idom node parent nodes =
     (case nodes parent of
        None \<Rightarrow> Inl KeyError
      | Some up \<Rightarrow>
          Inr (with_node parent (\<lambda>x. x\<lparr>dj_d := dj_d x @ [node]\<rparr>)
            (with_node node (\<lambda>x. x\<lparr>dj_idom := Some parent, dj_level := dj_level up + 1\<rparr>) nodes)))"

definition create_node :: "('n \<rightharpoonup> 'n option) \<Rightarrow> 'n \<Rightarrow> 'n mdj \<Rightarrow> 'n mdj res" where
  "create_node idom current m =
     (let nodes = (md_nodes m)(current \<mapsto> new_dj_node) in
      case idom current of
        None \<Rightarrow> Inl KeyError
      | Some None \<Rightarrow> Inr (m\<lparr>md_nodes := nodes\<rparr>)
      | Some (Some parent) \<Rightarrow>
          bind_res (set_idom current parent nodes)
            (\<lambda>nodes. Inr (m\<lparr>md_nodes := nodes,
               md_levels := max (md_levels m) (case nodes current of None \<Rightarrow> 0 | Some x \<Rightarrow> dj_level x)\<rparr>)))"

definition get_node :: "('n \<rightharpoonup> 'n option) \<Rightarrow> 'n \<Rightarrow> 'n mdj \<Rightarrow> 'n mdj res option" where
  "get_node idom g m =
     (if md_nodes m g \<noteq> None then Some (Inr m)
      else bind_run (missing_chain idom (md_nodes m) g []) (\<lambda>missing. Some (fold_res (create_node idom) missing m)))"

text \<open>The first loop over the children of a node: an edge that is not a dominance edge is a join edge.\<close>

fun link_children :: "('n \<rightharpoonup> 'n option) \<Rightarrow> 'n \<Rightarrow> 'n list \<Rightarrow> 'n mdj \<Rightarrow> 'n mdj res option" where
  "link_children idom current [] m = Some (Inr m)"
| "link_children idom current (child # children) m =
     bind_run (get_node idom child m)
       (\<lambda>m. link_children idom current children
         (case md_nodes m child of
            None \<Rightarrow> m
          | Some x \<Rightarrow>
              if dj_idom x = Some current then m
              else m\<lparr>md_nodes := with_node current (\<lambda>x. x\<lparr>dj_j := dj_j x @ [child]\<rparr>) (md_nodes m)\<rparr>))"

definition process_node :: "('n \<rightharpoonup> 'n option) \<Rightarrow> ('n \<Rightarrow> 'n list) \<Rightarrow> 'n \<Rightarrow> 'n mdj \<Rightarrow> 'n mdj res option" where
  "process_node idom forward current m =
     bind_run (get_node idom current (m\<lparr>md_processed := insert current (md_processed m)\<rparr>))
       (link_children idom current (forward current))"

partial_function (option) process_loop ::
  "('n \<rightharpoonup> 'n option) \<Rightarrow> ('n \<Rightarrow> 'n list) \<Rightarrow> 'n list \<Rightarrow> 'n mdj \<Rightarrow> 'n mdj res option" where
  "process_loop idom forward pending m =
     (case pending of
        [] \<Rightarrow> Some (Inr m)
      | current # rest \<Rightarrow>
          if current \<in> md_processed m then process_loop idom forward rest m
          else (case process_node idom forward current m of
              None \<Rightarrow> None
            | Some (Inl e) \<Rightarrow> Some (Inl e)
            | Some (Inr m') \<Rightarrow>
                process_loop idom forward (filter (\<lambda>child. child \<notin> md_processed m') (forward current) @ rest) m'))"

declare process_loop.simps [code]

definition mdj_process :: "('n \<rightharpoonup> 'n option) \<Rightarrow> ('n \<Rightarrow> 'n list) \<Rightarrow> 'n \<Rightarrow> 'n mdj \<Rightarrow> 'n mdj res option" where
  "mdj_process idom forward node m = bind_run (get_node idom node m) (process_loop idom forward [node])"

section \<open>The numbering\<close>

definition children_of :: "('n \<rightharpoonup> 'n dj_node) \<Rightarrow> 'n \<Rightarrow> 'n list" where
  "children_of nodes n = (case nodes n of None \<Rightarrow> [] | Some x \<Rightarrow> dj_d x)"

text \<open>The head of the list is the top of the stack.\<close>

definition number_event :: "'n \<times> bool \<Rightarrow> ('n \<rightharpoonup> 'n dj_node) \<times> nat \<Rightarrow> ('n \<rightharpoonup> 'n dj_node) \<times> nat" where
  "number_event e s =
     (case (e, s) of ((node, exiting), (nodes, uid)) \<Rightarrow>
        (with_node node (\<lambda>x. if exiting then x\<lparr>dj_post := uid\<rparr> else x\<lparr>dj_pre := uid\<rparr>) nodes, uid + 1))"

partial_function (option) number_loop ::
  "('n \<times> bool) list \<Rightarrow> ('n \<rightharpoonup> 'n dj_node) \<times> nat \<Rightarrow> (('n \<rightharpoonup> 'n dj_node) \<times> nat) option" where
  "number_loop stack s =
     (case stack of
        [] \<Rightarrow> Some s
      | e # rest \<Rightarrow>
          if snd e then number_loop rest (number_event e s)
          else number_loop (map (\<lambda>child. (child, False)) (children_of (fst s) (fst e)) @ (fst e, True) # rest)
                 (number_event e s))"

declare number_loop.simps [code]

definition dj_number :: "'n \<Rightarrow> ('n \<rightharpoonup> 'n dj_node) \<times> nat \<Rightarrow> (('n \<rightharpoonup> 'n dj_node) \<times> nat) option" where
  "dj_number node = number_loop [(node, False)]"

definition dj_dominates :: "'n dj_node \<Rightarrow> 'n dj_node \<Rightarrow> bool" where
  "dj_dominates x y \<longleftrightarrow> dj_pre x \<le> dj_pre y \<and> dj_post x \<ge> dj_post y"

section \<open>FullIDF\<close>

text \<open>What happens when a node is left: each join that is not deeper enters the sets of the nodes of the path from
  its level on.\<close>

fun add_to_idfs :: "'n list \<Rightarrow> 'n \<Rightarrow> nat list \<Rightarrow> ('n \<rightharpoonup> 'n dj_node) \<Rightarrow> ('n \<rightharpoonup> 'n dj_node) res" where
  "add_to_idfs path join [] nodes = Inr nodes"
| "add_to_idfs path join (i # is) nodes =
     (if i < length path
      then add_to_idfs path join is (with_node (path ! i) (\<lambda>x. x\<lparr>dj_idf := insert join (dj_idf x)\<rparr>) nodes)
      else Inl (OtherError ''IndexError''))"

definition level_of :: "('n \<rightharpoonup> 'n dj_node) \<Rightarrow> 'n \<Rightarrow> nat" where
  "level_of nodes n = (case nodes n of None \<Rightarrow> 0 | Some x \<Rightarrow> dj_level x)"

definition joins_of :: "('n \<rightharpoonup> 'n dj_node) \<Rightarrow> 'n \<Rightarrow> 'n list" where
  "joins_of nodes n = (case nodes n of None \<Rightarrow> [] | Some x \<Rightarrow> dj_j x)"

definition add_join :: "'n list \<Rightarrow> 'n \<Rightarrow> 'n \<Rightarrow> ('n \<rightharpoonup> 'n dj_node) \<Rightarrow> ('n \<rightharpoonup> 'n dj_node) res" where
  "add_join path current join nodes =
     (if level_of nodes join \<le> level_of nodes current
      then add_to_idfs path join [level_of nodes join..<level_of nodes current + 1] nodes
      else Inr nodes)"

text \<open>\<open>idf_path\<close> is the attribute \<^verbatim>\<open>stack\<close>.\<close>

definition idf_event ::
  "'n \<times> bool \<Rightarrow> ('n \<rightharpoonup> 'n dj_node) \<times> 'n list \<Rightarrow> (('n \<rightharpoonup> 'n dj_node) \<times> 'n list) res" where
  "idf_event e s =
     (case (e, s) of ((current, exiting), (nodes, path)) \<Rightarrow>
        if \<not> exiting
        then (if level_of nodes current = length path then Inr (nodes, path @ [current]) else Inl AssertionError)
        else bind_res (fold_res (add_join path current) (joins_of nodes current) nodes)
               (\<lambda>nodes. if path = [] then Inl (OtherError ''IndexError'')
                  else if last path = current then Inr (nodes, butlast path) else Inl AssertionError))"

partial_function (option) idf_loop ::
  "('n \<times> bool) list \<Rightarrow> ('n \<rightharpoonup> 'n dj_node) \<times> 'n list \<Rightarrow> (('n \<rightharpoonup> 'n dj_node) \<times> 'n list) res option" where
  "idf_loop pending s =
     (case pending of
        [] \<Rightarrow> Some (Inr s)
      | e # rest \<Rightarrow>
          (case idf_event e s of
             Inl err \<Rightarrow> Some (Inl err)
           | Inr s' \<Rightarrow>
               idf_loop (if snd e then rest
                 else map (\<lambda>child. (child, False)) (children_of (fst s) (fst e)) @ (fst e, True) # rest) s'))"

declare idf_loop.simps [code]

section \<open>evaluate\<close>

fun fold_run :: "('a \<Rightarrow> 's \<Rightarrow> 's res option) \<Rightarrow> 'a list \<Rightarrow> 's \<Rightarrow> 's res option" where
  "fold_run f [] s = Some (Inr s)"
| "fold_run f (x # xs) s = bind_run (f x s) (fold_run f xs)"

definition dj_evaluate :: "'n list \<Rightarrow> ('n \<Rightarrow> 'n list) \<Rightarrow> ('n \<rightharpoonup> 'n dj_node) res option" where
  "dj_evaluate roots forward =
     bind_run (find_idoms forward roots) (\<lambda>idoms.
     bind_run (fold_run (mdj_process (map_of idoms) forward) roots
         \<lparr>md_nodes = Map.empty, md_processed = {}, md_levels = 0\<rparr>) (\<lambda>m.
     bind_run (fold_run (\<lambda>root s. map_option Inr (dj_number root s)) roots (md_nodes m, 0)) (\<lambda>numbered.
     bind_run (fold_run (\<lambda>root. idf_loop [(root, False)]) roots (fst numbered, [])) (\<lambda>s.
     Some (Inr (fst s))))))"

end
