(* ===== verification/DjResults.thy ===== *)
theory DjResults
  imports DjGraphs
begin

text \<open>
  What \<^verbatim>\<open>dom.evaluate\<close> computes for a graph with one root: its intervals decide dominance, and the sets of
  \<^verbatim>\<open>FullIDF\<close> are the dominance frontiers. The level of a node is the number of its strict dominators, and both
  traversals of the dominator tree are folds over one list of events.
\<close>

section \<open>Strict dominators\<close>

definition strict_dominators :: "('n \<Rightarrow> 'n list) \<Rightarrow> 'n \<Rightarrow> 'n \<Rightarrow> 'n set" where
  "strict_dominators succ root v = {e. dominates succ root e v \<and> e \<noteq> v}"

definition depth :: "('n \<Rightarrow> 'n list) \<Rightarrow> 'n \<Rightarrow> 'n \<Rightarrow> nat" where
  "depth succ root v = card (strict_dominators succ root v)"

definition idom_dict :: "('n \<Rightarrow> 'n list) \<Rightarrow> 'n \<Rightarrow> ('n \<rightharpoonup> 'n option) \<Rightarrow> bool" where
  "idom_dict succ root I \<longleftrightarrow>
     finite (reached succ root) \<and> dom I = reached succ root \<and> I root = Some None \<and>
     (\<forall>v \<in> reached succ root. v \<noteq> root \<longrightarrow> (\<exists>d. I v = Some (Some d) \<and> immediate succ root d v))"

lemma idom_dict_cases:
  assumes "idom_dict succ root I" and "v \<in> reached succ root"
  shows "v = root \<and> I v = Some None \<or>
    (\<exists>d. v \<noteq> root \<and> I v = Some (Some d) \<and> immediate succ root d v \<and> d \<in> reached succ root)"
proof (cases "v = root")
  case True
  with assms(1) show ?thesis by (simp add: idom_dict_def)
next
  case False
  with assms obtain d where d: "I v = Some (Some d)" "immediate succ root d v" by (auto simp: idom_dict_def)
  then have "d \<in> reached succ root" using dominates_reached assms(2) unfolding immediate_def by fast
  with d False show ?thesis by blast
qed

lemma strict_dominators_root [simp]: "strict_dominators succ root root = {}"
  by (simp add: strict_dominators_def dominated_root)

lemma strict_dominators_reached: "v \<in> reached succ root \<Longrightarrow> strict_dominators succ root v \<subseteq> reached succ root"
  using dominates_reached by (fastforce simp: strict_dominators_def)

lemma strict_dominators_step:
  assumes "immediate succ root d v" and "v \<in> reached succ root"
  shows "strict_dominators succ root v = insert d (strict_dominators succ root d)" and "d \<notin> strict_dominators succ root d"
proof -
  have "e \<noteq> v" if "dominates succ root e d" for e
    using that assms dominates_antisym[of succ root d v] unfolding immediate_def by metis
  with assms(1) show "strict_dominators succ root v = insert d (strict_dominators succ root d)"
    by (auto simp: strict_dominators_def immediate_def intro: dominates_trans)
qed (simp add: strict_dominators_def)

lemma depth_step:
  assumes dict: "idom_dict succ root I" and v: "v \<in> reached succ root" and d: "immediate succ root d v"
  shows "depth succ root v = Suc (depth succ root d)"
proof -
  have "finite (strict_dominators succ root v)"
    using strict_dominators_reached[OF v] dict by (auto simp: idom_dict_def intro: finite_subset)
  with strict_dominators_step[OF d v] show ?thesis by (simp add: depth_def)
qed

lemma depth_root [simp]: "depth succ root root = 0"
  by (simp add: depth_def)

lemma depth_strict:
  assumes dict: "idom_dict succ root I" and v: "v \<in> reached succ root" and a: "a \<in> strict_dominators succ root v"
  shows "depth succ root a < depth succ root v"
proof -
  have fin: "finite (strict_dominators succ root v)"
    using strict_dominators_reached[OF v] dict by (auto simp: idom_dict_def intro: finite_subset)
  have "strict_dominators succ root a \<subset> strict_dominators succ root v"
  proof
    show "strict_dominators succ root a \<subseteq> strict_dominators succ root v"
    proof
      fix e assume "e \<in> strict_dominators succ root a"
      then have e: "dominates succ root e a" "e \<noteq> a" by (simp_all add: strict_dominators_def)
      from a have "dominates succ root a v" "a \<noteq> v" by (simp_all add: strict_dominators_def)
      moreover from this e have "e \<noteq> v" using dominates_antisym[OF _ _ v, of a] by blast
      ultimately show "e \<in> strict_dominators succ root v"
        using dominates_trans[OF e(1)] by (simp add: strict_dominators_def)
    qed
    show "strict_dominators succ root a \<noteq> strict_dominators succ root v"
      using a by (auto simp: strict_dominators_def)
  qed
  with fin show ?thesis unfolding depth_def by (rule psubset_card_mono)
qed

lemma depth_mono:
  assumes "idom_dict succ root I" and "v \<in> reached succ root" and "dominates succ root a v"
  shows "depth succ root a \<le> depth succ root v"
  using depth_strict[OF assms(1,2), of a] assms(3) by (cases "a = v") (auto simp: strict_dominators_def)

text \<open>Two dominators of one node: the less deep one dominates the other.\<close>

lemma dominators_linear:
  assumes dict: "idom_dict succ root I" and "v \<in> reached succ root"
    and "dominates succ root a v" and "dominates succ root b v"
  shows "dominates succ root a b \<or> dominates succ root b a"
  using assms(2-4)
proof (induction "depth succ root v" arbitrary: v rule: less_induct)
  case less
  show ?case
  proof (cases "a = v \<or> b = v")
    case True
    with less.prems show ?thesis by auto
  next
    case False
    with less.prems have "v \<noteq> root" using dominated_root by metis
    with idom_dict_cases[OF dict less.prems(1)] obtain d
      where d: "immediate succ root d v" "d \<in> reached succ root" by blast
    have "depth succ root d < depth succ root v" using depth_step[OF dict less.prems(1) d(1)] by simp
    from less.hyps[OF this d(2)] less.prems(2,3) False d(1) show ?thesis by (auto simp: immediate_def)
  qed
qed

lemma dominates_depth:
  assumes dict: "idom_dict succ root I" and v: "v \<in> reached succ root"
    and a: "dominates succ root a v" and b: "dominates succ root b v" and "depth succ root a \<le> depth succ root b"
  shows "dominates succ root a b"
proof (rule ccontr)
  assume n: "\<not> dominates succ root a b"
  with dominators_linear[OF dict v a b] have "b \<in> strict_dominators succ root a" by (auto simp: strict_dominators_def)
  with depth_strict[OF dict dominates_reached[OF a v]] assms(5) show False by fastforce
qed

section \<open>The construction of the nodes\<close>

definition built :: "('n \<Rightarrow> 'n list) \<Rightarrow> 'n \<Rightarrow> ('n \<rightharpoonup> 'n option) \<Rightarrow> ('n \<rightharpoonup> 'n dj_node) \<Rightarrow> bool" where
  "built succ root I nodes \<longleftrightarrow>
     dom nodes \<subseteq> reached succ root \<and>
     (\<forall>n x. nodes n = Some x \<longrightarrow>
        I n = Some (dj_idom x) \<and> dj_level x = depth succ root n \<and> dj_idf x = {} \<and>
        distinct (dj_d x) \<and> set (dj_d x) = {c \<in> dom nodes. I c = Some (Some n)} \<and>
        (\<forall>d. dj_idom x = Some d \<longrightarrow> d \<in> dom nodes))"

lemma builtD:
  assumes "built succ root I nodes" and "nodes n = Some x"
  shows "n \<in> reached succ root" and "I n = Some (dj_idom x)" and "dj_level x = depth succ root n"
    and "dj_idf x = {}" and "distinct (dj_d x)" and "set (dj_d x) = {c \<in> dom nodes. I c = Some (Some n)}"
    and "\<And>d. dj_idom x = Some d \<Longrightarrow> d \<in> dom nodes"
  using assms unfolding built_def by blast+

lemma with_node_apply:
  "with_node n f nodes m = (if m = n then map_option f (nodes n) else nodes m)"
  by (simp add: with_node_def split: option.splits)

lemma dom_with_node [simp]: "dom (with_node n f nodes) = dom nodes"
  by (auto simp: with_node_apply split: if_splits)

definition extends_dj :: "'n mdj \<Rightarrow> 'n mdj \<Rightarrow> bool" where
  "extends_dj m m' \<longleftrightarrow>
     dom (md_nodes m) \<subseteq> dom (md_nodes m') \<and> md_processed m' = md_processed m \<and>
     joins_of (md_nodes m') = joins_of (md_nodes m)"

lemma extends_dj_refl [simp]: "extends_dj m m"
  by (simp add: extends_dj_def)

lemma extends_dj_trans: "extends_dj m m' \<Longrightarrow> extends_dj m' m'' \<Longrightarrow> extends_dj m m''"
  by (auto simp: extends_dj_def)

lemma create_node_correct:
  assumes dict: "idom_dict succ root I" and b: "built succ root I (md_nodes m)"
    and n: "n \<in> reached succ root" "n \<notin> dom (md_nodes m)"
    and up: "\<And>d. I n = Some (Some d) \<Longrightarrow> d \<in> dom (md_nodes m)"
  shows "\<exists>m'. create_node I n m = Inr m' \<and> built succ root I (md_nodes m') \<and> extends_dj m m' \<and>
    dom (md_nodes m') = insert n (dom (md_nodes m))"
proof -
  have below: "c \<noteq> n" if "c \<in> dom (md_nodes m)" for c using that n(2) by auto
  have leaf: "I c \<noteq> Some (Some n)" if "c \<in> dom (md_nodes m)" for c
    using that builtD(2,7)[OF b] n(2) by (metis domD option.inject)
  from idom_dict_cases[OF dict n(1)]
  consider (root) "n = root" "I n = Some None"
    | (step) d where "I n = Some (Some d)" "immediate succ root d n" "d \<in> reached succ root" by blast
  then show ?thesis
  proof cases
    case root
    let ?nodes = "(md_nodes m)(n \<mapsto> new_dj_node)"
    have "built succ root I ?nodes"
      unfolding built_def
    proof (intro conjI allI impI)
      show "dom ?nodes \<subseteq> reached succ root" using b n(1) by (auto simp: built_def)
      fix k x assume k: "?nodes k = Some x"
      have "I k = Some (dj_idom x) \<and> dj_level x = depth succ root k \<and> dj_idf x = {} \<and> distinct (dj_d x) \<and>
          set (dj_d x) = {c \<in> dom ?nodes. I c = Some (Some k)} \<and> (\<forall>d. dj_idom x = Some d \<longrightarrow> d \<in> dom ?nodes)"
      proof (cases "k = n")
        case True
        with k root leaf show ?thesis by (auto simp: new_dj_node_def)
      next
        case False
        with k have "md_nodes m k = Some x" by simp
        note B = builtD[OF b this]
        show ?thesis using B root by auto
      qed
      then show "I k = Some (dj_idom x)" "dj_level x = depth succ root k" "dj_idf x = {}" "distinct (dj_d x)"
        "set (dj_d x) = {c \<in> dom ?nodes. I c = Some (Some k)}" "\<And>d. dj_idom x = Some d \<Longrightarrow> d \<in> dom ?nodes"
        by blast+
    qed
    moreover have "joins_of ?nodes = joins_of (md_nodes m)"
      using n(2) by (auto simp: joins_of_def new_dj_node_def fun_eq_iff domIff split: option.splits)
    ultimately show ?thesis using root by (auto simp: create_node_def extends_dj_def)
  next
    case (step d)
    from up[OF step(1)] obtain p where p: "md_nodes m d = Some p" by blast
    let ?new = "new_dj_node\<lparr>dj_idom := Some d, dj_level := dj_level p + 1\<rparr>"
    let ?nodes = "(md_nodes m)(n \<mapsto> ?new, d \<mapsto> p\<lparr>dj_d := dj_d p @ [n]\<rparr>)"
    have dn: "d \<noteq> n" using p n(2) by auto
    have s: "set_idom n d ((md_nodes m)(n \<mapsto> new_dj_node)) = Inr ?nodes"
      using p dn by (simp add: set_idom_def with_node_def fun_upd_twist)
    have level: "dj_level p + 1 = depth succ root n"
      using builtD(3)[OF b p] depth_step[OF dict n(1) step(2)] by simp
    have dom: "dom ?nodes = insert n (dom (md_nodes m))" using p by auto
    have "built succ root I ?nodes"
      unfolding built_def dom
    proof (intro conjI allI impI)
      show "insert n (dom (md_nodes m)) \<subseteq> reached succ root" using b n(1) by (auto simp: built_def)
      fix k x assume k: "?nodes k = Some x"
      have "I k = Some (dj_idom x) \<and> dj_level x = depth succ root k \<and> dj_idf x = {} \<and> distinct (dj_d x) \<and>
          set (dj_d x) = {c \<in> insert n (dom (md_nodes m)). I c = Some (Some k)} \<and>
          (\<forall>e. dj_idom x = Some e \<longrightarrow> e \<in> insert n (dom (md_nodes m)))"
      proof -
        consider "k = n" | "k = d" | "k \<noteq> n" "k \<noteq> d" by blast
        then show ?thesis
        proof cases
          case 1
          with k dn step leaf level p show ?thesis by (auto simp: new_dj_node_def)
        next
          case 2
          with k have x: "x = p\<lparr>dj_d := dj_d p @ [n]\<rparr>" by simp
          note B = builtD[OF b p]
          show ?thesis using B 2 x step n(2) by auto
        next
          case 3
          with k have "md_nodes m k = Some x" by simp
          note B = builtD[OF b this]
          show ?thesis using B step 3 by auto
        qed
      qed
      then show "I k = Some (dj_idom x)" "dj_level x = depth succ root k" "dj_idf x = {}" "distinct (dj_d x)"
        "set (dj_d x) = {c \<in> insert n (dom (md_nodes m)). I c = Some (Some k)}"
        "\<And>d. dj_idom x = Some d \<Longrightarrow> d \<in> insert n (dom (md_nodes m))"
        by blast+
    qed
    moreover have "joins_of ?nodes = joins_of (md_nodes m)"
      using n(2) p by (auto simp: joins_of_def new_dj_node_def fun_eq_iff domIff split: option.splits)
    moreover have "create_node I n m = Inr (m\<lparr>md_nodes := ?nodes, md_levels := max (md_levels m) (dj_level p + 1)\<rparr>)"
      using step s dn by (simp add: create_node_def)
    ultimately show ?thesis using dom by (auto simp: extends_dj_def)
  qed
qed

lemma missing_chain_correct:
  assumes dict: "idom_dict succ root I" and b: "built succ root I (md_nodes m)" and "g \<in> reached succ root"
  shows "\<exists>xs m'. missing_chain I (md_nodes m) g acc = Some (Inr (xs @ acc)) \<and> fold_res (create_node I) xs m = Inr m' \<and>
    built succ root I (md_nodes m') \<and> extends_dj m m' \<and> dom (md_nodes m') = dom (md_nodes m) \<union> set xs \<and>
    g \<in> dom (md_nodes m') \<and> (\<forall>x \<in> set xs. depth succ root x \<le> depth succ root g)"
  using assms(3)
proof (induction "depth succ root g" arbitrary: g acc rule: less_induct)
  case less
  show ?case
  proof (cases "md_nodes m g")
    case (Some x)
    then show ?thesis using b by (intro exI[of _ "[]"] exI[of _ m], subst missing_chain.simps) auto
  next
    case None
    from idom_dict_cases[OF dict less.prems]
    consider (root) "g = root" "I g = Some None"
      | (step) d where "I g = Some (Some d)" "immediate succ root d g" "d \<in> reached succ root" by blast
    then show ?thesis
    proof cases
      case root
      from create_node_correct[OF dict b less.prems] None root obtain m'
        where "create_node I g m = Inr m'" "built succ root I (md_nodes m')" "extends_dj m m'"
          "dom (md_nodes m') = insert g (dom (md_nodes m))" by auto
      then show ?thesis using None root by (intro exI[of _ "[g]"] exI[of _ m'], subst missing_chain.simps) auto
    next
      case (step d)
      have dp: "depth succ root g = Suc (depth succ root d)" using depth_step[OF dict less.prems step(2)] .
      then have "depth succ root d < depth succ root g" by simp
      from less.hyps[OF this step(3), of "g # acc"] obtain xs m1
        where c: "missing_chain I (md_nodes m) d (g # acc) = Some (Inr (xs @ g # acc))"
          and m1: "fold_res (create_node I) xs m = Inr m1" "built succ root I (md_nodes m1)" "extends_dj m m1"
            "dom (md_nodes m1) = dom (md_nodes m) \<union> set xs" "d \<in> dom (md_nodes m1)"
            "\<forall>x \<in> set xs. depth succ root x \<le> depth succ root d"
        by blast
      have "g \<notin> dom (md_nodes m1)" using m1(4,6) dp None by (auto simp: domIff)
      from create_node_correct[OF dict m1(2) less.prems this] step(1) m1(5) obtain m'
        where m': "create_node I g m1 = Inr m'" "built succ root I (md_nodes m')" "extends_dj m1 m'"
          "dom (md_nodes m') = insert g (dom (md_nodes m1))" by auto
      have "missing_chain I (md_nodes m) g acc = Some (Inr ((xs @ [g]) @ acc))"
        using None step(1) c by (subst missing_chain.simps) simp
      moreover have "fold_res (create_node I) (xs @ [g]) m = Inr m'" using m1(1) m'(1) by (simp add: fold_res_append)
      ultimately show ?thesis
        using m'(2,4) extends_dj_trans[OF m1(3) m'(3)] m1(4,6) dp by (intro exI[of _ "xs @ [g]"] exI[of _ m']) auto
    qed
  qed
qed

lemma get_node_correct:
  assumes "idom_dict succ root I" and "built succ root I (md_nodes m)" and "g \<in> reached succ root"
  shows "\<exists>m'. get_node I g m = Some (Inr m') \<and> built succ root I (md_nodes m') \<and> extends_dj m m' \<and>
    g \<in> dom (md_nodes m')"
  using missing_chain_correct[OF assms, of "[]"] assms(2) by (cases "md_nodes m g") (auto simp: get_node_def)

section \<open>The edges\<close>

abbreviation join_edges :: "('n \<rightharpoonup> 'n option) \<Rightarrow> 'n \<Rightarrow> 'n list \<Rightarrow> 'n list" where
  "join_edges I n children \<equiv> filter (\<lambda>c. I c \<noteq> Some (Some n)) children"

lemma subset_through: "A \<subseteq> B \<Longrightarrow> c \<in> B \<Longrightarrow> B \<union> C \<subseteq> D \<Longrightarrow> A \<union> insert c C \<subseteq> D"
  by blast

lemma built_add_join:
  assumes "built succ root I nodes"
  shows "built succ root I (with_node n (\<lambda>x. x\<lparr>dj_j := dj_j x @ [w]\<rparr>) nodes)"
proof -
  let ?nodes = "with_node n (\<lambda>x. x\<lparr>dj_j := dj_j x @ [w]\<rparr>) nodes"
  have same: "\<exists>y. nodes k = Some y \<and> dj_idom x = dj_idom y \<and> dj_level x = dj_level y \<and> dj_idf x = dj_idf y \<and> dj_d x = dj_d y"
    if "?nodes k = Some x" for k x
    using that by (auto simp: with_node_apply split: if_splits)
  show ?thesis
    unfolding built_def dom_with_node
  proof (intro conjI allI impI)
    show "dom nodes \<subseteq> reached succ root" using assms by (simp add: built_def)
    fix k x assume "?nodes k = Some x"
    from same[OF this] obtain y where y: "nodes k = Some y" "dj_idom x = dj_idom y" "dj_level x = dj_level y"
      "dj_idf x = dj_idf y" "dj_d x = dj_d y" by blast
    note B = builtD[OF assms y(1)]
    show "I k = Some (dj_idom x)" "dj_level x = depth succ root k" "dj_idf x = {}" "distinct (dj_d x)"
      "set (dj_d x) = {c \<in> dom nodes. I c = Some (Some k)}" "\<And>d. dj_idom x = Some d \<Longrightarrow> d \<in> dom nodes"
      using B(2-7) unfolding y(2-5) .
  qed
qed

lemma joins_of_add:
  "n \<in> dom nodes \<Longrightarrow>
    joins_of (with_node n (\<lambda>x. x\<lparr>dj_j := dj_j x @ [w]\<rparr>) nodes) = (joins_of nodes)(n := joins_of nodes n @ [w])"
  by (auto simp: joins_of_def with_node_apply fun_eq_iff)

lemma link_children_correct:
  assumes dict: "idom_dict succ root I" and "built succ root I (md_nodes m)" and "n \<in> dom (md_nodes m)"
    and "set children \<subseteq> reached succ root"
  shows "\<exists>m'. link_children I n children m = Some (Inr m') \<and> built succ root I (md_nodes m') \<and>
    dom (md_nodes m) \<union> set children \<subseteq> dom (md_nodes m') \<and> md_processed m' = md_processed m \<and>
    joins_of (md_nodes m') = (joins_of (md_nodes m))(n := joins_of (md_nodes m) n @ join_edges I n children)"
  using assms(2-4)
proof (induction children arbitrary: m)
  case (Cons c children)
  from get_node_correct[OF dict Cons.prems(1), of c] Cons.prems(3) obtain m1
    where m1: "get_node I c m = Some (Inr m1)" "built succ root I (md_nodes m1)" "extends_dj m m1" "c \<in> dom (md_nodes m1)"
    by auto
  then obtain x where x: "md_nodes m1 c = Some x" by blast
  have ix: "I c = Some (dj_idom x)" using builtD(2)[OF m1(2) x] .
  have n: "n \<in> dom (md_nodes m1)" and e: "md_processed m1 = md_processed m" "joins_of (md_nodes m1) = joins_of (md_nodes m)"
      "dom (md_nodes m) \<subseteq> dom (md_nodes m1)"
    using m1(3) Cons.prems(2) by (auto simp: extends_dj_def)
  have cs: "set children \<subseteq> reached succ root" using Cons.prems(3) by simp
  show ?case
  proof (cases "dj_idom x = Some n")
    case True
    from Cons.IH[OF m1(2) n cs] obtain m'
      where "link_children I n children m1 = Some (Inr m')" "built succ root I (md_nodes m')"
        "dom (md_nodes m1) \<union> set children \<subseteq> dom (md_nodes m')" "md_processed m' = md_processed m1"
        "joins_of (md_nodes m') = (joins_of (md_nodes m1))(n := joins_of (md_nodes m1) n @ join_edges I n children)"
      by blast
    moreover from this have "dom (md_nodes m) \<union> set (c # children) \<subseteq> dom (md_nodes m')"
      using subset_through[OF e(3) m1(4)] by simp
    ultimately show ?thesis using m1(1) x True ix e by (intro exI[of _ m']) simp
  next
    case False
    let ?m = "m1\<lparr>md_nodes := with_node n (\<lambda>x. x\<lparr>dj_j := dj_j x @ [c]\<rparr>) (md_nodes m1)\<rparr>"
    have "built succ root I (md_nodes ?m)" "n \<in> dom (md_nodes ?m)" using built_add_join[OF m1(2)] n by simp_all
    from Cons.IH[OF this cs] obtain m'
      where m': "link_children I n children ?m = Some (Inr m')" "built succ root I (md_nodes m')"
        "dom (md_nodes ?m) \<union> set children \<subseteq> dom (md_nodes m')" "md_processed m' = md_processed ?m"
        "joins_of (md_nodes m') = (joins_of (md_nodes ?m))(n := joins_of (md_nodes ?m) n @ join_edges I n children)"
      by blast
    have "link_children I n (c # children) m = Some (Inr m')" using m1(1) x False m'(1) by simp
    moreover have "joins_of (md_nodes m') = (joins_of (md_nodes m))(n := joins_of (md_nodes m) n @ join_edges I n (c # children))"
      using m'(5) joins_of_add[OF n] e(2) False ix by simp
    moreover have "dom (md_nodes m1) \<union> set children \<subseteq> dom (md_nodes m')" using m'(3) by simp
    then have "dom (md_nodes m) \<union> set (c # children) \<subseteq> dom (md_nodes m')"
      using subset_through[OF e(3) m1(4)] by simp
    ultimately show ?thesis using m'(2,4) e(1) by (intro exI[of _ m']) simp
  qed
qed auto

lemma process_node_correct:
  assumes dict: "idom_dict succ root I" and b: "built succ root I (md_nodes m)" and n: "n \<in> reached succ root"
  shows "\<exists>m'. process_node I succ n m = Some (Inr m') \<and> built succ root I (md_nodes m') \<and>
    insert n (dom (md_nodes m)) \<union> set (succ n) \<subseteq> dom (md_nodes m') \<and> md_processed m' = insert n (md_processed m) \<and>
    joins_of (md_nodes m') = (joins_of (md_nodes m))(n := joins_of (md_nodes m) n @ join_edges I n (succ n))"
proof -
  let ?m = "m\<lparr>md_processed := insert n (md_processed m)\<rparr>"
  have "built succ root I (md_nodes ?m)" using b by simp
  from get_node_correct[OF dict this n] obtain m1
    where m1: "get_node I n ?m = Some (Inr m1)" "built succ root I (md_nodes m1)" "extends_dj ?m m1" "n \<in> dom (md_nodes m1)"
    by blast
  have "set (succ n) \<subseteq> reached succ root" using reached_step[OF n] by blast
  from link_children_correct[OF dict m1(2,4) this] obtain m'
    where "link_children I n (succ n) m1 = Some (Inr m')" "built succ root I (md_nodes m')"
      "dom (md_nodes m1) \<union> set (succ n) \<subseteq> dom (md_nodes m')" "md_processed m' = md_processed m1"
      "joins_of (md_nodes m') = (joins_of (md_nodes m1))(n := joins_of (md_nodes m1) n @ join_edges I n (succ n))"
    by blast
  moreover from this have "insert n (dom (md_nodes m)) \<union> set (succ n) \<subseteq> dom (md_nodes m')"
    using subset_through[of "dom (md_nodes m)" "dom (md_nodes m1)" n "set (succ n)"] m1(3,4) by (simp add: extends_dj_def)
  ultimately show ?thesis using m1(1,3) by (intro exI[of _ m']) (simp add: process_node_def extends_dj_def)
qed

definition loop_inv :: "('n \<Rightarrow> 'n list) \<Rightarrow> 'n \<Rightarrow> ('n \<rightharpoonup> 'n option) \<Rightarrow> 'n list \<Rightarrow> 'n mdj \<Rightarrow> bool" where
  "loop_inv succ root I pending m \<longleftrightarrow>
     built succ root I (md_nodes m) \<and> md_processed m \<subseteq> dom (md_nodes m) \<and>
     joins_of (md_nodes m) = (\<lambda>n. if n \<in> md_processed m then join_edges I n (succ n) else []) \<and>
     (\<forall>n \<in> md_processed m. set (succ n) \<subseteq> md_processed m \<union> set pending) \<and>
     set pending \<subseteq> reached succ root \<and> root \<in> md_processed m \<union> set pending"

definition dj_built :: "('n \<Rightarrow> 'n list) \<Rightarrow> 'n \<Rightarrow> ('n \<rightharpoonup> 'n option) \<Rightarrow> ('n \<rightharpoonup> 'n dj_node) \<Rightarrow> bool" where
  "dj_built succ root I nodes \<longleftrightarrow>
     built succ root I nodes \<and> dom nodes = reached succ root \<and>
     (\<forall>n \<in> reached succ root. joins_of nodes n = join_edges I n (succ n))"

lemma process_loop_correct:
  assumes dict: "idom_dict succ root I" and "loop_inv succ root I pending m"
  shows "\<exists>m'. process_loop I succ pending m = Some (Inr m') \<and> dj_built succ root I (md_nodes m')"
  using assms(2)
proof (induction "(\<Sum>v \<in> reached succ root - md_processed m. length (succ v) + 1) + length pending"
    arbitrary: pending m rule: less_induct)
  case less
  note inv = less.prems[unfolded loop_inv_def]
  have fin: "finite (reached succ root)" using dict by (simp add: idom_dict_def)
  show ?case
  proof (cases pending)
    case Nil
    have "reached succ root \<subseteq> md_processed m"
      by (rule reached_subset) (use inv Nil in auto)
    then have "dj_built succ root I (md_nodes m)" using inv by (auto simp: dj_built_def built_def)
    with Nil show ?thesis by (subst process_loop.simps) simp
  next
    case (Cons n rest)
    have n: "n \<in> reached succ root" using inv Cons by simp
    show ?thesis
    proof (cases "n \<in> md_processed m")
      case True
      then have "loop_inv succ root I rest m" using less.prems Cons by (auto simp: loop_inv_def)
      moreover have "length rest < length pending" using Cons by simp
      ultimately show ?thesis
        using less.hyps[of m rest] Cons True by (subst process_loop.simps) simp
    next
      case False
      from process_node_correct[OF dict _ n, of m] inv obtain m'
        where m': "process_node I succ n m = Some (Inr m')" "built succ root I (md_nodes m')"
          "insert n (dom (md_nodes m)) \<union> set (succ n) \<subseteq> dom (md_nodes m')" "md_processed m' = insert n (md_processed m)"
          "joins_of (md_nodes m') = (joins_of (md_nodes m))(n := joins_of (md_nodes m) n @ join_edges I n (succ n))"
        by blast
      let ?pending = "filter (\<lambda>c. c \<notin> md_processed m') (succ n) @ rest"
      have "joins_of (md_nodes m') = (\<lambda>k. if k \<in> md_processed m' then join_edges I k (succ k) else [])"
        using m'(4,5) inv False by (simp add: fun_eq_iff)
      moreover have "set (succ n) \<subseteq> reached succ root" using reached_step[OF n] by blast
      ultimately have i: "loop_inv succ root I ?pending m'"
      proof -
        assume a: "joins_of (md_nodes m') = (\<lambda>k. if k \<in> md_processed m' then join_edges I k (succ k) else [])"
          "set (succ n) \<subseteq> reached succ root"
        have "md_processed m' \<subseteq> dom (md_nodes m')" using m'(3,4) inv by blast
        moreover have "\<forall>v \<in> md_processed m'. set (succ v) \<subseteq> md_processed m' \<union> set ?pending"
          using inv Cons m'(4) by auto
        moreover have "root \<in> md_processed m' \<union> set ?pending" using inv Cons m'(4) by auto
        ultimately show ?thesis unfolding loop_inv_def using a m'(2) inv Cons by auto
      qed
      have "reached succ root - md_processed m = insert n (reached succ root - md_processed m')"
        using n False m'(4) by auto
      then have "(\<Sum>v \<in> reached succ root - md_processed m. length (succ v) + 1) =
          length (succ n) + 1 + (\<Sum>v \<in> reached succ root - md_processed m'. length (succ v) + 1)"
      proof -
        assume s: "reached succ root - md_processed m = insert n (reached succ root - md_processed m')"
        have "finite (reached succ root - md_processed m')" "n \<notin> reached succ root - md_processed m'"
          using fin m'(4) by simp_all
        then show ?thesis unfolding s by (rule sum.insert)
      qed
      then have "(\<Sum>v \<in> reached succ root - md_processed m'. length (succ v) + 1) + length ?pending <
          (\<Sum>v \<in> reached succ root - md_processed m. length (succ v) + 1) + length pending"
        using Cons by (simp add: less_Suc_eq_le le_SucI)
      from less.hyps[OF this i] Cons False m'(1) show ?thesis by (subst process_loop.simps) simp
    qed
  qed
qed

lemma mdj_process_correct:
  assumes dict: "idom_dict succ root I"
  shows "\<exists>m. mdj_process I succ root \<lparr>md_nodes = Map.empty, md_processed = {}, md_levels = 0\<rparr> = Some (Inr m) \<and>
    dj_built succ root I (md_nodes m)"
proof -
  let ?m = "\<lparr>md_nodes = Map.empty, md_processed = {}, md_levels = 0\<rparr> :: 'a mdj"
  have "built succ root I (md_nodes ?m)" by (simp add: built_def)
  from get_node_correct[OF dict this reached_root] obtain m
    where m: "get_node I root ?m = Some (Inr m)" "built succ root I (md_nodes m)" "extends_dj ?m m" by blast
  have "loop_inv succ root I [root] m"
    using m(2,3) by (auto simp: loop_inv_def extends_dj_def joins_of_def reached_root)
  from process_loop_correct[OF dict this] m(1) show ?thesis by (simp add: mdj_process_def)
qed

end
