(* ===== verification/DjTrees.thy ===== *)
theory DjTrees
  imports DjResults
begin

text \<open>
  The two traversals of the dominator tree in \<^verbatim>\<open>ir/cfg/dom.py\<close>. A dominator tree is unfolded into a \<open>rose\<close>, and the
  stack of either loop walks through its \<open>events\<close>: a node is entered, then its children are walked, then it is
  left. The position of the events gives the intervals of \<^verbatim>\<open>DJNode.number\<close>.
\<close>

section \<open>Trees\<close>

datatype 'n rose = Rose (root_of: 'n) (subtrees: "'n rose list")

fun events :: "'n rose \<Rightarrow> ('n \<times> bool) list" where
  "events (Rose n ts) = (n, False) # concat (map events ts) @ [(n, True)]"

fun follows :: "('n \<Rightarrow> 'n list) \<Rightarrow> 'n rose \<Rightarrow> bool" where
  "follows d (Rose n ts) \<longleftrightarrow> map root_of ts = d n \<and> (\<forall>t \<in> set ts. follows d t)"

abbreviation entries :: "'n rose list \<Rightarrow> ('n \<times> bool) list" where
  "entries ts \<equiv> map (\<lambda>n. (n, False)) (map root_of ts)"

lemma hd_events: "hd (events t) = (root_of t, False)"
  by (cases t) simp

lemma set_events: "set (events t) = set_rose t \<times> UNIV"
proof (induction t)
  case (Rose n ts)
  then show ?case by (auto simp: UNIV_bool)
qed

lemma root_in_rose [simp]: "root_of t \<in> set_rose t"
  by (cases t) simp

text \<open>The events of a subtree are a part of the events of the tree.\<close>

lemma events_infix:
  assumes "a \<in> set_rose t" and "follows d t"
  shows "\<exists>xs ys s. events t = xs @ events s @ ys \<and> root_of s = a \<and> follows d s"
  using assms
proof (induction t)
  case (Rose n ts)
  show ?case
  proof (cases "a = n")
    case True
    with Rose.prems show ?thesis by (intro exI[of _ "[]"] exI[of _ "[]"] exI[of _ "Rose n ts"]) simp
  next
    case False
    with Rose.prems obtain t where t: "t \<in> set ts" "a \<in> set_rose t" "follows d t" by auto
    from Rose.IH[OF t] obtain xs ys s where s: "events t = xs @ events s @ ys" "root_of s = a" "follows d s" by blast
    from t(1) obtain us vs where "ts = us @ t # vs" by (auto dest: split_list)
    with s show ?thesis
      by (intro exI[of _ "(n, False) # concat (map events us) @ xs"]
          exI[of _ "ys @ concat (map events vs) @ [(n, True)]"] exI[of _ s]) simp
  qed
qed

section \<open>The tree of the dominators\<close>

lemma dj_builtD:
  assumes "dj_built succ root I nodes"
  shows "built succ root I nodes" and "dom nodes = reached succ root"
    and "\<And>n. n \<in> reached succ root \<Longrightarrow> joins_of nodes n = join_edges I n (succ n)"
    and "\<And>n. n \<in> reached succ root \<Longrightarrow> set (children_of nodes n) = {c \<in> reached succ root. I c = Some (Some n)}"
    and "\<And>n. n \<in> reached succ root \<Longrightarrow> distinct (children_of nodes n)"
    and "\<And>n. n \<in> reached succ root \<Longrightarrow> level_of nodes n = depth succ root n"
proof -
  show b: "built succ root I nodes" and d: "dom nodes = reached succ root"
    and "\<And>n. n \<in> reached succ root \<Longrightarrow> joins_of nodes n = join_edges I n (succ n)"
    using assms by (simp_all add: dj_built_def)
  fix n assume "n \<in> reached succ root"
  with d obtain x where x: "nodes n = Some x" by blast
  note B = builtD[OF b x]
  show "set (children_of nodes n) = {c \<in> reached succ root. I c = Some (Some n)}" "distinct (children_of nodes n)"
    "level_of nodes n = depth succ root n"
    using B x d by (simp_all add: children_of_def level_of_def)
qed

lemma child_immediate:
  assumes "idom_dict succ root I" and "c \<in> reached succ root" and "I c = Some (Some n)"
  shows "immediate succ root n c"
  using idom_dict_cases[OF assms(1,2)] assms(3) by auto

lemma tree_exists:
  assumes dict: "idom_dict succ root I" and nodes: "dj_built succ root I nodes" and "n \<in> reached succ root"
  shows "\<exists>t. root_of t = n \<and> follows (children_of nodes) t"
  using assms(3)
proof (induction "card (reached succ root) - depth succ root n" arbitrary: n rule: less_induct)
  case less
  have fin: "finite (reached succ root)" using dict by (simp add: idom_dict_def)
  have "\<exists>t. root_of t = c \<and> follows (children_of nodes) t" if "c \<in> set (children_of nodes n)" for c
  proof -
    have c: "c \<in> reached succ root" "I c = Some (Some n)" using that dj_builtD(4)[OF nodes less.prems] by auto
    have "depth succ root c = Suc (depth succ root n)" using depth_step[OF dict c(1) child_immediate[OF dict c]] .
    moreover have "depth succ root c \<le> card (reached succ root)"
      unfolding depth_def using strict_dominators_reached[OF c(1)] fin by (rule card_mono[rotated])
    ultimately show ?thesis using less.hyps[OF _ c(1)] by simp
  qed
  then obtain f where f: "\<And>c. c \<in> set (children_of nodes n) \<Longrightarrow> root_of (f c) = c \<and> follows (children_of nodes) (f c)"
    by metis
  have "map root_of (map f (children_of nodes n)) = children_of nodes n"
    using f by (simp add: map_idI)
  then show ?case using f by (intro exI[of _ "Rose n (map f (children_of nodes n))"]) auto
qed

text \<open>A strict dominator dominates through one of its children.\<close>

lemma dominates_child:
  assumes dict: "idom_dict succ root I" and "v \<in> reached succ root" and "dominates succ root n v" and "n \<noteq> v"
  shows "\<exists>c. c \<in> reached succ root \<and> I c = Some (Some n) \<and> dominates succ root c v"
  using assms(2-4)
proof (induction "depth succ root v" arbitrary: v rule: less_induct)
  case less
  then have "v \<noteq> root" using dominated_root by metis
  with idom_dict_cases[OF dict less.prems(1)] obtain d
    where d: "I v = Some (Some d)" "immediate succ root d v" "d \<in> reached succ root" by blast
  show ?case
  proof (cases "n = d")
    case True
    with d less.prems(1) show ?thesis by (intro exI[of _ v]) simp
  next
    case False
    have "dominates succ root n d" using d(2) less.prems(2,3) unfolding immediate_def by blast
    moreover have "depth succ root d < depth succ root v" using depth_step[OF dict less.prems(1) d(2)] by simp
    ultimately obtain c where "c \<in> reached succ root" "I c = Some (Some n)" "dominates succ root c d"
      using less.hyps[OF _ d(3)] False by blast
    with d(2) show ?thesis using dominates_trans[of succ root c d v] unfolding immediate_def by blast
  qed
qed

lemma rose_dominates:
  assumes dict: "idom_dict succ root I" and nodes: "dj_built succ root I nodes"
    and "follows (children_of nodes) t" and "root_of t \<in> reached succ root"
  shows "set_rose t = {v \<in> reached succ root. dominates succ root (root_of t) v}"
  using assms(3,4)
proof (induction t)
  case (Rose n ts)
  then have n: "n \<in> reached succ root" and ts: "map root_of ts = children_of nodes n" by simp_all
  have sub: "set_rose t = {v \<in> reached succ root. dominates succ root (root_of t) v}" "root_of t \<in> reached succ root"
      "I (root_of t) = Some (Some n)" if "t \<in> set ts" for t
  proof -
    have "root_of t \<in> set (children_of nodes n)" using that ts by (metis image_eqI image_set)
    then show r: "root_of t \<in> reached succ root" "I (root_of t) = Some (Some n)" using dj_builtD(4)[OF nodes n] by auto
    show "set_rose t = {v \<in> reached succ root. dominates succ root (root_of t) v}"
      using Rose.IH[OF that] Rose.prems(1) that r(1) by simp
  qed
  show ?case
  proof (intro equalityI subsetI)
    fix v assume "v \<in> set_rose (Rose n ts)"
    then consider "v = n" | t where "t \<in> set ts" "v \<in> set_rose t" by auto
    then show "v \<in> {v \<in> reached succ root. dominates succ root (root_of (Rose n ts)) v}"
    proof cases
      case 2
      have "dominates succ root n (root_of t)"
        using child_immediate[OF dict sub(2,3)[OF 2(1)]] by (simp add: immediate_def)
      with sub(1)[OF 2(1)] 2(2) show ?thesis using dominates_trans[of succ root n "root_of t" v] by simp
    qed (use n in simp)
  next
    fix v assume "v \<in> {v \<in> reached succ root. dominates succ root (root_of (Rose n ts)) v}"
    then have v: "v \<in> reached succ root" "dominates succ root n v" by simp_all
    show "v \<in> set_rose (Rose n ts)"
    proof (cases "v = n")
      case False
      with dominates_child[OF dict v] obtain c
        where c: "c \<in> reached succ root" "I c = Some (Some n)" "dominates succ root c v" by metis
      then have "c \<in> set (map root_of ts)" using dj_builtD(4)[OF nodes n] ts by simp
      then obtain t where "t \<in> set ts" "root_of t = c" by auto
      with sub(1) v(1) c(3) show ?thesis by auto
    qed simp
  qed
qed

lemma siblings_apart:
  assumes dict: "idom_dict succ root I" and c: "c \<in> reached succ root" "I c = Some (Some n)"
    and e: "e \<in> reached succ root" "I e = Some (Some n)" and "c \<noteq> e" and "dominates succ root c v" "dominates succ root e v"
    and v: "v \<in> reached succ root"
  shows False
proof -
  have same: "depth succ root c = depth succ root e"
    using depth_step[OF dict c(1) child_immediate[OF dict c]] depth_step[OF dict e(1) child_immediate[OF dict e]] by simp
  have "dominates succ root c e" "dominates succ root e c"
    using dominates_depth[OF dict v] assms(7,8) same by simp_all
  with dominates_antisym[OF _ _ e(1)] assms(6) show False by blast
qed

lemma distinct_events:
  assumes dict: "idom_dict succ root I" and nodes: "dj_built succ root I nodes"
    and "follows (children_of nodes) t" and "root_of t \<in> reached succ root"
  shows "distinct (events t)"
  using assms(3,4)
proof (induction t)
  case (Rose n ts)
  then have n: "n \<in> reached succ root" and ts: "map root_of ts = children_of nodes n"
    and f: "\<And>t. t \<in> set ts \<Longrightarrow> follows (children_of nodes) t" by simp_all
  have sub: "root_of t \<in> reached succ root" "I (root_of t) = Some (Some n)" if "t \<in> set ts" for t
  proof -
    have "root_of t \<in> set (children_of nodes n)" using that ts by (metis image_eqI image_set)
    then show "root_of t \<in> reached succ root" "I (root_of t) = Some (Some n)" using dj_builtD(4)[OF nodes n] by auto
  qed
  have rose: "set_rose t = {v \<in> reached succ root. dominates succ root (root_of t) v}" if "t \<in> set ts" for t
    using rose_dominates[OF dict nodes f[OF that] sub(1)[OF that]] .
  have dts: "distinct (map root_of ts)" using dj_builtD(5)[OF nodes n] ts by simp
  have apart: "set (events t) \<inter> set (events u) = {}" if "t \<in> set ts" "u \<in> set ts" "t \<noteq> u" for t u
  proof -
    have "root_of t \<noteq> root_of u" using dts that by (auto simp: distinct_map inj_on_def)
    then have "set_rose t \<inter> set_rose u = {}"
      using siblings_apart[OF dict sub[OF that(1)] sub[OF that(2)]] rose that(1,2) by blast
    then show ?thesis by (auto simp: set_events)
  qed
  have "distinct (concat (map events ts))"
  proof (rule distinct_concat)
    have "map (fst \<circ> hd) (map events ts) = map root_of ts" by (simp add: hd_events)
    with dts have "distinct (map (fst \<circ> hd) (map events ts))" by (simp only:)
    then show "distinct (map events ts)" by (simp only: distinct_map)
    show "distinct ys" if "ys \<in> set (map events ts)" for ys
      using that Rose.IH f sub(1) by auto
    show "set ys \<inter> set zs = {}" if "ys \<in> set (map events ts)" "zs \<in> set (map events ts)" "ys \<noteq> zs" for ys zs
      using that apart by auto
  qed
  moreover have "(n, b) \<notin> set (concat (map events ts))" for b
  proof
    assume "(n, b) \<in> set (concat (map events ts))"
    then obtain t where t: "t \<in> set ts" "n \<in> set_rose t" by (auto simp: set_events)
    then have "dominates succ root (root_of t) n" using rose by auto
    moreover have "immediate succ root n (root_of t)" using child_immediate[OF dict sub[OF t(1)]] .
    ultimately show False using dominates_antisym[OF _ _ n] unfolding immediate_def by blast
  qed
  ultimately show ?case by simp
qed

end
