(* ===== verification/DjFrontiers.thy ===== *)
theory DjFrontiers
  imports DjTrees
begin

text \<open>
  The results of \<^verbatim>\<open>dom.evaluate\<close>: the loops of \<^verbatim>\<open>DJNode.number\<close> and of \<^verbatim>\<open>FullIDF.process\<close> over the events of the
  dominator tree, and what they leave in the nodes.
\<close>

section \<open>The numbering\<close>

lemma children_of_with_node:
  "(\<And>x. dj_d (f x) = dj_d x) \<Longrightarrow> children_of (with_node n f nodes) = children_of nodes"
  by (auto simp: children_of_def with_node_apply fun_eq_iff split: option.splits)

lemma children_of_number_event: "children_of (fst (number_event e s)) = children_of (fst s)"
  by (cases e; cases s) (simp add: number_event_def children_of_with_node)

lemma children_of_number_events: "children_of (fst (fold number_event es s)) = children_of (fst s)"
  by (induction es arbitrary: s) (simp_all add: children_of_number_event)

lemma number_loop_tree:
  assumes "follows (children_of (fst s)) t"
  shows "number_loop ((root_of t, False) # rest) s = number_loop rest (fold number_event (events t) s)"
  using assms
proof (induction t arbitrary: rest s)
  case (Rose n ts)
  have list: "number_loop (entries us @ rest) s = number_loop rest (fold number_event (concat (map events us)) s)"
    if "set us \<subseteq> set ts" "children_of (fst s) = d" "\<forall>t \<in> set us. follows d t" for us rest d and s :: "('a \<rightharpoonup> 'a dj_node) \<times> nat"
    using that
  proof (induction us arbitrary: s)
    case (Cons u us)
    then have "follows (children_of (fst s)) u" by simp
    moreover have "children_of (fst (fold number_event (events u) s)) = d"
      using Cons.prems(2) by (simp add: children_of_number_events)
    ultimately show ?case using Rose.IH[of u] Cons.IH[of "fold number_event (events u) s"] Cons.prems by simp
  qed simp
  have ts: "map root_of ts = children_of (fst s) n" "\<forall>t \<in> set ts. follows (children_of (fst s)) t"
    using Rose.prems by simp_all
  have "number_loop ((n, False) # rest) s =
      number_loop (entries ts @ (n, True) # rest) (number_event (n, False) s)"
    using ts(1) by (subst number_loop.simps) simp
  also have "\<dots> = number_loop ((n, True) # rest) (fold number_event (concat (map events ts)) (number_event (n, False) s))"
    using list[of ts "number_event (n, False) s" "children_of (fst s)"] ts(2) by (simp add: children_of_number_event)
  also have "\<dots> = number_loop rest (number_event (n, True) (fold number_event (concat (map events ts)) (number_event (n, False) s)))"
    by (subst number_loop.simps) simp
  finally show ?case by simp
qed

text \<open>Every event gets the number of its place.\<close>

definition same_but_numbers :: "'n dj_node \<Rightarrow> 'n dj_node \<Rightarrow> bool" where
  "same_but_numbers x y \<longleftrightarrow>
     dj_idom y = dj_idom x \<and> dj_level y = dj_level x \<and> dj_d y = dj_d x \<and> dj_j y = dj_j x \<and> dj_idf y = dj_idf x"

definition numbered_as :: "('n \<times> bool) list \<Rightarrow> nat \<Rightarrow> ('n \<rightharpoonup> 'n dj_node) \<Rightarrow> ('n \<rightharpoonup> 'n dj_node) \<Rightarrow> bool" where
  "numbered_as es uid nodes nodes' \<longleftrightarrow>
     (\<forall>n. (nodes n = None \<longleftrightarrow> nodes' n = None)) \<and>
     (\<forall>n x y. nodes n = Some x \<longrightarrow> nodes' n = Some y \<longrightarrow> same_but_numbers x y \<and>
        (\<forall>i < length es. (es ! i = (n, False) \<longrightarrow> dj_pre y = uid + i) \<and> (es ! i = (n, True) \<longrightarrow> dj_post y = uid + i)))"

lemma number_events:
  assumes "distinct es"
  shows "\<exists>nodes'. fold number_event es (nodes, uid) = (nodes', uid + length es) \<and> numbered_as es uid nodes nodes'"
  using assms
proof (induction es rule: rev_induct)
  case Nil
  then show ?case by (simp add: numbered_as_def same_but_numbers_def)
next
  case (snoc e es)
  then obtain nodes1 where 1: "fold number_event es (nodes, uid) = (nodes1, uid + length es)" "numbered_as es uid nodes nodes1"
    by auto
  obtain m b where e: "e = (m, b)" by fastforce
  let ?f = "\<lambda>x :: 'a dj_node. if b then x\<lparr>dj_post := uid + length es\<rparr> else x\<lparr>dj_pre := uid + length es\<rparr>"
  have "fold number_event (es @ [e]) (nodes, uid) = (with_node m ?f nodes1, uid + length (es @ [e]))"
    using 1(1) by (simp add: e number_event_def)
  moreover have "numbered_as (es @ [e]) uid nodes (with_node m ?f nodes1)"
    unfolding numbered_as_def
  proof (intro conjI allI impI)
    show "(nodes n = None) = (with_node m ?f nodes1 n = None)" for n
      using 1(2) by (auto simp: numbered_as_def with_node_apply)
    fix n x y assume x: "nodes n = Some x" and y: "with_node m ?f nodes1 n = Some y"
    have "nodes1 n \<noteq> None" using x 1(2) unfolding numbered_as_def by (metis option.distinct(1))
    then obtain z where z: "nodes1 n = Some z" by blast
    have yz: "y = (if n = m then ?f z else z)" using y z by (auto simp: with_node_apply split: if_splits)
    have old: "same_but_numbers x z" "\<And>i. i < length es \<Longrightarrow> es ! i = (n, False) \<Longrightarrow> dj_pre z = uid + i"
      "\<And>i. i < length es \<Longrightarrow> es ! i = (n, True) \<Longrightarrow> dj_post z = uid + i"
      using 1(2) x z unfolding numbered_as_def by blast+
    show "same_but_numbers x y" using old(1) yz by (auto simp: same_but_numbers_def)
    fix i assume i: "i < length (es @ [e])"
    have new: "es ! i \<noteq> e" if "i < length es" using snoc.prems that by auto
    show "dj_pre y = uid + i" if "(es @ [e]) ! i = (n, False)"
      using that i old(2)[of i] yz new e by (cases "i < length es") (auto simp: nth_append)
    show "dj_post y = uid + i" if "(es @ [e]) ! i = (n, True)"
      using that i old(3)[of i] yz new e by (cases "i < length es") (auto simp: nth_append)
  qed
  ultimately show ?case by blast
qed

text \<open>In a list of events without repetition the intervals are nested as the subtrees are.\<close>

lemma events_bracket:
  assumes "events t = xs @ events s @ ys" and "root_of s = a"
  shows "events t ! length xs = (a, False)" and "events t ! (length xs + length (events s) - 1) = (a, True)"
    and "length (events s) \<ge> 2"
proof -
  obtain ts where s: "s = Rose a ts" using assms(2) by (cases s) auto
  show "events t ! length xs = (a, False)" unfolding assms(1) s by simp
  show "events t ! (length xs + length (events s) - 1) = (a, True)" unfolding assms(1) s by (simp add: nth_append)
  show "length (events s) \<ge> 2" unfolding s by simp
qed

lemma events_nested:
  assumes f: "follows d t" and dist: "distinct (events t)" and a: "a \<in> set_rose t" and b: "b \<in> set_rose t"
  shows "\<exists>i j k l. i < length (events t) \<and> j < length (events t) \<and> k < length (events t) \<and> l < length (events t) \<and>
    events t ! i = (a, False) \<and> events t ! j = (a, True) \<and> events t ! k = (b, False) \<and> events t ! l = (b, True) \<and>
    (i \<le> k \<and> l \<le> j \<longleftrightarrow> (\<exists>s. follows d s \<and> root_of s = a \<and> b \<in> set_rose s \<and> (\<exists>xs ys. events t = xs @ events s @ ys)))"
proof -
  from events_infix[OF a f] obtain xs ys s where s: "events t = xs @ events s @ ys" "root_of s = a" "follows d s" by blast
  from events_infix[OF b f] obtain us vs u where u: "events t = us @ events u @ vs" "root_of u = b" by blast
  note S = events_bracket[OF s(1,2)] and U = events_bracket[OF u]
  let ?i = "length xs" and ?j = "length xs + length (events s) - 1"
  let ?k = "length us" and ?l = "length us + length (events u) - 1"
  have bounds: "?i < length (events t)" "?j < length (events t)" "?k < length (events t)" "?l < length (events t)"
    using arg_cong[OF s(1), of length] arg_cong[OF u(1), of length] S(3) U(3) by auto
  have unique: "p = q" if "p < length (events t)" "q < length (events t)" "events t ! p = events t ! q" for p q
    using that dist nth_eq_iff_index_eq by blast
  have inside: "(b, c) \<in> set (events r)"
    if r: "events t = ps @ events r @ qs" and "length ps \<le> p" "p < length ps + length (events r)" "events t ! p = (b, c)" for r ps qs p c
  proof -
    have l: "p - length ps < length (events r)" using that(2,3) by linarith
    then have "events t ! p = events r ! (p - length ps)" using that(2) by (simp add: r nth_append)
    with that(4) nth_mem[OF l] show ?thesis by simp
  qed
  have "?i \<le> ?k \<and> ?l \<le> ?j \<longleftrightarrow> (\<exists>s. follows d s \<and> root_of s = a \<and> b \<in> set_rose s \<and> (\<exists>xs ys. events t = xs @ events s @ ys))"
  proof
    assume le: "?i \<le> ?k \<and> ?l \<le> ?j"
    then have "?k < ?i + length (events s)" using U(3) S(3) by linarith
    with le inside[OF s(1) _ _ U(1)] have "(b, False) \<in> set (events s)" by simp
    then have "b \<in> set_rose s" by (simp add: set_events)
    with s show "\<exists>s. follows d s \<and> root_of s = a \<and> b \<in> set_rose s \<and> (\<exists>xs ys. events t = xs @ events s @ ys)" by blast
  next
    assume "\<exists>s. follows d s \<and> root_of s = a \<and> b \<in> set_rose s \<and> (\<exists>xs ys. events t = xs @ events s @ ys)"
    then obtain r ps qs where r: "root_of r = a" "b \<in> set_rose r" "events t = ps @ events r @ qs" by blast
    note R = events_bracket[OF r(3,1)]
    have lr: "length ps + length (events r) \<le> length (events t)" using arg_cong[OF r(3), of length] by simp
    have "length ps = ?i" using unique[of "length ps" ?i] R S bounds(1) lr by simp
    moreover have "length ps + length (events r) - 1 = ?j"
      using unique[of "length ps + length (events r) - 1" ?j] R S bounds(2) lr by simp
    moreover have place: "\<exists>p \<ge> length ps. p < length ps + length (events r) \<and> events t ! p = (b, c)" for c
    proof -
      have "(b, c) \<in> set (events r)" using r(2) by (simp add: set_events)
      then obtain p where "p < length (events r)" "events r ! p = (b, c)" by (auto simp: in_set_conv_nth)
      then show ?thesis by (intro exI[of _ "length ps + p"]) (simp add: r(3) nth_append)
    qed
    from place[of False] obtain p where p: "length ps \<le> p" "p < length ps + length (events r)" "events t ! p = (b, False)" by blast
    from place[of True] obtain q where q: "length ps \<le> q" "q < length ps + length (events r)" "events t ! q = (b, True)" by blast
    have "p = ?k" using unique[of p ?k] p U bounds(3) lr by simp
    moreover have "q = ?l" using unique[of q ?l] q U bounds(4) lr by simp
    ultimately show "?i \<le> ?k \<and> ?l \<le> ?j" using p q by linarith
  qed
  with bounds S(1,2) U(1,2) show ?thesis by blast
qed

section \<open>The frontiers\<close>

definition add_idf :: "('n \<Rightarrow> 'n set) \<Rightarrow> ('n \<rightharpoonup> 'n dj_node) \<Rightarrow> ('n \<rightharpoonup> 'n dj_node)" where
  "add_idf W nodes = (\<lambda>k. map_option (\<lambda>x. x\<lparr>dj_idf := dj_idf x \<union> W k\<rparr>) (nodes k))"

lemma add_idf_comp: "add_idf W' (add_idf W nodes) = add_idf (\<lambda>k. W k \<union> W' k) nodes"
  by (auto simp: add_idf_def fun_eq_iff option.map_comp comp_def Un_assoc intro!: option.map_cong)

lemma add_idf_empty: "add_idf (\<lambda>k. {}) nodes = nodes"
  by (simp add: add_idf_def option.map_ident)

lemma add_idf_fields:
  "level_of (add_idf W nodes) = level_of nodes" "joins_of (add_idf W nodes) = joins_of nodes"
  "children_of (add_idf W nodes) = children_of nodes"
  by (auto simp: add_idf_def level_of_def joins_of_def children_of_def fun_eq_iff split: option.splits)

lemma with_node_idf:
  "with_node n (\<lambda>x. x\<lparr>dj_idf := insert w (dj_idf x)\<rparr>) nodes = add_idf (\<lambda>k. if k = n then {w} else {}) nodes"
  by (auto simp: with_node_apply add_idf_def fun_eq_iff option.map_ident intro!: option.map_cong)

lemma add_to_idfs_eq:
  assumes "\<forall>i \<in> set is. i < length path"
  shows "add_to_idfs path w is nodes = Inr (add_idf (\<lambda>k. if \<exists>i \<in> set is. path ! i = k then {w} else {}) nodes)"
  using assms
proof (induction "is" arbitrary: nodes)
  case Nil
  then show ?case by (simp add: add_idf_empty)
next
  case (Cons i "is")
  have "(\<lambda>k. (if k = path ! i then {w} else {}) \<union> (if \<exists>i \<in> set is. path ! i = k then {w} else {})) =
      (\<lambda>k. if \<exists>i \<in> set (i # is). path ! i = k then {w} else {})" by (auto simp: fun_eq_iff)
  with Cons show ?case by (simp add: with_node_idf add_idf_comp)
qed

text \<open>The levels between the join and the node, on the path: what \<^verbatim>\<open>current.j\<close> adds to the set of \<open>k\<close>.\<close>

definition joins_added :: "'n list \<Rightarrow> ('n \<Rightarrow> nat) \<Rightarrow> 'n \<Rightarrow> 'n list \<Rightarrow> 'n \<Rightarrow> 'n set" where
  "joins_added path level n ws k = {w \<in> set ws. \<exists>i. level w \<le> i \<and> i \<le> level n \<and> path ! i = k}"

lemma add_joins_eq:
  assumes "level_of nodes n < length path"
  shows "fold_res (add_join path n) ws nodes = Inr (add_idf (joins_added path (level_of nodes) n ws) nodes)"
  using assms
proof (induction ws arbitrary: nodes)
  case Nil
  then show ?case by (simp add: joins_added_def add_idf_empty)
next
  case (Cons w ws)
  let ?W = "joins_added path (level_of nodes) n [w]"
  have "add_join path n w nodes = Inr (add_idf ?W nodes)"
  proof (cases "level_of nodes w \<le> level_of nodes n")
    case True
    have "(\<lambda>k. if \<exists>i \<in> set [level_of nodes w..<level_of nodes n + 1]. path ! i = k then {w} else {}) = ?W"
      by (auto simp: joins_added_def fun_eq_iff less_Suc_eq_le)
    with True Cons.prems show ?thesis by (simp add: add_join_def add_to_idfs_eq del: upt_Suc)
  next
    case False
    then have "?W = (\<lambda>k. {})" by (auto simp: joins_added_def fun_eq_iff)
    with False show ?thesis by (simp add: add_join_def add_idf_empty)
  qed
  moreover have "(\<lambda>k. ?W k \<union> joins_added path (level_of nodes) n ws k) = joins_added path (level_of nodes) n (w # ws)"
    by (auto simp: joins_added_def fun_eq_iff)
  ultimately show ?case
    using Cons.IH[of "add_idf ?W nodes"] Cons.prems by (simp add: add_idf_fields add_idf_comp)
qed

text \<open>The path to a node: its strict dominators by their level.\<close>

definition path_to :: "('n \<Rightarrow> 'n list) \<Rightarrow> 'n \<Rightarrow> 'n \<Rightarrow> 'n list \<Rightarrow> bool" where
  "path_to succ root n path \<longleftrightarrow> length path = depth succ root n \<and>
     (\<forall>i < length path. path ! i \<in> strict_dominators succ root n \<and> depth succ root (path ! i) = i)"

lemma path_to_child:
  assumes "idom_dict succ root I" and "c \<in> reached succ root" and "immediate succ root n c" and "path_to succ root n path"
  shows "path_to succ root c (path @ [n])"
  unfolding path_to_def
proof (intro conjI allI impI)
  note s = strict_dominators_step[OF assms(3,2)]
  have d: "depth succ root c = Suc (depth succ root n)" by (rule depth_step[OF assms(1-3)])
  with assms(4) show "length (path @ [n]) = depth succ root c" by (simp add: path_to_def)
  fix i assume "i < length (path @ [n])"
  then consider "i < length path" | "i = length path" by fastforce
  then have "(path @ [n]) ! i \<in> strict_dominators succ root c \<and> depth succ root ((path @ [n]) ! i) = i"
  proof cases
    case 1
    then have "path ! i \<in> strict_dominators succ root n" "depth succ root (path ! i) = i"
      using assms(4) unfolding path_to_def by blast+
    with 1 s(1) show ?thesis by (simp add: nth_append)
  next
    case 2
    then have "i = depth succ root n" using assms(4) by (simp add: path_to_def)
    with 2 s(1) show ?thesis by simp
  qed
  then show "(path @ [n]) ! i \<in> strict_dominators succ root c" "depth succ root ((path @ [n]) ! i) = i" by blast+
qed

lemma path_at_depth:
  assumes dict: "idom_dict succ root I" and n: "n \<in> reached succ root" and path: "path_to succ root n path"
  shows "(\<exists>i. l \<le> i \<and> i \<le> depth succ root n \<and> (path @ [n]) ! i = k) \<longleftrightarrow>
    dominates succ root k n \<and> l \<le> depth succ root k"
proof -
  have at: "dominates succ root ((path @ [n]) ! i) n \<and> depth succ root ((path @ [n]) ! i) = i"
    if "i \<le> depth succ root n" for i
    using path that by (cases "i < length path") (auto simp: path_to_def nth_append strict_dominators_def)
  show ?thesis
  proof
    assume "\<exists>i. l \<le> i \<and> i \<le> depth succ root n \<and> (path @ [n]) ! i = k"
    then obtain i where i: "l \<le> i" "i \<le> depth succ root n" "(path @ [n]) ! i = k" by blast
    from at[OF i(2)] i(1) show "dominates succ root k n \<and> l \<le> depth succ root k" unfolding i(3) by simp
  next
    assume k: "dominates succ root k n \<and> l \<le> depth succ root k"
    let ?a = "(path @ [n]) ! depth succ root k"
    have le: "depth succ root k \<le> depth succ root n" using depth_mono[OF dict n] k by blast
    note a = at[OF le]
    have "dominates succ root ?a k" "dominates succ root k ?a" using dominates_depth[OF dict n] a k by simp_all
    then have "?a = k" using dominates_antisym[OF _ _ dominates_reached[OF _ n]] k by metis
    with k le show "\<exists>i. l \<le> i \<and> i \<le> depth succ root n \<and> (path @ [n]) ! i = k" by blast
  qed
qed

definition frontier_of :: "('n \<Rightarrow> 'n list) \<Rightarrow> 'n \<Rightarrow> ('n \<rightharpoonup> 'n option) \<Rightarrow> 'n set \<Rightarrow> 'n \<Rightarrow> 'n set" where
  "frontier_of succ root I us k =
     {w. \<exists>u \<in> us. w \<in> set (join_edges I u (succ u)) \<and> dominates succ root k u \<and> depth succ root w \<le> depth succ root k}"

text \<open>The nodes as the loop finds them: of a built graph only numbers and sets have changed.\<close>

definition dj_levelled :: "('n \<Rightarrow> 'n list) \<Rightarrow> 'n \<Rightarrow> ('n \<rightharpoonup> 'n option) \<Rightarrow> ('n \<rightharpoonup> 'n dj_node) \<Rightarrow> bool" where
  "dj_levelled succ root I nodes \<longleftrightarrow>
     (\<forall>n \<in> reached succ root. level_of nodes n = depth succ root n \<and> joins_of nodes n = join_edges I n (succ n) \<and>
        set (children_of nodes n) = {c \<in> reached succ root. I c = Some (Some n)})"

lemma dj_levelled_add_idf: "dj_levelled succ root I (add_idf W nodes) = dj_levelled succ root I nodes"
  by (simp add: dj_levelled_def add_idf_fields)

lemma idf_leave:
  assumes dict: "idom_dict succ root I" and lev: "dj_levelled succ root I nodes" and n: "n \<in> reached succ root"
    and path: "path_to succ root n path"
  shows "idf_event (n, True) (nodes, path @ [n]) = Inr (add_idf (frontier_of succ root I {n}) nodes, path)"
proof -
  have "set (succ n) \<subseteq> reached succ root" using reached_step[OF n] by blast
  then have levels: "level_of nodes w = depth succ root w" if "w \<in> set (succ n)" for w
    using that lev unfolding dj_levelled_def by blast
  have ln: "level_of nodes n = depth succ root n" "joins_of nodes n = join_edges I n (succ n)"
    using lev n by (simp_all add: dj_levelled_def)
  then have "level_of nodes n < length (path @ [n])" using path by (simp add: path_to_def)
  from add_joins_eq[OF this, of "joins_of nodes n"]
  have "fold_res (add_join (path @ [n]) n) (joins_of nodes n) nodes =
      Inr (add_idf (joins_added (path @ [n]) (level_of nodes) n (joins_of nodes n)) nodes)" .
  moreover have "joins_added (path @ [n]) (level_of nodes) n (joins_of nodes n) k = frontier_of succ root I {n} k" for k
  proof (rule set_eqI)
    fix w
    show "w \<in> joins_added (path @ [n]) (level_of nodes) n (joins_of nodes n) k \<longleftrightarrow> w \<in> frontier_of succ root I {n} k"
    proof (cases "w \<in> set (join_edges I n (succ n))")
      case True
      then have "level_of nodes w = depth succ root w" using levels by auto
      with True path_at_depth[OF dict n path, of "depth succ root w" k] ln show ?thesis
        by (simp add: joins_added_def frontier_of_def)
    next
      case False
      then show ?thesis using ln by (auto simp: joins_added_def frontier_of_def)
    qed
  qed
  then have "joins_added (path @ [n]) (level_of nodes) n (joins_of nodes n) = frontier_of succ root I {n}" by blast
  ultimately show ?thesis by (simp add: idf_event_def)
qed

lemma frontier_of_Un:
  "frontier_of succ root I (us \<union> vs) = (\<lambda>k. frontier_of succ root I us k \<union> frontier_of succ root I vs k)"
  by (auto simp: frontier_of_def fun_eq_iff)

lemma idf_loop_tree:
  assumes dict: "idom_dict succ root I" and "dj_levelled succ root I nodes" and "follows (children_of nodes) t"
    and "root_of t \<in> reached succ root" and "path_to succ root (root_of t) path"
  shows "idf_loop ((root_of t, False) # rest) (nodes, path) =
    idf_loop rest (add_idf (frontier_of succ root I (set_rose t)) nodes, path)"
  using assms(2-5)
proof (induction t arbitrary: rest nodes path)
  case (Rose n ts)
  let ?F = "frontier_of succ root I"
  note lev = Rose.prems(1)
  have n: "n \<in> reached succ root" and path: "path_to succ root n path" using Rose.prems by simp_all
  have list: "idf_loop (entries us @ rest) (nodes, path @ [n]) =
      idf_loop rest (add_idf (?F (\<Union> (set_rose ` set us))) nodes, path @ [n])"
    if "set us \<subseteq> set ts" "dj_levelled succ root I nodes" "children_of nodes = d" "\<forall>t \<in> set us. follows d t"
      "\<forall>t \<in> set us. root_of t \<in> reached succ root \<and> immediate succ root n (root_of t)" for us rest nodes d
    using that
  proof (induction us arbitrary: nodes)
    case Nil
    have "?F {} = (\<lambda>k. {})" by (auto simp: frontier_of_def fun_eq_iff)
    then show ?case by (simp add: add_idf_empty)
  next
    case (Cons u us)
    have u: "u \<in> set ts" "root_of u \<in> reached succ root" "path_to succ root (root_of u) (path @ [n])"
      using Cons.prems path_to_child[OF dict _ _ path] by simp_all
    have f: "follows (children_of nodes) u" using Cons.prems(3,4) by simp
    let ?nodes = "add_idf (?F (set_rose u)) nodes"
    have "idf_loop (entries (u # us) @ rest) (nodes, path @ [n]) = idf_loop (entries us @ rest) (?nodes, path @ [n])"
      using Rose.IH[OF u(1) Cons.prems(2) f u(2,3)] by simp
    also have "\<dots> = idf_loop rest (add_idf (?F (\<Union> (set_rose ` set us))) ?nodes, path @ [n])"
      using Cons.prems by (intro Cons.IH) (simp_all add: dj_levelled_add_idf add_idf_fields)
    also have "add_idf (?F (\<Union> (set_rose ` set us))) ?nodes = add_idf (?F (\<Union> (set_rose ` set (u # us)))) nodes"
    proof -
      have "\<Union> (set_rose ` set (u # us)) = set_rose u \<union> \<Union> (set_rose ` set us)" by simp
      then show ?thesis by (simp only: add_idf_comp frontier_of_Un)
    qed
    finally show ?case .
  qed
  have ts: "map root_of ts = children_of nodes n" "\<forall>t \<in> set ts. follows (children_of nodes) t"
    using Rose.prems(2) by simp_all
  have sub: "root_of t \<in> reached succ root \<and> immediate succ root n (root_of t)" if "t \<in> set ts" for t
  proof -
    have "root_of t \<in> set (children_of nodes n)" using that ts(1) by (metis image_eqI image_set)
    then have "root_of t \<in> reached succ root" "I (root_of t) = Some (Some n)"
      using lev n by (auto simp: dj_levelled_def)
    then show ?thesis using child_immediate[OF dict] by blast
  qed
  have "level_of nodes n = length path" using lev n path by (simp add: dj_levelled_def path_to_def)
  then have "idf_loop ((n, False) # rest) (nodes, path) = idf_loop (entries ts @ (n, True) # rest) (nodes, path @ [n])"
    using ts(1) by (subst idf_loop.simps) (simp add: idf_event_def)
  also have "\<dots> = idf_loop ((n, True) # rest) (add_idf (?F (\<Union> (set_rose ` set ts))) nodes, path @ [n])"
    using list[of ts nodes "children_of nodes" "(n, True) # rest"] lev ts(2) sub by simp
  also have "\<dots> = idf_loop rest (add_idf (?F {n}) (add_idf (?F (\<Union> (set_rose ` set ts))) nodes), path)"
    using idf_leave[OF dict _ n path, of "add_idf (?F (\<Union> (set_rose ` set ts))) nodes"] lev
    by (subst idf_loop.simps) (simp add: dj_levelled_add_idf)
  also have "add_idf (?F {n}) (add_idf (?F (\<Union> (set_rose ` set ts))) nodes) = add_idf (?F (set_rose (Rose n ts))) nodes"
  proof -
    have "set_rose (Rose n ts) = \<Union> (set_rose ` set ts) \<union> {n}" by auto
    then show ?thesis by (simp only: add_idf_comp frontier_of_Un)
  qed
  finally show ?case by simp
qed

section \<open>The results\<close>

text \<open>The dominance frontier of \<open>k\<close>: where an edge leaves what \<open>k\<close> dominates.\<close>

definition dominance_frontier :: "('n \<Rightarrow> 'n list) \<Rightarrow> 'n \<Rightarrow> 'n \<Rightarrow> 'n set" where
  "dominance_frontier succ root k =
     {w. \<exists>u \<in> reached succ root. w \<in> set (succ u) \<and> dominates succ root k u \<and> \<not> (dominates succ root k w \<and> k \<noteq> w)}"

lemma frontier_of_reached:
  assumes dict: "idom_dict succ root I"
  shows "frontier_of succ root I (reached succ root) k = dominance_frontier succ root k"
proof (intro equalityI subsetI)
  fix w assume "w \<in> frontier_of succ root I (reached succ root) k"
  then obtain u where u: "u \<in> reached succ root" "w \<in> set (succ u)" "dominates succ root k u"
    "depth succ root w \<le> depth succ root k" by (auto simp: frontier_of_def)
  have "k \<notin> strict_dominators succ root w" using depth_strict[OF dict reached_step[OF u(1,2)]] u(4) by fastforce
  with u show "w \<in> dominance_frontier succ root k" by (auto simp: dominance_frontier_def strict_dominators_def)
next
  fix w assume "w \<in> dominance_frontier succ root k"
  then obtain u where u: "u \<in> reached succ root" "w \<in> set (succ u)" "dominates succ root k u"
    and n: "\<not> (dominates succ root k w \<and> k \<noteq> w)" by (auto simp: dominance_frontier_def)
  have w: "w \<in> reached succ root" using reached_step[OF u(1,2)] .
  have above: "dominates succ root k w \<and> k \<noteq> w" if "immediate succ root d w" "dominates succ root k d" for d
    using that dominates_trans[of succ root k d w] dominates_antisym[of succ root d w] w unfolding immediate_def by metis
  from idom_dict_cases[OF dict w]
  consider (root) "w = root" "I w = Some None" | (step) d where "I w = Some (Some d)" "immediate succ root d w" by blast
  then have "I w \<noteq> Some (Some u) \<and> depth succ root w \<le> depth succ root k"
  proof cases
    case root
    then show ?thesis by simp
  next
    case (step d)
    have "dominates succ root d u" using dominates_predecessor[of succ root d w u] u(2) step(2) unfolding immediate_def by blast
    then have "\<not> depth succ root k \<le> depth succ root d"
      using dominates_depth[OF dict u(1,3)] above[OF step(2)] n by blast
    then have "depth succ root w \<le> depth succ root k" using depth_step[OF dict w step(2)] by simp
    moreover have "d \<noteq> u" using above[OF step(2)] n u(3) by blast
    ultimately show ?thesis using step(1) by simp
  qed
  with u show "w \<in> frontier_of succ root I (reached succ root) k" by (auto simp: frontier_of_def)
qed

lemma find_idoms_dict:
  assumes fin: "finite (reached forward root)"
  shows "\<exists>idoms. find_idoms forward [root] = Some (Inr idoms) \<and> idom_dict forward root (map_of idoms)"
proof -
  have R: "reached_from forward [root] = reached forward root" by (simp add: reached_from_def)
  have D: "dominates_from forward [root] = dominates forward root" by (simp add: dominates_from_def fun_eq_iff)
  from find_idoms_correct_lemma[of forward "[root]"] fin obtain idoms
    where i: "find_idoms forward [root] = Some (Inr idoms)" "distinct (map fst idoms)"
      "set (map fst idoms) = reached forward root"
      and spec: "\<And>v idom. (v, idom) \<in> set idoms \<Longrightarrow> (case idom of
          None \<Rightarrow> \<forall>e. dominates forward root e v \<longrightarrow> e = v
        | Some d \<Rightarrow> d \<noteq> v \<and> dominates forward root d v \<and>
            (\<forall>e. dominates forward root e v \<longrightarrow> e \<noteq> v \<longrightarrow> dominates forward root e d))"
    unfolding R D by blast
  have dom: "dom (map_of idoms) = reached forward root" using i(3) by (simp add: dom_map_of_conv_image_fst)
  have entry: "\<exists>idom. map_of idoms v = Some idom \<and> (v, idom) \<in> set idoms" if "v \<in> reached forward root" for v
    using that dom map_of_SomeD by fastforce
  from entry[OF reached_root[of root forward]] obtain r where r: "map_of idoms root = Some r" "(root, r) \<in> set idoms" by blast
  have "r = None" using spec[OF r(2)] by (cases r) (auto simp: dominated_root)
  moreover have "\<exists>d. map_of idoms v = Some (Some d) \<and> immediate forward root d v"
    if v: "v \<in> reached forward root" "v \<noteq> root" for v
  proof -
    from entry[OF v(1)] obtain idom where e: "map_of idoms v = Some idom" "(v, idom) \<in> set idoms" by blast
    show ?thesis
    proof (cases idom)
      case None
      with spec[OF e(2)] have "\<forall>e. dominates forward root e v \<longrightarrow> e = v" by simp
      with v(2) dominates_root show ?thesis by metis
    next
      case (Some d)
      with spec[OF e(2)] e(1) show ?thesis by (auto simp: immediate_def)
    qed
  qed
  ultimately show ?thesis using i(1) r(1) fin dom by (auto simp: idom_dict_def)
qed

lemma subtree_dominates:
  assumes dict: "idom_dict succ root I" and dj: "dj_built succ root I nodes" and t: "follows (children_of nodes) t"
    and rose: "set_rose t = reached succ root" and a: "a \<in> reached succ root" and b: "b \<in> reached succ root"
  shows "(\<exists>s. follows (children_of nodes) s \<and> root_of s = a \<and> b \<in> set_rose s \<and> (\<exists>xs ys. events t = xs @ events s @ ys)) \<longleftrightarrow>
    dominates succ root a b"
proof
  assume "\<exists>s. follows (children_of nodes) s \<and> root_of s = a \<and> b \<in> set_rose s \<and> (\<exists>xs ys. events t = xs @ events s @ ys)"
  then obtain s where "follows (children_of nodes) s" "root_of s = a" "b \<in> set_rose s" by blast
  with rose_dominates[OF dict dj, of s] a show "dominates succ root a b" by auto
next
  assume d: "dominates succ root a b"
  from events_infix[of a t, OF _ t] a rose obtain xs ys s
    where s: "events t = xs @ events s @ ys" "root_of s = a" "follows (children_of nodes) s" by auto
  moreover have "b \<in> set_rose s" using rose_dominates[OF dict dj s(3)] s(2) a d b by simp
  ultimately show "\<exists>s. follows (children_of nodes) s \<and> root_of s = a \<and> b \<in> set_rose s \<and>
      (\<exists>xs ys. events t = xs @ events s @ ys)" by blast
qed

text \<open>After the numbering.\<close>

lemma dj_number_correct:
  assumes dict: "idom_dict succ root I" and dj: "dj_built succ root I nodes"
  shows "\<exists>nodes' uid. dj_number root (nodes, 0) = Some (nodes', uid) \<and> dom nodes' = reached succ root \<and>
    children_of nodes' = children_of nodes \<and>
    (\<forall>k x. nodes' k = Some x \<longrightarrow> (\<exists>y. nodes k = Some y \<and> same_but_numbers y x)) \<and>
    (\<forall>a x b y. nodes' a = Some x \<longrightarrow> nodes' b = Some y \<longrightarrow> (dj_dominates x y \<longleftrightarrow> dominates succ root a b))"
proof -
  note B = dj_builtD[OF dj]
  from tree_exists[OF dict dj reached_root] obtain t where t: "root_of t = root" "follows (children_of nodes) t" by blast
  have rose: "set_rose t = reached succ root"
    using rose_dominates[OF dict dj t(2)] t(1) reached_root[of root succ] by simp
  have dist: "distinct (events t)" using distinct_events[OF dict dj t(2)] t(1) reached_root[of root succ] by simp
  obtain nodes' where n: "fold number_event (events t) (nodes, 0) = (nodes', 0 + length (events t))"
    and num: "numbered_as (events t) 0 nodes nodes'" using number_events[OF dist, of nodes 0] by blast
  have number: "dj_number root (nodes, 0) = Some (nodes', length (events t))"
    using number_loop_tree[of "(nodes, 0)" t "[]"] t n by (simp add: dj_number_def number_loop.simps[of "[]"])
  have dom: "dom nodes' = reached succ root" using num B(2) unfolding numbered_as_def by (auto simp: dom_def)
  have same: "\<exists>y. nodes k = Some y \<and> same_but_numbers y x" if "nodes' k = Some x" for k x
    using that num unfolding numbered_as_def by (metis not_None_eq)
  have ch: "children_of nodes' = children_of nodes"
    using children_of_number_events[of "events t" "(nodes, 0)"] n by simp
  have "dj_dominates x y \<longleftrightarrow> dominates succ root a b" if x: "nodes' a = Some x" and y: "nodes' b = Some y" for a b x y
  proof -
    have a: "a \<in> set_rose t" and b: "b \<in> set_rose t" using x y dom rose by blast+
    from events_nested[OF t(2) dist a b] obtain i j k l
      where e: "i < length (events t)" "j < length (events t)" "k < length (events t)" "l < length (events t)"
        "events t ! i = (a, False)" "events t ! j = (a, True)" "events t ! k = (b, False)" "events t ! l = (b, True)"
        and nest: "i \<le> k \<and> l \<le> j \<longleftrightarrow> (\<exists>s. follows (children_of nodes) s \<and> root_of s = a \<and> b \<in> set_rose s \<and>
          (\<exists>xs ys. events t = xs @ events s @ ys))" by blast
    have at: "dj_pre x = p" if "p < length (events t)" "events t ! p = (k, False)" "nodes' k = Some x" for p k x
      using num same[OF that(3)] that unfolding numbered_as_def by fastforce
    have at': "dj_post x = p" if "p < length (events t)" "events t ! p = (k, True)" "nodes' k = Some x" for p k x
      using num same[OF that(3)] that unfolding numbered_as_def by fastforce
    have "dj_dominates x y \<longleftrightarrow> i \<le> k \<and> l \<le> j"
      using at[OF e(1,5) x] at[OF e(3,7) y] at'[OF e(2,6) x] at'[OF e(4,8) y] by (simp add: dj_dominates_def)
    also have "\<dots> \<longleftrightarrow> dominates succ root a b"
      unfolding nest using subtree_dominates[OF dict dj t(2) rose, of a b] a b rose by simp
    finally show ?thesis .
  qed
  with number dom ch same show ?thesis by blast
qed

lemma dj_idf_correct:
  assumes dict: "idom_dict succ root I" and dj: "dj_built succ root I nodes"
    and dom: "dom nodes' = reached succ root" and ch: "children_of nodes' = children_of nodes"
    and same: "\<And>k x. nodes' k = Some x \<Longrightarrow> \<exists>y. nodes k = Some y \<and> same_but_numbers y x"
  shows "idf_loop [(root, False)] (nodes', []) = Some (Inr (add_idf (dominance_frontier succ root) nodes', []))"
proof -
  note B = dj_builtD[OF dj]
  from tree_exists[OF dict dj reached_root] obtain t where t: "root_of t = root" "follows (children_of nodes) t" by blast
  have rose: "set_rose t = reached succ root"
    using rose_dominates[OF dict dj t(2)] t(1) reached_root[of root succ] by simp
  have "level_of nodes' k = level_of nodes k \<and> joins_of nodes' k = joins_of nodes k" if "k \<in> reached succ root" for k
  proof -
    have "k \<in> dom nodes'" using that dom by simp
    then obtain x where x: "nodes' k = Some x" by (auto dest: domD)
    from same[OF x] obtain y where "nodes k = Some y" "same_but_numbers y x" by blast
    with x show ?thesis by (simp add: level_of_def joins_of_def same_but_numbers_def)
  qed
  then have lev: "dj_levelled succ root I nodes'" unfolding dj_levelled_def ch using B(3,4,6) by simp
  have "path_to succ root root []" by (simp add: path_to_def)
  with idf_loop_tree[OF dict lev, of t "[]" "[]"] t ch rose
  have "idf_loop [(root, False)] (nodes', []) =
      Some (Inr (add_idf (frontier_of succ root I (reached succ root)) nodes', []))"
    by (simp add: reached_root idf_loop.simps[of "[]"])
  moreover have "frontier_of succ root I (reached succ root) = dominance_frontier succ root"
    using frontier_of_reached[OF dict] by blast
  ultimately show ?thesis by simp
qed

lemma dj_evaluate_lemma:
  assumes fin: "finite (reached forward root)"
  shows "\<exists>nodes. dj_evaluate [root] forward = Some (Inr nodes) \<and> dom nodes = reached forward root \<and>
    (\<forall>a x. nodes a = Some x \<longrightarrow>
       dj_level x = depth forward root a \<and> dj_idf x = dominance_frontier forward root a \<and>
       (\<forall>b y. nodes b = Some y \<longrightarrow> (dj_dominates x y \<longleftrightarrow> dominates forward root a b)))"
proof -
  from find_idoms_dict[OF fin] obtain idoms
    where idoms: "find_idoms forward [root] = Some (Inr idoms)" and dict: "idom_dict forward root (map_of idoms)" by blast
  from mdj_process_correct[OF dict] obtain m
    where m: "mdj_process (map_of idoms) forward root \<lparr>md_nodes = Map.empty, md_processed = {}, md_levels = 0\<rparr> = Some (Inr m)"
      and dj: "dj_built forward root (map_of idoms) (md_nodes m)" by blast
  from dj_number_correct[OF dict dj] obtain nodes1 uid
    where n1: "dj_number root (md_nodes m, 0) = Some (nodes1, uid)" "dom nodes1 = reached forward root"
        "children_of nodes1 = children_of (md_nodes m)"
        "\<And>k x. nodes1 k = Some x \<Longrightarrow> \<exists>y. md_nodes m k = Some y \<and> same_but_numbers y x"
      and dominates1: "\<And>a x b y. nodes1 a = Some x \<Longrightarrow> nodes1 b = Some y \<Longrightarrow> dj_dominates x y \<longleftrightarrow> dominates forward root a b"
    by blast
  let ?nodes = "add_idf (dominance_frontier forward root) nodes1"
  have "dj_evaluate [root] forward = Some (Inr ?nodes)"
    using idoms m n1(1) dj_idf_correct[OF dict dj n1(2-4)] by (simp add: dj_evaluate_def)
  moreover have "dom ?nodes = reached forward root" using n1(2) by (simp add: add_idf_def dom_def)
  moreover have numbers: "\<exists>z. nodes1 k = Some z \<and> y = z\<lparr>dj_idf := dj_idf z \<union> dominance_frontier forward root k\<rparr>"
    if "?nodes k = Some y" for k y
    using that by (auto simp: add_idf_def)
  have "dj_level x = depth forward root a \<and> dj_idf x = dominance_frontier forward root a" if x: "?nodes a = Some x" for a x
  proof -
    from numbers[OF x] obtain z where z: "nodes1 a = Some z" "x = z\<lparr>dj_idf := dj_idf z \<union> dominance_frontier forward root a\<rparr>"
      by blast
    from n1(4)[OF z(1)] obtain y where y: "md_nodes m a = Some y" "same_but_numbers y z" by blast
    show ?thesis using builtD(3,4)[OF dj_builtD(1)[OF dj] y(1)] y(2) z(2) by (simp add: same_but_numbers_def)
  qed
  moreover have "dj_dominates x y \<longleftrightarrow> dominates forward root a b" if xy: "?nodes a = Some x" "?nodes b = Some y" for a b x y
  proof -
    from numbers[OF xy(1)] obtain z where z: "nodes1 a = Some z" "x = z\<lparr>dj_idf := dj_idf z \<union> dominance_frontier forward root a\<rparr>"
      by blast
    from numbers[OF xy(2)] obtain w where w: "nodes1 b = Some w" "y = w\<lparr>dj_idf := dj_idf w \<union> dominance_frontier forward root b\<rparr>"
      by blast
    show ?thesis using dominates1[OF z(1) w(1)] z(2) w(2) by (simp add: dj_dominates_def)
  qed
  ultimately show ?thesis by blast
qed

section \<open>Properties\<close>

text \<open>C9: On a graph with one root that reaches finitely many nodes the evaluation ends without an error, has one node
  for each reached node of the graph, and its intervals decide dominance.\<close>

theorem dj_dominates_correct:
  assumes "finite (reached forward root)"
  shows "\<exists>nodes. dj_evaluate [root] forward = Some (Inr nodes) \<and> dom nodes = reached forward root \<and>
    (\<forall>a x b y. nodes a = Some x \<longrightarrow> nodes b = Some y \<longrightarrow> (dj_dominates x y \<longleftrightarrow> dominates forward root a b))"
  using dj_evaluate_lemma[OF assms] by blast

text \<open>C7: The set that \<^verbatim>\<open>FullIDF\<close> gives a node is its dominance frontier, no more and no less, and the level of a
  node is the number of its strict dominators.\<close>

theorem dj_frontier_correct:
  assumes "finite (reached forward root)" and "dj_evaluate [root] forward = Some (Inr nodes)" and "nodes a = Some x"
  shows "dj_idf x = dominance_frontier forward root a \<and> dj_level x = card (strict_dominators forward root a)"
  using dj_evaluate_lemma[OF assms(1)] assms(2,3) unfolding depth_def by fastforce

lemma two_entries_evaluated:
  "map_option (map_sum id (\<lambda>nodes. map (\<lambda>n. case nodes n of None \<Rightarrow> None
       | Some x \<Rightarrow> Some (dj_level x, dj_pre x, dj_post x, dj_idf x)) [1, 2, 3, 4, 5])) (dj_evaluate [1] two_entries) =
   Some (Inr [Some (0, 0, 9, {}), Some (1, 1, 2, {4}), Some (1, 3, 6, {4}), Some (1, 7, 8, {3}), Some (2, 4, 5, {})])"
  by code_simp

lemma two_entries_finite_reached: "finite (reached two_entries 1)"
  using two_entries_reached by (rule finite_subset) simp

lemma two_entries_nodes:
  obtains nodes x2 x3 x5 where "dj_evaluate [1] two_entries = Some (Inr nodes)"
    and "nodes 2 = Some x2" "nodes 3 = Some x3" "nodes 5 = Some x5"
    and "(dj_pre x2, dj_post x2) = (1, 2)" "(dj_pre x3, dj_post x3) = (3, 6)" "(dj_pre x5, dj_post x5) = (4, 5)"
    and "dj_idf x2 = {4}"
proof -
  obtain nodes where nodes: "dj_evaluate [1] two_entries = Some (Inr nodes)"
    using dj_evaluate_lemma[OF two_entries_finite_reached] by blast
  show ?thesis
    using two_entries_evaluated that[OF nodes] unfolding nodes by (auto split: option.splits)
qed

theorem dj_dominates_correct_witness: "dominates two_entries 1 3 5 \<and> \<not> dominates two_entries 1 2 5"
proof -
  obtain nodes x2 x3 x5 where n: "dj_evaluate [1] two_entries = Some (Inr nodes)"
    "nodes 2 = Some x2" "nodes 3 = Some x3" "nodes 5 = Some x5"
    "(dj_pre x2, dj_post x2) = (1, 2)" "(dj_pre x3, dj_post x3) = (3, 6)" "(dj_pre x5, dj_post x5) = (4, 5)"
    by (rule two_entries_nodes)
  from dj_dominates_correct[OF two_entries_finite_reached] n(1)
  have "\<And>a x b y. nodes a = Some x \<Longrightarrow> nodes b = Some y \<Longrightarrow> dj_dominates x y \<longleftrightarrow> dominates two_entries 1 a b" by auto
  from this[OF n(3,4)] this[OF n(2,4)] n(5-7) show ?thesis by (simp add: dj_dominates_def)
qed

theorem dj_frontier_correct_witness: "dominance_frontier two_entries 1 2 = {4}"
proof -
  obtain nodes x2 where n: "dj_evaluate [1] two_entries = Some (Inr nodes)" "nodes 2 = Some x2" "dj_idf x2 = {4}"
    by (rule two_entries_nodes) blast
  from dj_frontier_correct[OF two_entries_finite_reached n(1,2)] n(3) show ?thesis by simp
qed

end
