(* ===== verification/PhiPlacement.thy ===== *)
theory PhiPlacement
  imports DjFrontiers
begin

text \<open>
  Where \<^verbatim>\<open>ir/cfg/ssa.py\<close> places phi nodes: for each variable the blocks that assign it are closed under the
  dominance frontiers. The set \<^verbatim>\<open>pending\<close> gives its elements in an order of its own, the argument \<open>pick\<close>.
  The properties say what makes the placement right: from the blocks and the phi nodes together, at most one
  definition reaches a node, and it dominates the node.
\<close>

section \<open>The code\<close>

definition idf_of :: "('n \<rightharpoonup> 'n dj_node) \<Rightarrow> 'n \<Rightarrow> 'n set" where
  "idf_of nodes n = (case nodes n of None \<Rightarrow> {} | Some x \<Rightarrow> dj_idf x)"

partial_function (option) close_frontier ::
  "('n set \<Rightarrow> 'n) \<Rightarrow> ('n \<rightharpoonup> 'n dj_node) \<Rightarrow> 'n set \<Rightarrow> 'n set \<Rightarrow> 'n set option" where
  "close_frontier pick nodes pending idf =
     (if pending = {} then Some idf
      else let djnode = pick pending; children = idf_of nodes djnode
           in close_frontier pick nodes (pending - {djnode} \<union> (children - idf)) (idf \<union> children))"

declare close_frontier.simps [code]

type_synonym ('n, 'k) placement = "'k set \<times> ('n \<rightharpoonup> 'k set)"

definition place_key ::
  "('n set \<Rightarrow> 'n) \<Rightarrow> ('n \<rightharpoonup> 'n dj_node) \<Rightarrow> 'k \<times> 'n set \<Rightarrow> ('n, 'k) placement \<Rightarrow> ('n, 'k) placement res option" where
  "place_key pick nodes kb s =
     (case close_frontier pick nodes (snd kb) {} of
        None \<Rightarrow> None
      | Some idf \<Rightarrow> Some (Inr
          (if idf \<noteq> {} then insert (fst kb) (fst s) else fst s,
           \<lambda>n. if n \<in> idf then Some (insert (fst kb) (get_set (snd s) n)) else snd s n)))"

definition phi_placement ::
  "('n set \<Rightarrow> 'n) \<Rightarrow> ('n \<Rightarrow> 'n list) \<Rightarrow> 'n \<Rightarrow> ('k \<times> 'n set) list \<Rightarrow> ('n, 'k) placement res option" where
  "phi_placement pick forward entry mods =
     bind_run (dj_evaluate [entry] forward)
       (\<lambda>nodes. fold_run (place_key pick nodes) mods ({}, Map.empty))"

section \<open>The iterated frontier\<close>

definition iterated_frontier :: "('n \<Rightarrow> 'n list) \<Rightarrow> 'n \<Rightarrow> 'n set \<Rightarrow> 'n set" where
  "iterated_frontier succ root S = {(a, b). b \<in> dominance_frontier succ root a}\<^sup>+ `` S"

lemma frontier_reached: "dominance_frontier succ root a \<subseteq> reached succ root"
  using reached_step by (fastforce simp: dominance_frontier_def)

lemma iterated_frontier_step:
  assumes "a \<in> S \<union> iterated_frontier succ root S" and "b \<in> dominance_frontier succ root a"
  shows "b \<in> iterated_frontier succ root S"
  using assms unfolding iterated_frontier_def by (blast intro: trancl_into_trancl)

lemma iterated_frontier_least:
  assumes "\<And>a b. a \<in> S \<union> T \<Longrightarrow> b \<in> dominance_frontier succ root a \<Longrightarrow> b \<in> T"
  shows "iterated_frontier succ root S \<subseteq> T"
proof
  fix w assume "w \<in> iterated_frontier succ root S"
  then obtain a where "a \<in> S" "(a, w) \<in> {(a, b). b \<in> dominance_frontier succ root a}\<^sup>+" by (auto simp: iterated_frontier_def)
  from this(2,1) show "w \<in> T" by (induction rule: trancl_induct) (use assms in auto)
qed

lemma iterated_frontier_reached: "iterated_frontier succ root S \<subseteq> reached succ root"
  by (rule iterated_frontier_least) (use frontier_reached in fast)

lemma close_frontier_correct:
  assumes fin: "finite (reached succ root)" and nodes: "\<And>a. a \<in> reached succ root \<Longrightarrow> idf_of nodes a = dominance_frontier succ root a"
    and pick: "\<And>A. finite A \<Longrightarrow> A \<noteq> {} \<Longrightarrow> pick A \<in> A" and S: "S \<subseteq> reached succ root"
    and "pending \<subseteq> S \<union> idf" and "idf \<subseteq> iterated_frontier succ root S"
    and "\<And>a. a \<in> S \<union> idf \<Longrightarrow> a \<notin> pending \<Longrightarrow> dominance_frontier succ root a \<subseteq> idf"
  shows "close_frontier pick nodes pending idf = Some (iterated_frontier succ root S)"
  using assms(5-7)
proof (induction "card (reached succ root - idf) + card pending" arbitrary: pending idf rule: less_induct)
  case less
  have below: "S \<union> idf \<subseteq> reached succ root" using S less.prems(2) iterated_frontier_reached by fast
  show ?case
  proof (cases "pending = {}")
    case True
    then have "iterated_frontier succ root S \<subseteq> idf" using less.prems(3) by (intro iterated_frontier_least) blast
    with less.prems(2) True show ?thesis by (subst close_frontier.simps) simp
  next
    case False
    let ?a = "pick pending"
    let ?C = "idf_of nodes ?a" and ?pending = "pending - {?a} \<union> (idf_of nodes ?a - idf)"
    have "pending \<subseteq> reached succ root" using less.prems(1) below by blast
    then have finp: "finite pending" using fin by (rule finite_subset)
    have a: "?a \<in> pending" using pick[OF finp False] .
    then have "?a \<in> reached succ root" "?a \<in> S \<union> idf" using less.prems(1) below by blast+
    then have C: "?C = dominance_frontier succ root ?a" using nodes by simp
    have CR: "?C \<subseteq> reached succ root" "?C \<subseteq> iterated_frontier succ root S"
    proof -
      show "?C \<subseteq> reached succ root" unfolding C by (rule frontier_reached)
      have "?a \<in> S \<union> iterated_frontier succ root S" using less.prems(2) \<open>?a \<in> S \<union> idf\<close> by fast
      then show "?C \<subseteq> iterated_frontier succ root S" unfolding C using iterated_frontier_step by fast
    qed
    have fins: "finite pending" "finite ?C" using finp fin CR(1) finite_subset by blast+
    have "card ?pending \<le> card (pending - {?a}) + card (?C - idf)" by (rule card_Un_le)
    moreover have "card (pending - {?a}) < card pending" using a fins(1) by (rule card_Diff1_less[rotated])
    moreover have "card (reached succ root - (idf \<union> ?C)) + card (?C - idf) = card (reached succ root - idf)"
    proof -
      have "reached succ root - idf = (reached succ root - (idf \<union> ?C)) \<union> (?C - idf)" using CR(1) by blast
      moreover have "(reached succ root - (idf \<union> ?C)) \<inter> (?C - idf) = {}" by blast
      ultimately show ?thesis using card_Un_disjoint[of "reached succ root - (idf \<union> ?C)" "?C - idf"] fin fins(2) by simp
    qed
    ultimately have "card (reached succ root - (idf \<union> ?C)) + card ?pending <
        card (reached succ root - idf) + card pending" by linarith
    from less.hyps[OF this]
    have "close_frontier pick nodes ?pending (idf \<union> ?C) = Some (iterated_frontier succ root S)"
      using less.prems CR(2) C by blast
    with False show ?thesis by (subst close_frontier.simps) (simp add: Let_def)
  qed
qed

section \<open>Definitions that reach a node\<close>

text \<open>A definition reaches a node when a walk from it to the node meets no other definition.\<close>

definition reaching :: "('n \<Rightarrow> 'n list) \<Rightarrow> 'n set \<Rightarrow> 'n \<Rightarrow> 'n \<Rightarrow> bool" where
  "reaching succ defs d n \<longleftrightarrow> d \<in> defs \<and> (\<exists>p. walk succ d p \<and> last (d # p) = n \<and> set p \<inter> defs = {})"

lemma reaching_dominates:
  assumes closed: "\<And>a. a \<in> defs \<Longrightarrow> dominance_frontier succ root a \<subseteq> defs"
    and d: "d \<in> reached succ root" and r: "reaching succ defs d n"
  shows "dominates succ root d n"
proof -
  from r obtain p where p: "d \<in> defs" "walk succ d p" "last (d # p) = n" "set p \<inter> defs = {}" by (auto simp: reaching_def)
  from p(2-4) show ?thesis
  proof (induction p arbitrary: n rule: rev_induct)
    case (snoc w p)
    let ?u = "last (d # p)"
    have w: "walk succ d p" "w \<in> set (succ ?u)" "w = n" "w \<notin> defs" "set p \<inter> defs = {}"
      using snoc.prems by (simp_all add: walk_snoc)
    then have u: "dominates succ root d ?u" using snoc.IH by blast
    from d obtain q where q: "walk succ root q" "last (root # q) = d" unfolding reached_def by blast
    have "?u \<in> reached succ root" using walk_join[OF q w(1) refl] reachedI by metis
    then have "dominates succ root d w" using closed[OF p(1)] w(2,4) u by (auto simp: dominance_frontier_def)
    with w(3) show ?case by simp
  qed simp
qed

lemma reaching_unique:
  assumes dict: "idom_dict succ root I" and closed: "\<And>a. a \<in> defs \<Longrightarrow> dominance_frontier succ root a \<subseteq> defs"
    and defs: "defs \<subseteq> reached succ root" and c: "reaching succ defs c n" and d: "reaching succ defs d n"
  shows "c = d"
proof (rule ccontr)
  assume neq: "c \<noteq> d"
  have cd: "c \<in> reached succ root" "d \<in> reached succ root" "c \<in> defs" "d \<in> defs"
    using c d defs by (auto simp: reaching_def)
  from d obtain p where p: "walk succ d p" "last (d # p) = n" unfolding reaching_def by blast
  from cd(2) obtain q where q: "walk succ root q" "last (root # q) = d" unfolding reached_def by blast
  have n: "n \<in> reached succ root" using walk_join[OF q p] reachedI by metis
  have dom: "dominates succ root c n" "dominates succ root d n"
    using reaching_dominates[OF closed] cd c d by blast+
  have no: False if y: "reaching succ defs y n" and xy: "x \<noteq> y" "x \<in> defs" "y \<in> reached succ root"
      "dominates succ root x n" "dominates succ root y x" "x \<in> reached succ root" for x y
  proof -
    have "\<not> dominates succ root x y" using dominates_antisym[of succ root x y] xy by blast
    then obtain q where q: "walk succ root q" "last (root # q) = y" "x \<notin> set (root # q)" by (auto simp: dominates_def)
    from y obtain p where p: "walk succ y p" "last (y # p) = n" "set p \<inter> defs = {}" unfolding reaching_def by blast
    have "x \<in> set (root # q @ p)" using walk_join[OF q(1,2) p(1,2)] xy(4) unfolding dominates_def by blast
    with q(3) p(3) xy(2) show False by auto
  qed
  from dominators_linear[OF dict n dom] show False using no[OF d, of c] no[OF c, of d] neq cd dom by blast
qed

section \<open>The placement\<close>

lemma evaluated_idf:
  assumes fin: "finite (reached forward entry)" and e: "dj_evaluate [entry] forward = Some (Inr nodes)"
    and a: "a \<in> reached forward entry"
  shows "idf_of nodes a = dominance_frontier forward entry a"
proof -
  from dj_evaluate_lemma[OF fin] e
  have d: "dom nodes = reached forward entry" and f: "\<And>x. nodes a = Some x \<Longrightarrow> dj_idf x = dominance_frontier forward entry a"
    by auto
  from a d have "a \<in> dom nodes" by simp
  then obtain x where "nodes a = Some x" by (auto dest: domD)
  with f show ?thesis by (simp add: idf_of_def)
qed

lemma place_keys:
  assumes fin: "finite (reached succ root)" and nodes: "\<And>a. a \<in> reached succ root \<Longrightarrow> idf_of nodes a = dominance_frontier succ root a"
    and pick: "\<And>A. finite A \<Longrightarrow> A \<noteq> {} \<Longrightarrow> pick A \<in> A" and "\<forall>kb \<in> set mods. snd kb \<subseteq> reached succ root"
  shows "\<exists>renames merges. fold_run (place_key pick nodes) mods s = Some (Inr (renames, merges)) \<and>
    (\<forall>k. k \<in> renames \<longleftrightarrow> k \<in> fst s \<or> (\<exists>S. (k, S) \<in> set mods \<and> iterated_frontier succ root S \<noteq> {})) \<and>
    (\<forall>k n. k \<in> get_set merges n \<longleftrightarrow> k \<in> get_set (snd s) n \<or> (\<exists>S. (k, S) \<in> set mods \<and> n \<in> iterated_frontier succ root S))"
  using assms(4)
proof (induction mods arbitrary: s)
  case Nil
  then show ?case by (cases s) simp
next
  case (Cons kb mods)
  obtain k S where kb: "kb = (k, S)" by fastforce
  let ?F = "iterated_frontier succ root S"
  have "S \<subseteq> reached succ root" using Cons.prems kb by simp
  then have c: "close_frontier pick nodes S {} = Some ?F"
    by (intro close_frontier_correct[OF fin nodes pick]) auto
  let ?s = "(if ?F \<noteq> {} then insert k (fst s) else fst s, \<lambda>n. if n \<in> ?F then Some (insert k (get_set (snd s) n)) else snd s n)"
  have p: "place_key pick nodes kb s = Some (Inr ?s)" using c by (simp add: place_key_def kb fun_eq_iff)
  have fst: "j \<in> fst ?s \<longleftrightarrow> j \<in> fst s \<or> j = k \<and> ?F \<noteq> {}" for j by auto
  have snd: "j \<in> get_set (snd ?s) n \<longleftrightarrow> j \<in> get_set (snd s) n \<or> j = k \<and> n \<in> ?F" for j n by (auto simp: get_set_def)
  have "\<forall>kb \<in> set mods. snd kb \<subseteq> reached succ root" using Cons.prems by simp
  from Cons.IH[OF this, of ?s] obtain renames merges
    where r: "fold_run (place_key pick nodes) mods ?s = Some (Inr (renames, merges))"
      "\<And>j. j \<in> renames \<longleftrightarrow> j \<in> fst ?s \<or> (\<exists>S. (j, S) \<in> set mods \<and> iterated_frontier succ root S \<noteq> {})"
      "\<And>j n. j \<in> get_set merges n \<longleftrightarrow> j \<in> get_set (snd ?s) n \<or> (\<exists>S. (j, S) \<in> set mods \<and> n \<in> iterated_frontier succ root S)"
    by blast
  have "fold_run (place_key pick nodes) (kb # mods) s = Some (Inr (renames, merges))" using p r(1) by simp
  then show ?case using r(2,3) unfolding fst snd kb by (intro exI[of _ renames] exI[of _ merges]) auto
qed

lemma phi_placement_lemma:
  assumes fin: "finite (reached forward entry)" and pick: "\<And>A. finite A \<Longrightarrow> A \<noteq> {} \<Longrightarrow> pick A \<in> A"
    and mods: "\<forall>kb \<in> set mods. snd kb \<subseteq> reached forward entry"
  shows "\<exists>renames merges. phi_placement pick forward entry mods = Some (Inr (renames, merges)) \<and>
    (\<forall>k. k \<in> renames \<longleftrightarrow> (\<exists>n. k \<in> get_set merges n)) \<and>
    (\<forall>k n. k \<in> get_set merges n \<longleftrightarrow> (\<exists>S. (k, S) \<in> set mods \<and> n \<in> iterated_frontier forward entry S))"
proof -
  from dj_evaluate_lemma[OF fin] obtain nodes where e: "dj_evaluate [entry] forward = Some (Inr nodes)" by blast
  from place_keys[where s = "({}, Map.empty)", OF fin evaluated_idf[OF fin e] pick mods] obtain renames merges
    where r: "fold_run (place_key pick nodes) mods ({}, Map.empty) = Some (Inr (renames, merges))"
      "\<And>k. k \<in> renames \<longleftrightarrow> (\<exists>S. (k, S) \<in> set mods \<and> iterated_frontier forward entry S \<noteq> {})"
      "\<And>k n. k \<in> get_set merges n \<longleftrightarrow> (\<exists>S. (k, S) \<in> set mods \<and> n \<in> iterated_frontier forward entry S)"
    by auto
  have "phi_placement pick forward entry mods = Some (Inr (renames, merges))" using e r(1) by (simp add: phi_placement_def)
  then show ?thesis using r(2,3) by blast
qed

section \<open>Properties\<close>

text \<open>C10: The placement ends without an error in whatever order \<^verbatim>\<open>pending\<close> is emptied, and a variable gets a phi node
  exactly in the iterated dominance frontier of the blocks that assign it.\<close>

theorem phi_placement_correct:
  assumes "finite (reached forward entry)" and "\<And>A. finite A \<Longrightarrow> A \<noteq> {} \<Longrightarrow> pick A \<in> A"
    and "\<forall>kb \<in> set mods. snd kb \<subseteq> reached forward entry"
  shows "\<exists>renames merges. phi_placement pick forward entry mods = Some (Inr (renames, merges)) \<and>
    (\<forall>k. k \<in> renames \<longleftrightarrow> (\<exists>n. k \<in> get_set merges n)) \<and>
    (\<forall>k n. k \<in> get_set merges n \<longleftrightarrow> (\<exists>S. (k, S) \<in> set mods \<and> n \<in> iterated_frontier forward entry S))"
  by (rule phi_placement_lemma[OF assms])

text \<open>C8: After the placement a variable has a single definition at every node: of its assignments and its phi nodes
  at most one reaches the node, and it dominates it, which is what the renaming pass relies on.\<close>

theorem phi_placement_unique:
  assumes fin: "finite (reached forward entry)" and pick: "\<And>A. finite A \<Longrightarrow> A \<noteq> {} \<Longrightarrow> pick A \<in> A"
    and mods: "\<forall>kb \<in> set mods. snd kb \<subseteq> reached forward entry" "distinct (map fst mods)" "(k, S) \<in> set mods"
    and placed: "phi_placement pick forward entry mods = Some (Inr (renames, merges))"
    and defs: "defs = S \<union> {z. k \<in> get_set merges z}" and c: "reaching forward defs c n"
  shows "dominates forward entry c n \<and> (\<forall>d. reaching forward defs d n \<longrightarrow> d = c)"
proof -
  have "(k, T) \<in> set mods \<longleftrightarrow> T = S" for T
    using mods(2,3) eq_key_imp_eq_value by metis
  with phi_placement_lemma[OF fin pick mods(1)] placed
  have "{z. k \<in> get_set merges z} = iterated_frontier forward entry S" by auto
  with defs have D: "defs = S \<union> iterated_frontier forward entry S" by simp
  have closed: "dominance_frontier forward entry a \<subseteq> defs" if "a \<in> defs" for a
    using that iterated_frontier_step unfolding D by fast
  have reach: "defs \<subseteq> reached forward entry" using mods(1,3) iterated_frontier_reached unfolding D by fastforce
  from find_idoms_dict[OF fin] obtain idoms where dict: "idom_dict forward entry (map_of idoms)" by blast
  have "c \<in> reached forward entry" using c reach by (auto simp: reaching_def)
  with reaching_dominates[OF closed _ c] reaching_unique[OF dict closed reach _ c] show ?thesis by blast
qed

lemma two_entries_placed:
  "map_option (map_sum id (\<lambda>(renames, merges). (renames, map (get_set merges) [1, 2, 3, 4, 5])))
     (phi_placement Min two_entries 1 [(''x'', {1, 2}), (''y'', {1})]) =
   Some (Inr ({''x''}, [{}, {}, {''x''}, {''x''}, {}]))"
  by code_simp

lemma two_entries_all: "reached two_entries 1 = {1, 2, 3, 4, 5}"
proof -
  have 1: "1 \<in> reached two_entries 1" by (rule reached_root)
  then have 2: "2 \<in> reached two_entries 1" "3 \<in> reached two_entries 1"
    using reached_step[of 1 two_entries 1] by (simp_all add: two_entries_def)
  then have "4 \<in> reached two_entries 1" "5 \<in> reached two_entries 1"
    using reached_step[of 3 two_entries 1] by (simp_all add: two_entries_def)
  with 1 2 two_entries_reached show ?thesis by auto
qed

lemma two_entries_mods:
  "\<forall>kb \<in> set [(''x'', {1, 2}), (''y'', {1})]. snd kb \<subseteq> reached two_entries 1"
  unfolding two_entries_all by simp

lemma two_entries_merges:
  assumes p: "phi_placement Min two_entries 1 [(''x'', {1, 2}), (''y'', {1})] = Some (Inr (renames, merges))"
    and m: "\<And>k n. k \<in> get_set merges n \<longleftrightarrow>
      (\<exists>S. (k, S) \<in> set [(''x'', {1, 2}), (''y'', {1})] \<and> n \<in> iterated_frontier two_entries 1 S)"
  shows "{z. ''x'' \<in> get_set merges z} = {3, 4}" and "iterated_frontier two_entries 1 {1, 2} = {3, 4}"
proof -
  have e: "map (get_set merges) [1, 2, 3, 4, 5] = [{}, {}, {''x''}, {''x''}, {}]"
    using two_entries_placed unfolding p by simp
  have x: "''x'' \<in> get_set merges n \<longleftrightarrow> n \<in> iterated_frontier two_entries 1 {1, 2}" for n
    unfolding m by simp
  have "n \<in> {1, 2, 3, 4, 5}" if "''x'' \<in> get_set merges n" for n
    using that iterated_frontier_reached[of two_entries 1 "{1, 2}"] unfolding x two_entries_all by fast
  then have below: "n = 1 \<or> n = 2 \<or> n = 3 \<or> n = 4 \<or> n = 5" if "''x'' \<in> get_set merges n" for n
    using that by blast
  have at: "''x'' \<notin> get_set merges 1" "''x'' \<notin> get_set merges 2" "''x'' \<in> get_set merges 3" "''x'' \<in> get_set merges 4"
    "''x'' \<notin> get_set merges 5" using e by simp_all
  then have "''x'' \<in> get_set merges z \<longleftrightarrow> z = 3 \<or> z = 4" for z using below[of z] by metis
  then show xs: "{z. ''x'' \<in> get_set merges z} = {3, 4}" by blast
  from x have "iterated_frontier two_entries 1 {1, 2} = {z. ''x'' \<in> get_set merges z}" by blast
  with xs show "iterated_frontier two_entries 1 {1, 2} = {3, 4}" by simp
qed

text \<open>\<open>x\<close> is assigned in \<open>1\<close> and \<open>2\<close>: the loop of \<open>3\<close> and \<open>4\<close> needs a phi node at each of its entries.\<close>

theorem phi_placement_correct_witness:
  "iterated_frontier two_entries 1 {1, 2} = {3, 4}"
proof -
  obtain renames merges
    where "phi_placement Min two_entries 1 [(''x'', {1, 2}), (''y'', {1})] = Some (Inr (renames, merges))"
      "\<And>k n. k \<in> get_set merges n \<longleftrightarrow>
        (\<exists>S. (k, S) \<in> set [(''x'', {1, 2}), (''y'', {1})] \<and> n \<in> iterated_frontier two_entries 1 S)"
    using phi_placement_correct[OF two_entries_finite_reached Min_in two_entries_mods] by blast
  then show ?thesis by (rule two_entries_merges(2))
qed

theorem phi_placement_unique_witness:
  "dominates two_entries 1 3 5 \<and> {d. reaching two_entries {1, 2, 3, 4} d 5} = {3}"
proof -
  obtain renames merges
    where p: "phi_placement Min two_entries 1 [(''x'', {1, 2}), (''y'', {1})] = Some (Inr (renames, merges))"
      and m: "\<And>k n. k \<in> get_set merges n \<longleftrightarrow>
        (\<exists>S. (k, S) \<in> set [(''x'', {1, 2}), (''y'', {1})] \<and> n \<in> iterated_frontier two_entries 1 S)"
    using phi_placement_lemma[OF two_entries_finite_reached Min_in two_entries_mods] by blast
  have defs: "{1, 2, 3, 4} = {1, 2} \<union> {z. ''x'' \<in> get_set merges z}"
    unfolding two_entries_merges(1)[OF p m] by blast
  have "walk two_entries 3 [5]" by (simp add: two_entries_def)
  then have r: "reaching two_entries {1, 2, 3, 4} 3 5"
    unfolding reaching_def by (intro conjI exI[of _ "[5]"]) simp_all
  have "(''x'', {1, 2}) \<in> set [(''x'', {1, 2}), (''y'', {1})]" "distinct (map fst [(''x'', {1, 2}), (''y'', {1 :: nat})])"
    by simp_all
  from phi_placement_unique[OF two_entries_finite_reached Min_in two_entries_mods this(2,1) p defs r] r show ?thesis by blast
qed

end
