(* ===== verification/MergeSerialization.thy ===== *)
theory MergeSerialization
  imports PyBase "HOL-Library.AList"
begin

text \<open>
  \<^verbatim>\<open>util/graphalgorithim/merge.py\<close>: the simultaneous assignments of the phi nodes of a merge point become
  a sequence of assignments, with temporaries where they form a cycle. The attributes of
  \<^verbatim>\<open>MergeOptimizer\<close> are a record; the dict \<^verbatim>\<open>g\<close> is an association list from which \<^verbatim>\<open>pop\<close> takes entries.
  \<^verbatim>\<open>genTemp\<close> is a function with a state of its own. The limit of the host on recursion is not modelled.
\<close>

section \<open>The code\<close>

record ('n, 'g) merge_state =
  mo_gen :: 'g
  mo_g :: "('n \<times> 'n) list"
  mo_result :: "('n \<times> 'n) list"
  mo_temporaries :: "'n list"
  mo_remap :: "'n \<rightharpoonup> 'n"
  mo_current :: "'n set"

definition emit_transfer :: "'n \<Rightarrow> 'n \<Rightarrow> ('n, 'g) merge_state \<Rightarrow> ('n, 'g) merge_state" where
  "emit_transfer src dst s =
     s\<lparr>mo_result := mo_result s @ [(case mo_remap s src of None \<Rightarrow> src | Some t \<Rightarrow> t, dst)]\<rparr>"

definition save_node :: "('n \<Rightarrow> 'g \<Rightarrow> 'n \<times> 'g) \<Rightarrow> 'n \<Rightarrow> ('n, 'g) merge_state \<Rightarrow> ('n, 'g) merge_state" where
  "save_node gen node s =
     (if mo_remap s node \<noteq> None then s
      else case gen node (mo_gen s) of (t, g) \<Rightarrow>
        s\<lparr>mo_gen := g, mo_remap := (mo_remap s)(node \<mapsto> t), mo_temporaries := mo_temporaries s @ [t]\<rparr>)"

text \<open>What follows the visit of the source.\<close>

definition restore_node :: "'n \<Rightarrow> ('n, 'g) merge_state \<Rightarrow> ('n, 'g) merge_state" where
  "restore_node node s =
     (case mo_remap s node of
        None \<Rightarrow> s
      | Some t \<Rightarrow> s\<lparr>mo_result := mo_result s @ [(node, t)], mo_remap := (mo_remap s)(node := None)\<rparr>)"

definition leave_node :: "'n \<Rightarrow> 'n \<Rightarrow> ('n, 'g) merge_state \<Rightarrow> ('n, 'g) merge_state" where
  "leave_node src node s =
     (let s = restore_node node (emit_transfer src node s) in s\<lparr>mo_current := mo_current s - {node}\<rparr>)"

definition enter_node :: "'n \<Rightarrow> ('n, 'g) merge_state \<Rightarrow> ('n, 'g) merge_state" where
  "enter_node node s = s\<lparr>mo_g := AList.delete node (mo_g s), mo_current := insert node (mo_current s)\<rparr>"

function merge_visit :: "('n \<Rightarrow> 'g \<Rightarrow> 'n \<times> 'g) \<Rightarrow> 'n \<Rightarrow> ('n, 'g) merge_state \<Rightarrow> ('n, 'g) merge_state" where
  "merge_visit gen node s =
     (if node \<in> mo_current s then save_node gen node s
      else case map_of (mo_g s) node of
        None \<Rightarrow> s
      | Some src \<Rightarrow> leave_node src node (merge_visit gen src (enter_node node s)))"
  by pat_completeness auto
termination
proof (relation "measure (\<lambda>(gen, node, s). length (mo_g s))")
  fix gen :: "'n \<Rightarrow> 'g \<Rightarrow> 'n \<times> 'g" and node src :: 'n and s :: "('n, 'g) merge_state"
  assume "map_of (mo_g s) node = Some src"
  then have "(node, src) \<in> set (mo_g s)" by (rule map_of_SomeD)
  then have "length (AList.delete node (mo_g s)) < length (mo_g s)"
    unfolding AList.delete_eq by (rule length_filter_less) simp
  then show "((gen, src, enter_node node s), gen, node, s) \<in> measure (\<lambda>(gen, node, s). length (mo_g s))"
    by (simp add: enter_node_def)
qed simp

declare merge_visit.simps [simp del]

fun build_reverse_graph :: "('n \<times> 'n) list \<Rightarrow> ('n \<times> 'n) list \<Rightarrow> ('n \<times> 'n) list res" where
  "build_reverse_graph [] g = Inr g"
| "build_reverse_graph ((src, dst) # merges) g =
     (if map_of g dst \<noteq> None then Inl (OtherError ''MergeError'') else build_reverse_graph merges (g @ [(dst, src)]))"

definition merge_process ::
  "('n \<Rightarrow> 'g \<Rightarrow> 'n \<times> 'g) \<Rightarrow> 'g \<Rightarrow> ('n \<times> 'n) list \<Rightarrow> ('n, 'g) merge_state res" where
  "merge_process gen st merges =
     bind_res (build_reverse_graph merges [])
       (\<lambda>g. let s = \<lparr>mo_gen = st, mo_g = g, mo_result = [], mo_temporaries = [], mo_remap = Map.empty, mo_current = {}\<rparr>;
                s = fold (merge_visit gen) (rev (map snd merges)) s
            in Inr (s\<lparr>mo_result := rev (mo_result s)\<rparr>))"

definition serialize_merges ::
  "('n \<Rightarrow> 'g \<Rightarrow> 'n \<times> 'g) \<Rightarrow> 'g \<Rightarrow> ('n \<times> 'n) list \<Rightarrow> (('n \<times> 'n) list \<times> 'n list) res" where
  "serialize_merges gen st merges =
     bind_res (merge_process gen st merges) (\<lambda>s. Inr (mo_result s, mo_temporaries s))"

text \<open>\<^verbatim>\<open>ir/cfg/expandphi.py\<close>: the statements that \<open>visitMerge\<close> puts on the \<open>i\<close>-th edge into a merge block, an
  assignment for each pair. An argument is \<open>None\<close> where the variable has no value on that edge.\<close>

record 'n phi_node =
  phi_arguments :: "'n option list"
  phi_target :: 'n

definition phi_transfer :: "'n phi_node list \<Rightarrow> nat \<Rightarrow> ('n \<times> 'n) list res" where
  "phi_transfer phis i =
     (if \<exists>phi \<in> set phis. length (phi_arguments phi) \<le> i then Inl (OtherError ''IndexError'')
      else Inr (map (\<lambda>phi. (the (phi_arguments phi ! i), phi_target phi))
                  (filter (\<lambda>phi. phi_arguments phi ! i \<noteq> None) phis)))"

definition phi_edge ::
  "('n \<Rightarrow> 'g \<Rightarrow> 'n \<times> 'g) \<Rightarrow> 'g \<Rightarrow> 'n phi_node list \<Rightarrow> nat \<Rightarrow> (('n \<times> 'n) list \<times> 'n list) res" where
  "phi_edge gen st phis i =
     bind_res (phi_transfer phis i)
       (\<lambda>transfer. if transfer = [] then Inr ([], []) else serialize_merges gen st transfer)"

section \<open>Assignments\<close>

text \<open>Assignments one after the other, and all at once.\<close>

definition assign_move :: "'n \<times> 'n \<Rightarrow> ('n \<Rightarrow> 'v) \<Rightarrow> 'n \<Rightarrow> 'v" where
  "assign_move move store = store(snd move := store (fst move))"

definition run_moves :: "('n \<times> 'n) list \<Rightarrow> ('n \<Rightarrow> 'v) \<Rightarrow> 'n \<Rightarrow> 'v" where
  "run_moves moves store = fold assign_move moves store"

definition assign_together :: "('n \<times> 'n) list \<Rightarrow> ('n \<Rightarrow> 'v) \<Rightarrow> 'n \<Rightarrow> 'v" where
  "assign_together merges store v =
     (case map_of (map (\<lambda>(src, dst). (dst, src)) merges) v of None \<Rightarrow> store v | Some src \<Rightarrow> store src)"

text \<open>The result is built from its end: what is emitted later runs earlier.\<close>

lemma run_moves_emitted:
  "run_moves (rev (ms @ ns)) store = run_moves (rev ms) (run_moves (rev ns) store)"
  by (simp add: run_moves_def)

lemma run_moves_simps [simp]:
  "run_moves [] store = store"
  "run_moves (m # moves) store = run_moves moves (assign_move m store)"
  by (simp_all add: run_moves_def)

section \<open>A visit\<close>

text \<open>The name under which the value of a node can be read: its temporary when it has been saved.\<close>

definition name_now :: "('n \<rightharpoonup> 'n) \<Rightarrow> 'n \<Rightarrow> 'n" where
  "name_now remap x = (case remap x of None \<Rightarrow> x | Some t \<Rightarrow> t)"

text \<open>What a visit does, as a relation between its states: it takes the entries \<open>D\<close> from the graph and emits
  \<open>new\<close>, after which every node of \<open>D\<close> holds the value its source had (or its temporary has, when the source is
  still being processed), and nothing else has changed but the temporaries \<open>ts\<close>.\<close>

definition effect_of ::
  "('n \<rightharpoonup> 'n) \<Rightarrow> ('n \<rightharpoonup> 'n) \<Rightarrow> 'n set \<Rightarrow> 'n list \<Rightarrow> ('n \<times> 'n) list \<Rightarrow> ('n \<Rightarrow> 'v) \<Rightarrow> bool" where
  "effect_of G remap D ts new store \<longleftrightarrow>
     (\<forall>v. (v \<in> D \<longrightarrow> run_moves (rev new) store v = store (name_now remap (the (G v)))) \<and>
          (v \<notin> D \<longrightarrow> v \<notin> set ts \<longrightarrow> run_moves (rev new) store v = store v))"

definition visit_effect ::
  "('n \<rightharpoonup> 'n) \<Rightarrow> 'n \<Rightarrow> ('n, 'g) merge_state \<Rightarrow> ('n, 'g) merge_state \<Rightarrow> 'n set \<Rightarrow> 'n list \<Rightarrow> ('n \<times> 'n) list \<Rightarrow> bool" where
  "visit_effect G node s s' D ts new \<longleftrightarrow>
     mo_result s' = mo_result s @ new \<and> mo_temporaries s' = mo_temporaries s @ ts \<and>
     mo_current s' = mo_current s \<and> map_of (mo_g s') = map_of (mo_g s) |` (- D) \<and> D \<subseteq> dom (map_of (mo_g s)) \<and>
     node \<notin> dom (map_of (mo_g s')) \<and> (node \<in> mo_current s \<longrightarrow> node \<in> dom (mo_remap s')) \<and>
     (mo_remap s' = Map.empty \<or> (\<exists>c t. mo_remap s' = [c \<mapsto> t] \<and> c \<in> mo_current s \<and> t \<in> set ts)) \<and>
     (\<forall>v \<in> D. the (G v) \<notin> dom (map_of (mo_g s'))) \<and>
     (\<forall>v \<in> D. the (G v) \<in> mo_current s \<longrightarrow> the (G v) \<in> dom (mo_remap s')) \<and>
     length new + card (dom (mo_remap s')) = card D + length ts"

lemma visit_effectD:
  assumes "visit_effect G node s s' D ts new"
  shows "mo_result s' = mo_result s @ new" and "mo_temporaries s' = mo_temporaries s @ ts"
    and "mo_current s' = mo_current s" and "map_of (mo_g s') = map_of (mo_g s) |` (- D)"
    and "D \<subseteq> dom (map_of (mo_g s))" and "node \<notin> dom (map_of (mo_g s'))"
    and "node \<in> mo_current s \<Longrightarrow> node \<in> dom (mo_remap s')"
    and "mo_remap s' = Map.empty \<or> (\<exists>c t. mo_remap s' = [c \<mapsto> t] \<and> c \<in> mo_current s \<and> t \<in> set ts)"
    and "\<And>v. v \<in> D \<Longrightarrow> the (G v) \<notin> dom (map_of (mo_g s'))"
    and "\<And>v. v \<in> D \<Longrightarrow> the (G v) \<in> mo_current s \<Longrightarrow> the (G v) \<in> dom (mo_remap s')"
    and "length new + card (dom (mo_remap s')) = card D + length ts"
  using assms unfolding visit_effect_def by auto

lemma finite_taken: "visit_effect G node s s' D ts new \<Longrightarrow> finite D"
  using visit_effectD(5) finite_dom_map_of finite_subset by metis

lemma leave_node_fields:
  shows "mo_result (leave_node src node s) =
      mo_result s @ (name_now (mo_remap s) src, node) #
        (case mo_remap s node of None \<Rightarrow> [] | Some t \<Rightarrow> [(node, t)])"
    and "mo_remap (leave_node src node s) = (mo_remap s)(node := None)"
    and "mo_temporaries (leave_node src node s) = mo_temporaries s"
    and "mo_g (leave_node src node s) = mo_g s"
    and "mo_current (leave_node src node s) = mo_current s - {node}"
  by (auto simp: leave_node_def restore_node_def emit_transfer_def name_now_def Let_def split: option.splits)

lemma enter_node_fields:
  shows "mo_result (enter_node node s) = mo_result s" and "mo_remap (enter_node node s) = mo_remap s"
    and "mo_temporaries (enter_node node s) = mo_temporaries s"
    and "map_of (mo_g (enter_node node s)) = (map_of (mo_g s)) (node := None)"
    and "mo_current (enter_node node s) = insert node (mo_current s)"
  by (simp_all add: enter_node_def delete_conv')

text \<open>The effect of a visit passes through the node it was made for, in the three cases of \<open>leave_node\<close>: nothing
  is saved, another node is, or this one is.\<close>

lemma effect_of_leave:
  assumes IH: "\<And>store. effect_of G remap D ts new (store :: 'n \<Rightarrow> 'v)"
    and one: "remap = Map.empty \<or> (\<exists>c t. remap = [c \<mapsto> t] \<and> t \<in> set ts)"
    and fresh: "set ts \<inter> V = {}" "node \<in> V" "ran G \<subseteq> V" "insert node D \<subseteq> dom G"
    and node: "G node = Some src" "node \<notin> D"
    and saved: "\<And>v. v \<in> D \<Longrightarrow> the (G v) = node \<Longrightarrow> node \<in> dom remap" "src = node \<Longrightarrow> node \<in> dom remap"
  shows "effect_of G (remap(node := None)) (insert node D) ts
    (new @ (name_now remap src, node) # (case remap node of None \<Rightarrow> [] | Some t \<Rightarrow> [(node, t)])) (store :: 'n \<Rightarrow> 'v)"
proof -
  have src: "the (G v) \<in> V" if "v \<in> insert node D" for v
  proof -
    from that fresh(4) obtain x where "G v = Some x" by blast
    then show ?thesis using fresh(3) by (auto intro: ranI)
  qed
  have IH1: "run_moves (rev new) st v = st (name_now remap (the (G v)))" if "v \<in> D" for v and st :: "'n \<Rightarrow> 'v"
    using IH that by (simp add: effect_of_def)
  have IH2: "run_moves (rev new) st v = st v" if "v \<notin> D" "v \<notin> set ts" for v and st :: "'n \<Rightarrow> 'v"
    using IH that by (simp add: effect_of_def)
  have nt: "node \<notin> set ts" "src \<notin> set ts" using fresh src[of node] node by auto
  show ?thesis
  proof (cases "remap node")
    case None
    have "run_moves (rev (new @ [(name_now remap src, node)])) store v =
        (if v \<in> insert node D then store (name_now remap (the (G v))) else store v)"
      if "v \<notin> set ts \<or> v \<in> D" for v
    proof (cases "v \<in> D")
      case True
      have "name_now remap (the (G v)) \<noteq> node"
        using one saved(1)[OF True] None nt by (auto simp: name_now_def split: option.splits if_splits)
      with True show ?thesis by (simp add: IH1 assign_move_def)
    next
      case False
      with that node nt show ?thesis by (simp add: IH2 assign_move_def)
    qed
    moreover have "remap(node := None) = remap" using None by (simp add: fun_upd_idem)
    ultimately show ?thesis using None nt by (auto simp: effect_of_def)
  next
    case (Some t)
    with one have r: "remap = [node \<mapsto> t]" and t: "t \<in> set ts" by (auto split: if_splits)
    have tn: "t \<noteq> node" "t \<noteq> src" using nt t by auto
    have "run_moves (rev (new @ [(name_now remap src, node), (node, t)])) store v =
        (if v \<in> insert node D then store (the (G v)) else store v)"
      if "v \<notin> set ts \<or> v \<in> D" for v
    proof (cases "v \<in> D")
      case True
      have "the (G v) \<noteq> t" using src[of v] True fresh(1) t by auto
      with True tn show ?thesis
        by (cases "the (G v) = node") (simp_all add: IH1 assign_move_def name_now_def r)
    next
      case False
      with that node nt t tn show ?thesis
        by (cases "src = node") (auto simp: IH2 assign_move_def name_now_def r)
    qed
    with Some r nt fresh(1,4) show ?thesis by (auto simp: effect_of_def name_now_def)
  qed
qed

lemma visit_effect_leave:
  assumes e: "visit_effect G src (enter_node node s) s' D ts new"
    and node: "node \<notin> mo_current s" "map_of (mo_g s) node = Some src" "G node = Some src"
  shows "visit_effect G node s (leave_node src node s') (insert node D) ts
    (new @ (name_now (mo_remap s') src, node) # (case mo_remap s' node of None \<Rightarrow> [] | Some t \<Rightarrow> [(node, t)]))"
proof -
  note E = visit_effectD[OF e, unfolded enter_node_fields]
  have D: "node \<notin> D" "D \<subseteq> dom (map_of (mo_g s))" using E(5) by auto
  have g: "map_of (mo_g s') = map_of (mo_g s) |` (- insert node D)"
    unfolding E(4) by (auto simp: fun_eq_iff restrict_map_def)
  have len: "length (new @ (name_now (mo_remap s') src, node) #
      (case mo_remap s' node of None \<Rightarrow> [] | Some t \<Rightarrow> [(node, t)])) + card (dom ((mo_remap s')(node := None))) =
      card (insert node D) + length ts"
    using E(8,11) D(1) finite_taken[OF e] by (auto simp: insert_Diff_if split: option.splits if_splits)
  have one: "(mo_remap s')(node := None) = Map.empty \<or>
      (\<exists>c t. (mo_remap s')(node := None) = [c \<mapsto> t] \<and> c \<in> mo_current s \<and> t \<in> set ts)"
    using E(8)
  proof (elim disjE exE conjE)
    fix c t assume "mo_remap s' = [c \<mapsto> t]" "c \<in> insert node (mo_current s)" "t \<in> set ts"
    then show ?thesis by (cases "c = node") auto
  qed simp
  have sources: "the (G v) \<notin> dom (map_of (mo_g s'))" if "v \<in> insert node D" for v
    using that E(6) E(9) node(3) by (cases "v = node") auto
  have saved: "the (G v) \<in> dom ((mo_remap s')(node := None))"
    if "v \<in> insert node D" "the (G v) \<in> mo_current s" for v
  proof -
    from that have "the (G v) \<in> dom (mo_remap s')"
      using E(7) E(10) node(3) by (cases "v = node") auto
    with that(2) node(1) show ?thesis by auto
  qed
  show ?thesis
    unfolding visit_effect_def leave_node_fields
    using E(1-3) D node domI[of "map_of (mo_g s)", OF node(2)] len one sources saved by (simp add: g)
qed

text \<open>A visit made while nothing is saved, with the nodes being processed out of the graph.\<close>

lemma visit_correct:
  fixes s :: "('n, 'g) merge_state"
  assumes "mo_remap s = Map.empty" and "mo_current s \<inter> dom (map_of (mo_g s)) = {}"
    and "map_of (mo_g s) \<subseteq>\<^sub>m G" and "dom G \<union> ran G \<subseteq> V"
  shows "\<exists>D ts new. visit_effect G node s (merge_visit gen node s) D ts new \<and>
    (set ts \<inter> V = {} \<longrightarrow> (\<forall>store :: 'n \<Rightarrow> 'v. effect_of G (mo_remap (merge_visit gen node s)) D ts new store))"
  using assms
proof (induction gen node s rule: merge_visit.induct)
  case (1 gen node s)
  show ?case
  proof (cases "node \<in> mo_current s")
    case True
    then have v: "merge_visit gen node s = save_node gen node s" by (simp add: merge_visit.simps)
    obtain t g where gen: "gen node (mo_gen s) = (t, g)" by fastforce
    have "visit_effect G node s (merge_visit gen node s) {} [t] []"
      using True "1.prems"(1,2) unfolding v by (auto simp: visit_effect_def save_node_def gen)
    then show ?thesis by (fastforce simp: effect_of_def)
  next
    case False
    show ?thesis
    proof (cases "map_of (mo_g s) node")
      case None
      with False have v: "merge_visit gen node s = s" by (simp add: merge_visit.simps)
      have "visit_effect G node s (merge_visit gen node s) {} [] []"
        using None False "1.prems"(1) unfolding v by (auto simp: visit_effect_def)
      then show ?thesis by (fastforce simp: effect_of_def)
    next
      case (Some src)
      let ?s = "merge_visit gen src (enter_node node s)"
      have v: "merge_visit gen node s = leave_node src node ?s"
        using False Some by (subst merge_visit.simps) simp
      have G: "G node = Some src" using Some "1.prems"(3) by (auto simp: map_le_def dom_def)
      have "\<exists>D ts new. visit_effect G src (enter_node node s) ?s D ts new \<and>
          (set ts \<inter> V = {} \<longrightarrow> (\<forall>store :: 'n \<Rightarrow> 'v. effect_of G (mo_remap ?s) D ts new store))"
      proof (rule "1.IH"[OF False Some])
        show "mo_current (enter_node node s) \<inter> dom (map_of (mo_g (enter_node node s))) = {}"
          using "1.prems"(2) by (auto simp: enter_node_fields)
        show "map_of (mo_g (enter_node node s)) \<subseteq>\<^sub>m G"
          using "1.prems"(3) by (auto simp: enter_node_fields map_le_def)
      qed (use "1.prems"(1,4) in \<open>simp_all add: enter_node_fields\<close>)
      then obtain D ts new where e: "visit_effect G src (enter_node node s) ?s D ts new"
        and eff: "set ts \<inter> V = {} \<Longrightarrow> effect_of G (mo_remap ?s) D ts new store" for store :: "'n \<Rightarrow> 'v"
        by blast
      let ?new = "new @ (name_now (mo_remap ?s) src, node) # (case mo_remap ?s node of None \<Rightarrow> [] | Some t \<Rightarrow> [(node, t)])"
      note E = visit_effectD[OF e, unfolded enter_node_fields]
      have "effect_of G (mo_remap (leave_node src node ?s)) (insert node D) ts ?new (store :: 'n \<Rightarrow> 'v)"
        if fresh: "set ts \<inter> V = {}" for store
        unfolding leave_node_fields
      proof (rule effect_of_leave[OF eff[OF fresh]])
        show "insert node D \<subseteq> dom G" using E(5) "1.prems"(3) G map_le_implies_dom_le by fastforce
        show "\<And>v. v \<in> D \<Longrightarrow> the (G v) = node \<Longrightarrow> node \<in> dom (mo_remap ?s)" using E(10) by blast
        show "src = node \<Longrightarrow> node \<in> dom (mo_remap ?s)" using E(7) by blast
        show "node \<notin> D" using E(5) by auto
        show "mo_remap ?s = Map.empty \<or> (\<exists>c t. mo_remap ?s = [c \<mapsto> t] \<and> t \<in> set ts)" using E(8) by blast
      qed (use fresh G "1.prems"(4) in auto)
      with visit_effect_leave[OF e False Some G] show ?thesis unfolding v by blast
    qed
  qed
qed

section \<open>All visits\<close>

abbreviation swapped :: "('n \<times> 'n) list \<Rightarrow> ('n \<times> 'n) list" where
  "swapped merges \<equiv> map (\<lambda>(src, dst). (dst, src)) merges"

lemma build_reverse_graph_eq:
  "build_reverse_graph merges g =
     (if distinct (map snd merges) \<and> set (map snd merges) \<inter> dom (map_of g) = {}
      then Inr (g @ swapped merges) else Inl (OtherError ''MergeError''))"
  by (induction merges g rule: build_reverse_graph.induct) (auto simp: dom_def split: if_splits)

text \<open>Between two visits: the nodes of \<open>Done\<close> have been taken from the graph, and their moves are right.\<close>

definition serialized_up_to :: "('n \<rightharpoonup> 'n) \<Rightarrow> 'n set \<Rightarrow> 'n set \<Rightarrow> 'v itself \<Rightarrow> ('n, 'g) merge_state \<Rightarrow> bool" where
  "serialized_up_to G V Done (_ :: 'v itself) s \<longleftrightarrow>
     mo_remap s = Map.empty \<and> mo_current s = {} \<and> map_of (mo_g s) = G |` (- Done) \<and> Done \<subseteq> dom G \<and>
     (\<forall>v \<in> Done. the (G v) \<notin> dom (map_of (mo_g s))) \<and>
     length (mo_result s) = card Done + length (mo_temporaries s) \<and>
     (set (mo_temporaries s) \<inter> V = {} \<longrightarrow>
        (\<forall>store :: 'n \<Rightarrow> 'v. effect_of G Map.empty Done (mo_temporaries s) (mo_result s) store))"

lemma effect_of_append:
  assumes "effect_of G Map.empty Done ts moves (run_moves (rev new) store :: 'n \<Rightarrow> 'v)"
    and "effect_of G Map.empty D us new store"
    and "D \<inter> Done = {}" and "\<And>v. v \<in> Done \<Longrightarrow> the (G v) \<notin> D"
    and "D \<union> Done \<subseteq> dom G" and "dom G \<union> ran G \<subseteq> V" and "set (ts @ us) \<inter> V = {}"
  shows "effect_of G Map.empty (Done \<union> D) (ts @ us) (moves @ new) store"
proof -
  have sources: "the (G v) \<notin> set us" if "v \<in> Done" for v
  proof -
    from that assms(5) obtain x where "G v = Some x" by blast
    then have "the (G v) \<in> V" using assms(6) by (auto intro: ranI)
    with assms(7) show ?thesis by auto
  qed
  have free: "v \<notin> set ts" if "v \<in> D" for v
  proof -
    have "v \<in> V" using that assms(5,6) by blast
    with assms(7) show ?thesis by auto
  qed
  show ?thesis
    using assms(1-4) sources free
    unfolding effect_of_def run_moves_emitted name_now_def by (auto simp: disjoint_iff)
qed

lemma serialized_visit:
  fixes s :: "('n, 'g) merge_state"
  assumes inv: "serialized_up_to G V Done TYPE('v) s" and V: "dom G \<union> ran G \<subseteq> V" and fin: "finite (dom G)"
  shows "\<exists>Done'. serialized_up_to G V Done' TYPE('v) (merge_visit gen node s) \<and> Done \<subseteq> Done' \<and>
    (node \<in> dom G \<longrightarrow> node \<in> Done')"
proof -
  note I = inv[unfolded serialized_up_to_def]
  let ?s = "merge_visit gen node s"
  have "map_of (mo_g s) \<subseteq>\<^sub>m G" using I by (auto simp: map_le_def)
  moreover have "mo_current s \<inter> dom (map_of (mo_g s)) = {}" "mo_remap s = Map.empty" using I by simp_all
  ultimately obtain D ts new where e: "visit_effect G node s ?s D ts new"
    and eff: "set ts \<inter> V = {} \<Longrightarrow> effect_of G (mo_remap ?s) D ts new store" for store :: "'n \<Rightarrow> 'v"
    using V visit_correct[where s = s and G = G and V = V and node = node and gen = gen and ?'v = 'v] by blast
  note E = visit_effectD[OF e]
  have remap: "mo_remap ?s = Map.empty" using E(8) I by auto
  have g: "map_of (mo_g ?s) = G |` (- (Done \<union> D))"
    using E(4) I by (auto simp: restrict_map_def fun_eq_iff)
  have D: "D \<subseteq> dom G" "D \<inter> Done = {}" using E(5) I by auto
  have old: "the (G v) \<notin> D" if "v \<in> Done" for v using that I E(5) by blast
  have fins: "finite D" "finite Done" using D(1) I fin by (auto intro: finite_subset)
  have "card (Done \<union> D) = card Done + card D" using fins D(2) by (subst card_Un_disjoint) auto
  with E(11) I remap have len: "length (mo_result ?s) = card (Done \<union> D) + length (mo_temporaries ?s)"
    unfolding E(1,2) by simp
  have sources: "the (G v) \<notin> dom (map_of (mo_g ?s))" if "v \<in> Done \<union> D" for v
    using that E(9) I g by auto
  have "effect_of G Map.empty (Done \<union> D) (mo_temporaries ?s) (mo_result ?s) store"
    if "set (mo_temporaries ?s) \<inter> V = {}" for store :: "'n \<Rightarrow> 'v"
    unfolding E(1,2)
  proof (rule effect_of_append[OF _ _ D(2) old _ V])
    show "set (mo_temporaries s @ ts) \<inter> V = {}" using that E(2) by simp
    then show "effect_of G Map.empty D ts new store" using eff remap by auto
    show "effect_of G Map.empty Done (mo_temporaries s) (mo_result s) (run_moves (rev new) store)"
      using I that E(2) by auto
  qed (use D I in auto)
  then have "serialized_up_to G V (Done \<union> D) TYPE('v) ?s"
    unfolding serialized_up_to_def using remap E(3) I g D len sources by auto
  moreover have "node \<in> Done \<union> D" if "node \<in> dom G" using that E(6) g by auto
  ultimately show ?thesis by blast
qed

lemma serialized_visits:
  fixes s :: "('n, 'g) merge_state"
  assumes "serialized_up_to G V Done TYPE('v) s" and V: "dom G \<union> ran G \<subseteq> V" and fin: "finite (dom G)"
  shows "\<exists>Done'. serialized_up_to G V Done' TYPE('v) (fold (merge_visit gen) nodes s) \<and> Done \<subseteq> Done' \<and>
    set nodes \<inter> dom G \<subseteq> Done'"
  using assms(1)
proof (induction nodes arbitrary: s Done)
  case Nil
  then show ?case by auto
next
  case (Cons node nodes)
  from serialized_visit[OF Cons.prems V fin] obtain Done1
    where 1: "serialized_up_to G V Done1 TYPE('v) (merge_visit gen node s)" "Done \<subseteq> Done1" "node \<in> dom G \<longrightarrow> node \<in> Done1"
    by blast
  from Cons.IH[OF 1(1)] obtain Done2
    where "serialized_up_to G V Done2 TYPE('v) (fold (merge_visit gen) nodes (merge_visit gen node s))" "Done1 \<subseteq> Done2"
      "set nodes \<inter> dom G \<subseteq> Done2"
    by blast
  with 1 show ?case by (intro exI[of _ Done2]) auto
qed

text \<open>A temporary is made only when a node is met that is being processed: the chain of its sources has come back.\<close>

lemma visit_acyclic:
  assumes "\<And>c. c \<in> mo_current s \<Longrightarrow> (node, c) \<in> R\<^sup>+"
    and "\<And>dst src. map_of (mo_g s) dst = Some src \<Longrightarrow> (src, dst) \<in> R" and "acyclic R"
  shows "mo_temporaries (merge_visit gen node s) = mo_temporaries s \<and>
    (\<forall>dst src. map_of (mo_g (merge_visit gen node s)) dst = Some src \<longrightarrow> (src, dst) \<in> R) \<and>
    mo_current (merge_visit gen node s) \<subseteq> mo_current s"
  using assms
proof (induction gen node s rule: merge_visit.induct)
  case (1 gen node s)
  have free: "node \<notin> mo_current s" using "1.prems"(1,3) by (auto simp: acyclic_def)
  show ?case
  proof (cases "map_of (mo_g s) node")
    case None
    with free "1.prems"(2) show ?thesis by (simp add: merge_visit.simps)
  next
    case (Some src)
    let ?s = "merge_visit gen src (enter_node node s)"
    have v: "merge_visit gen node s = leave_node src node ?s"
      using free Some by (subst merge_visit.simps) simp
    have edge: "(src, node) \<in> R" using "1.prems"(2)[OF Some] .
    have "mo_temporaries ?s = mo_temporaries (enter_node node s) \<and>
        (\<forall>dst src. map_of (mo_g ?s) dst = Some src \<longrightarrow> (src, dst) \<in> R) \<and>
        mo_current ?s \<subseteq> mo_current (enter_node node s)"
    proof (rule "1.IH"[OF free Some])
      show "(src, c) \<in> R\<^sup>+" if "c \<in> mo_current (enter_node node s)" for c
        using that "1.prems"(1) edge by (auto simp: enter_node_fields intro: trancl_trans)
      show "(src, dst) \<in> R" if "map_of (mo_g (enter_node node s)) dst = Some src" for dst src
        using that "1.prems"(2) by (simp add: enter_node_fields split: if_splits)
    qed (rule "1.prems"(3))
    with free show ?thesis unfolding v by (auto simp: leave_node_fields enter_node_fields)
  qed
qed

lemma visits_acyclic:
  assumes "mo_current s = {}" and "\<And>dst src. map_of (mo_g s) dst = Some src \<Longrightarrow> (src, dst) \<in> R" and "acyclic R"
  shows "mo_temporaries (fold (merge_visit gen) nodes s) = mo_temporaries s"
  using assms(1,2)
proof (induction nodes arbitrary: s)
  case (Cons node nodes)
  have "mo_temporaries (merge_visit gen node s) = mo_temporaries s \<and>
      (\<forall>dst src. map_of (mo_g (merge_visit gen node s)) dst = Some src \<longrightarrow> (src, dst) \<in> R) \<and>
      mo_current (merge_visit gen node s) \<subseteq> mo_current s"
    using Cons.prems assms(3) by (intro visit_acyclic) auto
  with Cons.IH[of "merge_visit gen node s"] Cons.prems(1) show ?case by simp
qed simp

section \<open>Properties\<close>

definition merge_init :: "'g \<Rightarrow> ('n \<times> 'n) list \<Rightarrow> ('n, 'g) merge_state" where
  "merge_init st g = \<lparr>mo_gen = st, mo_g = g, mo_result = [], mo_temporaries = [], mo_remap = Map.empty, mo_current = {}\<rparr>"

lemma serialize_merges_eq:
  "serialize_merges gen st merges =
     (if distinct (map snd merges)
      then (let s = fold (merge_visit gen) (rev (map snd merges)) (merge_init st (swapped merges))
            in Inr (rev (mo_result s), mo_temporaries s))
      else Inl (OtherError ''MergeError''))"
  by (simp add: serialize_merges_def merge_process_def build_reverse_graph_eq merge_init_def Let_def)

lemma swapped_facts:
  assumes "distinct (map snd merges)"
  shows "dom (map_of (swapped merges)) = set (map snd merges)"
    and "ran (map_of (swapped merges)) \<subseteq> set (map fst merges)"
    and "map_of (swapped merges) dst = Some src \<longleftrightarrow> (src, dst) \<in> set merges"
proof -
  have d: "distinct (map fst (swapped merges))" using assms by (simp add: comp_def case_prod_beta')
  show "dom (map_of (swapped merges)) = set (map snd merges)" by (force simp: dom_map_of_conv_image_fst)
  show "map_of (swapped merges) dst = Some src \<longleftrightarrow> (src, dst) \<in> set merges"
    using map_of_eq_Some_iff[OF d] by force
  show "ran (map_of (swapped merges)) \<subseteq> set (map fst merges)"
    by (auto simp: ran_def dest!: map_of_SomeD intro: rev_image_eqI)
qed

lemma serialize_merges_correct_lemma:
  fixes store :: "'n \<Rightarrow> 'v"
  assumes "serialize_merges gen st merges = Inr (moves, temps)"
    and "set temps \<inter> (set (map fst merges) \<union> set (map snd merges)) = {}"
  shows "(\<forall>v. v \<notin> set temps \<longrightarrow> run_moves moves store v = assign_together merges store v) \<and>
    length moves = length merges + length temps"
proof -
  let ?G = "map_of (swapped merges)" and ?V = "set (map fst merges) \<union> set (map snd merges)"
  let ?s = "fold (merge_visit gen) (rev (map snd merges)) (merge_init st (swapped merges))"
  have d: "distinct (map snd merges)"
    using assms(1) by (auto simp: serialize_merges_eq split: if_splits)
  with assms(1) have r: "moves = rev (mo_result ?s)" "temps = mo_temporaries ?s"
    by (simp_all add: serialize_merges_eq Let_def)
  note G = swapped_facts[OF d]
  have V: "dom ?G \<union> ran ?G \<subseteq> ?V" using G(1,2) by blast
  have "serialized_up_to ?G ?V {} TYPE('v) (merge_init st (swapped merges))"
    by (simp add: serialized_up_to_def merge_init_def effect_of_def restrict_map_def)
  from serialized_visits[OF this V finite_dom_map_of, of gen "rev (map snd merges)"]
  obtain Done where i: "serialized_up_to ?G ?V Done TYPE('v) ?s" and D: "set (map snd merges) \<inter> dom ?G \<subseteq> Done"
    by auto
  note I = i[unfolded serialized_up_to_def]
  have Done: "Done = set (map snd merges)" using I D G(1) by auto
  have "card Done = length merges" using distinct_card[OF d] Done by simp
  then have len: "length moves = length merges + length temps" using I r by simp
  have "run_moves moves store v = assign_together merges store v" if "v \<notin> set temps" for v
  proof -
    have eff: "effect_of ?G Map.empty Done temps (mo_result ?s) store" using I assms(2) r by auto
    show ?thesis
    proof (cases "?G v")
      case None
      then have "v \<notin> Done" using Done G(1) by blast
      with eff that None r show ?thesis by (simp add: effect_of_def assign_together_def)
    next
      case (Some src)
      then have "v \<in> Done" using Done G(1) by blast
      with eff Some r show ?thesis by (simp add: effect_of_def assign_together_def name_now_def)
    qed
  qed
  with len show ?thesis by blast
qed

lemma serialize_merges_returns_lemma:
  "(case serialize_merges gen st merges of
      Inl e \<Rightarrow> e = OtherError ''MergeError'' \<and> \<not> distinct (map snd merges)
    | Inr (moves, temps) \<Rightarrow> distinct (map snd merges) \<and> (temps = [] \<or> \<not> acyclic (set merges)))"
proof -
  have "mo_temporaries (fold (merge_visit gen) (rev (map snd merges)) (merge_init st (swapped merges))) = []"
    if "distinct (map snd merges)" "acyclic (set merges)"
    using visits_acyclic[of "merge_init st (swapped merges)" "set merges"] swapped_facts(3)[OF that(1)] that(2)
    by (simp add: merge_init_def)
  then show ?thesis by (auto simp: serialize_merges_eq Let_def)
qed

text \<open>C18: the moves in sequence do to every variable what the merges do at once, as long as the temporaries are not
  variables of the merges; there is one move for each merge and one for each temporary.\<close>

theorem serialize_merges_correct:
  fixes store :: "'n \<Rightarrow> 'v"
  assumes "serialize_merges gen st merges = Inr (moves, temps)"
    and "set temps \<inter> (set (map fst merges) \<union> set (map snd merges)) = {}"
  shows "(\<forall>v. v \<notin> set temps \<longrightarrow> run_moves moves store v = assign_together merges store v) \<and>
    length moves = length merges + length temps"
  using assms by (rule serialize_merges_correct_lemma)

lemma serialize_swap:
  "serialize_merges (\<lambda>n g. (''t'' @ n, g)) () [(''y'', ''x''), (''x'', ''y''), (''x'', ''z'')] =
     Inr ([(''x'', ''z''), (''x'', ''tx''), (''y'', ''x''), (''tx'', ''y'')], [''tx''])"
  by code_simp

theorem serialize_merges_correct_witness:
  "\<forall>store :: string \<Rightarrow> int.
     run_moves [(''x'', ''z''), (''x'', ''tx''), (''y'', ''x''), (''tx'', ''y'')] store ''y'' = store ''x''"
proof
  fix store :: "string \<Rightarrow> int"
  have "set [''tx''] \<inter> (set (map fst [(''y'', ''x''), (''x'', ''y''), (''x'', ''z'')]) \<union>
      set (map snd [(''y'', ''x''), (''x'', ''y''), (''x'', ''z'')])) = {}"
    by simp
  from serialize_merges_correct[OF serialize_swap this, of store]
  have "run_moves [(''x'', ''z''), (''x'', ''tx''), (''y'', ''x''), (''tx'', ''y'')] store ''y'' =
      assign_together [(''y'', ''x''), (''x'', ''y''), (''x'', ''z'')] store ''y''"
    by (elim conjE allE[of _ "''y''"]) simp
  then show "run_moves [(''x'', ''z''), (''x'', ''tx''), (''y'', ''x''), (''tx'', ''y'')] store ''y'' = store ''x''"
    by (simp add: assign_together_def)
qed

text \<open>The second example of the documentation of \<^verbatim>\<open>serializeMerges\<close>: the code reads \<open>x\<close> before it assigns it.\<close>

lemma serialize_chain:
  "serialize_merges (\<lambda>n g. (''t'' @ n, g)) () [(''a'', ''x''), (''x'', ''y'')] = Inr ([(''x'', ''y''), (''a'', ''x'')], [])"
  by code_simp

text \<open>the serialization fails exactly when a destination is assigned twice, and makes temporaries only when
  some variable depends on itself.\<close>

theorem serialize_merges_returns:
  "(case serialize_merges gen st merges of
      Inl e \<Rightarrow> e = OtherError ''MergeError'' \<and> \<not> distinct (map snd merges)
    | Inr (moves, temps) \<Rightarrow> distinct (map snd merges) \<and> (temps = [] \<or> \<not> acyclic (set merges)))"
  by (rule serialize_merges_returns_lemma)

text \<open>C17: on the edge into a merge block, the statements that replace its phi nodes give every target the value its
  argument had before them, and change no other variable but the temporaries.\<close>

theorem phi_edge_correct:
  fixes store :: "'n \<Rightarrow> 'v"
  assumes "phi_edge gen st phis i = Inr (moves, temps)"
    and fresh: "\<And>phi. phi \<in> set phis \<Longrightarrow> phi_target phi \<notin> set temps \<and> Some ` set temps \<inter> set (phi_arguments phi) = {}"
  shows "(\<forall>phi \<in> set phis. \<forall>a. phi_arguments phi ! i = Some a \<longrightarrow> run_moves moves store (phi_target phi) = store a) \<and>
    (\<forall>v. v \<notin> phi_target ` set phis \<longrightarrow> v \<notin> set temps \<longrightarrow> run_moves moves store v = store v)"
proof -
  from assms(1) obtain merges where p: "phi_transfer phis i = Inr merges"
    and r: "(if merges = [] then Inr ([], []) else serialize_merges gen st merges) = Inr (moves, temps)"
    by (auto simp: phi_edge_def bind_res_eq_Inr)
  have m: "(src, dst) \<in> set merges \<longleftrightarrow> (\<exists>phi \<in> set phis. phi_arguments phi ! i = Some src \<and> phi_target phi = dst)" for src dst
    using p by (force simp: phi_transfer_def split: if_splits)
  have n: "i < length (phi_arguments phi)" if "phi \<in> set phis" for phi
    using p that by (force simp: phi_transfer_def split: if_splits)
  have d: "distinct (map snd merges)"
    using r serialize_merges_returns_lemma[where gen = gen and st = st and merges = merges] by (cases "merges = []") auto
  note G = swapped_facts[OF d]
  have together: "run_moves moves store v = assign_together merges store v" if "v \<notin> set temps" for v
  proof (cases "merges = []")
    case True
    with r show ?thesis by (simp add: assign_together_def)
  next
    case False
    have "set temps \<inter> (set (map fst merges) \<union> set (map snd merges)) = {}"
    proof -
      have "src \<notin> set temps \<and> dst \<notin> set temps" if e: "(src, dst) \<in> set merges" for src dst
      proof -
        obtain phi where phi: "phi \<in> set phis" "phi_arguments phi ! i = Some src" "phi_target phi = dst"
          using e m by blast
        then have "Some src \<in> set (phi_arguments phi)" using n[OF phi(1)] nth_mem by metis
        with fresh[OF phi(1)] phi(3) show ?thesis by blast
      qed
      then show ?thesis by fastforce
    qed
    with False r that serialize_merges_correct_lemma[of gen st merges moves temps store] show ?thesis by simp
  qed
  show ?thesis
  proof (intro conjI ballI allI impI)
    fix phi a assume phi: "phi \<in> set phis" "phi_arguments phi ! i = Some a"
    then have "map_of (swapped merges) (phi_target phi) = Some a" using m G(3) by blast
    then show "run_moves moves store (phi_target phi) = store a"
      using fresh[OF phi(1)] by (simp add: together assign_together_def)
  next
    fix v assume v: "v \<notin> phi_target ` set phis" "v \<notin> set temps"
    then have "map_of (swapped merges) v \<noteq> Some src" for src using m[of src v] G(3)[of v src] by blast
    then have "map_of (swapped merges) v = None" by (cases "map_of (swapped merges) v") auto
    then show "run_moves moves store v = store v" using v(2) by (simp add: together assign_together_def)
  qed
qed

theorem phi_edge_correct_witness:
  "\<forall>store :: string \<Rightarrow> int. run_moves [(''y'', ''ty''), (''x'', ''y''), (''ty'', ''x'')] store ''y'' = store ''x''"
proof
  fix store :: "string \<Rightarrow> int"
  let ?phis = "[\<lparr>phi_arguments = [Some ''a'', Some ''y''], phi_target = ''x''\<rparr>,
    \<lparr>phi_arguments = [None, Some ''x''], phi_target = ''y''\<rparr>]"
  have e: "phi_edge (\<lambda>n g. (''t'' @ n, g)) () ?phis 1 = Inr ([(''y'', ''ty''), (''x'', ''y''), (''ty'', ''x'')], [''ty''])"
    by code_simp
  show "run_moves [(''y'', ''ty''), (''x'', ''y''), (''ty'', ''x'')] store ''y'' = store ''x''"
    using phi_edge_correct[OF e, of store] by fastforce
qed

end
