(* ===== verification/C3Merge.thy ===== *)
theory C3Merge
  imports PyBase "HOL-Library.Sublist"
begin

text \<open>
  The C3 merge of \<^verbatim>\<open>frontend/resolution/hierarchy.py\<close> (\<^verbatim>\<open>ClassHierarchy._c3_merge\<close>): it takes linear orders of classes and
  makes one that agrees with all of them. The loop pops the head of some list in each turn, so it ends. What it promises
  is stated with \<open>agrees\<close>: a list without repetitions of which each given list is a subsequence. The
  merge returns exactly when there is one, and what it returns is one.
\<close>

section \<open>The code\<close>

abbreviation MROError :: py_error where "MROError \<equiv> OtherError ''MROError''"

definition object_class :: string where
  "object_class = ''builtins.object''"

definition in_tail :: "'a \<Rightarrow> 'a list list \<Rightarrow> bool" where
  "in_tail h non_empty = (\<exists>tail_lst \<in> set non_empty. length tail_lst > 1 \<and> h \<in> set (tl tail_lst))"

definition c3_candidate :: "'a list list \<Rightarrow> 'a option" where
  "c3_candidate non_empty = map_option hd (find (\<lambda>lst. \<not> in_tail (hd lst) non_empty) non_empty)"

definition pop_head :: "'a \<Rightarrow> 'a list \<Rightarrow> 'a list" where
  "pop_head candidate lst = (if lst \<noteq> [] \<and> hd lst = candidate then tl lst else lst)"

lemma length_pop_head: "length (pop_head c l) \<le> length l"
  by (simp add: pop_head_def)

lemma c3_candidate_SomeD:
  assumes "c3_candidate ls = Some c" and "[] \<notin> set ls"
  obtains l where "l \<in> set ls" "l \<noteq> []" "hd l = c" "\<not> in_tail c ls"
  using assms by (auto simp: c3_candidate_def find_Some_iff) (metis nth_mem)

lemma pop_head_shrinks:
  assumes "l \<in> set ls" and "l \<noteq> []" and "hd l = c"
  shows "sum_list (map length (map (pop_head c) ls)) < sum_list (map length ls)"
  using assms
proof (induction ls)
  case (Cons k ks)
  have le: "sum_list (map (length \<circ> pop_head c) ks) \<le> sum_list (map length ks)" for ks
    by (rule sum_list_mono) (simp add: length_pop_head)
  show ?case
  proof (cases "l = k")
    case True
    then have "length (pop_head c k) < length k" using Cons.prems by (cases k) (simp_all add: pop_head_def)
    then show ?thesis using le [of ks] by simp
  next
    case False
    then show ?thesis using Cons length_pop_head [of c k] by (simp add: add_le_less_mono)
  qed
qed simp

function c3_loop :: "'a list \<Rightarrow> 'a list list \<Rightarrow> 'a list res" where
  "c3_loop result mro_lists =
     (let non_empty = filter (\<lambda>lst. lst \<noteq> []) mro_lists
      in if non_empty = [] then Inr result
         else case c3_candidate non_empty of
             None \<Rightarrow> Inl MROError
           | Some candidate \<Rightarrow> c3_loop (result @ [candidate]) (map (pop_head candidate) mro_lists))"
  by pat_completeness auto
termination
  by (relation "measure (\<lambda>(_, mro_lists). sum_list (map length mro_lists))")
     (auto elim!: c3_candidate_SomeD intro: pop_head_shrinks simp del: map_map)

declare c3_loop.simps [simp del]

definition c3_merge :: "string \<Rightarrow> string list list \<Rightarrow> string list res" where
  "c3_merge class_name mro_lists =
     bind_res (c3_loop [class_name] mro_lists)
       (\<lambda>result. Inr (if class_name \<noteq> object_class \<and> object_class \<notin> set result
                      then result @ [object_class] else result))"

section \<open>Orders that agree with all lists\<close>

definition agrees :: "'a list list \<Rightarrow> 'a list \<Rightarrow> bool" where
  "agrees ls r \<longleftrightarrow> distinct r \<and> (\<forall>l \<in> set ls. subseq l r)"

lemma subseq_set: "subseq l r \<Longrightarrow> set l \<subseteq> set r"
  by (induction rule: list_emb.induct) auto

lemma subseq_distinct: "subseq l r \<Longrightarrow> distinct r \<Longrightarrow> distinct l"
  by (induction rule: list_emb.induct) (auto dest: subseq_set)

lemma pop_head_cases:
  "pop_head c l = l \<and> (l = [] \<or> hd l \<noteq> c) \<or> l = c # pop_head c l"
  by (cases l) (auto simp: pop_head_def)

lemma subseq_pop_head: "subseq (pop_head c l) l"
  by (cases l) (auto simp: pop_head_def)

lemma set_pop_head: "l \<noteq> [] \<Longrightarrow> c \<notin> set (tl l) \<Longrightarrow> set (pop_head c l) = set l - {c}"
  by (cases l) (auto simp: pop_head_def)

text \<open>The class taken is gone from all lists, so the rest of the order starts after it.\<close>

lemma c3_step_set:
  assumes "c3_candidate (filter (\<lambda>l. l \<noteq> []) ls) = Some c"
  shows "c \<in> \<Union> (set ` set ls)" and "\<Union> (set ` set (map (pop_head c) ls)) = \<Union> (set ` set ls) - {c}"
proof -
  obtain k where k: "k \<in> set ls" "k \<noteq> []" "hd k = c" and no: "\<not> in_tail c (filter (\<lambda>l. l \<noteq> []) ls)"
    using assms by (auto elim: c3_candidate_SomeD)
  from k show "c \<in> \<Union> (set ` set ls)" by (metis UN_I hd_in_set)
  have "set (pop_head c l) = set l - {c}" if "l \<in> set ls" for l
  proof (cases "l = []")
    case False
    have "c \<notin> set (tl l)"
    proof
      assume "c \<in> set (tl l)"
      then have "length l > 1" by (cases l) auto
      then show False using no that False \<open>c \<in> set (tl l)\<close> by (auto simp: in_tail_def)
    qed
    then show ?thesis using False by (simp add: set_pop_head)
  qed (simp add: pop_head_def)
  then show "\<Union> (set ` set (map (pop_head c) ls)) = \<Union> (set ` set ls) - {c}"
    by (simp add: image_image)
qed

lemma c3_loop_sound:
  assumes "c3_loop acc ls = Inr r"
  shows "\<exists>r'. r = acc @ r' \<and> agrees ls r' \<and> set r' = \<Union> (set ` set ls)"
  using assms
proof (induction acc ls rule: c3_loop.induct)
  case (1 acc ls)
  let ?ne = "filter (\<lambda>l. l \<noteq> []) ls"
  show ?case
  proof (cases "?ne = []")
    case True
    then have "\<forall>l \<in> set ls. l = []" by (simp add: filter_empty_conv)
    then show ?thesis using "1.prems" True by (auto simp: c3_loop.simps [of acc] agrees_def)
  next
    case False
    then obtain c where c: "c3_candidate ?ne = Some c"
      using "1.prems" by (cases "c3_candidate ?ne") (auto simp: c3_loop.simps [of acc])
    then have "c3_loop (acc @ [c]) (map (pop_head c) ls) = Inr r"
      using "1.prems" False by (simp add: c3_loop.simps [of acc])
    from "1.IH" [OF refl False c this] obtain r' where
      r': "r = (acc @ [c]) @ r'" "agrees (map (pop_head c) ls) r'" "set r' = \<Union> (set ` set (map (pop_head c) ls))"
      by blast
    have "subseq l (c # r')" if "l \<in> set ls" for l
    proof -
      have p: "subseq (pop_head c l) r'" using r'(2) that by (simp add: agrees_def)
      show ?thesis
      proof (cases "pop_head c l = l")
        case True
        then show ?thesis using p by (simp add: list_emb_Cons)
      next
        case False
        then have "l = c # pop_head c l" using pop_head_cases [of c l] by blast
        then show ?thesis using subseq_Cons2 [OF p, of c] by simp
      qed
    qed
    moreover have "c \<notin> set r'" using c3_step_set(2) [OF c] r'(3) by simp
    ultimately have "agrees ls (c # r')" using r'(2) by (simp add: agrees_def)
    moreover have "set (c # r') = \<Union> (set ` set ls)"
      using c3_step_set [OF c] r'(3) by (simp add: insert_absorb)
    ultimately show ?thesis using r'(1) by (intro exI [of _ "c # r'"]) simp
  qed
qed

text \<open>When some order agrees with the lists there is a candidate: of the heads, the one that comes first in the order.\<close>

lemma candidate_exists:
  assumes "agrees ls r" and "ls \<noteq> []" and "[] \<notin> set ls"
  shows "c3_candidate ls \<noteq> None"
  using assms
proof (induction r arbitrary: ls)
  case Nil
  then show ?case by (cases ls) (auto simp: agrees_def)
next
  case (Cons x r)
  show ?case
  proof (cases "\<exists>l \<in> set ls. hd l = x")
    case True
    have "\<not> in_tail x ls"
    proof
      assume "in_tail x ls"
      then obtain l where l: "l \<in> set ls" "x \<in> set (tl l)" by (auto simp: in_tail_def)
      then have "subseq l (x # r)" "x \<notin> set r" using Cons.prems by (auto simp: agrees_def)
      then have "subseq (tl l) r" by (cases l) (auto elim: subseq_Cons' simp: subseq_Cons2_iff split: if_splits)
      then show False using l(2) \<open>x \<notin> set r\<close> subseq_set by fast
    qed
    then show ?thesis using True by (auto simp: c3_candidate_def find_None_iff)
  next
    case False
    have "subseq l r" if "l \<in> set ls" for l
    proof -
      from that Cons.prems have "subseq l (x # r)" "l \<noteq> []" by (auto simp: agrees_def)
      then show ?thesis using False that by (cases l) (auto simp: subseq_Cons2_neq)
    qed
    then have "agrees ls r" using Cons.prems by (simp add: agrees_def)
    then show ?thesis using Cons by blast
  qed
qed

lemma agrees_pop: "agrees ls r \<Longrightarrow> agrees (map (pop_head c) ls) r"
  using subseq_pop_head subseq_order.order_trans by (fastforce simp: agrees_def)

lemma c3_loop_complete:
  assumes "agrees ls r"
  shows "\<exists>s. c3_loop acc ls = Inr s"
  using assms
proof (induction acc ls rule: c3_loop.induct)
  case (1 acc ls)
  let ?ne = "filter (\<lambda>l. l \<noteq> []) ls"
  show ?case
  proof (cases "?ne = []")
    case False
    have "agrees ?ne r" using "1.prems" by (simp add: agrees_def)
    then obtain c where c: "c3_candidate ?ne = Some c" using candidate_exists [of ?ne r] False by auto
    from "1.IH" [OF refl False c agrees_pop [OF "1.prems"]] show ?thesis
      using False c by (simp add: c3_loop.simps [of acc])
  qed (simp add: c3_loop.simps [of acc])
qed

lemma c3_loop_error: "c3_loop acc ls = Inl e \<Longrightarrow> e = MROError"
  by (induction acc ls rule: c3_loop.induct)
     (auto simp: c3_loop.simps [of acc for acc] Let_def split: if_splits option.splits)

lemma c3_loop_fails_iff: "c3_loop acc ls = Inl MROError \<longleftrightarrow> (\<nexists>r. agrees ls r)"
proof (cases "c3_loop acc ls")
  case (Inl e)
  then show ?thesis using c3_loop_error [OF Inl] c3_loop_complete [of ls _ acc] by auto
next
  case (Inr r)
  then show ?thesis using c3_loop_sound [OF Inr] by auto
qed

lemma c3_merge_InrE:
  assumes "c3_merge q ls = Inr r"
  obtains r' where "agrees ls r'" "set r' = \<Union> (set ` set ls)"
    "r = q # r' @ (if q \<noteq> object_class \<and> object_class \<notin> set r' then [object_class] else [])"
proof -
  obtain s where s: "c3_loop [q] ls = Inr s"
    and r: "r = (if q \<noteq> object_class \<and> object_class \<notin> set s then s @ [object_class] else s)"
    using assms by (auto simp: c3_merge_def bind_res_eq_Inr)
  obtain r' where "s = [q] @ r'" "agrees ls r'" "set r' = \<Union> (set ` set ls)"
    using c3_loop_sound [OF s] by blast
  with r show thesis by (intro that [of r']) auto
qed

lemma c3_merge_fails_iff: "c3_merge q ls = Inl MROError \<longleftrightarrow> (\<nexists>r. agrees ls r)"
  by (auto simp: c3_merge_def bind_res_eq_Inl c3_loop_fails_iff)

lemma c3_merge_error: "c3_merge q ls = Inl e \<Longrightarrow> e = MROError"
  by (auto simp: c3_merge_def bind_res_eq_Inl dest: c3_loop_error)

text \<open>What the merge gives, or why it fails, for all lists.\<close>

theorem c3_merge_correct:
  "case c3_merge q ls of
     Inl e \<Rightarrow> e = MROError \<and> (\<nexists>r. agrees ls r)
   | Inr l \<Rightarrow> (\<exists>r. agrees ls r \<and> set r = \<Union> (set ` set ls) \<and>
       l = q # r @ (if q \<noteq> object_class \<and> object_class \<notin> set r then [object_class] else []))"
proof (cases "c3_merge q ls")
  case (Inl e)
  then show ?thesis using c3_merge_error [OF Inl] c3_merge_fails_iff [of q ls] by simp
next
  case (Inr l)
  then show ?thesis by (auto elim!: c3_merge_InrE)
qed

text \<open>The orders of a diamond are merged, and two bases in both orders are refused.\<close>

lemma c3_merge_diamond:
  "c3_merge ''D'' [[''B'', ''A'', object_class], [''C'', ''A'', object_class], [''B'', ''C'']] =
   Inr [''D'', ''B'', ''C'', ''A'', object_class]"
  by code_simp

lemma c3_merge_conflict: "c3_merge ''D'' [[''X'', ''A'', ''B''], [''Y'', ''B'', ''A''], [''X'', ''Y'']] = Inl MROError"
  by code_simp

end
