(* ===== verification/ClassHierarchies.thy ===== *)
theory ClassHierarchies
  imports C3Merge "HOL-Library.AList"
begin

text \<open>
  \<^verbatim>\<open>ClassHierarchy\<close> of \<^verbatim>\<open>frontend/resolution/hierarchy.py\<close>: the classes that have been registered, their method resolution
  order, and the lookups along it, with the two caches. A dict that is iterated is an association list in insertion
  order, the caches are maps. Every method takes the hierarchy and returns it, also when it raises, because the
  orders found before the error stay in the cache. The syntax tree and the code object of a class are opaque values of type
  \<open>'o\<close>; the limit of Python on the depth of recursion is not modelled.
\<close>

section \<open>State\<close>

record 'o class_info =
  ci_name :: string
  ci_qualified_name :: string
  ci_module :: string
  ci_bases :: "string list"
  ci_resolved_bases :: "string list"
  ci_methods :: "string set"
  ci_attributes :: "string set"
  ci_ast_node :: "'o option"
  ci_code :: "'o option"

type_synonym 'o class_table = "(string \<times> 'o class_info) list"

type_synonym mro_cache = "string \<rightharpoonup> string list"

record 'o class_hierarchy =
  ch_classes :: "'o class_table"
  ch_names :: "(string \<times> (string \<times> string) list) list"
  ch_mro_cache :: mro_cache
  ch_method_cache :: "string \<times> string \<rightharpoonup> string option"

definition qualify :: "string \<Rightarrow> string \<Rightarrow> string" where
  "qualify module_name name = module_name @ ''.'' @ name"

definition builtin_types :: "string list" where
  "builtin_types =
     [''object'', ''type'', ''int'', ''float'', ''str'', ''bool'', ''List'', ''Dict'', ''Set'', ''Tuple'', ''Frozenset'',
      ''bytes'', ''bytearray'', ''complex'', ''NoneType'', ''ellipsis'', ''range'', ''slice'', ''Exception'',
      ''BaseException'']"

definition builtin_info :: "string \<Rightarrow> 'o class_info" where
  "builtin_info builtin =
     \<lparr>ci_name = builtin, ci_qualified_name = qualify ''builtins'' builtin, ci_module = ''builtins'',
      ci_bases = (if builtin \<noteq> ''object'' then [''object''] else []),
      ci_resolved_bases = (if builtin \<noteq> ''object'' then [object_class] else []),
      ci_methods = {}, ci_attributes = {}, ci_ast_node = None, ci_code = None\<rparr>"

definition object_info :: "'o class_info" where
  "object_info =
     \<lparr>ci_name = ''object'', ci_qualified_name = object_class, ci_module = ''builtins'', ci_bases = [],
      ci_resolved_bases = [], ci_methods = {''__init__'', ''__repr__'', ''__str__'', ''__eq__'', ''__hash__''},
      ci_attributes = {}, ci_ast_node = None, ci_code = None\<rparr>"

definition register_builtins :: "'o class_table \<Rightarrow> 'o class_table" where
  "register_builtins classes =
     AList.update object_class object_info
       (fold (\<lambda>builtin. AList.update (qualify ''builtins'' builtin) (builtin_info builtin)) builtin_types classes)"

definition new_hierarchy :: "'o class_hierarchy" where
  "new_hierarchy =
     \<lparr>ch_classes = register_builtins [], ch_names = [], ch_mro_cache = Map.empty, ch_method_cache = Map.empty\<rparr>"

section \<open>Registration\<close>

definition invalidated :: "mro_cache \<Rightarrow> string \<Rightarrow> string \<Rightarrow> bool" where
  "invalidated cache q qname \<longleftrightarrow> qname = q \<or> (\<exists>mro. cache qname = Some mro \<and> q \<in> set mro)"

lemma invalidated_code [code]:
  "invalidated cache q qname =
     (qname = q \<or> (case cache qname of None \<Rightarrow> False | Some mro \<Rightarrow> q \<in> set mro))"
  by (simp add: invalidated_def split: option.splits)

definition invalidate_cache :: "'o class_hierarchy \<Rightarrow> string \<Rightarrow> 'o class_hierarchy" where
  "invalidate_cache h q =
     h\<lparr>ch_mro_cache := (\<lambda>qname. if invalidated (ch_mro_cache h) q qname then None else ch_mro_cache h qname),
       ch_method_cache :=
         (\<lambda>(cls, method). if invalidated (ch_mro_cache h) q cls then None else ch_method_cache h (cls, method))\<rparr>"

text \<open>\<open>methods\<close> and \<open>attributes\<close> default to \<^verbatim>\<open>None\<close>, which adds nothing, like the empty set.\<close>

definition new_class ::
  "string \<Rightarrow> string list \<Rightarrow> string \<Rightarrow> string set option \<Rightarrow> string set option \<Rightarrow> 'o option \<Rightarrow> 'o option \<Rightarrow> 'o class_info" where
  "new_class name bases module_name methods attributes ast_node code =
     \<lparr>ci_name = name, ci_qualified_name = qualify module_name name, ci_module = module_name, ci_bases = bases,
      ci_resolved_bases = [], ci_methods = case_option {} id methods, ci_attributes = case_option {} id attributes,
      ci_ast_node = ast_node, ci_code = code\<rparr>"

definition update_class ::
  "string list \<Rightarrow> string set option \<Rightarrow> string set option \<Rightarrow> 'o option \<Rightarrow> 'o option \<Rightarrow> 'o class_info \<Rightarrow> 'o class_info" where
  "update_class bases methods attributes ast_node code existing =
     existing\<lparr>ci_bases := bases, ci_methods := ci_methods existing \<union> case_option {} id methods,
       ci_attributes := ci_attributes existing \<union> case_option {} id attributes,
       ci_ast_node := ast_node, ci_code := code\<rparr>"

definition record_name :: "string \<Rightarrow> string \<Rightarrow> (string \<times> (string \<times> string) list) list \<Rightarrow> (string \<times> (string \<times> string) list) list" where
  "record_name module_name name names =
     AList.update module_name
       (AList.update name (qualify module_name name) (case_option [] id (map_of names module_name))) names"

definition register_class ::
  "'o class_hierarchy \<Rightarrow> string \<Rightarrow> string list \<Rightarrow> string \<Rightarrow> string set option \<Rightarrow> string set option \<Rightarrow>
   'o option \<Rightarrow> 'o option \<Rightarrow> string \<times> 'o class_hierarchy" where
  "register_class h name bases module_name methods attributes ast_node code =
     (let q = qualify module_name name;
          info = (case map_of (ch_classes h) q of
                    Some existing \<Rightarrow> update_class bases methods attributes ast_node code existing
                  | None \<Rightarrow> new_class name bases module_name methods attributes ast_node code)
      in (q, invalidate_cache (h\<lparr>ch_classes := AList.update q info (ch_classes h),
                                 ch_names := record_name module_name name (ch_names h)\<rparr>) q))"

section \<open>Names of base classes\<close>

text \<open>\<^verbatim>\<open>base_name.split(".", 1)\<close> for a name with a dot.\<close>

definition split_dot :: "string \<Rightarrow> string \<times> string" where
  "split_dot s = (takeWhile (\<lambda>c. c \<noteq> CHR ''.'') s, tl (dropWhile (\<lambda>c. c \<noteq> CHR ''.'') s))"

definition imported :: "(string \<rightharpoonup> string) option \<Rightarrow> string \<Rightarrow> string option" where
  "imported imported_names name = (case imported_names of None \<Rightarrow> None | Some names \<Rightarrow> names name)"

definition resolve_dotted :: "'o class_hierarchy \<Rightarrow> string \<Rightarrow> (string \<rightharpoonup> string) option \<Rightarrow> string option" where
  "resolve_dotted h base_name imported_names =
     (let whole = (if map_of (ch_classes h) base_name \<noteq> None then Some base_name else None);
          (hd_name, tail) = split_dot base_name
      in case imported imported_names hd_name of
           None \<Rightarrow> whole
         | Some target \<Rightarrow>
             if target \<noteq> [] \<and> map_of (ch_classes h) (qualify target tail) \<noteq> None
             then Some (qualify target tail) else whole)"

definition resolve_base_class ::
  "'o class_hierarchy \<Rightarrow> string \<Rightarrow> string \<Rightarrow> (string \<rightharpoonup> string) option \<Rightarrow> string option" where
  "resolve_base_class h base_name current_module imported_names =
     (case imported imported_names base_name of
        Some target \<Rightarrow> Some target
      | None \<Rightarrow>
          if CHR ''.'' \<in> set base_name then resolve_dotted h base_name imported_names
          else case map_of (case_option [] id (map_of (ch_names h) current_module)) base_name of
              Some q \<Rightarrow> Some q
            | None \<Rightarrow> if map_of (ch_classes h) (qualify ''builtins'' base_name) \<noteq> None
                      then Some (qualify ''builtins'' base_name) else None)"

definition resolve_bases ::
  "'o class_hierarchy \<Rightarrow> string list \<Rightarrow> string \<Rightarrow> (string \<rightharpoonup> string) option \<Rightarrow> string list" where
  "resolve_bases h bases module_name imported_names =
     concat (map (\<lambda>base. case resolve_base_class h base module_name imported_names of
                           Some r \<Rightarrow> if r \<noteq> [] then [r] else [] | None \<Rightarrow> []) bases)"

definition get_classes_for_module :: "'o class_hierarchy \<Rightarrow> string \<Rightarrow> (string \<times> 'o class_info) list" where
  "get_classes_for_module h module_name =
     concat (map (\<lambda>(name, qual). case map_of (ch_classes h) qual of Some info \<Rightarrow> [(name, info)] | None \<Rightarrow> [])
       (case_option [] id (map_of (ch_names h) module_name)))"

section \<open>Method resolution order\<close>

text \<open>\<^verbatim>\<open>_compute_mro\<close> and its loop over the bases. Each call for a base has a copy of \<open>visited\<close>.\<close>

lemma unvisited_decreases:
  assumes "map_of classes q = Some info" and "q \<notin> visited"
  shows "card (fst ` set classes - insert q visited) < card (fst ` set classes - visited)"
proof (rule psubset_card_mono)
  have "q \<in> fst ` set classes" using map_of_SomeD [OF assms(1)] by (force simp: image_iff)
  then show "fst ` set classes - insert q visited \<subset> fst ` set classes - visited" using assms(2) by blast
qed simp

function (sequential)
  compute_mro :: "'o class_table \<Rightarrow> string set \<Rightarrow> mro_cache \<Rightarrow> string \<Rightarrow> string list res \<times> mro_cache" and
  compute_mros :: "'o class_table \<Rightarrow> string set \<Rightarrow> mro_cache \<Rightarrow> string list \<Rightarrow> string list list res \<times> mro_cache"
where
  "compute_mro classes visited cache q =
     (if q \<in> visited then (Inl MROError, cache)
      else case cache q of
          Some mro \<Rightarrow> (Inr mro, cache)
        | None \<Rightarrow>
            (case map_of classes q of
               None \<Rightarrow> (Inr [q], cache(q \<mapsto> [q]))
             | Some info \<Rightarrow>
                 if ci_resolved_bases info = [] then (Inr [q, object_class], cache(q \<mapsto> [q, object_class]))
                 else case compute_mros classes (insert q visited) cache (ci_resolved_bases info) of
                     (Inl e, cache') \<Rightarrow> (Inl e, cache')
                   | (Inr base_mros, cache') \<Rightarrow>
                       (case c3_merge q (base_mros @ [ci_resolved_bases info]) of
                          Inl e \<Rightarrow> (Inl e, cache')
                        | Inr mro \<Rightarrow> (Inr mro, cache'(q \<mapsto> mro)))))"
| "compute_mros classes visited cache [] = (Inr [], cache)"
| "compute_mros classes visited cache (base # bases) =
     (case compute_mro classes visited cache base of
        (Inl e, cache') \<Rightarrow> (Inl e, cache')
      | (Inr base_mro, cache') \<Rightarrow>
          (case compute_mros classes visited cache' bases of
             (Inl e, cache'') \<Rightarrow> (Inl e, cache'')
           | (Inr base_mros, cache'') \<Rightarrow> (Inr (base_mro # base_mros), cache'')))"
  by pat_completeness auto
termination
  by (relation "inv_image (less_than <*lex*> less_than)
        (\<lambda>x. case x of Inl (classes, visited, cache, q) \<Rightarrow> (card (fst ` set classes - visited), 0)
                     | Inr (classes, visited, cache, bases) \<Rightarrow> (card (fst ` set classes - visited), Suc (length bases)))")
     (auto intro!: unvisited_decreases)

declare compute_mro.simps [simp del]

definition get_mro :: "'o class_hierarchy \<Rightarrow> string \<Rightarrow> string list res \<times> 'o class_hierarchy" where
  "get_mro h q =
     (case ch_mro_cache h q of
        Some mro \<Rightarrow> (Inr mro, h)
      | None \<Rightarrow>
          if map_of (ch_classes h) q = None then (Inr [q], h)
          else case compute_mro (ch_classes h) {} (ch_mro_cache h) q of
              (r, cache) \<Rightarrow> (r, h\<lparr>ch_mro_cache := cache\<rparr>))"

section \<open>The class definitions of a module\<close>

text \<open>\<^verbatim>\<open>_register_class_in_hierarchy\<close> of \<^verbatim>\<open>frontend/extractor.py\<close>, from the names of the bases, the methods and the attributes
  that it reads off the class statement: the bases are resolved before the class is registered, and stored after it.\<close>

definition set_resolved_bases :: "'o class_hierarchy \<Rightarrow> string \<Rightarrow> string list \<Rightarrow> 'o class_hierarchy" where
  "set_resolved_bases h q bases =
     (case map_of (ch_classes h) q of
        None \<Rightarrow> h
      | Some info \<Rightarrow> h\<lparr>ch_classes := AList.update q (info\<lparr>ci_resolved_bases := bases\<rparr>) (ch_classes h)\<rparr>)"

definition register_source_class ::
  "'o class_hierarchy \<Rightarrow> string \<Rightarrow> string \<Rightarrow> string list \<Rightarrow> string set \<Rightarrow> string set \<Rightarrow> (string \<rightharpoonup> string) \<Rightarrow> 'o option \<Rightarrow>
   'o class_hierarchy" where
  "register_source_class h module_name class_name base_names methods attributes imported_names node =
     (let resolved = resolve_bases h base_names module_name (Some imported_names);
          (q, h') = register_class h class_name base_names module_name (Some methods) (Some attributes) node None
      in set_resolved_bases h' q resolved)"

section \<open>Lookups\<close>

definition declares :: "('o class_info \<Rightarrow> string set) \<Rightarrow> 'o class_table \<Rightarrow> string \<Rightarrow> string \<Rightarrow> bool" where
  "declares members classes name cls =
     (case map_of classes cls of None \<Rightarrow> False | Some info \<Rightarrow> name \<in> members info)"

definition resolve_method :: "'o class_hierarchy \<Rightarrow> string \<Rightarrow> string \<Rightarrow> string option res \<times> 'o class_hierarchy" where
  "resolve_method h q method =
     (case ch_method_cache h (q, method) of
        Some r \<Rightarrow> (Inr r, h)
      | None \<Rightarrow>
          (case get_mro h q of
             (Inl e, h') \<Rightarrow> (Inl e, h')
           | (Inr mro, h') \<Rightarrow>
               let r = find (declares ci_methods (ch_classes h') method) mro
               in (Inr r, h'\<lparr>ch_method_cache := (ch_method_cache h')((q, method) \<mapsto> r)\<rparr>)))"

definition resolve_attribute :: "'o class_hierarchy \<Rightarrow> string \<Rightarrow> string \<Rightarrow> string option res \<times> 'o class_hierarchy" where
  "resolve_attribute h q attr =
     (case get_mro h q of
        (Inl e, h') \<Rightarrow> (Inl e, h')
      | (Inr mro, h') \<Rightarrow>
          (Inr (case find (declares ci_attributes (ch_classes h') attr) mro of
                  Some cls \<Rightarrow> Some cls
                | None \<Rightarrow> find (declares ci_methods (ch_classes h') attr) mro), h'))"

definition get_all_methods :: "'o class_hierarchy \<Rightarrow> string \<Rightarrow> (string \<rightharpoonup> string) res \<times> 'o class_hierarchy" where
  "get_all_methods h q =
     (case get_mro h q of
        (Inl e, h') \<Rightarrow> (Inl e, h')
      | (Inr mro, h') \<Rightarrow>
          (Inr (fold (\<lambda>cls methods method. if declares ci_methods (ch_classes h') method cls then Some cls else methods method)
                 (rev mro) Map.empty), h'))"

definition class_is_subclass :: "'o class_hierarchy \<Rightarrow> string \<Rightarrow> string \<Rightarrow> bool res \<times> 'o class_hierarchy" where
  "class_is_subclass h child parent =
     (case get_mro h child of (Inl e, h') \<Rightarrow> (Inl e, h') | (Inr mro, h') \<Rightarrow> (Inr (parent \<in> set mro), h'))"

fun get_mros :: "'o class_hierarchy \<Rightarrow> string list \<Rightarrow> string list list res \<times> 'o class_hierarchy" where
  "get_mros h [] = (Inr [], h)"
| "get_mros h (c # cs) =
     (case get_mro h c of
        (Inl e, h') \<Rightarrow> (Inl e, h')
      | (Inr mro, h') \<Rightarrow>
          (case get_mros h' cs of (Inl e, h'') \<Rightarrow> (Inl e, h'') | (Inr mros, h'') \<Rightarrow> (Inr (mro # mros), h'')))"

definition common_ancestor :: "'o class_hierarchy \<Rightarrow> string list \<Rightarrow> string option res \<times> 'o class_hierarchy" where
  "common_ancestor h classes =
     (if classes = [] then (Inr None, h)
      else case get_mros h classes of
          (Inl e, h') \<Rightarrow> (Inl e, h')
        | (Inr mros, h') \<Rightarrow>
            let common = fold (\<inter>) (map set (tl mros)) (set (hd mros))
            in if common = {} then (Inr None, h')
               else case get_mro h' (hd classes) of
                   (Inl e, h'') \<Rightarrow> (Inl e, h'')
                 | (Inr first_mro, h'') \<Rightarrow> (Inr (find (\<lambda>cls. cls \<in> common) first_mro), h''))"

section \<open>Subclasses\<close>

definition get_direct_subclasses :: "'o class_hierarchy \<Rightarrow> string \<Rightarrow> string set" where
  "get_direct_subclasses h q = {c. \<exists>info. (c, info) \<in> set (ch_classes h) \<and> q \<in> set (ci_resolved_bases info)}"

lemma get_direct_subclasses_code [code]:
  "get_direct_subclasses h q = set (map fst (filter (\<lambda>(c, info). q \<in> set (ci_resolved_bases info)) (ch_classes h)))"
  by (force simp: get_direct_subclasses_def)

text \<open>The loop of \<^verbatim>\<open>get_all_subclasses\<close> over the items of \<^verbatim>\<open>self.classes\<close>; the state is \<^verbatim>\<open>subclasses\<close> and the
  set \<^verbatim>\<open>_visited\<close>, which all calls share. The recursive call is written out: its guard, and its loop with a set of its own.\<close>

partial_function (option) subclass_loop ::
  "'o class_table \<Rightarrow> string \<Rightarrow> 'o class_table \<Rightarrow> string set \<times> string set \<Rightarrow> (string set \<times> string set) option" where
  "subclass_loop classes q items s =
     (case items of
        [] \<Rightarrow> Some s
      | item # rest \<Rightarrow>
          if q \<in> set (ci_resolved_bases (snd item)) then
            (if fst item \<in> snd s then subclass_loop classes q rest (insert (fst item) (fst s), snd s)
             else Option.bind (subclass_loop classes (fst item) classes ({}, insert (fst item) (snd s)))
                    (\<lambda>t. subclass_loop classes q rest (insert (fst item) (fst s) \<union> fst t, snd t)))
          else subclass_loop classes q rest s)"

declare subclass_loop.simps [code]

definition get_all_subclasses :: "'o class_hierarchy \<Rightarrow> string \<Rightarrow> string set option" where
  "get_all_subclasses h q = map_option fst (subclass_loop (ch_classes h) q (ch_classes h) ({}, {q}))"

end
