(* ===== verification/Linearizations.thy ===== *)
theory Linearizations
  imports ClassHierarchies
begin

text \<open>
  The method resolution order as Python's reference defines it, without caches and without a record of visited classes:
  \<open>linearization classes c l\<close> says that \<open>l\<close> is the order of \<open>c\<close>. It is functional, has no derivation for a class in a cycle, and
  \<^verbatim>\<open>_compute_mro\<close> finds it, whatever right orders the cache holds. The section on its shape has what Python promises of an
  order: each class once, before its bases, which keep their order, and the orders of all ancestors kept.
\<close>

section \<open>The reference definition\<close>

inductive linearization :: "'o class_table \<Rightarrow> string \<Rightarrow> string list \<Rightarrow> bool" for classes :: "'o class_table" where
  lin_unknown: "map_of classes c = None \<Longrightarrow> linearization classes c [c]"
| lin_root: "map_of classes c = Some info \<Longrightarrow> ci_resolved_bases info = [] \<Longrightarrow> linearization classes c [c, object_class]"
| lin_bases: "map_of classes c = Some info \<Longrightarrow> ci_resolved_bases info = bases \<Longrightarrow> bases \<noteq> [] \<Longrightarrow>
    list_all2 (linearization classes) bases mros \<Longrightarrow> c3_merge c (mros @ [bases]) = Inr l \<Longrightarrow> linearization classes c l"

inductive_cases lin_casesE: "linearization classes c l"

definition base_of :: "'o class_table \<Rightarrow> (string \<times> string) set" where
  "base_of classes = {(c, b). \<exists>info. map_of classes c = Some info \<and> b \<in> set (ci_resolved_bases info)}"

definition ancestors :: "'o class_table \<Rightarrow> string \<Rightarrow> string set" where
  "ancestors classes c = (base_of classes)\<^sup>* `` {c}"

lemma ancestors_unfold:
  assumes "map_of classes c = Some info"
  shows "ancestors classes c = insert c (\<Union> (ancestors classes ` set (ci_resolved_bases info)))"
  using assms by (auto simp: ancestors_def base_of_def elim: converse_rtranclE intro: converse_rtrancl_into_rtrancl)

lemma ancestors_unknown: "map_of classes c = None \<Longrightarrow> ancestors classes c = {c}"
  by (auto simp: ancestors_def base_of_def elim: converse_rtranclE)

lemma self_ancestor: "c \<in> ancestors classes c"
  by (simp add: ancestors_def)

lemma list_all2_left:
  assumes "list_all2 P xs ys" and "x \<in> set xs"
  obtains y where "y \<in> set ys" "P x y"
  using assms by (induction xs ys rule: list_all2_induct) auto

lemma list_all2_right:
  assumes "list_all2 P xs ys" and "y \<in> set ys"
  obtains x where "x \<in> set xs" "P x y"
  using assms by (induction xs ys rule: list_all2_induct) auto

lemma list_all2_functional:
  assumes "list_all2 (\<lambda>x y. \<forall>z. R x z \<longrightarrow> y = z) xs ys" and "list_all2 R xs zs"
  shows "ys = zs"
  using assms by (induction xs ys arbitrary: zs rule: list_all2_induct) (auto simp: list_all2_Cons1)

lemma linearization_functional:
  assumes "linearization classes c l" and "linearization classes c l'"
  shows "l = l'"
  using assms
proof (induction arbitrary: l' rule: linearization.induct)
  case (lin_bases c info bases mros l)
  from lin_bases.prems lin_bases.hyps(1-3) obtain mros' where
    "list_all2 (linearization classes) bases mros'" "c3_merge c (mros' @ [bases]) = Inr l'"
    by (auto elim: lin_casesE)
  moreover have "mros = mros'"
    using list_all2_functional [of "linearization classes" bases mros mros'] lin_bases.IH calculation(1)
    by (simp add: list_all2_mono)
  ultimately show ?case using lin_bases.hyps(4) by simp
qed (auto elim: lin_casesE)

lemma linearization_error:
  assumes "linearization classes c l" and "b \<in> ancestors classes c"
  shows "\<exists>k. linearization classes b k"
  using assms
proof (induction rule: linearization.induct)
  case (lin_bases c info bases mros l)
  show ?case
  proof (cases "b = c")
    case True
    have "list_all2 (linearization classes) bases mros" using lin_bases.IH by (rule list_all2_mono) simp
    then show ?thesis using True linearization.lin_bases [OF lin_bases.hyps(1-3) _ lin_bases.hyps(4)] by blast
  next
    case False
    then obtain a where "a \<in> set bases" "b \<in> ancestors classes a"
      using lin_bases.prems lin_bases.hyps(2) ancestors_unfold [OF lin_bases.hyps(1)] by auto
    then show ?thesis using list_all2_left [OF lin_bases.IH] by metis
  qed
qed (auto simp: ancestors_unknown ancestors_unfold intro: linearization.intros)

lemma linearization_acyclic:
  assumes "linearization classes c l"
  shows "(c, c) \<notin> (base_of classes)\<^sup>+"
  using assms
proof (induction rule: linearization.induct)
  case (lin_bases c info bases mros l)
  show ?case
  proof
    assume "(c, c) \<in> (base_of classes)\<^sup>+"
    then obtain b where b: "(c, b) \<in> base_of classes" "(b, c) \<in> (base_of classes)\<^sup>*" by (metis tranclD)
    then have "b \<in> set bases" using lin_bases.hyps(1,2) by (auto simp: base_of_def)
    moreover have "(b, b) \<in> (base_of classes)\<^sup>+" using b by (meson rtrancl_into_trancl1)
    ultimately show False using list_all2_left [OF lin_bases.IH] by metis
  qed
qed (auto simp: base_of_def dest: tranclD)

section \<open>The code finds it\<close>

definition cache_ok :: "'o class_table \<Rightarrow> mro_cache \<Rightarrow> bool" where
  "cache_ok classes cache \<longleftrightarrow> (\<forall>c l. cache c = Some l \<longrightarrow> linearization classes c l)"

lemma cache_ok_upd: "cache_ok classes cache \<Longrightarrow> linearization classes c l \<Longrightarrow> cache_ok classes (cache(c \<mapsto> l))"
  by (simp add: cache_ok_def)

lemma compute_sound:
  "compute_mro classes visited cache q = (r, cache') \<Longrightarrow> cache_ok classes cache \<Longrightarrow>
     cache_ok classes cache' \<and> cache \<subseteq>\<^sub>m cache' \<and>
     (case r of Inl e \<Rightarrow> e = MROError | Inr l \<Rightarrow> linearization classes q l \<and> cache' q = Some l)"
  "compute_mros classes visited cache bases = (rs, cache') \<Longrightarrow> cache_ok classes cache \<Longrightarrow>
     cache_ok classes cache' \<and> cache \<subseteq>\<^sub>m cache' \<and>
     (case rs of Inl e \<Rightarrow> e = MROError | Inr ls \<Rightarrow> list_all2 (linearization classes) bases ls)"
proof (induction classes visited cache q and classes visited cache bases arbitrary: r cache' and rs cache'
    rule: compute_mro_compute_mros.induct)
  case (1 classes visited cache q)
  show ?case
  proof (cases "q \<in> visited \<or> cache q \<noteq> None")
    case True
    then show ?thesis using "1.prems" by (auto simp: compute_mro.simps cache_ok_def split: if_splits)
  next
    case False
    note new = this
    show ?thesis
    proof (cases "map_of classes q")
      case None
      then show ?thesis using "1.prems" new
        by (auto simp: compute_mro.simps [of classes visited cache q] intro: cache_ok_upd lin_unknown
            simp: map_le_def)
    next
      case (Some info)
      show ?thesis
      proof (cases "ci_resolved_bases info = []")
        case True
        then show ?thesis using "1.prems" new Some
          by (auto simp: compute_mro.simps [of classes visited cache q] intro: cache_ok_upd lin_root
              simp: map_le_def)
      next
        case False
        obtain rs c1 where rec: "compute_mros classes (insert q visited) cache (ci_resolved_bases info) = (rs, c1)"
          by (cases "compute_mros classes (insert q visited) cache (ci_resolved_bases info)")
        have ok: "cache_ok classes c1 \<and> cache \<subseteq>\<^sub>m c1 \<and>
            (case rs of Inl e \<Rightarrow> e = MROError | Inr ls \<Rightarrow> list_all2 (linearization classes) (ci_resolved_bases info) ls)"
          using "1.IH" new Some False rec "1.prems"(2) by auto
        show ?thesis
        proof (cases rs)
          case (Inl e)
          then show ?thesis using "1.prems"(1) new Some False rec ok
            by (auto simp: compute_mro.simps [of classes visited cache q])
        next
          case (Inr ls)
          show ?thesis
          proof (cases "c3_merge q (ls @ [ci_resolved_bases info])")
            case (Inl e)
            then have "r = Inl e" "cache' = c1"
              using "1.prems"(1) new Some False rec \<open>rs = Inr ls\<close>
              by (simp_all add: compute_mro.simps [of classes visited cache q])
            then show ?thesis using ok c3_merge_error [OF Inl] by simp
          next
            case (Inr mro)
            have lin: "linearization classes q mro"
              using linearization.lin_bases [OF Some refl False _ Inr] ok \<open>rs = Inr ls\<close> by simp
            have "cache \<subseteq>\<^sub>m c1(q \<mapsto> mro)" using ok new by (auto simp: map_le_def dom_def)
            moreover have "r = Inr mro" "cache' = c1(q \<mapsto> mro)"
              using "1.prems"(1) new Some False rec \<open>rs = Inr ls\<close> Inr
              by (simp_all add: compute_mro.simps [of classes visited cache q])
            moreover have "cache_ok classes (c1(q \<mapsto> mro))" using ok lin by (blast intro: cache_ok_upd)
            ultimately show ?thesis using lin by (simp only: sum.case fun_upd_same)
          qed
        qed
      qed
    qed
  qed
next
  case (2 classes visited cache)
  then show ?case by (auto simp: map_le_def)
next
  case (3 classes visited cache base bases)
  obtain r1 c1 where one: "compute_mro classes visited cache base = (r1, c1)"
    by (cases "compute_mro classes visited cache base")
  have ok1: "cache_ok classes c1 \<and> cache \<subseteq>\<^sub>m c1 \<and>
      (case r1 of Inl e \<Rightarrow> e = MROError | Inr l \<Rightarrow> linearization classes base l \<and> c1 base = Some l)"
    using "3.IH"(1) [OF one "3.prems"(2)] .
  show ?case
  proof (cases r1)
    case (Inl e)
    then show ?thesis using "3.prems"(1) one ok1 by auto
  next
    case (Inr l)
    obtain r2 c2 where two: "compute_mros classes visited c1 bases = (r2, c2)"
      by (cases "compute_mros classes visited c1 bases")
    have ok2: "cache_ok classes c2 \<and> c1 \<subseteq>\<^sub>m c2 \<and>
        (case r2 of Inl e \<Rightarrow> e = MROError | Inr ls \<Rightarrow> list_all2 (linearization classes) bases ls)"
      using "3.IH"(2) [OF one [symmetric] Inr two] ok1 by simp
    moreover have "cache \<subseteq>\<^sub>m c2" using ok1 ok2 map_le_trans by blast
    ultimately show ?thesis using "3.prems"(1) one two Inr ok1 by (cases r2) auto
  qed
qed

lemma compute_mros_complete:
  assumes "list_all2 (\<lambda>b l. \<forall>visited cache. cache_ok classes cache \<longrightarrow> visited \<inter> ancestors classes b = {} \<longrightarrow>
        (\<exists>cache'. compute_mro classes visited cache b = (Inr l, cache'))) bases ls"
    and "cache_ok classes cache" and "\<And>b. b \<in> set bases \<Longrightarrow> visited \<inter> ancestors classes b = {}"
  shows "\<exists>cache'. compute_mros classes visited cache bases = (Inr ls, cache')"
  using assms
proof (induction bases ls arbitrary: cache rule: list_all2_induct)
  case (Cons b bs l ls)
  obtain c1 where one: "compute_mro classes visited cache b = (Inr l, c1)"
    using Cons.hyps(1) Cons.prems(1) Cons.prems(2) [OF list.set_intros(1)] by blast
  then have "cache_ok classes c1" using compute_sound(1) Cons.prems(1) by blast
  then obtain c2 where "compute_mros classes visited c1 bs = (Inr ls, c2)"
    using Cons.IH [of c1] Cons.prems(2) by auto
  then show ?case using one by simp
qed simp

lemma compute_complete:
  assumes "linearization classes q l" and "cache_ok classes cache" and "visited \<inter> ancestors classes q = {}"
  shows "\<exists>cache'. compute_mro classes visited cache q = (Inr l, cache')"
  using assms
proof (induction arbitrary: visited cache rule: linearization.induct)
  case (lin_unknown c)
  then show ?case using self_ancestor [of c classes]
    by (auto simp: compute_mro.simps [of classes visited cache c] cache_ok_def split: option.split
        dest: linearization_functional [OF linearization.lin_unknown])
next
  case (lin_root c info)
  then show ?case using self_ancestor [of c classes]
    by (auto simp: compute_mro.simps [of classes visited cache c] cache_ok_def split: option.split
        dest: linearization_functional [OF linearization.lin_root])
next
  case (lin_bases c info bases mros l)
  have all: "list_all2 (linearization classes) bases mros" using lin_bases.IH by (rule list_all2_mono) simp
  have lin: "linearization classes c l" by (rule linearization.lin_bases [OF lin_bases.hyps(1-3) all lin_bases.hyps(4)])
  have c: "c \<notin> visited" using lin_bases.prems(2) self_ancestor [of c classes] by auto
  show ?case
  proof (cases "cache c")
    case (Some k)
    then have "k = l" using lin_bases.prems(1) linearization_functional [OF lin] by (auto simp: cache_ok_def)
    then show ?thesis using c Some by (simp add: compute_mro.simps [of classes visited cache c])
  next
    case None
    have "insert c visited \<inter> ancestors classes b = {}" if "b \<in> set bases" for b
    proof -
      have "(c, b) \<in> base_of classes" using that lin_bases.hyps(1,2) by (auto simp: base_of_def)
      then have "c \<notin> ancestors classes b"
        using linearization_acyclic [OF lin] by (auto simp: ancestors_def dest: rtrancl_into_trancl2)
      then show ?thesis
        using that lin_bases.prems(2) lin_bases.hyps(2) ancestors_unfold [OF lin_bases.hyps(1)] by auto
    qed
    moreover have "list_all2 (\<lambda>b l. \<forall>visited cache. cache_ok classes cache \<longrightarrow> visited \<inter> ancestors classes b = {} \<longrightarrow>
        (\<exists>cache'. compute_mro classes visited cache b = (Inr l, cache'))) bases mros"
      using lin_bases.IH by (rule list_all2_mono) blast
    ultimately obtain c' where "compute_mros classes (insert c visited) cache bases = (Inr mros, c')"
      using compute_mros_complete [of classes bases mros cache "insert c visited"] lin_bases.prems(1) by blast
    then show ?thesis using c None lin_bases.hyps
      by (simp add: compute_mro.simps [of classes visited cache c])
  qed
qed

lemma get_mro_linearization:
  assumes "cache_ok (ch_classes h) (ch_mro_cache h)" and "get_mro h q = (r, h')"
  shows "cache_ok (ch_classes h) (ch_mro_cache h')" and "ch_mro_cache h \<subseteq>\<^sub>m ch_mro_cache h'"
    and "h' = h\<lparr>ch_mro_cache := ch_mro_cache h'\<rparr>"
    and "case r of Inr l \<Rightarrow> linearization (ch_classes h) q l \<and> (ch_mro_cache h' q = Some l \<or> map_of (ch_classes h) q = None)
                 | Inl e \<Rightarrow> e = MROError \<and> (\<nexists>l. linearization (ch_classes h) q l)"
proof -
  have "cache_ok (ch_classes h) (ch_mro_cache h') \<and> ch_mro_cache h \<subseteq>\<^sub>m ch_mro_cache h' \<and>
    h' = h\<lparr>ch_mro_cache := ch_mro_cache h'\<rparr> \<and>
    (case r of Inr l \<Rightarrow> linearization (ch_classes h) q l \<and> (ch_mro_cache h' q = Some l \<or> map_of (ch_classes h) q = None)
             | Inl e \<Rightarrow> e = MROError \<and> (\<nexists>l. linearization (ch_classes h) q l))"
  proof (cases "ch_mro_cache h q = None \<and> map_of (ch_classes h) q \<noteq> None")
    case True
    obtain cache where run: "compute_mro (ch_classes h) {} (ch_mro_cache h) q = (r, cache)"
      and h': "h' = h\<lparr>ch_mro_cache := cache\<rparr>"
      using assms(2) True by (auto simp: get_mro_def split: prod.splits)
    have "\<nexists>l. linearization (ch_classes h) q l" if "r = Inl e" for e
      using compute_complete [OF _ assms(1), of q _ "{}"] run that by auto
    then show ?thesis using compute_sound(1) [OF run assms(1)] h' by (cases r) auto
  next
    case False
    then show ?thesis using assms
      by (auto simp: get_mro_def cache_ok_def map_le_def lin_unknown split: option.splits)
  qed
  then show "cache_ok (ch_classes h) (ch_mro_cache h')" and "ch_mro_cache h \<subseteq>\<^sub>m ch_mro_cache h'"
    and "h' = h\<lparr>ch_mro_cache := ch_mro_cache h'\<rparr>"
    and "case r of Inr l \<Rightarrow> linearization (ch_classes h) q l \<and> (ch_mro_cache h' q = Some l \<or> map_of (ch_classes h) q = None)
                 | Inl e \<Rightarrow> e = MROError \<and> (\<nexists>l. linearization (ch_classes h) q l)"
    by blast+
qed

end
