(* ===== verification/HierarchyResults.thy ===== *)
theory HierarchyResults
  imports ClassResolution
begin

text \<open>
  The states of a class hierarchy that its operations reach, and what holds in them: the caches cannot be
  observed, and the lookups are what the relation between a class and its bases says.
\<close>

section \<open>Reachable hierarchies\<close>

inductive hierarchy_run :: "'o class_hierarchy \<Rightarrow> bool" where
  run_new: "hierarchy_run new_hierarchy"
| run_register: "hierarchy_run h \<Longrightarrow>
    hierarchy_run (snd (register_class h name bases module_name methods attributes ast_node code))"
| run_source: "hierarchy_run h \<Longrightarrow>
    hierarchy_run (register_source_class h module_name name base_names methods' attributes' imported_names node)"
| run_mro: "hierarchy_run h \<Longrightarrow> hierarchy_run (snd (get_mro h q))"
| run_method: "hierarchy_run h \<Longrightarrow> hierarchy_run (snd (resolve_method h q name))"
| run_attribute: "hierarchy_run h \<Longrightarrow> hierarchy_run (snd (resolve_attribute h q name))"
| run_methods: "hierarchy_run h \<Longrightarrow> hierarchy_run (snd (get_all_methods h q))"
| run_subclass: "hierarchy_run h \<Longrightarrow> hierarchy_run (snd (class_is_subclass h q p))"
| run_ancestor: "hierarchy_run h \<Longrightarrow> hierarchy_run (snd (common_ancestor h cs))"

definition names_ok :: "'o class_hierarchy \<Rightarrow> bool" where
  "names_ok h \<longleftrightarrow> distinct (map fst (ch_classes h)) \<and>
     (\<forall>m ns n q. map_of (ch_names h) m = Some ns \<longrightarrow> map_of ns n = Some q \<longrightarrow>
        q = qualify m n \<and> map_of (ch_classes h) q \<noteq> None)"

definition hierarchy_ok :: "'o class_hierarchy \<Rightarrow> bool" where
  "hierarchy_ok h \<longleftrightarrow> caches_ok h \<and> names_ok h"

text \<open>A lookup changes the caches only.\<close>

lemma get_mro_keeps:
  assumes "hierarchy_ok h"
  shows "hierarchy_ok (snd (get_mro h q))" and "ch_classes (snd (get_mro h q)) = ch_classes h"
proof -
  obtain r h' where mro: "get_mro h q = (r, h')" by (cases "get_mro h q")
  have "h' = h\<lparr>ch_mro_cache := ch_mro_cache h'\<rparr>"
    using get_mro_linearization(3) [OF _ mro] assms by (simp add: hierarchy_ok_def caches_ok_def)
  then obtain cache where h': "h' = h\<lparr>ch_mro_cache := cache\<rparr>" by blast
  then show "ch_classes (snd (get_mro h q)) = ch_classes h" by (simp add: mro)
  have "names_ok h' = names_ok h" by (simp add: names_ok_def h')
  then show "hierarchy_ok (snd (get_mro h q))"
    using caches_ok_get_mro [OF _ mro] assms by (simp add: hierarchy_ok_def mro)
qed

lemma get_mros_keeps:
  assumes "hierarchy_ok h"
  shows "hierarchy_ok (snd (get_mros h cs)) \<and> ch_classes (snd (get_mros h cs)) = ch_classes h"
  using assms
proof (induction cs arbitrary: h)
  case (Cons c cs)
  obtain r h1 where one: "get_mro h c = (r, h1)" by (cases "get_mro h c")
  have ok: "hierarchy_ok h1" "ch_classes h1 = ch_classes h" using get_mro_keeps [OF Cons.prems, of c] one by simp_all
  obtain rs h2 where two: "get_mros h1 cs = (rs, h2)" by (cases "get_mros h1 cs")
  show ?case using Cons.IH [OF ok(1)] ok one two by (auto split: sum.splits)
qed simp

lemma resolve_method_keeps:
  assumes "hierarchy_ok h"
  shows "hierarchy_ok (snd (resolve_method h q m))"
proof -
  obtain r h' where m: "resolve_method h q m = (r, h')" by (cases "resolve_method h q m")
  obtain s h1 where mro: "get_mro h q = (s, h1)" by (cases "get_mro h q")
  have "names_ok h1" "names_ok h" using get_mro_keeps(1) [OF assms, of q] mro assms by (simp_all add: hierarchy_ok_def)
  then have "names_ok h'"
    using m mro by (auto simp: resolve_method_def Let_def names_ok_def split: option.splits sum.splits)
  then show ?thesis using caches_ok_resolve_method [OF _ m] assms m by (simp add: hierarchy_ok_def)
qed

lemma lookups_keep:
  assumes "hierarchy_ok h"
  shows "hierarchy_ok (snd (resolve_attribute h q m))" and "hierarchy_ok (snd (get_all_methods h q))"
    and "hierarchy_ok (snd (class_is_subclass h q p))"
  using get_mro_keeps(1) [OF assms, of q]
  by (auto simp: resolve_attribute_def get_all_methods_def class_is_subclass_def split: prod.splits sum.splits)

lemma common_ancestor_keeps:
  assumes "hierarchy_ok h"
  shows "hierarchy_ok (snd (common_ancestor h cs))"
proof -
  obtain r h1 where mros: "get_mros h cs = (r, h1)" by (cases "get_mros h cs")
  have ok: "hierarchy_ok h1" using get_mros_keeps [OF assms, of cs] mros by simp
  obtain s h2 where first: "get_mro h1 (hd cs) = (s, h2)" by (cases "get_mro h1 (hd cs)")
  have "hierarchy_ok h2" using get_mro_keeps(1) [OF ok, of "hd cs"] first by simp
  then show ?thesis using assms ok mros first by (auto simp: common_ancestor_def Let_def split: sum.splits)
qed

lemma names_ok_record:
  assumes "map_of (record_name m n names) m' = Some ns" and "map_of ns n' = Some q"
  shows "m' = m \<and> n' = n \<and> q = qualify m n \<or> (\<exists>ns'. map_of names m' = Some ns' \<and> map_of ns' n' = Some q)"
proof (cases "m' = m")
  case True
  then have "ns = AList.update n (qualify m n) (case_option [] id (map_of names m))"
    using assms(1) by (simp add: record_name_def update_conv')
  then show ?thesis using assms(2) True by (auto simp: update_conv' split: if_splits option.splits)
next
  case False
  then show ?thesis using assms by (simp add: record_name_def update_conv')
qed

lemma register_class_keeps:
  assumes "hierarchy_ok h"
  shows "hierarchy_ok (snd (register_class h name bases module_name methods attributes ast_node code))"
proof -
  obtain q h' where reg: "register_class h name bases module_name methods attributes ast_node code = (q, h')"
    by (cases "register_class h name bases module_name methods attributes ast_node code")
  note eff = register_class_effect [OF reg]
  have "q' = qualify m n \<and> map_of (ch_classes h') q' \<noteq> None"
    if "map_of (ch_names h') m = Some ns" "map_of ns n = Some q'" for m ns n q'
  proof -
    have "map_of (record_name module_name name (ch_names h)) m = Some ns" using that(1) eff(6) by simp
    from names_ok_record [OF this that(2)]
    consider "m = module_name" "n = name" "q' = q"
      | ns' where "map_of (ch_names h) m = Some ns'" "map_of ns' n = Some q'"
      using eff(1) by metis
    then show ?thesis
    proof cases
      case 2
      then have "q' = qualify m n \<and> map_of (ch_classes h) q' \<noteq> None"
        using assms unfolding hierarchy_ok_def names_ok_def by blast
      then show ?thesis using eff(2) [of q'] eff(3) by (cases "q' = q") auto
    qed (use eff in auto)
  qed
  then have "names_ok h'" using eff(7) assms by (simp add: names_ok_def hierarchy_ok_def)
  then show ?thesis using caches_ok_register_class(1) [OF _ reg] assms by (simp add: hierarchy_ok_def reg)
qed

lemma set_resolved_bases_keeps:
  assumes "hierarchy_ok h" and "forgotten h q"
  shows "hierarchy_ok (set_resolved_bases h q bases)"
proof -
  have "names_ok (set_resolved_bases h q bases)"
  proof (cases "map_of (ch_classes h) q")
    case (Some info)
    then show ?thesis using assms(1)
      by (auto simp: set_resolved_bases_def names_ok_def hierarchy_ok_def update_conv' distinct_update)
  qed (use assms(1) in \<open>simp add: set_resolved_bases_def hierarchy_ok_def\<close>)
  then show ?thesis using caches_ok_set_resolved_bases [OF _ assms(2)] assms(1) by (simp add: hierarchy_ok_def)
qed

lemma register_source_class_keeps:
  assumes "hierarchy_ok h"
  shows "hierarchy_ok (register_source_class h module_name name base_names methods attributes imported_names node)"
proof -
  obtain q h' where reg:
    "register_class h name base_names module_name (Some methods) (Some attributes) node None = (q, h')"
    by (cases "register_class h name base_names module_name (Some methods) (Some attributes) node None")
  have "hierarchy_ok h'" using register_class_keeps [OF assms] reg by (metis snd_conv)
  moreover have "forgotten h' q" using caches_ok_register_class(2) [OF _ reg] assms by (simp add: hierarchy_ok_def)
  ultimately show ?thesis using set_resolved_bases_keeps by (simp add: register_source_class_def reg)
qed

lemma distinct_updates:
  "distinct (map fst al) \<Longrightarrow> distinct (map fst (fold (\<lambda>b. AList.update (k b) (f b)) bs al))"
  by (induction bs arbitrary: al) (simp_all add: distinct_update)

lemma hierarchy_ok_new: "hierarchy_ok new_hierarchy"
proof -
  have "names_ok new_hierarchy"
    by (simp add: names_ok_def new_hierarchy_def register_builtins_def distinct_update distinct_updates)
  then show ?thesis using caches_ok_new by (simp add: hierarchy_ok_def)
qed

lemma hierarchy_run_ok: "hierarchy_run h \<Longrightarrow> hierarchy_ok h"
  by (induction rule: hierarchy_run.induct)
     (simp_all add: hierarchy_ok_new register_class_keeps register_source_class_keeps get_mro_keeps(1)
       resolve_method_keeps lookups_keep common_ancestor_keeps)

section \<open>Subclasses\<close>

definition children :: "'o class_table \<Rightarrow> string \<Rightarrow> string set" where
  "children items q = {c. \<exists>info. (c, info) \<in> set items \<and> q \<in> set (ci_resolved_bases info)}"

lemma children_simps [simp]:
  "children [] q = {}"
  "children ((c, info) # rest) q = (if q \<in> set (ci_resolved_bases info) then insert c (children rest q) else children rest q)"
  by (auto simp: children_def)

definition subclass_edges :: "'o class_table \<Rightarrow> (string \<times> string) set" where
  "subclass_edges classes = {(q, c). c \<in> children classes q}"

lemma subclass_edges_base_of:
  "distinct (map fst classes) \<Longrightarrow> subclass_edges classes = (base_of classes)\<inverse>"
  by (auto simp: subclass_edges_def children_def base_of_def)

text \<open>What a loop leaves: the classes it visits have their subclasses collected.\<close>

definition collected ::
  "'o class_table \<Rightarrow> string \<Rightarrow> 'o class_table \<Rightarrow> string set \<times> string set \<Rightarrow> string set \<times> string set \<Rightarrow> bool" where
  "collected classes q items s t \<longleftrightarrow>
     fst s \<subseteq> fst t \<and> snd s \<subseteq> snd t \<and> fst t \<subseteq> fst s \<union> (subclass_edges classes)\<^sup>+ `` {q} \<and>
     children items q \<subseteq> fst t \<inter> snd t \<and>
     (\<forall>x \<in> snd t - snd s. children classes x \<subseteq> fst t \<inter> snd t)"

lemma collected_skip:
  assumes "collected classes q rest s t" and "q \<notin> set (ci_resolved_bases info)"
  shows "collected classes q ((c, info) # rest) s t"
  using assms by (simp add: collected_def)

lemma collected_seen:
  assumes "collected classes q rest (insert c S, V) t" and "c \<in> V" and "(q, c) \<in> (subclass_edges classes)\<^sup>+"
  shows "collected classes q ((c, info) # rest) (S, V) t"
  using assms unfolding collected_def by (auto split: if_splits)

lemma collected_new:
  assumes one: "collected classes c classes ({}, insert c V) (T, V1)"
    and two: "collected classes q rest (insert c S \<union> T, V1) t"
    and edge: "(q, c) \<in> subclass_edges classes"
  shows "collected classes q ((c, info) # rest) (S, V) t"
proof -
  have kept: "T \<inter> V1 \<subseteq> fst t \<inter> snd t" using two by (auto simp: collected_def)
  have "(subclass_edges classes)\<^sup>+ `` {c} \<subseteq> (subclass_edges classes)\<^sup>+ `` {q}"
    using edge by (auto intro: trancl_into_trancl2)
  moreover have "T \<subseteq> (subclass_edges classes)\<^sup>+ `` {c}" using one by (simp add: collected_def)
  moreover have "c \<in> (subclass_edges classes)\<^sup>+ `` {q}" using edge by auto
  moreover have "fst t \<subseteq> insert c S \<union> T \<union> (subclass_edges classes)\<^sup>+ `` {q}"
    using two by (simp add: collected_def)
  ultimately have "fst t \<subseteq> S \<union> (subclass_edges classes)\<^sup>+ `` {q}" by blast
  moreover have "children classes x \<subseteq> fst t \<inter> snd t" if "x \<in> snd t - V" for x
  proof -
    from that consider "x = c" | "x \<in> V1 - insert c V" | "x \<in> snd t - V1" by blast
    then show ?thesis
    proof cases
      case 1
      then have "children classes x \<subseteq> T \<inter> V1" using one by (simp add: collected_def)
      then show ?thesis using kept by blast
    next
      case 2
      then have "children classes x \<subseteq> T \<inter> V1" using one by (simp add: collected_def)
      then show ?thesis using kept by blast
    next
      case 3
      then show ?thesis using two by (simp add: collected_def)
    qed
  qed
  moreover have "children ((c, info) # rest) q \<subseteq> fst t \<inter> snd t" "S \<subseteq> fst t" "V \<subseteq> snd t"
    using one two unfolding collected_def by (auto split: if_splits)
  ultimately show ?thesis by (simp add: collected_def)
qed

lemma subclass_loop_correct:
  assumes "set items \<subseteq> set classes"
  shows "\<exists>t. subclass_loop classes q items (S, V) = Some t \<and> collected classes q items (S, V) t"
  using assms
proof (induction "(card (fst ` set classes - V), length items)" arbitrary: q items S V
    rule: wf_induct_rule [OF wf_lex_prod [OF wf_less_than wf_less_than]])
  case (1 items V q S)
  note IH = this(1)
  show ?case
  proof (cases items)
    case Nil
    then show ?thesis by (simp add: subclass_loop.simps collected_def)
  next
    case (Cons item rest)
    obtain c info where item: "item = (c, info)" by (cases item)
    have rest: "set rest \<subseteq> set classes" and mem: "(c, info) \<in> set classes" using "1.prems" Cons item by auto
    note run = subclass_loop.simps [of classes q "(c, info) # rest" "(S, V)"]
    show ?thesis
    proof (cases "q \<in> set (ci_resolved_bases info)")
      case False
      obtain t where "subclass_loop classes q rest (S, V) = Some t" "collected classes q rest (S, V) t"
        using IH [of V rest q S] Cons rest by auto
      then show ?thesis using run False Cons item collected_skip [OF _ False] by simp
    next
      case True
      then have edge: "(q, c) \<in> subclass_edges classes" using mem by (auto simp: subclass_edges_def children_def)
      show ?thesis
      proof (cases "c \<in> V")
        case seen: True
        obtain t where "subclass_loop classes q rest (insert c S, V) = Some t"
          "collected classes q rest (insert c S, V) t"
          using IH [of V rest q "insert c S"] Cons rest by auto
        then show ?thesis using run True seen Cons item collected_seen [OF _ seen r_into_trancl [OF edge]] by simp
      next
        case new: False
        have "c \<in> fst ` set classes" using mem by force
        then have less: "card (fst ` set classes - insert c V) < card (fst ` set classes - V)"
          using new by (intro psubset_card_mono) auto
        obtain T V1 where one: "subclass_loop classes c classes ({}, insert c V) = Some (T, V1)"
          "collected classes c classes ({}, insert c V) (T, V1)"
          using IH [of "insert c V" classes c "{}"] less by auto
        then have "card (fst ` set classes - V1) \<le> card (fst ` set classes - V)"
          by (intro card_mono) (auto simp: collected_def)
        then have "((card (fst ` set classes - V1), length rest), card (fst ` set classes - V), length items)
            \<in> less_than <*lex*> less_than" using Cons by auto
        from IH [OF this rest, of q "insert c S \<union> T"]
        obtain t where two: "subclass_loop classes q rest (insert c S \<union> T, V1) = Some t"
          "collected classes q rest (insert c S \<union> T, V1) t" by blast
        have "subclass_loop classes q items (S, V) = Some t"
          using run True new Cons item one(1) two(1) by simp
        then show ?thesis using collected_new [OF one(2) two(2) edge] Cons item by blast
      qed
    qed
  qed
qed

lemma get_all_subclasses_lemma:
  assumes "distinct (map fst (ch_classes h))"
  shows "get_all_subclasses h q = Some {c. (c, q) \<in> (base_of (ch_classes h))\<^sup>+}"
proof -
  let ?E = "subclass_edges (ch_classes h)"
  obtain S V where run: "subclass_loop (ch_classes h) q (ch_classes h) ({}, {q}) = Some (S, V)"
    and post: "collected (ch_classes h) q (ch_classes h) ({}, {q}) (S, V)"
    using subclass_loop_correct [of "ch_classes h" "ch_classes h" q "{}" "{q}"] by auto
  have next_in: "d \<in> S \<inter> V" if "x \<in> V" "(x, d) \<in> ?E" for x d
    using that post by (cases "x = q") (auto simp: subclass_edges_def collected_def)
  have "c \<in> S \<inter> V" if "(q, c) \<in> ?E\<^sup>+" for c
    using that
  proof (induction rule: trancl_induct)
    case (base y)
    then show ?case using post by (auto simp: collected_def subclass_edges_def)
  next
    case (step y z)
    then show ?case using next_in [of y z] by simp
  qed
  then have "S = ?E\<^sup>+ `` {q}" using post by (auto simp: collected_def)
  also have "\<dots> = {c. (c, q) \<in> (base_of (ch_classes h))\<^sup>+}"
    using subclass_edges_base_of [OF assms] by (simp add: trancl_converse Image_def)
  finally show ?thesis using run by (simp add: get_all_subclasses_def)
qed

section \<open>What the lookups answer\<close>

text \<open>The order of a class in a reachable hierarchy is the one of the reference definition, and \<^verbatim>\<open>MROError\<close> is raised exactly when there is none.\<close>

theorem get_mro_correct:
  assumes "hierarchy_run h"
  shows "case fst (get_mro h q) of
      Inr l \<Rightarrow> linearization (ch_classes h) q l
    | Inl e \<Rightarrow> e = MROError \<and> (\<nexists>l. linearization (ch_classes h) q l)"
proof -
  obtain r h' where mro: "get_mro h q = (r, h')" by (cases "get_mro h q")
  then show ?thesis
    using get_mro_linearization(4) [OF _ mro] hierarchy_run_ok [OF assms]
    by (auto simp: hierarchy_ok_def caches_ok_def split: sum.splits)
qed

text \<open>An order has the class first and each ancestor once, with \<^verbatim>\<open>object\<close> when the class is known; every ancestor comes before its
  bases, which keep their order, and the order of every ancestor is kept.\<close>

theorem mro_shape:
  assumes "hierarchy_run h" and "fst (get_mro h q) = Inr l" and "q \<noteq> object_class"
  shows "(\<exists>r. l = q # r) \<and> distinct l \<and>
    set l = ancestors (ch_classes h) q \<union> (if map_of (ch_classes h) q = None then {} else {object_class}) \<and>
    (\<forall>a \<in> ancestors (ch_classes h) q.
       (\<forall>info. map_of (ch_classes h) a = Some info \<longrightarrow> subseq (a # ci_resolved_bases info) l) \<and>
       (\<forall>k. linearization (ch_classes h) a k \<longrightarrow> subseq k l))"
proof -
  have l: "linearization (ch_classes h) q l" using get_mro_correct [OF assms(1), of q] assms(2) by simp
  have "subseq (a # ci_resolved_bases info) l"
    if a: "a \<in> ancestors (ch_classes h) q" and info: "map_of (ch_classes h) a = Some info" for a info
  proof -
    obtain k where "linearization (ch_classes h) a k" using linearization_error [OF l a] by blast
    then show ?thesis using lin_keeps_bases [OF _ info] lin_monotone [OF l a] subseq_order.order_trans by blast
  qed
  then show ?thesis using lin_hd [OF l] lin_distinct [OF l assms(3)] lin_set [OF l] lin_monotone [OF l] by blast
qed

text \<open>The caches cannot be observed: lookups give what they give when both are emptied.\<close>

definition without_caches :: "'o class_hierarchy \<Rightarrow> 'o class_hierarchy" where
  "without_caches h = h\<lparr>ch_mro_cache := Map.empty, ch_method_cache := Map.empty\<rparr>"

lemma caches_ok_without: "caches_ok (without_caches h)"
  by (simp add: caches_ok_def cache_ok_def methods_ok_def without_caches_def)

lemma resolve_method_answer:
  assumes "caches_ok h"
  shows "fst (resolve_method h q m) =
    (case fst (get_mro h q) of Inl e \<Rightarrow> Inl e | Inr l \<Rightarrow> Inr (find (declares ci_methods (ch_classes h) m) l))"
proof -
  obtain r h' where mro: "get_mro h q = (r, h')" by (cases "get_mro h q")
  have ok: "cache_ok (ch_classes h) (ch_mro_cache h)" using assms by (simp add: caches_ok_def)
  note eff = get_mro_linearization(3,4) [OF ok mro]
  show ?thesis
  proof (cases "ch_method_cache h (q, m)")
    case None
    have "ch_classes h' = ch_classes h" by (subst eff(1)) simp
    then show ?thesis using None mro by (simp add: resolve_method_def Let_def split: sum.split)
  next
    case (Some d)
    then have "entry_ok h q m d" using assms by (auto simp: caches_ok_def intro: methods_okD)
    then obtain l where l: "linearization (ch_classes h) q l" "d = find (declares ci_methods (ch_classes h) m) l"
      by (auto simp: entry_ok_def)
    then have "r = Inr l" using eff(2) by (cases r) (auto dest: linearization_functional)
    then show ?thesis using Some mro l(2) by (simp add: resolve_method_def)
  qed
qed

theorem caches_invisible:
  assumes "hierarchy_run h"
  shows "fst (get_mro h q) = fst (get_mro (without_caches h) q) \<and>
    fst (resolve_method h q m) = fst (resolve_method (without_caches h) q m)"
proof -
  have ok: "caches_ok h" using hierarchy_run_ok [OF assms] by (simp add: hierarchy_ok_def)
  have "ch_classes (without_caches h) = ch_classes h" by (simp add: without_caches_def)
  then show ?thesis
    using get_mro_determined [OF ok caches_ok_without [of h]]
    by (simp add: resolve_method_answer [OF ok] resolve_method_answer [OF caches_ok_without] split: sum.split)
qed

text \<open>The method table of a class is the table of its single lookups.\<close>

lemma method_table_find:
  "fold (\<lambda>cls methods method. if P method cls then Some cls else methods method) (rev mro) Map.empty m = find (P m) mro"
  by (induction mro) simp_all

theorem method_table_correct:
  assumes "hierarchy_run h"
  shows "case fst (get_all_methods h q) of
      Inl e \<Rightarrow> fst (resolve_method h q m) = Inl e
    | Inr methods \<Rightarrow> fst (resolve_method h q m) = Inr (methods m)"
proof -
  have ok: "hierarchy_ok h" by (rule hierarchy_run_ok [OF assms])
  obtain r h' where mro: "get_mro h q = (r, h')" by (cases "get_mro h q")
  have "ch_classes h' = ch_classes h" using get_mro_keeps(2) [OF ok, of q] mro by simp
  then show ?thesis
    using resolve_method_answer [of h q m] ok mro method_table_find [of "declares ci_methods (ch_classes h)"]
    by (simp add: hierarchy_ok_def get_all_methods_def split: sum.split)
qed

theorem get_all_subclasses_correct:
  assumes "hierarchy_run h"
  shows "get_all_subclasses h q = Some {c. (c, q) \<in> (base_of (ch_classes h))\<^sup>+}"
  using hierarchy_run_ok [OF assms] by (intro get_all_subclasses_lemma) (simp add: hierarchy_ok_def names_ok_def)

text \<open>A name that is resolved without an import is the name of a registered class.\<close>

lemma resolve_base_class_registered:
  assumes "hierarchy_run h" and "resolve_base_class h base m imports = Some q" and "imported imports base = None"
  shows "map_of (ch_classes h) q \<noteq> None"
proof -
  have names: "map_of (ch_classes h) q' \<noteq> None" if "map_of (ch_names h) m = Some ns" "map_of ns n = Some q'" for ns n q'
    using hierarchy_run_ok [OF assms(1)] that unfolding hierarchy_ok_def names_ok_def by blast
  show ?thesis
  proof (cases "CHR ''.'' \<in> set base")
    case True
    then show ?thesis using assms(2,3)
      by (auto simp: resolve_base_class_def resolve_dotted_def Let_def split: option.splits if_splits prod.splits)
  next
    case False
    then show ?thesis using assms(2,3) names
      by (fastforce simp: resolve_base_class_def split: option.splits if_splits)
  qed
qed

section \<open>A defect: classes with \<^verbatim>\<open>object\<close> as a base\<close>

text \<open>\<^verbatim>\<open>_compute_mro\<close> gives a class without bases the order \<^verbatim>\<open>[c, object]\<close>, and \<^verbatim>\<open>builtins.object\<close> itself, which is registered without bases,
  the order \<^verbatim>\<open>[object, object]\<close>. No order agrees with a list that has a class twice, so every class with \<^verbatim>\<open>builtins.object\<close> among its
  ancestors raises \<^verbatim>\<open>MROError\<close>: each builtin but \<^verbatim>\<open>object\<close>, and what derives from one or names \<^verbatim>\<open>object\<close> as its base.\<close>

lemma object_base_no_order:
  assumes "map_of classes object_class = Some info" and "ci_resolved_bases info = []"
    and "(q, object_class) \<in> (base_of classes)\<^sup>+"
  shows "\<nexists>l. linearization classes q l"
proof
  assume "\<exists>l. linearization classes q l"
  then obtain l where l: "linearization classes q l" ..
  obtain c where c: "(q, c) \<in> (base_of classes)\<^sup>*" "(c, object_class) \<in> base_of classes"
    using assms(3) by (meson tranclD2)
  then obtain k where "linearization classes c k"
    using linearization_error [OF l, of c] by (auto simp: ancestors_def)
  then show False
  proof (cases rule: linearization.cases)
    case (lin_bases info' bases mros)
    then have "object_class \<in> set bases" using c(2) by (auto simp: base_of_def)
    then obtain mro where "mro \<in> set mros" "linearization classes object_class mro"
      by (rule list_all2_left [OF lin_bases(4)])
    moreover have "linearization classes object_class [object_class, object_class]"
      using assms(1,2) by (rule lin_root)
    ultimately have "[object_class, object_class] \<in> set mros" using linearization_functional by blast
    moreover obtain r where "agrees (mros @ [bases]) r" using lin_bases(5) by (rule c3_merge_InrE)
    ultimately have "subseq [object_class, object_class] r" "distinct r" by (auto simp: agrees_def)
    then have "distinct [object_class, object_class]" by (rule subseq_distinct)
    then show False by simp
  qed (use c(2) in \<open>auto simp: base_of_def\<close>)
qed

theorem object_base_raises:
  assumes "hierarchy_run h" and "map_of (ch_classes h) object_class = Some info" and "ci_resolved_bases info = []"
    and "(q, object_class) \<in> (base_of (ch_classes h))\<^sup>+"
  shows "fst (get_mro h q) = Inl MROError"
  using get_mro_correct [OF assms(1), of q] object_base_no_order [OF assms(2-4)]
  by (auto split: sum.splits)

text \<open>Right after the constructor, for \<^verbatim>\<open>builtins.Exception\<close>.\<close>

theorem exception_has_no_order:
  "fst (get_mro (new_hierarchy :: 'o class_hierarchy) (qualify ''builtins'' ''Exception'')) = Inl MROError"
proof -
  let ?c = "ch_classes (new_hierarchy :: 'o class_hierarchy)"
  have "map_of ?c object_class = Some object_info"
    by (simp add: new_hierarchy_def register_builtins_def update_conv')
  moreover have "map_of ?c (qualify ''builtins'' ''Exception'') = Some (builtin_info ''Exception'')"
    by (simp add: new_hierarchy_def register_builtins_def update_conv' builtin_types_def qualify_def object_class_def)
  then have "(qualify ''builtins'' ''Exception'', object_class) \<in> base_of ?c"
    by (simp add: base_of_def builtin_info_def)
  ultimately show ?thesis
    by (intro object_base_raises [OF run_new, of object_info]) (simp_all add: object_info_def r_into_trancl)
qed

text \<open>Registering a class leaves its resolved bases empty, so the usage that the module documents gives an order without the base.\<close>

theorem documented_usage:
  fixes h h' :: "'o class_hierarchy"
  defines "h \<equiv> snd (register_class new_hierarchy ''MyClass'' [''BaseClass''] ''mymodule'' None None None None)"
  defines "h' \<equiv> snd (register_class h ''BaseClass'' [''object''] ''basemodule'' None None None None)"
  shows "fst (get_mro h' ''mymodule.MyClass'') = Inr [''mymodule.MyClass'', object_class]"
proof -
  have "map_of (ch_classes (new_hierarchy :: 'o class_hierarchy)) ''mymodule.MyClass'' = None"
    by (simp add: new_hierarchy_def register_builtins_def update_conv' builtin_types_def qualify_def object_class_def)
  then have "map_of (ch_classes h) ''mymodule.MyClass'' = Some (new_class ''MyClass'' [''BaseClass''] ''mymodule'' None None None None)"
    by (simp add: h_def register_class_def Let_def invalidate_cache_def update_conv' qualify_def)
  then have "map_of (ch_classes h') ''mymodule.MyClass'' = Some (new_class ''MyClass'' [''BaseClass''] ''mymodule'' None None None None)"
    by (simp add: h'_def register_class_def Let_def invalidate_cache_def update_conv' qualify_def)
  then have "linearization (ch_classes h') ''mymodule.MyClass'' [''mymodule.MyClass'', object_class]"
    by (rule lin_root) (simp add: new_class_def)
  moreover have "hierarchy_run h'" unfolding h'_def h_def by (intro run_register run_new)
  ultimately show ?thesis
    using get_mro_correct [of h' "''mymodule.MyClass''"] by (auto split: sum.splits dest: linearization_functional)
qed

end
