(* ===== verification/Spec2Isabelle.thy ===== *)
theory Spec2Isabelle
  imports PyBase TaintLocations AbstractStrings TaintStates TaintLattice
    FactStores PassCaches PassManagers PassScheduling
    Supergraphs SolverBookkeeping ExplodedGraphs StepLogic IfdsSolvers IfdsCorrectness IfdsResults
    EdgeFunctions IdeSolvers ExplodedValues IdeCorrectness IdeResults IdeExamples
    MirSyntax MirSerialization MirInterpreter MirSafety
    Dominance Dominators DominatorResults DjGraphs DjResults DjTrees DjFrontiers PhiPlacement MergeSerialization
    C3Merge ClassHierarchies Linearizations ClassResolution HierarchyResults
begin

text \<open>
  A verification development of pyflow, a static analyser for Python (\<^verbatim>\<open>src/src/pyflow\<close>).

  The program translates Python source into graphs and intermediate representations, runs analyses over
  them under a pass manager, keeps their results in fact stores and caches, and lets checkers
  query them. The development models the engines that the analyses share, in six groups.

  \<^bold>\<open>Interprocedural solvers\<close> (\<^verbatim>\<open>analysis/ifds/core\<close>). \<open>Supergraphs\<close> is the class \<^verbatim>\<open>Supergraph\<close>
  (\<^verbatim>\<open>supergraph.py\<close>): a record of its dicts, the builder methods with their errors, all queries.
  \<open>SolverBookkeeping\<close> has options, call contexts, statistics, traces and budgets of \<^verbatim>\<open>solver.py\<close>.
  \<open>IfdsSolvers\<close> is \<^verbatim>\<open>IFDSSolver.solve\<close>, one definition for each loop of its body, on the record
  \<open>ifds_state\<close> of its local variables; \<open>EdgeFunctions\<close> has the edge functions of \<^verbatim>\<open>problem.py\<close> with
  \<^verbatim>\<open>compose\<close> and \<^verbatim>\<open>join\<close>; \<open>IdeSolvers\<close> is \<^verbatim>\<open>IDESolver.solve\<close> and the result queries.
  The specifications are runs of the program with a stack of calls (\<open>realizable\<close> in \<open>ExplodedGraphs\<close>,
  \<open>valued_run\<close> in \<open>ExplodedValues\<close>) and, between them and the code, the tabulation rules
  (\<open>tabulated\<close>, \<open>travels\<close>). \<open>IfdsCorrectness\<close> and \<open>IdeCorrectness\<close> prove one contract for each
  step of the solvers in the logic of the locale \<open>step_logic\<close> (\<open>StepLogic\<close>); \<open>IfdsResults\<close> and
  \<open>IdeResults\<close> draw the conclusions: a complete result is exactly the solution over all valid
  runs, whatever the depth of the call strings, the order of facts and the limits; both solvers
  terminate; their only error is the limit. \<open>IdeExamples\<close> runs them.

  \<^bold>\<open>Taint domain\<close> (\<^verbatim>\<open>checker/common/taint\<close>). \<open>TaintLocations\<close> (\<^verbatim>\<open>locations.py\<close>: access paths, aliasing of index
  selectors, summaries), \<open>AbstractStrings\<close> (\<^verbatim>\<open>strings.py\<close>), \<open>TaintStates\<close> (\<^verbatim>\<open>state.py\<close>, \<^verbatim>\<open>provenance.py\<close>,
  \<^verbatim>\<open>uncertainty.py\<close>: the abstract state with its two indexes) and \<open>TaintLattice\<close>: the operations
  against a plain map from locations to facts, and the lattice laws of the join.

  \<^bold>\<open>Facts and passes\<close> (\<^verbatim>\<open>ir/core/facts.py\<close>, \<^verbatim>\<open>application\<close>). \<open>FactStores\<close> is the store of
  versioned facts with its requirements; \<open>PassCaches\<close> the sessions and result caches with their tokens;
  \<open>PassManagers\<close> the registry, dependency resolution and pipelines; \<open>PassScheduling\<close> the
  execution of a pipeline with invalidation. The passes themselves are functions given to the manager.

  \<^bold>\<open>MIR\<close> (\<^verbatim>\<open>ir/mir\<close>). \<open>MirSyntax\<close> (\<^verbatim>\<open>model.py\<close>: the language and its validation), \<open>MirSerialization\<close>
  (\<^verbatim>\<open>serialization.py\<close> and the \<^verbatim>\<open>to_dict\<close> methods), \<open>MirInterpreter\<close> (\<^verbatim>\<open>interpreter.py\<close>) and \<open>MirSafety\<close>:
  the loader accepts exactly valid programs and gives back a dumped one; running a valid program
  raises only the documented errors and keeps the memory without dangling references.

  \<^bold>\<open>Static single assignment\<close> (\<^verbatim>\<open>util/graphalgorithim\<close>, \<^verbatim>\<open>ir/cfg\<close>). \<open>Dominance\<close> says what dominators are.
  \<open>Dominators\<close> is \<^verbatim>\<open>findIDoms\<close> of \<^verbatim>\<open>dominator.py\<close>, with its search, and \<open>DominatorResults\<close> proves that its passes
  end and find the immediate dominators. \<open>DjGraphs\<close> is \<^verbatim>\<open>dom.py\<close>, which builds the tree of the dominators on them;
  \<open>DjResults\<close> follows the construction, \<open>DjTrees\<close> the tree, and \<open>DjFrontiers\<close> shows that its numbers decide
  dominance and its sets are the dominance frontiers. \<open>PhiPlacement\<close> is the placement of phi nodes in \<^verbatim>\<open>ssa.py\<close>:
  after it a single definition of a variable reaches a node. \<open>MergeSerialization\<close> is \<^verbatim>\<open>merge.py\<close> and its use in
  \<^verbatim>\<open>expandphi.py\<close>, the way back: the serialized assignments do what the phi nodes do at once. The graph is a
  function from a node to its successors, as \<^verbatim>\<open>forwardCallback\<close> is, that reaches finitely many nodes.

  \<^bold>\<open>Class hierarchy\<close> (\<^verbatim>\<open>frontend/resolution/hierarchy.py\<close>, with the registration of a class statement in
  \<^verbatim>\<open>frontend/extractor.py\<close>). \<open>C3Merge\<close> is \<^verbatim>\<open>_c3_merge\<close>: it gives an order that agrees with all lists whenever there is one.
  \<open>ClassHierarchies\<close> is the class \<^verbatim>\<open>ClassHierarchy\<close> with its two caches. \<open>Linearizations\<close> has the method resolution order without
  caches, as a relation, and \<^verbatim>\<open>_compute_mro\<close> finds it on every hierarchy, cyclic ones too. \<open>ClassResolution\<close> and
  \<open>HierarchyResults\<close> show the shape of the orders, that the caches cannot be observed in any hierarchy that the operations reach,
  what the lookups and the subclasses are, and a defect: no class that derives from \<^verbatim>\<open>builtins.object\<close> by name has an order.

  \<^bold>\<open>Conventions.\<close> \<open>PyBase\<close> has the shared base: errors as the datatype of the exceptions the code raises,
  results as a sum, Python dicts and sets as maps or, where their order is observed, as
  association lists, and the folds that stop at the first error. Python integers are \<open>int\<close>. A method that
  mutates its object takes and returns the record. What is not under \<^verbatim>\<open>src/\<close>, and what a component
  takes from its clients (flow functions, passes, the clock, \<^verbatim>\<open>repr\<close> and the stable keys of opaque
  objects), is an argument; flow functions and passes are pure functions of theirs.

  \<^bold>\<open>Loops and fuel.\<close> The worklists and the iteration of the IDE sources are \<open>partial_function\<close>s, so that
  \<open>None\<close> is a run that never ends; that they end is proved (\<open>ifds_terminates\<close>, \<open>ide_terminates\<close>,
  \<open>ide_terminates_limited\<close>). So are the loops over graphs, which end on finite ones (\<open>find_idoms_correct\<close>,
  \<open>dj_dominates_correct\<close>, \<open>phi_placement_correct\<close>). The IDE solver ends without a limit only when the edge functions that it can build
  are finitely many, which is a hypothesis. The MIR interpreter has fuel; \<open>mir_run_returns\<close> shows that the
  fuel given by \<open>mir_run\<close> is enough for every program, since the step limit of the code bounds it.
  All other loops are structural or have a measure.

  \<^bold>\<open>Not modelled.\<close> The clients of these engines: the concrete IFDS problems and checkers, the
  frontend apart from the class hierarchy, the graph representations beyond their dominance analysis, the alias, type and shape analyses, the concolic engine, the
  command line and the language server; they work on Python syntax trees and on the host interpreter.
  Of the modelled files: printing (\<^verbatim>\<open>format_*\<close>, \<^verbatim>\<open>explain_path\<close>), the limits of \<^verbatim>\<open>json.loads\<close> on
  digits and nesting, lone surrogates in strings, and the source position that the MIR interpreter
  attaches to an exception.
\<close>

end
